(* ===== verification/Clox_Prelude.thy ===== *)
theory Clox_Prelude
  imports Main "HOL-Library.Word"
begin

text \<open>
  Shared vocabulary of the development.

  The C program has operations that do not return a value in the normal way: they read
  through a null pointer, call a null function pointer, run past an array, or loop for
  ever. A model function that can do so returns a \<open>result\<close>: \<open>Inl\<close> carries the reason,
  \<open>Inr\<close> the value. The theory also holds the C character classification the tokenizer
  uses, the array growth policy of \<^verbatim>\<open>include/mem.h\<close>, the layout of structs in memory, and
  lemmas on lists that several components share.
\<close>

section \<open>Results\<close>

text \<open>Why a piece of C code does not return.\<close>

datatype fault =
    Null_Deref        \<comment> \<open>a field is read or written through a null pointer\<close>
  | Null_Call         \<comment> \<open>a null function pointer is called\<close>
  | Out_Of_Bounds     \<comment> \<open>an array or buffer is accessed outside its live part\<close>
  | Stack_Underflow   \<comment> \<open>the value stack is popped below its base\<close>
  | Stack_Overflow    \<comment> \<open>the value stack is pushed past its last slot\<close>
  | Div_By_Zero       \<comment> \<open>an integer remainder by zero\<close>
  | Use_After_Free    \<comment> \<open>a freed or never allocated cell is accessed\<close>
  | Bad_Cast          \<comment> \<open>an object is used at a type it does not have\<close>

datatype stop =
    Crash fault
  | Out_Of_Fuel       \<comment> \<open>the step budget of the model is used up\<close>

type_synonym 'a result = "stop + 'a"

definition bind_result :: "'a result \<Rightarrow> ('a \<Rightarrow> 'b result) \<Rightarrow> 'b result" where
  "bind_result r f = (case r of Inl e \<Rightarrow> Inl e | Inr x \<Rightarrow> f x)"

named_theorems result_simps \<open>rewriting of sequenced results\<close>

lemma bind_result_Inl [simp, result_simps]: "bind_result (Inl e) f = Inl e"
  by (simp add: bind_result_def)

lemma bind_result_Inr [simp, result_simps]: "bind_result (Inr x) f = f x"
  by (simp add: bind_result_def)

lemma bind_result_eq_Inr [result_simps]:
  "bind_result r f = Inr y \<longleftrightarrow> (\<exists>x. r = Inr x \<and> f x = Inr y)"
  by (cases r) auto

lemma bind_result_InrE [elim]:
  assumes "bind_result r f = Inr y"
  obtains x where "r = Inr x" "f x = Inr y"
  using assms by (cases r) auto

lemma bind_result_assoc: "bind_result (bind_result r f) g = bind_result r (\<lambda>x. bind_result (f x) g)"
  by (cases r) auto

text \<open>A result satisfies a predicate when it stops or its value does.\<close>

definition holds :: "('a \<Rightarrow> bool) \<Rightarrow> 'a result \<Rightarrow> bool" where
  "holds P r \<longleftrightarrow> (\<forall>x. r = Inr x \<longrightarrow> P x)"

lemma holds_Inl [simp, intro]: "holds P (Inl e)"
  by (simp add: holds_def)

lemma holds_Inr [simp]: "holds P (Inr x) = P x"
  by (simp add: holds_def)

lemma holds_bind: "holds P r \<Longrightarrow> (\<And>x. P x \<Longrightarrow> holds Q (f x)) \<Longrightarrow> holds Q (bind_result r f)"
  by (cases r) auto

lemma holdsD: "holds P r \<Longrightarrow> r = Inr x \<Longrightarrow> P x"
  by (simp add: holds_def)

lemma holds_mono: "holds P r \<Longrightarrow> (\<And>x. P x \<Longrightarrow> Q x) \<Longrightarrow> holds Q r"
  by (auto simp: holds_def)

text \<open>A result that is not for want of fuel.\<close>

definition ends :: "'a result \<Rightarrow> bool" where
  "ends r \<longleftrightarrow> r \<noteq> Inl Out_Of_Fuel"

lemma ends_simps [simp]: "ends (Inr x)" "ends (Inl e) \<longleftrightarrow> e \<noteq> Out_Of_Fuel"
  by (simp_all add: ends_def)

lemma ends_bind [intro]: "ends r \<Longrightarrow> (\<And>x. r = Inr x \<Longrightarrow> ends (f x)) \<Longrightarrow> ends (bind_result r f)"
  by (cases r) auto

section \<open>C integers and characters\<close>

type_synonym byte = "8 word"
type_synonym short = "16 word"
type_synonym hash = "32 word"

text \<open>\<^verbatim>\<open>char\<close> is a signed 8-bit integer on the platforms the build files name.\<close>

definition schar :: "char \<Rightarrow> int" where
  "schar c = (let n = (of_char c :: int) in if n < 128 then n else n - 256)"

text \<open>\<^verbatim>\<open>isdigit\<close> and \<^verbatim>\<open>isalpha\<close> of \<^verbatim>\<open>ctype.h\<close> in the C locale, on an \<^verbatim>\<open>int\<close> argument.\<close>

definition isdigit :: "int \<Rightarrow> bool" where
  "isdigit n \<longleftrightarrow> 48 \<le> n \<and> n \<le> 57"

definition isalpha :: "int \<Rightarrow> bool" where
  "isalpha n \<longleftrightarrow> 65 \<le> n \<and> n \<le> 90 \<or> 97 \<le> n \<and> n \<le> 122"

lemma isdigit_not_isalpha: "isdigit n \<Longrightarrow> \<not> isalpha n"
  by (auto simp: isdigit_def isalpha_def)

section \<open>Array growth (include/mem.h)\<close>

text \<open>\<^verbatim>\<open>GROW_CAPACITY\<close>: at least 8, then doubling.\<close>

definition GROW_CAPACITY :: "nat \<Rightarrow> nat" where
  "GROW_CAPACITY capacity = (if capacity < 8 then 8 else capacity * 2)"

lemma GROW_CAPACITY_gt [simp]: "capacity < GROW_CAPACITY capacity"
  by (simp add: GROW_CAPACITY_def)

lemma GROW_CAPACITY_ge_8: "8 \<le> GROW_CAPACITY capacity"
  by (simp add: GROW_CAPACITY_def)

section \<open>Lists\<close>

lemma length_filter_update:
  assumes "i < length xs"
  shows "length (filter P (xs[i := y])) + (if P (xs ! i) then 1 else 0)
       = length (filter P xs) + (if P y then 1 else 0)"
  using assms
proof (induction xs arbitrary: i)
  case Nil
  then show ?case by simp
next
  case (Cons x xs)
  then show ?case by (cases i) auto
qed

lemma length_filter_less_ex:
  assumes "length (filter P xs) < length xs"
  shows "\<exists>i < length xs. \<not> P (xs ! i)"
  using assms by (metis filter_True in_set_conv_nth nat_less_le)

lemma take_append_nth_drop: "i < length xs \<Longrightarrow> take i xs @ xs ! i # drop (Suc i) xs = xs"
  by (simp add: id_take_nth_drop [symmetric])

text \<open>A list without its element at position \<open>k\<close>.\<close>

definition remove_nth :: "nat \<Rightarrow> 'a list \<Rightarrow> 'a list" where
  "remove_nth k xs = take k xs @ drop (Suc k) xs"

lemma length_remove_nth [simp]: "k < length xs \<Longrightarrow> length (remove_nth k xs) = length xs - 1"
  by (simp add: remove_nth_def)

lemma nth_remove_nth:
  "k < length xs \<Longrightarrow> Suc i < length xs \<Longrightarrow> remove_nth k xs ! i = (if i < k then xs ! i else xs ! Suc i)"
  by (simp add: remove_nth_def nth_append min_def)

lemma set_remove_nth: "set (remove_nth k xs) \<subseteq> set xs"
  by (auto simp: remove_nth_def dest: in_set_takeD in_set_dropD)

lemma distinct_remove_nth: "distinct xs \<Longrightarrow> distinct (remove_nth k xs)"
  by (auto simp: remove_nth_def set_take_disj_set_drop_if_distinct)

lemma remove_nth_0: "remove_nth 0 xs = tl xs"
  by (simp add: remove_nth_def drop_Suc)

lemma remove_nth_last: "xs \<noteq> [] \<Longrightarrow> remove_nth (length xs - 1) xs = butlast xs"
  by (simp add: remove_nth_def butlast_conv_take)

section \<open>Layout of structs\<close>

text \<open>
  Some code writes through a pointer of the wrong type, where the place of a field matters. A
  struct is the list of its fields with their sizes, all scalars and aligned to their size, as the
  System V ABI for 64-bit machines lays them out: a field starts at the next multiple of its size,
  and the struct ends at a multiple of its widest field.
\<close>

type_synonym fields = "(string \<times> nat) list"

definition sizeof_int :: nat where [simp]:
  "sizeof_int = 4"

definition sizeof_pointer :: nat where [simp]:
  "sizeof_pointer = 8"

definition align_up :: "nat \<Rightarrow> nat \<Rightarrow> nat" where
  "align_up n offset = (offset + n - 1) div n * n"

fun offset_from :: "nat \<Rightarrow> fields \<Rightarrow> string \<Rightarrow> nat option" where
  "offset_from offset [] f = None"
| "offset_from offset ((g, n) # fs) f =
     (if f = g then Some (align_up n offset) else offset_from (align_up n offset + n) fs f)"

fun end_from :: "nat \<Rightarrow> fields \<Rightarrow> nat" where
  "end_from offset [] = offset"
| "end_from offset ((g, n) # fs) = end_from (align_up n offset + n) fs"

definition offsetof :: "fields \<Rightarrow> string \<Rightarrow> nat" where
  "offsetof fs f = the (offset_from 0 fs f)"

definition sizeof_struct :: "fields \<Rightarrow> nat" where
  "sizeof_struct fs = align_up (foldr max (map snd fs) 1) (end_from 0 fs)"

text \<open>
  Whether a store of \<open>n\<close> bytes at an offset stays inside a block that \<^verbatim>\<open>malloc\<close> returned for a
  request of \<open>request\<close> bytes; \<open>usable\<close> tells how many bytes of such a block may be used.
\<close>

definition inside_block :: "(nat \<Rightarrow> nat) \<Rightarrow> nat \<Rightarrow> nat \<Rightarrow> nat \<Rightarrow> bool" where
  "inside_block usable request offset n \<longleftrightarrow> offset + n \<le> usable request"

end
