(* ===== verification/C_Double.thy ===== *)
theory C_Double
  imports Clox_Prelude
begin

text \<open>
  The C type \<^verbatim>\<open>double\<close> as the program uses it (\<^verbatim>\<open>VmNumber\<close> of \<^verbatim>\<open>include/vm/value.h\<close>, the
  number literals of both front ends): IEEE 754 binary64 with rounding to nearest, ties
  to even. A finite value is a sign, a significand \<open>m\<close> and an exponent \<open>e\<close> and stands for
  \<open>m * 2 ^ e\<close>; every operation computes the exact result as an integer multiple of a power
  of two (with a flag for a lost remainder) and rounds once. All operations are
  executable. The type invariant \<open>dbl_ok\<close> says that a value is one of the 64-bit values.
\<close>

datatype double = NaN | Infty bool | Fin bool int int

section \<open>Rounding\<close>

text \<open>The number of binary digits of a positive integer.\<close>

function nbits :: "int \<Rightarrow> int" where
  "nbits n = (if n \<le> 0 then 0 else nbits (n div 2) + 1)"
  by pat_completeness auto
termination
  by (relation "measure nat") auto

declare nbits.simps [simp del]

text \<open>
  \<open>dbl_pack\<close> turns a rounded significand of at most 53 bits (or exactly \<open>2 ^ 53\<close>) into a
  value, carrying into the exponent and overflowing to infinity where needed.
\<close>

definition dbl_pack :: "bool \<Rightarrow> int \<Rightarrow> int \<Rightarrow> double" where
  "dbl_pack s m q =
     (let (m', q') = (if m = 2 ^ 53 then (2 ^ 52, q + 1) else (m, q))
      in if q' > 971 then Infty s else Fin s m' q')"

text \<open>
  \<open>dbl_round s m e sticky\<close> rounds the magnitude \<open>m * 2 ^ e\<close>, plus something strictly
  between 0 and \<open>2 ^ e\<close> when \<open>sticky\<close> is set.
\<close>

definition dbl_round :: "bool \<Rightarrow> int \<Rightarrow> int \<Rightarrow> bool \<Rightarrow> double" where
  "dbl_round s m e sticky =
     (if m = 0 then Fin s 0 (-1074)
      else let q = max (e + nbits m - 53) (-1074);
               k = q - e
           in if k \<le> 0 then dbl_pack s (m * 2 ^ nat (- k)) q
              else let d = m div 2 ^ nat k;
                       r = m mod 2 ^ nat k;
                       half = 2 ^ (nat k - 1);
                       up = (half < r \<or> (r = half \<and> (sticky \<or> odd d)))
                   in dbl_pack s (if up then d + 1 else d) q)"

text \<open>The quotient \<open>p / q * 2 ^ e\<close>, with at least 55 significant bits before rounding.\<close>

definition dbl_ratio :: "bool \<Rightarrow> int \<Rightarrow> int \<Rightarrow> int \<Rightarrow> double" where
  "dbl_ratio s p q e =
     (let k = 55 + nbits q; n = p * 2 ^ nat k
      in dbl_round s (n div q) (e - k) (n mod q \<noteq> 0))"

section \<open>The operators of the C language\<close>

definition dbl_neg :: "double \<Rightarrow> double" where
  "dbl_neg x = (case x of NaN \<Rightarrow> NaN | Infty s \<Rightarrow> Infty (\<not> s) | Fin s m e \<Rightarrow> Fin (\<not> s) m e)"

definition signed :: "bool \<Rightarrow> int \<Rightarrow> int" where
  "signed s m = (if s then - m else m)"

definition dbl_of_signed :: "bool \<Rightarrow> int \<Rightarrow> int \<Rightarrow> double" where
  "dbl_of_signed zs v e =
     (if v = 0 then Fin zs 0 (-1074) else dbl_round (v < 0) \<bar>v\<bar> e False)"

fun dbl_add :: "double \<Rightarrow> double \<Rightarrow> double" where
  "dbl_add NaN _ = NaN"
| "dbl_add _ NaN = NaN"
| "dbl_add (Infty s) (Infty t) = (if s = t then Infty s else NaN)"
| "dbl_add (Infty s) (Fin _ _ _) = Infty s"
| "dbl_add (Fin _ _ _) (Infty t) = Infty t"
| "dbl_add (Fin s m e) (Fin t n f) =
     (let g = min e f
      in dbl_of_signed (s \<and> t)
           (signed s m * 2 ^ nat (e - g) + signed t n * 2 ^ nat (f - g)) g)"

definition dbl_sub :: "double \<Rightarrow> double \<Rightarrow> double" where
  "dbl_sub x y = dbl_add x (dbl_neg y)"

fun dbl_mul :: "double \<Rightarrow> double \<Rightarrow> double" where
  "dbl_mul NaN _ = NaN"
| "dbl_mul _ NaN = NaN"
| "dbl_mul (Infty s) (Infty t) = Infty (s \<noteq> t)"
| "dbl_mul (Infty s) (Fin t n _) = (if n = 0 then NaN else Infty (s \<noteq> t))"
| "dbl_mul (Fin s m _) (Infty t) = (if m = 0 then NaN else Infty (s \<noteq> t))"
| "dbl_mul (Fin s m e) (Fin t n f) = dbl_round (s \<noteq> t) (m * n) (e + f) False"

fun dbl_div :: "double \<Rightarrow> double \<Rightarrow> double" where
  "dbl_div NaN _ = NaN"
| "dbl_div _ NaN = NaN"
| "dbl_div (Infty _) (Infty _) = NaN"
| "dbl_div (Infty s) (Fin t _ _) = Infty (s \<noteq> t)"
| "dbl_div (Fin s _ _) (Infty t) = Fin (s \<noteq> t) 0 (-1074)"
| "dbl_div (Fin s m e) (Fin t n f) =
     (if n = 0 then (if m = 0 then NaN else Infty (s \<noteq> t))
      else if m = 0 then Fin (s \<noteq> t) 0 (-1074)
      else dbl_ratio (s \<noteq> t) m n (e - f))"

fun dbl_less :: "double \<Rightarrow> double \<Rightarrow> bool" where
  "dbl_less NaN _ = False"
| "dbl_less _ NaN = False"
| "dbl_less (Infty s) (Infty t) = (s \<and> \<not> t)"
| "dbl_less (Infty s) (Fin _ _ _) = s"
| "dbl_less (Fin _ _ _) (Infty t) = (\<not> t)"
| "dbl_less (Fin s m e) (Fin t n f) =
     (let g = min e f
      in signed s m * 2 ^ nat (e - g) < signed t n * 2 ^ nat (f - g))"

fun dbl_eq :: "double \<Rightarrow> double \<Rightarrow> bool" where
  "dbl_eq NaN _ = False"
| "dbl_eq _ NaN = False"
| "dbl_eq (Infty s) (Infty t) = (s = t)"
| "dbl_eq (Infty _) (Fin _ _ _) = False"
| "dbl_eq (Fin _ _ _) (Infty _) = False"
| "dbl_eq (Fin s m e) (Fin t n f) =
     (let g = min e f
      in signed s m * 2 ^ nat (e - g) = signed t n * 2 ^ nat (f - g))"

text \<open>Conversion of an integer to \<^verbatim>\<open>double\<close>.\<close>

definition dbl_of_int :: "int \<Rightarrow> double" where
  "dbl_of_int i = dbl_of_signed False i 0"

section \<open>strtod on decimal literals\<close>

text \<open>
  \<^verbatim>\<open>strtod\<close> (and \<^verbatim>\<open>atof\<close>) on the lexeme of a number token, that is digits with at most one
  point between digits: the value of the longest such prefix, correctly rounded.
\<close>

definition digit_val :: "char \<Rightarrow> int" where
  "digit_val c = schar c - 48"

definition decimal :: "string \<Rightarrow> int" where
  "decimal ds = foldl (\<lambda>n c. 10 * n + digit_val c) 0 ds"

definition strtod :: "string \<Rightarrow> double" where
  "strtod s =
     (let is_dig = (\<lambda>c. isdigit (schar c));
          ip = takeWhile is_dig s;
          rest = dropWhile is_dig s;
          fp = (case rest of [] \<Rightarrow> [] | c # cs \<Rightarrow> if c = CHR ''.'' then takeWhile is_dig cs else [])
      in dbl_ratio False (decimal (ip @ fp)) (10 ^ length fp) 0)"

section \<open>The type invariant\<close>

definition dbl_ok :: "double \<Rightarrow> bool" where
  "dbl_ok x = (case x of NaN \<Rightarrow> True | Infty _ \<Rightarrow> True
     | Fin _ m e \<Rightarrow> 0 \<le> m \<and> m < 2 ^ 53 \<and> -1074 \<le> e \<and> e \<le> 971 \<and> (2 ^ 52 \<le> m \<or> e = -1074))"

lemma nbits_nonneg: "0 \<le> nbits n"
  by (induction n rule: nbits.induct) (simp add: nbits.simps)

lemma nbits_rec: "0 < n \<Longrightarrow> nbits n = nbits (n div 2) + 1"
  by (simp add: nbits.simps [of n])

lemma nbits_pos: "0 < n \<Longrightarrow> 0 < nbits n"
  using nbits_nonneg [of "n div 2"] by (simp add: nbits_rec)

lemma nbits_le_0 [simp]: "n \<le> 0 \<Longrightarrow> nbits n = 0"
  by (simp add: nbits.simps [of n])

lemma nat_nbits_rec: "0 < n \<Longrightarrow> nat (nbits n) = Suc (nat (nbits (n div 2)))"
  using nbits_nonneg [of "n div 2"] by (simp add: nbits_rec)

lemma nbits_less: "n < 2 ^ nat (nbits n)"
proof (induction n rule: nbits.induct)
  case (1 n)
  show ?case
  proof (cases "0 < n")
    case True
    with 1 have "n div 2 < 2 ^ nat (nbits (n div 2))" by simp
    then have "n < 2 * 2 ^ nat (nbits (n div 2))" by linarith
    then show ?thesis unfolding nat_nbits_rec [OF True] by simp
  next
    case False
    then show ?thesis by simp
  qed
qed

lemma nbits_ge: "0 < n \<Longrightarrow> 2 ^ (nat (nbits n) - 1) \<le> n"
proof (induction n rule: nbits.induct)
  case (1 n)
  show ?case
  proof (cases "0 < n div 2")
    case False
    with 1 show ?thesis unfolding nat_nbits_rec [OF "1.prems"] by simp
  next
    case True
    with 1 have "2 ^ (nat (nbits (n div 2)) - 1) \<le> n div 2" by auto
    then have "2 * 2 ^ (nat (nbits (n div 2)) - 1) \<le> n" by linarith
    moreover have "2 * 2 ^ (nat (nbits (n div 2)) - 1) = (2::int) ^ nat (nbits (n div 2))"
      using nbits_pos [OF True] by (simp add: power_eq_if)
    ultimately show ?thesis unfolding nat_nbits_rec [OF "1.prems"] by simp
  qed
qed

lemma dbl_pack_ok:
  assumes "0 \<le> m" and "m \<le> 2 ^ 53" and "-1074 \<le> q" and "2 ^ 52 \<le> m \<or> q = -1074"
  shows "dbl_ok (dbl_pack s m q)"
  using assms by (auto simp: dbl_pack_def dbl_ok_def Let_def)

lemma dbl_round_ok:
  assumes "0 \<le> m"
  shows "dbl_ok (dbl_round s m e sticky)"
proof (cases "m = 0")
  case True
  then show ?thesis by (simp add: dbl_round_def dbl_ok_def)
next
  case False
  with assms have m: "0 < m" by simp
  define q where "q = max (e + nbits m - 53) (-1074)"
  define k where "k = q - e"
  have nb: "0 < nbits m" using m by (rule nbits_pos)
  have hi: "m < 2 ^ nat (nbits m)" by (rule nbits_less)
  have lo: "2 ^ (nat (nbits m) - 1) \<le> m" using m by (rule nbits_ge)
  show ?thesis
  proof (cases "k \<le> 0")
    case True
    then have nb53: "nbits m - k \<le> 53" by (simp add: k_def q_def)
    have "m * 2 ^ nat (- k) < 2 ^ nat (nbits m) * 2 ^ nat (- k)" using hi by simp
    also have "\<dots> = 2 ^ nat (nbits m - k)"
      using True nb by (simp add: power_add [symmetric] nat_add_distrib [symmetric])
    also have "\<dots> \<le> 2 ^ 53" using nb53 by (intro power_increasing) auto
    finally have hi': "m * 2 ^ nat (- k) < 2 ^ 53" .
    have lo': "2 ^ 52 \<le> m * 2 ^ nat (- k)" if "q \<noteq> -1074"
    proof -
      from that have "- k = 53 - nbits m" by (auto simp: k_def q_def max_def split: if_splits)
      then have "nat (nbits m) - 1 + nat (- k) = 52" using True nb by arith
      then have "(2::int) ^ 52 = 2 ^ (nat (nbits m) - 1) * 2 ^ nat (- k)"
        by (simp add: power_add [symmetric])
      also have "\<dots> \<le> m * 2 ^ nat (- k)" using lo by simp
      finally show ?thesis .
    qed
    have "dbl_round s m e sticky = dbl_pack s (m * 2 ^ nat (- k)) q"
      using False True by (simp add: dbl_round_def Let_def q_def k_def)
    moreover have "-1074 \<le> q" by (simp add: q_def)
    ultimately show ?thesis using hi' lo' m by (auto intro!: dbl_pack_ok)
  next
    case k: False
    define d where "d = m div 2 ^ nat k"
    have d0: "0 \<le> d" using m by (simp add: d_def pos_imp_zdiv_nonneg_iff)
    have nb53: "nbits m \<le> k + 53" by (simp add: k_def q_def)
    have "m < 2 ^ nat (k + 53)"
      by (rule less_le_trans [OF hi]) (intro power_increasing, use nb53 in auto)
    also have "\<dots> = 2 ^ 53 * 2 ^ nat k" using k by (simp add: nat_add_distrib power_add)
    finally have m_hi: "m < 2 ^ 53 * 2 ^ nat k" .
    have "d * 2 ^ nat k \<le> m" by (simp add: d_def minus_mod_eq_div_mult [symmetric])
    then have "d * 2 ^ nat k < 2 ^ 53 * 2 ^ nat k" using m_hi by (rule le_less_trans)
    then have d_hi: "d < 2 ^ 53" by simp
    have d_lo: "2 ^ 52 \<le> d" if "q \<noteq> -1074"
    proof -
      from that have "nbits m = k + 53" by (auto simp: k_def q_def max_def split: if_splits)
      then have "nat (nbits m) - 1 = 52 + nat k" using k by arith
      then have "(2::int) ^ 52 * 2 ^ nat k \<le> m" using lo by (simp add: power_add)
      then show ?thesis unfolding d_def by (rule zdiv_mono1 [THEN order_trans [rotated]]) auto
    qed
    define up where "up = (2 ^ (nat k - 1) < m mod 2 ^ nat k
      \<or> m mod 2 ^ nat k = 2 ^ (nat k - 1) \<and> (sticky \<or> odd d))"
    have "dbl_round s m e sticky = dbl_pack s (if up then d + 1 else d) q"
      using False k unfolding dbl_round_def Let_def up_def d_def k_def q_def by auto
    moreover have "-1074 \<le> q" by (simp add: q_def)
    ultimately show ?thesis using d0 d_hi d_lo by (auto intro!: dbl_pack_ok)
  qed
qed

lemma dbl_of_signed_ok: "dbl_ok (dbl_of_signed z v e)"
  by (simp add: dbl_of_signed_def dbl_round_ok) (simp add: dbl_ok_def)

lemma dbl_ratio_ok: "0 \<le> p \<Longrightarrow> 0 \<le> q \<Longrightarrow> dbl_ok (dbl_ratio s p q e)"
  by (auto simp: dbl_ratio_def Let_def intro!: dbl_round_ok pos_imp_zdiv_nonneg_iff [THEN iffD2] div_int_pos_iff [THEN iffD2])

lemma dbl_neg_ok: "dbl_ok x \<Longrightarrow> dbl_ok (dbl_neg x)"
  by (auto simp: dbl_ok_def dbl_neg_def split: double.splits)

lemma dbl_add_ok: "dbl_ok x \<Longrightarrow> dbl_ok y \<Longrightarrow> dbl_ok (dbl_add x y)"
  by (induction x y rule: dbl_add.induct) (auto simp: Let_def dbl_of_signed_ok, auto simp: dbl_ok_def)

lemma dbl_mul_ok: "dbl_ok x \<Longrightarrow> dbl_ok y \<Longrightarrow> dbl_ok (dbl_mul x y)"
  by (induction x y rule: dbl_mul.induct) (auto simp: Let_def dbl_round_ok dbl_ok_def intro!: dbl_round_ok [unfolded dbl_ok_def])

lemma dbl_div_ok: "dbl_ok x \<Longrightarrow> dbl_ok y \<Longrightarrow> dbl_ok (dbl_div x y)"
  by (induction x y rule: dbl_div.induct) (auto simp: Let_def dbl_ok_def intro!: dbl_ratio_ok [unfolded dbl_ok_def])

lemma dbl_add_commute: "dbl_add x y = dbl_add y x"
  by (cases x; cases y) (auto simp: Let_def min.commute add.commute conj_commute)

lemma dbl_less_irrefl: "\<not> dbl_less x x"
  by (cases x) (auto simp: Let_def)

lemma dbl_less_not_eq: "dbl_less x y \<Longrightarrow> \<not> dbl_eq x y"
  by (cases x; cases y) (auto simp: Let_def)

lemma dbl_eq_sym: "dbl_eq x y = dbl_eq y x"
  by (cases x; cases y) (auto simp: Let_def min.commute)

lemma dbl_eq_self: "dbl_eq x x \<longleftrightarrow> x \<noteq> NaN"
  by (cases x) auto

end
