(* ===== verification/Clox_Interfaces.thy ===== *)
theory Clox_Interfaces
  imports Clox_Prelude
begin

text \<open>
  Contracts that more than one component of the program provides. The scopes of the
  tree-walking side live in the chained hash table of \<^verbatim>\<open>src/ds/dict.c\<close>, the globals and the
  interned strings of the virtual machine in the open-addressing table of
  \<^verbatim>\<open>src/vm/table.c\<close>. Both are associations: a state satisfying an invariant stands for a
  finite map, and a lookup reads that map. They differ in what an insertion does with a key
  that is present, so that difference is an extension of the common interface.
\<close>

section \<open>Associations\<close>

locale assoc =
  fixes inv :: "'s \<Rightarrow> bool"
    and abs :: "'s \<Rightarrow> 'k \<Rightarrow> 'v option"
    and empty :: 's
    and lookup :: "'s \<Rightarrow> 'k \<Rightarrow> 'v option"
    and good :: "'k \<Rightarrow> bool"
  assumes inv_empty: "inv empty"
    and abs_empty: "abs empty k = None"
    and lookup_abs: "inv s \<Longrightarrow> good k \<Longrightarrow> lookup s k = abs s k"

text \<open>Insertion that keeps the first value of a key.\<close>

locale assoc_add = assoc inv abs empty lookup good
  for inv :: "'s \<Rightarrow> bool" and abs :: "'s \<Rightarrow> 'k \<Rightarrow> 'v option" and empty lookup good +
  fixes add :: "'s \<Rightarrow> 'k \<Rightarrow> 'v \<Rightarrow> 's"
  assumes add_inv: "inv s \<Longrightarrow> good k \<Longrightarrow> inv (add s k v)"
    and add_abs: "inv s \<Longrightarrow> good k \<Longrightarrow> abs (add s k v) = (if abs s k = None then (abs s)(k \<mapsto> v) else abs s)"
begin

definition add_all :: "'s \<Rightarrow> ('k \<times> 'v) list \<Rightarrow> 's" where
  "add_all s kvs = foldl (\<lambda>s (k, v). add s k v) s kvs"

lemma add_all_inv: "inv s \<Longrightarrow> list_all (good \<circ> fst) kvs \<Longrightarrow> inv (add_all s kvs)"
  by (induction kvs arbitrary: s) (auto simp: add_all_def add_inv)

lemma add_all_abs:
  "inv s \<Longrightarrow> list_all (good \<circ> fst) kvs \<Longrightarrow> abs (add_all s kvs) = map_of kvs ++ abs s"
proof (induction kvs arbitrary: s)
  case Nil
  then show ?case by (simp add: add_all_def)
next
  case (Cons kv kvs)
  obtain k v where kv: "kv = (k, v)" by fastforce
  with Cons.prems have "inv (add s k v)" "good k" by (auto simp: add_inv)
  with Cons kv have "abs (add_all s (kv # kvs)) = map_of kvs ++ abs (add s k v)"
    by (simp add: add_all_def)
  also have "\<dots> = map_of (kv # kvs) ++ abs s"
    using Cons.prems kv \<open>good k\<close> by (auto simp: add_abs fun_eq_iff map_add_def split: option.splits)
  finally show ?case .
qed

text \<open>After any sequence of insertions the first binding of a key is the one found.\<close>

lemma lookup_add_all:
  assumes "list_all (good \<circ> fst) kvs" and "good k"
  shows "lookup (add_all empty kvs) k = map_of kvs k"
  using assms add_all_inv [OF inv_empty] add_all_abs [OF inv_empty]
  by (simp add: lookup_abs abs_empty map_add_def split: option.splits)

end

text \<open>Insertion that overwrites, and removal.\<close>

locale assoc_set = assoc inv abs empty lookup good
  for inv :: "'s \<Rightarrow> bool" and abs :: "'s \<Rightarrow> 'k \<Rightarrow> 'v option" and empty lookup good +
  fixes set_key :: "'s \<Rightarrow> 'k \<Rightarrow> 'v \<Rightarrow> 's"
    and delete :: "'s \<Rightarrow> 'k \<Rightarrow> 's"
  assumes set_inv: "inv s \<Longrightarrow> good k \<Longrightarrow> inv (set_key s k v)"
    and set_abs: "inv s \<Longrightarrow> good k \<Longrightarrow> abs (set_key s k v) = (abs s)(k \<mapsto> v)"
    and delete_inv: "inv s \<Longrightarrow> good k \<Longrightarrow> inv (delete s k)"
    and delete_abs: "inv s \<Longrightarrow> good k \<Longrightarrow> abs (delete s k) = (abs s)(k := None)"
begin

lemma lookup_set: "inv s \<Longrightarrow> good k \<Longrightarrow> good k' \<Longrightarrow>
  lookup (set_key s k v) k' = (if k' = k then Some v else lookup s k')"
  by (simp add: lookup_abs set_inv set_abs)

lemma lookup_delete: "inv s \<Longrightarrow> good k \<Longrightarrow> good k' \<Longrightarrow>
  lookup (delete s k) k' = (if k' = k then None else lookup s k')"
  by (simp add: lookup_abs delete_inv delete_abs)

end

text \<open>A history of insertions (\<open>Some v\<close>) and removals (\<open>None\<close>), oldest first.\<close>

context assoc_set
begin

definition replay :: "'s \<Rightarrow> ('k \<times> 'v option) list \<Rightarrow> 's" where
  "replay s ops = foldl (\<lambda>s (k, w). case w of None \<Rightarrow> delete s k | Some v \<Rightarrow> set_key s k v) s ops"

lemma replay_inv_abs:
  "inv s \<Longrightarrow> list_all (good \<circ> fst) ops \<Longrightarrow>
   inv (replay s ops) \<and> abs (replay s ops) = foldl (\<lambda>m (k, w). m(k := w)) (abs s) ops"
proof (induction ops arbitrary: s)
  case Nil
  then show ?case by (simp add: replay_def)
next
  case (Cons op ops)
  obtain k w where op: "op = (k, w)" by fastforce
  let ?s = "case w of None \<Rightarrow> delete s k | Some v \<Rightarrow> set_key s k v"
  have "inv ?s" "abs ?s = (abs s)(k := w)"
    using Cons.prems op by (auto simp: set_inv set_abs delete_inv delete_abs split: option.splits)
  with Cons.IH [of ?s] Cons.prems op show ?case by (simp add: replay_def)
qed

lemma lookup_replay:
  assumes "inv s" "list_all (good \<circ> fst) ops" "good k"
  shows "lookup (replay s ops) k = foldl (\<lambda>m (k, w). m(k := w)) (abs s) ops k"
  using replay_inv_abs [OF assms(1,2)] assms(3) by (simp add: lookup_abs)

end

section \<open>Arrays that grow at the end\<close>

text \<open>
  The bytes of a chunk and the entries of a constant table are written only at the end of an
  array that is reallocated when it is full.
\<close>

locale append_array =
  fixes inv :: "'s \<Rightarrow> bool"
    and abs :: "'s \<Rightarrow> 'a list"
    and empty :: 's
    and put :: "'s \<Rightarrow> 'a \<Rightarrow> 's"
  assumes inv_empty: "inv empty"
    and abs_empty: "abs empty = []"
    and put_inv: "inv s \<Longrightarrow> inv (put s x)"
    and put_abs: "inv s \<Longrightarrow> abs (put s x) = abs s @ [x]"
begin

lemma put_all: "inv s \<Longrightarrow> inv (foldl put s xs) \<and> abs (foldl put s xs) = abs s @ xs"
  by (induction xs arbitrary: s) (auto simp: put_inv put_abs)

lemma put_all_empty: "inv (foldl put empty xs) \<and> abs (foldl put empty xs) = xs"
  using put_all [OF inv_empty] by (simp add: abs_empty)

end

end
