(* ===== verification/Clox_Tokenizer.thy ===== *)
theory Clox_Tokenizer
  imports Clox_Prelude
begin

text \<open>
  The tokenizer (\<^verbatim>\<open>include/tokenizer.h\<close>, \<^verbatim>\<open>src/tokenizer.c\<close>), which both front ends share.
  The source text is a \<open>string\<close> without its terminating NUL; \<open>code_at\<close> reads the NUL at
  the end. One pass of the \<^verbatim>\<open>while\<close> loop of \<^verbatim>\<open>toknzr\<close> is \<open>toknzr_step\<close>, made of the
  \<^verbatim>\<open>switch\<close> (\<open>scan_token\<close>), and the loop is \<open>toknzr_loop\<close>, whose measure is the number of
  characters left. The list of tokens is the sequence of values pushed with
  \<^verbatim>\<open>list_push\<close>.
\<close>

section \<open>Tokens\<close>

datatype TokenType =
    TOKEN_LEFT_PAREN | TOKEN_RIGHT_PAREN | TOKEN_LEFT_BRACE | TOKEN_RIGHT_BRACE
  | TOKEN_COMMA | TOKEN_DOT | TOKEN_MINUS | TOKEN_PLUS | TOKEN_SEMICOLON | TOKEN_SLASH
  | TOKEN_STAR
  | TOKEN_BANG | TOKEN_BANG_EQUAL | TOKEN_EQUAL | TOKEN_EQUAL_EQUAL | TOKEN_GREATER
  | TOKEN_GREATER_EQUAL | TOKEN_LESS | TOKEN_LESS_EQUAL
  | TOKEN_IDENTIFIER | TOKEN_STRING | TOKEN_NUMBER
  | TOKEN_AND | TOKEN_CLASS | TOKEN_ELSE | TOKEN_FALSE | TOKEN_FOR | TOKEN_FUN | TOKEN_IF
  | TOKEN_NIL | TOKEN_OR | TOKEN_PRINT | TOKEN_RETURN | TOKEN_SUPER | TOKEN_THIS
  | TOKEN_TRUE | TOKEN_VAR | TOKEN_WHILE
  | TOKEN_ERROR | TOKEN_ENDOFFILE

record Token =
  tk_type :: TokenType
  tk_literal :: "string option"
  tk_lexeme :: "string option"
  tk_column :: nat
  tk_line :: nat

record Tokenization =
  tkz_values :: "Token list"
  tkz_lines :: nat

definition token :: "TokenType \<Rightarrow> string option \<Rightarrow> nat \<Rightarrow> nat \<Rightarrow> string option \<Rightarrow> Token" where
  "token type literal line column lexeme =
     \<lparr>tk_type = type, tk_literal = literal, tk_lexeme = lexeme, tk_column = column, tk_line = line\<rparr>"

definition token_simple :: "TokenType \<Rightarrow> nat \<Rightarrow> nat \<Rightarrow> string \<Rightarrow> Token" where
  "token_simple type line column lexeme = token type None line column (Some lexeme)"

section \<open>Character access\<close>

definition code_at :: "string \<Rightarrow> nat \<Rightarrow> char" where
  "code_at code i = (if i < length code then code ! i else CHR 0x00)"

definition IS_AT_END :: "nat \<Rightarrow> nat \<Rightarrow> bool" where
  "IS_AT_END x codeLength \<longleftrightarrow> codeLength \<le> x"

text \<open>
  The macro \<^verbatim>\<open>IS_ALPHA_NUMERIC(x)\<close> closes its parentheses late: the argument of
  \<^verbatim>\<open>isdigit\<close> is the truth value of \<^verbatim>\<open>(x) || (x) == '_'\<close>.
\<close>

definition IS_ALPHA_NUMERIC :: "char \<Rightarrow> bool" where
  "IS_ALPHA_NUMERIC x \<longleftrightarrow>
     isalpha (schar x) \<or> isdigit (if schar x \<noteq> 0 \<or> x = CHR ''_'' then 1 else 0)"

definition match_next :: "string \<Rightarrow> char \<Rightarrow> nat \<Rightarrow> nat \<Rightarrow> bool \<times> nat" where
  "match_next code next len current =
     (if len < current then (False, current)
      else if code_at code (current + 1) \<noteq> next then (False, current)
      else (True, current + 1))"

text \<open>
  The loops \<^verbatim>\<open>do (*current)++; while (!IS_AT_END(*current) && P(code[*current]));\<close> after
  their first increment.
\<close>

function skip_while :: "(char \<Rightarrow> bool) \<Rightarrow> string \<Rightarrow> nat \<Rightarrow> nat" where
  "skip_while P code i =
     (if \<not> IS_AT_END i (length code) \<and> P (code_at code i) then skip_while P code (Suc i) else i)"
  by pat_completeness auto
termination
  by (relation "measure (\<lambda>(P, code, i). length code - i)") (auto simp: IS_AT_END_def)

declare skip_while.simps [simp del]

text \<open>The \<^verbatim>\<open>memcpy\<close> of \<^verbatim>\<open>code[start] .. code[stop - 1]\<close> into a fresh literal.\<close>

definition slice :: "string \<Rightarrow> nat \<Rightarrow> nat \<Rightarrow> string" where
  "slice code start stop = take (stop - start) (drop start code)"

definition read_number :: "string \<Rightarrow> nat \<Rightarrow> string \<times> nat" where
  "read_number code start =
     (let is_dig = (\<lambda>c. isdigit (schar c));
          c1 = skip_while is_dig code (start + 1);
          c2 = (if code_at code c1 = CHR ''.'' \<and> is_dig (code_at code (c1 + 1))
                then skip_while is_dig code (c1 + 1) else c1)
      in (slice code start c2, c2 - 1))"

definition read_other :: "string \<Rightarrow> nat \<Rightarrow> string \<times> nat" where
  "read_other code start =
     (let c1 = skip_while IS_ALPHA_NUMERIC code (start + 1)
      in (slice code start c1, c1 - 1))"

section \<open>One token\<close>

text \<open>The keyword chain of \<^verbatim>\<open>strcmp\<close> tests.\<close>

definition keyword_type :: "string \<Rightarrow> TokenType option" where
  "keyword_type literal =
    (if literal = ''and'' then Some TOKEN_AND
     else if literal = ''class'' then Some TOKEN_CLASS
     else if literal = ''else'' then Some TOKEN_ELSE
     else if literal = ''false'' then Some TOKEN_FALSE
     else if literal = ''fun'' then Some TOKEN_FUN
     else if literal = ''for'' then Some TOKEN_FOR
     else if literal = ''if'' then Some TOKEN_IF
     else if literal = ''nil'' then Some TOKEN_NIL
     else if literal = ''or'' then Some TOKEN_OR
     else if literal = ''print'' then Some TOKEN_PRINT
     else if literal = ''return'' then Some TOKEN_RETURN
     else if literal = ''super'' then Some TOKEN_SUPER
     else if literal = ''this'' then Some TOKEN_THIS
     else if literal = ''true'' then Some TOKEN_TRUE
     else if literal = ''var'' then Some TOKEN_VAR
     else if literal = ''while'' then Some TOKEN_WHILE
     else None)"

text \<open>
  What one \<^verbatim>\<open>switch\<close> leaves behind: the token (or none), the position before the final
  \<^verbatim>\<open>current++\<close>, the line counter, and the position and character that
  \<^verbatim>\<open>toknzr_error\<close> reports on standard output in verbose mode.
\<close>

record scan =
  sc_token :: "Token option"
  sc_current :: nat
  sc_line :: nat
  sc_report :: "(nat \<times> nat \<times> char) option"

definition scanned :: "Token option \<Rightarrow> nat \<Rightarrow> nat \<Rightarrow> scan" where
  "scanned tokn current line =
     \<lparr>sc_token = tokn, sc_current = current, sc_line = line, sc_report = None\<rparr>"

lemma scanned_sel [simp]:
  "sc_token (scanned t current line) = t"
  "sc_current (scanned t current line) = current"
  "sc_line (scanned t current line) = line"
  "sc_report (scanned t current line) = None"
  by (simp_all add: scanned_def)

definition toknzr_error :: "nat \<Rightarrow> nat \<Rightarrow> char \<Rightarrow> (nat \<times> nat \<times> char) option" where
  "toknzr_error line column c = Some (line, column + 1, c)"

text \<open>The four operators that may be followed by \<^verbatim>\<open>=\<close>; both forms get the short lexeme.\<close>

definition scan_operator ::
  "string \<Rightarrow> nat \<Rightarrow> nat \<Rightarrow> TokenType \<Rightarrow> TokenType \<Rightarrow> string \<Rightarrow> scan" where
  "scan_operator code current line twin single lexeme =
     (let (m, cur) = match_next code CHR ''='' (length code) current
      in scanned (Some (token_simple (if m then twin else single) line cur lexeme)) cur line)"

definition scan_slash :: "string \<Rightarrow> nat \<Rightarrow> nat \<Rightarrow> scan" where
  "scan_slash code current line =
     (let (m, cur) = match_next code CHR ''/'' (length code) current
      in if m then scanned None (skip_while (\<lambda>c. c \<noteq> CHR 0x0A) code (cur + 1)) line
         else scanned (Some (token_simple TOKEN_SLASH line cur ''/'')) cur line)"

text \<open>The string loop: the line counter counts the newlines passed.\<close>

function string_end :: "string \<Rightarrow> nat \<Rightarrow> nat \<Rightarrow> nat \<times> nat" where
  "string_end code current line =
     (let line' = (if code_at code current = CHR 0x0A then line + 1 else line);
          cur = current + 1
      in if code_at code cur \<noteq> CHR 0x22 \<and> \<not> IS_AT_END cur (length code)
         then string_end code cur line' else (cur, line'))"
  by pat_completeness auto
termination
  by (relation "measure (\<lambda>(code, current, line). length code - current)") (auto simp: IS_AT_END_def)

declare string_end.simps [simp del]

definition scan_string :: "bool \<Rightarrow> string \<Rightarrow> nat \<Rightarrow> nat \<Rightarrow> scan" where
  "scan_string verbose code start line0 =
     (let (current, line) = string_end code start line0
      in if IS_AT_END current (length code)
         then (if verbose
               then (scanned None current line)\<lparr>sc_report := toknzr_error line current (code_at code current)\<rparr>
               else scanned (Some (token_simple TOKEN_ERROR line current ''Unterminated string.'')) current line)
         else let literal = slice code (start + 1) current
              in scanned (Some (token TOKEN_STRING (Some literal) line current (Some literal))) current line)"

definition scan_default :: "bool \<Rightarrow> string \<Rightarrow> nat \<Rightarrow> nat \<Rightarrow> scan" where
  "scan_default verbose code start line =
     (let c = code_at code start
      in if isdigit (schar c)
         then let (literal, current) = read_number code start
              in scanned (Some (token TOKEN_NUMBER (Some literal) line current (Some literal))) current line
         else if isalpha (schar c)
         then let (literal, current) = read_other code start
              in scanned (Some (case keyword_type literal of
                     Some type \<Rightarrow> token_simple type line current literal
                   | None \<Rightarrow> token_simple TOKEN_IDENTIFIER line current literal)) current line
         else if verbose
         then (scanned None start line)\<lparr>sc_report := toknzr_error line start c\<rparr>
         else scanned (Some (token_simple TOKEN_ERROR line start ''Unexpected character.'')) start line)"

definition single_type :: "char \<Rightarrow> TokenType option" where
  "single_type c =
    (if c = CHR ''('' then Some TOKEN_LEFT_PAREN
     else if c = CHR '')'' then Some TOKEN_RIGHT_PAREN
     else if c = CHR ''{'' then Some TOKEN_LEFT_BRACE
     else if c = CHR ''}'' then Some TOKEN_RIGHT_BRACE
     else if c = CHR '','' then Some TOKEN_COMMA
     else if c = CHR ''.'' then Some TOKEN_DOT
     else if c = CHR ''-'' then Some TOKEN_MINUS
     else if c = CHR ''+'' then Some TOKEN_PLUS
     else if c = CHR '';'' then Some TOKEN_SEMICOLON
     else if c = CHR ''*'' then Some TOKEN_STAR
     else None)"

definition scan_token :: "bool \<Rightarrow> string \<Rightarrow> nat \<Rightarrow> nat \<Rightarrow> scan" where
  "scan_token verbose code current line =
     (let c = code_at code current
      in case single_type c of
           Some type \<Rightarrow> scanned (Some (token_simple type line current [c])) current line
         | None \<Rightarrow>
             if c = CHR ''!'' then scan_operator code current line TOKEN_BANG_EQUAL TOKEN_BANG ''!''
             else if c = CHR ''='' then scan_operator code current line TOKEN_EQUAL_EQUAL TOKEN_EQUAL ''=''
             else if c = CHR ''>'' then scan_operator code current line TOKEN_GREATER_EQUAL TOKEN_GREATER ''>''
             else if c = CHR ''<'' then scan_operator code current line TOKEN_LESS_EQUAL TOKEN_LESS ''<''
             else if c = CHR ''/'' then scan_slash code current line
             else if c = CHR 0x22 then scan_string verbose code current line
             else if c = CHR '' '' \<or> c = CHR 0x0D \<or> c = CHR 0x09 then scanned None current line
             else if c = CHR 0x0A then scanned None current (line + 1)
             else scan_default verbose code current line)"

section \<open>The loop\<close>

record toknzr_state =
  tz_current :: nat
  tz_line :: nat
  tz_tokens :: "Token list"
  tz_reports :: "(nat \<times> nat \<times> char) list"

definition option_list :: "'a option \<Rightarrow> 'a list" where
  "option_list x = (case x of None \<Rightarrow> [] | Some y \<Rightarrow> [y])"

definition toknzr_step :: "bool \<Rightarrow> string \<Rightarrow> toknzr_state \<Rightarrow> toknzr_state" where
  "toknzr_step verbose code s =
     (let sc = scan_token verbose code (tz_current s) (tz_line s)
      in \<lparr>tz_current = sc_current sc + 1, tz_line = sc_line sc,
          tz_tokens = tz_tokens s @ option_list (sc_token sc),
          tz_reports = tz_reports s @ option_list (sc_report sc)\<rparr>)"

lemma skip_while_ge: "i \<le> skip_while P code i"
proof (induction P code i rule: skip_while.induct)
  case (1 P code i)
  then show ?case by (subst skip_while.simps) auto
qed

lemma string_end_ge: "current < fst (string_end code current line)"
proof (induction code current line rule: string_end.induct)
  case (1 code current line)
  show ?case
    using 1 by (subst string_end.simps) (fastforce simp: Let_def)
qed

lemma skip_while_gt: "j < i \<Longrightarrow> j < skip_while P code i"
  using skip_while_ge [of i P code] by linarith

lemma read_number_ge: "current \<le> snd (read_number code current)"
proof -
  let ?dig = "\<lambda>c. isdigit (schar c)"
  let ?c1 = "skip_while ?dig code (Suc current)"
  have c1: "current < ?c1" by (simp add: skip_while_gt)
  then have c2: "current < skip_while ?dig code (Suc ?c1)" by (intro skip_while_gt) simp
  obtain c where "snd (read_number code current) = c - 1" "c = ?c1 \<or> c = skip_while ?dig code (Suc ?c1)"
    by (simp add: read_number_def Let_def split: if_split)
  with c1 c2 show ?thesis by auto
qed

lemma read_other_ge: "current \<le> snd (read_other code current)"
  using skip_while_ge [of "Suc current" IS_ALPHA_NUMERIC code]
  by (auto simp: read_other_def Let_def)

lemma scan_operator_ge: "current \<le> sc_current (scan_operator code current line twin single lexeme)"
  by (simp add: scan_operator_def match_next_def scanned_def)

lemma scan_slash_ge: "current \<le> sc_current (scan_slash code current line)"
  using skip_while_ge [of "Suc (Suc current)" "\<lambda>c. c \<noteq> CHR 0x0A" code]
  by (simp add: scan_slash_def match_next_def scanned_def)

lemma scan_string_ge: "current \<le> sc_current (scan_string verbose code current line)"
  using string_end_ge [of current code line]
  by (auto simp: scan_string_def scanned_def Let_def split: prod.split)

lemma scan_default_ge: "current \<le> sc_current (scan_default verbose code current line)"
  using read_number_ge [of current code] read_other_ge [of current code]
  by (auto simp: scan_default_def scanned_def Let_def split: prod.split)

lemma scan_token_ge: "current \<le> sc_current (scan_token verbose code current line)"
  by (simp only: scan_token_def Let_def scan_operator_ge scan_slash_ge scan_string_ge
      scan_default_ge scanned_sel order_refl simp_thms split: option.split if_split)

function toknzr_loop :: "bool \<Rightarrow> string \<Rightarrow> toknzr_state \<Rightarrow> toknzr_state" where
  "toknzr_loop verbose code s =
     (if IS_AT_END (tz_current s) (length code) then s
      else toknzr_loop verbose code (toknzr_step verbose code s))"
  by pat_completeness auto
termination
proof (relation "measure (\<lambda>(v, code, s). length code - tz_current s)", goal_cases)
  case 1
  show ?case by simp
next
  case (2 verbose code s)
  then show ?case
    using scan_token_ge [of "tz_current s" verbose code "tz_line s"]
    by (simp add: IS_AT_END_def toknzr_step_def Let_def)
qed

declare toknzr_loop.simps [simp del]

definition toknzr :: "string \<Rightarrow> bool \<Rightarrow> Tokenization" where
  "toknzr code verbose =
     (let s = toknzr_loop verbose code
                \<lparr>tz_current = 0, tz_line = 1, tz_tokens = [], tz_reports = []\<rparr>
      in \<lparr>tkz_values = tz_tokens s @ [token_simple TOKEN_ENDOFFILE (tz_line s) (tz_current s) ''EOF''],
          tkz_lines = tz_line s\<rparr>)"

section \<open>Scanning runs of characters\<close>

lemma skip_while_run:
  assumes "list_all P w" and "post = [] \<or> \<not> P (hd post)"
  shows "skip_while P (pre @ w @ post) (length pre) = length pre + length w"
  using assms(1)
proof (induction w arbitrary: pre)
  case Nil
  then show ?case
    using assms(2) by (subst skip_while.simps) (auto simp: IS_AT_END_def code_at_def nth_append hd_conv_nth)
next
  case (Cons x w)
  have "skip_while P (pre @ (x # w) @ post) (length pre)
      = skip_while P (pre @ (x # w) @ post) (Suc (length pre))"
    using Cons.prems by (subst skip_while.simps) (simp add: IS_AT_END_def code_at_def nth_append)
  also have "\<dots> = skip_while P ((pre @ [x]) @ w @ post) (length (pre @ [x]))" by simp
  also have "\<dots> = length (pre @ [x]) + length w"
    by (rule Cons.IH) (use Cons.prems in simp)
  finally show ?case by simp
qed

lemma skip_while_run_Suc:
  assumes "list_all P w" and "post = [] \<or> \<not> P (hd post)"
  shows "skip_while P (pre @ x # w @ post) (Suc (length pre)) = Suc (length pre) + length w"
  using skip_while_run [OF assms, of "pre @ [x]"] by simp

lemma slice_middle [simp]: "slice (pre @ w @ post) (length pre) (length pre + length w) = w"
  by (simp add: slice_def)

lemma code_at_middle [simp]: "code_at (pre @ c # post) (length pre) = c"
  by (simp add: code_at_def nth_append)

lemma IS_ALPHA_NUMERIC_iff [simp]: "IS_ALPHA_NUMERIC c \<longleftrightarrow> isalpha (schar c)"
  by (simp add: IS_ALPHA_NUMERIC_def isdigit_def)

lemma scan_token_default:
  assumes "isalpha (schar (code_at code cur)) \<or> isdigit (schar (code_at code cur))"
  shows "scan_token v code cur line = scan_default v code cur line"
proof -
  define c where "c = code_at code cur"
  let ?special = "''(){},.-+;*!=></ '' @ [CHR 0x22, CHR 0x0D, CHR 0x09, CHR 0x0A]"
  have "\<forall>x \<in> set ?special. \<not> isalpha (schar x) \<and> \<not> isdigit (schar x)"
    by (simp add: schar_def isalpha_def isdigit_def)
  moreover from assms have "isalpha (schar c) \<or> isdigit (schar c)" by (simp add: c_def)
  ultimately have "c \<notin> set ?special" by blast
  then have "single_type c = None" "c \<noteq> CHR ''!''" "c \<noteq> CHR ''=''" "c \<noteq> CHR ''>''" "c \<noteq> CHR ''<''"
    "c \<noteq> CHR ''/''" "c \<noteq> CHR 0x22" "c \<noteq> CHR '' ''" "c \<noteq> CHR 0x0D" "c \<noteq> CHR 0x09" "c \<noteq> CHR 0x0A"
    by (simp_all add: single_type_def)
  then show ?thesis by (simp add: scan_token_def Let_def c_def [symmetric])
qed

text \<open>The longest run of letters is one token, a keyword or an identifier.\<close>

lemma scan_word:
  assumes "w \<noteq> []" and "list_all (\<lambda>c. isalpha (schar c)) w"
    and "post = [] \<or> \<not> isalpha (schar (hd post))"
  shows "scan_token v (pre @ w @ post) (length pre) line =
     scanned (Some (token_simple (case keyword_type w of Some t \<Rightarrow> t | None \<Rightarrow> TOKEN_IDENTIFIER)
                      line (length pre + length w - 1) w)) (length pre + length w - 1) line"
proof -
  obtain c w' where w: "w = c # w'" using assms(1) by (cases w) auto
  have c: "isalpha (schar c)" "list_all IS_ALPHA_NUMERIC w'"
    using assms(2) by (simp_all add: w list_all_iff)
  have "skip_while IS_ALPHA_NUMERIC (pre @ w @ post) (Suc (length pre)) = length pre + length w"
    using skip_while_run_Suc [OF c(2), of post pre c] assms(3) by (simp add: w)
  then have ro: "read_other (pre @ w @ post) (length pre) = (w, length pre + length w - 1)"
    by (simp add: read_other_def Let_def)
  have at: "code_at (pre @ w @ post) (length pre) = c" by (simp add: w)
  show ?thesis
    using c isdigit_not_isalpha [of "schar c"]
    by (auto simp: scan_token_default at scan_default_def ro Let_def split: option.split)
qed

text \<open>Digits, optionally a point and more digits, are one number token.\<close>

lemma scan_number:
  assumes "ds \<noteq> []" and "list_all (\<lambda>c. isdigit (schar c)) ds"
    and "fs = [] \<and> (post = [] \<or> \<not> isdigit (schar (hd post))
             \<and> (hd post = CHR ''.'' \<longrightarrow> \<not> isdigit (schar (code_at (tl post) 0))))
       \<or> (\<exists>es. fs = CHR ''.'' # es \<and> es \<noteq> [] \<and> list_all (\<lambda>c. isdigit (schar c)) es
             \<and> (post = [] \<or> \<not> isdigit (schar (hd post))))"
  shows "scan_token v (pre @ (ds @ fs) @ post) (length pre) line =
     scanned (Some (token TOKEN_NUMBER (Some (ds @ fs)) line (length pre + length (ds @ fs) - 1) (Some (ds @ fs))))
       (length pre + length (ds @ fs) - 1) line"
  (is "scan_token v ?code _ _ = _")
proof -
  let ?dig = "\<lambda>c. isdigit (schar c)"
  obtain c ds' where ds: "ds = c # ds'" using assms(1) by (cases ds) auto
  have c: "isdigit (schar c)" "list_all ?dig ds'" using assms(2) by (simp_all add: ds)
  have dot: "\<not> isdigit (schar CHR ''.'')" by (simp add: schar_def isdigit_def)
  have "fs @ post = [] \<or> \<not> ?dig (hd (fs @ post))" using assms(3) dot by auto
  then have c1: "skip_while ?dig ?code (Suc (length pre)) = length pre + length ds"
    using skip_while_run_Suc [OF c(2), of "fs @ post" pre c] by (simp add: ds)
  have "read_number ?code (length pre) = (ds @ fs, length pre + length (ds @ fs) - 1)"
    using assms(3)
  proof
    assume fs: "fs = [] \<and> (post = [] \<or> \<not> isdigit (schar (hd post))
             \<and> (hd post = CHR ''.'' \<longrightarrow> \<not> isdigit (schar (code_at (tl post) 0))))"
    have "\<not> (code_at ?code (length pre + length ds) = CHR ''.''
        \<and> ?dig (code_at ?code (Suc (length pre + length ds))))"
      using fs by (cases post) (auto simp: code_at_def nth_append schar_def isdigit_def)
    then show ?thesis
      using c1 fs slice_middle [of pre ds post] by (auto simp: read_number_def Let_def)
  next
    assume "\<exists>es. fs = CHR ''.'' # es \<and> es \<noteq> [] \<and> list_all (\<lambda>c. isdigit (schar c)) es
             \<and> (post = [] \<or> \<not> isdigit (schar (hd post)))"
    then obtain es where es: "fs = CHR ''.'' # es" "es \<noteq> []" "list_all ?dig es"
      "post = [] \<or> \<not> ?dig (hd post)" by blast
    have "code_at ?code (length pre + length ds) = CHR ''.''"
      "?dig (code_at ?code (Suc (length pre + length ds)))"
      using es by (cases es; simp add: code_at_def nth_append)+
    moreover have "skip_while ?dig ?code (Suc (length pre + length ds)) = length pre + length (ds @ fs)"
      using skip_while_run_Suc [OF es(3,4), of "pre @ ds" "CHR ''.''"] by (simp add: es(1))
    ultimately show ?thesis
      using c1 slice_middle [of pre "ds @ fs" post] by (simp add: read_number_def Let_def)
  qed
  moreover have "code_at ?code (length pre) = c" by (simp add: ds)
  ultimately show ?thesis using c by (simp add: scan_token_default scan_default_def Let_def)
qed

lemma string_end_run:
  assumes "CHR 0x22 \<notin> set s"
  shows "string_end (pre @ c # s @ CHR 0x22 # post) (length pre) line
       = (Suc (length pre) + length s, line + count_list (c # s) (CHR 0x0A))"
  using assms
proof (induction s arbitrary: pre c line)
  case Nil
  then show ?case
    by (subst string_end.simps) (simp add: code_at_def nth_append Let_def)
next
  case (Cons x s)
  let ?code = "pre @ c # (x # s) @ CHR 0x22 # post"
  have next_char: "code_at ?code (Suc (length pre)) = x" by (simp add: code_at_def nth_append)
  have "string_end ?code (length pre) line
      = string_end ?code (Suc (length pre)) (if c = CHR 0x0A then line + 1 else line)"
    using Cons.prems next_char by (subst string_end.simps) (auto simp: Let_def IS_AT_END_def)
  also have "\<dots> = string_end ((pre @ [c]) @ x # s @ CHR 0x22 # post) (length (pre @ [c]))
      (if c = CHR 0x0A then line + 1 else line)" by simp
  also have "\<dots> = (Suc (length (pre @ [c])) + length s,
      (if c = CHR 0x0A then line + 1 else line) + count_list (x # s) (CHR 0x0A))"
    by (rule Cons.IH) (use Cons.prems in simp)
  finally show ?case by simp
qed

lemma scan_string_run:
  assumes "CHR 0x22 \<notin> set s"
  shows "scan_token v (pre @ CHR 0x22 # s @ CHR 0x22 # post) (length pre) line =
     (let line' = line + count_list s (CHR 0x0A); cur = Suc (length pre) + length s
      in scanned (Some (token TOKEN_STRING (Some s) line' cur (Some s))) cur line')"
proof -
  have sl: "slice (pre @ CHR 0x22 # s @ CHR 0x22 # post) (Suc (length pre)) (Suc (length pre + length s)) = s"
    using slice_middle [of "pre @ [CHR 0x22]" s "CHR 0x22 # post"] by simp
  have "scan_token v (pre @ CHR 0x22 # s @ CHR 0x22 # post) (length pre) line
      = scan_string v (pre @ CHR 0x22 # s @ CHR 0x22 # post) (length pre) line"
    by (simp add: scan_token_def single_type_def Let_def)
  also have "\<dots> = (let line' = line + count_list s (CHR 0x0A); cur = Suc (length pre) + length s
      in scanned (Some (token TOKEN_STRING (Some s) line' cur (Some s))) cur line')"
    by (simp add: scan_string_def string_end_run [OF assms] IS_AT_END_def Let_def sl)
  finally show ?thesis .
qed

lemma scan_comment_run:
  assumes "CHR 0x0A \<notin> set s" and "post = [] \<or> hd post = CHR 0x0A"
  shows "scan_token v (pre @ ''//'' @ s @ post) (length pre) line
       = scanned None (length pre + 2 + length s) line"
proof -
  have "skip_while (\<lambda>c. c \<noteq> CHR 0x0A) (pre @ ''//'' @ s @ post) (Suc (Suc (length pre)))
      = Suc (Suc (length pre)) + length s"
    using skip_while_run [of "\<lambda>c. c \<noteq> CHR 0x0A" s post "pre @ ''//''"] assms
    by (auto simp: list_all_iff)
  moreover have "code_at (pre @ ''//'' @ s @ post) (Suc (length pre)) = CHR ''/''"
    by (simp add: code_at_def nth_append)
  ultimately show ?thesis
    by (simp add: scan_token_def single_type_def Let_def scan_slash_def match_next_def)
qed

section \<open>The loop\<close>

lemma toknzr_loop_end [simp]:
  "length code \<le> tz_current s \<Longrightarrow> toknzr_loop v code s = s"
  by (subst toknzr_loop.simps) (simp add: IS_AT_END_def)

lemma toknzr_loop_step:
  "tz_current s < length code \<Longrightarrow> toknzr_loop v code s = toknzr_loop v code (toknzr_step v code s)"
  by (subst toknzr_loop.simps) (simp add: IS_AT_END_def)

text \<open>A fact about every pass of the loop holds at its end.\<close>

lemma toknzr_loop_invariant:
  assumes "P s" and "\<And>s. tz_current s < length code \<Longrightarrow> P s \<Longrightarrow> P (toknzr_step v code s)"
  shows "P (toknzr_loop v code s)"
  using assms
proof (induction v code s rule: toknzr_loop.induct)
  case (1 v code s)
  then show ?case
    by (cases "tz_current s < length code") (simp_all add: toknzr_loop_step IS_AT_END_def)
qed

definition scan_type :: "(TokenType \<Rightarrow> bool) \<Rightarrow> scan \<Rightarrow> bool" where
  "scan_type P sc = (case sc_token sc of None \<Rightarrow> True | Some t \<Rightarrow> P (tk_type t))"

lemma scan_type_None [simp]: "scan_type P (scanned None cur line)"
  by (simp add: scan_type_def)

lemma scan_type_Some [simp]: "scan_type P (scanned (Some t) cur line) = P (tk_type t)"
  by (simp add: scan_type_def)

lemma tk_type_token [simp]: "tk_type (token type lit line col lexm) = type"
  by (simp add: token_def)

lemma tk_type_token_simple [simp]: "tk_type (token_simple type line col lexm) = type"
  by (simp add: token_simple_def)

lemma scan_token_not_eof: "scan_type (\<lambda>t. t \<noteq> TOKEN_ENDOFFILE) (scan_token v code cur line)"
proof -
  have single: "single_type c \<noteq> Some TOKEN_ENDOFFILE" for c
    by (simp add: single_type_def)
  have keyw: "keyword_type w \<noteq> Some TOKEN_ENDOFFILE" for w
    by (simp add: keyword_type_def)
  have op: "scan_type (\<lambda>t. t \<noteq> TOKEN_ENDOFFILE) (scan_operator code cur line a b l)"
    if "a \<noteq> TOKEN_ENDOFFILE" "b \<noteq> TOKEN_ENDOFFILE" for a b l
    using that by (simp add: scan_operator_def match_next_def)
  have slash: "scan_type (\<lambda>t. t \<noteq> TOKEN_ENDOFFILE) (scan_slash code cur line)"
    by (simp add: scan_slash_def match_next_def)
  have str: "scan_type (\<lambda>t. t \<noteq> TOKEN_ENDOFFILE) (scan_string v code cur line)"
    by (simp add: scan_string_def Let_def split: prod.split) (simp add: scan_type_def)
  have def: "scan_type (\<lambda>t. t \<noteq> TOKEN_ENDOFFILE) (scan_default v code cur line)"
    using keyw by (auto simp: scan_default_def Let_def split: prod.split option.split)
      (auto simp: scan_type_def)
  show ?thesis
    by (simp only: scan_token_def Let_def slash str def op scan_type_None TokenType.distinct
        not_False_eq_True simp_thms scan_type_Some tk_type_token_simple split: option.split if_split)
      (use single in auto)
qed

text \<open>
  Verbose and quiet mode scan alike; the verbose mode reports on standard output where
  the quiet mode makes an error token.
\<close>

definition not_error :: "Token \<Rightarrow> bool" where
  "not_error t \<longleftrightarrow> tk_type t \<noteq> TOKEN_ERROR"

definition scan_alike :: "scan \<Rightarrow> scan \<Rightarrow> bool" where
  "scan_alike quiet loud \<longleftrightarrow> sc_current quiet = sc_current loud \<and> sc_line quiet = sc_line loud
     \<and> filter not_error (option_list (sc_token quiet)) = option_list (sc_token loud)"

lemma scan_token_alike: "scan_alike (scan_token False code cur line) (scan_token True code cur line)"
proof -
  have same: "scan_alike sc sc" if "scan_type (\<lambda>t. t \<noteq> TOKEN_ERROR) sc" for sc
    using that by (cases "sc_token sc") (simp_all add: scan_alike_def scan_type_def option_list_def not_error_def)
  have single: "single_type c \<noteq> Some TOKEN_ERROR" for c
    by (simp add: single_type_def)
  have keyw: "keyword_type w \<noteq> Some TOKEN_ERROR" for w
    by (simp add: keyword_type_def)
  have op: "scan_alike (scan_operator code cur line a b l) (scan_operator code cur line a b l)"
    if "a \<noteq> TOKEN_ERROR" "b \<noteq> TOKEN_ERROR" for a b l
    using that by (intro same) (simp add: scan_operator_def match_next_def)
  have slash: "scan_alike (scan_slash code cur line) (scan_slash code cur line)"
    by (intro same) (simp add: scan_slash_def match_next_def)
  have str: "scan_alike (scan_string False code cur line) (scan_string True code cur line)"
    by (auto simp: scan_string_def Let_def scan_alike_def option_list_def not_error_def split: prod.split)
  have def: "scan_alike (scan_default False code cur line) (scan_default True code cur line)"
    using keyw by (auto simp: scan_default_def Let_def scan_alike_def option_list_def not_error_def
        split: prod.split option.split)
  have none: "scan_alike (scanned None c l) (scanned None c l)" for c l
    by (intro same) simp
  have tok: "scan_alike (scanned (Some (token_simple t line cur l)) cur line)
      (scanned (Some (token_simple t line cur l)) cur line)" if "single_type c = Some t" for t c l
    using that single [of c] by (intro same) auto
  have both: "scan_alike (if b then x else y) (if b then x' else y')"
    if "scan_alike x x'" "scan_alike y y'" for b x x' y y'
    using that by simp
  show ?thesis
  proof (cases "single_type (code_at code cur)")
    case None
    then show ?thesis
      by (simp only: scan_token_def Let_def option.case) (intro both none slash str def op; simp)
  next
    case (Some t)
    then show ?thesis
      by (simp only: scan_token_def Let_def option.case) (rule tok)
  qed
qed

lemma toknzr_loop_alike:
  assumes "tz_current a = tz_current b" "tz_line a = tz_line b"
    "filter not_error (tz_tokens a) = tz_tokens b"
  shows "tz_current (toknzr_loop False code a) = tz_current (toknzr_loop True code b)
    \<and> tz_line (toknzr_loop False code a) = tz_line (toknzr_loop True code b)
    \<and> filter not_error (tz_tokens (toknzr_loop False code a)) = tz_tokens (toknzr_loop True code b)"
  using assms
proof (induction "length code - tz_current a" arbitrary: a b rule: less_induct)
  case less
  show ?case
  proof (cases "tz_current a < length code")
    case False
    with less.prems show ?thesis by simp
  next
    case True
    let ?a = "toknzr_step False code a" and ?b = "toknzr_step True code b"
    have alike: "scan_alike (scan_token False code (tz_current a) (tz_line a))
        (scan_token True code (tz_current a) (tz_line a))" by (rule scan_token_alike)
    have "length code - tz_current ?a < length code - tz_current a"
      using True scan_token_ge [of "tz_current a" False code "tz_line a"]
      by (simp add: toknzr_step_def Let_def)
    moreover have "tz_current ?a = tz_current ?b" "tz_line ?a = tz_line ?b"
      "filter not_error (tz_tokens ?a) = tz_tokens ?b"
      using alike less.prems by (simp_all add: toknzr_step_def Let_def scan_alike_def)
    ultimately show ?thesis
      using less.hyps True less.prems(1) by (simp add: toknzr_loop_step)
  qed
qed

lemma toknzr_quiet_verbose:
  "filter not_error (tkz_values (toknzr code False)) = tkz_values (toknzr code True)
   \<and> tkz_lines (toknzr code False) = tkz_lines (toknzr code True)"
proof -
  let ?s = "\<lparr>tz_current = 0, tz_line = 1, tz_tokens = [], tz_reports = []\<rparr>"
  have "tz_current (toknzr_loop False code ?s) = tz_current (toknzr_loop True code ?s)
    \<and> tz_line (toknzr_loop False code ?s) = tz_line (toknzr_loop True code ?s)
    \<and> filter not_error (tz_tokens (toknzr_loop False code ?s)) = tz_tokens (toknzr_loop True code ?s)"
    by (rule toknzr_loop_alike) simp_all
  then show ?thesis by (simp add: toknzr_def Let_def not_error_def)
qed

text \<open>Number tokens carry their text twice: the compiler reads the lexeme, the parser the literal.\<close>

definition number_literal :: "Token \<Rightarrow> bool" where
  "number_literal t \<longleftrightarrow> (tk_type t = TOKEN_NUMBER \<longrightarrow> tk_literal t = tk_lexeme t)"

lemma keyword_not_number: "keyword_type x = Some ty \<Longrightarrow> ty \<noteq> TOKEN_NUMBER"
  by (auto simp: keyword_type_def split: if_splits)

lemma single_not_number: "single_type c = Some ty \<Longrightarrow> ty \<noteq> TOKEN_NUMBER"
  by (auto simp: single_type_def split: if_splits)

lemma scan_number_literal: "sc_token (scan_token v code i line) = Some t \<Longrightarrow> number_literal t"
  by (auto simp: scan_token_def scan_operator_def scan_slash_def scan_string_def scan_default_def number_literal_def token_simple_def token_def
      Let_def split: option.splits if_splits prod.splits dest: keyword_not_number single_not_number)

lemma toknzr_number_literals: "list_all number_literal (tkz_values (toknzr code v))"
proof -
  let ?s = "\<lparr>tz_current = 0, tz_line = 1, tz_tokens = [], tz_reports = []\<rparr>"
  have "list_all number_literal (tz_tokens (toknzr_loop v code ?s))"
    by (rule toknzr_loop_invariant)
      (auto simp: toknzr_step_def Let_def option_list_def split: option.split dest: scan_number_literal)
  then show ?thesis by (simp add: toknzr_def Let_def number_literal_def token_simple_def token_def)
qed

section \<open>Properties\<close>

text \<open>
  C15. The token list ends with an end-of-file token and holds no other one, so the
  parsers, which stop at the first end-of-file token, see every token.
\<close>

theorem toknzr_one_eof:
  "filter (\<lambda>t. tk_type t = TOKEN_ENDOFFILE) (tkz_values (toknzr code v))
     = [last (tkz_values (toknzr code v))]"
proof -
  let ?s = "\<lparr>tz_current = 0, tz_line = 1, tz_tokens = [], tz_reports = []\<rparr>"
  have "filter (\<lambda>t. tk_type t = TOKEN_ENDOFFILE) (tz_tokens (toknzr_loop v code ?s)) = []"
  proof (rule toknzr_loop_invariant)
    fix s :: toknzr_state
    assume "filter (\<lambda>t. tk_type t = TOKEN_ENDOFFILE) (tz_tokens s) = []"
    then show "filter (\<lambda>t. tk_type t = TOKEN_ENDOFFILE) (tz_tokens (toknzr_step v code s)) = []"
      using scan_token_not_eof [of v code "tz_current s" "tz_line s"]
      by (auto simp: toknzr_step_def Let_def option_list_def scan_type_def split: option.splits)
  qed simp
  then show ?thesis by (simp add: toknzr_def Let_def)
qed

text \<open>
  C16. The two front ends tokenize alike: the tokens of the verbose mode (tree walker) are
  those of the quiet mode (bytecode compiler) without the error tokens, and both count
  the same lines.
\<close>

theorem toknzr_modes_agree:
  "filter not_error (tkz_values (toknzr code False)) = tkz_values (toknzr code True)
   \<and> tkz_lines (toknzr code False) = tkz_lines (toknzr code True)"
  by (rule toknzr_quiet_verbose)

text \<open>
  C17. Round trip of string literals: a quoted text without a quote inside is read back as
  one string token whose literal is exactly that text, newlines included.
\<close>

theorem toknzr_string_roundtrip:
  assumes "CHR 0x22 \<notin> set s"
  shows "map (\<lambda>t. (tk_type t, tk_literal t))
           (tkz_values (toknzr ([CHR 0x22] @ s @ [CHR 0x22]) v))
       = [(TOKEN_STRING, Some s), (TOKEN_ENDOFFILE, None)]"
proof -
  let ?code = "CHR 0x22 # s @ [CHR 0x22]"
  have scan: "scan_token v ?code 0 1 =
     (let line' = 1 + count_list s (CHR 0x0A); cur = Suc (length s)
      in scanned (Some (token TOKEN_STRING (Some s) line' cur (Some s))) cur line')"
    using scan_string_run [OF assms, of v "[]" "[]" 1] by simp
  show ?thesis
    by (simp add: toknzr_def Let_def toknzr_loop_step toknzr_step_def scan [simplified]
        option_list_def token_def token_simple_def)
qed

theorem toknzr_string_roundtrip_witness:
  "map (\<lambda>t. (tk_type t, tk_literal t)) (tkz_values (toknzr ([CHR 0x22] @ ''a b'' @ [CHR 0x22]) False))
     = [(TOKEN_STRING, Some ''a b''), (TOKEN_ENDOFFILE, None)]"
  by (rule toknzr_string_roundtrip) simp

text \<open>
  Longest match for words: a maximal run of letters anywhere in the text is one
  token, the keyword it spells or else an identifier with that lexeme, and the scan stops
  on its last letter.
\<close>

theorem scan_word_longest:
  assumes "w \<noteq> []" and "list_all (\<lambda>c. isalpha (schar c)) w"
    and "post = [] \<or> \<not> isalpha (schar (hd post))"
  shows "scan_token v (pre @ w @ post) (length pre) line =
     scanned (Some (token_simple (case keyword_type w of Some t \<Rightarrow> t | None \<Rightarrow> TOKEN_IDENTIFIER)
                      line (length pre + length w - 1) w)) (length pre + length w - 1) line"
  using assms by (rule scan_word)

theorem scan_word_longest_witness:
  "scan_token False (''print '' @ ''total'' @ '';'') 6 1 =
     scanned (Some (token_simple TOKEN_IDENTIFIER 1 10 ''total'')) 10 1"
  using scan_word_longest [of "''total''" "'';''" False "''print ''" 1]
  by (simp add: schar_def isalpha_def keyword_type_def numeral_eq_Suc)

text \<open>
  C27. Longest match for numbers: digits, optionally followed by a point and more digits,
  are one number token; a point that no digit follows is left for the next token.
\<close>

theorem scan_number_longest:
  assumes "ds \<noteq> []" and "list_all (\<lambda>c. isdigit (schar c)) ds"
    and "fs = [] \<and> (post = [] \<or> \<not> isdigit (schar (hd post))
             \<and> (hd post = CHR ''.'' \<longrightarrow> \<not> isdigit (schar (code_at (tl post) 0))))
       \<or> (\<exists>es. fs = CHR ''.'' # es \<and> es \<noteq> [] \<and> list_all (\<lambda>c. isdigit (schar c)) es
             \<and> (post = [] \<or> \<not> isdigit (schar (hd post))))"
  shows "scan_token v (pre @ (ds @ fs) @ post) (length pre) line =
     scanned (Some (token TOKEN_NUMBER (Some (ds @ fs)) line (length pre + length (ds @ fs) - 1) (Some (ds @ fs))))
       (length pre + length (ds @ fs) - 1) line"
  using assms by (rule scan_number)

theorem scan_number_longest_witness:
  "scan_token False (''x='' @ (''12'' @ ''.5'') @ '';'') 2 1 =
     scanned (Some (token TOKEN_NUMBER (Some ''12.5'') 1 5 (Some ''12.5''))) 5 1
   \<and> scan_token False ([] @ (''7'' @ []) @ ''.x'') 0 1 =
     scanned (Some (token TOKEN_NUMBER (Some ''7'') 1 0 (Some ''7''))) 0 1"
  using scan_number_longest [of "''12''" "''.5''" "'';''" False "''x=''" 1]
    scan_number_longest [of "''7''" "[]" "''.x''" False "[]" 1]
  by (simp add: schar_def isdigit_def code_at_def numeral_eq_Suc)

text \<open>
  A comment swallows its newline: the pass of the loop that scans a \<^verbatim>\<open>//\<close> comment
  also steps over the newline that ends it, and the line counter is not advanced, so every
  later line number is one too small.
\<close>

theorem comment_newline_not_counted:
  assumes "CHR 0x0A \<notin> set s" and "tz_current st = length pre"
  shows "toknzr_step v (pre @ ''//'' @ s @ CHR 0x0A # post) st =
     st\<lparr>tz_current := length (pre @ ''//'' @ s @ [CHR 0x0A])\<rparr>"
proof -
  have "scan_token v (pre @ ''//'' @ s @ CHR 0x0A # post) (length pre) (tz_line st)
      = scanned None (length pre + 2 + length s) (tz_line st)"
    by (rule scan_comment_run) (use assms(1) in auto)
  then show ?thesis using assms(2) by (simp add: toknzr_step_def Let_def option_list_def)
qed

theorem comment_newline_not_counted_witness:
  "toknzr_step False (''x'' @ ''//'' @ ''hi'' @ CHR 0x0A # ''y'')
      \<lparr>tz_current = 1, tz_line = 4, tz_tokens = [], tz_reports = []\<rparr>
   = \<lparr>tz_current = 6, tz_line = 4, tz_tokens = [], tz_reports = []\<rparr>"
  using comment_newline_not_counted [of "''hi''"
      "\<lparr>tz_current = 1, tz_line = 4, tz_tokens = [], tz_reports = []\<rparr>" "''x''" False "''y''"]
  by (simp add: numeral_eq_Suc)

text \<open>
  An identifier ends at a digit or an underscore: although the scan loop tests
  \<^verbatim>\<open>IS_ALPHA_NUMERIC\<close>, a letter run followed by a digit or \<^verbatim>\<open>_\<close> is a token of its own.
\<close>

theorem identifier_stops_at_digit:
  assumes "w \<noteq> []" and "list_all (\<lambda>c. isalpha (schar c)) w"
    and "isdigit (schar d) \<or> d = CHR ''_''"
  shows "sc_current (scan_token v (pre @ w @ d # post) (length pre) line) = length pre + length w - 1"
proof -
  have "\<not> isalpha (schar d)"
    using assms(3) isdigit_not_isalpha by (auto simp: schar_def isalpha_def)
  then show ?thesis using scan_word [OF assms(1,2), of "d # post" v pre line] by simp
qed

theorem identifier_stops_at_digit_witness:
  "sc_current (scan_token False (''var '' @ ''x'' @ CHR ''1'' # '' = 2;'') 4 1) = 4"
  using identifier_stops_at_digit [of "''x''" "CHR ''1''" False "''var ''" "'' = 2;''" 1]
  by (simp add: schar_def isalpha_def isdigit_def numeral_eq_Suc)

end
