(* ===== verification/Clox_List.thy ===== *)
theory Clox_List
  imports Clox_Prelude
begin

text \<open>
  The doubly linked list (\<^verbatim>\<open>include/ds/list.h\<close>, \<^verbatim>\<open>src/ds/list.c\<close>) on an explicit heap of
  nodes. A pointer is an address or \<open>None\<close> (NULL); allocation hands out fresh addresses
  and always succeeds; \<^verbatim>\<open>fr\<close> removes the cell, so a later access through a stale pointer
  is a fault. The field \<^verbatim>\<open>count\<close> keeps its width (\<^verbatim>\<open>unsigned int\<close>), because the code
  computes \<^verbatim>\<open>count - 1\<close> on empty lists. A loop that follows \<^verbatim>\<open>next\<close> or \<^verbatim>\<open>prev\<close> links gets as
  many steps as there are addresses, which a chain without a cycle cannot exceed.

  The abstraction \<open>dll h l as xs\<close> says that the list \<open>l\<close> in heap \<open>h\<close> holds the data \<open>xs\<close>
  in nodes at the addresses \<open>as\<close>.
\<close>

section \<open>The heap\<close>

record 'a Node =
  nd_data :: 'a
  nd_next :: "nat option"
  nd_prev :: "nat option"

record 'a lheap =
  lh_nodes :: "nat \<Rightarrow> 'a Node option"
  lh_fresh :: nat

record List =
  ls_head :: "nat option"
  ls_last :: "nat option"
  ls_count :: "32 word"

definition lheap_empty :: "'a lheap" where
  "lheap_empty = \<lparr>lh_nodes = (\<lambda>_. None), lh_fresh = 0\<rparr>"

definition node_at :: "'a lheap \<Rightarrow> nat option \<Rightarrow> 'a Node result" where
  "node_at h p = (case p of None \<Rightarrow> Inl (Crash Null_Deref)
     | Some a \<Rightarrow> (case lh_nodes h a of None \<Rightarrow> Inl (Crash Use_After_Free) | Some n \<Rightarrow> Inr n))"

definition put_node :: "'a lheap \<Rightarrow> nat option \<Rightarrow> ('a Node \<Rightarrow> 'a Node) \<Rightarrow> 'a lheap result" where
  "put_node h p f = (case p of None \<Rightarrow> Inl (Crash Null_Deref)
     | Some a \<Rightarrow> (case lh_nodes h a of None \<Rightarrow> Inl (Crash Use_After_Free)
         | Some n \<Rightarrow> Inr (h\<lparr>lh_nodes := (lh_nodes h)(a := Some (f n))\<rparr>)))"

definition fr_node :: "'a lheap \<Rightarrow> nat \<Rightarrow> 'a lheap" where
  "fr_node h a = h\<lparr>lh_nodes := (lh_nodes h)(a := None)\<rparr>"

section \<open>Operations\<close>

definition node :: "'a lheap \<Rightarrow> 'a \<Rightarrow> nat \<times> 'a lheap" where
  "node h data = (lh_fresh h,
     h\<lparr>lh_nodes := (lh_nodes h)(lh_fresh h := Some \<lparr>nd_data = data, nd_next = None, nd_prev = None\<rparr>),
       lh_fresh := Suc (lh_fresh h)\<rparr>)"

definition new_list :: List where
  "new_list = \<lparr>ls_head = None, ls_last = None, ls_count = 0\<rparr>"

definition list_last :: "List \<Rightarrow> nat option" where
  "list_last l = ls_last l"

definition list_push ::
  "'a lheap \<Rightarrow> List option \<Rightarrow> 'a \<Rightarrow> ('a lheap \<times> List option \<times> nat option) result" where
  "list_push h list data =
     (let (a, h1) = node h data
      in case list of None \<Rightarrow> Inr (h1, None, None)
       | Some l \<Rightarrow>
           bind_result (case list_last l of None \<Rightarrow> Inr h1
               | Some b \<Rightarrow> bind_result (put_node h1 (Some b) (\<lambda>n. n\<lparr>nd_next := Some a\<rparr>))
                   (\<lambda>h2. put_node h2 (Some a) (\<lambda>n. n\<lparr>nd_prev := Some b\<rparr>)))
             (\<lambda>h3. Inr (h3, Some \<lparr>ls_head = (case ls_head l of None \<Rightarrow> Some a | p \<Rightarrow> p),
                                  ls_last = Some a, ls_count = ls_count l + 1\<rparr>, Some a)))"

text \<open>The loop of \<^verbatim>\<open>list_at\<close>: \<open>k\<close> is \<^verbatim>\<open>index - idx\<close>.\<close>

fun list_walk :: "'a lheap \<Rightarrow> nat option \<Rightarrow> nat \<Rightarrow> nat option result" where
  "list_walk h None k = Inr None"
| "list_walk h (Some a) 0 = Inr (Some a)"
| "list_walk h (Some a) (Suc k) = bind_result (node_at h (Some a)) (\<lambda>n. list_walk h (nd_next n) k)"

definition list_at :: "'a lheap \<Rightarrow> List option \<Rightarrow> 32 word \<Rightarrow> nat option result" where
  "list_at h list index =
     (case list of None \<Rightarrow> Inr None
      | Some l \<Rightarrow> if index = 0 then Inr (ls_head l)
                  else if index = ls_count l - 1 then Inr (ls_last l)
                  else list_walk h (ls_head l) (unat index))"

definition list_insert ::
  "'a lheap \<Rightarrow> List option \<Rightarrow> 'a \<Rightarrow> 32 word \<Rightarrow> ('a lheap \<times> List option \<times> nat option) result" where
  "list_insert h list data index =
     (case list of None \<Rightarrow> Inr (h, None, None)
      | Some l \<Rightarrow>
          if index = ls_count l - 1 then list_push h list data
          else let (a, h1) = node h data; l1 = l\<lparr>ls_count := ls_count l + 1\<rparr>
               in if index = 0
                  then bind_result (put_node h1 (Some a) (\<lambda>n. n\<lparr>nd_next := ls_head l1\<rparr>))
                         (\<lambda>h2. bind_result (put_node h2 (ls_head l1) (\<lambda>n. n\<lparr>nd_prev := Some a\<rparr>))
                           (\<lambda>h3. Inr (h3, Some (l1\<lparr>ls_head := Some a\<rparr>), Some a)))
                  else bind_result (list_at h1 (Some l1) index)
                    (\<lambda>p. case p of None \<Rightarrow> Inr (fr_node h1 a, Some l1, None)
                      | Some b \<Rightarrow> bind_result (node_at h1 p)
                          (\<lambda>n. bind_result (put_node h1 (nd_prev n) (\<lambda>m. m\<lparr>nd_next := Some a\<rparr>))
                          (\<lambda>h2. bind_result (put_node h2 (Some a) (\<lambda>m. m\<lparr>nd_prev := nd_prev n\<rparr>))
                          (\<lambda>h3. bind_result (put_node h3 p (\<lambda>m. m\<lparr>nd_prev := Some a\<rparr>))
                          (\<lambda>h4. bind_result (put_node h4 (Some a) (\<lambda>m. m\<lparr>nd_next := p\<rparr>))
                          (\<lambda>h5. Inr (h5, Some l1, Some a))))))))"

text \<open>The loop of \<^verbatim>\<open>list_remove\<close>: it stops at \<^verbatim>\<open>node\<close> or at the last node.\<close>

fun list_find :: "nat \<Rightarrow> 'a lheap \<Rightarrow> nat option \<Rightarrow> nat option \<Rightarrow> nat option result" where
  "list_find 0 h n target = Inl Out_Of_Fuel"
| "list_find (Suc fuel) h n target =
     bind_result (node_at h n)
       (\<lambda>nd. if nd_next nd \<noteq> None \<and> n \<noteq> target then list_find fuel h (nd_next nd) target else Inr n)"

definition list_remove ::
  "'a lheap \<Rightarrow> List \<Rightarrow> nat option \<Rightarrow> ('a lheap \<times> List \<times> bool) result" where
  "list_remove h l target =
     bind_result (list_find (Suc (lh_fresh h)) h (ls_head l) target)
       (\<lambda>p. case p of None \<Rightarrow> Inr (h, l, False)
         | Some a \<Rightarrow>
             bind_result (node_at h p)
               (\<lambda>n. let l1 = l\<lparr>ls_count := ls_count l - 1\<rparr>
                    in if ls_count l1 = 0
                       then Inr (fr_node h a, l1\<lparr>ls_head := None, ls_last := None\<rparr>, True)
                       else bind_result
                         (case nd_prev n of None \<Rightarrow> Inr (h, l1\<lparr>ls_head := nd_next n\<rparr>)
                           | q \<Rightarrow> bind_result (put_node h q (\<lambda>m. m\<lparr>nd_next := nd_next n\<rparr>)) (\<lambda>h1. Inr (h1, l1)))
                         (\<lambda>(h1, l2). bind_result
                           (case nd_next n of None \<Rightarrow> Inr (h1, l2\<lparr>ls_last := nd_prev n\<rparr>)
                             | q \<Rightarrow> bind_result (put_node h1 q (\<lambda>m. m\<lparr>nd_prev := nd_prev n\<rparr>)) (\<lambda>h2. Inr (h2, l2)))
                           (\<lambda>(h2, l3). Inr (fr_node h2 a, l3, True)))))"

definition list_remove_at ::
  "'a lheap \<Rightarrow> List option \<Rightarrow> 32 word \<Rightarrow> ('a lheap \<times> bool) result" where
  "list_remove_at h list index =
     bind_result (list_at h list index)
       (\<lambda>p. case p of None \<Rightarrow> Inr (h, False)
         | Some a \<Rightarrow>
             bind_result (node_at h p)
               (\<lambda>n. bind_result (put_node h (nd_prev n) (\<lambda>m. m\<lparr>nd_next := nd_next n\<rparr>))
               (\<lambda>h1. bind_result (put_node h1 (nd_next n) (\<lambda>m. m\<lparr>nd_prev := nd_prev n\<rparr>))
               (\<lambda>h2. Inr (fr_node h2 a, True)))))"

fun free_back :: "nat \<Rightarrow> 'a lheap \<Rightarrow> nat option \<Rightarrow> 'a lheap result" where
  "free_back fuel h None = Inr h"
| "free_back 0 h (Some a) = Inl Out_Of_Fuel"
| "free_back (Suc fuel) h (Some a) =
     bind_result (node_at h (Some a)) (\<lambda>n. free_back fuel (fr_node h a) (nd_prev n))"

definition list_clear :: "'a lheap \<Rightarrow> List option \<Rightarrow> ('a lheap \<times> List option) result" where
  "list_clear h list =
     (case list of None \<Rightarrow> Inr (h, None)
      | Some l \<Rightarrow> bind_result (free_back (Suc (lh_fresh h)) h (ls_last l))
          (\<lambda>h1. Inr (h1, Some \<lparr>ls_head = None, ls_last = None, ls_count = 0\<rparr>)))"

text \<open>\<^verbatim>\<open>list_destroy\<close> also frees the list structure itself: no list is left.\<close>

definition list_destroy :: "'a lheap \<Rightarrow> List option \<Rightarrow> 'a lheap result" where
  "list_destroy h list =
     (case list of None \<Rightarrow> Inr h | Some l \<Rightarrow> bind_result (list_clear h list) (\<lambda>(h1, _). Inr h1))"

text \<open>
  \<^verbatim>\<open>list_foreach\<close> with a callback that updates a state \<open>s\<close> of its own and leaves the list
  alone, and \<^verbatim>\<open>list_any\<close> with a predicate on nodes that holds when it returns a positive
  number.
\<close>

fun foreach_loop :: "nat \<Rightarrow> 'a lheap \<Rightarrow> nat option \<Rightarrow> ('a \<Rightarrow> 's \<Rightarrow> 's) \<Rightarrow> 's \<Rightarrow> 's result" where
  "foreach_loop fuel h None iter s = Inr s"
| "foreach_loop 0 h (Some a) iter s = Inl Out_Of_Fuel"
| "foreach_loop (Suc fuel) h (Some a) iter s =
     bind_result (node_at h (Some a)) (\<lambda>n. foreach_loop fuel h (nd_next n) iter (iter (nd_data n) s))"

definition list_foreach :: "'a lheap \<Rightarrow> List option \<Rightarrow> ('a \<Rightarrow> 's \<Rightarrow> 's) \<Rightarrow> 's \<Rightarrow> 's result" where
  "list_foreach h list iter s =
     (case list of None \<Rightarrow> Inr s | Some l \<Rightarrow> foreach_loop (Suc (lh_fresh h)) h (ls_head l) iter s)"

fun any_loop :: "nat \<Rightarrow> 'a lheap \<Rightarrow> nat option \<Rightarrow> ('a Node \<Rightarrow> int) \<Rightarrow> bool result" where
  "any_loop fuel h None p = Inr False"
| "any_loop 0 h (Some a) p = Inl Out_Of_Fuel"
| "any_loop (Suc fuel) h (Some a) p =
     bind_result (node_at h (Some a)) (\<lambda>n. if 0 < p n then Inr True else any_loop fuel h (nd_next n) p)"

definition list_any :: "'a lheap \<Rightarrow> List option \<Rightarrow> ('a Node \<Rightarrow> int) \<Rightarrow> bool result" where
  "list_any h list p =
     (case list of None \<Rightarrow> Inr False | Some l \<Rightarrow> any_loop (Suc (lh_fresh h)) h (ls_head l) p)"

text \<open>\<^verbatim>\<open>list_pop\<close> removes \<^verbatim>\<open>list->last\<close>, without a check that there is one.\<close>

definition list_pop ::
  "'a lheap \<Rightarrow> List option \<Rightarrow> ('a lheap \<times> List option \<times> 'a option) result" where
  "list_pop h list =
     (case list of None \<Rightarrow> Inr (h, None, None)
      | Some l \<Rightarrow>
          bind_result (case ls_last l of None \<Rightarrow> Inr None
              | p \<Rightarrow> bind_result (node_at h p) (\<lambda>n. Inr (Some (nd_data n))))
            (\<lambda>data. bind_result (list_remove h l (ls_last l))
              (\<lambda>(h1, l1, _). Inr (h1, Some l1, data))))"

section \<open>The abstraction\<close>

definition node_of :: "nat list \<Rightarrow> 'a list \<Rightarrow> nat \<Rightarrow> 'a Node" where
  "node_of as xs i =
     \<lparr>nd_data = xs ! i,
      nd_next = (if Suc i < length as then Some (as ! Suc i) else None),
      nd_prev = (if i = 0 then None else Some (as ! (i - 1)))\<rparr>"

definition dll :: "'a lheap \<Rightarrow> List \<Rightarrow> nat list \<Rightarrow> 'a list \<Rightarrow> bool" where
  "dll h l as xs \<longleftrightarrow>
     length as = length xs \<and> distinct as \<and> length as < 2 ^ 32
     \<and> (\<forall>a \<in> set as. a < lh_fresh h)
     \<and> (\<forall>i < length as. lh_nodes h (as ! i) = Some (node_of as xs i))
     \<and> ls_head l = (if as = [] then None else Some (hd as))
     \<and> ls_last l = (if as = [] then None else Some (last as))
     \<and> ls_count l = of_nat (length as)"


section \<open>Lemmas on the heap\<close>

named_theorems dll_simps \<open>unfolding of the heap primitives\<close>

lemma node_at_None [simp, dll_simps]: "node_at h None = Inl (Crash Null_Deref)"
  by (simp add: node_at_def)

lemma node_at_Some [simp, dll_simps]: "lh_nodes h a = Some n \<Longrightarrow> node_at h (Some a) = Inr n"
  by (simp add: node_at_def)

lemma put_node_None [simp, dll_simps]: "put_node h None f = Inl (Crash Null_Deref)"
  by (simp add: put_node_def)

lemma put_node_Some [simp, dll_simps]:
  "lh_nodes h a = Some n \<Longrightarrow>
   put_node h (Some a) f = Inr (h\<lparr>lh_nodes := (lh_nodes h)(a := Some (f n))\<rparr>)"
  by (simp add: put_node_def)

lemma fr_node_nodes [simp, dll_simps]: "lh_nodes (fr_node h a) = (lh_nodes h)(a := None)"
  by (simp add: fr_node_def)

lemma fr_node_fresh [simp, dll_simps]: "lh_fresh (fr_node h a) = lh_fresh h"
  by (simp add: fr_node_def)

lemma node_of_data [simp]: "nd_data (node_of as xs i) = xs ! i"
  by (simp add: node_of_def)

lemma dll_nth: "dll h l as xs \<Longrightarrow> i < length as \<Longrightarrow> lh_nodes h (as ! i) = Some (node_of as xs i)"
  by (simp add: dll_def)

lemma dll_length: "dll h l as xs \<Longrightarrow> length xs = length as"
  by (simp add: dll_def)

lemma dll_head: "dll h l as xs \<Longrightarrow> ls_head l = (if as = [] then None else Some (as ! 0))"
  by (simp add: dll_def hd_conv_nth)

lemma dll_last: "dll h l as xs \<Longrightarrow> ls_last l = (if as = [] then None else Some (as ! (length as - 1)))"
  by (simp add: dll_def last_conv_nth)

lemma dll_fresh: "dll h l as xs \<Longrightarrow> lh_fresh h \<notin> set as"
  by (auto simp: dll_def)

lemma dll_fuel: "dll h l as xs \<Longrightarrow> length as \<le> lh_fresh h"
proof -
  assume d: "dll h l as xs"
  then have "set as \<subseteq> {0..<lh_fresh h}" and "distinct as" by (auto simp: dll_def)
  then have "card (set as) \<le> card {0..<lh_fresh h}" by (intro card_mono) auto
  with \<open>distinct as\<close> show ?thesis by (simp add: distinct_card)
qed

lemma dll_empty: "dll h new_list [] []"
  by (simp add: dll_def new_list_def)

lemma of_nat_eq_small:
  assumes "m < 2 ^ 32" and "n < 2 ^ 32"
  shows "(of_nat m :: 32 word) = of_nat n \<longleftrightarrow> m = n"
  using assms by (simp add: word_of_nat_eq_iff take_bit_nat_eq_self)

subsection \<open>Pushing\<close>

lemma list_push_dll:
  assumes d: "dll h l as xs" and room: "Suc (length as) < 2 ^ 32"
  obtains h' l' where
    "list_push h (Some l) x = Inr (h', Some l', Some (lh_fresh h))"
    "dll h' l' (as @ [lh_fresh h]) (xs @ [x])"
    "lh_fresh h' = Suc (lh_fresh h)"
    "\<And>b. b \<notin> set as \<Longrightarrow> b \<noteq> lh_fresh h \<Longrightarrow> lh_nodes h' b = lh_nodes h b"
proof -
  define a where "a = lh_fresh h"
  have a: "a \<notin> set as" using dll_fresh [OF d] by (simp add: a_def)
  have len: "length xs = length as" using d by (rule dll_length)
  show thesis
  proof (cases "as = []")
    case True
    let ?h = "h\<lparr>lh_nodes := (lh_nodes h)(a := Some \<lparr>nd_data = x, nd_next = None, nd_prev = None\<rparr>),
      lh_fresh := Suc a\<rparr>"
    let ?l = "\<lparr>ls_head = Some a, ls_last = Some a, ls_count = ls_count l + 1\<rparr>"
    have l: "ls_last l = None" "ls_head l = None" "ls_count l = 0"
      using d True by (simp_all add: dll_def)
    have "list_push h (Some l) x = Inr (?h, Some ?l, Some a)"
      by (simp add: list_push_def node_def list_last_def l a_def)
    moreover have "dll ?h ?l (as @ [a]) (xs @ [x])"
      using True len l by (simp add: dll_def node_of_def)
    ultimately show thesis
      by (intro that [of ?h ?l]) (simp_all add: a_def)
  next
    case False
    define b where "b = as ! (length as - 1)"
    have b: "b \<in> set as" "b \<noteq> a" "ls_last l = Some b"
      using False a dll_last [OF d] by (auto simp: b_def)
    let ?nb = "node_of as xs (length as - 1)"
    have nb: "lh_nodes h b = Some ?nb" using False dll_nth [OF d, of "length as - 1"] by (simp add: b_def)
    let ?h = "h\<lparr>lh_nodes := (lh_nodes h)(a := Some \<lparr>nd_data = x, nd_next = None, nd_prev = Some b\<rparr>,
        b := Some (?nb\<lparr>nd_next := Some a\<rparr>)), lh_fresh := Suc a\<rparr>"
    let ?l = "\<lparr>ls_head = ls_head l, ls_last = Some a, ls_count = ls_count l + 1\<rparr>"
    obtain c where c: "ls_head l = Some c" using False d by (simp add: dll_def)
    have "list_push h (Some l) x = Inr (?h, Some ?l, Some a)"
      using b nb c
      by (simp add: list_push_def node_def list_last_def a_def [symmetric] fun_upd_twist)
    moreover have "dll ?h ?l (as @ [a]) (xs @ [x])"
      unfolding dll_def
    proof (intro conjI allI impI ballI)
      fix i
      assume i: "i < length (as @ [a])"
      show "lh_nodes ?h ((as @ [a]) ! i) = Some (node_of (as @ [a]) (xs @ [x]) i)"
      proof (cases "i = length as")
        case True
        then show ?thesis using False b(2) len
          by (auto simp: node_of_def b_def nth_append)
      next
        case ne: False
        with i have i': "i < length as" by simp
        then have mem: "as ! i \<noteq> a" using a nth_mem by metis
        show ?thesis
        proof (cases "i = length as - 1")
          case True
          then show ?thesis using i' False len
            by (auto simp: node_of_def b_def nth_append)
        next
          case neb: False
          then have "as ! i \<noteq> b"
            using d i' False by (simp add: b_def nth_eq_iff_index_eq dll_def)
          then show ?thesis
            using i' neb mem len dll_nth [OF d i'] by (auto simp: node_of_def nth_append)
        qed
      qed
    qed (use d a False room c in \<open>auto simp: dll_def a_def\<close>)
    ultimately show thesis
      by (intro that [of ?h ?l]) (use b in \<open>auto simp: a_def\<close>)
  qed
qed

subsection \<open>Removing\<close>

lemma list_find_dll:
  assumes d: "dll h l as xs" and k: "k < length as"
    and stop: "target = Some (as ! k) \<or> Suc k = length as"
    and before: "\<And>j. j < k \<Longrightarrow> target \<noteq> Some (as ! j)"
    and "i \<le> k" and "k - i < fuel"
  shows "list_find fuel h (Some (as ! i)) target = Inr (Some (as ! k))"
  using assms(5,6)
proof (induction fuel arbitrary: i)
  case 0
  then show ?case by simp
next
  case (Suc fuel)
  have n: "node_at h (Some (as ! i)) = Inr (node_of as xs i)"
    using dll_nth [OF d, of i] k Suc.prems by simp
  show ?case
  proof (cases "i = k")
    case True
    with n stop show ?thesis by (auto simp: node_of_def)
  next
    case False
    with Suc.prems have "i < k" by simp
    moreover from this have "Some (as ! i) \<noteq> target" using before [of i] by metis
    ultimately show ?thesis using n k Suc.IH [of "Suc i"] Suc.prems by (simp add: node_of_def)
  qed
qed

definition unlinked_prev :: "'a lheap \<Rightarrow> nat list \<Rightarrow> 'a list \<Rightarrow> nat \<Rightarrow> 'a lheap" where
  "unlinked_prev h as xs k = (if k = 0 then h else h\<lparr>lh_nodes := (lh_nodes h)
     (as ! (k - 1) := Some ((node_of as xs (k - 1))\<lparr>nd_next := nd_next (node_of as xs k)\<rparr>))\<rparr>)"

definition unlinked :: "'a lheap \<Rightarrow> nat list \<Rightarrow> 'a list \<Rightarrow> nat \<Rightarrow> 'a lheap" where
  "unlinked h as xs k = (if Suc k = length as then unlinked_prev h as xs k
     else (unlinked_prev h as xs k)\<lparr>lh_nodes := (lh_nodes (unlinked_prev h as xs k))
       (as ! Suc k := Some ((node_of as xs (Suc k))\<lparr>nd_prev := nd_prev (node_of as xs k)\<rparr>))\<rparr>)"

definition unlinked_list :: "List \<Rightarrow> nat list \<Rightarrow> 'a list \<Rightarrow> nat \<Rightarrow> List" where
  "unlinked_list l as xs k =
     \<lparr>ls_head = (if k = 0 then nd_next (node_of as xs k) else ls_head l),
      ls_last = (if Suc k = length as then nd_prev (node_of as xs k) else ls_last l),
      ls_count = ls_count l - 1\<rparr>"

lemma unlinked_fresh [simp]: "lh_fresh (unlinked h as xs k) = lh_fresh h"
  by (simp add: unlinked_def unlinked_prev_def)

lemma dll_nth_eq_iff:
  "dll h l as xs \<Longrightarrow> i < length as \<Longrightarrow> j < length as \<Longrightarrow> as ! i = as ! j \<longleftrightarrow> i = j"
  by (simp add: dll_def nth_eq_iff_index_eq)

lemma dll_count_pred:
  assumes d: "dll h l as xs" and "as \<noteq> []"
  shows "ls_count l - 1 = of_nat (length as - 1)" and "ls_count l - 1 = 0 \<longleftrightarrow> length as = 1"
proof -
  have small: "length as < 2 ^ 32" and cnt: "ls_count l = of_nat (length as)" using d by (simp_all add: dll_def)
  show eq: "ls_count l - 1 = of_nat (length as - 1)"
    using assms(2) cnt by (simp add: of_nat_diff Suc_leI)
  have one: "length as - 1 = 0 \<longleftrightarrow> length as = 1" using assms(2) by (cases as) simp_all
  have zero: "0 = (of_nat 0 :: 32 word)" by simp
  have "(of_nat (length as - 1) :: 32 word) = of_nat 0 \<longleftrightarrow> length as - 1 = 0"
    by (rule of_nat_eq_small) (use small in auto)
  from trans [OF this one] show "ls_count l - 1 = 0 \<longleftrightarrow> length as = 1" unfolding eq by (subst zero)
qed

text \<open>The code of \<^verbatim>\<open>list_remove\<close> after its search computes these heaps.\<close>

lemma list_remove_unlinked:
  assumes d: "dll h l as xs" and k: "k < length as" and two: "1 < length as"
    and find: "list_find (Suc (lh_fresh h)) h (ls_head l) target = Inr (Some (as ! k))"
  shows "list_remove h l target
    = Inr (fr_node (unlinked h as xs k) (as ! k), unlinked_list l as xs k, True)"
proof -
  let ?n = "node_of as xs k" and ?h1 = "unlinked_prev h as xs k"
  let ?l1 = "l\<lparr>ls_count := ls_count l - 1\<rparr>"
  let ?l2 = "if k = 0 then ?l1\<lparr>ls_head := nd_next ?n\<rparr> else ?l1"
  have na: "lh_nodes h (as ! k) = Some ?n" using dll_nth [OF d k] .
  have n1: "k \<noteq> 0 \<Longrightarrow> lh_nodes h (as ! (k - 1)) = Some (node_of as xs (k - 1))"
    using dll_nth [OF d, of "k - 1"] k by simp
  have n2: "Suc k < length as \<Longrightarrow> lh_nodes ?h1 (as ! Suc k) = Some (node_of as xs (Suc k))"
    using dll_nth [OF d, of "Suc k"] dll_nth_eq_iff [OF d, of "Suc k" "k - 1"] k
    by (cases k) (simp_all add: unlinked_prev_def)
  have unlink_prev: "(case nd_prev ?n of None \<Rightarrow> Inr (h, ?l1\<lparr>ls_head := nd_next ?n\<rparr>)
      | q \<Rightarrow> bind_result (put_node h q (\<lambda>m. m\<lparr>nd_next := nd_next ?n\<rparr>)) (\<lambda>h1. Inr (h1, ?l1)))
    = Inr (?h1, ?l2)"
    using n1 by (cases "k = 0") (simp_all add: node_of_def unlinked_prev_def)
  have unlink_next: "(case nd_next ?n of None \<Rightarrow> Inr (?h1, ?l2\<lparr>ls_last := nd_prev ?n\<rparr>)
      | q \<Rightarrow> bind_result (put_node ?h1 q (\<lambda>m. m\<lparr>nd_prev := nd_prev ?n\<rparr>)) (\<lambda>h2. Inr (h2, ?l2)))
    = Inr (unlinked h as xs k, unlinked_list l as xs k)"
    using n2 k by (cases "Suc k = length as") (simp_all add: node_of_def unlinked_def unlinked_list_def)
  have nz: "ls_count l - 1 \<noteq> 0" using dll_count_pred(2) [OF d] two by fastforce
  show ?thesis
    unfolding list_remove_def find bind_result_Inr option.case node_at_Some [OF na] Let_def
    using nz by (simp only: unlink_prev bind_result_Inr prod.case unlink_next) simp
qed

lemma unlinked_nodes:
  assumes d: "dll h l as xs" and k: "k < length as" and j: "j < length as" "j \<noteq> k"
  shows "lh_nodes (fr_node (unlinked h as xs k) (as ! k)) (as ! j) = Some \<lparr>nd_data = xs ! j,
    nd_next = (if Suc j = k then nd_next (node_of as xs k) else nd_next (node_of as xs j)),
    nd_prev = (if j = Suc k then nd_prev (node_of as xs k) else nd_prev (node_of as xs j))\<rparr>"
proof -
  note idx = dll_nth_eq_iff [OF d]
  have ne: "as ! j \<noteq> as ! k" using idx [OF j(1) k] j(2) by simp
  have dj: "lh_nodes h (as ! j) = Some (node_of as xs j)" using dll_nth [OF d j(1)] .
  consider "Suc j = k" | "j = Suc k" | "Suc j \<noteq> k" "j \<noteq> Suc k" by blast
  then show ?thesis
  proof cases
    case 1
    then have "Suc k < length as \<longrightarrow> as ! j \<noteq> as ! Suc k" using idx [of j "Suc k"] j by auto
    moreover from 1 have "unlinked_prev h as xs k = h\<lparr>lh_nodes := (lh_nodes h)
        (as ! j := Some ((node_of as xs j)\<lparr>nd_next := nd_next (node_of as xs k)\<rparr>))\<rparr>"
      by (auto simp: unlinked_prev_def)
    ultimately have "lh_nodes (unlinked h as xs k) (as ! j)
        = Some ((node_of as xs j)\<lparr>nd_next := nd_next (node_of as xs k)\<rparr>)"
      using k by (simp add: unlinked_def)
    with 1 ne show ?thesis by (simp add: node_of_def)
  next
    case 2
    then show ?thesis using j ne by (auto simp: unlinked_def node_of_def)
  next
    case 3
    then have "k \<noteq> 0 \<longrightarrow> as ! j \<noteq> as ! (k - 1)" "Suc k < length as \<longrightarrow> as ! j \<noteq> as ! Suc k"
      using idx [of j "k - 1"] idx [of j "Suc k"] j k by auto
    with 3 ne dj k show ?thesis by (auto simp: unlinked_prev_def unlinked_def node_of_def)
  qed
qed

lemma dll_unlinked:
  assumes d: "dll h l as xs" and k: "k < length as" and two: "1 < length as"
  shows "dll (fr_node (unlinked h as xs k) (as ! k)) (unlinked_list l as xs k)
    (remove_nth k as) (remove_nth k xs)" (is "dll ?h ?l ?as ?xs")
  unfolding dll_def
proof (intro conjI allI impI ballI)
  have len: "length xs = length as" using d by (rule dll_length)
  have rn: "?as ! i = (if i < k then as ! i else as ! Suc i)"
    "?xs ! i = (if i < k then xs ! i else xs ! Suc i)" if "Suc i < length as" for i
    using that k len by (simp_all add: nth_remove_nth)
  fix i
  assume "i < length ?as"
  then have i: "Suc i < length as" using k by simp
  show "lh_nodes ?h (?as ! i) = Some (node_of ?as ?xs i)"
    using i k unlinked_nodes [OF d k, of i] unlinked_nodes [OF d k, of "Suc i"]
    by (cases "i < k") (auto simp: rn node_of_def remove_nth_0 nth_tl simp del: fr_node_nodes)
next
  show "ls_head ?l = (if ?as = [] then None else Some (hd ?as))"
    using two k dll_head [OF d]
    by (auto simp: unlinked_list_def node_of_def remove_nth_def hd_append hd_drop_conv_nth hd_conv_nth)
next
  have "Suc (length as - 2) = length as - Suc 0" using two by simp
  then show "ls_last ?l = (if ?as = [] then None else Some (last ?as))"
    using two k dll_last [OF d]
    by (auto simp: unlinked_list_def node_of_def remove_nth_def last_append last_conv_nth)
next
  fix a
  assume "a \<in> set ?as"
  then show "a < lh_fresh ?h" using d set_remove_nth [of k as] by (auto simp: dll_def)
next
  have "as \<noteq> []" using k by auto
  with k show "ls_count ?l = of_nat (length ?as)"
    using dll_count_pred(1) [OF d] by (simp add: unlinked_list_def)
qed (use d k in \<open>auto simp: dll_def distinct_remove_nth\<close>)

lemma list_remove_dll:
  assumes d: "dll h l as xs" and k: "k < length as"
    and find: "list_find (Suc (lh_fresh h)) h (ls_head l) target = Inr (Some (as ! k))"
  obtains h' l' where
    "list_remove h l target = Inr (h', l', True)"
    "dll h' l' (remove_nth k as) (remove_nth k xs)"
    "lh_nodes h' (as ! k) = None"
    "lh_fresh h' = lh_fresh h"
proof (cases "length as = 1")
  case True
  then have one: "ls_count l - 1 = 0" "remove_nth k as = []" "remove_nth k xs = []"
    using dll_count_pred(2) [OF d] dll_length [OF d] k by (fastforce simp: remove_nth_def)+
  then have "list_remove h l target
      = Inr (fr_node h (as ! k), l\<lparr>ls_count := ls_count l - 1, ls_head := None, ls_last := None\<rparr>, True)"
    using find dll_nth [OF d k] by (simp add: list_remove_def Let_def)
  with one show thesis
    by (intro that [of "fr_node h (as ! k)" "l\<lparr>ls_count := ls_count l - 1, ls_head := None, ls_last := None\<rparr>"])
      (auto simp: dll_def)
next
  case False
  with k have two: "1 < length as" by simp
  show thesis
    by (rule that [OF list_remove_unlinked [OF d k two find] dll_unlinked [OF d k two]]) simp_all
qed


lemma list_find_last:
  assumes "dll h l as xs" and "as \<noteq> []" and "\<And>j. j < length as - 1 \<Longrightarrow> target \<noteq> Some (as ! j)"
  shows "list_find (Suc (lh_fresh h)) h (ls_head l) target = Inr (Some (as ! (length as - 1)))"
proof -
  have "list_find (Suc (lh_fresh h)) h (Some (as ! 0)) target = Inr (Some (as ! (length as - 1)))"
    by (rule list_find_dll [OF assms(1)]) (use assms dll_fuel [OF assms(1)] in auto)
  then show ?thesis using dll_head [OF assms(1)] assms(2) by simp
qed

lemma list_pop_dll:
  assumes d: "dll h l as (xs @ [x])"
  obtains h' l' where "list_pop h (Some l) = Inr (h', Some l', Some x)" "dll h' l' (butlast as) xs"
proof -
  have len: "length as = Suc (length xs)" using dll_length [OF d] by simp
  then have ne: "as \<noteq> []" by auto
  let ?k = "length as - 1"
  have k: "?k < length as" using ne by simp
  have last: "ls_last l = Some (as ! ?k)" using dll_last [OF d] ne by simp
  have dist: "distinct as" using d by (simp add: dll_def)
  have "list_find (Suc (lh_fresh h)) h (ls_head l) (ls_last l) = Inr (Some (as ! ?k))"
    by (rule list_find_last [OF d ne]) (use dist last in \<open>auto simp: nth_eq_iff_index_eq\<close>)
  from list_remove_dll [OF d k this] obtain h' l' where r:
    "list_remove h l (ls_last l) = Inr (h', l', True)" "dll h' l' (remove_nth ?k as) (remove_nth ?k (xs @ [x]))" .
  have "node_at h (ls_last l) = Inr (node_of as (xs @ [x]) ?k)"
    using dll_nth [OF d k] last by simp
  then have "list_pop h (Some l) = Inr (h', Some l', Some x)"
    using r(1) last len by (simp add: list_pop_def nth_append)
  moreover have "dll h' l' (butlast as) xs"
    using r(2) ne len remove_nth_last [of as] remove_nth_last [of "xs @ [x]"] by simp
  ultimately show thesis by (rule that)
qed

section \<open>The stack interface\<close>

text \<open>
  What the clients of the list rely on (the token list is built by pushing, the scope
  stack of the resolver by pushing and popping): \<open>rel\<close> relates a concrete state to the
  sequence it holds, a push appends as long as there is room for the element count, and a
  pop takes the last element off.
\<close>

locale stack_impl =
  fixes empty :: 's
    and push :: "'s \<Rightarrow> 'a \<Rightarrow> 's result"
    and pop :: "'s \<Rightarrow> ('s \<times> 'a option) result"
    and rel :: "'s \<Rightarrow> 'a list \<Rightarrow> bool"
    and room :: nat
  assumes rel_empty: "rel empty []"
    and push_rel: "rel s xs \<Longrightarrow> Suc (length xs) < room \<Longrightarrow> \<exists>s'. push s x = Inr s' \<and> rel s' (xs @ [x])"
    and pop_rel: "rel s (xs @ [x]) \<Longrightarrow> \<exists>s'. pop s = Inr (s', Some x) \<and> rel s' xs"
begin

fun push_all :: "'s \<Rightarrow> 'a list \<Rightarrow> 's result" where
  "push_all s [] = Inr s"
| "push_all s (x # xs) = bind_result (push s x) (\<lambda>s'. push_all s' xs)"

lemma push_all_rel:
  "rel s ys \<Longrightarrow> length ys + length xs < room \<Longrightarrow> \<exists>s'. push_all s xs = Inr s' \<and> rel s' (ys @ xs)"
proof (induction xs arbitrary: s ys)
  case Nil
  then show ?case by simp
next
  case (Cons x xs)
  from Cons.prems have "Suc (length ys) < room" by simp
  from push_rel [OF Cons.prems(1) this] obtain s' where s': "push s x = Inr s'" "rel s' (ys @ [x])"
    by blast
  with Cons.IH [OF s'(2)] Cons.prems(2) show ?case by simp
qed

corollary build_rel: "length xs < room \<Longrightarrow> \<exists>s'. push_all empty xs = Inr s' \<and> rel s' xs"
  using push_all_rel [OF rel_empty, of xs] by simp

corollary push_pop:
  assumes "rel s xs" and "Suc (length xs) < room"
  shows "\<exists>s' s''. push s x = Inr s' \<and> pop s' = Inr (s'', Some x) \<and> rel s'' xs"
  using push_rel [OF assms, of x] pop_rel by blast

end

definition lst_push :: "'a lheap \<times> List \<Rightarrow> 'a \<Rightarrow> ('a lheap \<times> List) result" where
  "lst_push s x = bind_result (list_push (fst s) (Some (snd s)) x)
     (\<lambda>(h, l, _). case l of None \<Rightarrow> Inl (Crash Null_Deref) | Some l' \<Rightarrow> Inr (h, l'))"

definition lst_pop :: "'a lheap \<times> List \<Rightarrow> (('a lheap \<times> List) \<times> 'a option) result" where
  "lst_pop s = bind_result (list_pop (fst s) (Some (snd s)))
     (\<lambda>(h, l, x). case l of None \<Rightarrow> Inl (Crash Null_Deref) | Some l' \<Rightarrow> Inr ((h, l'), x))"

definition lst_rel :: "'a lheap \<times> List \<Rightarrow> 'a list \<Rightarrow> bool" where
  "lst_rel s xs \<longleftrightarrow> (\<exists>as. dll (fst s) (snd s) as xs)"

interpretation lst: stack_impl "(lheap_empty, new_list)" lst_push lst_pop lst_rel "2 ^ 32"
proof
  show "lst_rel (lheap_empty, new_list) []"
    using dll_empty by (auto simp: lst_rel_def)
next
  fix s :: "'a lheap \<times> List" and xs x
  assume "lst_rel s xs" and room: "Suc (length xs) < 2 ^ 32"
  then obtain as where d: "dll (fst s) (snd s) as xs" by (auto simp: lst_rel_def)
  with room have "Suc (length as) < 2 ^ 32" by (simp add: dll_length)
  from list_push_dll [OF d this, of x] show "\<exists>s'. lst_push s x = Inr s' \<and> lst_rel s' (xs @ [x])"
    by (metis (mono_tags, lifting) bind_result_Inr case_prod_conv fst_conv lst_push_def lst_rel_def option.simps(5) snd_conv)
next
  fix s :: "'a lheap \<times> List" and xs x
  assume "lst_rel s (xs @ [x])"
  then obtain as where d: "dll (fst s) (snd s) as (xs @ [x])" by (auto simp: lst_rel_def)
  from list_pop_dll [OF d] show "\<exists>s'. lst_pop s = Inr (s', Some x) \<and> lst_rel s' xs"
    by (metis (mono_tags, lifting) bind_result_Inr case_prod_conv fst_conv lst_pop_def lst_rel_def option.simps(5) snd_conv)
qed

section \<open>Traversal\<close>

lemma list_walk_dll:
  assumes d: "dll h l as xs"
  shows "i \<le> length as \<Longrightarrow>
    list_walk h (if i < length as then Some (as ! i) else None) k
      = Inr (if i + k < length as then Some (as ! (i + k)) else None)"
proof (induction k arbitrary: i)
  case 0
  then show ?case by simp
next
  case (Suc k)
  show ?case
  proof (cases "i < length as")
    case True
    with dll_nth [OF d True] Suc.IH [of "Suc i"] show ?thesis by (simp add: node_of_def)
  next
    case False
    then show ?thesis by simp
  qed
qed

lemma list_at_dll:
  assumes d: "dll h l as xs"
  shows "list_at h (Some l) i = Inr (if unat i < length as then Some (as ! unat i) else None)"
proof (cases "as = []")
  case True
  then have "ls_count l - 1 = - 1" "ls_head l = None" "ls_last l = None" using d by (simp_all add: dll_def)
  with True show ?thesis by (simp add: list_at_def)
next
  case False
  have small: "length as < 2 ^ 32" and cnt: "ls_count l = of_nat (length as)" using d by (simp_all add: dll_def)
  have "ls_count l - 1 = of_nat (length as - 1)" using False cnt by (simp add: of_nat_diff Suc_leI)
  moreover have "unat (of_nat (length as - 1) :: 32 word) = length as - 1"
    using small by (simp add: unat_of_nat take_bit_nat_eq_self)
  ultimately have "i = ls_count l - 1 \<longleftrightarrow> unat i = length as - 1"
    by (metis unsigned_word_eqI)
  moreover have "list_walk h (ls_head l) (unat i) = Inr (if unat i < length as then Some (as ! unat i) else None)"
    using list_walk_dll [OF d, of 0 "unat i"] dll_head [OF d] False by simp
  ultimately show ?thesis
    using dll_head [OF d] dll_last [OF d] False by (auto simp: list_at_def)
qed

lemma foreach_loop_dll:
  assumes d: "dll h l as xs"
  shows "i \<le> length as \<Longrightarrow> length as - i < fuel \<Longrightarrow>
    foreach_loop fuel h (if i < length as then Some (as ! i) else None) iter s
      = Inr (fold iter (drop i xs) s)"
proof (induction fuel arbitrary: i s)
  case 0
  then show ?case by simp
next
  case (Suc fuel)
  have len: "length xs = length as" using d by (rule dll_length)
  show ?case
  proof (cases "i < length as")
    case True
    then have "drop i xs = xs ! i # drop (Suc i) xs" using len by (simp add: Cons_nth_drop_Suc)
    with True dll_nth [OF d True] Suc.IH [of "Suc i" "iter (xs ! i) s"] Suc.prems show ?thesis
      by (simp add: node_of_def)
  next
    case False
    with Suc.prems len show ?thesis by simp
  qed
qed

lemma any_loop_dll:
  assumes d: "dll h l as xs"
  shows "i \<le> length as \<Longrightarrow> length as - i < fuel \<Longrightarrow>
    any_loop fuel h (if i < length as then Some (as ! i) else None) (\<lambda>n. p (nd_data n))
      = Inr (list_ex (\<lambda>x. 0 < p x) (drop i xs))"
proof (induction fuel arbitrary: i)
  case 0
  then show ?case by simp
next
  case (Suc fuel)
  have len: "length xs = length as" using d by (rule dll_length)
  show ?case
  proof (cases "i < length as")
    case True
    then have "drop i xs = xs ! i # drop (Suc i) xs" using len by (simp add: Cons_nth_drop_Suc)
    with True dll_nth [OF d True] Suc.IH [of "Suc i"] Suc.prems show ?thesis
      by (simp add: node_of_def)
  next
    case False
    with Suc.prems len show ?thesis by simp
  qed
qed

lemma free_back_dll:
  assumes d: "dll h l as xs"
  shows "i \<le> length as \<Longrightarrow> i < fuel \<Longrightarrow> (\<And>j. j < i \<Longrightarrow> lh_nodes h' (as ! j) = lh_nodes h (as ! j)) \<Longrightarrow>
    free_back fuel h' (if i = 0 then None else Some (as ! (i - 1)))
      = Inr (h'\<lparr>lh_nodes := (\<lambda>a. if a \<in> set (take i as) then None else lh_nodes h' a)\<rparr>)"
proof (induction fuel arbitrary: i h')
  case 0
  then show ?case by simp
next
  case (Suc fuel)
  show ?case
  proof (cases i)
    case 0
    then show ?thesis by simp
  next
    case (Suc k)
    with Suc.prems have k: "k < length as" by simp
    have n: "lh_nodes h' (as ! k) = Some (node_of as xs k)"
      using Suc.prems(3) [of k] Suc dll_nth [OF d k] by simp
    have dist: "distinct as" using d by (simp add: dll_def)
    have keep: "lh_nodes (fr_node h' (as ! k)) (as ! j) = lh_nodes h (as ! j)" if "j < k" for j
      using Suc.prems(3) [of j] Suc that k dist by (simp add: nth_eq_iff_index_eq)
    have "free_back fuel (fr_node h' (as ! k)) (if k = 0 then None else Some (as ! (k - 1)))
        = Inr ((fr_node h' (as ! k))\<lparr>lh_nodes :=
            (\<lambda>a. if a \<in> set (take k as) then None else lh_nodes (fr_node h' (as ! k)) a)\<rparr>)"
      by (rule Suc.IH) (use Suc Suc.prems keep in auto)
    moreover have "(\<lambda>a. if a \<in> set (take k as) then None else lh_nodes (fr_node h' (as ! k)) a)
        = (\<lambda>a. if a \<in> set (take (Suc k) as) then None else lh_nodes h' a)"
      using k by (auto simp: take_Suc_conv_app_nth fun_eq_iff)
    ultimately show ?thesis using Suc n by (simp add: node_of_def fr_node_def)
  qed
qed

section \<open>The properties of the list\<close>

text \<open>
  C20. A push followed by a pop returns the pushed element and leaves a list that holds what
  it held before, for every list with room for one more element in its 32-bit count.
\<close>

theorem list_push_pop:
  assumes "lst_rel s xs" and "Suc (length xs) < 2 ^ 32"
  shows "\<exists>s' s''. lst_push s x = Inr s' \<and> lst_rel s' (xs @ [x])
    \<and> lst_pop s' = Inr (s'', Some x) \<and> lst_rel s'' xs"
proof -
  from lst.push_rel [OF assms, of x] obtain s' where s': "lst_push s x = Inr s'" "lst_rel s' (xs @ [x])"
    by (elim exE conjE)
  from lst.pop_rel [OF s'(2)] s' show ?thesis by metis
qed

theorem list_push_pop_witness:
  "\<exists>s' s''. lst_push (lheap_empty, new_list) (7 :: nat) = Inr s' \<and> lst_rel s' ([] @ [7])
    \<and> lst_pop s' = Inr (s'', Some 7) \<and> lst_rel s'' []"
  by (rule list_push_pop [OF lst.rel_empty]) simp

text \<open>
  C21. \<^verbatim>\<open>list_foreach\<close> visits the elements once each, in order, and ends;
  \<^verbatim>\<open>list_at\<close> returns the node of the element at every index below the count
  and NULL at every other index.
\<close>

theorem list_traversal:
  assumes "dll h l as xs"
  shows "list_foreach h (Some l) iter s = Inr (fold iter xs s)
    \<and> list_any h (Some l) (\<lambda>n. p (nd_data n)) = Inr (list_ex (\<lambda>x. 0 < p x) xs)
    \<and> list_at h (Some l) i = Inr (if unat i < length as then Some (as ! unat i) else None)"
proof -
  have f: "length as - 0 < Suc (lh_fresh h)" using dll_fuel [OF assms] by simp
  show ?thesis
    using foreach_loop_dll [OF assms _ f, of iter s] any_loop_dll [OF assms _ f, of p] dll_head [OF assms]
      list_at_dll [OF assms, of i]
    by (simp add: list_foreach_def list_any_def split: if_splits)
qed

definition sample_heap :: "nat lheap" where
  "sample_heap = \<lparr>lh_nodes = [0 \<mapsto> \<lparr>nd_data = 5, nd_next = Some 1, nd_prev = None\<rparr>,
     1 \<mapsto> \<lparr>nd_data = 6, nd_next = None, nd_prev = Some 0\<rparr>], lh_fresh = 2\<rparr>"

definition sample_list :: List where
  "sample_list = \<lparr>ls_head = Some 0, ls_last = Some 1, ls_count = 2\<rparr>"

lemma sample_dll: "dll sample_heap sample_list [0, 1] [5, 6]"
  by (auto simp: dll_def sample_heap_def sample_list_def node_of_def less_Suc_eq)

theorem list_traversal_witness:
  "dll sample_heap sample_list [0, 1] [5, 6]
   \<and> list_foreach sample_heap (Some sample_list) (+) 0 = Inr 11"
  using list_traversal [OF sample_dll, of "(+)" 0] sample_dll by simp

text \<open>
  C22. \<^verbatim>\<open>list_clear\<close> frees every node of the list, changes no other
  cell, and leaves an empty list.
\<close>

theorem list_clear_frees:
  assumes "dll h l as xs"
  shows "list_clear h (Some l)
    = Inr (h\<lparr>lh_nodes := (\<lambda>a. if a \<in> set as then None else lh_nodes h a)\<rparr>, Some new_list)"
  using free_back_dll [OF assms, of "length as" "Suc (lh_fresh h)" h] dll_fuel [OF assms] dll_last [OF assms]
  by (simp add: list_clear_def new_list_def split: if_splits)

theorem list_clear_frees_witness:
  "list_clear sample_heap (Some sample_list)
    = Inr (sample_heap\<lparr>lh_nodes := (\<lambda>a. if a \<in> {0, 1} then None else lh_nodes sample_heap a)\<rparr>, Some new_list)"
  using list_clear_frees [OF sample_dll] by simp

text \<open>
  \<^verbatim>\<open>list_remove\<close> of a node that is on the list takes exactly that node
  out; of a node that is not on the list it still reports success and takes the last
  element out, because its search loop stops at the last node without comparing it.
\<close>

theorem list_remove_absent_removes_last:
  assumes d: "dll h l as xs" and ne: "as \<noteq> []" and "target \<notin> Some ` set as"
  shows "\<exists>h' l'. list_remove h l target = Inr (h', l', True) \<and> dll h' l' (butlast as) (butlast xs)"
proof -
  have "list_find (Suc (lh_fresh h)) h (ls_head l) target = Inr (Some (as ! (length as - 1)))"
    by (rule list_find_last [OF d ne]) (use assms(3) nth_mem in fastforce)
  from list_remove_dll [OF d _ this] ne dll_length [OF d] show ?thesis
    by (metis remove_nth_last diff_less length_greater_0_conv zero_less_one list.size(3))
qed

theorem list_remove_absent_removes_last_witness:
  "\<exists>h' l'. list_remove sample_heap sample_list (Some 9) = Inr (h', l', True) \<and> dll h' l' [0] [5]"
  using list_remove_absent_removes_last [OF sample_dll, of "Some 9"] by simp

end
