(* ===== verification/Clox_Dict.thy ===== *)
theory Clox_Dict
  imports Clox_Interfaces
begin

text \<open>
  The chained hash table of \<^verbatim>\<open>include/ds/dict.h\<close> and \<^verbatim>\<open>src/ds/dict.c\<close>. A chain of
  \<^verbatim>\<open>KeyValuePair\<close> nodes is the list of its keys and values, first node first; a value is a
  pointer to the caller's data or NULL (\<open>None\<close>). The calls of the \<^verbatim>\<open>DeleteValue\<close> callback are
  returned as the list of pairs it receives. \<^verbatim>\<open>dict_set\<close> writes through the value pointer it
  finds, so it returns that write instead of a new table.
\<close>

section \<open>State and operations\<close>

type_synonym 'v KeyValuePair = "string \<times> 'v option"

definition KeyValuePair_fields :: fields where
  "KeyValuePair_fields = [(''key'', sizeof_pointer), (''value'', sizeof_pointer), (''next'', sizeof_pointer)]"

lemma offsetof_value [simp]: "offsetof KeyValuePair_fields ''value'' = 8"
  by (simp add: offsetof_def KeyValuePair_fields_def align_up_def)

record 'v Dictionary =
  d_buckets :: "'v KeyValuePair list list"
  d_capacity :: int
  d_count :: int

definition DICT_INITIAL_CAPACITY :: nat where
  "DICT_INITIAL_CAPACITY = 16"

fun hash_loop :: "hash \<Rightarrow> string \<Rightarrow> hash" where
  "hash_loop h [] = h"
| "hash_loop h (c # cs) = hash_loop (31 * h + of_int (schar c)) cs"

definition hash_code :: "string \<Rightarrow> nat" where
  "hash_code key = unat (hash_loop 0 key) mod DICT_INITIAL_CAPACITY"

definition new_dict :: "'v Dictionary" where
  "new_dict = \<lparr>d_buckets = replicate DICT_INITIAL_CAPACITY [],
     d_capacity = int DICT_INITIAL_CAPACITY, d_count = 0\<rparr>"

fun bucket_find :: "string \<Rightarrow> 'v KeyValuePair list \<Rightarrow> 'v KeyValuePair option" where
  "bucket_find key [] = None"
| "bucket_find key (p # chain) = (if key = fst p then Some p else bucket_find key chain)"

definition dict_get_bucket :: "'v Dictionary option \<Rightarrow> string \<Rightarrow> 'v KeyValuePair option" where
  "dict_get_bucket dict key =
     (case dict of None \<Rightarrow> None
      | Some d \<Rightarrow> if d_count d = 0 then None else bucket_find key (d_buckets d ! hash_code key))"

definition dict_contains :: "'v Dictionary option \<Rightarrow> string \<Rightarrow> bool" where
  "dict_contains dict key \<longleftrightarrow> dict_get_bucket dict key \<noteq> None"

definition dict_get :: "'v Dictionary option \<Rightarrow> string \<Rightarrow> 'v option" where
  "dict_get dict key = (case dict_get_bucket dict key of Some p \<Rightarrow> snd p | None \<Rightarrow> None)"

definition dict_add :: "'v Dictionary option \<Rightarrow> string \<Rightarrow> 'v option \<Rightarrow> 'v Dictionary option \<times> bool" where
  "dict_add dict key val =
     (case dict of None \<Rightarrow> (None, False)
      | Some d \<Rightarrow>
          if dict_contains dict key then (dict, False)
          else let h = hash_code key
               in (Some (d\<lparr>d_buckets := (d_buckets d)[h := (key, val) # d_buckets d ! h],
                           d_count := d_count d + 1\<rparr>), True))"

text \<open>
  The loop of \<^verbatim>\<open>dict_remove\<close>. \<open>first\<close> says that \<^verbatim>\<open>prevBucket\<close> is still NULL; the matching
  node is then handed to \<^verbatim>\<open>DeleteValue\<close> and \<^verbatim>\<open>prevBucket->next\<close> is written.
\<close>

fun unlink_loop ::
  "string \<Rightarrow> bool \<Rightarrow> 'v KeyValuePair list \<Rightarrow> ('v KeyValuePair list \<times> 'v KeyValuePair option) result" where
  "unlink_loop key first [] = Inr ([], None)"
| "unlink_loop key first (p # chain) =
     (if key = fst p then if first then Inl (Crash Null_Deref) else Inr (chain, Some p)
      else bind_result (unlink_loop key False chain) (\<lambda>(chain', d). Inr (p # chain', d)))"

definition dict_remove ::
  "'v Dictionary option \<Rightarrow> string \<Rightarrow> ('v Dictionary option \<times> 'v KeyValuePair list \<times> bool) result" where
  "dict_remove dict key =
     (let h = hash_code key
      in case dict of None \<Rightarrow> Inr (None, [], False)
       | Some d \<Rightarrow>
           bind_result (unlink_loop key True (d_buckets d ! h))
             (\<lambda>(chain, deleted). case deleted of None \<Rightarrow> Inr (dict, [], False)
               | Some p \<Rightarrow> Inr (Some (d\<lparr>d_buckets := (d_buckets d)[h := chain]\<rparr>), [p], True)))"

text \<open>\<^verbatim>\<open>dict_destroy\<close>: the pairs given to \<^verbatim>\<open>DeleteValue\<close>, bucket by bucket.\<close>

definition dict_destroy :: "'v Dictionary option \<Rightarrow> 'v KeyValuePair list" where
  "dict_destroy dict = (case dict of None \<Rightarrow> [] | Some d \<Rightarrow> concat (take DICT_INITIAL_CAPACITY (d_buckets d)))"

text \<open>
  \<^verbatim>\<open>dict_set\<close>: the pointer that \<^verbatim>\<open>dict_get\<close> returns is the caller's value, but it is stored
  in a \<^verbatim>\<open>KeyValuePair*\<close> and its field \<^verbatim>\<open>value\<close> is assigned. The outcome is the return value
  and, when it is 1, the object whose memory is overwritten and the pointer written there.
\<close>

definition dict_set :: "'v Dictionary option \<Rightarrow> string \<Rightarrow> 'v option \<Rightarrow> bool \<times> ('v \<times> 'v option) option" where
  "dict_set dict key val =
     (case dict of None \<Rightarrow> (False, None)
      | Some d \<Rightarrow> (case dict_get dict key of None \<Rightarrow> (False, None)
          | Some pair \<Rightarrow> (True, Some (pair, val))))"

section \<open>Invariant and abstraction\<close>

definition dict_inv :: "'v Dictionary \<Rightarrow> bool" where
  "dict_inv d \<longleftrightarrow>
     length (d_buckets d) = DICT_INITIAL_CAPACITY
     \<and> (\<forall>i < DICT_INITIAL_CAPACITY. distinct (map fst (d_buckets d ! i))
          \<and> (\<forall>p \<in> set (d_buckets d ! i). hash_code (fst p) = i))
     \<and> int (length (concat (d_buckets d))) \<le> d_count d"

definition dict_abs :: "'v Dictionary \<Rightarrow> string \<Rightarrow> 'v option option" where
  "dict_abs d key = map_of (d_buckets d ! hash_code key) key"

lemma hash_code_bound [simp]: "hash_code key < DICT_INITIAL_CAPACITY"
  by (simp add: hash_code_def DICT_INITIAL_CAPACITY_def)

lemma bucket_find_map_of: "bucket_find key chain = map_option (Pair key) (map_of chain key)"
  by (induction chain) auto

lemma length_concat_update:
  "i < length xss \<Longrightarrow>
   length (concat (xss[i := ys])) + length (xss ! i) = length (concat xss) + length ys"
proof (induction xss arbitrary: i)
  case Nil
  then show ?case by simp
next
  case (Cons xs xss)
  then show ?case by (cases i) auto
qed

lemma dict_get_bucket_abs:
  assumes "dict_inv d"
  shows "dict_get_bucket (Some d) key = map_option (Pair key) (dict_abs d key)"
proof (cases "d_count d = 0")
  case True
  with assms have "concat (d_buckets d) = []" and "hash_code key < length (d_buckets d)"
    by (auto simp: dict_inv_def)
  then have "d_buckets d ! hash_code key = []" by (meson concat_eq_Nil_conv nth_mem)
  with True show ?thesis by (simp add: dict_get_bucket_def dict_abs_def)
next
  case False
  then show ?thesis by (simp add: dict_get_bucket_def dict_abs_def bucket_find_map_of)
qed

lemma dict_contains_abs: "dict_inv d \<Longrightarrow> dict_contains (Some d) key \<longleftrightarrow> dict_abs d key \<noteq> None"
  by (simp add: dict_contains_def dict_get_bucket_abs)

lemma new_dict_inv: "dict_inv new_dict"
  by (simp add: dict_inv_def new_dict_def)

lemma new_dict_abs: "dict_abs new_dict key = None"
  by (simp add: dict_abs_def new_dict_def)

lemma dict_inv_chain:
  assumes "dict_inv d"
  shows "distinct (map fst (d_buckets d ! hash_code key))"
    and "p \<in> set (d_buckets d ! hash_code key) \<Longrightarrow> hash_code (fst p) = hash_code key"
  using assms hash_code_bound [of key] unfolding dict_inv_def by blast+

text \<open>Replacing the chain of a key by one with the other keys untouched.\<close>

lemma dict_inv_bucket_update:
  assumes "dict_inv d" and "distinct (map fst chain)" and "\<And>p. p \<in> set chain \<Longrightarrow> hash_code (fst p) = i"
    and "i < DICT_INITIAL_CAPACITY"
    and "int (length chain) + d_count d \<le> c + int (length (d_buckets d ! i))"
  shows "dict_inv (d\<lparr>d_buckets := (d_buckets d)[i := chain], d_count := c\<rparr>)"
proof -
  have "i < length (d_buckets d)" using assms(1,4) by (simp add: dict_inv_def)
  from length_concat_update [OF this, of chain] assms show ?thesis
    by (auto simp: dict_inv_def nth_list_update)
qed

lemma dict_abs_bucket_update:
  assumes "dict_inv d" and "i < DICT_INITIAL_CAPACITY"
  shows "dict_abs (d\<lparr>d_buckets := (d_buckets d)[i := chain], d_count := c\<rparr>) key
    = (if hash_code key = i then map_of chain key else dict_abs d key)"
  using assms by (auto simp: dict_abs_def dict_inv_def)

definition added :: "'v Dictionary \<Rightarrow> string \<Rightarrow> 'v option \<Rightarrow> 'v Dictionary" where
  "added d key val = the (fst (dict_add (Some d) key val))"

lemma added_inv:
  assumes "dict_inv d"
  shows "dict_inv (added d key val)"
proof (cases "dict_abs d key = None")
  case True
  let ?h = "hash_code key"
  note chain = dict_inv_chain [OF assms, where key = key]
  have "dict_inv (d\<lparr>d_buckets := (d_buckets d)[?h := (key, val) # d_buckets d ! ?h], d_count := d_count d + 1\<rparr>)"
    by (rule dict_inv_bucket_update [OF assms])
      (use chain True in \<open>auto simp: dict_abs_def map_of_eq_None_iff\<close>)
  with True assms show ?thesis
    by (simp add: added_def dict_add_def dict_contains_abs Let_def)
next
  case False
  with assms show ?thesis by (simp add: added_def dict_add_def dict_contains_abs)
qed

lemma added_abs:
  assumes "dict_inv d"
  shows "dict_abs (added d key val) = (if dict_abs d key = None then (dict_abs d)(key \<mapsto> val) else dict_abs d)"
  using assms
  by (auto simp: added_def dict_add_def dict_contains_abs Let_def dict_abs_bucket_update fun_eq_iff)
    (simp add: dict_abs_def)

definition dict_lookup :: "'v Dictionary \<Rightarrow> string \<Rightarrow> 'v option option" where
  "dict_lookup d key = map_option snd (dict_get_bucket (Some d) key)"

interpretation dict: assoc_add dict_inv dict_abs new_dict dict_lookup "\<lambda>_. True" added
  by unfold_locales
    (simp_all add: new_dict_inv new_dict_abs dict_lookup_def dict_get_bucket_abs added_inv added_abs
      option.map_comp comp_def option.map_ident)

lemma unlink_loop_inner:
  "distinct (map fst chain) \<Longrightarrow> unlink_loop key False chain
    = Inr (filter (\<lambda>p. fst p \<noteq> key) chain, map_option (Pair key) (map_of chain key))"
proof (induction chain)
  case Nil
  then show ?case by simp
next
  case (Cons p chain)
  then have "fst p \<notin> fst ` set chain" by simp
  then have "filter (\<lambda>q. fst q \<noteq> fst p) chain = chain"
    by (metis (mono_tags, lifting) filter_True image_eqI)
  with Cons show ?case by auto
qed

lemma dict_add_Some: "fst (dict_add (Some d) key val) = Some (added d key val)"
  by (simp add: added_def dict_add_def Let_def)

lemma dict_add_history:
  "foldl (\<lambda>d (k, v). fst (dict_add d k v)) (Some d) kvs = Some (dict.add_all d kvs)"
  by (induction kvs arbitrary: d) (auto simp: dict.add_all_def dict_add_Some)

section \<open>The properties of the dictionary\<close>

text \<open>
  C26. After any sequence of \<^verbatim>\<open>dict_add\<close> calls on a new dictionary, \<^verbatim>\<open>dict_get\<close> returns the
  value of the first call with that key, and NULL for a key that was never added.
\<close>

theorem dict_get_after_adds:
  "dict_get (foldl (\<lambda>d (k, v). fst (dict_add d k v)) (Some new_dict) kvs) key
    = (case map_of kvs key of Some v \<Rightarrow> v | None \<Rightarrow> None)"
proof -
  have "dict_get (Some d) key = (case dict_lookup d key of Some v \<Rightarrow> v | None \<Rightarrow> None)"
    for d :: "'a Dictionary"
    by (simp add: dict_get_def dict_lookup_def split: option.splits)
  moreover have "list_all ((\<lambda>_. True) \<circ> fst) kvs" by (simp add: list_all_iff)
  ultimately show ?thesis by (simp add: dict_add_history dict.lookup_add_all)
qed

text \<open>
  C40. \<^verbatim>\<open>dict_remove\<close> reports 0 and changes nothing for a key that is absent, takes the key
  and nothing else out when it is not the first node of its chain, and dereferences NULL
  when it is: \<^verbatim>\<open>prevBucket\<close> is only set after the first node has been passed.
\<close>

theorem dict_remove_cases:
  assumes "dict_inv d"
  shows "(case map fst (d_buckets d ! hash_code key) of
      [] \<Rightarrow> dict_remove (Some d) key = Inr (Some d, [], False)
    | k # _ \<Rightarrow> if k = key then dict_remove (Some d) key = Inl (Crash Null_Deref)
        else case dict_abs d key of
          None \<Rightarrow> dict_remove (Some d) key = Inr (Some d, [], False)
        | Some v \<Rightarrow> (\<exists>d'. dict_remove (Some d) key = Inr (Some d', [(key, v)], True)
            \<and> dict_inv d' \<and> dict_abs d' = (dict_abs d)(key := None)))"
proof (cases "d_buckets d ! hash_code key")
  case Nil
  then show ?thesis by (simp add: dict_remove_def)
next
  case (Cons p chain)
  have dist: "distinct (map fst (p # chain))" and hash: "\<And>q. q \<in> set (p # chain) \<Longrightarrow> hash_code (fst q) = hash_code key"
    using dict_inv_chain [OF assms, where key = key] Cons by auto
  show ?thesis
  proof (cases "fst p = key \<or> dict_abs d key = None")
    case True
    with Cons dist show ?thesis by (auto simp: dict_remove_def dict_abs_def unlink_loop_inner)
  next
    case False
    then obtain v where v: "dict_abs d key = Some v" and ne: "fst p \<noteq> key" by blast
    let ?chain = "p # filter (\<lambda>q. fst q \<noteq> key) chain"
    let ?d = "d\<lparr>d_buckets := (d_buckets d)[hash_code key := ?chain], d_count := d_count d\<rparr>"
    have "dict_remove (Some d) key = Inr (Some ?d, [(key, v)], True)"
      using Cons dist v ne by (simp add: dict_remove_def dict_abs_def unlink_loop_inner)
    moreover have "dict_inv ?d"
      by (rule dict_inv_bucket_update [OF assms]) (use dist hash Cons in \<open>auto simp: distinct_map_filter\<close>)
    moreover have "dict_abs ?d = (dict_abs d)(key := None)"
    proof
      fix k
      have "map_of ?chain k = (if k = key then None else map_of (p # chain) k)"
        using ne by (induction chain) auto
      then show "dict_abs ?d k = ((dict_abs d)(key := None)) k"
        using Cons dict_abs_bucket_update [OF assms, where i = "hash_code key" and chain = ?chain
          and c = "d_count d" and key = k]
        by (auto simp: dict_abs_def simp del: map_of.simps)
    qed
    ultimately show ?thesis using Cons v ne by auto
  qed
qed

theorem dict_remove_cases_witness:
  "dict_remove (Some (added new_dict ''a'' (Some (2 :: nat)))) ''a'' = Inl (Crash Null_Deref)"
  using dict_remove_cases [OF added_inv [OF new_dict_inv], of "''a''" "Some 2" "''a''"]
  by (simp add: added_def dict_add_def new_dict_def dict_contains_def dict_get_bucket_def Let_def)

end
