(* ===== verification/Clox_Value.thy ===== *)
theory Clox_Value
  imports Clox_Interfaces C_Double
begin

text \<open>
  Values, heap objects and chunks of the virtual machine: \<^verbatim>\<open>include/vm/value.h\<close>,
  \<^verbatim>\<open>src/vm/value.c\<close>, \<^verbatim>\<open>include/vm/chunk.h\<close>, \<^verbatim>\<open>src/vm/chunk.c\<close> and the array macros of
  \<^verbatim>\<open>include/mem.h\<close>. A pointer to an object is its allocation index in the heap, a list of
  objects each of which keeps the \<^verbatim>\<open>next\<close> link of the C header. Array cells that were
  allocated but never written are \<open>None\<close>. What is printed is a list of items: a piece of
  text, or a number that \<^verbatim>\<open>printf\<close> formats with \<^verbatim>\<open>%g\<close>.
\<close>

section \<open>Arrays of include/mem.h\<close>

text \<open>\<^verbatim>\<open>GROW_ARRAY\<close> keeps the old cells; the new ones are uninitialised.\<close>

definition GROW_ARRAY :: "'a option list \<Rightarrow> nat \<Rightarrow> 'a option list" where
  "GROW_ARRAY previous count = take count previous @ replicate (count - length previous) None"

lemma length_GROW_ARRAY [simp]: "length (GROW_ARRAY previous count) = count"
  by (simp add: GROW_ARRAY_def)

lemma GROW_ARRAY_nth: "i < length previous \<Longrightarrow> i < count \<Longrightarrow> GROW_ARRAY previous count ! i = previous ! i"
  by (simp add: GROW_ARRAY_def nth_append)

text \<open>Reading a cell.\<close>

definition array_at :: "'a option list \<Rightarrow> nat \<Rightarrow> 'a result" where
  "array_at a i = (if i < length a then (case a ! i of None \<Rightarrow> Inl (Crash Out_Of_Bounds) | Some x \<Rightarrow> Inr x)
     else Inl (Crash Out_Of_Bounds))"

section \<open>Values and objects\<close>

datatype Value =
    VAL_BOOL byte
  | VAL_NIL
  | VAL_NUMBER double
  | VAL_OBJECT nat

definition bool_val :: "byte \<Rightarrow> Value" where
  "bool_val boolean = VAL_BOOL boolean"

definition nil_val :: Value where
  "nil_val = VAL_NIL"

definition number_val :: "double \<Rightarrow> Value" where
  "number_val number = VAL_NUMBER number"

definition object_val :: "nat \<Rightarrow> Value" where
  "object_val obj = VAL_OBJECT obj"

definition IS_NIL :: "Value \<Rightarrow> bool" where
  "IS_NIL v \<longleftrightarrow> (case v of VAL_NIL \<Rightarrow> True | _ \<Rightarrow> False)"

definition IS_BOOL :: "Value \<Rightarrow> bool" where
  "IS_BOOL v \<longleftrightarrow> (case v of VAL_BOOL _ \<Rightarrow> True | _ \<Rightarrow> False)"

definition IS_NUMBER :: "Value \<Rightarrow> bool" where
  "IS_NUMBER v \<longleftrightarrow> (case v of VAL_NUMBER _ \<Rightarrow> True | _ \<Rightarrow> False)"

record ValueArray =
  va_count :: nat
  va_capacity :: nat
  va_values :: "Value option list"

record Chunk =
  ck_capacity :: nat
  ck_count :: nat
  ck_code :: "byte option list"
  ck_constants :: ValueArray
  ck_lines :: "int option list"

record VmString =
  vs_length :: nat
  vs_chars :: string
  vs_hash :: hash

record VmFunction =
  vf_arity :: int
  vf_chunk :: Chunk
  vf_name :: "nat option"

text \<open>The native functions of the program.\<close>

datatype NativeFn = native_clock

datatype object_body =
    OBJECT_STRING VmString
  | OBJECT_FUNCTION VmFunction
  | OBJECT_NATIVE NativeFn

record VmObject =
  ob_next :: "nat option"
  ob_body :: object_body

type_synonym objects = "VmObject list"

definition object_at :: "objects \<Rightarrow> nat \<Rightarrow> object_body result" where
  "object_at H r = (if r < length H then Inr (ob_body (H ! r)) else Inl (Crash Use_After_Free))"

definition IS_STRING :: "objects \<Rightarrow> Value \<Rightarrow> bool" where
  "IS_STRING H v \<longleftrightarrow> (case v of VAL_OBJECT r \<Rightarrow>
     (case object_at H r of Inr (OBJECT_STRING _) \<Rightarrow> True | _ \<Rightarrow> False) | _ \<Rightarrow> False)"

text \<open>\<^verbatim>\<open>AS_STRING\<close> and \<^verbatim>\<open>AS_FUNCTION\<close>, casts of the object pointer.\<close>

definition as_string :: "objects \<Rightarrow> nat \<Rightarrow> VmString result" where
  "as_string H r = bind_result (object_at H r)
     (\<lambda>b. case b of OBJECT_STRING s \<Rightarrow> Inr s | _ \<Rightarrow> Inl (Crash Bad_Cast))"

definition as_function :: "objects \<Rightarrow> nat \<Rightarrow> VmFunction result" where
  "as_function H r = bind_result (object_at H r)
     (\<lambda>b. case b of OBJECT_FUNCTION f \<Rightarrow> Inr f | _ \<Rightarrow> Inl (Crash Bad_Cast))"

section \<open>Growing arrays\<close>

definition value_array_init :: ValueArray where
  "value_array_init = \<lparr>va_count = 0, va_capacity = 0, va_values = []\<rparr>"

definition value_array_write :: "ValueArray \<Rightarrow> Value \<Rightarrow> ValueArray" where
  "value_array_write array val =
     (let oldCapacity = va_capacity array;
          array1 = (if va_capacity array < va_count array + 1
                    then let capacity = GROW_CAPACITY oldCapacity
                         in array\<lparr>va_capacity := capacity, va_values := GROW_ARRAY (va_values array) capacity\<rparr>
                    else array)
      in array1\<lparr>va_values := (va_values array1)[va_count array1 := Some val], va_count := va_count array1 + 1\<rparr>)"

definition value_array_free :: "ValueArray \<Rightarrow> ValueArray" where
  "value_array_free array = value_array_init"

definition chunk_init :: Chunk where
  "chunk_init = \<lparr>ck_capacity = 0, ck_count = 0, ck_code = [], ck_constants = value_array_init, ck_lines = []\<rparr>"

definition chunk_write :: "Chunk \<Rightarrow> byte \<Rightarrow> int \<Rightarrow> Chunk" where
  "chunk_write chunk val line =
     (let oldCapacity = ck_capacity chunk;
          chunk1 = (if ck_capacity chunk < ck_count chunk + 1
                    then let capacity = GROW_CAPACITY oldCapacity
                         in chunk\<lparr>ck_capacity := capacity,
                                  ck_code := GROW_ARRAY (ck_code chunk) capacity,
                                  ck_lines := GROW_ARRAY (ck_lines chunk) capacity\<rparr>
                    else chunk)
      in chunk1\<lparr>ck_code := (ck_code chunk1)[ck_count chunk1 := Some val],
                ck_lines := (ck_lines chunk1)[ck_count chunk1 := Some line],
                ck_count := ck_count chunk1 + 1\<rparr>)"

definition chunk_free :: "Chunk \<Rightarrow> Chunk" where
  "chunk_free chunk = chunk_init\<lparr>ck_constants := value_array_free (ck_constants chunk)\<rparr>"

definition chunk_constants_add :: "Chunk \<Rightarrow> Value \<Rightarrow> Chunk \<times> nat" where
  "chunk_constants_add chunk val =
     (let chunk1 = chunk\<lparr>ck_constants := value_array_write (ck_constants chunk) val\<rparr>
      in (chunk1, va_count (ck_constants chunk1) - 1))"

section \<open>Equality and printing\<close>

definition object_equal :: "objects \<Rightarrow> nat \<Rightarrow> nat \<Rightarrow> bool result" where
  "object_equal H a b =
     bind_result (object_at H a) (\<lambda>x. bind_result (object_at H b) (\<lambda>y.
       case (x, y) of (OBJECT_STRING _, OBJECT_STRING _) \<Rightarrow> Inr (a = b) | _ \<Rightarrow> Inr False))"

definition values_equal :: "objects \<Rightarrow> Value \<Rightarrow> Value \<Rightarrow> bool result" where
  "values_equal H a b =
     (case (a, b) of
        (VAL_BOOL x, VAL_BOOL y) \<Rightarrow> Inr (x = y)
      | (VAL_NUMBER x, VAL_NUMBER y) \<Rightarrow> Inr (dbl_eq x y)
      | (VAL_NIL, VAL_NIL) \<Rightarrow> Inr True
      | (VAL_OBJECT x, VAL_OBJECT y) \<Rightarrow> object_equal H x y
      | _ \<Rightarrow> Inr False)"

datatype out_item =
    Text string
  | Number double

text \<open>The characters a \<^verbatim>\<open>%s\<close> conversion prints.\<close>

definition c_string :: "string \<Rightarrow> string" where
  "c_string s = takeWhile (\<lambda>c. c \<noteq> CHR 0x00) s"

definition object_print :: "objects \<Rightarrow> nat \<Rightarrow> out_item result" where
  "object_print H r =
     bind_result (object_at H r) (\<lambda>b. case b of
         OBJECT_STRING s \<Rightarrow> Inr (Text (c_string (vs_chars s)))
       | OBJECT_FUNCTION f \<Rightarrow> (case vf_name f of
             Some n \<Rightarrow> bind_result (as_string H n) (\<lambda>s. Inr (Text (''<fn '' @ c_string (vs_chars s) @ ''>'')))
           | None \<Rightarrow> Inr (Text ''<script>''))
       | OBJECT_NATIVE _ \<Rightarrow> Inr (Text ''<native fn>''))"

definition value_print :: "objects \<Rightarrow> Value \<Rightarrow> out_item result" where
  "value_print H v =
     (case v of VAL_NUMBER d \<Rightarrow> Inr (Number d)
      | VAL_BOOL b \<Rightarrow> Inr (Text (if b \<noteq> 0 then ''true'' else ''false''))
      | VAL_NIL \<Rightarrow> Inr (Text ''nil'')
      | VAL_OBJECT r \<Rightarrow> object_print H r)"

section \<open>Releasing the objects\<close>

text \<open>
  \<^verbatim>\<open>objects_free\<close> walks the chain of \<^verbatim>\<open>next\<close> links from \<^verbatim>\<open>vm.objects\<close>; \<^verbatim>\<open>object_free\<close> releases
  one object and what it owns. The model returns the blocks in the order they are released:
  an object, the characters of a string, the arrays of a function's chunk.
\<close>

datatype block =
    Chars nat
  | Chunk_Arrays nat
  | Object nat

definition object_free :: "nat \<Rightarrow> object_body \<Rightarrow> block list" where
  "object_free r b = (case b of OBJECT_STRING _ \<Rightarrow> [Chars r, Object r]
     | OBJECT_FUNCTION _ \<Rightarrow> [Chunk_Arrays r, Object r]
     | OBJECT_NATIVE _ \<Rightarrow> [Object r])"

fun objects_free :: "nat \<Rightarrow> objects \<Rightarrow> nat option \<Rightarrow> block list result" where
  "objects_free fuel H None = Inr []"
| "objects_free 0 H (Some r) = Inl Out_Of_Fuel"
| "objects_free (Suc fuel) H (Some r) =
     (if r < length H
      then bind_result (objects_free fuel H (ob_next (H ! r)))
             (\<lambda>bs. Inr (object_free r (ob_body (H ! r)) @ bs))
      else Inl (Crash Use_After_Free))"

section \<open>Invariants of the arrays\<close>

definition filled :: "nat \<Rightarrow> 'a option list \<Rightarrow> bool" where
  "filled n a \<longleftrightarrow> n \<le> length a \<and> None \<notin> set (take n a)"

definition contents :: "nat \<Rightarrow> 'a option list \<Rightarrow> 'a list" where
  "contents n a = map the (take n a)"

text \<open>Capacities are 0 or reached by doubling from 8, so at most half of the array is idle.\<close>

definition capacity_ok :: "nat \<Rightarrow> nat \<Rightarrow> bool" where
  "capacity_ok count capacity \<longleftrightarrow> count \<le> capacity \<and> (8 < capacity \<longrightarrow> capacity < 2 * count)"

definition va_inv :: "ValueArray \<Rightarrow> bool" where
  "va_inv array \<longleftrightarrow> length (va_values array) = va_capacity array
     \<and> filled (va_count array) (va_values array) \<and> capacity_ok (va_count array) (va_capacity array)"

definition va_abs :: "ValueArray \<Rightarrow> Value list" where
  "va_abs array = contents (va_count array) (va_values array)"

definition chunk_inv :: "Chunk \<Rightarrow> bool" where
  "chunk_inv c \<longleftrightarrow> length (ck_code c) = ck_capacity c \<and> length (ck_lines c) = ck_capacity c
     \<and> filled (ck_count c) (ck_code c) \<and> filled (ck_count c) (ck_lines c)
     \<and> capacity_ok (ck_count c) (ck_capacity c) \<and> va_inv (ck_constants c)"

definition code_of :: "Chunk \<Rightarrow> byte list" where
  "code_of c = contents (ck_count c) (ck_code c)"

definition lines_of :: "Chunk \<Rightarrow> int list" where
  "lines_of c = contents (ck_count c) (ck_lines c)"

definition consts_of :: "Chunk \<Rightarrow> Value list" where
  "consts_of c = va_abs (ck_constants c)"

lemma filled_0 [simp]: "filled 0 a"
  by (simp add: filled_def)

lemma contents_0 [simp]: "contents 0 a = []"
  by (simp add: contents_def)

lemma length_contents [simp]: "filled n a \<Longrightarrow> length (contents n a) = n"
  by (simp add: contents_def filled_def)

lemma filled_update: "filled n a \<Longrightarrow> n < length a \<Longrightarrow> filled (Suc n) (a[n := Some x])"
  by (auto simp: filled_def take_Suc_conv_app_nth)

lemma contents_update: "filled n a \<Longrightarrow> n < length a \<Longrightarrow> contents (Suc n) (a[n := Some x]) = contents n a @ [x]"
  by (simp add: contents_def take_Suc_conv_app_nth)

lemma filled_grow: "filled n a \<Longrightarrow> n \<le> count \<Longrightarrow> filled n (GROW_ARRAY a count)"
  by (auto simp: filled_def GROW_ARRAY_def min_def)

lemma contents_grow: "filled n a \<Longrightarrow> n \<le> count \<Longrightarrow> contents n (GROW_ARRAY a count) = contents n a"
  by (simp add: filled_def GROW_ARRAY_def contents_def)

lemma array_at_filled: "filled n a \<Longrightarrow> i < n \<Longrightarrow> array_at a i = Inr (contents n a ! i)"
  by (auto simp: array_at_def filled_def contents_def in_set_conv_nth split: option.split)

lemma capacity_ok_grow:
  "capacity_ok n capacity \<Longrightarrow> capacity < Suc n \<Longrightarrow> capacity_ok (Suc n) (GROW_CAPACITY capacity)"
  by (auto simp: capacity_ok_def GROW_CAPACITY_def)

lemma capacity_ok_Suc: "capacity_ok n capacity \<Longrightarrow> n < capacity \<Longrightarrow> capacity_ok (Suc n) capacity"
  by (auto simp: capacity_ok_def)

text \<open>One write at the end, after the array was grown or when it had room.\<close>

lemma write_step:
  assumes "filled n a" and "length a = capacity" and "capacity_ok n capacity"
  shows "capacity < Suc n \<Longrightarrow> filled (Suc n) ((GROW_ARRAY a (GROW_CAPACITY capacity))[n := Some x])"
    and "\<not> capacity < Suc n \<Longrightarrow> filled (Suc n) (a[n := Some x])"
    and "capacity < Suc n \<Longrightarrow> contents (Suc n) ((GROW_ARRAY a (GROW_CAPACITY capacity))[n := Some x]) = contents n a @ [x]"
    and "\<not> capacity < Suc n \<Longrightarrow> contents (Suc n) (a[n := Some x]) = contents n a @ [x]"
    and "capacity < Suc n \<Longrightarrow> capacity_ok (Suc n) (GROW_CAPACITY capacity)"
    and "\<not> capacity < Suc n \<Longrightarrow> capacity_ok (Suc n) capacity"
proof -
  have room: "n < GROW_CAPACITY capacity"
    using assms(3) GROW_CAPACITY_gt [of capacity] unfolding capacity_ok_def by linarith
  show "capacity < Suc n \<Longrightarrow> filled (Suc n) ((GROW_ARRAY a (GROW_CAPACITY capacity))[n := Some x])"
    "capacity < Suc n \<Longrightarrow> contents (Suc n) ((GROW_ARRAY a (GROW_CAPACITY capacity))[n := Some x]) = contents n a @ [x]"
    using assms(1) room by (simp_all add: filled_update contents_update filled_grow contents_grow)
  show "\<not> capacity < Suc n \<Longrightarrow> filled (Suc n) (a[n := Some x])"
    "\<not> capacity < Suc n \<Longrightarrow> contents (Suc n) (a[n := Some x]) = contents n a @ [x]"
    using assms(1,2) by (simp_all add: filled_update contents_update)
qed (use assms(3) in \<open>auto intro: capacity_ok_grow capacity_ok_Suc\<close>)

lemma va_write_inv: "va_inv a \<Longrightarrow> va_inv (value_array_write a v)"
  by (simp add: va_inv_def value_array_write_def Let_def write_step capacity_ok_grow capacity_ok_Suc)

lemma va_write_abs: "va_inv a \<Longrightarrow> va_abs (value_array_write a v) = va_abs a @ [v]"
  by (simp add: va_inv_def va_abs_def value_array_write_def Let_def write_step)

lemma va_init_inv: "va_inv value_array_init"
  by (simp add: va_inv_def value_array_init_def capacity_ok_def)

lemma va_init_abs [simp]: "va_abs value_array_init = []"
  by (simp add: va_abs_def value_array_init_def)

interpretation va: append_array va_inv va_abs value_array_init value_array_write
  by unfold_locales (simp_all add: va_init_inv va_write_inv va_write_abs)

lemma chunk_init_inv [simp]: "chunk_inv chunk_init"
  by (simp add: chunk_inv_def chunk_init_def capacity_ok_def va_init_inv)

lemma chunk_init_abs [simp]: "code_of chunk_init = []" "lines_of chunk_init = []" "consts_of chunk_init = []"
  by (simp_all add: chunk_init_def code_of_def lines_of_def consts_of_def)

lemma chunk_write_inv [simp]: "chunk_inv c \<Longrightarrow> chunk_inv (chunk_write c b l)"
  by (simp add: chunk_inv_def chunk_write_def Let_def write_step capacity_ok_grow capacity_ok_Suc)

lemma chunk_write_abs [simp]:
  assumes "chunk_inv c"
  shows "code_of (chunk_write c b l) = code_of c @ [b]"
    and "lines_of (chunk_write c b l) = lines_of c @ [l]"
    and "consts_of (chunk_write c b l) = consts_of c"
  using assms by (simp_all add: chunk_inv_def code_of_def lines_of_def consts_of_def chunk_write_def Let_def write_step)

interpretation chunk: append_array chunk_inv "\<lambda>c. zip (code_of c) (lines_of c)" chunk_init "\<lambda>c (b, l). chunk_write c b l"
proof
  fix c :: Chunk and x :: "byte \<times> int"
  assume inv: "chunk_inv c"
  then have "length (code_of c) = length (lines_of c)" by (simp add: chunk_inv_def code_of_def lines_of_def)
  with inv show "zip (code_of (case x of (b, l) \<Rightarrow> chunk_write c b l)) (lines_of (case x of (b, l) \<Rightarrow> chunk_write c b l))
      = zip (code_of c) (lines_of c) @ [x]"
    by (cases x) simp
qed (auto split: prod.splits)

lemma code_at:
  "chunk_inv c \<Longrightarrow> i < length (code_of c) \<Longrightarrow> array_at (ck_code c) i = Inr (code_of c ! i)"
  by (simp add: chunk_inv_def code_of_def array_at_filled)

lemma const_at:
  "chunk_inv c \<Longrightarrow> i < length (consts_of c) \<Longrightarrow> array_at (va_values (ck_constants c)) i = Inr (consts_of c ! i)"
  by (simp add: chunk_inv_def va_inv_def va_abs_def consts_of_def array_at_filled)

lemma length_code_of: "chunk_inv c \<Longrightarrow> length (code_of c) = ck_count c"
  by (simp add: chunk_inv_def code_of_def)

lemma length_lines_of: "chunk_inv c \<Longrightarrow> length (lines_of c) = ck_count c"
  by (simp add: chunk_inv_def lines_of_def)

lemma chunk_constants_add_abs:
  assumes "chunk_inv c"
  shows "chunk_inv (fst (chunk_constants_add c v))"
    and "code_of (fst (chunk_constants_add c v)) = code_of c"
    and "lines_of (fst (chunk_constants_add c v)) = lines_of c"
    and "consts_of (fst (chunk_constants_add c v)) = consts_of c @ [v]"
    and "snd (chunk_constants_add c v) = length (consts_of c)"
proof -
  have va: "va_inv (ck_constants c)" using assms by (simp add: chunk_inv_def)
  then show "chunk_inv (fst (chunk_constants_add c v))"
    using assms by (simp add: chunk_inv_def chunk_constants_add_def Let_def va_write_inv)
  show "consts_of (fst (chunk_constants_add c v)) = consts_of c @ [v]"
    using va by (simp add: consts_of_def chunk_constants_add_def Let_def va_write_abs)
  show "snd (chunk_constants_add c v) = length (consts_of c)"
    using va by (simp add: consts_of_def va_abs_def va_inv_def chunk_constants_add_def Let_def value_array_write_def)
qed (simp_all add: chunk_constants_add_def code_of_def lines_of_def Let_def)

section \<open>The properties of chunks, values and the object list\<close>

text \<open>
  C14. Writing a sequence of bytes with their lines into a new chunk stores exactly that
  sequence, never leaves an unwritten cell below the count, and allocates fewer than twice as
  many cells as it holds once it is past the initial eight.
\<close>

theorem chunk_write_sequence:
  "let c = foldl (\<lambda>c (b, l). chunk_write c b l) chunk_init bls
   in zip (code_of c) (lines_of c) = bls \<and> chunk_inv c
      \<and> ck_count c = length bls \<and> ck_capacity c \<le> max 8 (2 * length bls)"
proof -
  let ?c = "foldl (\<lambda>c (b, l). chunk_write c b l) chunk_init bls"
  have c: "chunk_inv ?c" "zip (code_of ?c) (lines_of ?c) = bls"
    using chunk.put_all_empty [of bls] by simp_all
  from c(1) have "length (zip (code_of ?c) (lines_of ?c)) = ck_count ?c"
    by (simp add: length_code_of length_lines_of del: foldl_Cons foldl_Nil)
  with c(2) have n: "ck_count ?c = length bls" by simp
  moreover have "ck_capacity ?c \<le> max 8 (2 * length bls)"
    using c(1) n by (auto simp: chunk_inv_def capacity_ok_def)
  ultimately show ?thesis using c by (simp add: Let_def)
qed

text \<open>
  C25. A constant added to a chunk is found at the index the call returns; the constants that
  were there keep theirs, and the code is untouched.
\<close>

theorem chunk_constants_roundtrip:
  assumes "chunk_inv c"
  shows "case chunk_constants_add c v of (c', i) \<Rightarrow>
    chunk_inv c' \<and> array_at (va_values (ck_constants c')) i = Inr v
    \<and> consts_of c' = consts_of c @ [v] \<and> code_of c' = code_of c"
proof -
  obtain c' i where ci: "chunk_constants_add c v = (c', i)" by fastforce
  note add = chunk_constants_add_abs [OF assms, of v, unfolded ci, simplified]
  with const_at [OF add(1), of i] show ?thesis by (simp add: ci)
qed

theorem chunk_constants_roundtrip_witness:
  "case chunk_constants_add chunk_init VAL_NIL of (c', i) \<Rightarrow>
    chunk_inv c' \<and> array_at (va_values (ck_constants c')) i = Inr VAL_NIL
    \<and> consts_of c' = consts_of chunk_init @ [VAL_NIL] \<and> code_of c' = code_of chunk_init"
  by (rule chunk_constants_roundtrip [OF chunk_init_inv])

text \<open>
  C39. \<^verbatim>\<open>values_equal\<close> is symmetric; it is reflexive on a value in the heap except for a
  NaN and for an object that is not a string, which is not equal even to itself.
\<close>

theorem values_equal_laws:
  "values_equal H a b = values_equal H b a
   \<and> values_equal H a a = (case a of
        VAL_NUMBER d \<Rightarrow> Inr (d \<noteq> NaN)
      | VAL_OBJECT r \<Rightarrow> bind_result (object_at H r)
          (\<lambda>b. Inr (case b of OBJECT_STRING _ \<Rightarrow> True | _ \<Rightarrow> False))
      | _ \<Rightarrow> Inr True)"
proof
  show "values_equal H a b = values_equal H b a"
    by (auto simp: values_equal_def object_equal_def object_at_def dbl_eq_sym split: Value.splits object_body.splits)
  show "values_equal H a a = (case a of
        VAL_NUMBER d \<Rightarrow> Inr (d \<noteq> NaN)
      | VAL_OBJECT r \<Rightarrow> bind_result (object_at H r)
          (\<lambda>b. Inr (case b of OBJECT_STRING _ \<Rightarrow> True | _ \<Rightarrow> False))
      | _ \<Rightarrow> Inr True)"
    by (auto simp: values_equal_def object_equal_def object_at_def dbl_eq_self split: Value.splits object_body.splits)
qed

end
