(* ===== verification/Clox_Table.thy ===== *)
theory Clox_Table
  imports Clox_Value
begin

text \<open>
  The open-addressing hash table of the virtual machine, \<^verbatim>\<open>include/vm/table.h\<close> and
  \<^verbatim>\<open>src/vm/table.c\<close>: linear probing, deletion by tombstones (no key, value \<^verbatim>\<open>true\<close>), growth at
  a load of three quarters. Keys are pointers to strings, compared by address; \<open>str\<close> is the
  dereference of such a pointer. The probing loops have no bound in C. Their model stops
  with \<open>Out_Of_Fuel\<close> once every slot has been visited, after which the C loop would repeat
  itself for ever; the theorems show that this does not happen on the tables the
  operations build.
\<close>

section \<open>State and operations\<close>

record Entry =
  en_key :: "nat option"
  en_value :: Value

record Table =
  tb_count :: nat
  tb_capacity :: nat
  tb_entries :: "Entry list"

definition table_init :: Table where
  "table_init = \<lparr>tb_count = 0, tb_capacity = 0, tb_entries = []\<rparr>"

definition table_free :: "Table \<Rightarrow> Table" where
  "table_free table = table_init"

fun find_loop :: "nat \<Rightarrow> Entry list \<Rightarrow> nat \<Rightarrow> nat \<Rightarrow> nat \<Rightarrow> nat option \<Rightarrow> nat result" where
  "find_loop 0 entries capacity key index tombstone = Inl Out_Of_Fuel"
| "find_loop (Suc fuel) entries capacity key index tombstone =
     (let entry = entries ! index; next = (index + 1) mod capacity
      in if en_key entry = None
         then if IS_NIL (en_value entry)
              then Inr (case tombstone of Some t \<Rightarrow> t | None \<Rightarrow> index)
              else find_loop fuel entries capacity key next
                     (case tombstone of Some t \<Rightarrow> Some t | None \<Rightarrow> Some index)
         else if en_key entry = Some key then Inr index
         else find_loop fuel entries capacity key next tombstone)"

definition find_entry :: "(nat \<Rightarrow> VmString) \<Rightarrow> Entry list \<Rightarrow> nat \<Rightarrow> nat \<Rightarrow> nat result" where
  "find_entry str entries capacity key =
     (if capacity = 0 then Inl (Crash Div_By_Zero)
      else find_loop (Suc capacity) entries capacity key (unat (vs_hash (str key)) mod capacity) None)"

definition empty_entry :: Entry where
  "empty_entry = \<lparr>en_key = None, en_value = nil_val\<rparr>"

text \<open>The second loop of \<^verbatim>\<open>adjust_capacity\<close>: the old entries still to be moved, the new array and the count.\<close>

fun rehash ::
  "(nat \<Rightarrow> VmString) \<Rightarrow> nat \<Rightarrow> Entry list \<Rightarrow> Entry list \<Rightarrow> nat \<Rightarrow> (Entry list \<times> nat) result" where
  "rehash str capacity [] entries count = Inr (entries, count)"
| "rehash str capacity (entry # rest) entries count =
     (case en_key entry of None \<Rightarrow> rehash str capacity rest entries count
      | Some k \<Rightarrow> bind_result (find_entry str entries capacity k)
          (\<lambda>dest. rehash str capacity rest (entries[dest := entry]) (count + 1)))"

definition adjust_capacity :: "(nat \<Rightarrow> VmString) \<Rightarrow> Table \<Rightarrow> nat \<Rightarrow> Table result" where
  "adjust_capacity str table capacity =
     bind_result (rehash str capacity (take (tb_capacity table) (tb_entries table)) (replicate capacity empty_entry) 0)
       (\<lambda>(entries, count). Inr \<lparr>tb_count = count, tb_capacity = capacity, tb_entries = entries\<rparr>)"

text \<open>\<^verbatim>\<open>count + 1 > capacity * 0.75\<close>, exact in \<^verbatim>\<open>double\<close> arithmetic.\<close>

definition over_load :: "nat \<Rightarrow> nat \<Rightarrow> bool" where
  "over_load count capacity \<longleftrightarrow> 4 * (count + 1) > 3 * capacity"

definition table_set :: "(nat \<Rightarrow> VmString) \<Rightarrow> Table \<Rightarrow> nat \<Rightarrow> Value \<Rightarrow> (Table \<times> bool) result" where
  "table_set str table key val =
     bind_result (if over_load (tb_count table) (tb_capacity table)
                  then adjust_capacity str table (GROW_CAPACITY (tb_capacity table)) else Inr table)
       (\<lambda>t. bind_result (find_entry str (tb_entries t) (tb_capacity t) key)
         (\<lambda>i. let isNewKey = en_key (tb_entries t ! i) = None
              in Inr (t\<lparr>tb_entries := (tb_entries t)[i := \<lparr>en_key = Some key, en_value = val\<rparr>],
                        tb_count := (if isNewKey then tb_count t + 1 else tb_count t)\<rparr>, isNewKey)))"

fun add_all_loop :: "(nat \<Rightarrow> VmString) \<Rightarrow> Entry list \<Rightarrow> Table \<Rightarrow> Table result" where
  "add_all_loop str [] to = Inr to"
| "add_all_loop str (entry # rest) to =
     (case en_key entry of None \<Rightarrow> add_all_loop str rest to
      | Some k \<Rightarrow> bind_result (table_set str to k (en_value entry)) (\<lambda>(t, _). add_all_loop str rest t))"

definition table_add_all :: "(nat \<Rightarrow> VmString) \<Rightarrow> Table \<Rightarrow> Table \<Rightarrow> Table result" where
  "table_add_all str from to = add_all_loop str (take (tb_capacity from) (tb_entries from)) to"

definition table_get :: "(nat \<Rightarrow> VmString) \<Rightarrow> Table \<Rightarrow> nat \<Rightarrow> Value option result" where
  "table_get str table key =
     (if tb_entries table = [] then Inr None
      else bind_result (find_entry str (tb_entries table) (tb_capacity table) key)
        (\<lambda>i. let entry = tb_entries table ! i
             in Inr (if en_key entry = None then None else Some (en_value entry))))"

definition table_delete :: "(nat \<Rightarrow> VmString) \<Rightarrow> Table \<Rightarrow> nat \<Rightarrow> (Table \<times> bool) result" where
  "table_delete str table key =
     (if tb_count table = 0 then Inr (table, False)
      else bind_result (find_entry str (tb_entries table) (tb_capacity table) key)
        (\<lambda>i. if en_key (tb_entries table ! i) = None then Inr (table, False)
             else Inr (table\<lparr>tb_entries := (tb_entries table)[i := \<lparr>en_key = None, en_value = bool_val 1\<rparr>]\<rparr>, True)))"

definition same_chars :: "VmString \<Rightarrow> string \<Rightarrow> nat \<Rightarrow> bool" where
  "same_chars s chars n \<longleftrightarrow> vs_length s = n \<and> take n (vs_chars s) = take n chars"

fun find_string_loop ::
  "nat \<Rightarrow> (nat \<Rightarrow> VmString) \<Rightarrow> Entry list \<Rightarrow> nat \<Rightarrow> string \<Rightarrow> nat \<Rightarrow> nat \<Rightarrow> nat option result" where
  "find_string_loop 0 str entries capacity chars n index = Inl Out_Of_Fuel"
| "find_string_loop (Suc fuel) str entries capacity chars n index =
     (case en_key (entries ! index) of None \<Rightarrow> Inr None
      | Some k \<Rightarrow> if same_chars (str k) chars n then Inr (Some k)
                  else find_string_loop fuel str entries capacity chars n ((index + 1) mod capacity))"

definition table_find_string ::
  "(nat \<Rightarrow> VmString) \<Rightarrow> Table \<Rightarrow> string \<Rightarrow> nat \<Rightarrow> hash \<Rightarrow> nat option result" where
  "table_find_string str table chars n h =
     (if tb_entries table = [] then Inr None
      else if tb_capacity table = 0 then Inl (Crash Div_By_Zero)
      else find_string_loop (Suc (tb_capacity table)) str (tb_entries table) (tb_capacity table) chars n
             (unat h mod tb_capacity table))"

section \<open>Invariant and abstraction\<close>

definition is_free :: "Entry \<Rightarrow> bool" where
  "is_free e \<longleftrightarrow> en_key e = None \<and> IS_NIL (en_value e)"

text \<open>The slot probed at distance \<open>d\<close> from the home slot of a hash.\<close>

definition slot :: "nat \<Rightarrow> hash \<Rightarrow> nat \<Rightarrow> nat" where
  "slot n h d = (unat h mod n + d) mod n"

definition probed :: "Entry list \<Rightarrow> hash \<Rightarrow> nat \<Rightarrow> bool" where
  "probed es h i \<longleftrightarrow> (\<exists>d < length es. i = slot (length es) h d
     \<and> (\<forall>d' < d. \<not> is_free (es ! slot (length es) h d')))"

definition unique_keys :: "Entry list \<Rightarrow> bool" where
  "unique_keys es \<longleftrightarrow> (\<forall>i < length es. \<forall>j < length es.
     en_key (es ! i) \<noteq> None \<longrightarrow> en_key (es ! i) = en_key (es ! j) \<longrightarrow> i = j)"

definition chained :: "(nat \<Rightarrow> VmString) \<Rightarrow> Entry list \<Rightarrow> bool" where
  "chained str es \<longleftrightarrow> (\<forall>i < length es. \<forall>k. en_key (es ! i) = Some k \<longrightarrow> probed es (vs_hash (str k)) i)"

definition in_use :: "Entry list \<Rightarrow> nat" where
  "in_use es = length (filter (\<lambda>e. \<not> is_free e) es)"

definition entries_inv :: "(nat \<Rightarrow> VmString) \<Rightarrow> Entry list \<Rightarrow> bool" where
  "entries_inv str es \<longleftrightarrow> unique_keys es \<and> chained str es \<and> in_use es < length es"

definition table_inv :: "(nat \<Rightarrow> VmString) \<Rightarrow> Table \<Rightarrow> bool" where
  "table_inv str t \<longleftrightarrow> length (tb_entries t) = tb_capacity t
     \<and> unique_keys (tb_entries t) \<and> chained str (tb_entries t)
     \<and> in_use (tb_entries t) \<le> tb_count t \<and> 4 * tb_count t \<le> 3 * tb_capacity t"

definition entries_abs :: "Entry list \<Rightarrow> nat \<Rightarrow> Value option" where
  "entries_abs es k = map_option en_value (find (\<lambda>e. en_key e = Some k) es)"

definition table_abs :: "Table \<Rightarrow> nat \<Rightarrow> Value option" where
  "table_abs t = entries_abs (tb_entries t)"

subsection \<open>Probing\<close>

lemma slot_less [simp]: "0 < n \<Longrightarrow> slot n h d < n"
  by (simp add: slot_def)

lemma slot_0: "slot n h 0 = unat h mod n"
  by (simp add: slot_def)

lemma slot_Suc: "(slot n h d + 1) mod n = slot n h (Suc d)"
  by (simp add: slot_def mod_Suc_eq)

lemma slot_surj:
  assumes "i < n"
  shows "\<exists>d < n. slot n h d = i"
proof (cases "unat h mod n \<le> i")
  case True
  with assms show ?thesis by (intro exI [of _ "i - unat h mod n"]) (auto simp: slot_def)
next
  case False
  have "unat h mod n < n" using assms by simp
  then have "unat h mod n + (i + n - unat h mod n) = i + n" by simp
  then have "slot n h (i + n - unat h mod n) = i" using assms by (simp only: slot_def) simp
  with False \<open>unat h mod n < n\<close> show ?thesis by (intro exI [of _ "i + n - unat h mod n"]) simp
qed

text \<open>The first slot on the probe sequence with a property of some slot.\<close>

lemma first_slot:
  fixes P :: "nat \<Rightarrow> bool"
  assumes "i < n" and "P i"
  obtains d where "d < n" "P (slot n h d)" "\<And>d'. d' < d \<Longrightarrow> \<not> P (slot n h d')"
proof -
  from slot_surj [OF assms(1), of h] assms(2) obtain d where d: "d < n" "P (slot n h d)" by auto
  define m where "m = (LEAST d. P (slot n h d))"
  have "P (slot n h m)" unfolding m_def by (rule LeastI) (rule d(2))
  moreover have "m \<le> d" unfolding m_def by (rule Least_le) (rule d(2))
  then have "m < n" using d(1) by simp
  moreover have "\<not> P (slot n h d')" if "d' < m" for d' using that unfolding m_def by (rule not_less_Least)
  ultimately show thesis by (intro that)
qed

lemma find_loop_hit:
  assumes "en_key (es ! slot n h N) = Some k"
    and "\<And>d. d < N \<Longrightarrow> \<not> is_free (es ! slot n h d) \<and> en_key (es ! slot n h d) \<noteq> Some k"
  shows "d \<le> N \<Longrightarrow> N - d < fuel \<Longrightarrow> find_loop fuel es n k (slot n h d) ts = Inr (slot n h N)"
proof (induction fuel arbitrary: d ts)
  case 0
  then show ?case by simp
next
  case (Suc fuel)
  show ?case
  proof (cases "d = N")
    case True
    with assms(1) show ?thesis by simp
  next
    case False
    with Suc.prems have "d < N" by simp
    with assms(2) [OF this] Suc show ?thesis
      by (auto simp: Let_def is_free_def slot_Suc [simplified])
  qed
qed

text \<open>A miss ends at a slot without a key: the first tombstone passed, or the free slot.\<close>

lemma find_loop_miss:
  assumes "is_free (es ! slot n h N)"
    and "\<And>d. d < N \<Longrightarrow> \<not> is_free (es ! slot n h d) \<and> en_key (es ! slot n h d) \<noteq> Some k"
  shows "d \<le> N \<Longrightarrow> N - d < fuel \<Longrightarrow>
    \<exists>r. find_loop fuel es n k (slot n h d) ts = Inr r
      \<and> (case ts of Some t \<Rightarrow> r = t
         | None \<Rightarrow> \<exists>d' \<le> N. r = slot n h d' \<and> en_key (es ! slot n h d') = None)"
proof (induction fuel arbitrary: d ts)
  case 0
  then show ?case by simp
next
  case (Suc fuel)
  show ?case
  proof (cases "d = N")
    case True
    with assms(1) show ?thesis by (auto simp: is_free_def split: option.split)
  next
    case False
    with Suc.prems have less: "d < N" by simp
    let ?ts = "if en_key (es ! slot n h d) = None then (case ts of Some t \<Rightarrow> Some t | None \<Rightarrow> Some (slot n h d)) else ts"
    have "find_loop (Suc fuel) es n k (slot n h d) ts = find_loop fuel es n k (slot n h (Suc d)) ?ts"
      using assms(2) [OF less] by (auto simp: Let_def is_free_def slot_Suc [simplified])
    moreover obtain r where r: "find_loop fuel es n k (slot n h (Suc d)) ?ts = Inr r"
        "case ?ts of Some t \<Rightarrow> r = t
         | None \<Rightarrow> \<exists>d' \<le> N. r = slot n h d' \<and> en_key (es ! slot n h d') = None"
    proof -
      have "Suc d \<le> N" "N - Suc d < fuel" using Suc.prems less by simp_all
      from Suc.IH [OF this, of ?ts] that show thesis by blast
    qed
    moreover have "case ts of Some t \<Rightarrow> r = t
         | None \<Rightarrow> \<exists>d' \<le> N. r = slot n h d' \<and> en_key (es ! slot n h d') = None"
      using r(2) less_imp_le [OF less] by (cases ts) (auto split: if_splits intro: exI [of _ d])
    ultimately show ?thesis by simp
  qed
qed

lemma find_entry_slot: "0 < n \<Longrightarrow> find_entry str es n k = find_loop (Suc n) es n k (slot n (vs_hash (str k)) 0) None"
  by (simp add: find_entry_def slot_0)

lemma find_entry_found:
  assumes uniq: "unique_keys es" and "chained str es" and i: "i < length es" "en_key (es ! i) = Some k"
  shows "find_entry str es (length es) k = Inr i"
proof -
  let ?h = "vs_hash (str k)" and ?n = "length es"
  from i assms(2) obtain N where N: "N < ?n" "i = slot ?n ?h N" "\<And>d. d < N \<Longrightarrow> \<not> is_free (es ! slot ?n ?h d)"
    by (auto simp: chained_def probed_def)
  obtain M where M: "M < ?n" "en_key (es ! slot ?n ?h M) = Some k"
      "\<And>d. d < M \<Longrightarrow> en_key (es ! slot ?n ?h d) \<noteq> Some k"
    using first_slot [OF i(1), of "\<lambda>j. en_key (es ! j) = Some k" ?h] i(2) by blast
  have "M \<le> N" using M(3) [of N] N(2) i(2) not_le by blast
  then have "find_loop (Suc ?n) es ?n k (slot ?n ?h 0) None = Inr (slot ?n ?h M)"
    using M N by (intro find_loop_hit) auto
  moreover have "slot ?n ?h M < ?n" using i(1) by (intro slot_less) (rule le_less_trans [OF le0])
  then have "slot ?n ?h M = i" using uniq i M(2) unfolding unique_keys_def by force
  moreover have "0 < ?n" using i(1) by (rule le_less_trans [OF le0])
  ultimately show ?thesis by (simp only: find_entry_slot)
qed

lemma find_entry_absent:
  assumes "in_use es < length es" and absent: "\<And>i. i < length es \<Longrightarrow> en_key (es ! i) \<noteq> Some k"
  obtains i where "find_entry str es (length es) k = Inr i" "i < length es"
    "en_key (es ! i) = None" "probed es (vs_hash (str k)) i"
proof -
  let ?h = "vs_hash (str k)" and ?n = "length es"
  have n: "0 < ?n" using assms(1) by (rule le_less_trans [OF le0])
  from length_filter_less_ex [OF assms(1) [unfolded in_use_def]]
  obtain j where j: "j < ?n" "is_free (es ! j)" by auto
  obtain N where N: "N < ?n" "is_free (es ! slot ?n ?h N)" "\<And>d. d < N \<Longrightarrow> \<not> is_free (es ! slot ?n ?h d)"
    using first_slot [of j ?n "\<lambda>j. is_free (es ! j)" ?h] j by blast
  have "\<exists>r. find_loop (Suc ?n) es ?n k (slot ?n ?h 0) None = Inr r
      \<and> (case None of Some t \<Rightarrow> r = t | None \<Rightarrow> \<exists>d' \<le> N. r = slot ?n ?h d' \<and> en_key (es ! slot ?n ?h d') = None)"
    by (rule find_loop_miss [OF N(2)]) (use N n absent in auto)
  then obtain d where d: "d \<le> N" "find_entry str es ?n k = Inr (slot ?n ?h d)" "en_key (es ! slot ?n ?h d) = None"
    using n by (auto simp: find_entry_slot)
  moreover have "probed es ?h (slot ?n ?h d)"
    unfolding probed_def using d(1) N by (intro exI [of _ d]) auto
  ultimately show thesis using n that [of "slot ?n ?h d"] by simp
qed

subsection \<open>Writing a slot\<close>

lemma probed_update:
  assumes "probed es h i" and "\<not> is_free e"
  shows "probed (es[j := e]) h i"
proof -
  from assms(1) obtain d where d: "d < length es" "i = slot (length es) h d"
    "\<And>d'. d' < d \<Longrightarrow> \<not> is_free (es ! slot (length es) h d')" by (auto simp: probed_def)
  then have "\<not> is_free (es[j := e] ! slot (length es) h d')" if "d' < d" for d'
    using that assms(2) by (cases "j < length es") (auto simp: nth_list_update list_update_beyond)
  with d show ?thesis by (auto simp: probed_def)
qed

lemma unique_keys_update:
  assumes "unique_keys es" "i < length es"
    and "\<And>j k. j < length es \<Longrightarrow> j \<noteq> i \<Longrightarrow> en_key e = Some k \<Longrightarrow> en_key (es ! j) \<noteq> Some k"
  shows "unique_keys (es[i := e])"
  unfolding unique_keys_def
proof (intro allI impI)
  fix a b
  assume ab: "a < length (es[i := e])" "b < length (es[i := e])"
    "en_key (es[i := e] ! a) \<noteq> None" "en_key (es[i := e] ! a) = en_key (es[i := e] ! b)"
  consider "a = i" "b = i" | "a = i" "b \<noteq> i" | "a \<noteq> i" "b = i" | "a \<noteq> i" "b \<noteq> i" by blast
  then show "a = b"
  proof cases
    case 2
    with ab assms(2) assms(3) [of b] show ?thesis by fastforce
  next
    case 3
    with ab assms(2) assms(3) [of a] show ?thesis by fastforce
  next
    case 4
    with ab assms(1) show ?thesis by (simp add: unique_keys_def)
  qed simp
qed

lemma chained_update:
  assumes "chained str es" "i < length es" "\<not> is_free e"
    and "\<And>k. en_key e = Some k \<Longrightarrow> probed es (vs_hash (str k)) i"
  shows "chained str (es[i := e])"
  using assms by (auto simp: chained_def nth_list_update intro: probed_update)

lemma entries_abs_Some:
  assumes "unique_keys es"
  shows "entries_abs es k = Some v \<longleftrightarrow> (\<exists>i < length es. en_key (es ! i) = Some k \<and> en_value (es ! i) = v)"
proof
  assume "entries_abs es k = Some v"
  then show "\<exists>i < length es. en_key (es ! i) = Some k \<and> en_value (es ! i) = v"
    by (auto simp: entries_abs_def find_Some_iff)
next
  assume "\<exists>i < length es. en_key (es ! i) = Some k \<and> en_value (es ! i) = v"
  then obtain i where i: "i < length es" "en_key (es ! i) = Some k" "en_value (es ! i) = v" by blast
  then have "find (\<lambda>e. en_key e = Some k) es \<noteq> None" by (auto simp: find_None_iff intro: nth_mem)
  then obtain e where e: "find (\<lambda>e. en_key e = Some k) es = Some e" by blast
  then obtain j where j: "j < length es" "en_key (es ! j) = Some k" "e = es ! j" by (auto simp: find_Some_iff)
  from j i assms have "j = i" unfolding unique_keys_def by force
  with e i j show "entries_abs es k = Some v" by (simp add: entries_abs_def)
qed

lemma entries_abs_None: "entries_abs es k = None \<longleftrightarrow> (\<forall>i < length es. en_key (es ! i) \<noteq> Some k)"
  by (auto simp: entries_abs_def find_None_iff in_set_conv_nth)

lemma entries_abs_other:
  "i < length es \<Longrightarrow> en_key e \<noteq> Some k \<Longrightarrow> en_key (es ! i) \<noteq> Some k \<Longrightarrow> entries_abs (es[i := e]) k = entries_abs es k"
proof (induction es arbitrary: i)
  case Nil
  then show ?case by simp
next
  case (Cons x es)
  then show ?case by (cases i) (auto simp: entries_abs_def)
qed

lemma entries_abs_put:
  assumes "unique_keys (es[i := e])" "i < length es" "en_key e = Some key"
    and old: "en_key (es ! i) = None \<or> en_key (es ! i) = Some key"
  shows "entries_abs (es[i := e]) = (entries_abs es)(key \<mapsto> en_value e)"
proof
  fix k
  show "entries_abs (es[i := e]) k = ((entries_abs es)(key \<mapsto> en_value e)) k"
  proof (cases "k = key")
    case True
    have "entries_abs (es[i := e]) key = Some (en_value e)"
      unfolding entries_abs_Some [OF assms(1)] using assms by (intro exI [of _ i]) simp
    with True show ?thesis by simp
  next
    case False
    with assms have "entries_abs (es[i := e]) k = entries_abs es k" by (intro entries_abs_other) auto
    with False show ?thesis by simp
  qed
qed

lemma entries_abs_remove:
  assumes "unique_keys es" "i < length es" "en_key e = None" "en_key (es ! i) = Some key"
  shows "entries_abs (es[i := e]) = (entries_abs es)(key := None)"
proof
  fix k
  show "entries_abs (es[i := e]) k = ((entries_abs es)(key := None)) k"
  proof (cases "k = key")
    case True
    have "en_key (es[i := e] ! j) \<noteq> Some key" if "j < length es" for j
      using that assms unfolding unique_keys_def by (cases "j = i") force+
    with True show ?thesis by (simp add: entries_abs_None)
  next
    case False
    with assms have "entries_abs (es[i := e]) k = entries_abs es k" by (intro entries_abs_other) auto
    with False show ?thesis by simp
  qed
qed

lemma in_use_update:
  assumes "i < length es"
  shows "\<not> is_free e \<Longrightarrow> in_use (es[i := e]) \<le> Suc (in_use es)"
    and "\<not> is_free (es ! i) \<Longrightarrow> in_use (es[i := e]) \<le> in_use es"
  using length_filter_update [OF assms, of "\<lambda>e. \<not> is_free e" e] by (auto simp: in_use_def split: if_splits)

text \<open>
  What a probe followed by a store of a key does: the array keeps its structure and maps the
  key to the value; it takes up a free slot only if the key is new.
\<close>

lemma find_entry_store:
  assumes "unique_keys es" "chained str es" "in_use es < length es"
  obtains i where "find_entry str es (length es) key = Inr i" "i < length es"
    "en_key (es ! i) = None \<longleftrightarrow> entries_abs es key = None"
    "en_key (es ! i) = None \<or> en_key (es ! i) = Some key"
    "unique_keys (es[i := \<lparr>en_key = Some key, en_value = v\<rparr>])"
    "chained str (es[i := \<lparr>en_key = Some key, en_value = v\<rparr>])"
    "entries_abs (es[i := \<lparr>en_key = Some key, en_value = v\<rparr>]) = (entries_abs es)(key \<mapsto> v)"
    "in_use (es[i := \<lparr>en_key = Some key, en_value = v\<rparr>]) \<le> (if entries_abs es key = None then Suc (in_use es) else in_use es)"
proof -
  let ?e = "\<lparr>en_key = Some key, en_value = v\<rparr>"
  have full: "\<not> is_free ?e" by (simp add: is_free_def)
  obtain i where i: "find_entry str es (length es) key = Inr i" "i < length es"
    "en_key (es ! i) = None \<longleftrightarrow> entries_abs es key = None"
    "en_key (es ! i) = None \<or> en_key (es ! i) = Some key"
    "probed es (vs_hash (str key)) i"
    "\<And>j. j < length es \<Longrightarrow> j \<noteq> i \<Longrightarrow> en_key (es ! j) \<noteq> Some key"
  proof (cases "entries_abs es key = None")
    case True
    then have absent: "\<And>j. j < length es \<Longrightarrow> en_key (es ! j) \<noteq> Some key" by (simp add: entries_abs_None)
    from find_entry_absent [OF assms(3) this] that True absent show thesis by metis
  next
    case False
    then obtain i where i: "i < length es" "en_key (es ! i) = Some key" by (auto simp: entries_abs_None)
    moreover have "probed es (vs_hash (str key)) i" using assms(2) i by (simp add: chained_def)
    moreover have "en_key (es ! j) \<noteq> Some key" if "j < length es" "j \<noteq> i" for j
      using assms(1) i that unfolding unique_keys_def by force
    ultimately show thesis
      using that [of i] find_entry_found [OF assms(1,2) i] False by simp
  qed
  have u: "unique_keys (es[i := ?e])" using assms(1) i(2,6) by (intro unique_keys_update) auto
  moreover have "chained str (es[i := ?e])" using assms(2) i(2,5) full by (intro chained_update) auto
  moreover have "entries_abs (es[i := ?e]) = (entries_abs es)(key \<mapsto> v)"
    using entries_abs_put [OF u i(2) _ i(4)] by simp
  moreover have "in_use (es[i := ?e]) \<le> (if entries_abs es key = None then Suc (in_use es) else in_use es)"
    using in_use_update [OF i(2)] full i(3) by (auto simp: is_free_def)
  ultimately show thesis using that [OF i(1-4)] by blast
qed

subsection \<open>Growing\<close>

definition used :: "Entry list \<Rightarrow> nat" where
  "used es = length (filter (\<lambda>e. en_key e \<noteq> None) es)"

lemma used_le_in_use: "used es \<le> in_use es"
  unfolding used_def in_use_def by (induction es) (auto simp: is_free_def)

lemma unique_keys_Cons:
  assumes "unique_keys (e # es)"
  shows "unique_keys es" and "en_key e = Some k \<Longrightarrow> entries_abs es k = None"
proof -
  show "unique_keys es"
    unfolding unique_keys_def
  proof (intro allI impI)
    fix i j
    assume "i < length es" "j < length es" "en_key (es ! i) \<noteq> None" "en_key (es ! i) = en_key (es ! j)"
    with assms have "Suc i = Suc j" unfolding unique_keys_def
      by (elim allE [of _ "Suc i"] allE [of _ "Suc j"] impE) simp_all
    then show "i = j" by simp
  qed
  assume "en_key e = Some k"
  with assms show "entries_abs es k = None"
    unfolding unique_keys_def entries_abs_None by (fastforce dest: spec [of _ 0])
qed

lemma rehash_spec:
  assumes "unique_keys es" "chained str es" "unique_keys rest"
    and "in_use es + used rest < length es"
  shows "\<exists>es'. rehash str (length es) rest es count = Inr (es', count + used rest)
    \<and> length es' = length es \<and> unique_keys es' \<and> chained str es'
    \<and> in_use es' \<le> in_use es + used rest \<and> entries_abs es' = entries_abs es ++ entries_abs rest"
  using assms
proof (induction rest arbitrary: es count)
  case Nil
  then show ?case by (simp add: used_def entries_abs_def map_add_def)
next
  case (Cons e rest)
  note uk = unique_keys_Cons [OF Cons.prems(3)]
  show ?case
  proof (cases "en_key e")
    case None
    then have "used (e # rest) = used rest" "entries_abs (e # rest) = entries_abs rest"
      by (auto simp: used_def entries_abs_def)
    with Cons.IH [OF Cons.prems(1,2) uk(1)] Cons.prems(4) None show ?thesis by simp
  next
    case (Some k)
    have e: "e = \<lparr>en_key = Some k, en_value = en_value e\<rparr>" using Some by (cases e) simp
    have used: "used (e # rest) = Suc (used rest)" using Some by (simp add: used_def)
    with Cons.prems(4) have "in_use es < length es" by simp
    obtain i where i: "find_entry str es (length es) k = Inr i" "i < length es"
      "en_key (es ! i) = None \<longleftrightarrow> entries_abs es k = None"
      "en_key (es ! i) = None \<or> en_key (es ! i) = Some k"
      "unique_keys (es[i := e])" "chained str (es[i := e])"
      "entries_abs (es[i := e]) = (entries_abs es)(k \<mapsto> en_value e)"
      "in_use (es[i := e]) \<le> (if entries_abs es k = None then Suc (in_use es) else in_use es)"
      by (rule find_entry_store [OF Cons.prems(1,2) \<open>in_use es < length es\<close>, of k "en_value e", folded e])
    have le: "in_use (es[i := e]) \<le> Suc (in_use es)" using i(8) by (simp split: if_splits)
    have room: "in_use (es[i := e]) + used rest < length (es[i := e])" using le Cons.prems(4) used by simp
    have abs: "entries_abs (e # rest) = (entries_abs rest)(k \<mapsto> en_value e)"
      using Some by (auto simp: entries_abs_def)
    from Cons.IH [OF i(5,6) uk(1) room, of "count + 1"] obtain es' where es':
      "rehash str (length es) rest (es[i := e]) (count + 1) = Inr (es', count + 1 + used rest)"
      "length es' = length es" "unique_keys es'" "chained str es'"
      "in_use es' \<le> in_use (es[i := e]) + used rest"
      "entries_abs es' = entries_abs (es[i := e]) ++ entries_abs rest" by auto
    moreover have "entries_abs es' = entries_abs es ++ entries_abs (e # rest)"
      using uk(2) [OF Some] es'(6) i(7) abs by (auto simp: map_add_def fun_eq_iff split: option.splits)
    ultimately show ?thesis using i(1) le Some used by (intro exI [of _ es']) simp
  qed
qed

lemma fresh_entries:
  "unique_keys (replicate n empty_entry)" "chained str (replicate n empty_entry)"
  "in_use (replicate n empty_entry) = 0" "entries_abs (replicate n empty_entry) k = None"
  by (simp_all add: unique_keys_def chained_def empty_entry_def in_use_def is_free_def IS_NIL_def nil_val_def
      entries_abs_def find_None_iff)

lemma adjust_capacity_spec:
  assumes inv: "table_inv str t" and "tb_capacity t < capacity"
  obtains t' where "adjust_capacity str t capacity = Inr t'" "table_inv str t'"
    "tb_capacity t' = capacity" "table_abs t' = table_abs t" "tb_count t' \<le> tb_count t"
proof -
  let ?es = "replicate capacity empty_entry"
  have u: "used (tb_entries t) \<le> tb_count t" using inv used_le_in_use [of "tb_entries t"] by (simp add: table_inv_def)
  have c: "tb_count t < capacity" "4 * tb_count t \<le> 3 * capacity" using assms by (auto simp: table_inv_def)
  have "in_use ?es + used (tb_entries t) < length ?es" using u c(1) by (simp add: fresh_entries)
  from rehash_spec [OF fresh_entries(1,2) _ this, where count = 0] inv
  obtain es' where es': "rehash str capacity (tb_entries t) ?es 0 = Inr (es', used (tb_entries t))"
    "length es' = capacity" "unique_keys es'" "chained str es'" "in_use es' \<le> used (tb_entries t)"
    "entries_abs es' = entries_abs ?es ++ entries_abs (tb_entries t)"
    by (auto simp: table_inv_def fresh_entries)
  let ?t = "\<lparr>tb_count = used (tb_entries t), tb_capacity = capacity, tb_entries = es'\<rparr>"
  have "adjust_capacity str t capacity = Inr ?t"
    using es'(1) inv by (simp add: adjust_capacity_def table_inv_def)
  moreover have "table_inv str ?t" using es'(2-5) u c(2) by (simp add: table_inv_def)
  moreover have "table_abs ?t = table_abs t"
    using es'(6) by (simp add: table_abs_def fun_eq_iff map_add_def fresh_entries split: option.splits)
  ultimately show thesis using that u by simp
qed

subsection \<open>The operations\<close>

lemma table_inv_room: "table_inv str t \<Longrightarrow> 0 < tb_capacity t \<Longrightarrow> in_use (tb_entries t) < length (tb_entries t)"
  by (simp add: table_inv_def)

lemma table_set_spec:
  assumes "table_inv str t"
  obtains t' where "table_set str t key v = Inr (t', table_abs t key = None)" "table_inv str t'"
    "table_abs t' = (table_abs t)(key \<mapsto> v)"
proof -
  obtain t1 where t1: "(if over_load (tb_count t) (tb_capacity t)
      then adjust_capacity str t (GROW_CAPACITY (tb_capacity t)) else Inr t) = Inr t1"
    "table_inv str t1" "table_abs t1 = table_abs t" "4 * (tb_count t1 + 1) \<le> 3 * tb_capacity t1"
  proof (cases "over_load (tb_count t) (tb_capacity t)")
    case True
    from adjust_capacity_spec [OF assms GROW_CAPACITY_gt]
    obtain t' where t': "adjust_capacity str t (GROW_CAPACITY (tb_capacity t)) = Inr t'" "table_inv str t'"
      "tb_capacity t' = GROW_CAPACITY (tb_capacity t)" "table_abs t' = table_abs t" "tb_count t' \<le> tb_count t" .
    moreover have "4 * (tb_count t' + 1) \<le> 3 * GROW_CAPACITY (tb_capacity t)"
      using t'(5) assms by (auto simp: table_inv_def GROW_CAPACITY_def)
    ultimately show thesis using that True by simp
  next
    case False
    with that [of t] assms show thesis by (simp add: over_load_def)
  qed
  let ?es = "tb_entries t1"
  have n: "length ?es = tb_capacity t1" and room: "in_use ?es < length ?es"
    using t1(2,4) by (auto simp: table_inv_def)
  from t1(2) have "unique_keys ?es" "chained str ?es" by (simp_all add: table_inv_def)
  then obtain i where i:
    "find_entry str ?es (length ?es) key = Inr i" "i < length ?es"
    "en_key (?es ! i) = None \<longleftrightarrow> entries_abs ?es key = None"
    "en_key (?es ! i) = None \<or> en_key (?es ! i) = Some key"
    "unique_keys (?es[i := \<lparr>en_key = Some key, en_value = v\<rparr>])"
    "chained str (?es[i := \<lparr>en_key = Some key, en_value = v\<rparr>])"
    "entries_abs (?es[i := \<lparr>en_key = Some key, en_value = v\<rparr>]) = (entries_abs ?es)(key \<mapsto> v)"
    "in_use (?es[i := \<lparr>en_key = Some key, en_value = v\<rparr>]) \<le> (if entries_abs ?es key = None then Suc (in_use ?es) else in_use ?es)"
    using room by (rule find_entry_store)
  let ?new = "entries_abs ?es key = None"
  let ?t = "t1\<lparr>tb_entries := ?es[i := \<lparr>en_key = Some key, en_value = v\<rparr>],
    tb_count := (if ?new then tb_count t1 + 1 else tb_count t1)\<rparr>"
  have "table_set str t key v = Inr (?t, ?new)"
    unfolding table_set_def t1(1) using i(1,3) n by (simp add: Let_def)
  moreover have "table_inv str ?t" using i(2,5,6,8) t1(2,4) by (auto simp: table_inv_def split: if_splits)
  ultimately show thesis using that [of ?t] i(7) t1(3) by (simp add: table_abs_def)
qed

lemma table_abs_empty: "tb_entries t = [] \<Longrightarrow> table_abs t key = None"
  by (simp add: table_abs_def entries_abs_def)

lemma table_get_spec:
  assumes "table_inv str t"
  shows "table_get str t key = Inr (table_abs t key)"
proof (cases "tb_entries t = []")
  case True
  then show ?thesis by (simp add: table_get_def table_abs_empty)
next
  case False
  let ?es = "tb_entries t"
  have n: "length ?es = tb_capacity t" and u: "unique_keys ?es" "chained str ?es" "in_use ?es < length ?es"
    using False assms table_inv_room [OF assms] by (auto simp: table_inv_def simp flip: length_greater_0_conv)
  obtain i where i:
    "find_entry str ?es (length ?es) key = Inr i" "i < length ?es"
    "en_key (?es ! i) = None \<longleftrightarrow> entries_abs ?es key = None"
    "en_key (?es ! i) = None \<or> en_key (?es ! i) = Some key" by (rule find_entry_store [OF u, of key])
  moreover have "en_key (?es ! i) = Some key \<Longrightarrow> entries_abs ?es key = Some (en_value (?es ! i))"
    using entries_abs_Some [OF u(1)] i(2) by blast
  ultimately show ?thesis using False n by (auto simp: table_get_def table_abs_def)
qed

lemma table_delete_spec:
  assumes "table_inv str t"
  obtains t' where "table_delete str t key = Inr (t', table_abs t key \<noteq> None)" "table_inv str t'"
    "table_abs t' = (table_abs t)(key := None)"
proof -
  let ?es = "tb_entries t"
  note inv = assms [unfolded table_inv_def]
  show thesis
  proof (cases "table_abs t key = None")
    case True
    have "table_delete str t key = Inr (t, False)"
    proof (cases "tb_count t = 0")
      case False
      with inv have room: "in_use ?es < length ?es" by linarith
      moreover have "\<And>i. i < length ?es \<Longrightarrow> en_key (?es ! i) \<noteq> Some key"
        using True by (simp add: table_abs_def entries_abs_None)
      ultimately obtain i where "find_entry str ?es (length ?es) key = Inr i" "en_key (?es ! i) = None"
        by (rule find_entry_absent)
      with False inv show ?thesis by (simp add: table_delete_def)
    qed (simp add: table_delete_def)
    with that [of t] True assms show thesis by (simp add: fun_upd_idem)
  next
    case False
    then obtain i where i: "i < length ?es" "en_key (?es ! i) = Some key"
      by (auto simp: table_abs_def entries_abs_None)
    let ?t = "t\<lparr>tb_entries := ?es[i := \<lparr>en_key = None, en_value = bool_val 1\<rparr>]\<rparr>"
    have full: "\<not> is_free (?es ! i)" using i by (simp add: is_free_def)
    then have "0 < in_use ?es" using i(1) by (auto simp: in_use_def filter_empty_conv)
    moreover have "find_entry str ?es (length ?es) key = Inr i"
      using inv i by (intro find_entry_found) auto
    ultimately have "table_delete str t key = Inr (?t, True)"
      using inv i(2) by (auto simp: table_delete_def)
    moreover have "table_inv str ?t"
      using inv i(1) in_use_update(2) [OF i(1) full, of "\<lparr>en_key = None, en_value = bool_val 1\<rparr>"]
      by (auto simp: table_inv_def is_free_def IS_NIL_def bool_val_def intro!: unique_keys_update chained_update)
    moreover have "table_abs ?t = (table_abs t)(key := None)"
      using entries_abs_remove [OF _ i(1) _ i(2)] inv by (simp add: table_abs_def)
    ultimately show thesis using that False by simp
  qed
qed

lemma table_init_inv: "table_inv str table_init"
  by (simp add: table_inv_def table_init_def unique_keys_def chained_def in_use_def)

lemma table_init_abs: "table_abs table_init k = None"
  by (simp add: table_abs_empty table_init_def)

lemma table_inv_cong:
  assumes "table_inv str t" and "\<And>k. table_abs t k \<noteq> None \<Longrightarrow> vs_hash (str' k) = vs_hash (str k)"
  shows "table_inv str' t"
proof -
  have "chained str (tb_entries t)" using assms(1) by (simp add: table_inv_def)
  moreover have "vs_hash (str' k) = vs_hash (str k)" if "i < length (tb_entries t)" "en_key (tb_entries t ! i) = Some k" for i k
    using that assms(2) [of k] by (auto simp: table_abs_def entries_abs_None)
  ultimately have "chained str' (tb_entries t)" by (simp add: chained_def)
  with assms(1) show ?thesis by (simp add: table_inv_def)
qed

lemma add_all_loop_spec:
  assumes "table_inv str to" "unique_keys es"
  shows "\<exists>t'. add_all_loop str es to = Inr t' \<and> table_inv str t' \<and> table_abs t' = table_abs to ++ entries_abs es"
  using assms
proof (induction es arbitrary: to)
  case Nil
  then show ?case by (simp add: entries_abs_def map_add_def)
next
  case (Cons e es)
  note uk = unique_keys_Cons [OF Cons.prems(2)]
  show ?case
  proof (cases "en_key e")
    case None
    then have "entries_abs (e # es) = entries_abs es" by (auto simp: entries_abs_def)
    with Cons.IH [OF Cons.prems(1) uk(1)] None show ?thesis by simp
  next
    case (Some k)
    obtain t' where t': "table_set str to k (en_value e) = Inr (t', table_abs to k = None)" "table_inv str t'"
      "table_abs t' = (table_abs to)(k \<mapsto> en_value e)" by (rule table_set_spec [OF Cons.prems(1)])
    have "entries_abs (e # es) = (entries_abs es)(k \<mapsto> en_value e)" using Some by (auto simp: entries_abs_def)
    then have "table_abs t' ++ entries_abs es = table_abs to ++ entries_abs (e # es)"
      using uk(2) [OF Some] t'(3) by (auto simp: map_add_def fun_eq_iff split: option.splits)
    with Cons.IH [OF t'(2) uk(1)] have "\<exists>t2. add_all_loop str es t' = Inr t2 \<and> table_inv str t2
        \<and> table_abs t2 = table_abs to ++ entries_abs (e # es)" by simp
    with t'(1) Some show ?thesis by simp
  qed
qed

section \<open>The table as an association\<close>

definition tget :: "(nat \<Rightarrow> VmString) \<Rightarrow> Table \<Rightarrow> nat \<Rightarrow> Value option" where
  "tget str t k = (case table_get str t k of Inr v \<Rightarrow> v | Inl _ \<Rightarrow> None)"

definition tset :: "(nat \<Rightarrow> VmString) \<Rightarrow> Table \<Rightarrow> nat \<Rightarrow> Value \<Rightarrow> Table" where
  "tset str t k v = (case table_set str t k v of Inr (t', _) \<Rightarrow> t' | Inl _ \<Rightarrow> t)"

definition tdel :: "(nat \<Rightarrow> VmString) \<Rightarrow> Table \<Rightarrow> nat \<Rightarrow> Table" where
  "tdel str t k = (case table_delete str t k of Inr (t', _) \<Rightarrow> t' | Inl _ \<Rightarrow> t)"

lemma tset_eq: "table_inv str t \<Longrightarrow> table_set str t k v = Inr (tset str t k v, table_abs t k = None)"
  by (rule table_set_spec [of str t k v]) (simp_all add: tset_def)

lemma tdel_eq: "table_inv str t \<Longrightarrow> table_delete str t k = Inr (tdel str t k, table_abs t k \<noteq> None)"
  by (rule table_delete_spec [of str t k]) (simp_all add: tdel_def)

interpretation tbl: assoc_set "table_inv str" table_abs table_init "tget str" "\<lambda>_. True" "tset str" "tdel str" for str
proof
  fix t k v
  assume inv: "table_inv str t"
  show "tget str t k = table_abs t k" by (simp add: tget_def table_get_spec [OF inv])
  show "table_inv str (tset str t k v)" "table_abs (tset str t k v) = (table_abs t)(k \<mapsto> v)"
    using table_set_spec [OF inv, of k v] tset_eq [OF inv, of k v] by (metis Pair_inject sum.inject(2))+
  show "table_inv str (tdel str t k)" "table_abs (tdel str t k) = (table_abs t)(k := None)"
    using table_delete_spec [OF inv, of k] tdel_eq [OF inv, of k] by (metis Pair_inject sum.inject(2))+
qed (simp_all add: table_init_inv table_init_abs)

text \<open>A history of calls on a table, as the code makes them.\<close>

fun table_ops :: "(nat \<Rightarrow> VmString) \<Rightarrow> Table \<Rightarrow> (nat \<times> Value option) list \<Rightarrow> Table result" where
  "table_ops str t [] = Inr t"
| "table_ops str t ((k, w) # ops) =
     bind_result (case w of Some v \<Rightarrow> table_set str t k v | None \<Rightarrow> table_delete str t k)
       (\<lambda>(t', _). table_ops str t' ops)"

lemma table_ops_replay: "table_inv str t \<Longrightarrow> table_ops str t ops = Inr (tbl.replay str t ops)"
proof (induction ops arbitrary: t)
  case Nil
  then show ?case by (simp add: tbl.replay_def)
next
  case (Cons op ops)
  obtain k w where op: "op = (k, w)" by fastforce
  from Cons show ?case
    by (cases w) (simp_all add: op tbl.replay_def tset_eq tdel_eq tbl.set_inv tbl.delete_inv)
qed

section \<open>Finding a string by its characters\<close>

definition no_tombs :: "Entry list \<Rightarrow> bool" where
  "no_tombs es \<longleftrightarrow> list_all (\<lambda>e. en_key e = None \<longrightarrow> IS_NIL (en_value e)) es"

lemma no_tombs_update: "no_tombs es \<Longrightarrow> en_key e \<noteq> None \<Longrightarrow> no_tombs (es[i := e])"
  unfolding no_tombs_def list_all_iff using set_update_subset_insert [of es i e] by auto

lemma rehash_no_tombs: "no_tombs es \<Longrightarrow> rehash str n rest es c = Inr (es', c') \<Longrightarrow> no_tombs es'"
proof (induction rest arbitrary: es c)
  case Nil
  then show ?case by simp
next
  case (Cons e rest)
  then show ?case by (cases "en_key e") (auto simp: bind_result_eq_Inr intro: no_tombs_update)
qed

lemma table_set_no_tombs:
  assumes "no_tombs (tb_entries t)" "table_set str t k v = Inr (t', b)"
  shows "no_tombs (tb_entries t')"
proof -
  have "no_tombs (replicate n empty_entry)" for n
    by (simp add: no_tombs_def list_all_iff empty_entry_def IS_NIL_def nil_val_def)
  then have "no_tombs (tb_entries t1)" if "adjust_capacity str t n = Inr t1" for t1 n
    using that rehash_no_tombs [of "replicate n empty_entry"]
    by (fastforce simp: adjust_capacity_def bind_result_eq_Inr)
  moreover from assms(2) obtain t1 where "(if over_load (tb_count t) (tb_capacity t)
      then adjust_capacity str t (GROW_CAPACITY (tb_capacity t)) else Inr t) = Inr t1"
    and "\<exists>i c. t' = t1\<lparr>tb_entries := (tb_entries t1)[i := \<lparr>en_key = Some k, en_value = v\<rparr>], tb_count := c\<rparr>"
    unfolding table_set_def Let_def by (auto elim!: bind_result_InrE)
  ultimately show ?thesis using assms(1) by (auto split: if_splits intro!: no_tombs_update)
qed

lemma find_string_loop_spec:
  assumes "case en_key (es ! slot n h N) of None \<Rightarrow> True | Some k \<Rightarrow> same_chars (str k) chars len"
    and "\<And>d. d < N \<Longrightarrow> \<exists>k. en_key (es ! slot n h d) = Some k \<and> \<not> same_chars (str k) chars len"
  shows "d \<le> N \<Longrightarrow> N - d < fuel \<Longrightarrow>
    find_string_loop fuel str es n chars len (slot n h d) = Inr (en_key (es ! slot n h N))"
proof (induction fuel arbitrary: d)
  case 0
  then show ?case by simp
next
  case (Suc fuel)
  show ?case
  proof (cases "d = N")
    case True
    with assms(1) show ?thesis by (auto split: option.splits)
  next
    case False
    with Suc.prems have "d < N" by simp
    with assms(2) [OF this] Suc show ?thesis by (auto simp: slot_Suc [simplified])
  qed
qed

text \<open>
  Without tombstones the search returns a key with the given characters exactly if one is
  in the table, provided such a key carries the hash of the search.
\<close>

lemma table_find_string_spec:
  assumes inv: "table_inv str t" and nt: "no_tombs (tb_entries t)"
    and hash: "\<And>k. table_abs t k \<noteq> None \<Longrightarrow> same_chars (str k) chars len \<Longrightarrow> vs_hash (str k) = h"
  obtains r where "table_find_string str t chars len h = Inr r"
    "case r of Some k \<Rightarrow> table_abs t k \<noteq> None \<and> same_chars (str k) chars len
     | None \<Rightarrow> (\<forall>k. table_abs t k \<noteq> None \<longrightarrow> \<not> same_chars (str k) chars len)"
proof (cases "tb_entries t = []")
  case True
  with that [of None] show thesis by (simp add: table_find_string_def table_abs_empty)
next
  case False
  let ?es = "tb_entries t" and ?n = "tb_capacity t"
  let ?P = "\<lambda>j. case en_key (?es ! j) of None \<Rightarrow> True | Some k \<Rightarrow> same_chars (str k) chars len"
  have n: "length ?es = ?n" "0 < ?n" using False inv by (auto simp: table_inv_def simp flip: length_greater_0_conv)
  from length_filter_less_ex [OF table_inv_room [OF inv n(2), unfolded in_use_def]] n
  obtain j where "j < ?n" "is_free (?es ! j)" by auto
  then have "j < ?n" "?P j" by (auto simp: is_free_def)
  then obtain N where N: "N < ?n" "?P (slot ?n h N)" "\<And>d. d < N \<Longrightarrow> \<not> ?P (slot ?n h d)"
    using first_slot [of j ?n ?P h] by blast
  let ?r = "en_key (?es ! slot ?n h N)"
  have "find_string_loop (Suc ?n) str ?es ?n chars len (slot ?n h 0) = Inr ?r"
    by (rule find_string_loop_spec [OF N(2)]) (use N in \<open>force split: option.splits\<close>)+
  then have res: "table_find_string str t chars len h = Inr ?r"
    using False n by (simp add: table_find_string_def slot_0)
  have mem: "table_abs t k \<noteq> None \<longleftrightarrow> (\<exists>i < ?n. en_key (?es ! i) = Some k)" for k
    using n(1) by (auto simp: table_abs_def entries_abs_None)
  show thesis
  proof (rule that [OF res], cases ?r)
    case (Some k)
    then show "case ?r of Some k \<Rightarrow> table_abs t k \<noteq> None \<and> same_chars (str k) chars len
      | None \<Rightarrow> (\<forall>k. table_abs t k \<noteq> None \<longrightarrow> \<not> same_chars (str k) chars len)"
      using N(2) mem [of k] slot_less [OF n(2), of h N] by auto
  next
    case None
    have "\<not> same_chars (str k) chars len" if k: "table_abs t k \<noteq> None" for k
    proof
      assume same: "same_chars (str k) chars len"
      from k obtain i where i: "i < ?n" "en_key (?es ! i) = Some k" unfolding mem by blast
      with inv n(1) hash [OF k same] have "probed ?es h i" by (auto simp: table_inv_def chained_def)
      then obtain d where d: "i = slot ?n h d" "\<And>d'. d' < d \<Longrightarrow> \<not> is_free (?es ! slot ?n h d')"
        using n(1) by (auto simp: probed_def)
      have "\<not> d < N" using N(3) [of d] d(1) i(2) same by auto
      moreover have "N \<noteq> d" using None d(1) i(2) by auto
      ultimately have "\<not> is_free (?es ! slot ?n h N)" using d(2) by simp
      moreover have "slot ?n h N < length ?es" using n by simp
      ultimately show False using nt None by (auto simp: no_tombs_def list_all_length is_free_def)
    qed
    with None show "case ?r of Some k \<Rightarrow> table_abs t k \<noteq> None \<and> same_chars (str k) chars len
      | None \<Rightarrow> (\<forall>k. table_abs t k \<noteq> None \<longrightarrow> \<not> same_chars (str k) chars len)" by simp
  qed
qed

section \<open>The properties of the table\<close>

text \<open>Two strings with the same hash code, for the examples.\<close>

definition two_strings :: "nat \<Rightarrow> VmString" where
  "two_strings k = \<lparr>vs_length = 1, vs_chars = (if k = 0 then ''a'' else ''b''), vs_hash = 4\<rparr>"

text \<open>
  C11. Whatever sequence of \<^verbatim>\<open>table_set\<close> and \<^verbatim>\<open>table_delete\<close> calls is made on a new table,
  with whatever hash codes the keys have, every call returns (no probe runs for ever), and
  \<^verbatim>\<open>table_get\<close> then returns what the last call with that key left there.
\<close>

theorem table_refines_map:
  "\<exists>t. table_ops str table_init ops = Inr t
     \<and> table_get str t key = Inr (foldl (\<lambda>m (k, w). m(k := w)) Map.empty ops key)"
proof -
  have all: "list_all ((\<lambda>_. True) \<circ> fst) ops" by (simp add: list_all_iff)
  note r = tbl.replay_inv_abs [OF table_init_inv all, of str]
  have "table_abs table_init = Map.empty" by (simp add: fun_eq_iff table_init_abs)
  with r show ?thesis
    using table_ops_replay [OF table_init_inv, of str ops] by (simp add: table_get_spec)
qed

text \<open>
  C18. \<^verbatim>\<open>table_set\<close> keeps the invariant of the table and returns true exactly for a key that
  was not there; the table is never more than three quarters full, so a free slot remains.
\<close>

theorem table_set_invariant:
  assumes "table_inv str t"
  shows "case table_set str t key v of
      Inr (t', isNewKey) \<Rightarrow> table_inv str t' \<and> isNewKey = (table_abs t key = None)
        \<and> table_abs t' = (table_abs t)(key \<mapsto> v) \<and> in_use (tb_entries t') < tb_capacity t'
    | Inl _ \<Rightarrow> False"
proof -
  note inv = tbl.set_inv [OF assms, of key v] and abs = tbl.set_abs [OF assms, of key v]
  have "table_abs (tset str t key v) key \<noteq> None" using abs by simp
  then have "tb_entries (tset str t key v) \<noteq> []" using table_abs_empty by metis
  then have "in_use (tb_entries (tset str t key v)) < tb_capacity (tset str t key v)"
    using inv table_inv_room [OF inv] by (simp add: table_inv_def flip: length_greater_0_conv)
  with inv abs show ?thesis by (simp add: tset_eq [OF assms])
qed

theorem table_set_invariant_witness:
  "case table_set two_strings table_init 3 VAL_NIL of
      Inr (t', isNewKey) \<Rightarrow> table_inv two_strings t'
        \<and> isNewKey = (table_abs table_init 3 = None)
        \<and> table_abs t' = (table_abs table_init)(3 \<mapsto> VAL_NIL) \<and> in_use (tb_entries t') < tb_capacity t'
    | Inl _ \<Rightarrow> False"
  by (rule table_set_invariant [OF table_init_inv])

text \<open>
  C19. \<^verbatim>\<open>table_add_all\<close> ends and leaves in the target the union of the two tables, with the
  source's values where both have a key.
\<close>

theorem table_add_all_union:
  assumes "table_inv str from" and "table_inv str to"
  shows "\<exists>t'. table_add_all str from to = Inr t' \<and> table_inv str t'
    \<and> table_abs t' = table_abs to ++ table_abs from"
  using add_all_loop_spec [OF assms(2), of "tb_entries from"] assms(1)
  by (simp add: table_add_all_def table_inv_def table_abs_def)

text \<open>Two tables with keys in the same home slot, one key in both.\<close>

definition sample_table :: "(nat \<times> Value option) list \<Rightarrow> Table" where
  "sample_table ops = (case table_ops two_strings table_init ops of Inr t \<Rightarrow> t | Inl _ \<Rightarrow> table_init)"

lemma sample_table_inv: "table_inv two_strings (sample_table ops)"
  using table_ops_replay [OF table_init_inv, of two_strings ops] tbl.replay_inv_abs [OF table_init_inv, of ops two_strings]
  by (simp add: sample_table_def list_all_iff)

definition sample_from :: Table where
  "sample_from = sample_table [(0, Some VAL_NIL), (1, Some (VAL_OBJECT 4))]"

definition sample_to :: Table where
  "sample_to = sample_table [(1, Some VAL_NIL), (2, Some (VAL_OBJECT 5))]"

theorem table_add_all_union_witness:
  "\<exists>t'. table_add_all two_strings sample_from sample_to = Inr t' \<and> table_inv two_strings t'
    \<and> map (table_abs t') [0, 1, 2, 3] = [Some VAL_NIL, Some (VAL_OBJECT 4), Some (VAL_OBJECT 5), None]"
proof -
  have "map (table_abs sample_to ++ table_abs sample_from) [0, 1, 2, 3] = [Some VAL_NIL, Some (VAL_OBJECT 4), Some (VAL_OBJECT 5), None]"
    by code_simp
  moreover have "table_inv two_strings sample_from" "table_inv two_strings sample_to"
    unfolding sample_from_def sample_to_def by (rule sample_table_inv)+
  ultimately show ?thesis using table_add_all_union [of two_strings sample_from sample_to] by metis
qed

text \<open>
  \<^verbatim>\<open>table_find_string\<close> stops at a tombstone, unlike \<^verbatim>\<open>find_entry\<close>: with two keys in the
  same home slot and the first of them deleted, the second is found by \<^verbatim>\<open>table_get\<close> but its
  characters are not found by \<^verbatim>\<open>table_find_string\<close>.
\<close>

theorem find_string_stops_at_tombstone:
  "case table_ops two_strings table_init [(0, Some VAL_NIL), (1, Some VAL_NIL), (0, None)] of
     Inr t \<Rightarrow> table_get two_strings t 1 = Inr (Some VAL_NIL)
       \<and> table_find_string two_strings t ''b'' 1 4 = Inr None
   | Inl _ \<Rightarrow> False"
  by code_simp

end
