(* ===== verification/Clox_Strings.thy ===== *)
theory Clox_Strings
  imports Clox_Table
begin

text \<open>
  The state of the virtual machine (\<^verbatim>\<open>include/vm/vm.h\<close>) and the allocation of objects: the
  functions \<^verbatim>\<open>new_vmobject\<close> to \<^verbatim>\<open>vmstring_take\<close> of \<^verbatim>\<open>src/vm/compiler.c\<close>. Strings are interned:
  the table \<^verbatim>\<open>vm.strings\<close> holds every string object once, so that the rest of the machine
  compares strings by address.
\<close>

section \<open>The machine state\<close>

record CallFrame =
  cf_function :: nat
  cf_ip :: nat
  cf_slots :: nat

text \<open>
  What is written to \<^verbatim>\<open>stderr\<close>: a format string with its integer and string arguments, a line
  of a stack trace (\<open>None\<close> for the script), or a compile error with its line, the place it
  names and its text.
\<close>

datatype err_item =
    Err_Msg string "int list" "string list"
  | Err_Trace int "string option"
  | Err_Compile int string string

text \<open>
  \<^verbatim>\<open>vm_frames\<close> holds \<^verbatim>\<open>frames[frameCount - 1]\<close> down to \<^verbatim>\<open>frames[0]\<close>, \<^verbatim>\<open>vm_stack\<close> the cells below
  \<^verbatim>\<open>stackTop\<close> from the bottom, \<^verbatim>\<open>vm_objects\<close> the head of the object chain, \<^verbatim>\<open>vm_heap\<close> the objects
  by address. The last three fields stand for the world outside the machine: what was
  printed, what was written to \<^verbatim>\<open>stderr\<close>, and the readings of the processor clock to come.
\<close>

record VM =
  vm_frames :: "CallFrame list"
  vm_stack :: "Value list"
  vm_strings :: Table
  vm_globals :: Table
  vm_objects :: "nat option"
  vm_heap :: objects
  vm_out :: "out_item list"
  vm_err :: "err_item list"
  vm_clock :: "int list"

definition FRAMES_MAX :: nat where
  "FRAMES_MAX = 64"

definition BYTE_COUNT :: nat where
  "BYTE_COUNT = 256"

definition STACK_MAX :: nat where
  "STACK_MAX = FRAMES_MAX * BYTE_COUNT"

text \<open>The string a \<^verbatim>\<open>VmString*\<close> points to.\<close>

definition str_of :: "objects \<Rightarrow> nat \<Rightarrow> VmString" where
  "str_of H r = (case as_string H r of Inr s \<Rightarrow> s | Inl _ \<Rightarrow> \<lparr>vs_length = 0, vs_chars = [], vs_hash = 0\<rparr>)"

section \<open>Allocation and interning\<close>

definition new_vmobject :: "VM \<Rightarrow> object_body \<Rightarrow> VM \<times> nat" where
  "new_vmobject vm body =
     (let r = length (vm_heap vm)
      in (vm\<lparr>vm_heap := vm_heap vm @ [\<lparr>ob_next = vm_objects vm, ob_body = body\<rparr>], vm_objects := Some r\<rparr>, r))"

definition vmfunction_new :: "VM \<Rightarrow> VM \<times> nat" where
  "vmfunction_new vm = new_vmobject vm (OBJECT_FUNCTION \<lparr>vf_arity = 0, vf_chunk = chunk_init, vf_name = None\<rparr>)"

definition vmnative_new :: "VM \<Rightarrow> NativeFn \<Rightarrow> VM \<times> nat" where
  "vmnative_new vm fn = new_vmobject vm (OBJECT_NATIVE fn)"

fun hash_string_loop :: "hash \<Rightarrow> string \<Rightarrow> hash" where
  "hash_string_loop h [] = h"
| "hash_string_loop h (c # cs) = hash_string_loop (xor h (of_int (schar c)) * 16777619) cs"

definition hash_string :: "string \<Rightarrow> nat \<Rightarrow> hash" where
  "hash_string s n = hash_string_loop 2166136261 (take n s)"

definition new_vmstring :: "VM \<Rightarrow> string \<Rightarrow> nat \<Rightarrow> hash \<Rightarrow> (VM \<times> nat) result" where
  "new_vmstring vm chars n h =
     (let (vm1, r) = new_vmobject vm (OBJECT_STRING \<lparr>vs_length = n, vs_chars = chars, vs_hash = h\<rparr>)
      in bind_result (table_set (str_of (vm_heap vm1)) (vm_strings vm1) r nil_val)
           (\<lambda>(t, _). Inr (vm1\<lparr>vm_strings := t\<rparr>, r)))"

definition vmstring_copy :: "VM \<Rightarrow> string \<Rightarrow> nat \<Rightarrow> (VM \<times> nat) result" where
  "vmstring_copy vm chars n =
     (let h = hash_string chars n
      in bind_result (table_find_string (str_of (vm_heap vm)) (vm_strings vm) chars n h)
           (\<lambda>interned. case interned of Some r \<Rightarrow> Inr (vm, r)
             | None \<Rightarrow> new_vmstring vm (take n chars) n h))"

definition vmstring_take :: "VM \<Rightarrow> string \<Rightarrow> nat \<Rightarrow> (VM \<times> nat) result" where
  "vmstring_take vm chars n =
     (let h = hash_string chars n
      in bind_result (table_find_string (str_of (vm_heap vm)) (vm_strings vm) chars n h)
           (\<lambda>interned. case interned of Some r \<Rightarrow> Inr (vm, r)
             | None \<Rightarrow> new_vmstring vm chars n h))"

section \<open>The invariant of the heap and the string table\<close>

definition is_str :: "objects \<Rightarrow> nat \<Rightarrow> bool" where
  "is_str H r \<longleftrightarrow> r < length H \<and> (case ob_body (H ! r) of OBJECT_STRING _ \<Rightarrow> True | _ \<Rightarrow> False)"

definition is_fun :: "objects \<Rightarrow> nat \<Rightarrow> bool" where
  "is_fun H r \<longleftrightarrow> r < length H \<and> (case ob_body (H ! r) of OBJECT_FUNCTION _ \<Rightarrow> True | _ \<Rightarrow> False)"

definition good_string :: "VmString \<Rightarrow> bool" where
  "good_string s \<longleftrightarrow> vs_length s = length (vs_chars s) \<and> vs_hash s = hash_string (vs_chars s) (vs_length s)"

definition chain_ok :: "nat option \<Rightarrow> objects \<Rightarrow> bool" where
  "chain_ok head H \<longleftrightarrow> head = (if H = [] then None else Some (length H - 1))
     \<and> (\<forall>i < length H. ob_next (H ! i) = (if i = 0 then None else Some (i - 1)))"

definition interned :: "objects \<Rightarrow> Table \<Rightarrow> bool" where
  "interned H t \<longleftrightarrow> table_inv (str_of H) t \<and> no_tombs (tb_entries t)
     \<and> (\<forall>r. table_abs t r \<noteq> None \<longleftrightarrow> is_str H r)
     \<and> (\<forall>r. is_str H r \<longrightarrow> good_string (str_of H r))
     \<and> (\<forall>r q. is_str H r \<longrightarrow> is_str H q \<longrightarrow> vs_chars (str_of H r) = vs_chars (str_of H q) \<longrightarrow> r = q)"

definition heap_inv :: "VM \<Rightarrow> bool" where
  "heap_inv vm \<longleftrightarrow> chain_ok (vm_objects vm) (vm_heap vm) \<and> interned (vm_heap vm) (vm_strings vm)"

lemma str_of_nth: "is_str H r \<Longrightarrow> ob_body (H ! r) = OBJECT_STRING (str_of H r)"
  by (auto simp: is_str_def str_of_def as_string_def object_at_def split: object_body.splits)

lemma as_string_is_str: "is_str H r \<Longrightarrow> as_string H r = Inr (str_of H r)"
  by (auto simp: is_str_def str_of_def as_string_def object_at_def split: object_body.splits)

lemma str_of_append [simp]: "r < length H \<Longrightarrow> str_of (H @ T) r = str_of H r"
  by (simp add: str_of_def as_string_def object_at_def nth_append)

lemma is_str_append: "is_str (H @ [b]) r \<longleftrightarrow>
    is_str H r \<or> r = length H \<and> (case ob_body b of OBJECT_STRING _ \<Rightarrow> True | _ \<Rightarrow> False)"
  by (auto simp: is_str_def nth_append less_Suc_eq split: object_body.splits)

lemma is_str_length: "is_str H r \<Longrightarrow> r < length H"
  by (simp add: is_str_def)

lemma chain_ok_new: "chain_ok head H \<Longrightarrow> chain_ok (Some (length H)) (H @ [\<lparr>ob_next = head, ob_body = b\<rparr>])"
  by (auto simp: chain_ok_def nth_append less_Suc_eq)

text \<open>An object that is not a string leaves the string table valid.\<close>

lemma interned_new_other:
  assumes "interned H t" and "\<not> is_str (H @ [b]) (length H)"
  shows "interned (H @ [b]) t"
proof -
  have same: "is_str (H @ [b]) r \<longleftrightarrow> is_str H r" for r
    using assms(2) by (auto simp: is_str_append is_str_length split: object_body.splits)
  have str: "is_str H r \<Longrightarrow> str_of (H @ [b]) r = str_of H r" for r by (simp add: is_str_length)
  have "table_inv (str_of (H @ [b])) t"
    by (rule table_inv_cong [of "str_of H"]) (use assms(1) str in \<open>auto simp: interned_def\<close>)
  with assms(1) same str show ?thesis by (simp add: interned_def)
qed

lemma same_chars_iff:
  assumes "good_string s" "n \<le> length chars"
  shows "same_chars s chars n \<longleftrightarrow> vs_chars s = take n chars"
  using assms by (auto simp: same_chars_def good_string_def)

lemma hash_string_take: "hash_string (take n s) n = hash_string s n"
  by (simp add: hash_string_def)

text \<open>The search for the characters finds the string object that has them, if there is one.\<close>

lemma find_string_interned:
  assumes "interned H t" and n: "n \<le> length chars"
  obtains r where "table_find_string (str_of H) t chars n (hash_string chars n) = Inr r"
    "case r of Some k \<Rightarrow> is_str H k \<and> vs_chars (str_of H k) = take n chars
     | None \<Rightarrow> (\<forall>k. is_str H k \<longrightarrow> vs_chars (str_of H k) \<noteq> take n chars)"
proof -
  note i = assms(1) [unfolded interned_def]
  have good: "table_abs t k \<noteq> None \<Longrightarrow> good_string (str_of H k) \<and> is_str H k" for k using i by blast
  have same: "same_chars (str_of H k) chars n \<longleftrightarrow> vs_chars (str_of H k) = take n chars" if "table_abs t k \<noteq> None" for k
    using same_chars_iff [OF _ n] good [OF that] by blast
  obtain r where r: "table_find_string (str_of H) t chars n (hash_string chars n) = Inr r"
    "case r of Some k \<Rightarrow> table_abs t k \<noteq> None \<and> same_chars (str_of H k) chars n
     | None \<Rightarrow> (\<forall>k. table_abs t k \<noteq> None \<longrightarrow> \<not> same_chars (str_of H k) chars n)"
  proof (rule table_find_string_spec [of "str_of H" t chars n "hash_string chars n"])
    show "vs_hash (str_of H k) = hash_string chars n"
      if "table_abs t k \<noteq> None" "same_chars (str_of H k) chars n" for k
      using that good [of k] same [of k] hash_string_take [of n chars] n by (auto simp: good_string_def)
  qed (use i in auto)
  then show thesis using that [of r] i same by (auto split: option.splits)
qed

lemma new_vmobject_heap:
  assumes "new_vmobject vm b = (vm', r)"
  shows "vm_heap vm' = vm_heap vm @ [\<lparr>ob_next = vm_objects vm, ob_body = b\<rparr>]" "r = length (vm_heap vm)"
    "vm_objects vm' = Some r" "vm_strings vm' = vm_strings vm" "vm_globals vm' = vm_globals vm"
    "vm_stack vm' = vm_stack vm" "vm_frames vm' = vm_frames vm"
  using assms by (auto simp: new_vmobject_def Let_def)

lemma new_other_inv:
  assumes "heap_inv vm" "new_vmobject vm b = (vm', r)" "\<And>s. b \<noteq> OBJECT_STRING s"
  shows "heap_inv vm'"
proof -
  note h = new_vmobject_heap [OF assms(2)]
  have "\<not> is_str (vm_heap vm') (length (vm_heap vm))"
    using assms(3) by (simp add: h is_str_def split: object_body.splits)
  with assms(1) show ?thesis by (simp add: heap_inv_def h chain_ok_new interned_new_other)
qed

text \<open>Only the heap, its chain and the string table change, and the new objects are strings.\<close>

definition only_allocates :: "VM \<Rightarrow> VM \<Rightarrow> bool" where
  "only_allocates vm vm' \<longleftrightarrow>
     (\<exists>T. vm_heap vm' = vm_heap vm @ T \<and> (\<forall>b \<in> set T. \<exists>s. ob_body b = OBJECT_STRING s))
     \<and> vm_globals vm' = vm_globals vm \<and> vm_stack vm' = vm_stack vm \<and> vm_frames vm' = vm_frames vm"

lemma only_allocates_refl [simp]: "only_allocates vm vm"
  by (simp add: only_allocates_def)

lemma only_allocates_trans:
  assumes "only_allocates a b" "only_allocates b c"
  shows "only_allocates a c"
proof -
  from assms obtain T U where "vm_heap b = vm_heap a @ T" "vm_heap c = vm_heap b @ U"
    "\<forall>b \<in> set T. \<exists>s. ob_body b = OBJECT_STRING s" "\<forall>b \<in> set U. \<exists>s. ob_body b = OBJECT_STRING s"
    by (auto simp: only_allocates_def)
  then have "vm_heap c = vm_heap a @ (T @ U) \<and> (\<forall>b \<in> set (T @ U). \<exists>s. ob_body b = OBJECT_STRING s)" by auto
  with assms show ?thesis unfolding only_allocates_def by metis
qed

lemma only_allocates_length: "only_allocates vm vm' \<Longrightarrow> length (vm_heap vm) \<le> length (vm_heap vm')"
  by (auto simp: only_allocates_def)

lemma only_allocates_nth: "only_allocates vm vm' \<Longrightarrow> r < length (vm_heap vm) \<Longrightarrow> vm_heap vm' ! r = vm_heap vm ! r"
  by (auto simp: only_allocates_def nth_append)

lemma only_allocates_is_fun:
  assumes "only_allocates vm vm'"
  shows "is_fun (vm_heap vm') r \<longleftrightarrow> is_fun (vm_heap vm) r"
proof (cases "r < length (vm_heap vm)")
  case True
  with only_allocates_length [OF assms] only_allocates_nth [OF assms True] show ?thesis by (simp add: is_fun_def)
next
  case False
  from assms obtain T where T: "vm_heap vm' = vm_heap vm @ T" "\<forall>b \<in> set T. \<exists>s. ob_body b = OBJECT_STRING s"
    by (auto simp: only_allocates_def)
  have "\<not> is_fun (vm_heap vm') r"
  proof
    assume f: "is_fun (vm_heap vm') r"
    then have "vm_heap vm' ! r \<in> set T" using False T(1) by (auto simp: is_fun_def nth_append intro!: nth_mem)
    with T(2) f show False by (auto simp: is_fun_def)
  qed
  with False show ?thesis by (simp add: is_fun_def)
qed

lemma only_allocates_str:
  assumes "only_allocates vm vm'" "is_str (vm_heap vm) r"
  shows "is_str (vm_heap vm') r" "str_of (vm_heap vm') r = str_of (vm_heap vm) r"
  using assms by (auto simp: only_allocates_def is_str_def nth_append)

lemma new_vmstring_spec:
  assumes inv: "heap_inv vm" and good: "n = length chars" "h = hash_string chars n"
    and fresh: "\<And>k. is_str (vm_heap vm) k \<Longrightarrow> vs_chars (str_of (vm_heap vm) k) \<noteq> chars"
  obtains vm' where "new_vmstring vm chars n h = Inr (vm', length (vm_heap vm))" "heap_inv vm'"
    "only_allocates vm vm'" "is_str (vm_heap vm') (length (vm_heap vm))"
    "str_of (vm_heap vm') (length (vm_heap vm)) = \<lparr>vs_length = n, vs_chars = chars, vs_hash = h\<rparr>"
proof -
  let ?H = "vm_heap vm" and ?t = "vm_strings vm" and ?r = "length (vm_heap vm)"
  let ?s = "\<lparr>vs_length = n, vs_chars = chars, vs_hash = h\<rparr>"
  obtain vm1 where vm1: "new_vmobject vm (OBJECT_STRING ?s) = (vm1, ?r)" by (simp add: new_vmobject_def Let_def)
  note h = new_vmobject_heap(1,3-7) [OF vm1]
  let ?H1 = "vm_heap vm1"
  have is1: "is_str ?H1 r \<longleftrightarrow> is_str ?H r \<or> r = ?r" for r by (auto simp: h is_str_append)
  have s1: "str_of ?H1 ?r = ?s" by (simp add: h str_of_def as_string_def object_at_def)
  have s0: "is_str ?H r \<Longrightarrow> str_of ?H1 r = str_of ?H r" for r by (simp add: h is_str_length)
  note i = inv [unfolded heap_inv_def interned_def]
  have "table_inv (str_of ?H1) ?t"
    by (rule table_inv_cong [of "str_of ?H"]) (use i s0 in auto)
  then obtain t' where t': "table_set (str_of ?H1) ?t ?r nil_val = Inr (t', table_abs ?t ?r = None)"
    "table_inv (str_of ?H1) t'" "table_abs t' = (table_abs ?t)(?r \<mapsto> nil_val)" by (rule table_set_spec)
  let ?vm = "vm1\<lparr>vm_strings := t'\<rparr>"
  have "new_vmstring vm chars n h = Inr (?vm, ?r)"
    using t'(1) by (simp add: new_vmstring_def vm1 h(3))
  moreover have "interned ?H1 t'"
    unfolding interned_def
  proof (intro conjI allI impI)
    show "no_tombs (tb_entries t')" by (rule table_set_no_tombs [OF _ t'(1)]) (use i in blast)
    show "(table_abs t' r \<noteq> None) = is_str ?H1 r" for r using t'(3) i by (auto simp: is1)
    show "good_string (str_of ?H1 r)" if "is_str ?H1 r" for r
    proof (cases "r = ?r")
      case True
      then show ?thesis using s1 good by (simp add: good_string_def)
    next
      case False
      with that have "is_str ?H r" by (simp add: is1)
      then show ?thesis using i s0 by metis
    qed
    show "r = q" if "is_str ?H1 r" "is_str ?H1 q" "vs_chars (str_of ?H1 r) = vs_chars (str_of ?H1 q)" for r q
    proof (cases "r = ?r \<or> q = ?r")
      case True
      with that fresh [of r] fresh [of q] s0 [of r] s0 [of q] s1 show ?thesis by (auto simp: is1)
    next
      case False
      with that have "is_str ?H r" "is_str ?H q" by (simp_all add: is1)
      with that(3) i s0 [of r] s0 [of q] show ?thesis by simp
    qed
  qed (rule t'(2))
  then have "heap_inv ?vm" using i by (simp add: heap_inv_def h chain_ok_new)
  ultimately show thesis using that [of ?vm] is1 s1 by (simp add: only_allocates_def h)
qed

lemma vmstring_copy_spec:
  assumes inv: "heap_inv vm" and n: "n \<le> length chars"
  obtains vm' r where "vmstring_copy vm chars n = Inr (vm', r)" "heap_inv vm'" "only_allocates vm vm'"
    "is_str (vm_heap vm') r" "vs_chars (str_of (vm_heap vm') r) = take n chars"
proof -
  from inv have "interned (vm_heap vm) (vm_strings vm)" by (simp add: heap_inv_def)
  then obtain k where k:
    "table_find_string (str_of (vm_heap vm)) (vm_strings vm) chars n (hash_string chars n) = Inr k"
    "case k of Some k \<Rightarrow> is_str (vm_heap vm) k \<and> vs_chars (str_of (vm_heap vm) k) = take n chars
     | None \<Rightarrow> (\<forall>k. is_str (vm_heap vm) k \<longrightarrow> vs_chars (str_of (vm_heap vm) k) \<noteq> take n chars)"
    using n by (rule find_string_interned)
  show thesis
  proof (cases k)
    case (Some r)
    with k that [of vm r] inv show thesis by (simp add: vmstring_copy_def Let_def)
  next
    case None
    with k have "\<And>r. is_str (vm_heap vm) r \<Longrightarrow> vs_chars (str_of (vm_heap vm) r) \<noteq> take n chars" by simp
    moreover have "n = length (take n chars)" "hash_string chars n = hash_string (take n chars) n"
      using n by (simp_all add: hash_string_take)
    ultimately obtain vm' where v: "new_vmstring vm (take n chars) n (hash_string chars n) = Inr (vm', length (vm_heap vm))" "heap_inv vm'"
      "only_allocates vm vm'" "is_str (vm_heap vm') (length (vm_heap vm))"
      "str_of (vm_heap vm') (length (vm_heap vm)) = \<lparr>vs_length = n, vs_chars = take n chars, vs_hash = hash_string chars n\<rparr>"
      using new_vmstring_spec [OF inv] by metis
    with k None show thesis by (intro that [of vm' "length (vm_heap vm)"]) (simp_all add: vmstring_copy_def Let_def)
  qed
qed

lemma vmstring_take_copy: "n = length chars \<Longrightarrow> vmstring_take vm chars n = vmstring_copy vm chars n"
  by (simp add: vmstring_take_def vmstring_copy_def)

section \<open>The interning interface\<close>

text \<open>
  The contract of a pool of interned strings: asking for some characters yields a reference
  to them, references keep their characters, and no two references have the same ones.
\<close>

locale interning =
  fixes inv :: "'s \<Rightarrow> bool"
    and content :: "'s \<Rightarrow> 'r \<Rightarrow> string option"
    and intern :: "'s \<Rightarrow> string \<Rightarrow> ('s \<times> 'r) result"
  assumes intern_ok: "inv s \<Longrightarrow> \<exists>s' r. intern s cs = Inr (s', r) \<and> inv s' \<and> content s' r = Some cs
      \<and> (\<forall>q. content s q \<noteq> None \<longrightarrow> content s' q = content s q)"
    and content_inj: "inv s \<Longrightarrow> content s r = Some cs \<Longrightarrow> content s q = Some cs \<Longrightarrow> r = q"
begin

fun intern_all :: "'s \<Rightarrow> string list \<Rightarrow> ('s \<times> 'r list) result" where
  "intern_all s [] = Inr (s, [])"
| "intern_all s (cs # css) = bind_result (intern s cs)
     (\<lambda>(s', r). bind_result (intern_all s' css) (\<lambda>(s'', rs). Inr (s'', r # rs)))"

lemma intern_again:
  assumes "inv s" "content s r = Some cs"
  shows "\<exists>s'. intern s cs = Inr (s', r) \<and> inv s'"
proof -
  from intern_ok [OF assms(1), of cs] obtain s' q where "intern s cs = Inr (s', q)" "inv s'" "content s' q = Some cs"
    "content s' r = Some cs" using assms(2) by auto
  with content_inj show ?thesis by blast
qed

lemma intern_all_ok:
  "inv s \<Longrightarrow> \<exists>s' rs. intern_all s css = Inr (s', rs) \<and> inv s' \<and> map (content s') rs = map Some css
     \<and> (\<forall>q. content s q \<noteq> None \<longrightarrow> content s' q = content s q)"
proof (induction css arbitrary: s)
  case Nil
  then show ?case by simp
next
  case (Cons cs css)
  from intern_ok [OF Cons.prems, of cs] obtain s1 r where s1: "intern s cs = Inr (s1, r)" "inv s1"
    "content s1 r = Some cs" "\<forall>q. content s q \<noteq> None \<longrightarrow> content s1 q = content s q" by blast
  from Cons.IH [OF s1(2)] obtain s2 rs where s2: "intern_all s1 css = Inr (s2, rs)" "inv s2"
    "map (content s2) rs = map Some css" "\<forall>q. content s1 q \<noteq> None \<longrightarrow> content s2 q = content s1 q" by blast
  then have "content s2 r = Some cs" using s1(3) by simp
  with s1 s2 show ?case by simp
qed

text \<open>References are equal exactly when the characters are.\<close>

lemma intern_all_faithful:
  assumes "inv s"
  shows "\<exists>s' f. intern_all s css = Inr (s', map f css) \<and> inv s' \<and> inj_on f (set css)"
proof -
  from intern_all_ok [OF assms] obtain s' rs where s': "intern_all s css = Inr (s', rs)" "inv s'"
    "map (content s') rs = map Some css" by blast
  define f where "f cs = (SOME r. content s' r = Some cs)" for cs
  have f: "content s' r = Some cs \<Longrightarrow> f cs = r" for r cs
    unfolding f_def using content_inj [OF s'(2)] by (metis (mono_tags, lifting) someI)
  have "rs = map f css" using s'(3)
    by (induction rs arbitrary: css) (auto simp: f Cons_eq_map_conv map_eq_Cons_conv)
  moreover have "inj_on f (set css)"
  proof (rule inj_onI)
    fix x y
    assume "x \<in> set css" "y \<in> set css" "f x = f y"
    moreover have "\<exists>r. content s' r = Some z" if "z \<in> set css" for z
      using that s'(3) by (metis imageE image_eqI list.set_map)
    ultimately show "x = y" using f by (metis option.inject)
  qed
  ultimately show ?thesis using s' by blast
qed

end

definition vm_content :: "VM \<Rightarrow> nat \<Rightarrow> string option" where
  "vm_content vm r = (if is_str (vm_heap vm) r then Some (vs_chars (str_of (vm_heap vm) r)) else None)"

definition copy_whole :: "VM \<Rightarrow> string \<Rightarrow> (VM \<times> nat) result" where
  "copy_whole vm cs = vmstring_copy vm cs (length cs)"

interpretation vm_pool: interning heap_inv vm_content copy_whole
proof
  fix vm cs
  assume "heap_inv vm"
  then obtain vm' r where "copy_whole vm cs = Inr (vm', r)" "heap_inv vm'" "only_allocates vm vm'"
    "is_str (vm_heap vm') r" "vs_chars (str_of (vm_heap vm') r) = take (length cs) cs"
    unfolding copy_whole_def by (rule vmstring_copy_spec [OF _ order_refl])
  then show "\<exists>vm' r. copy_whole vm cs = Inr (vm', r) \<and> heap_inv vm' \<and> vm_content vm' r = Some cs
      \<and> (\<forall>q. vm_content vm q \<noteq> None \<longrightarrow> vm_content vm' q = vm_content vm q)"
    by (auto simp: vm_content_def only_allocates_str)
next
  fix vm r cs q
  assume "heap_inv vm" "vm_content vm r = Some cs" "vm_content vm q = Some cs"
  then show "r = q" by (auto simp: heap_inv_def interned_def vm_content_def split: if_splits)
qed

section \<open>The properties of the object heap\<close>

definition empty_vm :: VM where
  "empty_vm = \<lparr>vm_frames = [], vm_stack = [], vm_strings = table_init, vm_globals = table_init,
     vm_objects = None, vm_heap = [], vm_out = [], vm_err = [], vm_clock = []\<rparr>"

lemma empty_vm_inv: "heap_inv empty_vm"
  by (simp add: heap_inv_def empty_vm_def chain_ok_def interned_def is_str_def table_init_inv table_init_abs)
    (simp add: no_tombs_def table_init_def)

text \<open>
  C12. Interning: a sequence of \<^verbatim>\<open>vmstring_copy\<close> calls on a heap that satisfies the invariant
  always returns, keeps the invariant, and gives two of the strings the same address exactly
  when they have the same characters. This is what makes comparing addresses in
  \<^verbatim>\<open>values_equal\<close> and in the globals table a comparison of strings.
\<close>

theorem interning_is_faithful:
  assumes "heap_inv vm"
  shows "\<exists>vm' f. foldl (\<lambda>res cs. bind_result res (\<lambda>(vm, rs).
        bind_result (vmstring_copy vm cs (length cs)) (\<lambda>(vm', r). Inr (vm', rs @ [r])))) (Inr (vm, [])) css
      = Inr (vm', map f css) \<and> heap_inv vm' \<and> inj_on f (set css)"
proof -
  have *: "foldl (\<lambda>res cs. bind_result res (\<lambda>(vm, rs).
        bind_result (vmstring_copy vm cs (length cs)) (\<lambda>(vm', r). Inr (vm', rs @ [r])))) (Inr (vm, rs)) css
      = bind_result (vm_pool.intern_all vm css) (\<lambda>(vm', rs'). Inr (vm', rs @ rs'))" if "heap_inv vm" for vm rs
    using that
  proof (induction css arbitrary: vm rs)
    case Nil
    then show ?case by simp
  next
    case (Cons cs css)
    from vm_pool.intern_ok [OF Cons.prems, of cs] obtain vm1 r where
      c: "copy_whole vm cs = Inr (vm1, r)" "heap_inv vm1" by blast
    then have "vmstring_copy vm cs (length cs) = Inr (vm1, r)" by (simp add: copy_whole_def)
    with Cons.IH [of vm1 "rs @ [r]"] c show ?case
      by (simp add: bind_result_assoc case_prod_beta)
  qed
  from vm_pool.intern_all_faithful [OF assms, of css] * [OF assms, of "[]"] show ?thesis by auto
qed

theorem interning_is_faithful_witness:
  "\<exists>vm' f. foldl (\<lambda>res cs. bind_result res (\<lambda>(vm, rs).
        bind_result (vmstring_copy vm cs (length cs)) (\<lambda>(vm', r). Inr (vm', rs @ [r])))) (Inr (empty_vm, [])) [''a'', ''b'', ''a'']
      = Inr (vm', map f [''a'', ''b'', ''a'']) \<and> heap_inv vm' \<and> inj_on f (set [''a'', ''b'', ''a''])"
  by (rule interning_is_faithful [OF empty_vm_inv])

lemma objects_free_chain:
  assumes "chain_ok head H"
  shows "i \<le> length H \<Longrightarrow> i \<le> fuel \<Longrightarrow>
    objects_free fuel H (if i = 0 then None else Some (i - 1))
      = Inr (concat (map (\<lambda>r. object_free r (ob_body (H ! r))) (rev [0..<i])))"
proof (induction i arbitrary: fuel)
  case 0
  then show ?case by simp
next
  case (Suc i)
  then obtain f where f: "fuel = Suc f" "i \<le> f" by (cases fuel) auto
  have "ob_next (H ! i) = (if i = 0 then None else Some (i - 1))" using assms Suc.prems by (simp add: chain_ok_def)
  with Suc f show ?case by simp
qed

text \<open>
  C30. \<^verbatim>\<open>objects_free\<close> ends and releases every object of the heap exactly once, newest first.
\<close>

theorem objects_free_all:
  assumes "heap_inv vm"
  shows "case objects_free (length (vm_heap vm)) (vm_heap vm) (vm_objects vm) of
      Inr bs \<Rightarrow> filter (\<lambda>b. case b of Object _ \<Rightarrow> True | _ \<Rightarrow> False) bs = map Object (rev [0..<length (vm_heap vm)])
    | Inl _ \<Rightarrow> False"
proof -
  let ?H = "vm_heap vm"
  have chain: "chain_ok (vm_objects vm) ?H" using assms by (simp add: heap_inv_def)
  then have "vm_objects vm = (if length ?H = 0 then None else Some (length ?H - 1))" by (simp add: chain_ok_def)
  with objects_free_chain [OF chain, of "length ?H" "length ?H"]
  have "objects_free (length ?H) ?H (vm_objects vm)
      = Inr (concat (map (\<lambda>r. object_free r (ob_body (?H ! r))) (rev [0..<length ?H])))" by simp
  moreover have "filter (\<lambda>b. case b of Object _ \<Rightarrow> True | _ \<Rightarrow> False)
      (concat (map (\<lambda>r. object_free r (ob_body (?H ! r))) rs)) = map Object rs" for rs
    by (induction rs) (auto simp: object_free_def split: object_body.splits)
  ultimately show ?thesis by simp
qed

theorem objects_free_all_witness:
  "case objects_free (length (vm_heap (fst (vmfunction_new empty_vm)))) (vm_heap (fst (vmfunction_new empty_vm)))
        (vm_objects (fst (vmfunction_new empty_vm))) of
      Inr bs \<Rightarrow> filter (\<lambda>b. case b of Object _ \<Rightarrow> True | _ \<Rightarrow> False) bs
        = map Object (rev [0..<length (vm_heap (fst (vmfunction_new empty_vm)))])
    | Inl _ \<Rightarrow> False"
  by (rule objects_free_all)
    (rule new_other_inv [OF empty_vm_inv, of "OBJECT_FUNCTION \<lparr>vf_arity = 0, vf_chunk = chunk_init, vf_name = None\<rparr>" _ 0],
      simp_all add: vmfunction_new_def new_vmobject_def empty_vm_def Let_def)

end
