(* ===== verification/Clox_Safety.thy ===== *)
theory Clox_Safety
  imports Clox_Vm
begin

text \<open>
  A bytecode verifier for the virtual machine and its soundness. \<open>check_function\<close> is an
  executable check of a function against a table that gives the height of the stack above
  the frame's base at every instruction that can be reached. \<open>vm_ok\<close> is the invariant of
  machines whose functions are all checked. Each step of the machine from such a state
  succeeds and keeps the invariant, so no run of checked code reads outside a chunk, pops
  an empty stack, pushes on a full one or uses an object at the wrong type.
\<close>

section \<open>The verifier\<close>

type_synonym heights = "nat option list"

definition at_height :: "heights \<Rightarrow> nat \<Rightarrow> nat \<Rightarrow> bool" where
  "at_height hm i h \<longleftrightarrow> i < length hm \<and> hm ! i = Some h"

definition val_ok :: "objects \<Rightarrow> Value \<Rightarrow> bool" where
  "val_ok H v \<longleftrightarrow> (case v of VAL_OBJECT r \<Rightarrow> r < length H | _ \<Rightarrow> True)"

definition str_const :: "objects \<Rightarrow> Value list \<Rightarrow> nat \<Rightarrow> bool" where
  "str_const H K k \<longleftrightarrow> k < length K \<and> (case K ! k of VAL_OBJECT r \<Rightarrow> is_str H r | _ \<Rightarrow> False)"

definition short_at :: "byte list \<Rightarrow> nat \<Rightarrow> nat" where
  "short_at code i = unat (or (push_bit 8 (ucast (code ! i) :: short)) (ucast (code ! Suc i)))"

text \<open>What an instruction needs at height \<open>h\<close>; \<open>j\<close> is the offset behind its opcode.\<close>

fun instr_ok :: "objects \<Rightarrow> Value list \<Rightarrow> byte list \<Rightarrow> heights \<Rightarrow> OpCode \<Rightarrow> nat \<Rightarrow> nat \<Rightarrow> bool" where
  "instr_ok H K code hm OP_RETURN j h = (1 \<le> h)"
| "instr_ok H K code hm OP_CONSTANT j h =
     (j < length code \<and> unat (code ! j) < length K \<and> h < BYTE_COUNT \<and> at_height hm (Suc j) (Suc h))"
| "instr_ok H K code hm OP_NIL j h = (h < BYTE_COUNT \<and> at_height hm j (Suc h))"
| "instr_ok H K code hm OP_TRUE j h = (h < BYTE_COUNT \<and> at_height hm j (Suc h))"
| "instr_ok H K code hm OP_FALSE j h = (h < BYTE_COUNT \<and> at_height hm j (Suc h))"
| "instr_ok H K code hm OP_NOT j h = (1 \<le> h \<and> at_height hm j h)"
| "instr_ok H K code hm OP_NEGATE j h = (1 \<le> h \<and> at_height hm j h)"
| "instr_ok H K code hm OP_EQUAL j h = (2 \<le> h \<and> at_height hm j (h - 1))"
| "instr_ok H K code hm OP_GREATER j h = (2 \<le> h \<and> at_height hm j (h - 1))"
| "instr_ok H K code hm OP_LESS j h = (2 \<le> h \<and> at_height hm j (h - 1))"
| "instr_ok H K code hm OP_ADD j h = (2 \<le> h \<and> at_height hm j (h - 1))"
| "instr_ok H K code hm OP_SUBTRACT j h = (2 \<le> h \<and> at_height hm j (h - 1))"
| "instr_ok H K code hm OP_MULTIPLY j h = (2 \<le> h \<and> at_height hm j (h - 1))"
| "instr_ok H K code hm OP_DIVIDE j h = (2 \<le> h \<and> at_height hm j (h - 1))"
| "instr_ok H K code hm OP_PRINT j h = (1 \<le> h \<and> at_height hm j (h - 1))"
| "instr_ok H K code hm OP_POP j h = (1 \<le> h \<and> at_height hm j (h - 1))"
| "instr_ok H K code hm OP_JUMP j h =
     (Suc j < length code \<and> at_height hm (j + 2 + short_at code j) h)"
| "instr_ok H K code hm OP_JUMP_IF_FALSE j h =
     (1 \<le> h \<and> Suc j < length code \<and> at_height hm (j + 2) h \<and> at_height hm (j + 2 + short_at code j) h)"
| "instr_ok H K code hm OP_LOOP j h =
     (Suc j < length code \<and> short_at code j \<le> j + 2 \<and> at_height hm (j + 2 - short_at code j) h)"
| "instr_ok H K code hm OP_DEFINE_GLOBAL j h =
     (j < length code \<and> str_const H K (unat (code ! j)) \<and> 1 \<le> h \<and> at_height hm (Suc j) (h - 1))"
| "instr_ok H K code hm OP_GET_GLOBAL j h =
     (j < length code \<and> str_const H K (unat (code ! j)) \<and> h < BYTE_COUNT \<and> at_height hm (Suc j) (Suc h))"
| "instr_ok H K code hm OP_SET_GLOBAL j h =
     (j < length code \<and> str_const H K (unat (code ! j)) \<and> 1 \<le> h \<and> at_height hm (Suc j) h)"
| "instr_ok H K code hm OP_GET_LOCAL j h =
     (j < length code \<and> unat (code ! j) < h \<and> h < BYTE_COUNT \<and> at_height hm (Suc j) (Suc h))"
| "instr_ok H K code hm OP_SET_LOCAL j h =
     (j < length code \<and> unat (code ! j) < h \<and> at_height hm (Suc j) h)"
| "instr_ok H K code hm OP_CALL j h =
     (j < length code \<and> unat (code ! j) < h \<and> at_height hm (Suc j) (h - unat (code ! j)))"

definition check_code :: "objects \<Rightarrow> Value list \<Rightarrow> byte list \<Rightarrow> heights \<Rightarrow> nat \<Rightarrow> bool" where
  "check_code H K code hm arity \<longleftrightarrow>
     length hm = length code \<and> at_height hm 0 (Suc arity)
     \<and> list_all (\<lambda>i. case hm ! i of None \<Rightarrow> True
         | Some h \<Rightarrow> h \<le> BYTE_COUNT \<and> (case decode_op (code ! i) of None \<Rightarrow> False
             | Some op \<Rightarrow> instr_ok H K code hm op (Suc i) h)) [0..<length code]"

definition check_function :: "objects \<Rightarrow> VmFunction \<Rightarrow> heights \<Rightarrow> bool" where
  "check_function H f hm \<longleftrightarrow>
     chunk_inv (vf_chunk f) \<and> 0 \<le> vf_arity f
     \<and> check_code H (consts_of (vf_chunk f)) (code_of (vf_chunk f)) hm (nat (vf_arity f))
     \<and> list_all (val_ok H) (consts_of (vf_chunk f))
     \<and> (case vf_name f of None \<Rightarrow> True | Some r \<Rightarrow> is_str H r)"

section \<open>The invariant\<close>

definition fun_of :: "objects \<Rightarrow> nat \<Rightarrow> VmFunction" where
  "fun_of H r = (case as_function H r of Inr f \<Rightarrow> f | Inl _ \<Rightarrow> \<lparr>vf_arity = 0, vf_chunk = chunk_init, vf_name = None\<rparr>)"

abbreviation fcode :: "objects \<Rightarrow> nat \<Rightarrow> byte list" where
  "fcode H r \<equiv> code_of (vf_chunk (fun_of H r))"

abbreviation fconsts :: "objects \<Rightarrow> nat \<Rightarrow> Value list" where
  "fconsts H r \<equiv> consts_of (vf_chunk (fun_of H r))"

text \<open>
  The frames below the top one, seen from above: \<open>sp\<close> is where the stack will end when the
  frame above has returned its result. The script's frame leaves room for it near the
  bottom of the stack.
\<close>

fun frames_ok :: "(nat \<Rightarrow> heights) \<Rightarrow> objects \<Rightarrow> CallFrame list \<Rightarrow> nat \<Rightarrow> bool" where
  "frames_ok C H [] sp = (sp \<le> FRAMES_MAX)"
| "frames_ok C H (f # fs) sp \<longleftrightarrow>
     is_fun H (cf_function f) \<and> 0 < cf_ip f \<and> cf_slots f \<le> sp
     \<and> at_height (C (cf_function f)) (cf_ip f) (sp - cf_slots f)
     \<and> frames_ok C H fs (Suc (cf_slots f))"

text \<open>Everything about a machine except its frames and stack.\<close>

definition world_ok :: "(nat \<Rightarrow> heights) \<Rightarrow> VM \<Rightarrow> bool" where
  "world_ok C vm \<longleftrightarrow> heap_inv vm
     \<and> (\<forall>r. is_fun (vm_heap vm) r \<longrightarrow> check_function (vm_heap vm) (fun_of (vm_heap vm) r) (C r))
     \<and> table_inv (str_of (vm_heap vm)) (vm_globals vm)
     \<and> (\<forall>k v. table_abs (vm_globals vm) k = Some v \<longrightarrow> is_str (vm_heap vm) k \<and> val_ok (vm_heap vm) v)"

text \<open>
  The machine while it executes an instruction of function \<open>fn\<close>, with instruction pointer
  \<open>ip\<close> and \<open>h\<close> values above the frame's base.
\<close>

definition mid :: "(nat \<Rightarrow> heights) \<Rightarrow> VM \<Rightarrow> nat \<Rightarrow> nat \<Rightarrow> nat \<Rightarrow> bool" where
  "mid C vm fn ip h \<longleftrightarrow> world_ok C vm \<and> list_all (val_ok (vm_heap vm)) (vm_stack vm)
     \<and> length (vm_frames vm) \<le> FRAMES_MAX \<and> is_fun (vm_heap vm) fn
     \<and> ip \<le> length (fcode (vm_heap vm) fn) \<and> h \<le> BYTE_COUNT
     \<and> (\<exists>slots fs. vm_frames vm = \<lparr>cf_function = fn, cf_ip = ip, cf_slots = slots\<rparr> # fs
          \<and> length (vm_stack vm) = slots + h \<and> frames_ok C (vm_heap vm) fs (Suc slots))"

text \<open>A machine between two instructions, or with no frame at all.\<close>

definition vm_ok :: "(nat \<Rightarrow> heights) \<Rightarrow> VM \<Rightarrow> bool" where
  "vm_ok C vm \<longleftrightarrow> (case vm_frames vm of
       [] \<Rightarrow> world_ok C vm \<and> list_all (val_ok (vm_heap vm)) (vm_stack vm)
     | f # _ \<Rightarrow> (\<exists>h. mid C vm (cf_function f) (cf_ip f) h \<and> at_height (C (cf_function f)) (cf_ip f) h))"

definition safe :: "(nat \<Rightarrow> heights) \<Rightarrow> outcome result \<Rightarrow> bool" where
  "safe C r \<longleftrightarrow> (case r of Inl _ \<Rightarrow> False
     | Inr (Running vm) \<Rightarrow> vm_ok C vm \<and> vm_frames vm \<noteq> []
     | Inr (Done res vm) \<Rightarrow> vm_ok C vm \<and> vm_frames vm = [] \<and> res \<noteq> INTERPRET_COMPILE_ERROR)"

section \<open>Moving through an instruction\<close>

named_theorems mid_intros \<open>how the parts of an instruction transform \<open>mid\<close>\<close>

lemma as_function_is_fun: "is_fun H r \<Longrightarrow> as_function H r = Inr (fun_of H r)"
  by (auto simp: is_fun_def fun_of_def as_function_def object_at_def split: object_body.splits)

lemma world_fun:
  assumes "world_ok C vm" "is_fun (vm_heap vm) r"
  shows "check_function (vm_heap vm) (fun_of (vm_heap vm) r) (C r)"
  using assms by (simp add: world_ok_def)

lemma check_function_chunk: "check_function H f hm \<Longrightarrow> chunk_inv (vf_chunk f)"
  by (simp add: check_function_def)

lemma mid_fun: "mid C vm fn ip h \<Longrightarrow> check_function (vm_heap vm) (fun_of (vm_heap vm) fn) (C fn)"
  by (simp add: mid_def world_fun)

lemma check_instr:
  assumes "check_function H f hm" "at_height hm i h"
  shows "h \<le> BYTE_COUNT" "i < length (code_of (vf_chunk f))"
    "\<exists>op. decode_op (code_of (vf_chunk f) ! i) = Some op
       \<and> instr_ok H (consts_of (vf_chunk f)) (code_of (vf_chunk f)) hm op (Suc i) h"
proof -
  let ?code = "code_of (vf_chunk f)"
  from assms show i: "i < length ?code" by (simp add: check_function_def check_code_def at_height_def)
  have "hm ! i = Some h" using assms(2) by (simp add: at_height_def)
  moreover have "case hm ! i of None \<Rightarrow> True | Some h \<Rightarrow> h \<le> BYTE_COUNT \<and> (case decode_op (?code ! i) of None \<Rightarrow> False
      | Some op \<Rightarrow> instr_ok H (consts_of (vf_chunk f)) ?code hm op (Suc i) h)"
    using assms(1) i unfolding check_function_def check_code_def list_all_iff by auto
  ultimately show "h \<le> BYTE_COUNT" "\<exists>op. decode_op (?code ! i) = Some op
       \<and> instr_ok H (consts_of (vf_chunk f)) ?code hm op (Suc i) h"
    by (auto split: option.splits)
qed

lemma val_ok_stack: "list_all (val_ok H) s \<Longrightarrow> i < length s \<Longrightarrow> val_ok H (s ! i)"
  by (simp add: list_all_length)

text \<open>The heights of the suspended frames bound the base of the top frame.\<close>

lemma frames_ok_bound:
  assumes "frames_ok C H fs sp"
    and "\<And>r. is_fun H r \<Longrightarrow> check_function H (fun_of H r) (C r)"
  shows "sp \<le> FRAMES_MAX + (BYTE_COUNT - 1) * length fs"
  using assms(1)
proof (induction fs arbitrary: sp)
  case Nil
  then show ?case by simp
next
  case (Cons f fs)
  then have "sp - cf_slots f \<le> BYTE_COUNT"
    using check_instr(1) [OF assms(2), of "cf_function f" "cf_ip f"] by simp
  moreover have "Suc (cf_slots f) \<le> FRAMES_MAX + (BYTE_COUNT - 1) * length fs" using Cons by simp
  ultimately show ?case by (simp add: BYTE_COUNT_def)
qed

lemma mid_room:
  assumes "mid C vm fn ip h" "h < BYTE_COUNT"
  shows "length (vm_stack vm) < STACK_MAX"
proof -
  from assms(1) obtain slots fs where fs: "vm_frames vm = \<lparr>cf_function = fn, cf_ip = ip, cf_slots = slots\<rparr> # fs"
    "length (vm_stack vm) = slots + h" "frames_ok C (vm_heap vm) fs (Suc slots)"
    "length (vm_frames vm) \<le> FRAMES_MAX" "world_ok C vm" by (auto simp: mid_def)
  from frames_ok_bound [OF fs(3)] world_fun [OF fs(5)]
  have "Suc slots \<le> FRAMES_MAX + (BYTE_COUNT - 1) * length fs" by blast
  moreover have "length fs < FRAMES_MAX" using fs(1,4) by simp
  ultimately show ?thesis using fs(2) assms(2) by (simp add: STACK_MAX_def BYTE_COUNT_def FRAMES_MAX_def)
qed

lemma mid_push:
  assumes "mid C vm fn ip h" "h < BYTE_COUNT" "val_ok (vm_heap vm) v"
  obtains vm' where "vm_stack_push vm v = Inr vm'" "mid C vm' fn ip (Suc h)" "vm_heap vm' = vm_heap vm"
proof -
  let ?vm = "vm\<lparr>vm_stack := vm_stack vm @ [v]\<rparr>"
  have "vm_stack_push vm v = Inr ?vm" using mid_room [OF assms(1,2)] by (simp add: vm_stack_push_def)
  moreover have "mid C ?vm fn ip (Suc h)"
    using assms by (auto simp: mid_def world_ok_def heap_inv_def)
  ultimately show thesis using that by simp
qed

lemma mid_pop:
  assumes "mid C vm fn ip h" "0 < h"
  obtains vm' v where "vm_stack_pop vm = Inr (vm', v)" "mid C vm' fn ip (h - 1)" "val_ok (vm_heap vm) v"
    "vm_heap vm' = vm_heap vm" "vm_stack vm = vm_stack vm' @ [v]" "vm_globals vm' = vm_globals vm"
proof -
  have ne: "vm_stack vm \<noteq> []" using assms by (auto simp: mid_def)
  let ?vm = "vm\<lparr>vm_stack := butlast (vm_stack vm)\<rparr>"
  have "list_all (val_ok (vm_heap vm)) (vm_stack vm)" using assms by (simp add: mid_def)
  then have "list_all (val_ok (vm_heap vm)) (butlast (vm_stack vm))" "val_ok (vm_heap vm) (last (vm_stack vm))"
    using ne by (auto simp: list_all_iff dest: in_set_butlastD)
  moreover from this have "mid C ?vm fn ip (h - 1)"
    using assms by (auto simp: mid_def world_ok_def heap_inv_def)
  ultimately show thesis using that [of ?vm "last (vm_stack vm)"] ne by (simp add: vm_stack_pop_def)
qed

lemma mid_peek:
  assumes "mid C vm fn ip h" "d < h"
  obtains v where "vm_stack_peek vm d = Inr v" "val_ok (vm_heap vm) v"
proof -
  have "d < length (vm_stack vm)" using assms by (auto simp: mid_def)
  moreover from this have "val_ok (vm_heap vm) (vm_stack vm ! (length (vm_stack vm) - 1 - d))"
    using assms by (intro val_ok_stack) (auto simp: mid_def)
  ultimately show thesis using that by (simp add: vm_stack_peek_def)
qed

lemma mid_read_byte:
  assumes "mid C vm fn ip h" "ip < length (fcode (vm_heap vm) fn)"
  obtains vm' where "READ_BYTE vm = Inr (vm', fcode (vm_heap vm) fn ! ip)" "mid C vm' fn (Suc ip) h"
    "vm_heap vm' = vm_heap vm" "vm_stack vm' = vm_stack vm" "vm_globals vm' = vm_globals vm"
proof -
  let ?f = "fun_of (vm_heap vm) fn"
  have "is_fun (vm_heap vm) fn" using assms by (simp add: mid_def)
  then have "as_function (vm_heap vm) fn = Inr ?f" by (rule as_function_is_fun)
  moreover have "array_at (ck_code (vf_chunk ?f)) ip = Inr (fcode (vm_heap vm) fn ! ip)"
    using assms by (intro code_at check_function_chunk [OF mid_fun]) auto
  moreover from assms(1) obtain slots fs where fs: "vm_frames vm = \<lparr>cf_function = fn, cf_ip = ip, cf_slots = slots\<rparr> # fs"
    by (auto simp: mid_def)
  ultimately have "READ_BYTE vm = Inr (set_ip vm (Suc ip), fcode (vm_heap vm) fn ! ip)"
    by (simp add: READ_BYTE_def top_frame_def)
  moreover have "mid C (set_ip vm (Suc ip)) fn (Suc ip) h"
    using assms fs by (auto simp: mid_def set_ip_def world_ok_def heap_inv_def)
  ultimately show thesis using that [of "set_ip vm (Suc ip)"] fs by (simp add: set_ip_def)
qed

lemma mid_top_frame:
  assumes "mid C vm fn ip h"
  shows "top_frame vm = Inr \<lparr>cf_function = fn, cf_ip = ip, cf_slots = length (vm_stack vm) - h\<rparr>"
    "h \<le> length (vm_stack vm)"
  using assms by (auto simp: mid_def top_frame_def)

lemma mid_set_ip:
  assumes "mid C vm fn ip h" "ip' \<le> length (fcode (vm_heap vm) fn)"
  shows "mid C (set_ip vm ip') fn ip' h"
  using assms by (auto simp: mid_def set_ip_def world_ok_def heap_inv_def)

lemma mid_running:
  assumes "mid C vm fn ip h" "at_height (C fn) ip h"
  shows "safe C (Inr (Running vm))"
  using assms by (auto simp: safe_def vm_ok_def mid_def)

lemma mid_push_run:
  assumes "mid C vm fn ip h" "h < BYTE_COUNT" "val_ok (vm_heap vm) v" "at_height (C fn) ip (Suc h)"
  shows "safe C (push_run vm v)"
proof -
  obtain vm' where "vm_stack_push vm v = Inr vm'" "mid C vm' fn ip (Suc h)" by (rule mid_push [OF assms(1-3)])
  with mid_running [of C vm' fn ip "Suc h"] assms(4) show ?thesis by (simp add: push_run_def)
qed

subsection \<open>Runtime errors\<close>

lemma trace_frame:
  assumes "check_function H (fun_of H (cf_function f)) hm" "is_fun H (cf_function f)"
    and "0 < cf_ip f" "cf_ip f \<le> length (fcode H (cf_function f))"
    and "trace_loop H fs = Inr t"
  shows "\<exists>t'. trace_loop H (f # fs) = Inr t'"
proof -
  let ?f = "fun_of H (cf_function f)" and ?i = "cf_ip f - 1"
  have chunk: "chunk_inv (vf_chunk ?f)" using assms(1) by (rule check_function_chunk)
  then have "filled (ck_count (vf_chunk ?f)) (ck_lines (vf_chunk ?f))" by (simp add: chunk_inv_def)
  moreover have "?i < ck_count (vf_chunk ?f)" using assms(3,4) length_code_of [OF chunk] by simp
  ultimately have "array_at (ck_lines (vf_chunk ?f)) ?i = Inr (contents (ck_count (vf_chunk ?f)) (ck_lines (vf_chunk ?f)) ! ?i)"
    by (rule array_at_filled)
  moreover have "as_function H (cf_function f) = Inr ?f" using assms(2) by (rule as_function_is_fun)
  moreover have "case vf_name ?f of None \<Rightarrow> True | Some r \<Rightarrow> is_str H r" using assms(1) by (simp add: check_function_def)
  ultimately show ?thesis using assms(3,5) by (auto simp: as_string_is_str split: option.splits)
qed

lemma frames_ok_trace:
  assumes "frames_ok C H fs sp" and chk: "\<And>r. is_fun H r \<Longrightarrow> check_function H (fun_of H r) (C r)"
  shows "\<exists>t. trace_loop H fs = Inr t"
  using assms(1)
proof (induction fs arbitrary: sp)
  case Nil
  then show ?case by simp
next
  case (Cons f fs)
  then obtain t where "trace_loop H fs = Inr t" by auto
  moreover have "cf_ip f \<le> length (fcode H (cf_function f))"
    using Cons.prems check_instr(2) [OF chk, of "cf_function f" "cf_ip f"] by (auto intro: less_imp_le)
  ultimately show ?case using Cons.prems chk [of "cf_function f"] by (intro trace_frame) auto
qed

lemma mid_runtime_error:
  assumes "mid C vm fn ip h" "0 < ip"
  obtains vm' where "runtime_error vm msg = Inr vm'" "vm_ok C vm'" "vm_frames vm' = []"
proof -
  from assms(1) obtain slots fs where fs: "vm_frames vm = \<lparr>cf_function = fn, cf_ip = ip, cf_slots = slots\<rparr> # fs"
    "frames_ok C (vm_heap vm) fs (Suc slots)" and w: "world_ok C vm" and fn: "is_fun (vm_heap vm) fn"
    "ip \<le> length (fcode (vm_heap vm) fn)" by (auto simp: mid_def)
  from frames_ok_trace [OF fs(2) world_fun [OF w]] obtain t where "trace_loop (vm_heap vm) fs = Inr t" by auto
  then have "\<exists>t'. trace_loop (vm_heap vm) (vm_frames vm) = Inr t'"
    unfolding fs(1) by (intro trace_frame) (use world_fun [OF w] fn assms(2) in auto)
  then obtain t' where "trace_loop (vm_heap vm) (vm_frames vm) = Inr t'" by blast
  with w show thesis
    by (intro that [of "vm_stack_reset (vm\<lparr>vm_err := vm_err vm @ msg # t'\<rparr>)"])
      (auto simp: runtime_error_def vm_ok_def vm_stack_reset_def world_ok_def heap_inv_def)
qed

lemma mid_fail: "mid C vm fn ip h \<Longrightarrow> 0 < ip \<Longrightarrow> safe C (fail vm msg)"
  by (rule mid_runtime_error [of C vm fn ip h msg]) (simp_all add: fail_def safe_def)

subsection \<open>Printing, globals and new strings\<close>

lemma mid_print:
  assumes "mid C vm fn ip h" "val_ok (vm_heap vm) v"
  obtains vm' where "print_line vm v = Inr vm'" "mid C vm' fn ip h"
proof -
  have "\<exists>i. value_print (vm_heap vm) v = Inr i"
  proof (cases v)
    case (VAL_OBJECT r)
    then have r: "object_at (vm_heap vm) r = Inr (ob_body (vm_heap vm ! r))" "r < length (vm_heap vm)"
      using assms(2) by (simp_all add: val_ok_def object_at_def)
    show ?thesis
    proof (cases "ob_body (vm_heap vm ! r)")
      case (OBJECT_FUNCTION f)
      with r have "is_fun (vm_heap vm) r" "fun_of (vm_heap vm) r = f"
        by (simp_all add: is_fun_def fun_of_def as_function_def)
      with assms(1) have "case vf_name f of None \<Rightarrow> True | Some r \<Rightarrow> is_str (vm_heap vm) r"
        using world_fun [of C vm r] by (auto simp: mid_def check_function_def)
      with VAL_OBJECT r OBJECT_FUNCTION show ?thesis
        by (auto simp: value_print_def object_print_def as_string_is_str split: option.splits)
    qed (use VAL_OBJECT r in \<open>simp_all add: value_print_def object_print_def\<close>)
  qed (simp_all add: value_print_def)
  then obtain i where "value_print (vm_heap vm) v = Inr i" by blast
  moreover have "mid C (vm\<lparr>vm_out := xs\<rparr>) fn ip h" for xs
    using assms(1) by (auto simp: mid_def world_ok_def heap_inv_def)
  ultimately show thesis using that by (simp add: print_line_def)
qed

lemma mid_define_global:
  assumes "mid C vm fn ip h" "is_str (vm_heap vm) name" "val_ok (vm_heap vm) v"
  obtains t b where "table_set (str_of (vm_heap vm)) (vm_globals vm) name v = Inr (t, b)"
    "mid C (vm\<lparr>vm_globals := t\<rparr>) fn ip h"
proof -
  from assms(1) have "table_inv (str_of (vm_heap vm)) (vm_globals vm)" by (simp add: mid_def world_ok_def)
  then obtain t where t: "table_set (str_of (vm_heap vm)) (vm_globals vm) name v = Inr (t, table_abs (vm_globals vm) name = None)"
    "table_inv (str_of (vm_heap vm)) t" "table_abs t = (table_abs (vm_globals vm))(name \<mapsto> v)"
    by (rule table_set_spec)
  then have "mid C (vm\<lparr>vm_globals := t\<rparr>) fn ip h"
    using assms by (auto simp: mid_def world_ok_def heap_inv_def)
  with t(1) show thesis by (rule that)
qed

lemma val_ok_mono: "val_ok H v \<Longrightarrow> length H \<le> length H' \<Longrightarrow> val_ok H' v"
  by (auto simp: val_ok_def split: Value.splits)

lemma str_const_mono:
  "str_const H K k \<Longrightarrow> (\<And>r. is_str H r \<Longrightarrow> is_str H' r) \<Longrightarrow> str_const H' K k"
  by (auto simp: str_const_def split: Value.splits)

lemma instr_ok_mono:
  "instr_ok H K code hm op j h \<Longrightarrow> (\<And>r. is_str H r \<Longrightarrow> is_str H' r) \<Longrightarrow> instr_ok H' K code hm op j h"
  by (cases op) (auto intro: str_const_mono)

lemma check_function_mono:
  assumes "check_function H f hm" "\<And>r. is_str H r \<Longrightarrow> is_str H' r" "length H \<le> length H'"
  shows "check_function H' f hm"
proof -
  have "check_code H K code hm n \<Longrightarrow> check_code H' K code hm n" for K code n
    using instr_ok_mono [OF _ assms(2)]
    by (fastforce simp: check_code_def list_all_iff split: option.splits)
  with assms show ?thesis
    by (auto simp: check_function_def list_all_iff intro: val_ok_mono split: option.splits)
qed

lemma frames_ok_mono:
  "frames_ok C H fs sp \<Longrightarrow> (\<And>r. is_fun H r \<Longrightarrow> is_fun H' r) \<Longrightarrow> frames_ok C H' fs sp"
  by (induction fs arbitrary: sp) auto

lemma mid_allocates:
  assumes m: "mid C vm fn ip h" and a: "only_allocates vm vm'" and "heap_inv vm'"
  shows "mid C vm' fn ip h"
proof -
  note len = only_allocates_length [OF a] and isf = only_allocates_is_fun [OF a]
  have str: "is_str (vm_heap vm) r \<Longrightarrow> is_str (vm_heap vm') r" for r using only_allocates_str(1) [OF a] .
  have fo: "is_fun (vm_heap vm) r \<Longrightarrow> fun_of (vm_heap vm') r = fun_of (vm_heap vm) r" for r
    using only_allocates_nth [OF a] len by (simp add: is_fun_def fun_of_def as_function_def object_at_def)
  have same: "vm_globals vm' = vm_globals vm" "vm_stack vm' = vm_stack vm" "vm_frames vm' = vm_frames vm"
    using a by (simp_all add: only_allocates_def)
  from m have w: "world_ok C vm" by (simp add: mid_def)
  have "table_inv (str_of (vm_heap vm')) (vm_globals vm)"
    by (rule table_inv_cong [of "str_of (vm_heap vm)"])
      (use w only_allocates_str(2) [OF a] in \<open>auto simp: world_ok_def\<close>)
  then have "world_ok C vm'"
    using w assms(3) str val_ok_mono [OF _ len] check_function_mono [OF _ str len]
    by (auto simp: world_ok_def same isf fo)
  moreover have "list_all (val_ok (vm_heap vm')) (vm_stack vm)"
    using m val_ok_mono [OF _ len] by (auto simp: mid_def list_all_iff)
  ultimately show ?thesis using m frames_ok_mono [where H = "vm_heap vm" and H' = "vm_heap vm'"]
    by (auto simp: mid_def same isf fo)
qed

lemma mid_pop2:
  assumes "mid C vm fn ip h" "2 \<le> h"
  obtains vm1 vm2 l r where "vm_stack_pop vm = Inr (vm1, r)" "vm_stack_pop vm1 = Inr (vm2, l)"
    "vm_stack_peek vm 0 = Inr r" "vm_stack_peek vm 1 = Inr l"
    "mid C vm2 fn ip (h - 2)" "vm_heap vm1 = vm_heap vm" "vm_heap vm2 = vm_heap vm"
    "val_ok (vm_heap vm) l" "val_ok (vm_heap vm) r"
proof -
  have h: "0 < h" "0 < h - 1" using assms(2) by auto
  obtain vm1 r where 1: "vm_stack_pop vm = Inr (vm1, r)" "mid C vm1 fn ip (h - 1)" "val_ok (vm_heap vm) r"
    "vm_heap vm1 = vm_heap vm" "vm_stack vm = vm_stack vm1 @ [r]"
    by (rule mid_pop [OF assms(1) h(1)])
  obtain vm2 l where 2: "vm_stack_pop vm1 = Inr (vm2, l)" "mid C vm2 fn ip (h - 1 - 1)" "val_ok (vm_heap vm1) l"
    "vm_heap vm2 = vm_heap vm1" "vm_stack vm1 = vm_stack vm2 @ [l]"
    by (rule mid_pop [OF 1(2) h(2)])
  have "vm_stack_peek vm 0 = Inr r" "vm_stack_peek vm 1 = Inr l"
    by (simp_all add: vm_stack_peek_def 1(5) 2(5) nth_append)
  moreover have "h - 1 - 1 = h - 2" by simp
  ultimately show thesis using that [OF 1(1) 2(1)] 1 2 by simp
qed

lemma val_ok_simps [simp]: "val_ok H (number_val d)" "val_ok H (bool_val b)" "val_ok H nil_val"
  "val_ok H (object_val r) \<longleftrightarrow> r < length H"
  by (simp_all add: val_ok_def number_val_def bool_val_def nil_val_def object_val_def)

lemma IS_STRING_obtain:
  assumes "IS_STRING H v"
  obtains r where "v = VAL_OBJECT r" "is_str H r"
  using assms by (auto simp: IS_STRING_def is_str_def object_at_def split: Value.splits sum.splits object_body.splits if_splits)

lemma vmstring_take_mid:
  assumes m: "mid C vm fn ip h" and "n = length chars"
  obtains vm' r where "vmstring_take vm chars n = Inr (vm', r)" "mid C vm' fn ip h" "r < length (vm_heap vm')"
    "is_str (vm_heap vm') r" "vs_chars (str_of (vm_heap vm') r) = chars"
proof -
  have "heap_inv vm" using m by (simp add: mid_def world_ok_def)
  moreover have "n \<le> length chars" using assms(2) by simp
  ultimately obtain vm' r where v: "vmstring_copy vm chars n = Inr (vm', r)" "heap_inv vm'" "only_allocates vm vm'"
    "is_str (vm_heap vm') r" "vs_chars (str_of (vm_heap vm') r) = take n chars"
    by (rule vmstring_copy_spec)
  have "vmstring_take vm chars n = Inr (vm', r)" using v(1) assms(2) by (simp add: vmstring_take_copy)
  moreover have "mid C vm' fn ip h" using m v(3,2) by (rule mid_allocates)
  ultimately show thesis using that v(4,5) assms(2) is_str_length [OF v(4)] by simp
qed

lemma good_string_of: "mid C vm fn ip h \<Longrightarrow> is_str (vm_heap vm) r \<Longrightarrow> good_string (str_of (vm_heap vm) r)"
  by (simp add: mid_def world_ok_def heap_inv_def interned_def)

lemma mid_concatenate:
  assumes m: "mid C vm fn ip h" "2 \<le> h" and pop: "vm_stack_pop vm = Inr (vm1, r)" "vm_stack_pop vm1 = Inr (vm2, l)"
    and m2: "mid C vm2 fn ip (h - 2)" and heap: "vm_heap vm1 = vm_heap vm" "vm_heap vm2 = vm_heap vm"
    and str: "IS_STRING (vm_heap vm) r" "IS_STRING (vm_heap vm) l"
  shows "\<exists>vm'. vmstring_concatenate vm = Inr vm' \<and> mid C vm' fn ip (h - 1)"
proof -
  let ?H = "vm_heap vm"
  obtain a b where ab: "r = VAL_OBJECT b" "is_str ?H b" "l = VAL_OBJECT a" "is_str ?H a"
    using str by (auto elim!: IS_STRING_obtain)
  let ?n = "vs_length (str_of ?H a) + vs_length (str_of ?H b)"
  let ?chars = "take (vs_length (str_of ?H a)) (vs_chars (str_of ?H a)) @ take (vs_length (str_of ?H b)) (vs_chars (str_of ?H b))"
  have "?n = length ?chars" using good_string_of [OF m(1)] ab by (simp add: good_string_def)
  with m2 obtain vm3 s where s: "vmstring_take vm2 ?chars ?n = Inr (vm3, s)" "mid C vm3 fn ip (h - 2)" "s < length (vm_heap vm3)"
    by (rule vmstring_take_mid)
  have "h - 2 < BYTE_COUNT" "val_ok (vm_heap vm3) (object_val s)" using s(3) m by (auto simp: mid_def)
  with s(2) obtain vm4 where "vm_stack_push vm3 (object_val s) = Inr vm4" "mid C vm4 fn ip (Suc (h - 2))"
    by (rule mid_push)
  moreover have "Suc (h - 2) = h - 1" using m(2) by simp
  ultimately show ?thesis
    using pop s(1) ab heap by (simp add: vmstring_concatenate_def as_object_def as_string_is_str Let_def)
qed

subsection \<open>The instructions\<close>

lemma mid_binary:
  assumes "mid C vm fn ip h" "0 < ip" "2 \<le> h" "at_height (C fn) ip (h - 1)" and "\<And>x y. val_ok (vm_heap vm) (f x y)"
  shows "safe C (BINARY_OP f vm)"
proof -
  obtain vm1 vm2 l r where p: "vm_stack_pop vm = Inr (vm1, r)" "vm_stack_pop vm1 = Inr (vm2, l)"
    "vm_stack_peek vm 0 = Inr r" "vm_stack_peek vm 1 = Inr l"
    "mid C vm2 fn ip (h - 2)" "vm_heap vm1 = vm_heap vm" "vm_heap vm2 = vm_heap vm"
    "val_ok (vm_heap vm) l" "val_ok (vm_heap vm) r" by (rule mid_pop2 [OF assms(1,3)])
  have "safe C (push_run vm2 (f x y))" for x y
    by (rule mid_push_run [OF p(5)]) (use assms p(7) in \<open>auto simp: mid_def Suc_diff_Suc numeral_2_eq_2\<close>)
  moreover have "safe C (fail vm msg)" for msg by (rule mid_fail [OF assms(1,2)])
  ultimately show ?thesis using p(1-4) unfolding BINARY_OP_def by (simp split: Value.splits)
qed

lemma mid_add:
  assumes "mid C vm fn ip h" "0 < ip" "2 \<le> h" "at_height (C fn) ip (h - 1)"
  shows "safe C (exec OP_ADD vm)"
proof -
  obtain vm1 vm2 l r where p: "vm_stack_pop vm = Inr (vm1, r)" "vm_stack_pop vm1 = Inr (vm2, l)"
    "vm_stack_peek vm 0 = Inr r" "vm_stack_peek vm 1 = Inr l"
    "mid C vm2 fn ip (h - 2)" "vm_heap vm1 = vm_heap vm" "vm_heap vm2 = vm_heap vm"
    "val_ok (vm_heap vm) l" "val_ok (vm_heap vm) r" by (rule mid_pop2 [OF assms(1,3)])
  show ?thesis
  proof (cases "IS_STRING (vm_heap vm) r \<and> IS_STRING (vm_heap vm) l")
    case True
    with mid_concatenate [OF assms(1,3) p(1,2,5-7)] obtain vm' where
      "vmstring_concatenate vm = Inr vm'" "mid C vm' fn ip (h - 1)" by blast
    with True p(3,4) mid_running [of C vm' fn ip "h - 1"] assms(4) show ?thesis by simp
  next
    case False
    have "safe C (push_run vm2 (number_val x))" for x
      by (rule mid_push_run [OF p(5)]) (use assms p(7) in \<open>auto simp: mid_def Suc_diff_Suc numeral_2_eq_2\<close>)
    moreover have "safe C (fail vm msg)" for msg by (rule mid_fail [OF assms(1,2)])
    ultimately show ?thesis using False p(1-4) by (auto split: Value.splits)
  qed
qed

lemma mid_read_constant:
  assumes "mid C vm fn ip h" "ip < length (fcode (vm_heap vm) fn)"
    and "unat (fcode (vm_heap vm) fn ! ip) < length (fconsts (vm_heap vm) fn)"
  obtains vm' where "READ_CONSTANT vm = Inr (vm', fconsts (vm_heap vm) fn ! unat (fcode (vm_heap vm) fn ! ip))"
    "mid C vm' fn (Suc ip) h" "vm_heap vm' = vm_heap vm"
    "val_ok (vm_heap vm) (fconsts (vm_heap vm) fn ! unat (fcode (vm_heap vm) fn ! ip))"
proof -
  let ?H = "vm_heap vm"
  obtain vm' where v: "READ_BYTE vm = Inr (vm', fcode ?H fn ! ip)" "mid C vm' fn (Suc ip) h" "vm_heap vm' = ?H"
    by (rule mid_read_byte [OF assms(1,2)])
  have "is_fun ?H fn" using assms(1) by (simp add: mid_def)
  then have "as_function ?H fn = Inr (fun_of ?H fn)" by (rule as_function_is_fun)
  moreover have "array_at (va_values (ck_constants (vf_chunk (fun_of ?H fn)))) (unat (fcode ?H fn ! ip))
      = Inr (fconsts ?H fn ! unat (fcode ?H fn ! ip))"
    using const_at [OF check_function_chunk [OF mid_fun [OF assms(1)]] assms(3)] .
  moreover have "val_ok ?H (fconsts ?H fn ! unat (fcode ?H fn ! ip))"
    using mid_fun [OF assms(1)] assms(3) by (simp add: check_function_def list_all_length)
  ultimately show thesis
    using that [of vm'] v mid_top_frame [OF v(2)] by (simp add: READ_CONSTANT_def)
qed

lemma mid_read_string:
  assumes "mid C vm fn ip h" "ip < length (fcode (vm_heap vm) fn)"
    and "str_const (vm_heap vm) (fconsts (vm_heap vm) fn) (unat (fcode (vm_heap vm) fn ! ip))"
  obtains vm' r where "READ_STRING vm = Inr (vm', r)" "mid C vm' fn (Suc ip) h" "vm_heap vm' = vm_heap vm"
    "is_str (vm_heap vm) r"
proof -
  from assms(3) obtain r where r: "unat (fcode (vm_heap vm) fn ! ip) < length (fconsts (vm_heap vm) fn)"
    "fconsts (vm_heap vm) fn ! unat (fcode (vm_heap vm) fn ! ip) = VAL_OBJECT r" "is_str (vm_heap vm) r"
    by (auto simp: str_const_def split: Value.splits)
  obtain vm' where "READ_CONSTANT vm = Inr (vm', VAL_OBJECT r)" "mid C vm' fn (Suc ip) h" "vm_heap vm' = vm_heap vm"
    by (rule mid_read_constant [OF assms(1,2) r(1), unfolded r(2)])
  with that [of vm' r] r(3) show thesis by (simp add: READ_STRING_def as_object_def as_string_is_str)
qed

lemma mid_read_short:
  assumes "mid C vm fn ip h" "Suc ip < length (fcode (vm_heap vm) fn)"
  obtains vm' where "READ_SHORT vm = Inr (vm', short_at (fcode (vm_heap vm) fn) ip)" "mid C vm' fn (ip + 2) h"
    "vm_heap vm' = vm_heap vm"
proof -
  obtain vm1 where 1: "READ_BYTE vm = Inr (vm1, fcode (vm_heap vm) fn ! ip)" "mid C vm1 fn (Suc ip) h" "vm_heap vm1 = vm_heap vm"
    by (rule mid_read_byte [OF assms(1)]) (use assms(2) in auto)
  obtain vm2 where 2: "READ_BYTE vm1 = Inr (vm2, fcode (vm_heap vm) fn ! Suc ip)" "mid C vm2 fn (Suc (Suc ip)) h" "vm_heap vm2 = vm_heap vm"
    by (rule mid_read_byte [OF 1(2)]) (use assms(2) 1(3) in auto)
  from that [of vm2] 1 2 show thesis by (simp add: READ_SHORT_def short_at_def)
qed

text \<open>Resuming the frame below.\<close>

lemma vm_ok_resume:
  assumes "world_ok C vm" "list_all (val_ok (vm_heap vm)) (vm_stack vm)" "length (vm_frames vm) \<le> FRAMES_MAX"
    and "frames_ok C (vm_heap vm) (vm_frames vm) (length (vm_stack vm))" "vm_frames vm \<noteq> []"
  shows "vm_ok C vm"
proof -
  from assms(5) obtain g gs where g: "vm_frames vm = g # gs" by (cases "vm_frames vm") auto
  note f = assms(4) [unfolded g frames_ok.simps]
  note i = check_instr [OF world_fun [OF assms(1)], of "cf_function g" "cf_ip g" "length (vm_stack vm) - cf_slots g"]
  have "mid C vm (cf_function g) (cf_ip g) (length (vm_stack vm) - cf_slots g)"
    unfolding mid_def using assms f g i by (auto intro!: exI [of _ "cf_slots g"])
  with f g show ?thesis by (auto simp: vm_ok_def)
qed

lemma mid_return:
  assumes m: "mid C vm fn ip h" "1 \<le> h"
  shows "safe C (exec OP_RETURN vm)"
proof -
  have "0 < h" using m(2) by simp
  with m(1) obtain vm1 v where p: "vm_stack_pop vm = Inr (vm1, v)" "mid C vm1 fn ip (h - 1)" "val_ok (vm_heap vm) v"
    "vm_heap vm1 = vm_heap vm" by (rule mid_pop)
  from p(2) obtain slots fs where fs: "vm_frames vm1 = \<lparr>cf_function = fn, cf_ip = ip, cf_slots = slots\<rparr> # fs"
    "length (vm_stack vm1) = slots + (h - 1)" "frames_ok C (vm_heap vm1) fs (Suc slots)"
    and w: "world_ok C vm1" "list_all (val_ok (vm_heap vm1)) (vm_stack vm1)" "length (vm_frames vm1) \<le> FRAMES_MAX"
    by (auto simp: mid_def)
  show ?thesis
  proof (cases "fs = []")
    case True
    with p(1) fs w show ?thesis
      by (simp add: top_frame_def safe_def vm_ok_def Let_def world_ok_def heap_inv_def)
  next
    case False
    let ?vm = "vm1\<lparr>vm_frames := fs, vm_stack := take slots (vm_stack vm1) @ [v]\<rparr>"
    have "h - 1 < BYTE_COUNT" using m by (auto simp: mid_def)
    with mid_room [OF p(2)] fs(2) have room: "slots < STACK_MAX" by simp
    have "vm_ok C ?vm"
    proof (rule vm_ok_resume)
      show "list_all (val_ok (vm_heap ?vm)) (vm_stack ?vm)"
        using w(2) p(3,4) by (auto simp: list_all_iff dest: in_set_takeD)
    qed (use w fs False in \<open>auto simp: world_ok_def heap_inv_def\<close>)
    with p(1) fs False room show ?thesis
      by (simp add: top_frame_def Let_def push_run_def vm_stack_push_def safe_def)
  qed
qed

lemma mid_call_error:
  assumes "mid C vm fn ip h" "0 < ip"
  shows "safe C (bind_result (bind_result (runtime_error vm msg) (\<lambda>vm1. Inr (vm1, False)))
    (\<lambda>(vm2, ok). Inr (if ok then Running vm2 else Done INTERPRET_RUNTIME_ERROR vm2)))"
  by (rule mid_runtime_error [OF assms, of msg]) (simp add: safe_def)

lemma mid_call_function:
  assumes m: "mid C vm fn ip h" "0 < ip" "n < h" "at_height (C fn) ip (h - n)"
    and r: "is_fun (vm_heap vm) r"
  shows "safe C (bind_result (vm_call vm r (fun_of (vm_heap vm) r) n)
    (\<lambda>(vm2, ok). Inr (if ok then Running vm2 else Done INTERPRET_RUNTIME_ERROR vm2)))"
proof -
  let ?f = "fun_of (vm_heap vm) r"
  note err = mid_call_error [OF m(1,2)]
  consider "int n \<noteq> vf_arity ?f" | "int n = vf_arity ?f" "length (vm_frames vm) = FRAMES_MAX"
    | "int n = vf_arity ?f" "length (vm_frames vm) \<noteq> FRAMES_MAX" by blast
  then show ?thesis
  proof cases
    case 1
    then show ?thesis using err by (simp only: vm_call_def if_True simp_thms)
  next
    case 2
    then show ?thesis using err by (simp only: vm_call_def if_True if_False simp_thms)
  next
    case 3
    from m(1) obtain slots fs where fs: "vm_frames vm = \<lparr>cf_function = fn, cf_ip = ip, cf_slots = slots\<rparr> # fs"
      "length (vm_stack vm) = slots + h" "frames_ok C (vm_heap vm) fs (Suc slots)"
      and w: "world_ok C vm" "list_all (val_ok (vm_heap vm)) (vm_stack vm)" "length (vm_frames vm) \<le> FRAMES_MAX"
      "is_fun (vm_heap vm) fn" by (auto simp: mid_def)
    let ?g = "\<lparr>cf_function = r, cf_ip = 0, cf_slots = slots + h - n - 1\<rparr>"
    let ?vm = "vm\<lparr>vm_frames := ?g # vm_frames vm\<rparr>"
    have "vm_call vm r ?f n = Inr (?vm, True)" using 3 fs(2) m(3) by (simp add: vm_call_def)
    moreover have entry: "at_height (C r) 0 (Suc n)"
    proof -
      have "nat (vf_arity ?f) = n" unfolding 3(1) [symmetric] by simp
      with world_fun [OF w(1) r] show ?thesis by (simp add: check_function_def check_code_def)
    qed
    have below: "frames_ok C (vm_heap vm) (vm_frames vm) (Suc (slots + h - n - 1))"
      using fs m w(4) by (simp add: Suc_diff_Suc)
    have "mid C ?vm r 0 (Suc n)"
      unfolding mid_def using w 3(2) r below fs(2) m(3) check_instr(1) [OF world_fun [OF w(1) r] entry]
      by (auto simp: world_ok_def heap_inv_def le_eq_less_or_eq)
    with entry have "safe C (Inr (Running ?vm))" by (intro mid_running)
    ultimately show ?thesis by simp
  qed
qed

lemma mid_call:
  assumes m: "mid C vm fn ip h" "0 < ip" "n < h" "at_height (C fn) ip (h - n)" and v: "val_ok (vm_heap vm) v"
  shows "safe C (bind_result (value_call vm v n)
    (\<lambda>(vm2, ok). Inr (if ok then Running vm2 else Done INTERPRET_RUNTIME_ERROR vm2)))"
proof -
  note err = mid_call_error [OF m(1,2)]
  show ?thesis
  proof (cases v)
    case (VAL_OBJECT r)
    with v have r: "r < length (vm_heap vm)" by (simp add: val_ok_def)
    show ?thesis
    proof (cases "ob_body (vm_heap vm ! r)")
      case (OBJECT_FUNCTION f)
      with r have "is_fun (vm_heap vm) r" "f = fun_of (vm_heap vm) r"
        by (simp_all add: is_fun_def fun_of_def as_function_def object_at_def)
      with mid_call_function [OF m] VAL_OBJECT OBJECT_FUNCTION r show ?thesis
        by (simp add: value_call_def object_at_def)
    next
      case (OBJECT_NATIVE k)
      obtain vm1 res where n: "call_native k vm = (vm1, res)" by fastforce
      then have vm1: "\<exists>c. vm1 = vm\<lparr>vm_clock := c\<rparr>" "val_ok (vm_heap vm) res"
        by (auto simp: call_native_def clock_native_def Let_def split: NativeFn.splits prod.splits)
      let ?vm = "vm1\<lparr>vm_stack := take (length (vm_stack vm1) - (n + 1)) (vm_stack vm1)\<rparr>"
      have "mid C ?vm fn ip (h - (n + 1))"
        using m(1,3) vm1(1) by (auto simp: mid_def world_ok_def heap_inv_def list_all_iff dest: in_set_takeD)
      moreover have "h - (n + 1) < BYTE_COUNT" using m by (auto simp: mid_def)
      moreover have "val_ok (vm_heap ?vm) res" using vm1 by auto
      ultimately obtain vm2 where "vm_stack_push ?vm res = Inr vm2" "mid C vm2 fn ip (Suc (h - (n + 1)))"
        by (rule mid_push)
      moreover have "Suc (h - (n + 1)) = h - n" using m(3) by simp
      moreover have "\<not> length (vm_stack vm1) < n + 1" using vm1(1) m(1,3) by (auto simp: mid_def)
      ultimately show ?thesis
        using VAL_OBJECT OBJECT_NATIVE r n mid_running [of C vm2 fn ip "h - n"] m(4)
        by (simp add: value_call_def object_at_def)
    next
      case (OBJECT_STRING s)
      with VAL_OBJECT r err show ?thesis by (simp add: value_call_def object_at_def)
    qed
  qed (use err in \<open>simp_all add: value_call_def\<close>)
qed

text \<open>Instructions with an operand in the code.\<close>

abbreviation operand :: "VM \<Rightarrow> nat \<Rightarrow> nat \<Rightarrow> nat" where
  "operand vm fn ip \<equiv> unat (fcode (vm_heap vm) fn ! ip)"

lemma mid_constant:
  assumes "mid C vm fn ip h" "ip < length (fcode (vm_heap vm) fn)" "operand vm fn ip < length (fconsts (vm_heap vm) fn)"
    and "h < BYTE_COUNT" "at_height (C fn) (Suc ip) (Suc h)"
  shows "safe C (exec OP_CONSTANT vm)"
proof -
  obtain vm1 v where 1: "READ_CONSTANT vm = Inr (vm1, v)" "mid C vm1 fn (Suc ip) h" "vm_heap vm1 = vm_heap vm"
    "val_ok (vm_heap vm) v" by (rule mid_read_constant [OF assms(1-3)])
  then have v1: "val_ok (vm_heap vm1) v" by simp
  obtain vm2 where 2: "vm_stack_push vm1 v = Inr vm2" "mid C vm2 fn (Suc ip) (Suc h)" "vm_heap vm2 = vm_heap vm1"
    by (rule mid_push [OF 1(2) assms(4) v1])
  then have v2: "val_ok (vm_heap vm2) v" using v1 by simp
  obtain vm3 where "print_line vm2 v = Inr vm3" "mid C vm3 fn (Suc ip) (Suc h)" by (rule mid_print [OF 2(2) v2])
  with 1(1) 2(1) mid_running [of C vm3 fn "Suc ip" "Suc h"] assms(5) show ?thesis by simp
qed

lemma mid_get_global:
  assumes "mid C vm fn ip h" "ip < length (fcode (vm_heap vm) fn)"
    "str_const (vm_heap vm) (fconsts (vm_heap vm) fn) (operand vm fn ip)"
    and "h < BYTE_COUNT" "at_height (C fn) (Suc ip) (Suc h)"
  shows "safe C (exec OP_GET_GLOBAL vm)"
proof -
  obtain vm1 r where 1: "READ_STRING vm = Inr (vm1, r)" "mid C vm1 fn (Suc ip) h" "vm_heap vm1 = vm_heap vm"
    by (rule mid_read_string [OF assms(1-3)])
  from 1(2) have w: "table_inv (str_of (vm_heap vm1)) (vm_globals vm1)"
    "\<And>k v. table_abs (vm_globals vm1) k = Some v \<Longrightarrow> val_ok (vm_heap vm1) v" by (auto simp: mid_def world_ok_def)
  show ?thesis
  proof (cases "table_abs (vm_globals vm1) r")
    case None
    with 1(1) table_get_spec [OF w(1), of r] mid_fail [OF 1(2)] show ?thesis by simp
  next
    case (Some v)
    with 1(1) table_get_spec [OF w(1), of r] mid_push_run [OF 1(2) assms(4) w(2) [OF Some] assms(5)] show ?thesis by simp
  qed
qed

lemma mid_set_global:
  assumes "mid C vm fn ip h" "ip < length (fcode (vm_heap vm) fn)"
    "str_const (vm_heap vm) (fconsts (vm_heap vm) fn) (operand vm fn ip)" "1 \<le> h"
  shows "at_height (C fn) (Suc ip) (h - 1) \<Longrightarrow> safe C (exec OP_DEFINE_GLOBAL vm)"
    and "at_height (C fn) (Suc ip) h \<Longrightarrow> safe C (exec OP_SET_GLOBAL vm)"
proof -
  have h: "0 < h" using assms(4) by simp
  obtain vm1 r where 1: "READ_STRING vm = Inr (vm1, r)" "mid C vm1 fn (Suc ip) h" "vm_heap vm1 = vm_heap vm"
    "is_str (vm_heap vm) r" by (rule mid_read_string [OF assms(1-3)])
  obtain v where v: "vm_stack_peek vm1 0 = Inr v" "val_ok (vm_heap vm1) v" by (rule mid_peek [OF 1(2) h])
  have r: "is_str (vm_heap vm1) r" using 1(3,4) by simp
  obtain t b where t: "table_set (str_of (vm_heap vm1)) (vm_globals vm1) r v = Inr (t, b)"
    "mid C (vm1\<lparr>vm_globals := t\<rparr>) fn (Suc ip) h" by (rule mid_define_global [OF 1(2) r v(2)])
  obtain vm2 w where p: "vm_stack_pop (vm1\<lparr>vm_globals := t\<rparr>) = Inr (vm2, w)" "mid C vm2 fn (Suc ip) (h - 1)"
    by (rule mid_pop [OF t(2) h])
  show "at_height (C fn) (Suc ip) (h - 1) \<Longrightarrow> safe C (exec OP_DEFINE_GLOBAL vm)"
    using 1(1) v(1) t(1) p(1) mid_running [OF p(2)] by simp
  show "at_height (C fn) (Suc ip) h \<Longrightarrow> safe C (exec OP_SET_GLOBAL vm)"
    using 1(1) v(1) t(1) mid_running [OF t(2)] mid_fail [OF t(2)] by (simp add: Let_def)
qed

lemma mid_update_stack:
  assumes "mid C vm fn ip h" "val_ok (vm_heap vm) v"
  shows "mid C (vm\<lparr>vm_stack := (vm_stack vm)[i := v]\<rparr>) fn ip h"
proof -
  have "list_all (val_ok (vm_heap vm)) (vm_stack vm)" using assms by (simp add: mid_def)
  then have "list_all (val_ok (vm_heap vm)) ((vm_stack vm)[i := v])"
    using assms(2) set_update_subset_insert [of "vm_stack vm" i v] by (auto simp: list_all_iff)
  with assms(1) show ?thesis by (auto simp: mid_def world_ok_def heap_inv_def)
qed

lemma mid_local:
  assumes "mid C vm fn ip h" "ip < length (fcode (vm_heap vm) fn)" "operand vm fn ip < h"
  shows "h < BYTE_COUNT \<Longrightarrow> at_height (C fn) (Suc ip) (Suc h) \<Longrightarrow> safe C (exec OP_GET_LOCAL vm)"
    and "at_height (C fn) (Suc ip) h \<Longrightarrow> safe C (exec OP_SET_LOCAL vm)"
proof -
  obtain vm1 where 1: "READ_BYTE vm = Inr (vm1, fcode (vm_heap vm) fn ! ip)" "mid C vm1 fn (Suc ip) h"
    "vm_heap vm1 = vm_heap vm" by (rule mid_read_byte [OF assms(1,2)])
  note t = mid_top_frame [OF 1(2)]
  let ?i = "length (vm_stack vm1) - h + operand vm fn ip"
  have i: "?i < length (vm_stack vm1)" using assms(3) t(2) by simp
  have vi: "val_ok (vm_heap vm1) (vm_stack vm1 ! ?i)" using i 1(2) by (intro val_ok_stack) (auto simp: mid_def)
  show "safe C (exec OP_GET_LOCAL vm)" if "h < BYTE_COUNT" "at_height (C fn) (Suc ip) (Suc h)"
    using 1(1) t(1) i mid_push_run [OF 1(2) that(1) vi that(2)] by simp
  have h: "0 < h" using assms(3) by simp
  obtain v where v: "vm_stack_peek vm1 0 = Inr v" "val_ok (vm_heap vm1) v" by (rule mid_peek [OF 1(2) h])
  show "at_height (C fn) (Suc ip) h \<Longrightarrow> safe C (exec OP_SET_LOCAL vm)"
    using 1(1) t(1) i v mid_running [OF mid_update_stack [OF 1(2) v(2)]] by simp
qed

lemma mid_jumps:
  assumes "mid C vm fn ip h" "Suc ip < length (fcode (vm_heap vm) fn)"
  defines "d \<equiv> short_at (fcode (vm_heap vm) fn) ip"
  shows "at_height (C fn) (ip + 2 + d) h \<Longrightarrow> safe C (exec OP_JUMP vm)"
    and "1 \<le> h \<Longrightarrow> at_height (C fn) (ip + 2) h \<Longrightarrow> at_height (C fn) (ip + 2 + d) h \<Longrightarrow> safe C (exec OP_JUMP_IF_FALSE vm)"
    and "d \<le> ip + 2 \<Longrightarrow> at_height (C fn) (ip + 2 - d) h \<Longrightarrow> safe C (exec OP_LOOP vm)"
proof -
  obtain vm1 where 1: "READ_SHORT vm = Inr (vm1, d)" "mid C vm1 fn (ip + 2) h" "vm_heap vm1 = vm_heap vm"
    unfolding d_def by (rule mid_read_short [OF assms(1,2)])
  note t = mid_top_frame(1) [OF 1(2)]
  have go: "safe C (Inr (Running (set_ip vm1 j)))" if "at_height (C fn) j h" for j
    using mid_set_ip [OF 1(2)] mid_running [of C "set_ip vm1 j" fn j h] that check_instr(2) [OF mid_fun [OF 1(2)] that]
    by (simp add: less_imp_le)
  show "at_height (C fn) (ip + 2 + d) h \<Longrightarrow> safe C (exec OP_JUMP vm)" using 1(1) t go by simp
  show "d \<le> ip + 2 \<Longrightarrow> at_height (C fn) (ip + 2 - d) h \<Longrightarrow> safe C (exec OP_LOOP vm)" using 1(1) t go by simp
  assume h: "1 \<le> h" and here: "at_height (C fn) (ip + 2) h" "at_height (C fn) (ip + 2 + d) h"
  from h have "0 < h" by simp
  with 1(2) obtain v where v: "vm_stack_peek vm1 0 = Inr v" by (rule mid_peek)
  with 1(1) t go [OF here(2)] mid_running [OF 1(2) here(1)] show "safe C (exec OP_JUMP_IF_FALSE vm)" by simp
qed

lemma mid_op_call:
  assumes "mid C vm fn ip h" "ip < length (fcode (vm_heap vm) fn)" "operand vm fn ip < h"
    and "at_height (C fn) (Suc ip) (h - operand vm fn ip)"
  shows "safe C (exec OP_CALL vm)"
proof -
  obtain vm1 where 1: "READ_BYTE vm = Inr (vm1, fcode (vm_heap vm) fn ! ip)" "mid C vm1 fn (Suc ip) h"
    by (rule mid_read_byte [OF assms(1,2)])
  obtain v where v: "vm_stack_peek vm1 (operand vm fn ip) = Inr v" "val_ok (vm_heap vm1) v"
    by (rule mid_peek [OF 1(2) assms(3)])
  from mid_call [OF 1(2) zero_less_Suc assms(3,4) v(2)] 1(1) v(1) show ?thesis by simp
qed

text \<open>Instructions without an operand.\<close>

lemma mid_unary:
  assumes "mid C vm fn ip h" "0 < ip" "1 \<le> h"
  shows "at_height (C fn) ip h \<Longrightarrow> safe C (exec OP_NOT vm)"
    and "at_height (C fn) ip h \<Longrightarrow> safe C (exec OP_NEGATE vm)"
    and "at_height (C fn) ip (h - 1) \<Longrightarrow> safe C (exec OP_PRINT vm)"
    and "at_height (C fn) ip (h - 1) \<Longrightarrow> safe C (exec OP_POP vm)"
proof -
  have h: "0 < h" "h - 1 < BYTE_COUNT" "Suc (h - 1) = h" using assms by (auto simp: mid_def)
  obtain vm1 v where 1: "vm_stack_pop vm = Inr (vm1, v)" "mid C vm1 fn ip (h - 1)" "val_ok (vm_heap vm) v"
    "vm_heap vm1 = vm_heap vm" "vm_stack vm = vm_stack vm1 @ [v]" by (rule mid_pop [OF assms(1) h(1)])
  have push: "safe C (push_run vm1 w)" if "at_height (C fn) ip h" "val_ok (vm_heap vm1) w" for w
    using mid_push_run [OF 1(2) h(2) that(2)] that(1) h(3) by simp
  show "at_height (C fn) ip h \<Longrightarrow> safe C (exec OP_NOT vm)" using 1(1) push by simp
  have peek: "vm_stack_peek vm 0 = Inr v" using 1(5) by (simp add: vm_stack_peek_def)
  show "at_height (C fn) ip h \<Longrightarrow> safe C (exec OP_NEGATE vm)"
    using 1(1) peek push mid_fail [OF assms(1,2)] by (simp split: Value.splits)
  have v1: "val_ok (vm_heap vm1) v" using 1(3,4) by simp
  obtain vm2 where "print_line vm1 v = Inr vm2" "mid C vm2 fn ip (h - 1)" by (rule mid_print [OF 1(2) v1])
  then show "at_height (C fn) ip (h - 1) \<Longrightarrow> safe C (exec OP_PRINT vm)"
    using 1(1) mid_running [of C vm2 fn ip "h - 1"] by simp
  show "at_height (C fn) ip (h - 1) \<Longrightarrow> safe C (exec OP_POP vm)" using 1(1) mid_running [OF 1(2)] by simp
qed

lemma values_equal_total:
  "val_ok H a \<Longrightarrow> val_ok H b \<Longrightarrow> \<exists>t. values_equal H a b = Inr t"
  by (auto simp: values_equal_def object_equal_def object_at_def val_ok_def split: Value.splits object_body.splits)

lemma mid_equal:
  assumes "mid C vm fn ip h" "2 \<le> h" "at_height (C fn) ip (h - 1)"
  shows "safe C (exec OP_EQUAL vm)"
proof -
  obtain vm1 vm2 l r where p: "vm_stack_pop vm = Inr (vm1, r)" "vm_stack_pop vm1 = Inr (vm2, l)"
    "vm_stack_peek vm 0 = Inr r" "vm_stack_peek vm 1 = Inr l"
    "mid C vm2 fn ip (h - 2)" "vm_heap vm1 = vm_heap vm" "vm_heap vm2 = vm_heap vm"
    "val_ok (vm_heap vm) l" "val_ok (vm_heap vm) r" by (rule mid_pop2 [OF assms(1,2)])
  from values_equal_total [OF p(8,9)] obtain t where t: "values_equal (vm_heap vm2) l r = Inr t" using p(7) by auto
  have "safe C (push_run vm2 (bool_val (bool_num t)))"
    by (rule mid_push_run [OF p(5)]) (use assms p(7) in \<open>auto simp: mid_def Suc_diff_Suc numeral_2_eq_2\<close>)
  with p(1,2) t show ?thesis by simp
qed

lemma exec_safe:
  assumes m: "mid C vm fn ip h" "0 < ip"
    and "instr_ok (vm_heap vm) (fconsts (vm_heap vm) fn) (fcode (vm_heap vm) fn) (C fn) op ip h"
  shows "safe C (exec op vm)"
proof -
  note push = mid_push_run [OF m(1)] and bin = mid_binary [OF m] and un = mid_unary [OF m]
  show ?thesis
    using assms(3)
  proof (cases op)
    case OP_JUMP
    then show ?thesis using assms(3) mid_jumps(1) [OF m(1)] by (simp del: exec.simps)
  next
    case OP_JUMP_IF_FALSE
    then show ?thesis using assms(3) mid_jumps(2) [OF m(1)] by (simp del: exec.simps)
  next
    case OP_LOOP
    then show ?thesis using assms(3) mid_jumps(3) [OF m(1)] by (simp del: exec.simps)
  next
    case OP_RETURN
    then show ?thesis using assms(3) mid_return [OF m(1)] by simp
  next
    case OP_ADD
    then show ?thesis using assms(3) mid_add [OF m] by (simp del: exec.simps)
  next
    case OP_EQUAL
    then show ?thesis using assms(3) mid_equal [OF m(1)] by (simp del: exec.simps)
  next
    case OP_CONSTANT
    then show ?thesis using assms(3) mid_constant [OF m(1)] by (simp del: exec.simps)
  next
    case OP_GET_GLOBAL
    then show ?thesis using assms(3) mid_get_global [OF m(1)] by (simp del: exec.simps)
  next
    case OP_DEFINE_GLOBAL
    then show ?thesis using assms(3) mid_set_global(1) [OF m(1)] by (simp del: exec.simps)
  next
    case OP_SET_GLOBAL
    then show ?thesis using assms(3) mid_set_global(2) [OF m(1)] by (simp del: exec.simps)
  next
    case OP_GET_LOCAL
    then show ?thesis using assms(3) mid_local(1) [OF m(1)] by (simp del: exec.simps)
  next
    case OP_SET_LOCAL
    then show ?thesis using assms(3) mid_local(2) [OF m(1)] by (simp del: exec.simps)
  next
    case OP_CALL
    then show ?thesis using assms(3) mid_op_call [OF m(1)] by (simp del: exec.simps)
  qed (use un in \<open>simp_all add: push bin del: exec.simps(2,3,15,16)\<close>)
qed

lemma vm_step_safe:
  assumes "vm_ok C vm" "vm_frames vm \<noteq> []"
  shows "safe C (vm_step vm)"
proof -
  from assms(2) obtain f fs where f: "vm_frames vm = f # fs" by (cases "vm_frames vm") auto
  let ?fn = "cf_function f" and ?ip = "cf_ip f" and ?H = "vm_heap vm"
  from assms(1) f obtain h where h: "mid C vm ?fn ?ip h" "at_height (C ?fn) ?ip h" by (auto simp: vm_ok_def)
  note i = check_instr [OF mid_fun [OF h(1)] h(2)]
  then obtain op where op: "decode_op (fcode ?H ?fn ! ?ip) = Some op"
    "instr_ok ?H (fconsts ?H ?fn) (fcode ?H ?fn) (C ?fn) op (Suc ?ip) h" by blast
  obtain vm1 where 1: "READ_BYTE vm = Inr (vm1, fcode ?H ?fn ! ?ip)" "mid C vm1 ?fn (Suc ?ip) h" "vm_heap vm1 = ?H"
    by (rule mid_read_byte [OF h(1) i(2)])
  from exec_safe [OF 1(2) zero_less_Suc] op(2) 1(3) have "safe C (exec op vm1)" by simp
  with 1(1) op(1) show ?thesis by (simp add: vm_step_def)
qed

section \<open>Starting the machine\<close>

lemma world_ok_stack [simp]:
  "world_ok C (vm\<lparr>vm_stack := s\<rparr>) = world_ok C vm" "world_ok C (vm\<lparr>vm_frames := fs\<rparr>) = world_ok C vm"
  by (simp_all add: world_ok_def heap_inv_def)

lemma launch_ok:
  assumes w: "world_ok C vm" "list_all (val_ok (vm_heap vm)) (vm_stack vm)" and idle: "vm_frames vm = []"
    and room: "length (vm_stack vm) < FRAMES_MAX"
    and r: "is_fun (vm_heap vm) r" "vf_arity (fun_of (vm_heap vm) r) = 0"
  obtains vm' where "vm_launch vm r = Inr vm'" "vm_ok C vm'" "vm_frames vm' \<noteq> []"
proof -
  let ?n = "length (vm_stack vm)"
  let ?g = "\<lparr>cf_function = r, cf_ip = 0, cf_slots = ?n\<rparr>"
  let ?vm = "vm\<lparr>vm_stack := vm_stack vm @ [object_val r], vm_frames := [?g]\<rparr>"
  have body: "object_at (vm_heap vm) r = Inr (OBJECT_FUNCTION (fun_of (vm_heap vm) r))" "r < length (vm_heap vm)"
    using r(1) by (auto simp: is_fun_def fun_of_def as_function_def object_at_def split: object_body.splits)
  have "vm_launch vm r = Inr ?vm"
    using room idle r(2) body
    by (simp add: vm_launch_def vm_stack_push_def value_call_def vm_call_def object_val_def Let_def
        STACK_MAX_def FRAMES_MAX_def BYTE_COUNT_def)
  moreover have entry: "at_height (C r) 0 1"
    using world_fun [OF w(1) r(1)] r(2) by (simp add: check_function_def check_code_def)
  have "mid C ?vm r 0 1"
    unfolding mid_def using w room r(1) body(2) by (auto simp: FRAMES_MAX_def BYTE_COUNT_def)
  with entry have "vm_ok C ?vm" by (auto simp: vm_ok_def)
  ultimately show thesis using that by simp
qed

lemma vm_run_ok:
  assumes "vm_ok C vm" "vm_frames vm \<noteq> []"
  shows "case vm_run fuel vm of
      Inl e \<Rightarrow> e = Out_Of_Fuel
    | Inr (res, vm') \<Rightarrow> res \<noteq> INTERPRET_COMPILE_ERROR \<and> vm_ok C vm' \<and> vm_frames vm' = []"
  using assms
proof (induction fuel arbitrary: vm)
  case 0
  then show ?case by simp
next
  case (Suc fuel)
  from vm_step_safe [OF Suc.prems] obtain out where out: "vm_step vm = Inr out" "safe C (Inr out)"
    by (cases "vm_step vm") (auto simp: safe_def)
  with Suc.IH show ?case by (cases out) (auto simp: safe_def)
qed

text \<open>More fuel does not change a result.\<close>

lemma vm_run_mono: "vm_run fuel vm = Inr r \<Longrightarrow> vm_run (fuel + k) vm = Inr r"
  by (induction fuel arbitrary: vm) (auto simp: bind_result_eq_Inr split: outcome.splits)

lemma vm_run_unique: "vm_run m vm = Inr r \<Longrightarrow> vm_run n vm = Inr q \<Longrightarrow> r = q"
  using vm_run_mono [of m vm r n] vm_run_mono [of n vm q m] by (simp add: add.commute)

section \<open>The properties of the machine\<close>

text \<open>A script with a conditional jump and a loop, its heights, and a machine that holds it.\<close>

definition sample_code :: "byte list" where
  "sample_code = [op_byte OP_NIL, op_byte OP_JUMP_IF_FALSE, 0, 4, op_byte OP_POP, op_byte OP_LOOP, 0, 8, op_byte OP_RETURN]"

definition sample_fun :: VmFunction where
  "sample_fun = \<lparr>vf_arity = 0, vf_chunk = foldl (\<lambda>c b. chunk_write c b 1) chunk_init sample_code, vf_name = None\<rparr>"

definition sample_heights :: heights where
  "sample_heights = [Some 1, Some 2, None, None, Some 2, Some 1, None, None, Some 2]"

definition sample_vm :: VM where
  "sample_vm = fst (new_vmobject empty_vm (OBJECT_FUNCTION sample_fun))"

lemma sample_world: "world_ok (\<lambda>_. sample_heights) sample_vm"
proof -
  have heap: "vm_heap sample_vm = [\<lparr>ob_next = None, ob_body = OBJECT_FUNCTION sample_fun\<rparr>]"
    by (simp add: sample_vm_def new_vmobject_def empty_vm_def Let_def)
  have "heap_inv sample_vm"
    by (rule new_other_inv [OF empty_vm_inv, of "OBJECT_FUNCTION sample_fun" _ 0])
      (simp_all add: sample_vm_def new_vmobject_def empty_vm_def Let_def)
  moreover have "check_function [\<lparr>ob_next = None, ob_body = OBJECT_FUNCTION sample_fun\<rparr>] sample_fun sample_heights"
    by code_simp
  then have "check_function (vm_heap sample_vm) (fun_of (vm_heap sample_vm) r) sample_heights"
    if "is_fun (vm_heap sample_vm) r" for r
    using that by (simp add: heap is_fun_def fun_of_def as_function_def object_at_def)
  moreover have "vm_globals sample_vm = table_init" by (simp add: sample_vm_def new_vmobject_def empty_vm_def Let_def)
  ultimately show ?thesis
    by (simp add: world_ok_def table_init_inv table_init_abs)
qed

text \<open>
  C3. Safety of the machine: launched on a machine whose functions all pass the bytecode
  verifier, a script of arity 0 runs without any crash for any number of steps. No step
  reads outside a chunk, underflows or overflows the value stack, follows a bad reference or
  misuses an object; a run that ends does so with success or a reported runtime error, and
  leaves the machine with no frame and its invariant intact.
\<close>

theorem verified_code_is_safe:
  assumes "world_ok C vm" "list_all (val_ok (vm_heap vm)) (vm_stack vm)" "vm_frames vm = []"
    "length (vm_stack vm) < FRAMES_MAX" "is_fun (vm_heap vm) r" "vf_arity (fun_of (vm_heap vm) r) = 0"
  shows "case bind_result (vm_launch vm r) (vm_run fuel) of
      Inl e \<Rightarrow> e = Out_Of_Fuel
    | Inr (res, vm') \<Rightarrow> res \<noteq> INTERPRET_COMPILE_ERROR \<and> vm_ok C vm' \<and> vm_frames vm' = []"
proof -
  obtain vm1 where "vm_launch vm r = Inr vm1" "vm_ok C vm1" "vm_frames vm1 \<noteq> []"
    by (rule launch_ok [OF assms])
  with vm_run_ok [of C vm1 fuel] show ?thesis by simp
qed

theorem verified_code_is_safe_witness:
  "case bind_result (vm_launch sample_vm 0) (vm_run 10) of
      Inl e \<Rightarrow> e = Out_Of_Fuel
    | Inr (res, vm') \<Rightarrow> res \<noteq> INTERPRET_COMPILE_ERROR \<and> vm_ok (\<lambda>_. sample_heights) vm' \<and> vm_frames vm' = []"
  by (rule verified_code_is_safe [OF sample_world])
    (simp_all add: sample_vm_def new_vmobject_def empty_vm_def Let_def is_fun_def fun_of_def as_function_def
      object_at_def sample_fun_def FRAMES_MAX_def)

lemma heap_inv_upd [simp]:
  "heap_inv (vm\<lparr>vm_stack := s\<rparr>) = heap_inv vm" "heap_inv (vm\<lparr>vm_globals := t\<rparr>) = heap_inv vm"
  "heap_inv (vm\<lparr>vm_clock := c\<rparr>) = heap_inv vm"
  by (simp_all add: heap_inv_def)

lemma native_define_ok:
  assumes inv: "heap_inv vm" and fresh: "vm_stack vm = []" "vm_globals vm = table_init"
  obtains vm' k where "native_define vm name fn = Inr vm'" "heap_inv vm'" "vm_stack vm' = []"
    "vm_frames vm' = vm_frames vm" "is_str (vm_heap vm') k" "vs_chars (str_of (vm_heap vm') k) = name"
    "table_inv (str_of (vm_heap vm')) (vm_globals vm')"
    "table_abs (vm_globals vm') = [k \<mapsto> VAL_OBJECT (length (vm_heap vm') - 1)]"
    "object_at (vm_heap vm') (length (vm_heap vm') - 1) = Inr (OBJECT_NATIVE fn)"
    "is_fun (vm_heap vm') = is_fun (vm_heap vm)"
proof -
  obtain vm1 k where k: "vmstring_copy vm name (length name) = Inr (vm1, k)" "heap_inv vm1" "only_allocates vm vm1"
    "is_str (vm_heap vm1) k" "vs_chars (str_of (vm_heap vm1) k) = take (length name) name"
    by (rule vmstring_copy_spec [OF inv order_refl])
  have same: "vm_stack vm1 = []" "vm_globals vm1 = table_init" "vm_frames vm1 = vm_frames vm"
    using k(3) fresh by (simp_all add: only_allocates_def)
  let ?vm2 = "vm1\<lparr>vm_stack := [object_val k]\<rparr>"
  obtain vm3 f where f: "new_vmobject ?vm2 (OBJECT_NATIVE fn) = (vm3, f)" by fastforce
  note h = new_vmobject_heap [OF f]
  have inv3: "heap_inv vm3" using k(2) by (intro new_other_inv [OF _ f]) auto
  have str3: "is_str (vm_heap vm3) k" "str_of (vm_heap vm3) k = str_of (vm_heap vm1) k"
    using k(4) by (simp_all add: h is_str_append is_str_length)
  let ?vm4 = "vm3\<lparr>vm_stack := [object_val k, object_val f]\<rparr>"
  obtain t where t: "table_set (str_of (vm_heap vm3)) table_init k (object_val f) = Inr (t, table_abs table_init k = None)"
    "table_inv (str_of (vm_heap vm3)) t" "table_abs t = (table_abs table_init)(k \<mapsto> object_val f)"
    by (rule table_set_spec [OF table_init_inv])
  let ?vm = "vm3\<lparr>vm_stack := [], vm_globals := t\<rparr>"
  have "native_define vm name fn = Inr ?vm"
    using k(1) same f h t(1) str3
    by (simp add: native_define_def vm_stack_push_def vmnative_new_def vm_stack_pop_def as_object_def object_val_def
        as_string_is_str STACK_MAX_def FRAMES_MAX_def BYTE_COUNT_def)
  moreover have "table_abs t = [k \<mapsto> VAL_OBJECT f]" using t(3) by (simp add: fun_eq_iff table_init_abs object_val_def)
  moreover have "is_fun (vm_heap vm3) r \<longleftrightarrow> is_fun (vm_heap vm) r" for r
    using only_allocates_is_fun [OF k(3), of r] h(1) by (auto simp: is_fun_def nth_append less_Suc_eq split: if_splits)
  ultimately show thesis
    using that [of ?vm k] inv3 str3 k(5) t(2) same h by (simp add: object_at_def fun_eq_iff)
qed

text \<open>
  C28. \<^verbatim>\<open>vm_init\<close> succeeds, leaves the stack and the frames empty, satisfies the machine's
  invariant whatever heights are assumed, and defines exactly the global \<^verbatim>\<open>clock\<close>, bound to
  the native function.
\<close>

theorem vm_init_ok:
  "case vm_init clock of Inl _ \<Rightarrow> False
   | Inr vm \<Rightarrow> vm_ok C vm \<and> vm_frames vm = [] \<and> vm_stack vm = []
       \<and> (\<exists>k f. vm_content vm k = Some ''clock'' \<and> object_at (vm_heap vm) f = Inr (OBJECT_NATIVE native_clock)
            \<and> table_abs (vm_globals vm) = [k \<mapsto> VAL_OBJECT f])"
proof -
  let ?vm = "vm_stack_reset \<lparr>vm_frames = [], vm_stack = [], vm_strings = table_init,
     vm_globals = table_init, vm_objects = None, vm_heap = [], vm_out = [], vm_err = [], vm_clock = clock\<rparr>"
  have "heap_inv (empty_vm\<lparr>vm_clock := clock\<rparr>)" using empty_vm_inv by simp
  then have "heap_inv ?vm" "vm_stack ?vm = []" "vm_globals ?vm = table_init"
    by (simp_all add: empty_vm_def vm_stack_reset_def)
  then obtain vm' k where v: "native_define ?vm ''clock'' native_clock = Inr vm'" "heap_inv vm'" "vm_stack vm' = []"
    "vm_frames vm' = vm_frames ?vm" "is_str (vm_heap vm') k" "vs_chars (str_of (vm_heap vm') k) = ''clock''"
    "table_inv (str_of (vm_heap vm')) (vm_globals vm')"
    "table_abs (vm_globals vm') = [k \<mapsto> VAL_OBJECT (length (vm_heap vm') - 1)]"
    "object_at (vm_heap vm') (length (vm_heap vm') - 1) = Inr (OBJECT_NATIVE native_clock)"
    "is_fun (vm_heap vm') = is_fun (vm_heap ?vm)" by (rule native_define_ok [of ?vm "''clock''" native_clock])
  have "val_ok (vm_heap vm') (VAL_OBJECT (length (vm_heap vm') - 1))"
    using is_str_length [OF v(5)] by (simp add: val_ok_def)
  with v have "world_ok C vm'"
    by (auto simp: world_ok_def vm_stack_reset_def is_fun_def split: if_splits)
  with v show ?thesis
    by (auto simp: vm_init_def vm_ok_def vm_content_def vm_stack_reset_def)
qed

text \<open>
  C29. \<^verbatim>\<open>OP_ADD\<close> on two strings replaces them by a reference to the one interned string with
  the characters of the first followed by those of the second, and changes nothing else on
  the stack.
\<close>

theorem add_strings_concatenates:
  assumes inv: "heap_inv vm" and stack: "vm_stack vm = s @ [VAL_OBJECT a, VAL_OBJECT b]"
    and room: "length (vm_stack vm) \<le> STACK_MAX"
    and str: "vm_content vm a = Some x" "vm_content vm b = Some y"
  shows "\<exists>vm' r. exec OP_ADD vm = Inr (Running vm') \<and> vm_stack vm' = s @ [VAL_OBJECT r]
    \<and> vm_content vm' r = Some (x @ y) \<and> heap_inv vm' \<and> vm_frames vm' = vm_frames vm"
proof -
  let ?H = "vm_heap vm"
  from str have ab: "is_str ?H a" "is_str ?H b" "x = vs_chars (str_of ?H a)" "y = vs_chars (str_of ?H b)"
    by (auto simp: vm_content_def split: if_splits)
  then have good: "vs_length (str_of ?H a) = length x" "vs_length (str_of ?H b) = length y"
    using inv by (auto simp: heap_inv_def interned_def good_string_def)
  let ?vm2 = "vm\<lparr>vm_stack := s\<rparr>"
  have inv2: "heap_inv ?vm2" using inv by simp
  obtain vm3 r where r: "vmstring_copy ?vm2 (x @ y) (length (x @ y)) = Inr (vm3, r)" "heap_inv vm3" "only_allocates ?vm2 vm3"
    "is_str (vm_heap vm3) r" "vs_chars (str_of (vm_heap vm3) r) = take (length (x @ y)) (x @ y)"
    by (rule vmstring_copy_spec [OF inv2 order_refl])
  have same: "vm_stack vm3 = s" "vm_frames vm3 = vm_frames vm" using r(3) by (simp_all add: only_allocates_def)
  let ?vm' = "vm3\<lparr>vm_stack := s @ [VAL_OBJECT r]\<rparr>"
  have pops: "vm_stack_pop vm = Inr (vm\<lparr>vm_stack := s @ [VAL_OBJECT a]\<rparr>, VAL_OBJECT b)"
    "vm_stack_pop (vm\<lparr>vm_stack := s @ [VAL_OBJECT a]\<rparr>) = Inr (?vm2, VAL_OBJECT a)"
    using stack by (simp_all add: vm_stack_pop_def butlast_append)
  have "vmstring_concatenate vm = Inr ?vm'"
    using pops r(1) ab good room same stack vmstring_take_copy [of "length x + length y" "x @ y" ?vm2]
    by (simp add: vmstring_concatenate_def as_object_def as_string_is_str Let_def vm_stack_push_def object_val_def)
  moreover have "IS_STRING ?H (VAL_OBJECT a)" "IS_STRING ?H (VAL_OBJECT b)"
    using str_of_nth [OF ab(1)] str_of_nth [OF ab(2)] ab(1,2)
    by (simp_all add: IS_STRING_def object_at_def is_str_length)
  moreover have "vm_stack_peek vm 0 = Inr (VAL_OBJECT b)" "vm_stack_peek vm 1 = Inr (VAL_OBJECT a)"
    using stack by (simp_all add: vm_stack_peek_def nth_append)
  ultimately have "exec OP_ADD vm = Inr (Running ?vm')" by simp
  with r same show ?thesis by (intro exI [of _ ?vm'] exI [of _ r]) (simp add: vm_content_def)
qed

theorem add_strings_concatenates_witness:
  "\<exists>vm a b. vm_content vm a = Some ''ab'' \<and> vm_content vm b = Some ''c''
     \<and> (\<exists>vm' r. exec OP_ADD (vm\<lparr>vm_stack := [VAL_OBJECT a, VAL_OBJECT b]\<rparr>) = Inr (Running vm')
          \<and> vm_stack vm' = [] @ [VAL_OBJECT r] \<and> vm_content vm' r = Some (''ab'' @ ''c'')
          \<and> heap_inv vm' \<and> vm_frames vm' = vm_frames (vm\<lparr>vm_stack := [VAL_OBJECT a, VAL_OBJECT b]\<rparr>))"
proof -
  obtain vm1 a where 1: "heap_inv vm1" "vm_content vm1 a = Some ''ab''"
    using vm_pool.intern_ok [OF empty_vm_inv, of "''ab''"] by blast
  obtain vm2 b where 2: "heap_inv vm2" "vm_content vm2 b = Some ''c''" "vm_content vm2 a = Some ''ab''"
    using vm_pool.intern_ok [OF 1(1), of "''c''"] 1(2) by fastforce
  have "\<exists>vm' r. exec OP_ADD (vm2\<lparr>vm_stack := [VAL_OBJECT a, VAL_OBJECT b]\<rparr>) = Inr (Running vm')
          \<and> vm_stack vm' = [] @ [VAL_OBJECT r] \<and> vm_content vm' r = Some (''ab'' @ ''c'')
          \<and> heap_inv vm' \<and> vm_frames vm' = vm_frames (vm2\<lparr>vm_stack := [VAL_OBJECT a, VAL_OBJECT b]\<rparr>)"
    by (rule add_strings_concatenates [where a = a and b = b])
      (use 2 in \<open>auto simp: vm_content_def STACK_MAX_def FRAMES_MAX_def BYTE_COUNT_def split: if_splits\<close>)
  with 2 show ?thesis by blast
qed

text \<open>
  C13. A call and its return: the callee's frame starts at the callee's slot, and when it
  returns \<open>v\<close>, with whatever locals and temporaries above its base, the caller is resumed with
  the callee and its arguments replaced by \<open>v\<close> and everything below untouched.
\<close>

theorem call_return_stack:
  assumes "vm_call vm r f n = Inr (vm1, True)" and "vm_frames vm \<noteq> []"
    and "vm_stack vm2 = take (length (vm_stack vm) - n - 1) (vm_stack vm) @ locals @ [v]"
    and "length (vm_stack vm2) \<le> STACK_MAX"
    and "vm_frames vm2 = (hd (vm_frames vm1))\<lparr>cf_ip := ip\<rparr> # tl (vm_frames vm1)"
  shows "\<exists>vm3. exec OP_RETURN vm2 = Inr (Running vm3) \<and> vm_frames vm3 = vm_frames vm
    \<and> vm_stack vm3 = take (length (vm_stack vm) - n - 1) (vm_stack vm) @ [v]"
proof -
  let ?base = "length (vm_stack vm) - n - 1"
  have "\<not> length (vm_stack vm) < n + 1"
    "vm1 = vm\<lparr>vm_frames := \<lparr>cf_function = r, cf_ip = 0, cf_slots = ?base\<rparr> # vm_frames vm\<rparr>"
    using assms(1) by (auto simp: vm_call_def runtime_error_def split: if_splits elim!: bind_result_InrE)
  then have fr: "vm_frames vm2 = \<lparr>cf_function = r, cf_ip = ip, cf_slots = ?base\<rparr> # vm_frames vm"
    and len: "length (take ?base (vm_stack vm)) = ?base" using assms(5) by simp_all
  have pop: "vm_stack_pop vm2 = Inr (vm2\<lparr>vm_stack := take ?base (vm_stack vm) @ locals\<rparr>, v)"
    using assms(3) by (simp add: vm_stack_pop_def butlast_append)
  have "?base < STACK_MAX" using assms(3,4) len by simp
  with pop fr assms(2) len show ?thesis
    by (simp add: top_frame_def Let_def push_run_def vm_stack_push_def)
qed

definition call_vm :: VM where
  "call_vm = sample_vm\<lparr>vm_stack := [VAL_NIL, VAL_OBJECT 0], vm_frames := [\<lparr>cf_function = 0, cf_ip = 1, cf_slots = 0\<rparr>]\<rparr>"

theorem call_return_stack_witness:
  "\<exists>vm3. exec OP_RETURN (call_vm\<lparr>vm_stack := [VAL_NIL, VAL_OBJECT 0, VAL_BOOL 1],
        vm_frames := [\<lparr>cf_function = 0, cf_ip = 9, cf_slots = 1\<rparr>, \<lparr>cf_function = 0, cf_ip = 1, cf_slots = 0\<rparr>]\<rparr>)
      = Inr (Running vm3) \<and> vm_frames vm3 = vm_frames call_vm
    \<and> vm_stack vm3 = take (length (vm_stack call_vm) - 0 - 1) (vm_stack call_vm) @ [VAL_BOOL 1]"
  by (rule call_return_stack [where r = 0 and f = sample_fun and locals = "[VAL_OBJECT 0]" and ip = 9 and n = 0 and
        ?vm1.0 = "call_vm\<lparr>vm_frames := \<lparr>cf_function = 0, cf_ip = 0, cf_slots = 1\<rparr> # vm_frames call_vm\<rparr>"])
    (simp_all add: vm_call_def call_vm_def sample_fun_def FRAMES_MAX_def STACK_MAX_def BYTE_COUNT_def)

text \<open>
  An assignment to an undefined global reports ``Undefined variable'' and stops the
  program, but the variable is defined by it: \<^verbatim>\<open>table_set\<close> has already stored the value when
  the new key is noticed, and it is not taken out again.
\<close>

theorem set_global_defines_undefined:
  assumes "READ_STRING vm = Inr (vm1, name)" "vm_stack_peek vm1 0 = Inr v"
    and "table_inv (str_of (vm_heap vm1)) (vm_globals vm1)" "table_abs (vm_globals vm1) name = None"
    and "trace_loop (vm_heap vm1) (vm_frames vm1) = Inr tr"
  shows "\<exists>vm'. exec OP_SET_GLOBAL vm = Inr (Done INTERPRET_RUNTIME_ERROR vm')
    \<and> table_abs (vm_globals vm') = (table_abs (vm_globals vm1))(name \<mapsto> v)"
proof -
  obtain t where "table_set (str_of (vm_heap vm1)) (vm_globals vm1) name v = Inr (t, True)"
    "table_abs t = (table_abs (vm_globals vm1))(name \<mapsto> v)"
    by (rule table_set_spec [OF assms(3), of name v]) (use assms(4) in simp)
  with assms(1,2,5) show ?thesis
    by (simp add: Let_def fail_def runtime_error_def vm_stack_reset_def)
qed

text \<open>A machine about to assign 1 to a global it does not have.\<close>

definition assign_vm :: VM where
  "assign_vm = \<lparr>vm_frames = [\<lparr>cf_function = 1, cf_ip = 1, cf_slots = 0\<rparr>], vm_stack = [VAL_BOOL 1],
     vm_strings = table_init, vm_globals = table_init, vm_objects = Some 1,
     vm_heap = [\<lparr>ob_next = None, ob_body = OBJECT_STRING \<lparr>vs_length = 1, vs_chars = ''x'', vs_hash = 3\<rparr>\<rparr>,
       \<lparr>ob_next = Some 0, ob_body = OBJECT_FUNCTION \<lparr>vf_arity = 0,
          vf_chunk = fst (chunk_constants_add (chunk_write (chunk_write chunk_init (op_byte OP_SET_GLOBAL) 7) 0 7) (VAL_OBJECT 0)),
          vf_name = None\<rparr>\<rparr>],
     vm_out = [], vm_err = [], vm_clock = []\<rparr>"

lemma assign_vm_reads:
  "READ_STRING assign_vm = Inr (set_ip assign_vm 2, 0)"
  "trace_loop (vm_heap assign_vm) (vm_frames (set_ip assign_vm 2)) = Inr [Err_Trace 7 None]"
  "vm_stack_peek (set_ip assign_vm 2) 0 = Inr (VAL_BOOL 1)"
  by code_simp+

theorem set_global_defines_undefined_witness:
  "\<exists>vm'. exec OP_SET_GLOBAL assign_vm = Inr (Done INTERPRET_RUNTIME_ERROR vm')
    \<and> table_abs (vm_globals vm') = (table_abs (vm_globals (set_ip assign_vm 2)))(0 \<mapsto> VAL_BOOL 1)"
  by (rule set_global_defines_undefined [OF assign_vm_reads(1,3)])
    (use assign_vm_reads(2) in \<open>simp_all add: assign_vm_def set_ip_def table_init_inv table_init_abs\<close>)

end
