(* ===== verification/Clox_Debug.thy ===== *)
theory Clox_Debug
  imports Clox_Safety
begin

text \<open>
  The disassembler of \<^verbatim>\<open>src/vm/debug.c\<close>. What it prints is a list of items, one per
  conversion of the C code. The loop of \<^verbatim>\<open>chunk_disassemble\<close> gets as many steps as the chunk has
  bytes; every instruction advances the offset, so that is enough.
\<close>

section \<open>Operations\<close>

datatype dis_item =
    Dis_Title string
  | Dis_Footer
  | Dis_Offset nat
  | Dis_Same_Line
  | Dis_Line int
  | Dis_Simple string
  | Dis_Constant string nat out_item
  | Dis_Byte string nat
  | Dis_Jump string nat int
  | Dis_Unknown nat

definition instruction_simple :: "string \<Rightarrow> nat \<Rightarrow> (dis_item list \<times> nat) result" where
  "instruction_simple name offset = Inr ([Dis_Simple name], offset + 1)"

definition instruction_constant :: "objects \<Rightarrow> string \<Rightarrow> Chunk \<Rightarrow> nat \<Rightarrow> (dis_item list \<times> nat) result" where
  "instruction_constant H name chunk offset =
     bind_result (array_at (ck_code chunk) (offset + 1)) (\<lambda>constant.
     bind_result (array_at (va_values (ck_constants chunk)) (unat constant)) (\<lambda>v.
     bind_result (value_print H v) (\<lambda>item. Inr ([Dis_Constant name (unat constant) item], offset + 2))))"

definition instruction_byte :: "string \<Rightarrow> Chunk \<Rightarrow> nat \<Rightarrow> (dis_item list \<times> nat) result" where
  "instruction_byte name chunk offset =
     bind_result (array_at (ck_code chunk) (offset + 1)) (\<lambda>slot. Inr ([Dis_Byte name (unat slot)], offset + 2))"

definition instruction_jump :: "string \<Rightarrow> int \<Rightarrow> Chunk \<Rightarrow> nat \<Rightarrow> (dis_item list \<times> nat) result" where
  "instruction_jump name sign chunk offset =
     bind_result (array_at (ck_code chunk) (offset + 1)) (\<lambda>hi.
     bind_result (array_at (ck_code chunk) (offset + 2)) (\<lambda>lo.
       let jump = or (push_bit 8 (ucast hi :: short)) (ucast lo)
       in Inr ([Dis_Jump name offset (int offset + 3 + sign * uint jump)], offset + 3)))"

fun disassemble_op :: "objects \<Rightarrow> Chunk \<Rightarrow> nat \<Rightarrow> OpCode \<Rightarrow> (dis_item list \<times> nat) result" where
  "disassemble_op H chunk offset OP_RETURN = instruction_simple ''OP_RETURN'' offset"
| "disassemble_op H chunk offset OP_CONSTANT = instruction_constant H ''OP_CONSTANT'' chunk offset"
| "disassemble_op H chunk offset OP_NEGATE = instruction_simple ''OP_NEGATE'' offset"
| "disassemble_op H chunk offset OP_ADD = instruction_simple ''OP_ADD'' offset"
| "disassemble_op H chunk offset OP_SUBTRACT = instruction_simple ''OP_SUBTRACT'' offset"
| "disassemble_op H chunk offset OP_MULTIPLY = instruction_simple ''OP_MULTIPLY'' offset"
| "disassemble_op H chunk offset OP_DIVIDE = instruction_simple ''OP_DIVIDE'' offset"
| "disassemble_op H chunk offset OP_NIL = instruction_simple ''OP_NIL'' offset"
| "disassemble_op H chunk offset OP_TRUE = instruction_simple ''OP_TRUE'' offset"
| "disassemble_op H chunk offset OP_FALSE = instruction_simple ''OP_FALSE'' offset"
| "disassemble_op H chunk offset OP_NOT = instruction_simple ''OP_NOT'' offset"
| "disassemble_op H chunk offset OP_EQUAL = instruction_simple ''OP_EQUAL'' offset"
| "disassemble_op H chunk offset OP_GREATER = instruction_simple ''OP_GREATER'' offset"
| "disassemble_op H chunk offset OP_LESS = instruction_simple ''OP_LESS'' offset"
| "disassemble_op H chunk offset OP_PRINT = instruction_simple ''OP_PRINT'' offset"
| "disassemble_op H chunk offset OP_POP = instruction_simple ''OP_POP'' offset"
| "disassemble_op H chunk offset OP_DEFINE_GLOBAL = instruction_constant H ''OP_DEFINE_GLOBAL'' chunk offset"
| "disassemble_op H chunk offset OP_GET_GLOBAL = instruction_constant H ''OP_GET_GLOBAL'' chunk offset"
| "disassemble_op H chunk offset OP_SET_GLOBAL = instruction_constant H ''OP_SET_GLOBAL'' chunk offset"
| "disassemble_op H chunk offset OP_GET_LOCAL = instruction_byte ''OP_GET_LOCAL'' chunk offset"
| "disassemble_op H chunk offset OP_SET_LOCAL = instruction_byte ''OP_SET_LOCAL'' chunk offset"
| "disassemble_op H chunk offset OP_JUMP = instruction_jump ''OP_JUMP'' 1 chunk offset"
| "disassemble_op H chunk offset OP_JUMP_IF_FALSE = instruction_jump ''OP_JUMP_IF_FALSE'' 1 chunk offset"
| "disassemble_op H chunk offset OP_LOOP = instruction_jump ''OP_LOOP'' (-1) chunk offset"
| "disassemble_op H chunk offset OP_CALL = instruction_byte ''OP_CALL'' chunk offset"

definition disassemble_line :: "Chunk \<Rightarrow> nat \<Rightarrow> dis_item result" where
  "disassemble_line chunk offset =
     bind_result (array_at (ck_lines chunk) offset) (\<lambda>line.
       if 0 < offset
       then bind_result (array_at (ck_lines chunk) (offset - 1))
              (\<lambda>before. Inr (if line = before then Dis_Same_Line else Dis_Line line))
       else Inr (Dis_Line line))"

definition chunk_disassemble_instruction :: "objects \<Rightarrow> Chunk \<Rightarrow> nat \<Rightarrow> (dis_item list \<times> nat) result" where
  "chunk_disassemble_instruction H chunk offset =
     bind_result (disassemble_line chunk offset) (\<lambda>line.
     bind_result (array_at (ck_code chunk) offset) (\<lambda>instruction.
     bind_result (case decode_op instruction of
         Some op \<Rightarrow> disassemble_op H chunk offset op
       | None \<Rightarrow> Inr ([Dis_Unknown (unat instruction)], offset + 1))
       (\<lambda>(items, next). Inr (Dis_Offset offset # line # items, next))))"

fun disassemble_loop :: "nat \<Rightarrow> objects \<Rightarrow> Chunk \<Rightarrow> nat \<Rightarrow> dis_item list result" where
  "disassemble_loop fuel H chunk offset =
     (if offset < ck_count chunk
      then case fuel of 0 \<Rightarrow> Inl Out_Of_Fuel
        | Suc fuel' \<Rightarrow> bind_result (chunk_disassemble_instruction H chunk offset) (\<lambda>(items, next).
            bind_result (disassemble_loop fuel' H chunk next) (\<lambda>rest. Inr (items @ rest)))
      else Inr [])"

declare disassemble_loop.simps [simp del]

definition chunk_disassemble :: "objects \<Rightarrow> Chunk \<Rightarrow> string \<Rightarrow> dis_item list result" where
  "chunk_disassemble H chunk name =
     bind_result (disassemble_loop (ck_count chunk) H chunk 0)
       (\<lambda>items. Inr (Dis_Title name # items @ [Dis_Footer]))"

section \<open>Instruction lengths\<close>

text \<open>Operand bytes of an instruction.\<close>

fun op_operands :: "OpCode \<Rightarrow> nat" where
  "op_operands OP_CONSTANT = 1"
| "op_operands OP_DEFINE_GLOBAL = 1"
| "op_operands OP_GET_GLOBAL = 1"
| "op_operands OP_SET_GLOBAL = 1"
| "op_operands OP_GET_LOCAL = 1"
| "op_operands OP_SET_LOCAL = 1"
| "op_operands OP_CALL = 1"
| "op_operands OP_JUMP = 2"
| "op_operands OP_JUMP_IF_FALSE = 2"
| "op_operands OP_LOOP = 2"
| "op_operands _ = 0"

lemma disassemble_op_next:
  "disassemble_op H chunk offset op = Inr (items, next) \<Longrightarrow> next = offset + 1 + op_operands op"
  by (cases op) (auto simp: instruction_simple_def instruction_constant_def instruction_byte_def
      instruction_jump_def Let_def bind_result_eq_Inr)

lemma disassemble_instruction_next:
  assumes "chunk_disassemble_instruction H chunk offset = Inr (items, next)"
  shows "\<exists>b. array_at (ck_code chunk) offset = Inr b
    \<and> next = offset + 1 + (case decode_op b of Some op \<Rightarrow> op_operands op | None \<Rightarrow> 0)"
proof -
  from assms obtain line b its where "array_at (ck_code chunk) offset = Inr b"
    "(case decode_op b of Some op \<Rightarrow> disassemble_op H chunk offset op
      | None \<Rightarrow> Inr ([Dis_Unknown (unat b)], offset + 1)) = Inr (its, next)"
    unfolding chunk_disassemble_instruction_def by (auto elim!: bind_result_InrE)
  then show ?thesis by (cases "decode_op b") (auto dest: disassemble_op_next)
qed

lemma array_at_ends [simp]: "ends (array_at a i)"
  by (auto simp: array_at_def split: option.splits)

lemma object_at_ends [simp]: "ends (object_at H r)"
  by (simp add: object_at_def)

lemma value_print_ends [simp]: "ends (value_print H v)"
  unfolding value_print_def object_print_def as_string_def
  by (auto intro!: ends_bind split: Value.splits object_body.splits option.splits)

lemma disassemble_op_ends: "ends (disassemble_op H chunk offset op)"
  by (cases op) (auto simp: instruction_simple_def instruction_constant_def instruction_byte_def
      instruction_jump_def Let_def intro!: ends_bind)

lemma disassemble_instruction_ends: "ends (chunk_disassemble_instruction H chunk offset)"
  unfolding chunk_disassemble_instruction_def disassemble_line_def
  by (auto simp: disassemble_op_ends intro!: ends_bind split: option.splits)

lemma disassemble_loop_ends:
  "ck_count chunk \<le> offset + fuel \<Longrightarrow> ends (disassemble_loop fuel H chunk offset)"
proof (induction fuel arbitrary: offset)
  case 0
  then show ?case by (simp add: disassemble_loop.simps)
next
  case (Suc fuel)
  have "ends (disassemble_loop fuel H chunk nxt)"
    if "chunk_disassemble_instruction H chunk offset = Inr (items, nxt)" for items nxt
    using disassemble_instruction_next [OF that] Suc by auto
  then show ?case
    by (subst disassemble_loop.simps) (auto intro!: ends_bind disassemble_instruction_ends)
qed

section \<open>Agreement with the machine\<close>

definition ip_of :: "VM \<Rightarrow> nat" where
  "ip_of vm = cf_ip (hd (vm_frames vm))"

lemma frames_kept:
  "vm_stack_push vm v = Inr vm1 \<Longrightarrow> vm_frames vm1 = vm_frames vm"
  "vm_stack_pop vm = Inr (vm1, v) \<Longrightarrow> vm_frames vm1 = vm_frames vm"
  "print_line vm v = Inr vm1 \<Longrightarrow> vm_frames vm1 = vm_frames vm"
  "push_run vm v = Inr (Running vm1) \<Longrightarrow> vm_frames vm1 = vm_frames vm"
  by (auto simp: vm_stack_push_def vm_stack_pop_def print_line_def push_run_def bind_result_eq_Inr split: if_splits)

lemma fail_not_running: "fail vm msg \<noteq> Inr (Running vm1)"
  by (auto simp: fail_def bind_result_eq_Inr)

lemma READ_BYTE_ip: "READ_BYTE vm = Inr (vm1, b) \<Longrightarrow> ip_of vm1 = Suc (ip_of vm)"
  by (auto simp: READ_BYTE_def top_frame_def set_ip_def ip_of_def bind_result_eq_Inr split: list.splits)

lemma READ_CONSTANT_ip: "READ_CONSTANT vm = Inr (vm1, v) \<Longrightarrow> ip_of vm1 = Suc (ip_of vm)"
  by (auto simp: READ_CONSTANT_def bind_result_eq_Inr dest: READ_BYTE_ip)

lemma READ_STRING_ip: "READ_STRING vm = Inr (vm1, r) \<Longrightarrow> ip_of vm1 = Suc (ip_of vm)"
  by (auto simp: READ_STRING_def bind_result_eq_Inr dest: READ_CONSTANT_ip)

lemma READ_SHORT_ip: "READ_SHORT vm = Inr (vm1, k) \<Longrightarrow> ip_of vm1 = Suc (Suc (ip_of vm))"
  by (auto simp: READ_SHORT_def bind_result_eq_Inr dest!: READ_BYTE_ip)

definition straight :: "OpCode \<Rightarrow> bool" where
  "straight op \<longleftrightarrow> op \<notin> {OP_RETURN, OP_CALL, OP_JUMP, OP_JUMP_IF_FALSE, OP_LOOP}"

lemma BINARY_OP_ip: "BINARY_OP f vm = Inr (Running vm1) \<Longrightarrow> vm_frames vm1 = vm_frames vm"
  by (auto simp: BINARY_OP_def fail_not_running split: Value.splits elim!: bind_result_InrE dest!: frames_kept)

lemma new_vmstring_frames: "new_vmstring vm s n h = Inr (vm1, r) \<Longrightarrow> vm_frames vm1 = vm_frames vm"
  by (auto simp: new_vmstring_def new_vmobject_def Let_def bind_result_eq_Inr)

lemma concatenate_frames: "vmstring_concatenate vm = Inr vm1 \<Longrightarrow> vm_frames vm1 = vm_frames vm"
  by (auto simp: vmstring_concatenate_def vmstring_take_def Let_def
      split: option.splits elim!: bind_result_InrE dest!: frames_kept new_vmstring_frames)

lemma exec_straight:
  assumes "straight op" "exec op vm = Inr (Running vm1)"
  shows "ip_of vm1 = ip_of vm + op_operands op"
proof -
  note kept = frames_kept BINARY_OP_ip concatenate_frames READ_BYTE_ip READ_CONSTANT_ip READ_STRING_ip
  show ?thesis
    using assms
  proof (cases op)
    case OP_ADD
    with assms(2) show ?thesis
      by (auto simp: ip_of_def fail_not_running split: if_splits Value.splits elim!: bind_result_InrE dest!: kept)
  next
    case OP_NEGATE
    with assms(2) show ?thesis
      by (auto simp: ip_of_def fail_not_running split: Value.splits elim!: bind_result_InrE dest!: kept)
  next
    case OP_GET_GLOBAL
    with assms(2) show ?thesis
      by (auto simp: ip_of_def fail_not_running split: option.splits elim!: bind_result_InrE dest!: kept)
  next
    case OP_SET_GLOBAL
    with assms(2) show ?thesis
      by (auto simp: ip_of_def fail_not_running Let_def split: if_splits elim!: bind_result_InrE dest!: kept)
  next
    case OP_GET_LOCAL
    with assms(2) show ?thesis
      by (auto simp: ip_of_def split: if_splits elim!: bind_result_InrE dest!: kept)
  next
    case OP_SET_LOCAL
    with assms(2) show ?thesis
      by (auto simp: ip_of_def split: if_splits elim!: bind_result_InrE dest!: kept)
  qed (auto simp: straight_def ip_of_def elim!: bind_result_InrE dest!: kept)
qed

section \<open>The properties of the disassembler\<close>

text \<open>
  C23. Disassembling a chunk always ends: every instruction, known or not, advances the
  offset, so the number of bytes bounds the number of instructions listed.
\<close>

theorem disassembler_terminates:
  "chunk_disassemble H chunk name \<noteq> Inl Out_Of_Fuel"
  using disassemble_loop_ends [of chunk 0 "ck_count chunk" H]
  unfolding ends_def [symmetric] chunk_disassemble_def by (auto intro!: ends_bind)

text \<open>
  C24. The disassembler and the interpreter agree on where instructions begin: when the
  machine executes an instruction that is no jump, call or return, its instruction pointer
  ends where the disassembler of that chunk, started at the same offset, goes on.
\<close>

theorem disassembler_agrees_with_vm:
  assumes "vm_frames vm = f # fs" "as_function (vm_heap vm) (cf_function f) = Inr fn"
    and "array_at (ck_code (vf_chunk fn)) (cf_ip f) = Inr (op_byte op)" "straight op"
    and "vm_step vm = Inr (Running vm1)"
    and "chunk_disassemble_instruction H (vf_chunk fn) (cf_ip f) = Inr (items, next)"
  shows "cf_ip (hd (vm_frames vm1)) = next"
proof -
  have "next = cf_ip f + 1 + op_operands op"
    using disassemble_instruction_next [OF assms(6)] assms(3) by simp
  moreover have "ip_of vm1 = Suc (cf_ip f) + op_operands op"
    using assms exec_straight [OF assms(4)]
    by (auto simp: vm_step_def READ_BYTE_def top_frame_def set_ip_def ip_of_def)
  ultimately show ?thesis by (simp add: ip_of_def)
qed

definition nil_vm :: VM where
  "nil_vm = sample_vm\<lparr>vm_stack := [VAL_OBJECT 0], vm_frames := [\<lparr>cf_function = 0, cf_ip = 0, cf_slots = 0\<rparr>]\<rparr>"

lemma nil_vm_step:
  "vm_step nil_vm = Inr (Running (nil_vm\<lparr>vm_stack := [VAL_OBJECT 0, VAL_NIL],
     vm_frames := [\<lparr>cf_function = 0, cf_ip = 1, cf_slots = 0\<rparr>]\<rparr>))"
  "as_function (vm_heap nil_vm) 0 = Inr sample_fun"
  "array_at (ck_code (vf_chunk sample_fun)) 0 = Inr (op_byte OP_NIL)"
  "chunk_disassemble_instruction (vm_heap nil_vm) (vf_chunk sample_fun) 0
     = Inr ([Dis_Offset 0, Dis_Line 1, Dis_Simple ''OP_NIL''], 1)"
  by code_simp+

theorem disassembler_agrees_with_vm_witness:
  "cf_ip (hd (vm_frames (nil_vm\<lparr>vm_stack := [VAL_OBJECT 0, VAL_NIL],
     vm_frames := [\<lparr>cf_function = 0, cf_ip = 1, cf_slots = 0\<rparr>]\<rparr>))) = 1"
  by (rule disassembler_agrees_with_vm [where f = "\<lparr>cf_function = 0, cf_ip = 0, cf_slots = 0\<rparr>" and fs = "[]"
        and fn = sample_fun and op = OP_NIL and H = "vm_heap nil_vm"
        and items = "[Dis_Offset 0, Dis_Line 1, Dis_Simple ''OP_NIL'']", OF _ _ _ _ nil_vm_step(1)])
    (use nil_vm_step in \<open>simp_all add: nil_vm_def straight_def\<close>)

end
