(* ===== verification/Clox_Compiler.thy ===== *)
theory Clox_Compiler
  imports Clox_Tokenizer Clox_Vm
begin

text \<open>
  The single-pass compiler of \<^verbatim>\<open>src/vm/compiler.c\<close>: a Pratt parser that writes bytecode as it
  reads tokens. The static variables \<^verbatim>\<open>parser\<close> and \<^verbatim>\<open>currentCompiler\<close> and the machine \<^verbatim>\<open>vm\<close>, whose
  heap holds the functions under construction, are threaded through every operation as one
  state. The token list is the sequence of tokens and a \<^verbatim>\<open>Node*\<close> is a position in it.

  The C functions are mutually recursive through \<^verbatim>\<open>prec_parse\<close>, \<^verbatim>\<open>statement\<close> and \<^verbatim>\<open>declaration\<close>. Each
  of the others is a definition of its own that takes the recursive functions it calls as
  arguments; the three recursive ones tie the knot with a step budget. The budget matters:
  \<^verbatim>\<open>synchronize\<close> loops for ever on most erroneous inputs.
\<close>

section \<open>State\<close>

datatype FunctionType = TYPE_FUNCTION | TYPE_SCRIPT

record VmParser =
  ps_tokens :: "Token list"
  ps_current :: nat
  ps_previous :: "nat option"
  ps_panicMode :: bool
  ps_hadError :: bool

record Local =
  lc_name :: Token
  lc_depth :: int

text \<open>\<^verbatim>\<open>cp_locals\<close> holds \<^verbatim>\<open>locals[0]\<close> to \<^verbatim>\<open>locals[localCount - 1]\<close>.\<close>

record VmCompiler =
  cp_function :: nat
  cp_type :: FunctionType
  cp_locals :: "Local list"
  cp_scopeDepth :: int

text \<open>The current compiler is the first of the list, the rest is its chain of enclosing ones.\<close>

record CS =
  cs_parser :: VmParser
  cs_compilers :: "VmCompiler list"
  cs_vm :: VM

definition BYTE_MAX :: int where
  "BYTE_MAX = 255"

definition SHORT_MAX :: int where
  "SHORT_MAX = 65535"

section \<open>Tokens and errors\<close>

definition token_at :: "CS \<Rightarrow> nat \<Rightarrow> Token result" where
  "token_at s i = (if i < length (ps_tokens (cs_parser s)) then Inr (ps_tokens (cs_parser s) ! i)
     else Inl (Crash Null_Deref))"

definition current_token :: "CS \<Rightarrow> Token result" where
  "current_token s = token_at s (ps_current (cs_parser s))"

definition previous_token :: "CS \<Rightarrow> Token result" where
  "previous_token s = (case ps_previous (cs_parser s) of None \<Rightarrow> Inl (Crash Null_Deref) | Some i \<Rightarrow> token_at s i)"

definition c_lexeme :: "Token \<Rightarrow> string" where
  "c_lexeme t = (case tk_lexeme t of None \<Rightarrow> ''(null)'' | Some x \<Rightarrow> x)"

definition error_at :: "Token \<Rightarrow> string \<Rightarrow> CS \<Rightarrow> CS" where
  "error_at t message s =
     (if ps_panicMode (cs_parser s) then s
      else let place = (if tk_type t = TOKEN_ENDOFFILE then '' at end''
                        else if tk_type t = TOKEN_ERROR then []
                        else '' at '' @ [CHR 0x27] @ c_lexeme t @ [CHR 0x27])
           in s\<lparr>cs_parser := (cs_parser s)\<lparr>ps_panicMode := True, ps_hadError := True\<rparr>,
                cs_vm := (cs_vm s)\<lparr>vm_err := vm_err (cs_vm s) @ [Err_Compile (int (tk_line t)) place message]\<rparr>\<rparr>)"

text \<open>\<^verbatim>\<open>error\<close> and \<^verbatim>\<open>error_at_current\<close>.\<close>

definition error_prev :: "string \<Rightarrow> CS \<Rightarrow> CS result" where
  "error_prev message s = bind_result (previous_token s) (\<lambda>t. Inr (error_at t message s))"

definition error_at_current :: "string \<Rightarrow> CS \<Rightarrow> CS result" where
  "error_at_current message s = bind_result (current_token s) (\<lambda>t. Inr (error_at t message s))"

text \<open>The loop of \<^verbatim>\<open>advance\<close>; the first argument is the number of nodes behind the current one.\<close>

fun advance_loop :: "nat \<Rightarrow> CS \<Rightarrow> CS result" where
  "advance_loop 0 s = Inr s"
| "advance_loop (Suc n) s =
     (let s1 = s\<lparr>cs_parser := (cs_parser s)\<lparr>ps_current := Suc (ps_current (cs_parser s))\<rparr>\<rparr>
      in bind_result (current_token s1) (\<lambda>t.
           if tk_type t \<noteq> TOKEN_ERROR then Inr s1
           else advance_loop n (error_at t (c_lexeme t) s1)))"

definition advance :: "CS \<Rightarrow> CS result" where
  "advance s =
     advance_loop (length (ps_tokens (cs_parser s)) - 1 - ps_current (cs_parser s))
       (s\<lparr>cs_parser := (cs_parser s)\<lparr>ps_previous := Some (ps_current (cs_parser s))\<rparr>\<rparr>)"

definition check :: "TokenType \<Rightarrow> CS \<Rightarrow> bool result" where
  "check type s = bind_result (current_token s) (\<lambda>t. Inr (tk_type t = type))"

definition match :: "TokenType \<Rightarrow> CS \<Rightarrow> (bool \<times> CS) result" where
  "match type s = bind_result (check type s) (\<lambda>b.
     if \<not> b then Inr (False, s) else bind_result (advance s) (\<lambda>s1. Inr (True, s1)))"

definition consume :: "TokenType \<Rightarrow> string \<Rightarrow> CS \<Rightarrow> CS result" where
  "consume type message s = bind_result (current_token s) (\<lambda>t.
     if tk_type t = type then advance s else error_at_current message s)"

section \<open>Emitting code\<close>

definition current_compiler :: "CS \<Rightarrow> VmCompiler result" where
  "current_compiler s = (case cs_compilers s of [] \<Rightarrow> Inl (Crash Null_Deref) | c # _ \<Rightarrow> Inr c)"

definition put_compiler :: "VmCompiler \<Rightarrow> CS \<Rightarrow> CS" where
  "put_compiler c s = s\<lparr>cs_compilers := c # tl (cs_compilers s)\<rparr>"

definition current_function :: "CS \<Rightarrow> VmFunction result" where
  "current_function s = bind_result (current_compiler s) (\<lambda>c. as_function (vm_heap (cs_vm s)) (cp_function c))"

definition put_function :: "VmFunction \<Rightarrow> CS \<Rightarrow> CS result" where
  "put_function f s = bind_result (current_compiler s) (\<lambda>c.
     Inr (s\<lparr>cs_vm := (cs_vm s)\<lparr>vm_heap := (vm_heap (cs_vm s))
       [cp_function c := (vm_heap (cs_vm s) ! cp_function c)\<lparr>ob_body := OBJECT_FUNCTION f\<rparr>]\<rparr>\<rparr>))"

definition current_chunk :: "CS \<Rightarrow> Chunk result" where
  "current_chunk s = bind_result (current_function s) (\<lambda>f. Inr (vf_chunk f))"

definition put_chunk :: "Chunk \<Rightarrow> CS \<Rightarrow> CS result" where
  "put_chunk ck s = bind_result (current_function s) (\<lambda>f. put_function (f\<lparr>vf_chunk := ck\<rparr>) s)"

definition code_count :: "CS \<Rightarrow> nat result" where
  "code_count s = bind_result (current_chunk s) (\<lambda>ck. Inr (ck_count ck))"

definition make_constant :: "Value \<Rightarrow> CS \<Rightarrow> (byte \<times> CS) result" where
  "make_constant v s =
     bind_result (current_chunk s) (\<lambda>ck.
       let (ck1, constant) = chunk_constants_add ck v
       in bind_result (put_chunk ck1 s) (\<lambda>s1.
            if int constant > BYTE_MAX
            then bind_result (error_prev ''Too many constants in one chunk.'' s1) (\<lambda>s2. Inr (0, s2))
            else Inr (of_nat constant, s1)))"

definition emit_byte :: "byte \<Rightarrow> CS \<Rightarrow> CS result" where
  "emit_byte b s =
     bind_result (previous_token s) (\<lambda>t. bind_result (current_chunk s) (\<lambda>ck.
       put_chunk (chunk_write ck b (int (tk_line t))) s))"

definition emit_bytes :: "byte \<Rightarrow> byte \<Rightarrow> CS \<Rightarrow> CS result" where
  "emit_bytes b1 b2 s = bind_result (emit_byte b1 s) (emit_byte b2)"

definition emit_constant :: "Value \<Rightarrow> CS \<Rightarrow> CS result" where
  "emit_constant v s = bind_result (make_constant v s) (\<lambda>(k, s1). emit_bytes (op_byte OP_CONSTANT) k s1)"

definition emit_return :: "CS \<Rightarrow> CS result" where
  "emit_return s = bind_result (emit_byte (op_byte OP_NIL) s) (emit_byte (op_byte OP_RETURN))"

definition emit_jump :: "OpCode \<Rightarrow> CS \<Rightarrow> (nat \<times> CS) result" where
  "emit_jump instruction s =
     bind_result (emit_byte (op_byte instruction) s) (\<lambda>s1. bind_result (emit_byte 0xff s1) (\<lambda>s2.
     bind_result (emit_byte 0xff s2) (\<lambda>s3. bind_result (code_count s3) (\<lambda>n. Inr (n - 2, s3)))))"

text \<open>The two bytes of a jump distance.\<close>

definition jump_hi :: "int \<Rightarrow> byte" where
  "jump_hi jump = word_of_int (drop_bit 8 jump)"

definition jump_lo :: "int \<Rightarrow> byte" where
  "jump_lo jump = word_of_int jump"

definition patch_jump :: "nat \<Rightarrow> CS \<Rightarrow> CS result" where
  "patch_jump offset s =
     bind_result (current_chunk s) (\<lambda>ck.
       let jump = int (ck_count ck) - int offset - 2
       in bind_result (if jump > BYTE_MAX then error_prev ''Too much code to jump over.'' s else Inr s) (\<lambda>s1.
          if Suc offset < length (ck_code ck)
          then put_chunk (ck\<lparr>ck_code := (ck_code ck)[offset := Some (jump_hi jump), Suc offset := Some (jump_lo jump)]\<rparr>) s1
          else Inl (Crash Out_Of_Bounds)))"

definition emit_loop :: "nat \<Rightarrow> CS \<Rightarrow> CS result" where
  "emit_loop loopStart s =
     bind_result (emit_byte (op_byte OP_LOOP) s) (\<lambda>s1. bind_result (code_count s1) (\<lambda>n.
       let offset = int n - int loopStart + 2
       in bind_result (if offset > SHORT_MAX then error_prev ''Loop body too large'' s1 else Inr s1) (\<lambda>s2.
          bind_result (emit_byte (jump_hi offset) s2) (emit_byte (jump_lo offset)))))"

section \<open>Functions under construction\<close>

text \<open>The name of the local in slot 0: a zeroed \<^verbatim>\<open>Token\<close> with the empty lexeme.\<close>

definition no_token :: Token where
  "no_token = \<lparr>tk_type = TOKEN_LEFT_PAREN, tk_literal = None, tk_lexeme = Some [], tk_column = 0, tk_line = 0\<rparr>"

definition compiler_init :: "FunctionType \<Rightarrow> CS \<Rightarrow> CS result" where
  "compiler_init type s =
     (let (vm1, r) = vmfunction_new (cs_vm s);
          c = \<lparr>cp_function = r, cp_type = type, cp_locals = [\<lparr>lc_name = no_token, lc_depth = 0\<rparr>], cp_scopeDepth = 0\<rparr>;
          s1 = s\<lparr>cs_vm := vm1\<rparr>
      in if type \<noteq> TYPE_SCRIPT
         then bind_result (previous_token s1) (\<lambda>t. case tk_lexeme t of None \<Rightarrow> Inl (Crash Null_Deref)
           | Some name \<Rightarrow> bind_result (vmstring_copy vm1 name (length name)) (\<lambda>(vm2, n).
               let s2 = s1\<lparr>cs_vm := vm2, cs_compilers := c # cs_compilers s1\<rparr>
               in bind_result (current_function s2) (\<lambda>f. put_function (f\<lparr>vf_name := Some n\<rparr>) s2)))
         else Inr (s1\<lparr>cs_compilers := c # cs_compilers s1\<rparr>))"

definition compiler_end :: "CS \<Rightarrow> (nat \<times> CS) result" where
  "compiler_end s =
     bind_result (emit_return s) (\<lambda>s1. bind_result (current_compiler s1) (\<lambda>c.
       Inr (cp_function c, s1\<lparr>cs_compilers := tl (cs_compilers s1)\<rparr>)))"

section \<open>Variables and scopes\<close>

definition lexeme_length :: "Token \<Rightarrow> nat" where
  "lexeme_length t = (case tk_lexeme t of None \<Rightarrow> 0 | Some x \<Rightarrow> length x)"

definition identifier_equal :: "Token \<Rightarrow> Token \<Rightarrow> bool" where
  "identifier_equal a b \<longleftrightarrow> (if lexeme_length a \<noteq> lexeme_length b then False
     else (case tk_lexeme a of None \<Rightarrow> [] | Some x \<Rightarrow> x) = (case tk_lexeme b of None \<Rightarrow> [] | Some x \<Rightarrow> x))"

text \<open>The loop of \<^verbatim>\<open>variable_local_resolve\<close> from local \<open>i - 1\<close> down; -1 is \<open>None\<close>.\<close>

fun resolve_loop :: "nat \<Rightarrow> Local list \<Rightarrow> Token \<Rightarrow> nat option" where
  "resolve_loop 0 locals name = None"
| "resolve_loop (Suc i) locals name =
     (if identifier_equal name (lc_name (locals ! i)) then Some i else resolve_loop i locals name)"

definition variable_local_resolve :: "VmCompiler \<Rightarrow> Token \<Rightarrow> CS \<Rightarrow> (nat option \<times> CS) result" where
  "variable_local_resolve c name s =
     (case resolve_loop (length (cp_locals c)) (cp_locals c) name of
        None \<Rightarrow> Inr (None, s)
      | Some i \<Rightarrow> bind_result (if lc_depth (cp_locals c ! i) = -1
            then error_prev ''Cannot read local variable in its own initializer.'' s else Inr s)
          (\<lambda>s1. Inr (Some i, s1)))"

definition variable_local_add :: "Token \<Rightarrow> CS \<Rightarrow> CS result" where
  "variable_local_add name s = bind_result (current_compiler s) (\<lambda>c.
     if length (cp_locals c) = BYTE_COUNT then error_prev ''Too many local variables in function.'' s
     else Inr (put_compiler (c\<lparr>cp_locals := cp_locals c @ [\<lparr>lc_name = name, lc_depth = -1\<rparr>]\<rparr>) s))"

fun declare_loop :: "nat \<Rightarrow> VmCompiler \<Rightarrow> Token \<Rightarrow> CS \<Rightarrow> CS result" where
  "declare_loop 0 c name s = Inr s"
| "declare_loop (Suc i) c name s =
     (let local = cp_locals c ! i
      in if lc_depth local \<noteq> -1 \<and> lc_depth local < cp_scopeDepth c then Inr s
         else bind_result (if identifier_equal name (lc_name local)
                then error_prev ''Variable with this name already declared in this scope.'' s else Inr s)
              (declare_loop i c name))"

definition variable_declare :: "CS \<Rightarrow> CS result" where
  "variable_declare s = bind_result (current_compiler s) (\<lambda>c.
     if cp_scopeDepth c = 0 then Inr s
     else bind_result (previous_token s) (\<lambda>name.
       bind_result (declare_loop (length (cp_locals c)) c name s) (variable_local_add name)))"

definition identifier_constant :: "Token \<Rightarrow> CS \<Rightarrow> (byte \<times> CS) result" where
  "identifier_constant t s = (case tk_lexeme t of None \<Rightarrow> Inl (Crash Null_Deref)
     | Some name \<Rightarrow> bind_result (vmstring_copy (cs_vm s) name (length name)) (\<lambda>(vm1, r).
         make_constant (object_val r) (s\<lparr>cs_vm := vm1\<rparr>)))"

definition variable_parse :: "string \<Rightarrow> CS \<Rightarrow> (byte \<times> CS) result" where
  "variable_parse message s =
     bind_result (consume TOKEN_IDENTIFIER message s) (\<lambda>s1. bind_result (variable_declare s1) (\<lambda>s2.
     bind_result (current_compiler s2) (\<lambda>c. if cp_scopeDepth c > 0 then Inr (0, s2)
       else bind_result (previous_token s2) (\<lambda>t. identifier_constant t s2))))"

definition variable_initialize :: "CS \<Rightarrow> CS result" where
  "variable_initialize s = bind_result (current_compiler s) (\<lambda>c.
     if cp_scopeDepth c = 0 then Inr s
     else if cp_locals c = [] then Inl (Crash Out_Of_Bounds)
     else let i = length (cp_locals c) - 1
          in Inr (put_compiler (c\<lparr>cp_locals := (cp_locals c)[i := (cp_locals c ! i)\<lparr>lc_depth := cp_scopeDepth c\<rparr>]\<rparr>) s))"

definition variable_define :: "byte \<Rightarrow> CS \<Rightarrow> CS result" where
  "variable_define variableId s = bind_result (current_compiler s) (\<lambda>c.
     if cp_scopeDepth c > 0 then variable_initialize s
     else emit_bytes (op_byte OP_DEFINE_GLOBAL) variableId s)"

definition scope_begin :: "CS \<Rightarrow> CS result" where
  "scope_begin s = bind_result (current_compiler s) (\<lambda>c.
     Inr (put_compiler (c\<lparr>cp_scopeDepth := cp_scopeDepth c + 1\<rparr>) s))"

text \<open>The loop of \<^verbatim>\<open>scope_end\<close>, with the number of locals left as its measure.\<close>

fun scope_end_loop :: "nat \<Rightarrow> CS \<Rightarrow> CS result" where
  "scope_end_loop 0 s = Inr s"
| "scope_end_loop (Suc n) s = bind_result (current_compiler s) (\<lambda>c.
     if cp_locals c \<noteq> [] \<and> lc_depth (last (cp_locals c)) > cp_scopeDepth c
     then bind_result (emit_byte (op_byte OP_POP) s) (\<lambda>s1.
       scope_end_loop n (put_compiler (c\<lparr>cp_locals := butlast (cp_locals c)\<rparr>) s1))
     else Inr s)"

definition scope_end :: "CS \<Rightarrow> CS result" where
  "scope_end s = bind_result (current_compiler s) (\<lambda>c.
     scope_end_loop (Suc (length (cp_locals c))) (put_compiler (c\<lparr>cp_scopeDepth := cp_scopeDepth c - 1\<rparr>) s))"

section \<open>Expressions\<close>

datatype Precedence =
    PREC_NONE | PREC_ASSIGNMENT | PREC_OR | PREC_AND | PREC_EQUALITY | PREC_COMPARISON | PREC_TERM
  | PREC_FACTOR | PREC_UNARY | PREC_CALL | PREC_PRIMARY

text \<open>The value of the enumeration constant, and the cast back of \<^verbatim>\<open>precedence + 1\<close>.\<close>

fun prec_rank :: "Precedence \<Rightarrow> nat" where
  "prec_rank PREC_NONE = 0"
| "prec_rank PREC_ASSIGNMENT = 1"
| "prec_rank PREC_OR = 2"
| "prec_rank PREC_AND = 3"
| "prec_rank PREC_EQUALITY = 4"
| "prec_rank PREC_COMPARISON = 5"
| "prec_rank PREC_TERM = 6"
| "prec_rank PREC_FACTOR = 7"
| "prec_rank PREC_UNARY = 8"
| "prec_rank PREC_CALL = 9"
| "prec_rank PREC_PRIMARY = 10"

fun prec_succ :: "Precedence \<Rightarrow> Precedence" where
  "prec_succ PREC_NONE = PREC_ASSIGNMENT"
| "prec_succ PREC_ASSIGNMENT = PREC_OR"
| "prec_succ PREC_OR = PREC_AND"
| "prec_succ PREC_AND = PREC_EQUALITY"
| "prec_succ PREC_EQUALITY = PREC_COMPARISON"
| "prec_succ PREC_COMPARISON = PREC_TERM"
| "prec_succ PREC_TERM = PREC_FACTOR"
| "prec_succ PREC_FACTOR = PREC_UNARY"
| "prec_succ PREC_UNARY = PREC_CALL"
| "prec_succ PREC_CALL = PREC_PRIMARY"
| "prec_succ PREC_PRIMARY = PREC_PRIMARY"

datatype ParseFn =
    fn_grouping | fn_call | fn_unary | fn_binary | fn_variable | fn_string | fn_number | fn_and | fn_or | fn_literal

record ParseRule =
  pr_prefix :: "ParseFn option"
  pr_infix :: "ParseFn option"
  pr_precedence :: Precedence

definition rule :: "ParseFn option \<Rightarrow> ParseFn option \<Rightarrow> Precedence \<Rightarrow> ParseRule" where
  "rule prefix infix_fn prec = \<lparr>pr_prefix = prefix, pr_infix = infix_fn, pr_precedence = prec\<rparr>"

fun parse_rule :: "TokenType \<Rightarrow> ParseRule" where
  "parse_rule TOKEN_LEFT_PAREN = rule (Some fn_grouping) (Some fn_call) PREC_CALL"
| "parse_rule TOKEN_DOT = rule None None PREC_CALL"
| "parse_rule TOKEN_MINUS = rule (Some fn_unary) (Some fn_binary) PREC_TERM"
| "parse_rule TOKEN_PLUS = rule None (Some fn_binary) PREC_TERM"
| "parse_rule TOKEN_SLASH = rule None (Some fn_binary) PREC_FACTOR"
| "parse_rule TOKEN_STAR = rule None (Some fn_binary) PREC_FACTOR"
| "parse_rule TOKEN_BANG = rule (Some fn_unary) None PREC_NONE"
| "parse_rule TOKEN_BANG_EQUAL = rule None (Some fn_binary) PREC_EQUALITY"
| "parse_rule TOKEN_EQUAL_EQUAL = rule None (Some fn_binary) PREC_EQUALITY"
| "parse_rule TOKEN_GREATER = rule None (Some fn_binary) PREC_COMPARISON"
| "parse_rule TOKEN_GREATER_EQUAL = rule None (Some fn_binary) PREC_COMPARISON"
| "parse_rule TOKEN_LESS = rule None (Some fn_binary) PREC_COMPARISON"
| "parse_rule TOKEN_LESS_EQUAL = rule None (Some fn_binary) PREC_COMPARISON"
| "parse_rule TOKEN_IDENTIFIER = rule (Some fn_variable) None PREC_NONE"
| "parse_rule TOKEN_STRING = rule (Some fn_string) None PREC_NONE"
| "parse_rule TOKEN_NUMBER = rule (Some fn_number) None PREC_NONE"
| "parse_rule TOKEN_AND = rule None (Some fn_and) PREC_AND"
| "parse_rule TOKEN_FALSE = rule (Some fn_literal) None PREC_NONE"
| "parse_rule TOKEN_NIL = rule (Some fn_literal) None PREC_NONE"
| "parse_rule TOKEN_OR = rule None (Some fn_or) PREC_OR"
| "parse_rule TOKEN_TRUE = rule (Some fn_literal) None PREC_NONE"
| "parse_rule _ = rule None None PREC_NONE"

text \<open>\<open>pp\<close> stands for \<^verbatim>\<open>prec_parse\<close> in what follows.\<close>

type_synonym parser_fn = "Precedence \<Rightarrow> CS \<Rightarrow> CS result"

definition expression :: "parser_fn \<Rightarrow> CS \<Rightarrow> CS result" where
  "expression pp s = pp PREC_ASSIGNMENT s"

text \<open>The loop of \<^verbatim>\<open>argument_list\<close>: \<^verbatim>\<open>argCount\<close> is a \<^verbatim>\<open>Byte\<close> and wraps around.\<close>

fun arguments_loop :: "nat \<Rightarrow> parser_fn \<Rightarrow> byte \<Rightarrow> CS \<Rightarrow> (byte \<times> CS) result" where
  "arguments_loop 0 pp argCount s = Inl Out_Of_Fuel"
| "arguments_loop (Suc fuel) pp argCount s =
     bind_result (expression pp s) (\<lambda>s1. bind_result (match TOKEN_COMMA s1) (\<lambda>(again, s2).
       if again then arguments_loop fuel pp (argCount + 1) s2 else Inr (argCount + 1, s2)))"

definition argument_list :: "nat \<Rightarrow> parser_fn \<Rightarrow> CS \<Rightarrow> (byte \<times> CS) result" where
  "argument_list fuel pp s =
     bind_result (check TOKEN_RIGHT_PAREN s) (\<lambda>none.
     bind_result (if \<not> none then arguments_loop fuel pp 0 s else Inr (0, s)) (\<lambda>(argCount, s1).
     bind_result (if argCount = 255 then error_prev ''Cannot have more than 255 arguments.'' s1 else Inr s1) (\<lambda>s2.
     bind_result (consume TOKEN_RIGHT_PAREN ''Expect ')' after arguments.'' s2) (\<lambda>s3. Inr (argCount, s3)))))"

definition call :: "nat \<Rightarrow> parser_fn \<Rightarrow> CS \<Rightarrow> CS result" where
  "call fuel pp s = bind_result (argument_list fuel pp s) (\<lambda>(argCount, s1). emit_bytes (op_byte OP_CALL) argCount s1)"

definition literal :: "CS \<Rightarrow> CS result" where
  "literal s = bind_result (previous_token s) (\<lambda>t.
     if tk_type t = TOKEN_FALSE then emit_byte (op_byte OP_FALSE) s
     else if tk_type t = TOKEN_TRUE then emit_byte (op_byte OP_TRUE) s
     else if tk_type t = TOKEN_NIL then emit_byte (op_byte OP_NIL) s
     else Inr s)"

definition named_variable :: "parser_fn \<Rightarrow> Token \<Rightarrow> bool \<Rightarrow> CS \<Rightarrow> CS result" where
  "named_variable pp name canAssign s =
     bind_result (current_compiler s) (\<lambda>c. bind_result (variable_local_resolve c name s) (\<lambda>(local, s1).
     bind_result (case local of
         Some i \<Rightarrow> Inr (of_nat i, OP_GET_LOCAL, OP_SET_LOCAL, s1)
       | None \<Rightarrow> bind_result (identifier_constant name s1) (\<lambda>(k, s2). Inr (k, OP_GET_GLOBAL, OP_SET_GLOBAL, s2)))
       (\<lambda>(arg, getOp, setOp, s2).
     bind_result (if canAssign then match TOKEN_EQUAL s2 else Inr (False, s2)) (\<lambda>(assign, s3).
       if assign then bind_result (expression pp s3) (emit_bytes (op_byte setOp) arg)
       else emit_bytes (op_byte getOp) arg s3))))"

definition variable :: "parser_fn \<Rightarrow> bool \<Rightarrow> CS \<Rightarrow> CS result" where
  "variable pp canAssign s = bind_result (previous_token s) (\<lambda>t. named_variable pp t canAssign s)"

definition string_fn :: "CS \<Rightarrow> CS result" where
  "string_fn s = bind_result (previous_token s) (\<lambda>t. case tk_literal t of None \<Rightarrow> Inl (Crash Null_Deref)
     | Some chars \<Rightarrow> bind_result (vmstring_copy (cs_vm s) chars (length chars)) (\<lambda>(vm1, r).
         emit_constant (object_val r) (s\<lparr>cs_vm := vm1\<rparr>)))"

definition number :: "CS \<Rightarrow> CS result" where
  "number s = bind_result (previous_token s) (\<lambda>t. case tk_lexeme t of None \<Rightarrow> Inl (Crash Null_Deref)
     | Some lexeme \<Rightarrow> emit_constant (number_val (strtod lexeme)) s)"

definition grouping :: "parser_fn \<Rightarrow> CS \<Rightarrow> CS result" where
  "grouping pp s = bind_result (expression pp s) (consume TOKEN_RIGHT_PAREN ''Expect ')' after expression.'')"

definition unary :: "parser_fn \<Rightarrow> CS \<Rightarrow> CS result" where
  "unary pp s = bind_result (previous_token s) (\<lambda>t. bind_result (pp PREC_UNARY s) (\<lambda>s1.
     if tk_type t = TOKEN_MINUS then emit_byte (op_byte OP_NEGATE) s1
     else if tk_type t = TOKEN_BANG then emit_byte (op_byte OP_NOT) s1
     else Inr s1))"

fun binary_ops :: "TokenType \<Rightarrow> OpCode list" where
  "binary_ops TOKEN_PLUS = [OP_ADD]"
| "binary_ops TOKEN_MINUS = [OP_SUBTRACT]"
| "binary_ops TOKEN_STAR = [OP_MULTIPLY]"
| "binary_ops TOKEN_SLASH = [OP_DIVIDE]"
| "binary_ops TOKEN_BANG_EQUAL = [OP_EQUAL, OP_NOT]"
| "binary_ops TOKEN_EQUAL_EQUAL = [OP_EQUAL]"
| "binary_ops TOKEN_GREATER_EQUAL = [OP_LESS, OP_NOT]"
| "binary_ops TOKEN_GREATER = [OP_GREATER]"
| "binary_ops TOKEN_LESS = [OP_LESS]"
| "binary_ops TOKEN_LESS_EQUAL = [OP_GREATER, OP_NOT]"
| "binary_ops _ = []"

fun emit_ops :: "OpCode list \<Rightarrow> CS \<Rightarrow> CS result" where
  "emit_ops [] s = Inr s"
| "emit_ops (op # ops) s = bind_result (emit_byte (op_byte op) s) (emit_ops ops)"

definition binary :: "parser_fn \<Rightarrow> CS \<Rightarrow> CS result" where
  "binary pp s = bind_result (previous_token s) (\<lambda>t.
     bind_result (pp (prec_succ (pr_precedence (parse_rule (tk_type t)))) s) (emit_ops (binary_ops (tk_type t))))"

definition and_fn :: "parser_fn \<Rightarrow> CS \<Rightarrow> CS result" where
  "and_fn pp s =
     bind_result (emit_jump OP_JUMP_IF_FALSE s) (\<lambda>(endJump, s1).
     bind_result (emit_byte (op_byte OP_POP) s1) (\<lambda>s2. bind_result (pp PREC_AND s2) (patch_jump endJump)))"

definition or_fn :: "parser_fn \<Rightarrow> CS \<Rightarrow> CS result" where
  "or_fn pp s =
     bind_result (emit_jump OP_JUMP_IF_FALSE s) (\<lambda>(elseJump, s1).
     bind_result (emit_jump OP_JUMP s1) (\<lambda>(endJump, s2).
     bind_result (patch_jump elseJump s2) (\<lambda>s3. bind_result (emit_byte (op_byte OP_POP) s3) (\<lambda>s4.
     bind_result (pp PREC_OR s4) (patch_jump endJump)))))"

fun parse_fn :: "nat \<Rightarrow> parser_fn \<Rightarrow> ParseFn \<Rightarrow> bool \<Rightarrow> CS \<Rightarrow> CS result" where
  "parse_fn fuel pp fn_grouping canAssign s = grouping pp s"
| "parse_fn fuel pp fn_call canAssign s = call fuel pp s"
| "parse_fn fuel pp fn_unary canAssign s = unary pp s"
| "parse_fn fuel pp fn_binary canAssign s = binary pp s"
| "parse_fn fuel pp fn_variable canAssign s = variable pp canAssign s"
| "parse_fn fuel pp fn_string canAssign s = string_fn s"
| "parse_fn fuel pp fn_number canAssign s = number s"
| "parse_fn fuel pp fn_and canAssign s = and_fn pp s"
| "parse_fn fuel pp fn_or canAssign s = or_fn pp s"
| "parse_fn fuel pp fn_literal canAssign s = literal s"

text \<open>The \<^verbatim>\<open>while\<close> loop of \<^verbatim>\<open>prec_parse\<close>; a rule without an infix function is called through NULL.\<close>

fun infix_loop :: "nat \<Rightarrow> parser_fn \<Rightarrow> Precedence \<Rightarrow> bool \<Rightarrow> CS \<Rightarrow> CS result" where
  "infix_loop 0 pp prec canAssign s = Inl Out_Of_Fuel"
| "infix_loop (Suc fuel) pp prec canAssign s =
     bind_result (current_token s) (\<lambda>t.
       if prec_rank prec \<le> prec_rank (pr_precedence (parse_rule (tk_type t)))
       then bind_result (advance s) (\<lambda>s1. bind_result (previous_token s1) (\<lambda>p.
         case pr_infix (parse_rule (tk_type p)) of None \<Rightarrow> Inl (Crash Null_Call)
         | Some fn \<Rightarrow> bind_result (parse_fn fuel pp fn canAssign s1) (infix_loop fuel pp prec canAssign)))
       else Inr s)"

definition prec_body :: "nat \<Rightarrow> parser_fn \<Rightarrow> parser_fn" where
  "prec_body fuel pp prec s =
     bind_result (advance s) (\<lambda>s1. bind_result (previous_token s1) (\<lambda>t.
       case pr_prefix (parse_rule (tk_type t)) of
         None \<Rightarrow> error_prev ''Expect Expression.'' s1
       | Some fn \<Rightarrow>
           let canAssign = prec_rank prec \<le> prec_rank PREC_ASSIGNMENT
           in bind_result (parse_fn fuel pp fn canAssign s1) (\<lambda>s2.
              bind_result (infix_loop fuel pp prec canAssign s2) (\<lambda>s3.
              bind_result (if canAssign then match TOKEN_EQUAL s3 else Inr (False, s3)) (\<lambda>(bad, s4).
                if bad then bind_result (error_prev ''Invalid assignment target.'' s4) (expression pp)
                else Inr s4)))))"

primrec prec_parse :: "nat \<Rightarrow> parser_fn" where
  "prec_parse 0 = (\<lambda>prec s. Inl Out_Of_Fuel)"
| "prec_parse (Suc fuel) = prec_body fuel (prec_parse fuel)"

section \<open>Statements and declarations\<close>

text \<open>\<open>st\<close> and \<open>dc\<close> stand for \<^verbatim>\<open>statement\<close> and \<^verbatim>\<open>declaration\<close>.\<close>

type_synonym stmt_fn = "CS \<Rightarrow> CS result"

definition lox_print_statement :: "parser_fn \<Rightarrow> stmt_fn" where
  "lox_print_statement pp s =
     bind_result (expression pp s) (\<lambda>s1.
     bind_result (consume TOKEN_SEMICOLON ''Expect ';' after value.'' s1) (emit_byte (op_byte OP_PRINT)))"

definition expression_statement :: "parser_fn \<Rightarrow> stmt_fn" where
  "expression_statement pp s =
     bind_result (expression pp s) (\<lambda>s1. bind_result (emit_byte (op_byte OP_POP) s1)
       (consume TOKEN_SEMICOLON ''Expect ';' after expression.''))"

definition while_statement :: "parser_fn \<Rightarrow> stmt_fn \<Rightarrow> stmt_fn" where
  "while_statement pp st s =
     bind_result (code_count s) (\<lambda>loopStart.
     bind_result (consume TOKEN_LEFT_PAREN ''Expect '(' after 'while'.'' s) (\<lambda>s1.
     bind_result (expression pp s1) (\<lambda>s2.
     bind_result (consume TOKEN_RIGHT_PAREN ''Expect ')' after condition.'' s2) (\<lambda>s3.
     bind_result (emit_jump OP_JUMP_IF_FALSE s3) (\<lambda>(exitJump, s4).
     bind_result (emit_byte (op_byte OP_POP) s4) (\<lambda>s5.
     bind_result (st s5) (\<lambda>s6.
     bind_result (emit_loop loopStart s6) (\<lambda>s7.
     bind_result (patch_jump exitJump s7) (emit_byte (op_byte OP_POP))))))))))"

fun block_loop :: "nat \<Rightarrow> stmt_fn \<Rightarrow> stmt_fn" where
  "block_loop 0 dc s = Inl Out_Of_Fuel"
| "block_loop (Suc fuel) dc s =
     bind_result (check TOKEN_RIGHT_BRACE s) (\<lambda>brace. bind_result (check TOKEN_ENDOFFILE s) (\<lambda>eof.
       if \<not> brace \<and> \<not> eof then bind_result (dc s) (block_loop fuel dc) else Inr s))"

definition block_statement :: "nat \<Rightarrow> stmt_fn \<Rightarrow> stmt_fn" where
  "block_statement fuel dc s =
     bind_result (block_loop fuel dc s) (consume TOKEN_RIGHT_BRACE ''Expect '}' after block.'')"

definition if_statement :: "parser_fn \<Rightarrow> stmt_fn \<Rightarrow> stmt_fn" where
  "if_statement pp st s =
     bind_result (consume TOKEN_LEFT_PAREN ''Expect '(' after 'if'.'' s) (\<lambda>s1.
     bind_result (expression pp s1) (\<lambda>s2.
     bind_result (consume TOKEN_RIGHT_PAREN ''Expect ')' after condition.'' s2) (\<lambda>s3.
     bind_result (emit_jump OP_JUMP_IF_FALSE s3) (\<lambda>(thenJump, s4).
     bind_result (emit_byte (op_byte OP_POP) s4) (\<lambda>s5.
     bind_result (st s5) (\<lambda>s6.
     bind_result (emit_jump OP_JUMP s6) (\<lambda>(elseJump, s7).
     bind_result (patch_jump thenJump s7) (\<lambda>s8.
     bind_result (emit_byte (op_byte OP_POP) s8) (\<lambda>s9.
     bind_result (match TOKEN_ELSE s9) (\<lambda>(els, s10).
     bind_result (if els then st s10 else Inr s10) (patch_jump elseJump)))))))))))"

definition var_declaration :: "parser_fn \<Rightarrow> stmt_fn" where
  "var_declaration pp s =
     bind_result (variable_parse ''Expect variable name.'' s) (\<lambda>(global, s1).
     bind_result (match TOKEN_EQUAL s1) (\<lambda>(init, s2).
     bind_result (if init then expression pp s2 else emit_byte (op_byte OP_NIL) s2) (\<lambda>s3.
     bind_result (consume TOKEN_SEMICOLON ''Expect ';' after variable declaration.'' s3) (variable_define global))))"

text \<open>The clauses of a \<^verbatim>\<open>for\<close> statement: initializer, condition, increment.\<close>

definition for_initializer :: "parser_fn \<Rightarrow> stmt_fn" where
  "for_initializer pp s =
     bind_result (match TOKEN_VAR s) (\<lambda>(var, s1). if var then var_declaration pp s1
       else bind_result (match TOKEN_SEMICOLON s1) (\<lambda>(semi, s2). if semi then Inr s2 else expression_statement pp s2))"

definition for_condition :: "parser_fn \<Rightarrow> CS \<Rightarrow> (nat option \<times> CS) result" where
  "for_condition pp s =
     bind_result (match TOKEN_SEMICOLON s) (\<lambda>(none, s1). if none then Inr (None, s1)
       else bind_result (expression pp s1) (\<lambda>s2.
            bind_result (consume TOKEN_SEMICOLON ''Expect ';' after loop condition.'' s2) (\<lambda>s3.
            bind_result (emit_jump OP_JUMP_IF_FALSE s3) (\<lambda>(exitJump, s4).
            bind_result (emit_byte (op_byte OP_POP) s4) (\<lambda>s5. Inr (Some exitJump, s5))))))"

definition for_increment :: "parser_fn \<Rightarrow> nat \<Rightarrow> CS \<Rightarrow> (nat \<times> CS) result" where
  "for_increment pp loopStart s =
     bind_result (match TOKEN_RIGHT_PAREN s) (\<lambda>(none, s1). if none then Inr (loopStart, s1)
       else bind_result (emit_jump OP_JUMP s1) (\<lambda>(bodyJump, s2).
            bind_result (code_count s2) (\<lambda>incrementStart.
            bind_result (expression pp s2) (\<lambda>s3.
            bind_result (emit_byte (op_byte OP_POP) s3) (\<lambda>s4.
            bind_result (consume TOKEN_RIGHT_PAREN ''Expect ')' after for clauses.'' s4) (\<lambda>s5.
            bind_result (emit_loop loopStart s5) (\<lambda>s6.
            bind_result (patch_jump bodyJump s6) (\<lambda>s7. Inr (incrementStart, s7)))))))))"

definition for_statement :: "parser_fn \<Rightarrow> stmt_fn \<Rightarrow> stmt_fn" where
  "for_statement pp st s =
     bind_result (scope_begin s) (\<lambda>s1.
     bind_result (consume TOKEN_LEFT_PAREN ''Expect '(' after 'for'.'' s1) (\<lambda>s2.
     bind_result (for_initializer pp s2) (\<lambda>s3.
     bind_result (code_count s3) (\<lambda>loopStart.
     bind_result (for_condition pp s3) (\<lambda>(exitJump, s4).
     bind_result (for_increment pp loopStart s4) (\<lambda>(loopStart', s5).
     bind_result (st s5) (\<lambda>s6.
     bind_result (emit_loop loopStart' s6) (\<lambda>s7.
     bind_result (case exitJump of None \<Rightarrow> Inr s7
         | Some j \<Rightarrow> bind_result (patch_jump j s7) (emit_byte (op_byte OP_POP))) scope_end))))))))"

definition return_statement :: "parser_fn \<Rightarrow> stmt_fn" where
  "return_statement pp s =
     bind_result (current_compiler s) (\<lambda>c.
     bind_result (if cp_type c = TYPE_SCRIPT then error_prev ''Cannot return from top-level code.'' s else Inr s) (\<lambda>s1.
     bind_result (match TOKEN_SEMICOLON s1) (\<lambda>(semi, s2). if semi then emit_return s2
       else bind_result (expression pp s2) (\<lambda>s3.
            bind_result (consume TOKEN_SEMICOLON ''Expect ';' after return value.'' s3) (emit_byte (op_byte OP_RETURN))))))"

definition block_scope :: "nat \<Rightarrow> stmt_fn \<Rightarrow> stmt_fn" where
  "block_scope fuel dc s =
     bind_result (scope_begin s) (\<lambda>s1. bind_result (block_statement fuel dc s1) scope_end)"

text \<open>A branch of an \<^verbatim>\<open>if (match ...) ... else\<close> chain.\<close>

definition when_match :: "TokenType \<Rightarrow> stmt_fn \<Rightarrow> stmt_fn \<Rightarrow> stmt_fn" where
  "when_match type yes no s = bind_result (match type s) (\<lambda>(b, s1). if b then yes s1 else no s1)"

definition statement_body :: "nat \<Rightarrow> parser_fn \<Rightarrow> stmt_fn \<Rightarrow> stmt_fn \<Rightarrow> stmt_fn" where
  "statement_body fuel pp st dc =
     when_match TOKEN_PRINT (lox_print_statement pp)
    (when_match TOKEN_FOR (for_statement pp st)
    (when_match TOKEN_IF (if_statement pp st)
    (when_match TOKEN_WHILE (while_statement pp st)
    (when_match TOKEN_LEFT_BRACE (block_scope fuel dc)
    (when_match TOKEN_RETURN (return_statement pp)
      (expression_statement pp))))))"

fun parameters_loop :: "nat \<Rightarrow> stmt_fn" where
  "parameters_loop 0 s = Inl Out_Of_Fuel"
| "parameters_loop (Suc fuel) s =
     bind_result (variable_parse ''Expect parameter name.'' s) (\<lambda>(paramConstant, s1).
     bind_result (variable_define paramConstant s1) (\<lambda>s2.
     bind_result (current_function s2) (\<lambda>f.
     bind_result (put_function (f\<lparr>vf_arity := vf_arity f + 1\<rparr>) s2) (\<lambda>s3.
     bind_result (if vf_arity f + 1 > 8 then error_prev ''Cannot have more than 8 parameters.'' s3 else Inr s3) (\<lambda>s4.
     bind_result (match TOKEN_COMMA s4) (\<lambda>(again, s5). if again then parameters_loop fuel s5 else Inr s5))))))"

definition function_statement :: "nat \<Rightarrow> stmt_fn \<Rightarrow> FunctionType \<Rightarrow> stmt_fn" where
  "function_statement fuel dc type s =
     bind_result (compiler_init type s) (\<lambda>s1.
     bind_result (scope_begin s1) (\<lambda>s2.
     bind_result (consume TOKEN_LEFT_PAREN ''Expect '(' after function name.'' s2) (\<lambda>s3.
     bind_result (check TOKEN_RIGHT_PAREN s3) (\<lambda>none.
     bind_result (if \<not> none then parameters_loop fuel s3 else Inr s3) (\<lambda>s4.
     bind_result (consume TOKEN_RIGHT_PAREN ''Expect ')' after parameters.'' s4) (\<lambda>s5.
     bind_result (consume TOKEN_LEFT_BRACE ''Expect '{' before function body.'' s5) (\<lambda>s6.
     bind_result (block_statement fuel dc s6) (\<lambda>s7.
     bind_result (compiler_end s7) (\<lambda>(function, s8).
     bind_result (make_constant (object_val function) s8) (\<lambda>(k, s9).
       emit_bytes (op_byte OP_CONSTANT) k s9))))))))))"

definition func_declaration :: "nat \<Rightarrow> stmt_fn \<Rightarrow> stmt_fn" where
  "func_declaration fuel dc s =
     bind_result (variable_parse ''Expect function name.'' s) (\<lambda>(global, s1).
     bind_result (variable_initialize s1) (\<lambda>s2.
     bind_result (function_statement fuel dc TYPE_FUNCTION s2) (variable_define global)))"

text \<open>
  The loop of \<^verbatim>\<open>synchronize\<close>. The two token types are read before the loop and not again
  inside it.
\<close>

definition sync_point :: "TokenType \<Rightarrow> bool" where
  "sync_point t \<longleftrightarrow> t \<in> {TOKEN_CLASS, TOKEN_FUN, TOKEN_VAR, TOKEN_FOR, TOKEN_IF, TOKEN_WHILE, TOKEN_PRINT, TOKEN_RETURN}"

fun sync_loop :: "nat \<Rightarrow> TokenType \<Rightarrow> TokenType \<Rightarrow> stmt_fn" where
  "sync_loop 0 currentType prevType s = Inl Out_Of_Fuel"
| "sync_loop (Suc fuel) currentType prevType s =
     (if currentType = TOKEN_ENDOFFILE then Inr s
      else if prevType = TOKEN_SEMICOLON then Inr s
      else if sync_point currentType then Inr s
      else bind_result (advance s) (sync_loop fuel currentType prevType))"

definition synchronize :: "nat \<Rightarrow> stmt_fn" where
  "synchronize fuel s =
     bind_result (current_token s) (\<lambda>c. bind_result (previous_token s) (\<lambda>p.
       sync_loop fuel (tk_type c) (tk_type p) (s\<lparr>cs_parser := (cs_parser s)\<lparr>ps_panicMode := False\<rparr>\<rparr>)))"

definition declaration_body :: "nat \<Rightarrow> parser_fn \<Rightarrow> stmt_fn \<Rightarrow> stmt_fn \<Rightarrow> stmt_fn" where
  "declaration_body fuel pp st dc s =
     bind_result (when_match TOKEN_VAR (var_declaration pp) (when_match TOKEN_FUN (func_declaration fuel dc) st) s)
       (\<lambda>s1. if ps_panicMode (cs_parser s1) then synchronize fuel s1 else Inr s1)"

text \<open>\<^verbatim>\<open>declaration\<close> is \<open>lox_declaration\<close>, because the name is a keyword here.\<close>

fun statement :: "nat \<Rightarrow> stmt_fn" and lox_declaration :: "nat \<Rightarrow> stmt_fn" where
  "statement 0 s = Inl Out_Of_Fuel"
| "statement (Suc fuel) s = statement_body fuel (prec_parse fuel) (statement fuel) (lox_declaration fuel) s"
| "lox_declaration 0 s = Inl Out_Of_Fuel"
| "lox_declaration (Suc fuel) s = declaration_body fuel (prec_parse fuel) (statement fuel) (lox_declaration fuel) s"

fun compile_loop :: "nat \<Rightarrow> stmt_fn" where
  "compile_loop 0 s = Inl Out_Of_Fuel"
| "compile_loop (Suc fuel) s =
     bind_result (match TOKEN_ENDOFFILE s) (\<lambda>(eof, s1).
       if eof then Inr s1 else bind_result (lox_declaration fuel s1) (compile_loop fuel))"

text \<open>The state that \<^verbatim>\<open>compile\<close> starts from, and \<^verbatim>\<open>compile\<close> itself; \<open>None\<close> is a compile error.\<close>

definition parser_start :: "string \<Rightarrow> VmParser" where
  "parser_start code = \<lparr>ps_tokens = tkz_values (toknzr code False), ps_current = 0, ps_previous = None,
     ps_panicMode = False, ps_hadError = False\<rparr>"

definition compile :: "nat \<Rightarrow> string \<Rightarrow> VM \<Rightarrow> (nat option \<times> VM) result" where
  "compile fuel code vm =
     bind_result (compiler_init TYPE_SCRIPT \<lparr>cs_parser = parser_start code, cs_compilers = [], cs_vm = vm\<rparr>) (\<lambda>s1.
     bind_result (compile_loop fuel s1) (\<lambda>s2.
     bind_result (compiler_end s2) (\<lambda>(function, s3).
       Inr (if ps_hadError (cs_parser s3) then None else Some function, cs_vm s3))))"

definition vm_interpret :: "nat \<Rightarrow> string \<Rightarrow> VM \<Rightarrow> (VmInterpretResult \<times> VM) result" where
  "vm_interpret fuel code vm =
     bind_result (compile fuel code vm) (\<lambda>(function, vm1). case function of
         None \<Rightarrow> Inr (INTERPRET_COMPILE_ERROR, vm1)
       | Some r \<Rightarrow> bind_result (vm_launch vm1 r) (vm_run fuel))"

end
