(* ===== verification/Clox_Compile_Safety.thy ===== *)
theory Clox_Compile_Safety
  imports Clox_Compiler Clox_Safety
begin

text \<open>
  The compiler keeps its state well formed and, whatever the source text, fails in only one way:
  by calling the missing infix function of a token. Everything else it reads is there: the
  previous token, the function under construction, the locals, the bytes of a jump it patches.

  The state of the compiler is related to the later states of the same function: expressions
  leave the chain of compilers as it is, statements keep its shape, both only add code. Each
  operation is shown to respect one of the two relations and the relations compose.
\<close>

section \<open>The state\<close>

definition token_ok :: "Token \<Rightarrow> bool" where
  "token_ok t \<longleftrightarrow> tk_lexeme t \<noteq> None \<and> (tk_type t = TOKEN_STRING \<longrightarrow> tk_literal t \<noteq> None)"

definition parser_ok :: "VmParser \<Rightarrow> bool" where
  "parser_ok p \<longleftrightarrow> ps_current p < length (ps_tokens p) \<and> list_all token_ok (ps_tokens p)
     \<and> (\<forall>i. ps_previous p = Some i \<longrightarrow> i < length (ps_tokens p)) \<and> (ps_panicMode p \<longrightarrow> ps_hadError p)"

text \<open>Slot 0 belongs to the function itself and is never popped.\<close>

definition locals_ok :: "VmCompiler \<Rightarrow> bool" where
  "locals_ok c \<longleftrightarrow> cp_locals c \<noteq> [] \<and> lc_depth (hd (cp_locals c)) = 0 \<and> 0 \<le> cp_scopeDepth c
     \<and> length (cp_locals c) \<le> BYTE_COUNT"

definition chunks_ok :: "objects \<Rightarrow> bool" where
  "chunks_ok H \<longleftrightarrow> (\<forall>r. is_fun H r \<longrightarrow> chunk_inv (vf_chunk (fun_of H r)))"

definition cs_inv :: "CS \<Rightarrow> bool" where
  "cs_inv s \<longleftrightarrow> parser_ok (cs_parser s) \<and> cs_compilers s \<noteq> []
     \<and> (\<forall>c\<in>set (cs_compilers s). is_fun (vm_heap (cs_vm s)) (cp_function c) \<and> locals_ok c)
     \<and> heap_inv (cs_vm s) \<and> chunks_ok (vm_heap (cs_vm s))"

definition begun :: "CS \<Rightarrow> bool" where
  "begun s \<longleftrightarrow> ps_previous (cs_parser s) \<noteq> None"

abbreviation count_of :: "objects \<Rightarrow> nat \<Rightarrow> nat" where
  "count_of H r \<equiv> ck_count (vf_chunk (fun_of H r))"

definition heap_le :: "objects \<Rightarrow> objects \<Rightarrow> bool" where
  "heap_le H H' \<longleftrightarrow> (\<forall>r. is_fun H r \<longrightarrow> is_fun H' r \<and> count_of H r \<le> count_of H' r)"

definition grows :: "CS \<Rightarrow> CS \<Rightarrow> bool" where
  "grows s s' \<longleftrightarrow> ps_tokens (cs_parser s') = ps_tokens (cs_parser s)
     \<and> heap_le (vm_heap (cs_vm s)) (vm_heap (cs_vm s'))
     \<and> vm_stack (cs_vm s') = vm_stack (cs_vm s) \<and> vm_frames (cs_vm s') = vm_frames (cs_vm s)
     \<and> vm_globals (cs_vm s') = vm_globals (cs_vm s)
     \<and> (begun s \<longrightarrow> begun s') \<and> (ps_hadError (cs_parser s) \<longrightarrow> ps_hadError (cs_parser s'))"

text \<open>What identifies the chain of compilers apart from the locals of the innermost one.\<close>

definition shape :: "CS \<Rightarrow> nat \<times> FunctionType \<times> VmCompiler list" where
  "shape s = (let c = hd (cs_compilers s) in (cp_function c, cp_type c, tl (cs_compilers s)))"

definition depth :: "CS \<Rightarrow> int" where
  "depth s = cp_scopeDepth (hd (cs_compilers s))"

definition expr_rel :: "CS \<Rightarrow> CS \<Rightarrow> bool" where
  "expr_rel s s' \<longleftrightarrow> cs_inv s' \<and> grows s s' \<and> cs_compilers s' = cs_compilers s"

text \<open>Statements keep the scope depth; \<open>d\<close> is its change over a part of one.\<close>

definition stmt_rel :: "int \<Rightarrow> CS \<Rightarrow> CS \<Rightarrow> bool" where
  "stmt_rel d s s' \<longleftrightarrow> cs_inv s' \<and> grows s s' \<and> shape s' = shape s \<and> depth s' = depth s + d"

lemma heap_le_refl [simp]: "heap_le H H"
  by (simp add: heap_le_def)

lemma heap_le_trans: "heap_le A B \<Longrightarrow> heap_le B C \<Longrightarrow> heap_le A C"
  unfolding heap_le_def by (meson order_trans)

lemma grows_refl [simp]: "grows s s"
  by (simp add: grows_def)

lemma grows_trans: "grows a b \<Longrightarrow> grows b c \<Longrightarrow> grows a c"
  by (auto simp: grows_def intro: heap_le_trans)

lemma expr_rel_trans: "expr_rel a b \<Longrightarrow> expr_rel b c \<Longrightarrow> expr_rel a c"
  by (auto simp: expr_rel_def intro: grows_trans)

lemma stmt_rel_trans: "stmt_rel d a b \<Longrightarrow> stmt_rel d' b c \<Longrightarrow> stmt_rel (d + d') a c"
  by (auto simp: stmt_rel_def intro: grows_trans)

lemma expr_stmt_rel: "expr_rel a b \<Longrightarrow> stmt_rel 0 a b"
  by (simp add: expr_rel_def stmt_rel_def shape_def depth_def)

section \<open>Results\<close>

text \<open>A result whose only failures are the missing infix function and the end of the budget.\<close>

definition fails_ok :: "stop \<Rightarrow> bool" where
  "fails_ok e \<longleftrightarrow> e = Out_Of_Fuel \<or> e = Crash Null_Call"

definition ok :: "('a \<Rightarrow> bool) \<Rightarrow> 'a result \<Rightarrow> bool" where
  "ok P r \<longleftrightarrow> (case r of Inl e \<Rightarrow> fails_ok e | Inr x \<Rightarrow> P x)"

lemma ok_simps [simp]: "ok P (Inr x) = P x" "ok P (Inl e) = fails_ok e"
  by (simp_all add: ok_def)

lemma fails_ok_simps [simp]: "fails_ok Out_Of_Fuel" "fails_ok (Crash f) \<longleftrightarrow> f = Null_Call"
  by (simp_all add: fails_ok_def)

lemma ok_bind: "ok P r \<Longrightarrow> (\<And>x. r = Inr x \<Longrightarrow> P x \<Longrightarrow> ok Q (f x)) \<Longrightarrow> ok Q (bind_result r f)"
  by (cases r) auto

lemma ok_mono: "ok P r \<Longrightarrow> (\<And>x. P x \<Longrightarrow> Q x) \<Longrightarrow> ok Q r"
  by (cases r) auto

lemma ok_if: "(b \<Longrightarrow> ok P x) \<Longrightarrow> (\<not> b \<Longrightarrow> ok P y) \<Longrightarrow> ok P (if b then x else y)"
  by simp

section \<open>Tokens and errors\<close>

lemma current_token_ok: "cs_inv s \<Longrightarrow> ok token_ok (current_token s)"
  by (auto simp: cs_inv_def parser_ok_def current_token_def token_at_def list_all_length)

lemma previous_token_ok: "cs_inv s \<Longrightarrow> begun s \<Longrightarrow> ok token_ok (previous_token s)"
  by (auto simp: cs_inv_def parser_ok_def begun_def previous_token_def token_at_def list_all_length)

lemma error_at_rel:
  assumes "cs_inv s"
  shows "expr_rel s (error_at t msg s)"
  using assms
  by (auto simp: error_at_def expr_rel_def cs_inv_def parser_ok_def grows_def begun_def heap_inv_def Let_def)

lemma error_prev_ok: "cs_inv s \<Longrightarrow> begun s \<Longrightarrow> ok (expr_rel s) (error_prev msg s)"
  unfolding error_prev_def by (rule ok_bind [OF previous_token_ok]) (simp_all add: error_at_rel)

lemma error_at_current_ok: "cs_inv s \<Longrightarrow> ok (expr_rel s) (error_at_current msg s)"
  unfolding error_at_current_def by (rule ok_bind [OF current_token_ok]) (simp_all add: error_at_rel)

lemma advance_loop_ok:
  "cs_inv s \<Longrightarrow> begun s \<Longrightarrow> n \<le> length (ps_tokens (cs_parser s)) - 1 - ps_current (cs_parser s) \<Longrightarrow>
   ok (expr_rel s) (advance_loop n s)"
proof (induction n arbitrary: s)
  case 0
  then show ?case by (simp add: expr_rel_def)
next
  case (Suc n)
  let ?s = "s\<lparr>cs_parser := (cs_parser s)\<lparr>ps_current := Suc (ps_current (cs_parser s))\<rparr>\<rparr>"
  have 1: "expr_rel s ?s"
    using Suc.prems by (auto simp: expr_rel_def cs_inv_def parser_ok_def grows_def begun_def)
  then have inv: "cs_inv ?s" "begun ?s" using Suc.prems by (auto simp: expr_rel_def begun_def)
  have again: "ok (expr_rel s) (advance_loop n (error_at t msg ?s))" for t msg
  proof -
  let ?e = "error_at t msg ?s"
  have 2: "expr_rel ?s ?e" by (rule error_at_rel [OF inv(1)])
  have "ok (expr_rel ?e) (advance_loop n ?e)"
  proof (rule Suc.IH)
    show "cs_inv ?e" "begun ?e" using 2 inv by (auto simp: expr_rel_def grows_def)
    have "ps_current (cs_parser ?e) = Suc (ps_current (cs_parser s))"
      "ps_tokens (cs_parser ?e) = ps_tokens (cs_parser s)" by (simp_all add: error_at_def Let_def)
    with Suc.prems show "n \<le> length (ps_tokens (cs_parser ?e)) - 1 - ps_current (cs_parser ?e)" by simp
  qed
  then show ?thesis
    by (rule ok_mono) (rule expr_rel_trans [OF expr_rel_trans [OF 1 2]])
  qed
  have "ok (expr_rel s) (bind_result (current_token ?s) (\<lambda>t. if tk_type t \<noteq> TOKEN_ERROR then Inr ?s
      else advance_loop n (error_at t (c_lexeme t) ?s)))"
    by (rule ok_bind [OF current_token_ok [OF inv(1)]]) (simp add: 1 again)
  then show ?case by (simp add: Let_def)
qed

lemma advance_ok:
  assumes "cs_inv s"
  shows "ok (\<lambda>s'. expr_rel s s' \<and> begun s') (advance s)"
proof -
  let ?s = "s\<lparr>cs_parser := (cs_parser s)\<lparr>ps_previous := Some (ps_current (cs_parser s))\<rparr>\<rparr>"
  have 1: "expr_rel s ?s" "begun ?s"
    using assms by (auto simp: expr_rel_def cs_inv_def parser_ok_def grows_def begun_def)
  then have "ok (expr_rel ?s) (advance_loop (length (ps_tokens (cs_parser s)) - 1 - ps_current (cs_parser s)) ?s)"
    by (intro advance_loop_ok) (auto simp: expr_rel_def)
  then show ?thesis
    unfolding advance_def by (rule ok_mono) (use 1 in \<open>auto intro: expr_rel_trans simp: expr_rel_def grows_def\<close>)
qed

lemma check_ok: "cs_inv s \<Longrightarrow> ok (\<lambda>_. True) (check type s)"
  unfolding check_def by (rule ok_bind [OF current_token_ok]) simp_all

lemma match_ok:
  assumes "cs_inv s"
  shows "ok (\<lambda>(b, s'). expr_rel s s' \<and> (b \<longrightarrow> begun s') \<and> (\<not> b \<longrightarrow> s' = s)) (match type s)"
proof (cases "check type s")
  case (Inr b)
  have "ok (\<lambda>(b, s'). expr_rel s s' \<and> (b \<longrightarrow> begun s') \<and> (\<not> b \<longrightarrow> s' = s)) (bind_result (advance s) (\<lambda>s1. Inr (True, s1)))"
    by (rule ok_bind [OF advance_ok [OF assms]]) auto
  with Inr assms show ?thesis by (simp add: match_def expr_rel_def)
qed (use check_ok [OF assms, of type] in \<open>simp add: match_def\<close>)

lemma consume_ok:
  assumes "cs_inv s"
  shows "ok (expr_rel s) (consume type msg s)"
  unfolding consume_def
  by (rule ok_bind [OF current_token_ok [OF assms]])
    (auto intro: ok_mono [OF advance_ok [OF assms]] error_at_current_ok [OF assms])

section \<open>Emitting code\<close>

definition cur :: "CS \<Rightarrow> nat" where
  "cur s = cp_function (hd (cs_compilers s))"

lemma current_compiler_Inr: "cs_inv s \<Longrightarrow> current_compiler s = Inr (hd (cs_compilers s))"
  by (cases "cs_compilers s") (auto simp: cs_inv_def current_compiler_def)

lemma cur_is_fun: "cs_inv s \<Longrightarrow> is_fun (vm_heap (cs_vm s)) (cur s)"
  by (simp add: cs_inv_def cur_def)

lemma current_function_Inr: "cs_inv s \<Longrightarrow> current_function s = Inr (fun_of (vm_heap (cs_vm s)) (cur s))"
  using cur_is_fun [of s] by (simp add: current_function_def current_compiler_Inr as_function_is_fun flip: cur_def)

lemma current_chunk_Inr: "cs_inv s \<Longrightarrow> current_chunk s = Inr (vf_chunk (fun_of (vm_heap (cs_vm s)) (cur s)))"
  by (simp add: current_chunk_def current_function_Inr)

lemma cur_chunk_inv: "cs_inv s \<Longrightarrow> chunk_inv (vf_chunk (fun_of (vm_heap (cs_vm s)) (cur s)))"
  using cur_is_fun [of s] by (simp add: cs_inv_def chunks_ok_def)

text \<open>Replacing the body of a function object by a function.\<close>

definition set_fun :: "objects \<Rightarrow> nat \<Rightarrow> VmFunction \<Rightarrow> objects" where
  "set_fun H r f = H[r := (H ! r)\<lparr>ob_body := OBJECT_FUNCTION f\<rparr>]"

lemma set_fun_simps:
  assumes "is_fun H r"
  shows "is_fun (set_fun H r f) q \<longleftrightarrow> is_fun H q" "fun_of (set_fun H r f) q = (if q = r then f else fun_of H q)"
    "is_str (set_fun H r f) q \<longleftrightarrow> is_str H q" "is_str H q \<Longrightarrow> str_of (set_fun H r f) q = str_of H q"
  using assms
  by (auto simp: set_fun_def is_fun_def is_str_def nth_list_update fun_of_def as_function_def object_at_def str_of_def
      as_string_def split: object_body.splits)

lemma set_fun_next: "length (set_fun H r f) = length H" "ob_next (set_fun H r f ! i) = ob_next (H ! i)"
  by (cases "r < length H"; auto simp: set_fun_def nth_list_update list_update_beyond)+

lemma set_fun_heap_inv:
  assumes "heap_inv vm" "is_fun (vm_heap vm) r"
  shows "heap_inv (vm\<lparr>vm_heap := set_fun (vm_heap vm) r f\<rparr>)"
proof -
  note i = assms(1) [unfolded heap_inv_def interned_def] and s = set_fun_simps [OF assms(2), where f = f]
  have "table_inv (str_of (set_fun (vm_heap vm) r f)) (vm_strings vm)"
    by (rule table_inv_cong [of "str_of (vm_heap vm)"]) (use i s(4) in auto)
  moreover have "chain_ok (vm_objects vm) (set_fun (vm_heap vm) r f)"
    using i by (auto simp: chain_ok_def set_fun_next simp flip: length_greater_0_conv)
  ultimately show ?thesis
    using i s by (simp add: heap_inv_def interned_def)
qed

definition with_fun :: "VmFunction \<Rightarrow> CS \<Rightarrow> CS" where
  "with_fun f s = s\<lparr>cs_vm := (cs_vm s)\<lparr>vm_heap := set_fun (vm_heap (cs_vm s)) (cur s) f\<rparr>\<rparr>"

lemma put_function_Inr: "cs_inv s \<Longrightarrow> put_function f s = Inr (with_fun f s)"
  by (simp add: put_function_def current_compiler_Inr with_fun_def set_fun_def cur_def)

lemma with_fun_rel:
  assumes "cs_inv s" "chunk_inv (vf_chunk f)" "count_of (vm_heap (cs_vm s)) (cur s) \<le> ck_count (vf_chunk f)"
  shows "expr_rel s (with_fun f s)"
proof -
  note s = set_fun_simps [OF cur_is_fun [OF assms(1)], where f = f]
  have "heap_inv (cs_vm (with_fun f s))"
    using set_fun_heap_inv [OF _ cur_is_fun [OF assms(1)], of f] assms(1) by (simp add: with_fun_def cs_inv_def)
  then show ?thesis
    using assms by (auto simp: expr_rel_def cs_inv_def grows_def begun_def with_fun_def chunks_ok_def heap_le_def s)
qed

lemma put_chunk_ok:
  assumes "cs_inv s" "chunk_inv ck" "count_of (vm_heap (cs_vm s)) (cur s) \<le> ck_count ck"
  shows "ok (expr_rel s) (put_chunk ck s)"
  unfolding put_chunk_def current_function_Inr [OF assms(1)] bind_result_Inr put_function_Inr [OF assms(1)] ok_simps
  by (rule with_fun_rel) (use assms in simp_all)

lemma chunk_write_count: "ck_count (chunk_write c b l) = Suc (ck_count c)"
  by (simp add: chunk_write_def Let_def)

lemma chunk_constants_add_count: "ck_count (fst (chunk_constants_add c v)) = ck_count c"
  by (simp add: chunk_constants_add_def Let_def)

lemma emit_byte_ok:
  assumes "cs_inv s" "begun s"
  shows "ok (\<lambda>s'. expr_rel s s' \<and> count_of (vm_heap (cs_vm s')) (cur s') = Suc (count_of (vm_heap (cs_vm s)) (cur s)))
    (emit_byte b s)"
proof -
  let ?f = "fun_of (vm_heap (cs_vm s)) (cur s)"
  have "expr_rel s (with_fun (?f\<lparr>vf_chunk := chunk_write (vf_chunk ?f) b l\<rparr>) s)" for l
    by (rule with_fun_rel) (use assms(1) cur_chunk_inv [OF assms(1)] in \<open>simp_all add: chunk_write_count\<close>)
  moreover have "cur (with_fun f s) = cur s" for f by (simp add: with_fun_def cur_def)
  ultimately show ?thesis
    unfolding emit_byte_def
    by (intro ok_bind [OF previous_token_ok [OF assms]])
      (simp add: current_chunk_Inr assms(1) put_chunk_def current_function_Inr put_function_Inr,
       simp add: with_fun_def set_fun_simps [OF cur_is_fun [OF assms(1)]] chunk_write_count)
qed

text \<open>The jump distance of an offset lies inside the code written so far.\<close>

definition jump_ok :: "CS \<Rightarrow> nat \<Rightarrow> bool" where
  "jump_ok s offset \<longleftrightarrow> offset + 2 \<le> count_of (vm_heap (cs_vm s)) (cur s)"

lemma stmt_rel_cur: "stmt_rel d s s' \<Longrightarrow> cur s' = cur s"
  by (simp add: stmt_rel_def shape_def cur_def Let_def)

lemma jump_ok_later: "cs_inv s \<Longrightarrow> stmt_rel d s s' \<Longrightarrow> jump_ok s n \<Longrightarrow> jump_ok s' n"
  using cur_is_fun [of s] stmt_rel_cur [of d s s']
  by (auto simp: jump_ok_def stmt_rel_def grows_def heap_le_def intro: order_trans)

definition ready :: "CS \<Rightarrow> bool" where
  "ready s \<longleftrightarrow> cs_inv s \<and> begun s"

lemma rel_ready: "expr_rel s s' \<Longrightarrow> ready s \<Longrightarrow> ready s'" "stmt_rel d s s' \<Longrightarrow> ready s \<Longrightarrow> ready s'"
  by (auto simp: ready_def expr_rel_def stmt_rel_def grows_def)

text \<open>Sequencing inside one expression.\<close>

lemma expr_bind:
  assumes "ready s" "ok (expr_rel s) r" "\<And>s1. r = Inr s1 \<Longrightarrow> expr_rel s s1 \<Longrightarrow> ready s1 \<Longrightarrow> ok (expr_rel s1) (f s1)"
  shows "ok (expr_rel s) (bind_result r f)"
  by (rule ok_bind [OF assms(2)]) (use assms(1,3) rel_ready in \<open>auto intro: ok_mono expr_rel_trans\<close>)

abbreviation okp :: "CS \<Rightarrow> ('a \<times> CS) result \<Rightarrow> bool" where
  "okp s r \<equiv> ok (\<lambda>x. expr_rel s (snd x)) r"

lemma expr_bind_pair:
  assumes "ready s" "okp s r"
    "\<And>x s1. r = Inr (x, s1) \<Longrightarrow> expr_rel s s1 \<Longrightarrow> ready s1 \<Longrightarrow> ok (expr_rel s1) (f (x, s1))"
  shows "ok (expr_rel s) (bind_result r f)"
  by (rule ok_bind [OF assms(2)]) (use assms(1,3) rel_ready in \<open>force intro: ok_mono expr_rel_trans\<close>)

lemma pair_bind:
  assumes "ready s" "ok (expr_rel s) r" "\<And>s1. r = Inr s1 \<Longrightarrow> expr_rel s s1 \<Longrightarrow> ready s1 \<Longrightarrow> okp s1 (f s1)"
  shows "okp s (bind_result r f)"
  by (rule ok_bind [OF assms(2)]) (use assms(1,3) rel_ready in \<open>force intro: ok_mono expr_rel_trans\<close>)

lemma pair_bind_pair:
  assumes "ready s" "okp s r" "\<And>x s1. r = Inr (x, s1) \<Longrightarrow> expr_rel s s1 \<Longrightarrow> ready s1 \<Longrightarrow> okp s1 (f (x, s1))"
  shows "okp s (bind_result r f)"
  by (rule ok_bind [OF assms(2)]) (use assms(1,3) rel_ready in \<open>force intro: ok_mono expr_rel_trans\<close>)

lemma emit_byte_rel: "ready s \<Longrightarrow> ok (expr_rel s) (emit_byte b s)"
  by (rule ok_mono [OF emit_byte_ok]) (auto simp: ready_def)

lemma emit_bytes_rel: "ready s \<Longrightarrow> ok (expr_rel s) (emit_bytes a b s)"
  unfolding emit_bytes_def by (rule expr_bind [OF _ emit_byte_rel]) (auto intro: emit_byte_rel)

lemma emit_return_rel: "ready s \<Longrightarrow> ok (expr_rel s) (emit_return s)"
  unfolding emit_return_def by (rule expr_bind [OF _ emit_byte_rel]) (auto intro: emit_byte_rel)

lemma error_prev_rel: "ready s \<Longrightarrow> ok (expr_rel s) (error_prev msg s)"
  by (simp add: ready_def error_prev_ok)

lemma consume_rel: "ready s \<Longrightarrow> ok (expr_rel s) (consume type msg s)"
  by (simp add: ready_def consume_ok)

lemma expr_rel_refl: "ready s \<Longrightarrow> expr_rel s s"
  by (simp add: expr_rel_def ready_def)

lemma code_count_Inr: "cs_inv s \<Longrightarrow> code_count s = Inr (count_of (vm_heap (cs_vm s)) (cur s))"
  by (simp add: code_count_def current_chunk_Inr)

lemma make_constant_rel:
  assumes "ready s"
  shows "okp s (make_constant v s)"
proof -
  let ?ck = "vf_chunk (fun_of (vm_heap (cs_vm s)) (cur s))"
  have inv: "cs_inv s" using assms by (simp add: ready_def)
  obtain ck1 n where add: "chunk_constants_add ?ck v = (ck1, n)" by force
  have "ok (expr_rel s) (put_chunk ck1 s)"
    by (rule put_chunk_ok [OF inv])
      (use chunk_constants_add_abs(1) [OF cur_chunk_inv [OF inv], of v] chunk_constants_add_count [of ?ck v] add in auto)
  then have "okp s (bind_result (put_chunk ck1 s) (\<lambda>s1.
            if int n > BYTE_MAX
            then bind_result (error_prev ''Too many constants in one chunk.'' s1) (\<lambda>s2. Inr (0, s2))
            else Inr (of_nat n, s1)))"
    by (rule pair_bind [OF assms]) (auto intro!: pair_bind [OF _ error_prev_rel] simp: expr_rel_refl)
  then show ?thesis by (simp add: make_constant_def current_chunk_Inr inv add)
qed

lemma emit_constant_rel: "ready s \<Longrightarrow> ok (expr_rel s) (emit_constant v s)"
  unfolding emit_constant_def by (rule expr_bind_pair [OF _ make_constant_rel]) (auto intro: emit_bytes_rel)

lemma emit_jump_rel:
  assumes "ready s"
  shows "ok (\<lambda>(n, s'). expr_rel s s' \<and> jump_ok s' n) (emit_jump op_code s)"
proof -
  have step: "ok (\<lambda>s'. expr_rel s s' \<and> ready s' \<and> k < count_of (vm_heap (cs_vm s')) (cur s')) (emit_byte b s1)"
    if "expr_rel s s1 \<and> ready s1 \<and> k \<le> count_of (vm_heap (cs_vm s1)) (cur s1)" for s1 b k
    by (rule ok_mono [OF emit_byte_ok]) (use that rel_ready in \<open>auto simp: ready_def intro: expr_rel_trans\<close>)
  show ?thesis
    unfolding emit_jump_def
  proof (rule ok_bind [OF step [where k = 0]], use assms expr_rel_refl in simp, rule ok_bind [OF step [where k = 1]],
      simp add: Suc_le_eq, rule ok_bind [OF step [where k = 2]], simp)
    fix s3 assume "expr_rel s s3 \<and> ready s3 \<and> 2 < count_of (vm_heap (cs_vm s3)) (cur s3)"
    then show "ok (\<lambda>(n, s'). expr_rel s s' \<and> jump_ok s' n) (bind_result (code_count s3) (\<lambda>n. Inr (n - 2, s3)))"
      by (auto simp: code_count_Inr ready_def jump_ok_def)
  qed
qed

lemma patch_jump_rel:
  assumes "ready s" "jump_ok s offset"
  shows "ok (expr_rel s) (patch_jump offset s)"
proof -
  let ?ck = "vf_chunk (fun_of (vm_heap (cs_vm s)) (cur s))"
  have inv: "cs_inv s" using assms(1) by (simp add: ready_def)
  have ck: "chunk_inv ?ck" by (rule cur_chunk_inv [OF inv])
  have bound: "Suc offset < length (ck_code ?ck)"
    using ck assms(2) by (auto simp: chunk_inv_def jump_ok_def filled_def)
  have patched: "chunk_inv (?ck\<lparr>ck_code := (ck_code ?ck)[offset := Some a, Suc offset := Some b]\<rparr>)" for a b
    using ck assms(2) by (auto simp: chunk_inv_def jump_ok_def filled_def take_update_swap in_set_conv_nth nth_list_update)
  show ?thesis
    unfolding patch_jump_def current_chunk_Inr [OF inv] bind_result_Inr Let_def
  proof (rule expr_bind [OF assms(1)])
    show "ok (expr_rel s) (if BYTE_MAX < int (ck_count ?ck) - int offset - 2
        then error_prev ''Too much code to jump over.'' s else Inr s)"
      using error_prev_rel [OF assms(1)] expr_rel_refl [OF assms(1)] by simp
    fix s1 assume "(if BYTE_MAX < int (ck_count ?ck) - int offset - 2
        then error_prev ''Too much code to jump over.'' s else Inr s) = Inr s1"
      and s1: "expr_rel s s1" "ready s1"
    then have same: "vm_heap (cs_vm s1) = vm_heap (cs_vm s)" "cur s1 = cur s"
      by (auto simp: error_prev_def error_at_def cur_def Let_def elim!: bind_result_InrE split: if_splits)
    show "ok (expr_rel s1) (if Suc offset < length (ck_code ?ck) then put_chunk (?ck\<lparr>ck_code := (ck_code ?ck)
        [offset := Some (jump_hi (int (ck_count ?ck) - int offset - 2)),
         Suc offset := Some (jump_lo (int (ck_count ?ck) - int offset - 2))]\<rparr>) s1 else Inl (Crash Out_Of_Bounds))"
      using bound s1(2) same by (auto simp: ready_def intro!: put_chunk_ok patched)
  qed
qed

lemma emit_loop_rel:
  assumes "ready s"
  shows "ok (expr_rel s) (emit_loop loopStart s)"
  unfolding emit_loop_def
proof (rule expr_bind [OF assms emit_byte_rel [OF assms]])
  fix s1 assume s1: "ready s1"
  then show "ok (expr_rel s1) (bind_result (code_count s1) (\<lambda>n.
       let offset = int n - int loopStart + 2
       in bind_result (if offset > SHORT_MAX then error_prev ''Loop body too large'' s1 else Inr s1) (\<lambda>s2.
          bind_result (emit_byte (jump_hi offset) s2) (emit_byte (jump_lo offset)))))"
    using error_prev_rel [OF s1] expr_rel_refl [OF s1]
    by (auto simp: code_count_Inr ready_def Let_def
        intro!: expr_bind [OF s1] expr_bind [OF _ emit_byte_rel] emit_byte_rel)
qed

text \<open>Interning a string while compiling.\<close>

lemma allocate_rel:
  assumes "cs_inv s" "only_allocates (cs_vm s) vm" "heap_inv vm"
  shows "expr_rel s (s\<lparr>cs_vm := vm\<rparr>)"
proof -
  note f = only_allocates_is_fun [OF assms(2)]
  have same: "fun_of (vm_heap vm) r = fun_of (vm_heap (cs_vm s)) r" if "is_fun (vm_heap (cs_vm s)) r" for r
    using only_allocates_nth [OF assms(2)] only_allocates_length [OF assms(2)] that
    by (auto simp: fun_of_def as_function_def object_at_def is_fun_def)
  show ?thesis
    using assms
    by (auto simp: expr_rel_def cs_inv_def grows_def begun_def chunks_ok_def heap_le_def f same only_allocates_def)
qed

lemma vmstring_copy_rel:
  assumes "cs_inv s"
  shows "ok (\<lambda>(vm, r). expr_rel s (s\<lparr>cs_vm := vm\<rparr>)) (vmstring_copy (cs_vm s) chars (length chars))"
proof -
  have "heap_inv (cs_vm s)" "length chars \<le> length chars" using assms by (simp_all add: cs_inv_def)
  then obtain vm r where v: "vmstring_copy (cs_vm s) chars (length chars) = Inr (vm, r)" "heap_inv vm"
    "only_allocates (cs_vm s) vm" by (rule vmstring_copy_spec)
  then show ?thesis using allocate_rel [OF assms] by simp
qed

lemma identifier_constant_rel:
  assumes "ready s" "token_ok t"
  shows "okp s (identifier_constant t s)"
proof -
  obtain name where name: "tk_lexeme t = Some name" using assms(2) by (auto simp: token_ok_def)
  have inv: "cs_inv s" using assms(1) by (simp add: ready_def)
  show ?thesis
    unfolding identifier_constant_def name option.case
    by (rule ok_bind [OF vmstring_copy_rel [OF inv]])
      (auto intro!: ok_mono [OF make_constant_rel] rel_ready(1) [OF _ assms(1)] intro: expr_rel_trans)
qed

section \<open>Expressions\<close>

lemma match_rel: "ready s \<Longrightarrow> okp s (match type s)"
  by (rule ok_mono [OF match_ok]) (force simp: ready_def)+

lemma optional_match_rel: "ready s \<Longrightarrow> okp s (if c then match type s else Inr (False, s))"
  using match_rel [of s type] expr_rel_refl [of s] by simp

lemma resolve_rel: "ready s \<Longrightarrow> okp s (variable_local_resolve c name s)"
  by (auto simp: variable_local_resolve_def expr_rel_refl intro!: ok_bind [OF error_prev_rel] split: option.split)

lemma token_rels: "ready s \<Longrightarrow> ok token_ok (current_token s)" "ready s \<Longrightarrow> ok token_ok (previous_token s)"
  by (simp_all add: ready_def current_token_ok previous_token_ok)

lemma jump_bind:
  assumes "ready s"
    "\<And>n s1. expr_rel s s1 \<Longrightarrow> ready s1 \<Longrightarrow> jump_ok s1 n \<Longrightarrow> ok (expr_rel s1) (f (n, s1))"
  shows "ok (expr_rel s) (bind_result (emit_jump op_code s) f)"
  by (rule ok_bind [OF emit_jump_rel [OF assms(1)]])
    (use assms rel_ready in \<open>force intro: ok_mono expr_rel_trans\<close>)

lemma jump_ok_expr: "expr_rel s s' \<Longrightarrow> ready s \<Longrightarrow> jump_ok s n \<Longrightarrow> jump_ok s' n"
  by (rule jump_ok_later [OF _ expr_stmt_rel]) (auto simp: ready_def)

lemma current_compiler_ready: "ready s \<Longrightarrow> current_compiler s = Inr (hd (cs_compilers s))"
  by (simp add: ready_def current_compiler_Inr)

text \<open>
  The interface between the functions that compile one kind of expression and \<^verbatim>\<open>prec_parse\<close>,
  which they call: \<^verbatim>\<open>prec_parse\<close> steps over a token before anything else.
\<close>

locale expr_compiler =
  fixes pp :: parser_fn
  assumes pp_ok: "cs_inv s \<Longrightarrow> ok (\<lambda>s'. expr_rel s s' \<and> begun s') (pp prec s)"
begin

lemma pp_rel: "ready s \<Longrightarrow> ok (expr_rel s) (pp prec s)"
  by (rule ok_mono [OF pp_ok]) (auto simp: ready_def)

lemma expression_rel: "ready s \<Longrightarrow> ok (expr_rel s) (expression pp s)"
  unfolding expression_def by (rule pp_rel)

lemmas rels = expression_rel pp_rel emit_byte_rel emit_bytes_rel emit_constant_rel consume_rel expr_rel_refl
  emit_loop_rel emit_return_rel error_prev_rel

lemma grouping_rel: "ready s \<Longrightarrow> ok (expr_rel s) (grouping pp s)"
  unfolding grouping_def by (auto intro!: expr_bind rels)

lemma arguments_loop_rel: "ready s \<Longrightarrow> okp s (arguments_loop fuel pp argCount s)"
proof (induction fuel arbitrary: s argCount)
  case (Suc fuel)
  show ?case
    unfolding arguments_loop.simps
    by (auto intro!: pair_bind [OF Suc.prems] pair_bind_pair rels match_rel Suc.IH Suc.prems)
qed simp

lemma argument_list_rel:
  assumes "ready s"
  shows "okp s (argument_list fuel pp s)"
proof -
  have "ok (\<lambda>_. True) (check TOKEN_RIGHT_PAREN s)" using assms by (simp add: ready_def check_ok)
  then show ?thesis
    unfolding argument_list_def
    by (rule ok_bind)
      (auto intro!: pair_bind_pair pair_bind arguments_loop_rel rels assms)
qed

lemma call_rel: "ready s \<Longrightarrow> ok (expr_rel s) (call fuel pp s)"
  unfolding call_def by (auto intro!: expr_bind_pair argument_list_rel rels)

lemma literal_rel: "ready s \<Longrightarrow> ok (expr_rel s) (literal s)"
  unfolding literal_def by (rule ok_bind [OF token_rels(2)]) (auto intro!: rels)

lemma number_rel: "ready s \<Longrightarrow> ok (expr_rel s) (number s)"
  unfolding number_def by (rule ok_bind [OF token_rels(2)]) (auto simp: token_ok_def intro!: rels)

lemma named_variable_rel:
  assumes "ready s" "token_ok name"
  shows "ok (expr_rel s) (named_variable pp name canAssign s)"
proof -
  have arg: "ok (\<lambda>(arg, getOp, setOp, s2). expr_rel s1 s2) (case local of
         Some i \<Rightarrow> Inr (of_nat i, OP_GET_LOCAL, OP_SET_LOCAL, s1)
       | None \<Rightarrow> bind_result (identifier_constant name s1) (\<lambda>(k, s2). Inr (k, OP_GET_GLOBAL, OP_SET_GLOBAL, s2)))"
    if "ready s1" for local s1
    using that by (auto simp: expr_rel_refl intro!: ok_bind [OF identifier_constant_rel [OF that assms(2)]] split: option.split)
  have use: "ok (expr_rel s2) (bind_result (if canAssign then match TOKEN_EQUAL s2 else Inr (False, s2)) (\<lambda>(assign, s3).
       if assign then bind_result (expression pp s3) (emit_bytes (op_byte setOp) arg)
       else emit_bytes (op_byte getOp) arg s3))" if "ready s2" for s2 getOp setOp arg
    by (rule expr_bind_pair [OF that optional_match_rel [OF that]])
      (auto intro!: expr_bind rels)
  show ?thesis
    unfolding named_variable_def current_compiler_ready [OF assms(1)] bind_result_Inr
    by (rule expr_bind_pair [OF assms(1) resolve_rel [OF assms(1)]], simp, rule ok_bind [OF arg])
      (auto intro: ok_mono [OF use] expr_rel_trans dest: rel_ready(1))
qed

lemma variable_rel: "ready s \<Longrightarrow> ok (expr_rel s) (variable pp canAssign s)"
  unfolding variable_def by (rule ok_bind [OF token_rels(2)]) (auto intro!: named_variable_rel)

lemma unary_rel: "ready s \<Longrightarrow> ok (expr_rel s) (unary pp s)"
  unfolding unary_def by (rule ok_bind [OF token_rels(2)]) (auto intro!: expr_bind rels)

lemma emit_ops_rel: "ready s \<Longrightarrow> ok (expr_rel s) (emit_ops ops s)"
  by (induction ops arbitrary: s) (auto intro!: expr_bind rels)

lemma binary_rel: "ready s \<Longrightarrow> ok (expr_rel s) (binary pp s)"
  unfolding binary_def by (rule ok_bind [OF token_rels(2)]) (auto intro!: expr_bind rels emit_ops_rel)

lemma and_fn_rel: "ready s \<Longrightarrow> ok (expr_rel s) (and_fn pp s)"
  unfolding and_fn_def
  by (rule jump_bind) (auto intro!: expr_bind rels patch_jump_rel dest: jump_ok_expr)

lemma or_fn_rel: "ready s \<Longrightarrow> ok (expr_rel s) (or_fn pp s)"
  unfolding or_fn_def
  by (rule jump_bind, simp, simp, rule jump_bind, simp, simp)
    (auto intro!: expr_bind rels patch_jump_rel dest: jump_ok_expr)

lemma string_fn_rel:
  assumes "ready s" "\<And>t. previous_token s = Inr t \<Longrightarrow> tk_type t = TOKEN_STRING"
  shows "ok (expr_rel s) (string_fn s)"
  unfolding string_fn_def
proof (rule ok_bind [OF token_rels(2) [OF assms(1)]])
  fix t assume "previous_token s = Inr t" "token_ok t"
  then obtain chars where chars: "tk_literal t = Some chars" using assms(2) by (auto simp: token_ok_def)
  have inv: "cs_inv s" using assms(1) by (simp add: ready_def)
  show "ok (expr_rel s) (case tk_literal t of None \<Rightarrow> Inl (Crash Null_Deref)
     | Some chars \<Rightarrow> bind_result (vmstring_copy (cs_vm s) chars (length chars)) (\<lambda>(vm1, r).
         emit_constant (object_val r) (s\<lparr>cs_vm := vm1\<rparr>)))"
    unfolding chars option.case
    by (rule ok_bind [OF vmstring_copy_rel [OF inv]])
      (auto intro!: ok_mono [OF emit_constant_rel] rel_ready(1) [OF _ assms(1)] intro: expr_rel_trans)
qed

lemma string_rule:
  "pr_prefix (parse_rule type) = Some fn_string \<Longrightarrow> type = TOKEN_STRING"
  "pr_infix (parse_rule type) \<noteq> Some fn_string"
  by (cases type; simp add: rule_def)+

lemma parse_fn_rel:
  "ready s \<Longrightarrow> (\<And>t. previous_token s = Inr t \<Longrightarrow> fn = fn_string \<Longrightarrow> tk_type t = TOKEN_STRING) \<Longrightarrow>
    ok (expr_rel s) (parse_fn fuel pp fn canAssign s)"
  by (cases fn) (auto intro: grouping_rel call_rel unary_rel binary_rel variable_rel string_fn_rel number_rel
      and_fn_rel or_fn_rel literal_rel)

lemma infix_loop_rel: "ready s \<Longrightarrow> ok (expr_rel s) (infix_loop fuel pp prec canAssign s)"
proof (induction fuel arbitrary: s)
  case (Suc fuel)
  have adv: "ok (expr_rel s) (advance s)"
    by (rule ok_mono [OF advance_ok]) (use Suc.prems in \<open>auto simp: ready_def\<close>)
  show ?case
    unfolding infix_loop.simps
    by (rule ok_bind [OF token_rels(1) [OF Suc.prems]], rule ok_if, rule expr_bind [OF Suc.prems adv],
        rule ok_bind [OF token_rels(2)])
      (auto intro!: expr_bind parse_fn_rel Suc.IH Suc.prems rels simp: string_rule split: option.split)
qed simp

lemma prec_body_ok:
  assumes "cs_inv s"
  shows "ok (\<lambda>s'. expr_rel s s' \<and> begun s') (prec_body fuel pp prec s)"
  unfolding prec_body_def
proof (rule ok_bind [OF advance_ok [OF assms]])
  fix s1 assume s1: "expr_rel s s1 \<and> begun s1"
  then have r: "ready s1" by (auto simp: ready_def expr_rel_def)
  show "ok (\<lambda>s'. expr_rel s s' \<and> begun s') (bind_result (previous_token s1) (\<lambda>t.
       case pr_prefix (parse_rule (tk_type t)) of
         None \<Rightarrow> error_prev ''Expect Expression.'' s1
       | Some fn \<Rightarrow>
           let canAssign = prec_rank prec \<le> prec_rank PREC_ASSIGNMENT
           in bind_result (parse_fn fuel pp fn canAssign s1) (\<lambda>s2.
              bind_result (infix_loop fuel pp prec canAssign s2) (\<lambda>s3.
              bind_result (if canAssign then match TOKEN_EQUAL s3 else Inr (False, s3)) (\<lambda>(bad, s4).
                if bad then bind_result (error_prev ''Invalid assignment target.'' s4) (expression pp)
                else Inr s4)))))" (is "ok _ ?r")
  proof -
    have "ok (expr_rel s1) ?r"
      by (rule ok_bind [OF token_rels(2) [OF r]])
        (auto simp: Let_def string_rule(1) intro!: expr_bind expr_bind_pair parse_fn_rel infix_loop_rel match_rel r rels
          split: option.split)
    then show ?thesis
      by (rule ok_mono) (use s1 r rel_ready(1) in \<open>auto intro: expr_rel_trans simp: ready_def\<close>)
  qed
qed

end

lemma prec_parse_compiler: "expr_compiler (prec_parse fuel)"
proof (induction fuel)
  case (Suc fuel)
  show ?case by unfold_locales (simp add: expr_compiler.prec_body_ok [OF Suc])
qed (unfold_locales, simp)

interpretation pratt: expr_compiler "prec_parse fuel" for fuel
  by (rule prec_parse_compiler)

section \<open>Scopes and variables\<close>

lemma stmt_mono: "ok (expr_rel s) r \<Longrightarrow> ok (stmt_rel 0 s) r"
  by (erule ok_mono) (rule expr_stmt_rel)

lemma stmt_rel_refl: "cs_inv s \<Longrightarrow> stmt_rel 0 s s"
  by (simp add: stmt_rel_def)

lemma stmt_rel_depth: "stmt_rel 0 s s' \<Longrightarrow> depth s' = depth s"
  by (simp add: stmt_rel_def)

text \<open>Sequencing: a first part at the same depth, then the rest.\<close>

lemma stmt_bind:
  assumes "ready s" "ok (stmt_rel 0 s) r"
    "\<And>s1. stmt_rel 0 s s1 \<Longrightarrow> ready s1 \<Longrightarrow> depth s1 = depth s \<Longrightarrow> ok (stmt_rel d s1) (f s1)"
  shows "ok (stmt_rel d s) (bind_result r f)"
proof (rule ok_bind [OF assms(2)])
  fix s1 assume s1: "stmt_rel 0 s s1"
  then have "ok (stmt_rel d s1) (f s1)" by (intro assms(3) rel_ready(2) [OF s1 assms(1)] stmt_rel_depth)
  then show "ok (stmt_rel d s) (f s1)" by (rule ok_mono) (use stmt_rel_trans [OF s1] in simp)
qed

lemma stmt_bind_pair:
  assumes "ready s" "ok (\<lambda>x. stmt_rel 0 s (snd x)) r"
    "\<And>x s1. r = Inr (x, s1) \<Longrightarrow> stmt_rel 0 s s1 \<Longrightarrow> ready s1 \<Longrightarrow> depth s1 = depth s \<Longrightarrow> ok (stmt_rel d s1) (f (x, s1))"
  shows "ok (stmt_rel d s) (bind_result r f)"
proof (rule ok_bind [OF assms(2)])
  fix x assume x: "r = Inr x" "stmt_rel 0 s (snd x)"
  then have "ok (stmt_rel d (snd x)) (f x)"
    using assms(3) [of "fst x" "snd x"] rel_ready(2) [OF x(2) assms(1)] stmt_rel_depth by simp
  then show "ok (stmt_rel d s) (f x)" by (rule ok_mono) (use stmt_rel_trans [OF x(2)] in simp)
qed

lemma scope_begin_ok:
  assumes "cs_inv s"
  obtains s1 where "scope_begin s = Inr s1" "stmt_rel 1 s s1" "0 < depth s1"
proof
  let ?c = "hd (cs_compilers s)"
  let ?s = "put_compiler (?c\<lparr>cp_scopeDepth := cp_scopeDepth ?c + 1\<rparr>) s"
  show "scope_begin s = Inr ?s" by (simp add: scope_begin_def current_compiler_Inr [OF assms])
  have "?c \<in> set (cs_compilers s)" "set (tl (cs_compilers s)) \<subseteq> set (cs_compilers s)"
    using assms by (cases "cs_compilers s"; auto simp: cs_inv_def)+
  then show "stmt_rel 1 s ?s" "0 < depth ?s"
    using assms
    by (auto simp: stmt_rel_def cs_inv_def put_compiler_def grows_def begun_def shape_def depth_def locals_ok_def Let_def)
qed

lemma put_locals_rel:
  assumes "cs_inv s" "ls \<noteq> []" "lc_depth (hd ls) = 0" "length ls \<le> BYTE_COUNT"
  shows "stmt_rel 0 s (put_compiler ((hd (cs_compilers s))\<lparr>cp_locals := ls\<rparr>) s)"
proof -
  have "hd (cs_compilers s) \<in> set (cs_compilers s)" "set (tl (cs_compilers s)) \<subseteq> set (cs_compilers s)"
    using assms(1) by (cases "cs_compilers s"; auto simp: cs_inv_def)+
  then show ?thesis
    using assms
    by (auto simp: stmt_rel_def cs_inv_def put_compiler_def grows_def begun_def shape_def depth_def locals_ok_def Let_def)
qed

lemma hd_locals_ok: "cs_inv s \<Longrightarrow> locals_ok (hd (cs_compilers s))"
  by (cases "cs_compilers s") (auto simp: cs_inv_def)

lemma scope_end_loop_rel:
  "ready s \<Longrightarrow> 0 \<le> depth s \<Longrightarrow> ok (stmt_rel 0 s) (scope_end_loop n s)"
proof (induction n arbitrary: s)
  case 0
  then show ?case by (simp add: stmt_rel_def ready_def)
next
  case (Suc n)
  let ?c = "hd (cs_compilers s)"
  have inv: "cs_inv s" using Suc.prems by (simp add: ready_def)
  note l = hd_locals_ok [OF inv]
  have "ok (stmt_rel 0 s) (bind_result (emit_byte (op_byte OP_POP) s) (\<lambda>s1.
       scope_end_loop n (put_compiler (?c\<lparr>cp_locals := butlast (cp_locals ?c)\<rparr>) s1)))"
    if pop: "lc_depth (last (cp_locals ?c)) > cp_scopeDepth ?c"
  proof (rule ok_bind [OF emit_byte_rel [OF Suc.prems(1)]])
    fix s1 assume s1: "expr_rel s s1"
    have "butlast (cp_locals ?c) \<noteq> []"
      using l pop Suc.prems(2) by (cases "cp_locals ?c") (auto simp: locals_ok_def depth_def split: if_splits)
    moreover have "hd (butlast (cp_locals ?c)) = hd (cp_locals ?c)"
      using calculation by (cases "cp_locals ?c") (auto split: if_splits)
    moreover have "hd (cs_compilers s1) = ?c" "cs_inv s1" using s1 by (simp_all add: expr_rel_def)
    ultimately have 2: "stmt_rel 0 s1 (put_compiler (?c\<lparr>cp_locals := butlast (cp_locals ?c)\<rparr>) s1)" (is "stmt_rel 0 s1 ?s2")
      using put_locals_rel [of s1 "butlast (cp_locals ?c)"] l by (auto simp: locals_ok_def)
    have 3: "stmt_rel 0 s ?s2" using stmt_rel_trans [OF expr_stmt_rel [OF s1] 2] by simp
    have "ok (stmt_rel 0 ?s2) (scope_end_loop n ?s2)"
      by (rule Suc.IH) (use rel_ready(2) [OF 3] stmt_rel_depth [OF 3] Suc.prems in auto)
    then show "ok (stmt_rel 0 s) (scope_end_loop n ?s2)"
      by (rule ok_mono) (use stmt_rel_trans [OF 3] in simp)
  qed
  then show ?case
    using inv by (auto simp: current_compiler_Inr stmt_rel_refl)
qed

lemma scope_end_rel:
  assumes "ready s" "0 < depth s"
  shows "ok (stmt_rel (-1) s) (scope_end s)"
proof -
  let ?c = "hd (cs_compilers s)"
  let ?s = "put_compiler (?c\<lparr>cp_scopeDepth := cp_scopeDepth ?c - 1\<rparr>) s"
  have inv: "cs_inv s" using assms by (simp add: ready_def)
  have "?c \<in> set (cs_compilers s)" "set (tl (cs_compilers s)) \<subseteq> set (cs_compilers s)"
    using inv by (cases "cs_compilers s"; auto simp: cs_inv_def)+
  then have 1: "stmt_rel (-1) s ?s"
    using inv assms(2)
    by (auto simp: stmt_rel_def cs_inv_def put_compiler_def grows_def begun_def shape_def depth_def locals_ok_def Let_def)
  have "ok (stmt_rel 0 ?s) (scope_end_loop (Suc (length (cp_locals ?c))) ?s)"
    by (rule scope_end_loop_rel) (use 1 rel_ready(2) [OF 1] assms in \<open>simp_all add: stmt_rel_def\<close>)
  then show ?thesis
    unfolding scope_end_def current_compiler_Inr [OF inv] bind_result_Inr
    by (rule ok_mono) (use stmt_rel_trans [OF 1, where d' = 0] in simp)
qed

text \<open>A local has been declared in the current scope, so initializing the last one spares slot 0.\<close>

definition named :: "CS \<Rightarrow> bool" where
  "named s \<longleftrightarrow> (0 < depth s \<longrightarrow> 2 \<le> length (cp_locals (hd (cs_compilers s))))"

lemma named_expr: "expr_rel s s' \<Longrightarrow> named s \<Longrightarrow> named s'"
  by (simp add: expr_rel_def named_def depth_def)

lemma declare_loop_rel: "ready s \<Longrightarrow> ok (expr_rel s) (declare_loop n c name s)"
  by (induction n arbitrary: s) (auto simp: Let_def expr_rel_refl intro!: expr_bind error_prev_rel)

lemma variable_local_add_rel:
  assumes "ready s"
  shows "ok (\<lambda>s'. stmt_rel 0 s s' \<and> named s') (variable_local_add name s)"
proof -
  let ?c = "hd (cs_compilers s)"
  let ?ls = "cp_locals ?c @ [\<lparr>lc_name = name, lc_depth = -1\<rparr>]"
  have inv: "cs_inv s" using assms by (simp add: ready_def)
  note l = hd_locals_ok [OF inv]
  show ?thesis
  proof (cases "length (cp_locals ?c) = BYTE_COUNT")
    case True
    then have "named s" by (simp add: named_def BYTE_COUNT_def)
    have "ok (\<lambda>s'. stmt_rel 0 s s' \<and> named s') (error_prev msg s)" for msg
      by (rule ok_mono [OF error_prev_rel [OF assms]]) (use \<open>named s\<close> named_expr expr_stmt_rel in blast)
    with True show ?thesis by (simp add: variable_local_add_def current_compiler_Inr [OF inv])
  next
    case False
    have "stmt_rel 0 s (put_compiler (?c\<lparr>cp_locals := ?ls\<rparr>) s)"
      by (rule put_locals_rel [OF inv]) (use l False in \<open>auto simp: locals_ok_def\<close>)
    moreover have "named (put_compiler (?c\<lparr>cp_locals := ?ls\<rparr>) s)"
      using l by (cases "cp_locals ?c") (auto simp: named_def put_compiler_def locals_ok_def)
    ultimately show ?thesis
      using False by (simp add: variable_local_add_def current_compiler_Inr [OF inv])
  qed
qed

lemma variable_declare_rel:
  assumes "ready s"
  shows "ok (\<lambda>s'. stmt_rel 0 s s' \<and> named s') (variable_declare s)"
proof -
  have inv: "cs_inv s" using assms by (simp add: ready_def)
  have add: "ok (\<lambda>s'. stmt_rel 0 s s' \<and> named s') (variable_local_add t s1)" if "expr_rel s s1" for s1 t
    by (rule ok_mono [OF variable_local_add_rel [OF rel_ready(1) [OF that assms]]])
      (use stmt_rel_trans [OF expr_stmt_rel [OF that]] in fastforce)
  show ?thesis
    unfolding variable_declare_def current_compiler_Inr [OF inv] bind_result_Inr
    by (rule ok_if, use inv in \<open>simp add: stmt_rel_def named_def depth_def\<close>,
        rule ok_bind [OF token_rels(2) [OF assms]], rule ok_bind [OF declare_loop_rel [OF assms]], erule add)
qed

lemma variable_parse_rel:
  assumes "ready s"
  shows "ok (\<lambda>x. stmt_rel 0 s (snd x) \<and> named (snd x)) (variable_parse msg s)"
  unfolding variable_parse_def
proof (rule ok_bind [OF consume_rel [OF assms]])
  fix s1 assume s1: "expr_rel s s1"
  note r1 = rel_ready(1) [OF s1 assms]
  show "ok (\<lambda>x. stmt_rel 0 s (snd x) \<and> named (snd x)) (bind_result (variable_declare s1) (\<lambda>s2.
     bind_result (current_compiler s2) (\<lambda>c. if cp_scopeDepth c > 0 then Inr (0, s2)
       else bind_result (previous_token s2) (\<lambda>t. identifier_constant t s2))))"
  proof (rule ok_bind [OF variable_declare_rel [OF r1]])
    fix s2 assume s2: "stmt_rel 0 s1 s2 \<and> named s2"
    then have r2: "ready s2" using r1 rel_ready(2) by blast
    have rel: "stmt_rel 0 s s2" using stmt_rel_trans [OF expr_stmt_rel [OF s1], of 0 s2] s2 by simp
    have "ok (\<lambda>x. stmt_rel 0 s (snd x) \<and> named (snd x)) (identifier_constant t s2)" if "token_ok t" for t
      by (rule ok_mono [OF identifier_constant_rel [OF r2 that]])
        (use s2 stmt_rel_trans [OF rel expr_stmt_rel] named_expr in auto)
    then show "ok (\<lambda>x. stmt_rel 0 s (snd x) \<and> named (snd x)) (bind_result (current_compiler s2) (\<lambda>c.
       if cp_scopeDepth c > 0 then Inr (0, s2) else bind_result (previous_token s2) (\<lambda>t. identifier_constant t s2)))"
      using s2 rel r2 by (auto simp: current_compiler_ready intro!: ok_bind [OF token_rels(2) [OF r2]])
  qed
qed

lemma variable_initialize_rel:
  assumes "ready s" "named s"
  shows "ok (\<lambda>s'. stmt_rel 0 s s' \<and> named s') (variable_initialize s)"
proof -
  let ?c = "hd (cs_compilers s)"
  let ?n = "length (cp_locals ?c) - 1"
  let ?ls = "(cp_locals ?c)[?n := (cp_locals ?c ! ?n)\<lparr>lc_depth := cp_scopeDepth ?c\<rparr>]"
  have inv: "cs_inv s" using assms by (simp add: ready_def)
  note l = hd_locals_ok [OF inv]
  have "stmt_rel 0 s (put_compiler (?c\<lparr>cp_locals := ?ls\<rparr>) s)" if "cp_scopeDepth ?c \<noteq> 0"
  proof (rule put_locals_rel [OF inv])
    have "2 \<le> length (cp_locals ?c)"
      using assms(2) l that by (auto simp: named_def depth_def locals_ok_def)
    then show "lc_depth (hd ?ls) = 0" using l by (cases "cp_locals ?c") (auto simp: locals_ok_def nth_Cons split: nat.split)
  qed (use l in \<open>auto simp: locals_ok_def\<close>)
  moreover have "named (put_compiler (?c\<lparr>cp_locals := ?ls\<rparr>) s)"
    using assms(2) by (simp add: named_def put_compiler_def depth_def)
  ultimately show ?thesis
    using l inv assms(2)
    by (auto simp: variable_initialize_def current_compiler_Inr Let_def stmt_rel_refl locals_ok_def)
qed

lemma variable_define_rel:
  assumes "ready s" "named s"
  shows "ok (stmt_rel 0 s) (variable_define k s)"
  unfolding variable_define_def current_compiler_ready [OF assms(1)] bind_result_Inr
  by (rule ok_if) (auto intro: ok_mono [OF variable_initialize_rel [OF assms]] stmt_mono [OF emit_bytes_rel [OF assms(1)]])

section \<open>Statements\<close>

lemma stmt_jump_bind:
  assumes "ready s"
    "\<And>n s1. stmt_rel 0 s s1 \<Longrightarrow> ready s1 \<Longrightarrow> depth s1 = depth s \<Longrightarrow> jump_ok s1 n \<Longrightarrow> ok (stmt_rel d s1) (f (n, s1))"
  shows "ok (stmt_rel d s) (bind_result (emit_jump op_code s) f)"
proof (rule stmt_bind_pair [OF assms(1)])
  note j = emit_jump_rel [OF assms(1), of op_code]
  show "ok (\<lambda>x. stmt_rel 0 s (snd x)) (emit_jump op_code s)"
    by (rule ok_mono [OF j]) (auto simp: expr_stmt_rel)
  show "ok (stmt_rel d s1) (f (n, s1))"
    if "emit_jump op_code s = Inr (n, s1)" "stmt_rel 0 s s1" "ready s1" "depth s1 = depth s" for n s1
    using j that assms(2) by simp
qed

lemma jump_ok_stmt: "stmt_rel d s s' \<Longrightarrow> ready s \<Longrightarrow> jump_ok s n \<Longrightarrow> jump_ok s' n"
  by (rule jump_ok_later) (auto simp: ready_def)

lemma code_count_ready: "ready s \<Longrightarrow> code_count s = Inr (count_of (vm_heap (cs_vm s)) (cur s))"
  by (simp add: ready_def code_count_Inr)

lemma check_bind: "ready s \<Longrightarrow> (\<And>b. ok P (f b)) \<Longrightarrow> ok P (bind_result (check type s) f)"
  by (rule ok_bind [OF check_ok]) (auto simp: ready_def)

lemma stmt_match: "ready s \<Longrightarrow> ok (\<lambda>x. stmt_rel 0 s (snd x)) (match type s)"
  by (rule ok_mono [OF match_rel]) (auto simp: expr_stmt_rel)

lemma variable_parse_stmt: "ready s \<Longrightarrow> ok (\<lambda>x. stmt_rel 0 s (snd x)) (variable_parse msg s)"
  by (rule ok_mono [OF variable_parse_rel]) auto

text \<open>The same for parts that return a value with a property \<open>Q\<close>.\<close>

abbreviation okq :: "CS \<Rightarrow> ('a \<times> CS \<Rightarrow> bool) \<Rightarrow> ('a \<times> CS) result \<Rightarrow> bool" where
  "okq s Q r \<equiv> ok (\<lambda>x. stmt_rel 0 s (snd x) \<and> Q x) r"

lemma okq_trans: "stmt_rel 0 s s1 \<Longrightarrow> okq s1 Q r \<Longrightarrow> okq s Q r"
  by (erule ok_mono) (use stmt_rel_trans [where d = 0 and d' = 0] in auto)

lemma q_bind:
  assumes "ready s" "ok (stmt_rel 0 s) r" "\<And>s1. stmt_rel 0 s s1 \<Longrightarrow> ready s1 \<Longrightarrow> okq s1 Q (f s1)"
  shows "okq s Q (bind_result r f)"
  by (rule ok_bind [OF assms(2)]) (use assms(1,3) rel_ready(2) okq_trans in blast)

lemma q_bind_pair:
  assumes "ready s" "okq s P r" "\<And>x s1. stmt_rel 0 s s1 \<Longrightarrow> ready s1 \<Longrightarrow> P (x, s1) \<Longrightarrow> okq s1 Q (f (x, s1))"
  shows "okq s Q (bind_result r f)"
proof (rule ok_bind [OF assms(2)])
  fix x assume x: "stmt_rel 0 s (snd x) \<and> P x"
  then have "okq (snd x) Q (f x)"
    using assms(3) [of "snd x" "fst x"] rel_ready(2) [of 0 s "snd x"] assms(1) by simp
  with x show "okq s Q (f x)" by (blast intro: okq_trans)
qed

lemma q_match: "ready s \<Longrightarrow> okq s (\<lambda>_. True) (match type s)"
  using stmt_match [of s type] by simp

lemma q_jump: "ready s \<Longrightarrow> okq s (\<lambda>x. jump_ok (snd x) (fst x)) (emit_jump op_code s)"
  by (rule ok_mono [OF emit_jump_rel]) (auto simp: expr_stmt_rel)

lemmas p_bind = q_bind [where Q = "\<lambda>_. True", simplified]
lemmas p_bind_pair = q_bind_pair [where Q = "\<lambda>_. True", simplified]

lemma q_last:
  assumes "ready s" "okq s P r" "\<And>x s1. stmt_rel 0 s s1 \<Longrightarrow> ready s1 \<Longrightarrow> depth s1 = depth s \<Longrightarrow> P (x, s1) \<Longrightarrow> ok (stmt_rel d s1) (f (x, s1))"
  shows "ok (stmt_rel d s) (bind_result r f)"
proof (rule stmt_bind_pair [OF assms(1)])
  show "ok (\<lambda>x. stmt_rel 0 s (snd x)) r" by (rule ok_mono [OF assms(2)]) simp
  show "ok (stmt_rel d s1) (f (x, s1))"
    if "r = Inr (x, s1)" "stmt_rel 0 s s1" "ready s1" "depth s1 = depth s" for x s1
    using assms(2,3) that by simp
qed

text \<open>A first part that is an expression and so keeps the locals.\<close>

lemma named_bind:
  assumes "ready s" "named s" "ok (expr_rel s) r"
    "\<And>s1. ready s1 \<Longrightarrow> named s1 \<Longrightarrow> ok (stmt_rel 0 s1) (f s1)"
  shows "ok (stmt_rel 0 s) (bind_result r f)"
proof (rule ok_bind [OF assms(3)])
  fix s1 assume s1: "expr_rel s s1"
  have "ok (stmt_rel 0 s1) (f s1)"
    by (rule assms(4) [OF rel_ready(1) [OF s1 assms(1)] named_expr [OF s1 assms(2)]])
  then show "ok (stmt_rel 0 s) (f s1)"
    by (rule ok_mono) (use stmt_rel_trans [OF expr_stmt_rel [OF s1], where d' = 0] in simp)
qed

lemma named_match:
  assumes "ready s" "named s" "\<And>b s1. ready s1 \<Longrightarrow> named s1 \<Longrightarrow> ok (stmt_rel 0 s1) (f (b, s1))"
  shows "ok (stmt_rel 0 s) (bind_result (match type s) f)"
proof (rule ok_bind [OF match_rel [OF assms(1)]])
  fix x :: "bool \<times> CS"
  assume x: "expr_rel s (snd x)"
  have "ok (stmt_rel 0 (snd x)) (f x)"
    using assms(3) [OF rel_ready(1) [OF x assms(1)] named_expr [OF x assms(2)], of "fst x"] by simp
  then show "ok (stmt_rel 0 s) (f x)"
    by (rule ok_mono) (use stmt_rel_trans [OF expr_stmt_rel [OF x], where d' = 0] in simp)
qed

lemma variable_parse_bind:
  assumes "ready s" "\<And>k s1. ready s1 \<Longrightarrow> named s1 \<Longrightarrow> ok (stmt_rel 0 s1) (f (k, s1))"
  shows "ok (stmt_rel 0 s) (bind_result (variable_parse msg s) f)"
proof (rule stmt_bind_pair [OF assms(1) variable_parse_stmt [OF assms(1)]])
  fix k s1 assume "variable_parse msg s = Inr (k, s1)" "ready s1"
  then show "ok (stmt_rel 0 s1) (f (k, s1))"
    using variable_parse_rel [OF assms(1), of msg] assms(2) by simp
qed

text \<open>The interface of the statement functions with \<^verbatim>\<open>statement\<close> and \<^verbatim>\<open>declaration\<close>.\<close>

locale stmt_compiler = expr_compiler +
  fixes st dc :: stmt_fn
  assumes st_ok: "cs_inv s \<Longrightarrow> ok (\<lambda>s'. stmt_rel 0 s s' \<and> begun s') (st s)"
    and dc_ok: "cs_inv s \<Longrightarrow> ok (\<lambda>s'. stmt_rel 0 s s' \<and> begun s') (dc s)"
begin

lemma st_rel: "ready s \<Longrightarrow> ok (stmt_rel 0 s) (st s)"
  by (rule ok_mono [OF st_ok]) (auto simp: ready_def)

lemma dc_rel: "ready s \<Longrightarrow> ok (stmt_rel 0 s) (dc s)"
  by (rule ok_mono [OF dc_ok]) (auto simp: ready_def)

lemma refl_rel: "ready s \<Longrightarrow> stmt_rel 0 s s"
  by (simp add: ready_def stmt_rel_refl)

lemmas srels = expression_rel [THEN stmt_mono] emit_byte_rel [THEN stmt_mono] emit_loop_rel [THEN stmt_mono]
  consume_rel [THEN stmt_mono] emit_return_rel [THEN stmt_mono] error_prev_rel [THEN stmt_mono]
  patch_jump_rel [THEN stmt_mono] refl_rel st_rel

lemma print_rel: "ready s \<Longrightarrow> ok (stmt_rel 0 s) (lox_print_statement pp s)"
  unfolding lox_print_statement_def by (auto intro!: stmt_bind srels)

lemma expression_statement_rel: "ready s \<Longrightarrow> ok (stmt_rel 0 s) (expression_statement pp s)"
  unfolding expression_statement_def by (auto intro!: stmt_bind srels)

lemma while_rel: "ready s \<Longrightarrow> ok (stmt_rel 0 s) (while_statement pp st s)"
  unfolding while_statement_def
  by (auto simp: code_count_ready intro!: stmt_jump_bind stmt_bind srels dest: jump_ok_stmt)

lemma if_rel: "ready s \<Longrightarrow> ok (stmt_rel 0 s) (if_statement pp st s)"
  unfolding if_statement_def
  by (auto intro!: stmt_jump_bind stmt_bind stmt_bind_pair stmt_match srels dest: jump_ok_stmt)
    (meson jump_ok_stmt)

lemma block_loop_rel: "ready s \<Longrightarrow> ok (stmt_rel 0 s) (block_loop fuel dc s)"
  by (induction fuel arbitrary: s) (auto intro!: check_bind stmt_bind dc_rel srels)

lemma block_statement_rel: "ready s \<Longrightarrow> ok (stmt_rel 0 s) (block_statement fuel dc s)"
  unfolding block_statement_def by (auto intro!: stmt_bind block_loop_rel srels)

lemma return_rel: "ready s \<Longrightarrow> ok (stmt_rel 0 s) (return_statement pp s)"
  unfolding return_statement_def
  by (auto simp: current_compiler_ready intro!: stmt_bind stmt_bind_pair stmt_match srels)

lemma scope_bind:
  assumes "ready s" "\<And>s1. ready s1 \<Longrightarrow> 0 < depth s1 \<Longrightarrow> ok (stmt_rel (-1) s1) (f s1)"
  shows "ok (stmt_rel 0 s) (bind_result (scope_begin s) f)"
proof -
  have inv: "cs_inv s" using assms(1) by (simp add: ready_def)
  obtain s1 where s1: "scope_begin s = Inr s1" "stmt_rel 1 s s1" "0 < depth s1" by (rule scope_begin_ok [OF inv])
  have "ok (stmt_rel (-1) s1) (f s1)" by (rule assms(2) [OF rel_ready(2) [OF s1(2) assms(1)] s1(3)])
  then show ?thesis
    unfolding s1(1) bind_result_Inr by (rule ok_mono) (use stmt_rel_trans [OF s1(2), where d' = "-1"] in simp)
qed

lemma block_scope_rel: "ready s \<Longrightarrow> ok (stmt_rel 0 s) (block_scope fuel dc s)"
  unfolding block_scope_def by (auto intro!: scope_bind stmt_bind block_statement_rel scope_end_rel)

lemma var_declaration_rel: "ready s \<Longrightarrow> ok (stmt_rel 0 s) (var_declaration pp s)"
  unfolding var_declaration_def
  by (auto intro!: variable_parse_bind named_match named_bind variable_define_rel rels)

lemma for_initializer_rel: "ready s \<Longrightarrow> ok (stmt_rel 0 s) (for_initializer pp s)"
  unfolding for_initializer_def
  by (auto intro!: stmt_bind_pair stmt_match var_declaration_rel expression_statement_rel refl_rel)

lemma for_condition_rel:
  assumes "ready s"
  shows "okq s (\<lambda>x. \<forall>j. fst x = Some j \<longrightarrow> jump_ok (snd x) j) (for_condition pp s)"
  unfolding for_condition_def
  by (rule q_bind_pair [OF assms q_match [OF assms]])
    (auto simp: refl_rel intro!: q_bind q_bind_pair [OF _ q_jump] srels dest: jump_ok_stmt)

lemma for_increment_rel:
  assumes "ready s"
  shows "ok (\<lambda>x. stmt_rel 0 s (snd x)) (for_increment pp loopStart s)"
  unfolding for_increment_def
  apply (rule p_bind_pair [OF assms q_match [OF assms]], simp only: prod.case, rule ok_if)
  subgoal by (simp add: refl_rel)
  subgoal by (rule p_bind_pair [OF _ q_jump])
    (auto simp: refl_rel code_count_ready intro!: p_bind srels, meson jump_ok_stmt)
  done

lemma for_rel: "ready s \<Longrightarrow> ok (stmt_rel 0 s) (for_statement pp st s)"
  unfolding for_statement_def
  apply (rule scope_bind, simp, rule stmt_bind, simp, rule srels, simp, rule stmt_bind, simp, rule for_initializer_rel, simp,
      simp only: code_count_ready bind_result_Inr, rule q_last [OF _ for_condition_rel], simp, simp, simp only: prod.case,
      rule stmt_bind_pair [OF _ for_increment_rel], simp, simp, simp only: prod.case)
  apply (auto intro!: stmt_bind srels scope_end_rel split: option.split)
  apply (meson jump_ok_stmt)
  done

end

section \<open>Functions\<close>

definition cs_base :: "CS \<Rightarrow> bool" where
  "cs_base s \<longleftrightarrow> parser_ok (cs_parser s)
     \<and> (\<forall>c\<in>set (cs_compilers s). is_fun (vm_heap (cs_vm s)) (cp_function c) \<and> locals_ok c)
     \<and> heap_inv (cs_vm s) \<and> chunks_ok (vm_heap (cs_vm s))"

lemma cs_inv_base: "cs_inv s \<longleftrightarrow> cs_base s \<and> cs_compilers s \<noteq> []"
  by (auto simp: cs_inv_def cs_base_def)

text \<open>The state in which the compiler of a new function has been entered.\<close>

definition entered :: "FunctionType \<Rightarrow> CS \<Rightarrow> CS" where
  "entered type s = (let (vm, r) = vmfunction_new (cs_vm s) in
     s\<lparr>cs_vm := vm, cs_compilers := \<lparr>cp_function = r, cp_type = type,
       cp_locals = [\<lparr>lc_name = no_token, lc_depth = 0\<rparr>], cp_scopeDepth = 0\<rparr> # cs_compilers s\<rparr>)"

lemma entered_ok:
  assumes "cs_base s"
  shows "cs_inv (entered type s)" "grows s (entered type s)" "tl (cs_compilers (entered type s)) = cs_compilers s"
    "cs_parser (entered type s) = cs_parser s" "cp_type (hd (cs_compilers (entered type s))) = type"
proof -
  let ?f = "\<lparr>vf_arity = 0, vf_chunk = chunk_init, vf_name = None\<rparr>"
  obtain vm r where new: "new_vmobject (cs_vm s) (OBJECT_FUNCTION ?f) = (vm, r)" by force
  note h = new_vmobject_heap [OF new]
  have e: "entered type s = s\<lparr>cs_vm := vm, cs_compilers := \<lparr>cp_function = r, cp_type = type,
       cp_locals = [\<lparr>lc_name = no_token, lc_depth = 0\<rparr>], cp_scopeDepth = 0\<rparr> # cs_compilers s\<rparr>"
    by (simp add: entered_def vmfunction_new_def new)
  have heap: "heap_inv vm" by (rule new_other_inv [OF _ new]) (use assms in \<open>auto simp: cs_base_def\<close>)
  have is_fun: "is_fun (vm_heap vm) q \<longleftrightarrow> is_fun (vm_heap (cs_vm s)) q \<or> q = r" for q
    by (auto simp: h is_fun_def nth_append less_Suc_eq)
  have fun_of: "fun_of (vm_heap vm) q = (if q = r then ?f else fun_of (vm_heap (cs_vm s)) q)"
    if "is_fun (vm_heap vm) q" for q
    using that by (auto simp: h fun_of_def as_function_def object_at_def nth_append is_fun_def less_Suc_eq)
  have old: "q \<noteq> r" if "is_fun (vm_heap (cs_vm s)) q" for q using that by (simp add: h is_fun_def)
  show "cs_inv (entered type s)" "grows s (entered type s)" "tl (cs_compilers (entered type s)) = cs_compilers s"
    "cs_parser (entered type s) = cs_parser s" "cp_type (hd (cs_compilers (entered type s))) = type"
    using assms heap old
    by (auto simp: e cs_inv_base cs_base_def grows_def begun_def heap_le_def is_fun fun_of h(5-7) chunks_ok_def
        locals_ok_def BYTE_COUNT_def)
qed

lemma compiler_init_script: "compiler_init TYPE_SCRIPT s = Inr (entered TYPE_SCRIPT s)"
  by (simp add: compiler_init_def entered_def Let_def split: prod.split)

lemma compiler_init_function:
  assumes "ready s"
  shows "ok (\<lambda>s'. ready s' \<and> grows s s' \<and> tl (cs_compilers s') = cs_compilers s) (compiler_init TYPE_FUNCTION s)"
proof -
  let ?s1 = "entered TYPE_FUNCTION s"
  have base: "cs_base s" using assms by (simp add: ready_def cs_inv_base)
  note e = entered_ok [OF base, of TYPE_FUNCTION]
  have r1: "ready ?s1" using assms e(1,2) by (auto simp: ready_def grows_def)
  obtain vm r where new: "vmfunction_new (cs_vm s) = (vm, r)" by force
  have ent: "cs_vm ?s1 = vm" by (simp add: entered_def new)
  have name: "ok (\<lambda>s'. ready s' \<and> grows s s' \<and> tl (cs_compilers s') = cs_compilers s)
      (bind_result (vmstring_copy vm x (length x)) (\<lambda>(vm2, n). bind_result (current_function (?s1\<lparr>cs_vm := vm2\<rparr>))
        (\<lambda>f. put_function (f\<lparr>vf_name := Some n\<rparr>) (?s1\<lparr>cs_vm := vm2\<rparr>))))" for x
  proof (rule ok_bind [OF vmstring_copy_rel [OF e(1), of x, unfolded ent]])
    fix p :: "VM \<times> nat"
    assume "case p of (vm, r) \<Rightarrow> expr_rel ?s1 (?s1\<lparr>cs_vm := vm\<rparr>)"
    then obtain vm2 n where p: "p = (vm2, n)" and rel: "expr_rel ?s1 (?s1\<lparr>cs_vm := vm2\<rparr>)" by auto
    let ?s2 = "?s1\<lparr>cs_vm := vm2\<rparr>"
    have inv2: "cs_inv ?s2" using rel by (simp add: expr_rel_def)
    let ?f = "(fun_of (vm_heap vm2) (cur ?s2))\<lparr>vf_name := Some n\<rparr>"
    have "expr_rel ?s2 (with_fun ?f ?s2)"
      by (rule with_fun_rel [OF inv2]) (use cur_chunk_inv [OF inv2] in simp_all)
    then have "expr_rel ?s1 (with_fun ?f ?s2)" by (rule expr_rel_trans [OF rel])
    then have "ready (with_fun ?f ?s2)" "grows s (with_fun ?f ?s2)" "tl (cs_compilers (with_fun ?f ?s2)) = cs_compilers s"
      using rel_ready(1) [OF _ r1] grows_trans [OF e(2)] e(3) by (auto simp: expr_rel_def)
    then show "ok (\<lambda>s'. ready s' \<and> grows s s' \<and> tl (cs_compilers s') = cs_compilers s)
        (case p of (vm2, n) \<Rightarrow> bind_result (current_function (?s1\<lparr>cs_vm := vm2\<rparr>))
          (\<lambda>f. put_function (f\<lparr>vf_name := Some n\<rparr>) (?s1\<lparr>cs_vm := vm2\<rparr>)))"
      using p inv2 by (simp add: current_function_Inr put_function_Inr)
  qed
  have prev: "previous_token (s\<lparr>cs_vm := vm\<rparr>) = previous_token s" by (simp add: previous_token_def token_at_def split: option.split)
  have same: "s\<lparr>cs_vm := vm2, cs_compilers := \<lparr>cp_function = r, cp_type = TYPE_FUNCTION,
      cp_locals = [\<lparr>lc_name = no_token, lc_depth = 0\<rparr>], cp_scopeDepth = 0\<rparr> # cs_compilers s\<rparr> = ?s1\<lparr>cs_vm := vm2\<rparr>" for vm2
    by (simp add: entered_def new)
  show ?thesis
    unfolding compiler_init_def new Let_def prod.case
    using token_rels(2) [OF assms] name
    by (cases "previous_token s") (auto simp: prev token_ok_def same split: option.split)
qed

text \<open>A state inside the function that was entered from \<open>s\<close>.\<close>

definition inside :: "CS \<Rightarrow> CS \<Rightarrow> bool" where
  "inside s s' \<longleftrightarrow> ready s' \<and> grows s s' \<and> tl (cs_compilers s') = cs_compilers s"

lemma inside_rel: "inside s s1 \<Longrightarrow> stmt_rel d s1 s2 \<Longrightarrow> inside s s2"
  using rel_ready(2) [of d s1 s2] by (auto simp: inside_def stmt_rel_def shape_def Let_def intro: grows_trans)

lemma inside_bind:
  assumes "inside s s1" "ok (stmt_rel d s1) r" "\<And>s2. inside s s2 \<Longrightarrow> ok Q (f s2)"
  shows "ok Q (bind_result r f)"
  by (rule ok_bind [OF assms(2)]) (use assms(1,3) inside_rel in blast)

lemma inside_ready: "inside s s1 \<Longrightarrow> ready s1"
  by (simp add: inside_def)

lemma scope_begin_rel: "ready s \<Longrightarrow> ok (stmt_rel 1 s) (scope_begin s)"
  by (rule scope_begin_ok [of s]) (auto simp: ready_def)

lemma compiler_end_inside:
  assumes "inside s s1" "cs_inv s"
  shows "okp s (compiler_end s1)"
  unfolding compiler_end_def
proof (rule ok_bind [OF emit_return_rel [OF inside_ready [OF assms(1)]]])
  fix s2 assume s2: "expr_rel s1 s2"
  then have "inside s s2" by (rule inside_rel [OF assms(1) expr_stmt_rel])
  then have "expr_rel s (s2\<lparr>cs_compilers := tl (cs_compilers s2)\<rparr>)"
    using assms(2)
    by (auto simp: inside_def expr_rel_def cs_inv_def ready_def grows_def begun_def heap_le_def)
  moreover have "current_compiler s2 = Inr (hd (cs_compilers s2))"
    using s2 by (simp add: expr_rel_def current_compiler_Inr)
  ultimately show "okp s (bind_result (current_compiler s2) (\<lambda>c. Inr (cp_function c, s2\<lparr>cs_compilers := tl (cs_compilers s2)\<rparr>)))"
    by simp
qed

lemma parameters_loop_rel: "ready s \<Longrightarrow> ok (stmt_rel 0 s) (parameters_loop fuel s)"
proof (induction fuel arbitrary: s)
  case (Suc fuel)
  have arity: "ok (stmt_rel 0 s2) (put_function ((fun_of (vm_heap (cs_vm s2)) (cur s2))\<lparr>vf_arity := n\<rparr>) s2)"
    if "ready s2" for s2 n
  proof -
    have inv: "cs_inv s2" using that by (simp add: ready_def)
    have "expr_rel s2 (with_fun ((fun_of (vm_heap (cs_vm s2)) (cur s2))\<lparr>vf_arity := n\<rparr>) s2)"
      by (rule with_fun_rel [OF inv]) (use cur_chunk_inv [OF inv] in auto)
    then show ?thesis by (simp add: put_function_Inr inv expr_stmt_rel)
  qed
  have count: "ok (stmt_rel 0 s2) (bind_result (current_function s2) (\<lambda>f.
     bind_result (put_function (f\<lparr>vf_arity := vf_arity f + 1\<rparr>) s2) (\<lambda>s3.
     bind_result (if vf_arity f + 1 > 8 then error_prev ''Cannot have more than 8 parameters.'' s3 else Inr s3) (\<lambda>s4.
     bind_result (match TOKEN_COMMA s4) (\<lambda>(again, s5). if again then parameters_loop fuel s5 else Inr s5)))))"
    if r2: "ready s2" for s2
  proof -
    have f: "current_function s2 = Inr (fun_of (vm_heap (cs_vm s2)) (cur s2))"
      using r2 by (simp add: ready_def current_function_Inr)
    show ?thesis
      unfolding f bind_result_Inr
      by (rule stmt_bind [OF r2 arity [OF r2]])
        (auto simp: ready_def stmt_rel_refl intro!: stmt_bind stmt_bind_pair stmt_match Suc.IH error_prev_rel [THEN stmt_mono])
  qed
  show ?case
    unfolding parameters_loop.simps
    by (rule variable_parse_bind [OF Suc.prems], simp only: prod.case, rule stmt_bind, assumption,
        rule variable_define_rel, assumption, assumption, rule count, assumption)
qed simp

context stmt_compiler
begin

lemma function_statement_rel:
  assumes "ready s"
  shows "ok (expr_rel s) (function_statement fuel dc TYPE_FUNCTION s)"
proof -
  have inv: "cs_inv s" using assms by (simp add: ready_def)
  have params: "ok (stmt_rel 0 s1) (if b then parameters_loop fuel s1 else Inr s1)" if "ready s1" for b s1
    using that parameters_loop_rel refl_rel by simp
  have init: "ok (inside s) (compiler_init TYPE_FUNCTION s)"
    by (rule ok_mono [OF compiler_init_function [OF assms]]) (simp add: inside_def)
  have finish: "ok (expr_rel s) (bind_result (compiler_end s1) (\<lambda>(function, s8).
      bind_result (make_constant (object_val function) s8) (\<lambda>(k, s9). emit_bytes (op_byte OP_CONSTANT) k s9)))"
    if "inside s s1" for s1
    by (rule expr_bind_pair [OF assms compiler_end_inside [OF that inv]])
      (auto intro!: expr_bind_pair make_constant_rel emit_bytes_rel)
  show ?thesis
    unfolding function_statement_def
    by (rule ok_bind [OF init], rule inside_bind [OF _ scope_begin_rel], assumption, erule inside_ready,
        rule inside_bind [OF _ srels(4)], assumption, erule inside_ready, rule check_bind, erule inside_ready,
        rule inside_bind [OF _ params], assumption, erule inside_ready,
        rule inside_bind [OF _ srels(4)], assumption, erule inside_ready,
        rule inside_bind [OF _ srels(4)], assumption, erule inside_ready,
        rule inside_bind [OF _ block_statement_rel], assumption, erule inside_ready, erule finish)
qed

lemma func_declaration_rel:
  assumes "ready s"
  shows "ok (stmt_rel 0 s) (func_declaration fuel dc s)"
  unfolding func_declaration_def
proof (rule variable_parse_bind [OF assms], simp only: prod.case)
  fix k s1 assume s1: "ready s1" "named s1"
  show "ok (stmt_rel 0 s1) (bind_result (variable_initialize s1) (\<lambda>s2.
      bind_result (function_statement fuel dc TYPE_FUNCTION s2) (variable_define k)))"
  proof (rule ok_bind [OF variable_initialize_rel [OF s1]])
    fix s2 assume s2: "stmt_rel 0 s1 s2 \<and> named s2"
    then have r2: "ready s2" using rel_ready(2) s1(1) by blast
    have "ok (stmt_rel 0 s2) (bind_result (function_statement fuel dc TYPE_FUNCTION s2) (variable_define k))"
      by (rule named_bind [OF r2 _ function_statement_rel [OF r2]]) (use s2 variable_define_rel in auto)
    then show "ok (stmt_rel 0 s1) (bind_result (function_statement fuel dc TYPE_FUNCTION s2) (variable_define k))"
      by (rule ok_mono) (use s2 stmt_rel_trans [of 0 s1 s2 0] in simp)
  qed
qed

end

section \<open>Declarations and the whole program\<close>

lemma sync_loop_rel: "ready s \<Longrightarrow> ok (expr_rel s) (sync_loop fuel currentType prevType s)"
proof (induction fuel arbitrary: s)
  case (Suc fuel)
  have adv: "ok (expr_rel s) (advance s)"
    by (rule ok_mono [OF advance_ok]) (use Suc.prems in \<open>auto simp: ready_def\<close>)
  show ?case
    using Suc.prems by (auto simp: expr_rel_refl intro!: expr_bind adv Suc.IH)
qed simp

lemma synchronize_rel:
  assumes "ready s"
  shows "ok (expr_rel s) (synchronize fuel s)"
proof -
  let ?s = "s\<lparr>cs_parser := (cs_parser s)\<lparr>ps_panicMode := False\<rparr>\<rparr>"
  have 1: "expr_rel s ?s"
    using assms by (auto simp: ready_def expr_rel_def cs_inv_def parser_ok_def grows_def begun_def)
  have "ok (expr_rel s) (sync_loop fuel a b ?s)" for a b
    by (rule ok_mono [OF sync_loop_rel [OF rel_ready(1) [OF 1 assms]]]) (rule expr_rel_trans [OF 1])
  then show ?thesis
    unfolding synchronize_def by (auto intro!: ok_bind [OF token_rels(1) [OF assms]] ok_bind [OF token_rels(2) [OF assms]])
qed

lemma ready_begun: "ready s \<Longrightarrow> ok (stmt_rel 0 s) r \<Longrightarrow> ok (\<lambda>s'. stmt_rel 0 s s' \<and> begun s') r"
  by (erule ok_mono) (use rel_ready(2) in \<open>auto simp: ready_def\<close>)

lemma when_match_ok:
  assumes "cs_inv s" "\<And>s1. ready s1 \<Longrightarrow> ok (stmt_rel 0 s1) (yes s1)" "ok (\<lambda>s'. stmt_rel 0 s s' \<and> begun s') (no s)"
  shows "ok (\<lambda>s'. stmt_rel 0 s s' \<and> begun s') (when_match type yes no s)"
  unfolding when_match_def
proof (rule ok_bind [OF match_ok [OF assms(1)]])
  fix x assume x: "case x of (b, s') \<Rightarrow> expr_rel s s' \<and> (b \<longrightarrow> begun s') \<and> (\<not> b \<longrightarrow> s' = s)"
  obtain b s1 where b: "x = (b, s1)" by force
  show "ok (\<lambda>s'. stmt_rel 0 s s' \<and> begun s') (case x of (b, s1) \<Rightarrow> if b then yes s1 else no s1)"
  proof (cases b)
    case True
    with x b have s1: "expr_rel s s1" "ready s1" by (auto simp: ready_def expr_rel_def)
    have "ok (\<lambda>s'. stmt_rel 0 s1 s' \<and> begun s') (yes s1)" by (rule ready_begun [OF s1(2) assms(2) [OF s1(2)]])
    then have "ok (\<lambda>s'. stmt_rel 0 s s' \<and> begun s') (yes s1)"
      by (rule ok_mono) (use stmt_rel_trans [OF expr_stmt_rel [OF s1(1)], where d' = 0] in auto)
    with b True show ?thesis by simp
  qed (use x b assms(3) in auto)
qed

context stmt_compiler
begin

lemma statement_body_ok:
  assumes "cs_inv s"
  shows "ok (\<lambda>s'. stmt_rel 0 s s' \<and> begun s') (statement_body fuel pp st dc s)"
proof -
  have "ok (\<lambda>s'. stmt_rel 0 s s' \<and> begun s') (expression_statement pp s)"
    unfolding expression_statement_def expression_def
  proof (rule ok_bind [OF pp_ok [OF assms]])
    fix s1 assume s1: "expr_rel s s1 \<and> begun s1"
    then have r: "ready s1" by (auto simp: ready_def expr_rel_def)
    have "ok (stmt_rel 0 s1) (bind_result (emit_byte (op_byte OP_POP) s1) (consume TOKEN_SEMICOLON ''Expect ';' after expression.''))"
      using r by (auto intro!: stmt_bind srels)
    from ready_begun [OF r this]
    show "ok (\<lambda>s'. stmt_rel 0 s s' \<and> begun s')
        (bind_result (emit_byte (op_byte OP_POP) s1) (consume TOKEN_SEMICOLON ''Expect ';' after expression.''))"
      by (rule ok_mono) (use s1 stmt_rel_trans [OF expr_stmt_rel, of s s1 0] in auto)
  qed
  then show ?thesis
    unfolding statement_body_def
    by (intro when_match_ok assms print_rel for_rel if_rel while_rel block_scope_rel return_rel)
qed

lemma declaration_body_ok:
  assumes "cs_inv s" "ok (\<lambda>s'. stmt_rel 0 s s' \<and> begun s') (st0 s)"
  shows "ok (\<lambda>s'. stmt_rel 0 s s' \<and> begun s') (declaration_body fuel pp st0 dc s)"
  unfolding declaration_body_def
proof (rule ok_bind)
  show "ok (\<lambda>s'. stmt_rel 0 s s' \<and> begun s')
      (when_match TOKEN_VAR (var_declaration pp) (when_match TOKEN_FUN (func_declaration fuel dc) st0) s)"
    by (intro when_match_ok assms var_declaration_rel func_declaration_rel)
  fix s1 assume s1: "stmt_rel 0 s s1 \<and> begun s1"
  then have r: "ready s1" by (auto simp: ready_def stmt_rel_def)
  have "ok (\<lambda>s'. stmt_rel 0 s s' \<and> begun s') (synchronize fuel s1)"
    by (rule ok_mono [OF ready_begun [OF r stmt_mono [OF synchronize_rel [OF r]]]])
      (use s1 stmt_rel_trans [of 0 s s1 0] in auto)
  with s1 show "ok (\<lambda>s'. stmt_rel 0 s s' \<and> begun s') (if ps_panicMode (cs_parser s1) then synchronize fuel s1 else Inr s1)"
    by simp
qed

end

lemma statement_compiler: "stmt_compiler (prec_parse fuel) (statement fuel) (lox_declaration fuel)"
proof (induction fuel)
  case 0
  show ?case by unfold_locales simp_all
next
  case (Suc fuel)
  have st: "ok (\<lambda>s'. stmt_rel 0 s s' \<and> begun s') (statement (Suc fuel) s)" if "cs_inv s" for s
    using stmt_compiler.statement_body_ok [OF Suc that] by simp
  have "ok (\<lambda>s'. stmt_rel 0 s s' \<and> begun s') (lox_declaration (Suc fuel) s)" if "cs_inv s" for s
    using stmt_compiler.declaration_body_ok [OF Suc that] stmt_compiler.st_ok [OF Suc that] by simp
  with st show ?case by unfold_locales
qed

interpretation stmts: stmt_compiler "prec_parse fuel" "statement fuel" "lox_declaration fuel" for fuel
  by (rule statement_compiler)

lemma compile_loop_ok: "cs_inv s \<Longrightarrow> ok (\<lambda>s'. stmt_rel 0 s s' \<and> begun s') (compile_loop fuel s)"
proof (induction fuel arbitrary: s)
  case (Suc fuel)
  show ?case
    unfolding compile_loop.simps
  proof (rule ok_bind [OF match_ok [OF Suc.prems]])
    fix x assume x: "case x of (b, s') \<Rightarrow> expr_rel s s' \<and> (b \<longrightarrow> begun s') \<and> (\<not> b \<longrightarrow> s' = s)"
    have "ok (\<lambda>s'. stmt_rel 0 s s' \<and> begun s') (bind_result (lox_declaration fuel s) (compile_loop fuel))"
    proof (rule ok_bind [OF stmts.dc_ok [OF Suc.prems]])
      fix s1 assume s1: "stmt_rel 0 s s1 \<and> begun s1"
      have "ok (\<lambda>s'. stmt_rel 0 s1 s' \<and> begun s') (compile_loop fuel s1)"
        by (rule Suc.IH) (use s1 in \<open>simp add: stmt_rel_def\<close>)
      then show "ok (\<lambda>s'. stmt_rel 0 s s' \<and> begun s') (compile_loop fuel s1)"
        by (rule ok_mono) (use s1 stmt_rel_trans [of 0 s s1 0] in auto)
    qed
    with x show "ok (\<lambda>s'. stmt_rel 0 s s' \<and> begun s')
        (case x of (eof, s1) \<Rightarrow> if eof then Inr s1 else bind_result (lox_declaration fuel s1) (compile_loop fuel))"
      by (auto simp: expr_stmt_rel split: prod.split)
  qed
qed simp

section \<open>Whole programs\<close>

text \<open>Every token the scanner makes has a text, and a string token its literal.\<close>

definition scan_ok :: "scan \<Rightarrow> bool" where
  "scan_ok sc \<longleftrightarrow> (case sc_token sc of None \<Rightarrow> True | Some t \<Rightarrow> token_ok t)"

lemma token_ok_simps [simp]:
  "token_ok (token_simple type line col lexm) \<longleftrightarrow> type \<noteq> TOKEN_STRING"
  "token_ok (token type (Some lit) line col (Some lexm))"
  "scan_ok (scanned None i line)" "scan_ok (scanned (Some t) i line) = token_ok t"
  by (simp_all add: token_ok_def token_def token_simple_def scan_ok_def)

lemma scan_token_ok: "scan_ok (scan_token v code i line)"
proof -
  have single: "single_type c \<noteq> Some TOKEN_STRING" for c
    by (simp add: single_type_def)
  have keyw: "keyword_type w \<noteq> Some TOKEN_STRING" for w
    by (simp add: keyword_type_def)
  have op: "scan_ok (scan_operator code i line a b l)"
    if "a \<noteq> TOKEN_STRING" "b \<noteq> TOKEN_STRING" for a b l
    using that by (simp add: scan_operator_def match_next_def)
  have slash: "scan_ok (scan_slash code i line)"
    by (simp add: scan_slash_def match_next_def)
  have str: "scan_ok (scan_string v code i line)"
    by (simp add: scan_string_def Let_def split: prod.split) (simp add: scan_ok_def)
  have def: "scan_ok (scan_default v code i line)"
    using keyw by (auto simp: scan_default_def Let_def split: prod.split option.split)
      (auto simp: scan_ok_def)
  show ?thesis
    by (simp only: scan_token_def Let_def slash str def op token_ok_simps TokenType.distinct
        not_False_eq_True simp_thms split: option.split if_split)
      (use single in auto)
qed

lemma toknzr_tokens_ok: "list_all token_ok (tkz_values (toknzr code v))"
proof -
  let ?s = "\<lparr>tz_current = 0, tz_line = 1, tz_tokens = [], tz_reports = []\<rparr>"
  have "list_all token_ok (tz_tokens (toknzr_loop v code ?s))"
  proof (rule toknzr_loop_invariant)
    fix s :: toknzr_state
    assume "list_all token_ok (tz_tokens s)"
    then show "list_all token_ok (tz_tokens (toknzr_step v code s))"
      using scan_token_ok [of v code "tz_current s" "tz_line s"]
      by (auto simp: toknzr_step_def Let_def option_list_def scan_ok_def split: option.splits)
  qed simp
  then show ?thesis by (simp add: toknzr_def Let_def)
qed

lemma parser_start_ok: "parser_ok (parser_start code)"
  using toknzr_tokens_ok [of code False] by (simp add: parser_ok_def parser_start_def toknzr_def Let_def)

text \<open>The byte that is emitted is the last one of the current function.\<close>

abbreviation cur_code :: "CS \<Rightarrow> byte list" where
  "cur_code s \<equiv> code_of (vf_chunk (fun_of (vm_heap (cs_vm s)) (cur s)))"

lemma emit_byte_code:
  assumes "ready s"
  shows "ok (\<lambda>s'. expr_rel s s' \<and> cur s' = cur s \<and> cur_code s' = cur_code s @ [b]) (emit_byte b s)"
proof -
  have inv: "cs_inv s" using assms by (simp add: ready_def)
  let ?f = "fun_of (vm_heap (cs_vm s)) (cur s)"
  have "expr_rel s (with_fun (?f\<lparr>vf_chunk := chunk_write (vf_chunk ?f) b l\<rparr>) s)" for l
    by (rule with_fun_rel) (use inv cur_chunk_inv [OF inv] in \<open>simp_all add: chunk_write_count\<close>)
  moreover have "cur (with_fun f s) = cur s" for f by (simp add: with_fun_def cur_def)
  ultimately show ?thesis
    unfolding emit_byte_def
    by (intro ok_bind [OF token_rels(2) [OF assms]])
      (simp add: current_chunk_Inr inv put_chunk_def current_function_Inr put_function_Inr,
       simp add: with_fun_def set_fun_simps [OF cur_is_fun [OF inv]] cur_chunk_inv [OF inv])
qed

lemma emit_return_code:
  assumes "ready s"
  shows "ok (\<lambda>s'. expr_rel s s' \<and> cur_code s' = cur_code s @ [op_byte OP_NIL, op_byte OP_RETURN]) (emit_return s)"
  unfolding emit_return_def
proof (rule ok_bind [OF emit_byte_code [OF assms]])
  fix s1 assume s1: "expr_rel s s1 \<and> cur s1 = cur s \<and> cur_code s1 = cur_code s @ [op_byte OP_NIL]"
  then have "ready s1" using assms by (auto simp: ready_def expr_rel_def grows_def)
  then show "ok (\<lambda>s'. expr_rel s s' \<and> cur_code s' = cur_code s @ [op_byte OP_NIL, op_byte OP_RETURN])
      (emit_byte (op_byte OP_RETURN) s1)"
    by (rule ok_mono [OF emit_byte_code]) (use s1 expr_rel_trans in auto)
qed

text \<open>What \<^verbatim>\<open>compile\<close> leaves of the machine, and the script it returns.\<close>

definition compiled_ok :: "VM \<Rightarrow> nat option \<times> VM \<Rightarrow> bool" where
  "compiled_ok vm p = (case p of (function, vm') \<Rightarrow>
     heap_inv vm' \<and> chunks_ok (vm_heap vm') \<and> heap_le (vm_heap vm) (vm_heap vm')
     \<and> vm_stack vm' = vm_stack vm \<and> vm_frames vm' = vm_frames vm \<and> vm_globals vm' = vm_globals vm
     \<and> (case function of None \<Rightarrow> True | Some r \<Rightarrow> is_fun (vm_heap vm') r
          \<and> (\<exists>code. code_of (vf_chunk (fun_of (vm_heap vm') r)) = code @ [op_byte OP_NIL, op_byte OP_RETURN])))"

lemma compile_ok:
  assumes "heap_inv vm" "chunks_ok (vm_heap vm)"
  shows "ok (compiled_ok vm) (compile fuel code vm)"
proof -
  let ?s = "\<lparr>cs_parser = parser_start code, cs_compilers = [], cs_vm = vm\<rparr>"
  let ?s1 = "entered TYPE_SCRIPT ?s"
  have base: "cs_base ?s" using assms parser_start_ok [of code] by (simp add: cs_base_def)
  note e = entered_ok [OF base, of TYPE_SCRIPT]
  show ?thesis
    unfolding compile_def compiler_init_script bind_result_Inr
  proof (rule ok_bind [OF compile_loop_ok [OF e(1)]])
    fix s2 assume s2: "stmt_rel 0 ?s1 s2 \<and> begun s2"
    then have ready: "ready s2" and g: "grows ?s s2"
      using e(2) grows_trans by (auto simp: ready_def stmt_rel_def)
    show "ok (compiled_ok vm) (bind_result (compiler_end s2) (\<lambda>(function, s3).
        Inr (if ps_hadError (cs_parser s3) then None else Some function, cs_vm s3)))"
      unfolding compiler_end_def bind_result_assoc
    proof (rule ok_bind [OF emit_return_code [OF ready]])
      fix s3 assume "expr_rel s2 s3 \<and> cur_code s3 = cur_code s2 @ [op_byte OP_NIL, op_byte OP_RETURN]"
      then have s3: "cs_inv s3" "grows ?s s3" "cur_code s3 = cur_code s2 @ [op_byte OP_NIL, op_byte OP_RETURN]"
        using g grows_trans by (auto simp: expr_rel_def)
      then show "ok (compiled_ok vm) (bind_result (current_compiler s3) (\<lambda>c. bind_result
          (Inr (cp_function c, s3\<lparr>cs_compilers := tl (cs_compilers s3)\<rparr>)) (\<lambda>(function, s3).
          Inr (if ps_hadError (cs_parser s3) then None else Some function, cs_vm s3))))"
        using cur_is_fun [OF s3(1)]
        by (simp add: current_compiler_Inr compiled_ok_def grows_def cs_inv_def flip: cur_def)
    qed
  qed
qed

end
