(* ===== verification/Clox_Compile_Props.thy ===== *)
theory Clox_Compile_Props
  imports Clox_Compile_Safety
begin

text \<open>
  Properties of \<^verbatim>\<open>vm/compiler.c\<close> that rest on the safety of its operations: \<^verbatim>\<open>compile\<close> as a whole,
  the distances of jumps and loops against the way the machine reads them, and the two ways in
  which the compiler does not come back.
\<close>

section \<open>Whole programs\<close>

text \<open>
  C4. \<^verbatim>\<open>compile\<close> is safe on every source text: started on a machine whose heap is well formed it
  can only fail by calling the missing infix function of a token, or run on for ever. When it
  returns, the heap and every chunk are well formed, no function has lost code, the value stack,
  the frames and the globals are as before, and a script that is returned is a function object
  whose code ends in the instructions for returning nil.
\<close>

theorem compile_safe:
  assumes "heap_inv vm" "chunks_ok (vm_heap vm)"
  shows "case compile fuel code vm of
      Inl e \<Rightarrow> e = Out_Of_Fuel \<or> e = Crash Null_Call
    | Inr (function, vm') \<Rightarrow>
        heap_inv vm' \<and> chunks_ok (vm_heap vm') \<and> heap_le (vm_heap vm) (vm_heap vm')
        \<and> vm_stack vm' = vm_stack vm \<and> vm_frames vm' = vm_frames vm \<and> vm_globals vm' = vm_globals vm
        \<and> (case function of None \<Rightarrow> True | Some r \<Rightarrow> is_fun (vm_heap vm') r
             \<and> (\<exists>c. code_of (vf_chunk (fun_of (vm_heap vm') r)) = c @ [op_byte OP_NIL, op_byte OP_RETURN]))"
  using compile_ok [OF assms, of fuel code]
  by (auto simp: ok_def fails_ok_def compiled_ok_def split: sum.splits)

theorem compile_safe_witness:
  "case compile 20 ''{ var a; print !a; }'' empty_vm of
      Inr (Some r, vm') \<Rightarrow>
        heap_inv vm' \<and> chunks_ok (vm_heap vm') \<and> heap_le (vm_heap empty_vm) (vm_heap vm')
        \<and> vm_stack vm' = vm_stack empty_vm \<and> vm_frames vm' = vm_frames empty_vm \<and> vm_globals vm' = vm_globals empty_vm
        \<and> is_fun (vm_heap vm') r \<and> (\<exists>c. code_of (vf_chunk (fun_of (vm_heap vm') r)) = c @ [op_byte OP_NIL, op_byte OP_RETURN])
    | _ \<Rightarrow> False"
proof -
  have "chunks_ok (vm_heap empty_vm)" by (simp add: chunks_ok_def is_fun_def empty_vm_def)
  moreover have "case compile 20 ''{ var a; print !a; }'' empty_vm of Inr (Some r, vm') \<Rightarrow> True | _ \<Rightarrow> False" by code_simp
  ultimately show ?thesis
    using compile_safe [OF empty_vm_inv, of 20 "''{ var a; print !a; }''"] by (auto split: sum.splits option.splits prod.splits)
qed

section \<open>Jumps\<close>

lemma short_of_jump:
  assumes "0 \<le> d" "d \<le> SHORT_MAX"
  shows "unat (or (push_bit 8 (ucast (jump_hi d) :: short)) (ucast (jump_lo d))) = nat d"
proof -
  have "or (push_bit 8 (ucast (jump_hi d) :: short)) (ucast (jump_lo d)) = word_of_int d"
    using assms
    by (intro bit_word_eqI)
      (auto simp: jump_hi_def jump_lo_def bit_simps not_less)
  with assms show ?thesis by (simp add: unat_eq_nat_uint uint_word_of_int SHORT_MAX_def take_bit_int_eq_self)
qed


lemma code_of_patch:
  assumes "chunk_inv ck" "offset + 2 \<le> ck_count ck"
  shows "code_of (ck\<lparr>ck_code := (ck_code ck)[offset := Some a, Suc offset := Some b]\<rparr>)
    = (code_of ck)[offset := a, Suc offset := b]"
  using assms by (simp add: chunk_inv_def code_of_def filled_def contents_def take_update_swap map_update)

lemma patch_jump_code:
  assumes "ready s" "jump_ok s offset" "d = int (length (cur_code s)) - int offset - 2" "d \<le> BYTE_MAX"
  obtains s' where "patch_jump offset s = Inr s'" "expr_rel s s'" "cur s' = cur s"
    "cur_code s' = (cur_code s)[offset := jump_hi d, Suc offset := jump_lo d]"
proof -
  let ?f = "fun_of (vm_heap (cs_vm s)) (cur s)"
  have inv: "cs_inv s" using assms(1) by (simp add: ready_def)
  note ck = cur_chunk_inv [OF inv]
  have count: "length (cur_code s) = ck_count (vf_chunk ?f)"
    using ck by (simp add: chunk_inv_def code_of_def filled_def)
  let ?ck = "(vf_chunk ?f)\<lparr>ck_code := (ck_code (vf_chunk ?f))[offset := Some (jump_hi d), Suc offset := Some (jump_lo d)]\<rparr>"
  have "Suc offset < length (ck_code (vf_chunk ?f))"
    using ck assms(2) by (auto simp: chunk_inv_def jump_ok_def filled_def)
  then have *: "patch_jump offset s = Inr (with_fun (?f\<lparr>vf_chunk := ?ck\<rparr>) s)"
    using assms(3,4) inv count
    by (simp add: patch_jump_def current_chunk_Inr put_chunk_def current_function_Inr put_function_Inr Let_def)
  then have "expr_rel s (with_fun (?f\<lparr>vf_chunk := ?ck\<rparr>) s)"
    using patch_jump_rel [OF assms(1,2)] by simp
  moreover have "cur (with_fun g s) = cur s" for g by (simp add: with_fun_def cur_def)
  moreover have "cur_code (with_fun (?f\<lparr>vf_chunk := ?ck\<rparr>) s) = (cur_code s)[offset := jump_hi d, Suc offset := jump_lo d]"
    using code_of_patch [OF ck, of offset] assms(2)
    by (simp add: jump_ok_def with_fun_def cur_def set_fun_simps [OF cur_is_fun [OF inv], unfolded cur_def])
  ultimately show thesis using that * by blast
qed

text \<open>
  C31. A forward jump lands where it was patched: patching the operand of a jump over at most 255
  bytes succeeds, changes only the two operand bytes, and the machine, which reads them as a
  16-bit number after the operand, continues at the end of the code written so far.
\<close>

theorem patched_jump_lands:
  assumes "ready s" "jump_ok s offset" "int (length (cur_code s)) - int offset - 2 \<le> BYTE_MAX"
  shows "\<exists>s'. patch_jump offset s = Inr s' \<and> cs_inv s'
    \<and> offset + 2 + short_at (cur_code s') offset = length (cur_code s')
    \<and> length (cur_code s') = length (cur_code s)
    \<and> (\<forall>i<length (cur_code s). i \<noteq> offset \<longrightarrow> i \<noteq> Suc offset \<longrightarrow> cur_code s' ! i = cur_code s ! i)"
proof -
  let ?d = "int (length (cur_code s)) - int offset - 2"
  obtain s' where s': "patch_jump offset s = Inr s'" "expr_rel s s'"
    "cur_code s' = (cur_code s)[offset := jump_hi ?d, Suc offset := jump_lo ?d]"
    by (rule patch_jump_code [OF assms(1,2) refl assms(3)])
  have inv: "cs_inv s" using assms(1) by (simp add: ready_def)
  have in_code: "offset + 2 \<le> length (cur_code s)"
    using cur_chunk_inv [OF inv] assms(2) by (simp add: chunk_inv_def code_of_def filled_def jump_ok_def)
  moreover have "short_at (cur_code s') offset = nat ?d"
    using in_code assms(3) unfolding short_at_def s'(3)
    by (simp add: short_of_jump SHORT_MAX_def BYTE_MAX_def)
  ultimately show ?thesis using s' by (auto simp: expr_rel_def)
qed


definition sample_cs :: CS where
  "sample_cs = \<lparr>cs_parser = (parser_start [])\<lparr>ps_previous := Some 0\<rparr>, cs_compilers = [\<lparr>cp_function = 0,
     cp_type = TYPE_SCRIPT, cp_locals = [\<lparr>lc_name = no_token, lc_depth = 0\<rparr>], cp_scopeDepth = 0\<rparr>], cs_vm = sample_vm\<rparr>"

lemma sample_cs_heap: "vm_heap (cs_vm sample_cs) = [\<lparr>ob_next = None, ob_body = OBJECT_FUNCTION sample_fun\<rparr>]"
  by (simp add: sample_cs_def sample_vm_def new_vmobject_def empty_vm_def Let_def)

lemma sample_cs_fun: "cur sample_cs = 0" "is_fun (vm_heap (cs_vm sample_cs)) r \<longleftrightarrow> r = 0"
  "fun_of (vm_heap (cs_vm sample_cs)) 0 = sample_fun"
  by (simp_all only: sample_cs_heap)
    (auto simp: sample_cs_def cur_def is_fun_def fun_of_def as_function_def object_at_def)

lemma sample_cs_code: "cur_code sample_cs = sample_code"
  by (simp add: sample_cs_fun sample_fun_def sample_code_def)

lemma sample_cs_ready: "ready sample_cs"
proof -
  have "chunk_inv (vf_chunk sample_fun)" by (simp add: sample_fun_def sample_code_def)
  then have "chunks_ok (vm_heap (cs_vm sample_cs))" by (simp add: chunks_ok_def sample_cs_fun)
  moreover have "heap_inv (cs_vm sample_cs)" using sample_world by (simp add: world_ok_def sample_cs_def)
  moreover have "is_fun (vm_heap (cs_vm sample_cs)) 0" by (simp add: sample_cs_fun)
  ultimately show ?thesis
    using parser_start_ok [of "[]"]
    by (auto simp: ready_def cs_inv_def begun_def sample_cs_def locals_ok_def BYTE_COUNT_def parser_ok_def)
qed

theorem patched_jump_lands_witness:
  "ready sample_cs \<and> jump_ok sample_cs 2 \<and> int (length (cur_code sample_cs)) - int 2 - 2 \<le> BYTE_MAX
   \<and> (\<exists>s'. patch_jump 2 sample_cs = Inr s' \<and> cs_inv s'
    \<and> 2 + 2 + short_at (cur_code s') 2 = length (cur_code s')
    \<and> length (cur_code s') = length (cur_code sample_cs)
    \<and> (\<forall>i<length (cur_code sample_cs). i \<noteq> 2 \<longrightarrow> i \<noteq> Suc 2 \<longrightarrow> cur_code s' ! i = cur_code sample_cs ! i))"
proof (intro conjI sample_cs_ready)
  show j: "jump_ok sample_cs 2"
    by (simp add: jump_ok_def sample_cs_fun sample_fun_def sample_code_def chunk_write_count)
  show b: "int (length (cur_code sample_cs)) - int 2 - 2 \<le> BYTE_MAX"
    by (simp add: sample_cs_code sample_code_def BYTE_MAX_def)
  show "\<exists>s'. patch_jump 2 sample_cs = Inr s' \<and> cs_inv s'
    \<and> 2 + 2 + short_at (cur_code s') 2 = length (cur_code s')
    \<and> length (cur_code s') = length (cur_code sample_cs)
    \<and> (\<forall>i<length (cur_code sample_cs). i \<noteq> 2 \<longrightarrow> i \<noteq> Suc 2 \<longrightarrow> cur_code s' ! i = cur_code sample_cs ! i)"
    by (rule patched_jump_lands [OF sample_cs_ready j b])
qed

section \<open>Not coming back\<close>

lemma advance_loop_Inr: "advance_loop n s \<noteq> Inl Out_Of_Fuel \<and> advance_loop n s \<noteq> Inl (Crash Null_Call)"
proof (induction n arbitrary: s)
  case (Suc n)
  then show ?case by (simp add: Let_def current_token_def token_at_def)
qed simp

lemma advance_Inr: "cs_inv s \<Longrightarrow> \<exists>s'. advance s = Inr s' \<and> cs_inv s'"
  using advance_ok [of s] advance_loop_Inr
  by (fastforce simp: ok_def advance_def fails_ok_def expr_rel_def split: sum.splits)

lemma sync_loop_stuck:
  assumes "cs_inv s" "c \<noteq> TOKEN_ENDOFFILE" "p \<noteq> TOKEN_SEMICOLON" "\<not> sync_point c"
  shows "sync_loop fuel c p s = Inl Out_Of_Fuel"
  using assms(1)
proof (induction fuel arbitrary: s)
  case (Suc fuel)
  obtain s' where "advance s = Inr s'" "cs_inv s'" using advance_Inr [OF Suc.prems] by blast
  with Suc.IH assms(2-4) show ?case by simp
qed simp

text \<open>
  C32. Error recovery does not end: \<^verbatim>\<open>synchronize\<close> looks at the types of the current and of the
  previous token only once. Unless the current token is one it stops at, or the previous one is a
  semicolon, its loop goes on for ever, whatever tokens follow.
\<close>

theorem synchronize_diverges:
  assumes "cs_inv s" "current_token s = Inr c" "previous_token s = Inr p"
    "tk_type c \<noteq> TOKEN_ENDOFFILE" "tk_type p \<noteq> TOKEN_SEMICOLON" "\<not> sync_point (tk_type c)"
  shows "synchronize fuel s = Inl Out_Of_Fuel"
proof -
  have "cs_inv (s\<lparr>cs_parser := (cs_parser s)\<lparr>ps_panicMode := False\<rparr>\<rparr>)"
    using assms(1) by (simp add: cs_inv_def parser_ok_def)
  then show ?thesis using assms by (simp add: synchronize_def sync_loop_stuck)
qed

text \<open>After an error inside \<^verbatim>\<open>1 1;\<close>, at the second number.\<close>

definition panic_cs :: CS where
  "panic_cs = sample_cs\<lparr>cs_parser := \<lparr>ps_tokens = tkz_values (toknzr ''1 1;'' False), ps_current = 1,
     ps_previous = Some 0, ps_panicMode = True, ps_hadError = True\<rparr>\<rparr>"

theorem synchronize_diverges_witness:
  "synchronize 100 panic_cs = Inl Out_Of_Fuel"
proof -
  have toks: "map tk_type (tkz_values (toknzr ''1 1;'' False)) = [TOKEN_NUMBER, TOKEN_NUMBER, TOKEN_SEMICOLON, TOKEN_ENDOFFILE]"
    by code_simp
  obtain a b c d where t: "tkz_values (toknzr ''1 1;'' False) = [a, b, c, d]" "tk_type a = TOKEN_NUMBER" "tk_type b = TOKEN_NUMBER"
    using toks by (auto simp: map_eq_Cons_conv)
  have "cs_inv panic_cs"
    using sample_cs_ready toknzr_tokens_ok [of "''1 1;''" False]
    by (auto simp: panic_cs_def ready_def cs_inv_def parser_ok_def t)
  then show ?thesis
    by (rule synchronize_diverges [of panic_cs b a])
      (simp_all add: t panic_cs_def current_token_def previous_token_def token_at_def sync_point_def)
qed

text \<open>
  A dot crashes the compiler: its rule has the precedence of a call and no infix function, so
  the loop of \<^verbatim>\<open>prec_parse\<close> calls through a null pointer as soon as an operand is followed by a dot.
\<close>

theorem dot_calls_null:
  assumes "cs_inv s" "current_token s = Inr t" "tk_type t = TOKEN_DOT" "prec_rank prec \<le> prec_rank PREC_CALL"
  shows "infix_loop (Suc fuel) pp prec canAssign s = Inl (Crash Null_Call)"
proof -
  obtain s' where s': "advance s = Inr s'" using advance_Inr [OF assms(1)] by blast
  have "ps_previous (cs_parser (error_at t m s)) = ps_previous (cs_parser s)"
    "ps_tokens (cs_parser (error_at t m s)) = ps_tokens (cs_parser s)" for t m s by (simp_all add: error_at_def Let_def)
  then have keep: "advance_loop n s = Inr s' \<Longrightarrow> ps_previous (cs_parser s') = ps_previous (cs_parser s)
      \<and> ps_tokens (cs_parser s') = ps_tokens (cs_parser s)" for n s
    by (induction n arbitrary: s) (auto simp: Let_def elim!: bind_result_InrE split: if_splits)
  have "previous_token s' = Inr t"
    using keep [OF s' [unfolded advance_def]] assms(2)
    by (simp add: previous_token_def current_token_def token_at_def split: if_splits)
  with s' assms show ?thesis by (simp add: rule_def)
qed


text \<open>Inside \<^verbatim>\<open>a.b;\<close>, after the first name.\<close>

definition dot_cs :: CS where
  "dot_cs = sample_cs\<lparr>cs_parser := \<lparr>ps_tokens = tkz_values (toknzr ''a.b;'' False), ps_current = 1,
     ps_previous = Some 0, ps_panicMode = False, ps_hadError = False\<rparr>\<rparr>"

theorem dot_calls_null_witness:
  "infix_loop (Suc 10) (prec_parse 10) PREC_ASSIGNMENT True dot_cs = Inl (Crash Null_Call)"
proof -
  have "map tk_type (tkz_values (toknzr ''a.b;'' False))
      = [TOKEN_IDENTIFIER, TOKEN_DOT, TOKEN_IDENTIFIER, TOKEN_SEMICOLON, TOKEN_ENDOFFILE]"
    by code_simp
  then obtain a b c d e where t: "tkz_values (toknzr ''a.b;'' False) = [a, b, c, d, e]" "tk_type b = TOKEN_DOT"
    by (auto simp: map_eq_Cons_conv)
  have "cs_inv dot_cs"
    using sample_cs_ready toknzr_tokens_ok [of "''a.b;''" False]
    by (auto simp: dot_cs_def ready_def cs_inv_def parser_ok_def t)
  then show ?thesis
    by (rule dot_calls_null [of dot_cs b])
      (simp_all add: t dot_cs_def current_token_def token_at_def)
qed

end
