(* ===== verification/Clox_Codegen.thy ===== *)
theory Clox_Codegen
  imports Clox_Compile_Props
begin

text \<open>
  What the Pratt parser of \<^verbatim>\<open>vm/compiler.c\<close> emits for expressions over numbers, \<^verbatim>\<open>true\<close>, \<^verbatim>\<open>false\<close>,
  \<^verbatim>\<open>nil\<close> and variables. Expressions are trees; \<open>sketch\<close> gives the tokens of a tree, \<open>fits\<close> the trees
  that need no further parentheses at a level of precedence, \<open>ecode\<close> and \<open>econsts\<close> the bytes and the
  constants they must compile to. The parser is shown to emit exactly these. The names of the
  locals in scope, newest first, decide the stack slot of a variable; any other variable is
  global, and its name becomes a constant.
\<close>

section \<open>Expressions and their code\<close>

datatype cexp =
    Num string
  | Lit TokenType
  | Unary TokenType cexp
  | Binary TokenType cexp cexp
  | AndExp cexp cexp
  | OrExp cexp cexp
  | Group cexp
  | Var string
  | Assign string cexp

text \<open>What the compiler reads of a token: its type and, of a number or a name, its text.\<close>

definition tok_sketch :: "Token \<Rightarrow> TokenType \<times> string option" where
  "tok_sketch t = (tk_type t, if tk_type t \<in> {TOKEN_NUMBER, TOKEN_IDENTIFIER} then tk_lexeme t else None)"

fun sketch :: "cexp \<Rightarrow> (TokenType \<times> string option) list" where
  "sketch (Num x) = [(TOKEN_NUMBER, Some x)]"
| "sketch (Lit ty) = [(ty, None)]"
| "sketch (Unary ty a) = (ty, None) # sketch a"
| "sketch (Binary ty a b) = sketch a @ (ty, None) # sketch b"
| "sketch (AndExp a b) = sketch a @ (TOKEN_AND, None) # sketch b"
| "sketch (OrExp a b) = sketch a @ (TOKEN_OR, None) # sketch b"
| "sketch (Group a) = (TOKEN_LEFT_PAREN, None) # sketch a @ [(TOKEN_RIGHT_PAREN, None)]"
| "sketch (Var x) = [(TOKEN_IDENTIFIER, Some x)]"
| "sketch (Assign x a) = (TOKEN_IDENTIFIER, Some x) # (TOKEN_EQUAL, None) # sketch a"

abbreviation level :: "TokenType \<Rightarrow> nat" where
  "level ty \<equiv> prec_rank (pr_precedence (parse_rule ty))"

text \<open>The trees that can stand at precedence \<open>q\<close>: binary operators associate to the left, \<^verbatim>\<open>and\<close>, \<^verbatim>\<open>or\<close> and \<^verbatim>\<open>=\<close> to the right.\<close>

fun fits :: "nat \<Rightarrow> cexp \<Rightarrow> bool" where
  "fits q (Num x) = True"
| "fits q (Lit ty) = (ty \<in> {TOKEN_TRUE, TOKEN_FALSE, TOKEN_NIL})"
| "fits q (Unary ty a) = (ty \<in> {TOKEN_MINUS, TOKEN_BANG} \<and> q \<le> 8 \<and> fits 8 a)"
| "fits q (Binary ty a b) = (binary_ops ty \<noteq> [] \<and> q \<le> level ty \<and> fits (level ty) a \<and> fits (Suc (level ty)) b)"
| "fits q (AndExp a b) = (q \<le> 3 \<and> fits 4 a \<and> fits 3 b)"
| "fits q (OrExp a b) = (q \<le> 2 \<and> fits 3 a \<and> fits 2 b)"
| "fits q (Group a) = fits 1 a"
| "fits q (Var x) = True"
| "fits q (Assign x a) = (q \<le> 1 \<and> fits 1 a)"

text \<open>A constant is a number or the name of a global variable, and what stands for it in the chunk.\<close>

datatype const_lit = Number_Lit Value | Name_Lit string

definition denotes :: "objects \<Rightarrow> const_lit \<Rightarrow> Value \<Rightarrow> bool" where
  "denotes H c v \<longleftrightarrow> (case c of Number_Lit w \<Rightarrow> v = w
     | Name_Lit x \<Rightarrow> (\<exists>q. v = object_val q \<and> is_str H q \<and> vs_chars (str_of H q) = x))"

text \<open>The constants of an expression under the locals \<open>L\<close>.\<close>

definition name_lits :: "string list \<Rightarrow> string \<Rightarrow> const_lit list" where
  "name_lits L x = (if x \<in> set L then [] else [Name_Lit x])"

fun econsts :: "string list \<Rightarrow> cexp \<Rightarrow> const_lit list" where
  "econsts L (Num x) = [Number_Lit (number_val (strtod x))]"
| "econsts L (Lit ty) = []"
| "econsts L (Unary ty a) = econsts L a"
| "econsts L (Binary ty a b) = econsts L a @ econsts L b"
| "econsts L (AndExp a b) = econsts L a @ econsts L b"
| "econsts L (OrExp a b) = econsts L a @ econsts L b"
| "econsts L (Group a) = econsts L a"
| "econsts L (Var x) = name_lits L x"
| "econsts L (Assign x a) = name_lits L x @ econsts L a"

fun evars :: "cexp \<Rightarrow> string list" where
  "evars (Num x) = []"
| "evars (Lit ty) = []"
| "evars (Unary ty a) = evars a"
| "evars (Binary ty a b) = evars a @ evars b"
| "evars (AndExp a b) = evars a @ evars b"
| "evars (OrExp a b) = evars a @ evars b"
| "evars (Group a) = evars a"
| "evars (Var x) = [x]"
| "evars (Assign x a) = x # evars a"

text \<open>The stack slot of a local; slot 0 holds the function itself.\<close>

fun local_slot :: "string list \<Rightarrow> string \<Rightarrow> nat" where
  "local_slot [] x = 0"
| "local_slot (y # L) x = (if x = y then Suc (length L) else local_slot L x)"

text \<open>The instructions that read and write a variable, and their operand.\<close>

definition get_op :: "string list \<Rightarrow> string \<Rightarrow> OpCode" where
  "get_op L x = (if x \<in> set L then OP_GET_LOCAL else OP_GET_GLOBAL)"

definition set_op :: "string list \<Rightarrow> string \<Rightarrow> OpCode" where
  "set_op L x = (if x \<in> set L then OP_SET_LOCAL else OP_SET_GLOBAL)"

definition var_arg :: "string list \<Rightarrow> nat \<Rightarrow> string \<Rightarrow> byte" where
  "var_arg L k x = (if x \<in> set L then of_nat (local_slot L x) else of_nat k)"

definition literal_op :: "TokenType \<Rightarrow> OpCode" where
  "literal_op ty = (if ty = TOKEN_FALSE then OP_FALSE else if ty = TOKEN_TRUE then OP_TRUE else OP_NIL)"

definition unary_op :: "TokenType \<Rightarrow> OpCode" where
  "unary_op ty = (if ty = TOKEN_MINUS then OP_NEGATE else OP_NOT)"

definition jump_code :: "OpCode \<Rightarrow> nat \<Rightarrow> byte list" where
  "jump_code instr d = [op_byte instr, jump_hi (int d), jump_lo (int d)]"

text \<open>The code of an expression under the locals \<open>L\<close> whose first constant gets the index \<open>k\<close>.\<close>

fun ecode :: "string list \<Rightarrow> nat \<Rightarrow> cexp \<Rightarrow> byte list" where
  "ecode L k (Num x) = [op_byte OP_CONSTANT, of_nat k]"
| "ecode L k (Lit ty) = [op_byte (literal_op ty)]"
| "ecode L k (Unary ty a) = ecode L k a @ [op_byte (unary_op ty)]"
| "ecode L k (Binary ty a b) = ecode L k a @ ecode L (k + length (econsts L a)) b @ map op_byte (binary_ops ty)"
| "ecode L k (AndExp a b) =
     (let cb = ecode L (k + length (econsts L a)) b
      in ecode L k a @ jump_code OP_JUMP_IF_FALSE (Suc (length cb)) @ op_byte OP_POP # cb)"
| "ecode L k (OrExp a b) =
     (let cb = ecode L (k + length (econsts L a)) b
      in ecode L k a @ jump_code OP_JUMP_IF_FALSE 3 @ jump_code OP_JUMP (Suc (length cb)) @ op_byte OP_POP # cb)"
| "ecode L k (Group a) = ecode L k a"
| "ecode L k (Var x) = [op_byte (get_op L x), var_arg L k x]"
| "ecode L k (Assign x a) = ecode L (k + length (name_lits L x)) a @ [op_byte (set_op L x), var_arg L k x]"

text \<open>The operands of \<^verbatim>\<open>and\<close> and \<^verbatim>\<open>or\<close> are short enough to be jumped over.\<close>

fun short_jumps :: "cexp \<Rightarrow> bool" where
  "short_jumps (Unary ty a) = short_jumps a"
| "short_jumps (Binary ty a b) = (short_jumps a \<and> short_jumps b)"
| "short_jumps (AndExp a b) = (short_jumps a \<and> short_jumps b \<and> length (ecode [] 0 b) < 255)"
| "short_jumps (OrExp a b) = (short_jumps a \<and> short_jumps b \<and> length (ecode [] 0 b) < 255)"
| "short_jumps (Group a) = short_jumps a"
| "short_jumps (Assign x a) = short_jumps a"
| "short_jumps _ = True"

lemma length_ecode: "length (ecode L k e) = length (ecode [] 0 e)"
proof -
  have "length (ecode L k e) = length (ecode M j e)" for L k M j
    by (induction e arbitrary: k j) (auto simp: Let_def jump_code_def; metis)+
  then show ?thesis .
qed

lemma econsts_fresh: "x \<notin> set (evars e) \<Longrightarrow> econsts (x # L) e = econsts L e"
  by (induction e) (auto simp: name_lits_def)

lemma ecode_fresh: "x \<notin> set (evars e) \<Longrightarrow> ecode (x # L) k e = ecode L k e"
  by (induction e arbitrary: k) (auto simp: Let_def econsts_fresh name_lits_def get_op_def set_op_def var_arg_def)

section \<open>The state after emitting code\<close>

text \<open>Two machines that differ in the heap only.\<close>

definition same_state :: "VM \<Rightarrow> VM \<Rightarrow> bool" where
  "same_state vm vm' \<longleftrightarrow> vm_stack vm' = vm_stack vm \<and> vm_frames vm' = vm_frames vm \<and> vm_globals vm' = vm_globals vm
     \<and> vm_out vm' = vm_out vm \<and> vm_err vm' = vm_err vm \<and> vm_clock vm' = vm_clock vm"

text \<open>
  The machine while the function \<open>r\<close> is compiled: the heap stays valid, functions and strings stay
  where they are, and of \<open>r\<close> only the chunk changes.
\<close>

definition strings_kept :: "VM \<Rightarrow> VM \<Rightarrow> bool" where
  "strings_kept vm vm' \<longleftrightarrow> (\<forall>q. is_str (vm_heap vm) q \<longrightarrow> is_str (vm_heap vm') q \<and> str_of (vm_heap vm') q = str_of (vm_heap vm) q)"

definition vm_grown :: "nat \<Rightarrow> VM \<Rightarrow> VM \<Rightarrow> bool" where
  "vm_grown r vm vm' \<longleftrightarrow> heap_inv vm' \<and> chunks_ok (vm_heap vm') \<and> same_state vm vm'
     \<and> (\<forall>q. is_fun (vm_heap vm) q \<longrightarrow> is_fun (vm_heap vm') q)
     \<and> strings_kept vm vm' \<and> vf_name (fun_of (vm_heap vm') r) = vf_name (fun_of (vm_heap vm) r)
     \<and> vf_arity (fun_of (vm_heap vm') r) = vf_arity (fun_of (vm_heap vm) r)"

lemma vm_grown_refl: "heap_inv vm \<Longrightarrow> chunks_ok (vm_heap vm) \<Longrightarrow> vm_grown r vm vm"
  by (simp add: vm_grown_def same_state_def strings_kept_def)

lemma vm_grown_trans: "vm_grown r a b \<Longrightarrow> vm_grown r b c \<Longrightarrow> vm_grown r a c"
  by (simp add: vm_grown_def same_state_def strings_kept_def)

lemma vm_grown_denotes: "vm_grown r vm vm' \<Longrightarrow> denotes (vm_heap vm) c v \<Longrightarrow> denotes (vm_heap vm') c v"
  by (cases c) (auto simp: vm_grown_def denotes_def strings_kept_def)

text \<open>\<open>s'\<close> is \<open>s\<close> with code and constants added to the function under construction.\<close>

abbreviation cur_fun :: "CS \<Rightarrow> VmFunction" where
  "cur_fun s \<equiv> fun_of (vm_heap (cs_vm s)) (cur s)"

abbreviation cur_consts :: "CS \<Rightarrow> Value list" where
  "cur_consts s \<equiv> consts_of (vf_chunk (cur_fun s))"

definition emits :: "CS \<Rightarrow> CS \<Rightarrow> byte list \<Rightarrow> const_lit list \<Rightarrow> bool" where
  "emits s s' code lits \<longleftrightarrow> cs_parser s' = cs_parser s \<and> cs_compilers s' = cs_compilers s
     \<and> vm_grown (cur s) (cs_vm s) (cs_vm s') \<and> cur_code s' = cur_code s @ code
     \<and> (\<exists>vals. cur_consts s' = cur_consts s @ vals \<and> list_all2 (denotes (vm_heap (cs_vm s'))) lits vals)"

text \<open>The parser \<open>n\<close> tokens further.\<close>

definition moves :: "nat \<Rightarrow> CS \<Rightarrow> CS" where
  "moves n s = (if n = 0 then s else s\<lparr>cs_parser := (cs_parser s)\<lparr>ps_current := ps_current (cs_parser s) + n,
     ps_previous := Some (ps_current (cs_parser s) + n - 1)\<rparr>\<rparr>)"

definition cur_locals :: "CS \<Rightarrow> Local list" where
  "cur_locals s = cp_locals (hd (cs_compilers s))"

lemma cur_with_fun [simp]: "cur (with_fun f s) = cur s"
  by (simp add: with_fun_def cur_def)

lemma cur_moves [simp]: "cur (moves n s) = cur s" "cs_vm (moves n s) = cs_vm s" "cs_compilers (moves n s) = cs_compilers s"
  "ps_tokens (cs_parser (moves n s)) = ps_tokens (cs_parser s)"
  "ps_current (cs_parser (moves n s)) = ps_current (cs_parser s) + n"
  by (simp_all add: moves_def cur_def)

lemma moves_moves [simp]: "moves m (moves n s) = moves (n + m) s"
  by (simp add: moves_def)

lemma moves_0 [simp]: "moves 0 s = s"
  by (simp add: moves_def)

lemma cur_fun_with [simp]:
  assumes "cs_inv s"
  shows "fun_of (vm_heap (cs_vm (with_fun f s))) (cur s) = f"
  using set_fun_simps(2) [OF cur_is_fun [OF assms], of f "cur s"] by (simp add: with_fun_def)

lemma emits_inv_base:
  assumes "emits s s' code lits" "cs_inv s"
  shows "cs_inv s'" "cur s' = cur s" "cur_code s' = cur_code s @ code" "length (cur_consts s') = length (cur_consts s) + length lits"
    "cs_parser s' = cs_parser s" "cs_compilers s' = cs_compilers s"
  using assms by (auto simp: emits_def cs_inv_def vm_grown_def cur_def dest!: list_all2_lengthD)

lemma emits_inv:
  assumes "emits s s' code lits" "ready s"
  shows "ready s'" "cur s' = cur s" "cur_code s' = cur_code s @ code" "length (cur_consts s') = length (cur_consts s) + length lits"
    "cs_parser s' = cs_parser s" "cs_compilers s' = cs_compilers s"
  using emits_inv_base [OF assms(1)] assms(2) by (simp_all add: ready_def begun_def)

lemma emits_trans:
  assumes "emits s s1 c1 v1" "emits s1 s2 c2 v2"
  shows "emits s s2 (c1 @ c2) (v1 @ v2)"
proof -
  have c: "cur s1 = cur s" using assms(1) by (simp add: emits_def cur_def)
  obtain w1 w2 where w: "cur_consts s1 = cur_consts s @ w1" "list_all2 (denotes (vm_heap (cs_vm s1))) v1 w1"
      "cur_consts s2 = cur_consts s1 @ w2" "list_all2 (denotes (vm_heap (cs_vm s2))) v2 w2"
    using assms by (auto simp: emits_def)
  have g: "vm_grown (cur s) (cs_vm s1) (cs_vm s2)" using assms(2) c by (simp add: emits_def)
  have "list_all2 (denotes (vm_heap (cs_vm s2))) (v1 @ v2) (w1 @ w2)"
    using list_all2_mono [OF w(2) vm_grown_denotes [OF g]] w(4) by (rule list_all2_appendI)
  moreover have "cur_consts s2 = cur_consts s @ w1 @ w2" using w(1,3) by simp
  moreover have "vm_grown (cur s) (cs_vm s) (cs_vm s2)" using vm_grown_trans [OF _ g] assms(1) by (simp add: emits_def)
  ultimately show ?thesis using assms c by (auto simp: emits_def)
qed

lemma emits_here: "cs_inv s \<Longrightarrow> emits s s [] []"
  by (simp add: emits_def cs_inv_def vm_grown_refl)

lemma vm_grown_with_fun:
  assumes "cs_inv s" "chunk_inv ck"
  shows "vm_grown (cur s) (cs_vm s) (cs_vm (with_fun ((cur_fun s)\<lparr>vf_chunk := ck\<rparr>) s))"
proof -
  let ?f = "(cur_fun s)\<lparr>vf_chunk := ck\<rparr>"
  note s = set_fun_simps [OF cur_is_fun [OF assms(1)], where f = ?f]
  have "heap_inv (cs_vm (with_fun ?f s))"
    using set_fun_heap_inv [OF _ cur_is_fun [OF assms(1)], of ?f] assms(1) by (simp add: with_fun_def cs_inv_def)
  then show ?thesis
    using assms s by (simp add: vm_grown_def with_fun_def chunks_ok_def same_state_def cs_inv_def strings_kept_def)
qed

lemma emits_with_fun:
  assumes "cs_inv s" "chunk_inv ck" "code_of ck = cur_code s @ code" "consts_of ck = cur_consts s @ vals"
    "list_all2 (denotes (vm_heap (cs_vm s))) lits vals"
  shows "emits s (with_fun ((cur_fun s)\<lparr>vf_chunk := ck\<rparr>) s) code lits"
proof -
  let ?s = "with_fun ((cur_fun s)\<lparr>vf_chunk := ck\<rparr>) s"
  note g = vm_grown_with_fun [OF assms(1,2)]
  have "list_all2 (denotes (vm_heap (cs_vm ?s))) lits vals" using list_all2_mono [OF assms(5) vm_grown_denotes [OF g]] .
  then show ?thesis
    using g assms by (simp add: emits_def) (simp add: with_fun_def)
qed


lemma emits_refl: "ready s \<Longrightarrow> emits s s [] []"
  by (simp add: ready_def emits_here)

lemma emits_moves: "emits s s' code vals \<Longrightarrow> emits (moves n s) (moves n s') code vals"
  by (auto simp: emits_def moves_def cur_def)

definition evolves :: "CS \<Rightarrow> CS \<Rightarrow> nat \<Rightarrow> byte list \<Rightarrow> const_lit list \<Rightarrow> bool" where
  "evolves s s' n code vals \<longleftrightarrow> emits (moves n s) s' code vals"

text \<open>The tokens ahead: none of them is an error token, which \<^verbatim>\<open>advance\<close> would skip.\<close>

definition ahead :: "CS \<Rightarrow> Token list \<Rightarrow> bool" where
  "ahead s ts \<longleftrightarrow> drop (ps_current (cs_parser s)) (ps_tokens (cs_parser s)) = ts \<and> (\<forall>t\<in>set ts. tk_type t \<noteq> TOKEN_ERROR)"

lemma ready_moves:
  assumes "cs_inv s" "ahead s ts" "0 < n" "n < length ts"
  shows "ready (moves n s)"
proof -
  have "length ts = length (ps_tokens (cs_parser s)) - ps_current (cs_parser s)" using assms(2) by (auto simp: ahead_def)
  then show ?thesis
    using assms by (auto simp: ready_def cs_inv_def parser_ok_def begun_def moves_def)
qed

lemma ready_past:
  assumes "ready s" "ahead s (ts @ t # rest)"
  shows "ready (moves (length ts) s)"
proof (cases "ts = []")
  case False
  then show ?thesis using assms by (intro ready_moves [of s "ts @ t # rest"]) (auto simp: ready_def)
qed (use assms in simp)

lemma ahead_moves: "ahead s (ts @ us) \<Longrightarrow> ahead (moves (length ts) s) us"
  by (auto simp: ahead_def add.commute drop_drop [symmetric])

lemma ahead_current: "ahead s (t # ts) \<Longrightarrow> current_token s = Inr t"
  using nth_via_drop [of "ps_current (cs_parser s)" "ps_tokens (cs_parser s)" t ts]
  by (auto simp: ahead_def current_token_def token_at_def dest: sym [of _ "_ # _"])
    (metis drop_all list.distinct(1) not_less)

lemma advance_ahead:
  assumes "ahead s (t # u # ts)"
  shows "advance s = Inr (moves 1 s)" "previous_token (moves 1 s) = Inr t"
proof -
  let ?p = "cs_parser s"
  have d: "drop (ps_current ?p) (ps_tokens ?p) = t # u # ts" "tk_type u \<noteq> TOKEN_ERROR" using assms by (auto simp: ahead_def)
  have "ahead (moves 1 s) (u # ts)" using ahead_moves [of s "[t]" "u # ts"] assms by simp
  then have u: "current_token (moves 1 s) = Inr u" by (rule ahead_current)
  have "length (ps_tokens ?p) - 1 - ps_current ?p = Suc (length ts)" using arg_cong [OF d(1), of length] by simp
  moreover have "s\<lparr>cs_parser := ?p\<lparr>ps_previous := Some (ps_current ?p), ps_current := Suc (ps_current ?p)\<rparr>\<rparr> = moves 1 s"
    by (simp add: moves_def)
  ultimately show "advance s = Inr (moves 1 s)"
    using u d(2) by (simp add: advance_def Let_def)
  show "previous_token (moves 1 s) = Inr t"
    using ahead_current [OF assms] by (simp add: previous_token_def moves_def current_token_def token_at_def split: if_splits)
qed


lemma evolves_inv:
  assumes "evolves s s' n code vals" "ready (moves n s)"
  shows "ready s'" "cur s' = cur s" "cur_code s' = cur_code s @ code" "length (cur_consts s') = length (cur_consts s) + length vals"
    "cs_parser s' = cs_parser (moves n s)" "cs_compilers s' = cs_compilers s" "cur_locals s' = cur_locals s"
  using emits_inv [OF assms(1) [unfolded evolves_def] assms(2)] by (simp_all add: cur_locals_def)

lemma ahead_parser: "cs_parser s' = cs_parser s \<Longrightarrow> ahead s' ts = ahead s ts"
  by (simp add: ahead_def)

lemma evolves_ahead: "evolves s s' (length ts) code vals \<Longrightarrow> ready (moves (length ts) s) \<Longrightarrow> ahead s (ts @ us) \<Longrightarrow> ahead s' us"
  using evolves_inv(5) ahead_moves ahead_parser by metis

lemma evolves_trans:
  assumes "evolves s s1 n c1 v1" "evolves s1 s2 m c2 v2"
  shows "evolves s s2 (n + m) (c1 @ c2) (v1 @ v2)"
proof -
  have "emits (moves (n + m) s) (moves m s1) c1 v1"
    using emits_moves [OF assms(1) [unfolded evolves_def], of m] by simp
  from emits_trans [OF this assms(2) [unfolded evolves_def]] show ?thesis by (simp add: evolves_def)
qed

lemma evolves_moves: "ready (moves n s) \<Longrightarrow> evolves s (moves n s) n [] []"
  by (simp add: evolves_def emits_refl)

section \<open>The locals in scope\<close>

abbreviation lex_text :: "Token \<Rightarrow> string" where
  "lex_text t \<equiv> (case tk_lexeme t of None \<Rightarrow> [] | Some x \<Rightarrow> x)"

definition names_of :: "Local list \<Rightarrow> string list" where
  "names_of ls = rev (map (\<lambda>l. lex_text (lc_name l)) (tl ls))"

abbreviation names :: "CS \<Rightarrow> string list" where
  "names s \<equiv> names_of (cur_locals s)"

text \<open>A variable that resolves to an initialised local or to no local, not even the nameless one in slot 0.\<close>

definition usable_in :: "Local list \<Rightarrow> string \<Rightarrow> bool" where
  "usable_in ls x \<longleftrightarrow> ls \<noteq> [] \<and> x \<noteq> lex_text (lc_name (hd ls))
     \<and> map_of (rev (map (\<lambda>l. (lex_text (lc_name l), lc_depth l \<noteq> -1)) (tl ls))) x \<noteq> Some False"

abbreviation usable :: "CS \<Rightarrow> string \<Rightarrow> bool" where
  "usable s \<equiv> usable_in (cur_locals s)"

lemma cur_locals_moves [simp]: "cur_locals (moves n s) = cur_locals s"
  by (simp add: cur_locals_def)

lemma cur_locals_cong: "cs_compilers s' = cs_compilers s \<Longrightarrow> cur_locals s' = cur_locals s"
  by (simp add: cur_locals_def)

lemma identifier_equal_text: "identifier_equal a b \<longleftrightarrow> lex_text a = lex_text b"
  by (auto simp: identifier_equal_def lexeme_length_def split: option.splits)

lemma resolve_loop_prefix: "n \<le> length ls \<Longrightarrow> resolve_loop n (ls @ ms) t = resolve_loop n ls t"
  by (induction n) (auto simp: nth_append)

lemma resolve_usable:
  assumes "usable_in ls x" "tk_lexeme t = Some x"
  shows "if x \<in> set (names_of ls) then resolve_loop (length ls) ls t = Some (local_slot (names_of ls) x) \<and> lc_depth (ls ! local_slot (names_of ls) x) \<noteq> -1
    else resolve_loop (length ls) ls t = None"
proof -
  obtain l0 ms where ls: "ls = l0 # ms" using assms(1) by (cases ls) (auto simp: usable_in_def)
  have "if x \<in> set (names_of (l0 # ms))
    then resolve_loop (length (l0 # ms)) (l0 # ms) t = Some (local_slot (names_of (l0 # ms)) x) \<and> local_slot (names_of (l0 # ms)) x < length (l0 # ms)
      \<and> lc_depth ((l0 # ms) ! local_slot (names_of (l0 # ms)) x) \<noteq> -1
    else resolve_loop (length (l0 # ms)) (l0 # ms) t = None"
    using assms(1) [unfolded ls]
  proof (induction ms rule: rev_induct)
    case (snoc l ms)
    show ?case
    proof (cases "lex_text (lc_name l) = x")
      case True
      then show ?thesis using snoc.prems assms(2) by (auto simp: usable_in_def names_of_def identifier_equal_text nth_append)
    next
      case False
      then have "usable_in (l0 # ms) x" using snoc.prems by (auto simp: usable_in_def)
      note IH = snoc.IH [OF this]
      have names: "local_slot (names_of (l0 # ms @ [l])) x = local_slot (names_of (l0 # ms)) x"
          "x \<in> set (names_of (l0 # ms @ [l])) \<longleftrightarrow> x \<in> set (names_of (l0 # ms))" using False by (auto simp: names_of_def)
      have "resolve_loop (Suc (length (l0 # ms))) ((l0 # ms) @ [l]) t = resolve_loop (length (l0 # ms)) (l0 # ms) t"
        using False assms(2) unfolding resolve_loop.simps(2) by (simp add: identifier_equal_text nth_append resolve_loop_prefix del: append_Cons resolve_loop.simps)
      moreover have "(l0 # ms @ [l]) ! local_slot (names_of (l0 # ms)) x = (l0 # ms) ! local_slot (names_of (l0 # ms)) x"
        if "x \<in> set (names_of (l0 # ms))"
        using IH that nth_append [of "l0 # ms" "[l]" "local_slot (names_of (l0 # ms)) x"] by simp
      ultimately show ?thesis using IH names by (cases "x \<in> set (names_of (l0 # ms))") simp_all
    qed
  qed (use assms(2) in \<open>simp add: usable_in_def names_of_def identifier_equal_text\<close>)
  then show ?thesis by (simp add: ls split: if_splits)
qed

section \<open>Emitting single instructions\<close>

lemma emit_byte_emits:
  assumes "ready s"
  obtains s' where "emit_byte b s = Inr s'" "evolves s s' 0 [b] []"
proof -
  have inv: "cs_inv s" using assms by (simp add: ready_def)
  obtain t where t: "previous_token s = Inr t"
    using assms by (auto simp: ready_def cs_inv_def parser_ok_def begun_def previous_token_def token_at_def)
  let ?ck = "chunk_write (vf_chunk (cur_fun s)) b (int (tk_line t))"
  have "emit_byte b s = Inr (with_fun ((cur_fun s)\<lparr>vf_chunk := ?ck\<rparr>) s)"
    using t inv by (simp add: emit_byte_def current_chunk_Inr put_chunk_def current_function_Inr put_function_Inr)
  moreover have "evolves s (with_fun ((cur_fun s)\<lparr>vf_chunk := ?ck\<rparr>) s) 0 [b] []"
    unfolding evolves_def moves_0 by (rule emits_with_fun [OF inv]) (use cur_chunk_inv [OF inv] in simp_all)
  ultimately show thesis using that by blast
qed

lemma emit_ops_emits:
  assumes "ready s"
  obtains s' where "emit_ops ops s = Inr s'" "evolves s s' 0 (map op_byte ops) []"
proof -
  have "\<exists>s'. emit_ops ops s = Inr s' \<and> evolves s s' 0 (map op_byte ops) []"
    using assms
  proof (induction ops arbitrary: s)
    case (Cons a ops)
    obtain s1 where s1: "emit_byte (op_byte a) s = Inr s1" "evolves s s1 0 [op_byte a] []"
      by (rule emit_byte_emits [OF Cons.prems])
    obtain s2 where "emit_ops ops s1 = Inr s2" "evolves s1 s2 0 (map op_byte ops) []"
      using Cons.IH [OF evolves_inv(1) [OF s1(2)]] Cons.prems by auto
    with s1 Cons.prems show ?case using evolves_trans [of s s1 0 "[op_byte a]" "[]" s2 0] by simp
  qed (simp add: evolves_def emits_refl)
  then show thesis using that by blast
qed

lemma make_constant_emits:
  assumes "ready s" "length (cur_consts s) < 256" "denotes (vm_heap (cs_vm s)) c v"
  obtains s' where "make_constant v s = Inr (of_nat (length (cur_consts s)), s')" "evolves s s' 0 [] [c]"
proof -
  have inv: "cs_inv s" using assms by (simp add: ready_def)
  let ?ck = "vf_chunk (cur_fun s)" and ?n = "length (cur_consts s)"
  obtain ck1 where ck1: "chunk_constants_add ?ck v = (ck1, ?n)" "chunk_inv ck1" "code_of ck1 = cur_code s"
      "consts_of ck1 = cur_consts s @ [v]"
    using chunk_constants_add_abs [OF cur_chunk_inv [OF inv], of v] by (metis prod.collapse)
  let ?s1 = "with_fun ((cur_fun s)\<lparr>vf_chunk := ck1\<rparr>) s"
  have "make_constant v s = Inr (of_nat ?n, ?s1)"
    using inv assms(2)
    by (simp add: make_constant_def current_chunk_Inr ck1 put_chunk_def current_function_Inr put_function_Inr BYTE_MAX_def)
  moreover have "evolves s ?s1 0 [] [c]"
    unfolding evolves_def moves_0 by (rule emits_with_fun [OF inv, where vals = "[v]"]) (use ck1 assms(3) in simp_all)
  ultimately show thesis using that by blast
qed

lemma emit_bytes_emits:
  assumes "ready s"
  obtains s' where "emit_bytes b c s = Inr s'" "evolves s s' 0 [b, c] []"
proof -
  obtain s1 where s1: "emit_byte b s = Inr s1" "evolves s s1 0 [b] []" by (rule emit_byte_emits [OF assms])
  have r1: "ready s1" by (rule evolves_inv(1) [OF s1(2)]) (simp add: assms)
  obtain s2 where s2: "emit_byte c s1 = Inr s2" "evolves s1 s2 0 [c] []" by (rule emit_byte_emits [OF r1])
  with s1 evolves_trans [OF s1(2) s2(2)] assms show thesis by (intro that [of s2]) (simp_all add: emit_bytes_def)
qed

lemma emit_constant_emits:
  assumes "ready s" "length (cur_consts s) < 256" "denotes (vm_heap (cs_vm s)) c v"
  obtains s' where "emit_constant v s = Inr s'"
    "evolves s s' 0 [op_byte OP_CONSTANT, of_nat (length (cur_consts s))] [c]"
proof -
  obtain s1 where s1: "make_constant v s = Inr (of_nat (length (cur_consts s)), s1)" "evolves s s1 0 [] [c]"
    by (rule make_constant_emits [OF assms])
  have r1: "ready s1" by (rule evolves_inv(1) [OF s1(2)]) (simp add: assms(1))
  obtain s2 where s2: "emit_bytes (op_byte OP_CONSTANT) (of_nat (length (cur_consts s))) s1 = Inr s2"
      "evolves s1 s2 0 [op_byte OP_CONSTANT, of_nat (length (cur_consts s))] []"
    by (rule emit_bytes_emits [OF r1])
  have "evolves s s2 0 [op_byte OP_CONSTANT, of_nat (length (cur_consts s))] [c]"
    using evolves_trans [OF s1(2) s2(2)] by simp
  moreover have "emit_constant v s = Inr s2" using s1 s2 by (simp add: emit_constant_def)
  ultimately show thesis using that by blast
qed

lemma vmstring_copy_same: "vmstring_copy vm chars n = Inr (vm', q) \<Longrightarrow> same_state vm vm'"
  by (auto simp: vmstring_copy_def new_vmstring_def new_vmobject_def same_state_def Let_def elim!: bind_result_InrE split: option.splits)

lemma only_allocates_fun: "only_allocates vm vm' \<Longrightarrow> is_fun (vm_heap vm) q \<Longrightarrow> fun_of (vm_heap vm') q = fun_of (vm_heap vm) q"
  using only_allocates_nth [of vm vm' q] only_allocates_length [of vm vm']
  by (auto simp: fun_of_def as_function_def object_at_def is_fun_def)

lemma copied_grown:
  assumes "cs_inv s" "heap_inv vm'" "only_allocates (cs_vm s) vm'" "same_state (cs_vm s) vm'"
  shows "emits s (s\<lparr>cs_vm := vm'\<rparr>) [] []"
proof -
  have c: "cur (s\<lparr>cs_vm := vm'\<rparr>) = cur s" by (simp add: cur_def)
  note f = only_allocates_fun [OF assms(3)] and isf = only_allocates_is_fun [OF assms(3)]
  have "chunks_ok (vm_heap vm')" using assms(1) f isf by (simp add: chunks_ok_def cs_inv_def)
  then show ?thesis
    using assms f isf cur_is_fun [OF assms(1)] only_allocates_str [OF assms(3)] by (simp add: emits_def vm_grown_def strings_kept_def c)
qed

lemma identifier_constant_emits:
  assumes "ready s" "length (cur_consts s) < 256" "tk_lexeme t = Some x"
  obtains s' where "identifier_constant t s = Inr (of_nat (length (cur_consts s)), s')" "evolves s s' 0 [] [Name_Lit x]"
proof -
  have inv: "cs_inv s" "heap_inv (cs_vm s)" using assms(1) by (simp_all add: ready_def cs_inv_def)
  obtain vm' q where c: "vmstring_copy (cs_vm s) x (length x) = Inr (vm', q)" "heap_inv vm'" "only_allocates (cs_vm s) vm'"
    "is_str (vm_heap vm') q" "vs_chars (str_of (vm_heap vm') q) = take (length x) x"
    by (rule vmstring_copy_spec [OF inv(2) order_refl])
  let ?s = "s\<lparr>cs_vm := vm'\<rparr>"
  have e: "evolves s ?s 0 [] []"
    using copied_grown [OF inv(1) c(2,3) vmstring_copy_same [OF c(1)]] by (simp add: evolves_def)
  have i: "ready ?s" "length (cur_consts ?s) = length (cur_consts s)" using evolves_inv [OF e] assms(1) by simp_all
  obtain s' where s': "make_constant (object_val q) ?s = Inr (of_nat (length (cur_consts ?s)), s')" "evolves ?s s' 0 [] [Name_Lit x]"
    by (rule make_constant_emits [OF i(1), of "Name_Lit x" "object_val q"]) (use i(2) c(4,5) assms(2) in \<open>auto simp: denotes_def\<close>)
  have "identifier_constant t s = Inr (of_nat (length (cur_consts s)), s')"
    using c(1) s'(1) i(2) assms(3) by (simp add: identifier_constant_def)
  moreover have "evolves s s' 0 [] [Name_Lit x]" using evolves_trans [OF e s'(2)] by simp
  ultimately show thesis using that by blast
qed

lemma emit_jump_emits:
  assumes "ready s"
  obtains s' where "emit_jump instr s = Inr (Suc (length (cur_code s)), s')"
    "evolves s s' 0 [op_byte instr, 0xff, 0xff] []"
proof -
  obtain s1 where s1: "emit_byte (op_byte instr) s = Inr s1" "evolves s s1 0 [op_byte instr] []"
    by (rule emit_byte_emits [OF assms])
  have r1: "ready s1" by (rule evolves_inv(1) [OF s1(2)]) (simp add: assms)
  obtain s2 where s2: "emit_byte 0xff s1 = Inr s2" "evolves s1 s2 0 [0xff] []" by (rule emit_byte_emits [OF r1])
  have r2: "ready s2" by (rule evolves_inv(1) [OF s2(2)]) (simp add: r1)
  obtain s3 where s3: "emit_byte 0xff s2 = Inr s3" "evolves s2 s3 0 [0xff] []" by (rule emit_byte_emits [OF r2])
  have e: "evolves s s3 0 [op_byte instr, 0xff, 0xff] []"
    using evolves_trans [OF evolves_trans [OF s1(2) s2(2)] s3(2)] assms by simp
  note i = evolves_inv [OF e, simplified, OF assms]
  have inv: "cs_inv s3" using i(1) by (simp add: ready_def)
  have "code_count s3 = Inr (length (cur_code s) + 3)"
    using i(3) length_code_of [OF cur_chunk_inv [OF inv]] by (simp add: code_count_Inr [OF inv])
  then show thesis using that [of s3] e s1 s2 s3 by (simp add: emit_jump_def)
qed

text \<open>Bytes that were emitted are overwritten.\<close>

lemma rechunk_emits:
  assumes "emits s s1 code1 lits" "cs_inv s1" "chunk_inv ck" "code_of ck = cur_code s @ code" "consts_of ck = cur_consts s1"
  shows "emits s (with_fun ((cur_fun s1)\<lparr>vf_chunk := ck\<rparr>) s1) code lits"
proof -
  let ?s = "with_fun ((cur_fun s1)\<lparr>vf_chunk := ck\<rparr>) s1"
  have c: "cur s1 = cur s" using assms(1) by (simp add: emits_def cur_def)
  note g = vm_grown_with_fun [OF assms(2,3), unfolded c]
  obtain vals where v: "cur_consts s1 = cur_consts s @ vals" "list_all2 (denotes (vm_heap (cs_vm s1))) lits vals"
    using assms(1) by (auto simp: emits_def)
  have "fun_of (vm_heap (cs_vm ?s)) (cur s) = (cur_fun s1)\<lparr>vf_chunk := ck\<rparr>" using cur_fun_with [OF assms(2)] c by simp
  moreover have "vm_grown (cur s) (cs_vm s) (cs_vm ?s)" using vm_grown_trans [OF _ g] assms(1) c by (simp add: emits_def)
  moreover have "list_all2 (denotes (vm_heap (cs_vm ?s))) lits vals" using list_all2_mono [OF v(2) vm_grown_denotes [OF g]] c by simp
  moreover have "cs_parser ?s = cs_parser s" "cs_compilers ?s = cs_compilers s" using assms(1) by (simp_all add: emits_def with_fun_def)
  ultimately show ?thesis using assms(4,5) v(1) c by (simp add: emits_def)
qed

lemma patch_jump_emits:
  assumes "evolves s s1 n (c1 @ [a, b] @ c2) vals" "ready (moves n s)" "offset = length (cur_code s) + length c1"
    "length c2 \<le> 255"
  obtains s2 where "patch_jump offset s1 = Inr s2"
    "evolves s s2 n (c1 @ [jump_hi (int (length c2)), jump_lo (int (length c2))] @ c2) vals"
proof -
  note i = evolves_inv [OF assms(1,2)]
  have inv: "cs_inv s1" "cs_inv (moves n s)" using i(1) assms(2) by (simp_all add: ready_def)

  let ?ck = "vf_chunk (cur_fun s1)"
  note ck = cur_chunk_inv [OF inv(1)]
  have count: "ck_count ?ck = offset + 2 + length c2"
    using length_code_of [OF ck] i(3) assms(3) by simp
  let ?h = "jump_hi (int (length c2))" and ?l = "jump_lo (int (length c2))"
  let ?ck2 = "?ck\<lparr>ck_code := (ck_code ?ck)[offset := Some ?h, Suc offset := Some ?l]\<rparr>"
  have bound: "Suc offset < length (ck_code ?ck)"
    using ck count by (auto simp: chunk_inv_def filled_def)
  then have p: "patch_jump offset s1 = Inr (with_fun ((cur_fun s1)\<lparr>vf_chunk := ?ck2\<rparr>) s1)"
    using assms(4) count inv(1)
    by (simp add: patch_jump_def current_chunk_Inr put_chunk_def current_function_Inr put_function_Inr Let_def BYTE_MAX_def)
  have "chunk_inv ?ck2"
    using ck count by (auto simp: chunk_inv_def filled_def take_update_swap in_set_conv_nth nth_list_update)
  moreover have "code_of ?ck2 = cur_code s @ c1 @ [?h, ?l] @ c2"
    using code_of_patch [OF ck, of offset ?h ?l] count i(2,3) assms(3)
    by (simp add: list_update_append)
  moreover have "consts_of ?ck2 = consts_of ?ck" by (simp add: consts_of_def)
  ultimately have "evolves s (with_fun ((cur_fun s1)\<lparr>vf_chunk := ?ck2\<rparr>) s1) n (c1 @ [?h, ?l] @ c2) vals"
    using assms(1) inv(1) rechunk_emits [of "moves n s" s1 _ vals ?ck2] by (simp add: evolves_def)
  with p show thesis using that by blast
qed


section \<open>The Pratt parser\<close>

text \<open>A prefix operand and the infix operators that follow it: \<^verbatim>\<open>prec_parse\<close> up to its loop.\<close>

definition pratt_head :: "nat \<Rightarrow> Precedence \<Rightarrow> bool \<Rightarrow> CS \<Rightarrow> CS result" where
  "pratt_head f p ca s = bind_result (advance s) (\<lambda>s1. bind_result (previous_token s1) (\<lambda>t.
     case pr_prefix (parse_rule (tk_type t)) of None \<Rightarrow> Inl (Crash Null_Call)
     | Some fn \<Rightarrow> bind_result (parse_fn f (prec_parse f) fn ca s1) (infix_loop f (prec_parse f) p ca)))"

text \<open>The token after an operand at level \<open>q\<close> does not belong to the operand.\<close>

definition next_ok :: "nat \<Rightarrow> TokenType \<Rightarrow> bool" where
  "next_ok q ty \<longleftrightarrow> level ty < q \<or> level ty = q \<and> 4 \<le> q"

text \<open>
  The hypotheses under which the tokens of \<open>e\<close> are compiled: they are next and followed by
  another token, the chunk has room for the constants, and the variables are initialised locals.
\<close>

definition source_of :: "cexp \<Rightarrow> CS \<Rightarrow> Token list \<Rightarrow> Token \<Rightarrow> Token list \<Rightarrow> bool" where
  "source_of e s ts t rest \<longleftrightarrow> cs_inv s \<and> ahead s (ts @ t # rest) \<and> map tok_sketch ts = sketch e
     \<and> short_jumps e \<and> length (cur_consts s) + length (econsts (names s) e) \<le> 256 \<and> list_all (usable s) (evars e)"

abbreviation compiles_to :: "cexp \<Rightarrow> CS \<Rightarrow> Token list \<Rightarrow> CS \<Rightarrow> bool" where
  "compiles_to e s ts s' \<equiv> evolves s s' (length ts) (ecode (names s) (length (cur_consts s)) e) (econsts (names s) e)"

definition reaches_loop :: "cexp \<Rightarrow> bool" where
  "reaches_loop e \<longleftrightarrow> (\<forall>q p f ca s ts t rest. source_of e s ts t rest \<longrightarrow> fits q e \<longrightarrow> prec_rank p \<le> q
     \<longrightarrow> next_ok q (tk_type t) \<longrightarrow> length ts \<le> f \<longrightarrow> (prec_rank p \<le> 1 \<longrightarrow> ca) \<longrightarrow> (ca \<longrightarrow> tk_type t \<noteq> TOKEN_EQUAL)
     \<longrightarrow> (\<exists>s' k. k < length ts \<and> pratt_head f p ca s = infix_loop (f - k) (prec_parse f) p ca s' \<and> compiles_to e s ts s'))"

definition compiled :: "cexp \<Rightarrow> bool" where
  "compiled e \<longleftrightarrow> (\<forall>p f s ts t rest. source_of e s ts t rest \<longrightarrow> fits (prec_rank p) e
     \<longrightarrow> level (tk_type t) < prec_rank p \<longrightarrow> (prec_rank p \<le> 1 \<longrightarrow> tk_type t \<noteq> TOKEN_EQUAL) \<longrightarrow> length ts < f
     \<longrightarrow> (\<exists>s'. prec_parse f p s = Inr s' \<and> compiles_to e s ts s'))"

lemma sketch_Cons: "fits q e \<Longrightarrow> \<exists>ty x us. sketch e = (ty, x) # us \<and> pr_prefix (parse_rule ty) \<noteq> None"
  by (induction e arbitrary: q) (auto simp: rule_def; fastforce)+

lemma source_ready:
  assumes "source_of e s ts t rest"
  shows "ts \<noteq> [] \<Longrightarrow> ready (moves (length ts) s)"
  using assms by (intro ready_moves [of s "ts @ t # rest"]) (auto simp: source_of_def)

lemma source_next:
  assumes "source_of e s ts t rest" "evolves s s' (length ts) code vals" "ts \<noteq> []"
  shows "ready s'" "ahead s' (t # rest)" "current_token s' = Inr t" "length (cur_consts s') = length (cur_consts s) + length vals"
    "cur_code s' = cur_code s @ code" "cs_inv s'" "cur_locals s' = cur_locals s"
proof -
  note r = source_ready [OF assms(1,3)]
  show a: "ahead s' (t # rest)" by (rule evolves_ahead [OF assms(2) r]) (use assms(1) in \<open>simp add: source_of_def\<close>)
  show "current_token s' = Inr t" by (rule ahead_current [OF a])
  show "ready s'" "length (cur_consts s') = length (cur_consts s) + length vals" "cur_code s' = cur_code s @ code" "cur_locals s' = cur_locals s"
    using evolves_inv [OF assms(2) r] by simp_all
  then show "cs_inv s'" by (simp add: ready_def)
qed

lemma reaches_loop_compiled:
  assumes "reaches_loop e"
  shows "compiled e"
  unfolding compiled_def
proof (intro allI impI)
  fix p f s ts t rest
  assume src: "source_of e s ts t rest" and fits: "fits (prec_rank p) e" and stop: "level (tk_type t) < prec_rank p"
    and eq: "prec_rank p \<le> 1 \<longrightarrow> tk_type t \<noteq> TOKEN_EQUAL" and fuel: "length ts < f"
  from fuel obtain f' where f: "f = Suc f'" "length ts \<le> f'" by (cases f) auto
  let ?ca = "prec_rank p \<le> prec_rank PREC_ASSIGNMENT"
  obtain s' k where loop: "k < length ts" "pratt_head f' p ?ca s = infix_loop (f' - k) (prec_parse f') p ?ca s'"
      "compiles_to e s ts s'"
    using assms [unfolded reaches_loop_def, rule_format, OF src fits order_refl _ f(2), of ?ca] stop eq unfolding next_ok_def by auto
  have cur: "current_token s' = Inr t"
    by (rule source_next(3) [OF src loop(3)]) (use loop(1) in auto)
  have "infix_loop (f' - k) (prec_parse f') p ?ca s' = Inr s'"
    using loop(1) f(2) stop cur by (cases "f' - k") auto
  then have head: "pratt_head f' p ?ca s = Inr s'" using loop(2) by simp
  obtain ty x us where sk: "sketch e = (ty, x) # us" "pr_prefix (parse_rule ty) \<noteq> None" using sketch_Cons [OF fits] by blast
  then obtain t0 ts0 where ts: "ts = t0 # ts0" "tk_type t0 = ty"
    using src by (cases ts) (auto simp: source_of_def tok_sketch_def)
  have a: "ahead s (t0 # hd (ts0 @ t # rest) # tl (ts0 @ t # rest))" using src ts by (cases ts0) (auto simp: source_of_def)
  have "bind_result (if ?ca then match TOKEN_EQUAL s' else Inr (False, s')) (\<lambda>(bad, s4).
      if bad then bind_result (error_prev ''Invalid assignment target.'' s4) (expression (prec_parse f')) else Inr s4) = Inr s'"
    using cur eq by (simp add: match_def check_def)
  moreover obtain fn where fn: "pr_prefix (parse_rule (tk_type t0)) = Some fn" using sk(2) ts(2) by auto
  moreover obtain s2 where "parse_fn f' (prec_parse f') fn ?ca (moves 1 s) = Inr s2" "infix_loop f' (prec_parse f') p ?ca s2 = Inr s'"
    using head by (auto simp: pratt_head_def advance_ahead [OF a] fn bind_result_eq_Inr simp del: One_nat_def)
  ultimately have "prec_parse f p s = Inr s'"
    by (simp add: f(1) prec_body_def advance_ahead [OF a] Let_def del: One_nat_def infix_loop.simps parse_fn.simps prec_rank.simps)
  with loop(3) show "\<exists>s'. prec_parse f p s = Inr s' \<and> compiles_to e s ts s'" by blast
qed


lemma advance_next:
  assumes "ahead s (t # us)" "us \<noteq> []"
  shows "advance s = Inr (moves 1 s)" "previous_token (moves 1 s) = Inr t" "ahead (moves 1 s) us"
proof -
  obtain u us' where "us = u # us'" using assms(2) by (cases us) auto
  with advance_ahead [of s t u us'] assms show "advance s = Inr (moves 1 s)" "previous_token (moves 1 s) = Inr t" by auto
  show "ahead (moves 1 s) us" using ahead_moves [of s "[t]" us] assms(1) by simp
qed

lemma evolves_step:
  assumes "evolves (moves n s) s' m code vals"
  shows "evolves s s' (n + m) code vals"
  using assms by (simp add: evolves_def)

lemma reaches_prefix:
  assumes "\<And>q f ca s t0 ts t rest. source_of e s (t0 # ts) t rest \<Longrightarrow> fits q e \<Longrightarrow> next_ok q (tk_type t) \<Longrightarrow> length ts < f
      \<Longrightarrow> ready (moves 1 s) \<Longrightarrow> previous_token (moves 1 s) = Inr t0 \<Longrightarrow> ahead (moves 1 s) (ts @ t # rest)
      \<Longrightarrow> (q \<le> 1 \<Longrightarrow> ca) \<Longrightarrow> (ca \<Longrightarrow> tk_type t \<noteq> TOKEN_EQUAL)
      \<Longrightarrow> \<exists>fn s'. pr_prefix (parse_rule (tk_type t0)) = Some fn \<and> parse_fn f (prec_parse f) fn ca (moves 1 s) = Inr s'
            \<and> evolves (moves 1 s) s' (length ts) (ecode (names s) (length (cur_consts s)) e) (econsts (names s) e)"
  shows "reaches_loop e"
  unfolding reaches_loop_def
proof (intro allI impI)
  fix q p f ca s ts t rest
  assume src: "source_of e s ts t rest" and fits: "fits q e" and nx: "next_ok q (tk_type t)" and fuel: "length ts \<le> f"
    and ca: "prec_rank p \<le> q" "prec_rank p \<le> 1 \<longrightarrow> ca" "ca \<longrightarrow> tk_type t \<noteq> TOKEN_EQUAL"
  obtain ty x us where "sketch e = (ty, x) # us" using sketch_Cons [OF fits] by blast
  then obtain t0 ts0 where ts: "ts = t0 # ts0" using src by (cases ts) (auto simp: source_of_def)
  have "cs_inv s" "ahead s (t0 # ts0 @ t # rest)" using src ts by (simp_all add: source_of_def)
  note adv = advance_next [OF this(2)] ready_moves [OF this, of 1]
  obtain fn s' where fn: "pr_prefix (parse_rule (tk_type t0)) = Some fn" "parse_fn f (prec_parse f) fn ca (moves 1 s) = Inr s'"
      "evolves (moves 1 s) s' (length ts0) (ecode (names s) (length (cur_consts s)) e) (econsts (names s) e)"
    using assms [of s t0 ts0 t rest q f ca] src fits nx fuel adv ts ca by auto
  have "pratt_head f p ca s = infix_loop (f - 0) (prec_parse f) p ca s'"
    using adv fn by (simp add: pratt_head_def)
  moreover have "compiles_to e s ts s'" using evolves_step [OF fn(3)] ts by simp
  ultimately show "\<exists>s' k. k < length ts \<and> pratt_head f p ca s = infix_loop (f - k) (prec_parse f) p ca s' \<and> compiles_to e s ts s'"
    using ts by blast
qed

lemma reaches_infix:
  assumes left: "reaches_loop a" and sk: "sketch e = sketch a @ (ty, None) # sketch b"
    and rul: "pr_infix (parse_rule ty) = Some fn"
    and fit: "\<And>q. fits q e \<Longrightarrow> q \<le> level ty \<and> fits qa a" and nxt: "next_ok qa ty" "level ty \<le> qa"
    and code: "\<And>L k. ecode L k e = ecode L k a @ icode L (k + length (econsts L a))" "\<And>L. econsts L e = econsts L a @ econsts L b"
      "evars e = evars a @ evars b"
    and short: "short_jumps e \<Longrightarrow> short_jumps a \<and> short_jumps b"
    and op: "\<And>q m f ca s t0 ts t rest. source_of b s ts t rest \<Longrightarrow> ready s \<Longrightarrow> previous_token s = Inr t0 \<Longrightarrow> tk_type t0 = ty
      \<Longrightarrow> fits q e \<Longrightarrow> next_ok q (tk_type t) \<Longrightarrow> length ts < f \<Longrightarrow> short_jumps e
      \<Longrightarrow> \<exists>s'. parse_fn m (prec_parse f) fn ca s = Inr s' \<and> evolves s s' (length ts) (icode (names s) (length (cur_consts s))) (econsts (names s) b)"
  shows "reaches_loop e"
  unfolding reaches_loop_def
proof (intro allI impI)
  fix q p f ca s ts t rest
  assume src: "source_of e s ts t rest" and fits: "fits q e" and low: "prec_rank p \<le> q" and nx: "next_ok q (tk_type t)"
    and fuel: "length ts \<le> f" and ca: "prec_rank p \<le> 1 \<longrightarrow> ca"
  have "map tok_sketch ts = sketch a @ (ty, None) # sketch b" using src sk by (simp add: source_of_def)
  then obtain ta t0 tb where ts: "ts = ta @ t0 # tb" "map tok_sketch ta = sketch a" "tok_sketch t0 = (ty, None)" "map tok_sketch tb = sketch b"
    by (auto simp: map_eq_append_conv map_eq_Cons_conv)
  have t0: "tk_type t0 = ty" using ts(3) by (simp add: tok_sketch_def)
  have srca: "source_of a s ta t0 (tb @ t # rest)" using src ts code(2,3) short by (simp add: source_of_def)
  have qa: "fits qa a" "q \<le> level ty" using fit [OF fits] by simp_all
  have "sketch a \<noteq> []" using sketch_Cons [OF qa(1)] by auto
  then have ta: "ta \<noteq> []" using ts(2) by auto
  have "tk_type t0 \<noteq> TOKEN_EQUAL" using rul t0 by (auto simp: rule_def)
  then obtain s1 k where s1: "k < length ta" "pratt_head f p ca s = infix_loop (f - k) (prec_parse f) p ca s1" "compiles_to a s ta s1"
    using left [unfolded reaches_loop_def, rule_format, OF srca qa(1), of p f ca] nxt t0 low qa(2) fuel ts(1) ca by auto
  note n1 = source_next [OF srca s1(3) ta]
  note adv = advance_next [OF n1(2), simplified]
  have r1: "ready (moves 1 s1)" by (rule ready_moves [OF n1(6,2)]) simp_all
  have srcb: "source_of b (moves 1 s1) tb t rest"
    using src ts short r1 adv(3) code(2,3) n1(4,7) by (auto simp: source_of_def ready_def)
  obtain s2 where s2: "parse_fn (f - Suc k) (prec_parse f) fn ca (moves 1 s1) = Inr s2"
      "evolves (moves 1 s1) s2 (length tb) (icode (names s) (length (cur_consts s1))) (econsts (names s) b)"
    using op [OF srcb r1 adv(2) [folded One_nat_def] t0 fits nx, of f "f - Suc k" ca] fuel ts(1) src n1(7) by (auto simp: source_of_def)
  have m: "f - k = Suc (f - Suc k)" using s1(1) fuel ts(1) by auto
  have "infix_loop (f - k) (prec_parse f) p ca s1 = infix_loop (f - Suc k) (prec_parse f) p ca s2"
    unfolding m using n1(3) low qa(2) t0 adv(1,2) s2(1) by (simp add: rul)
  moreover have "compiles_to e s ts s2"
    using evolves_trans [OF s1(3) evolves_step [OF s2(2)]] source_ready [OF src] n1(4) ts(1) code by simp
  moreover have "Suc k < length ts" using s1(1) ts(1) by simp
  ultimately show "\<exists>s' k. k < length ts \<and> pratt_head f p ca s = infix_loop (f - k) (prec_parse f) p ca s' \<and> compiles_to e s ts s'"
    using s1(2) by metis
qed


lemma reaches_num: "reaches_loop (Num x)"
proof (rule reaches_prefix)
  fix q f ca s t0 ts t rest
  assume src: "source_of (Num x) s (t0 # ts) t rest" and r: "ready (moves 1 s)" and prev: "previous_token (moves 1 s) = Inr t0"
  have t0: "tk_type t0 = TOKEN_NUMBER" "tk_lexeme t0 = Some x" "ts = []" "length (cur_consts s) < 256"
    using src by (auto simp: source_of_def tok_sketch_def split: if_splits)
  obtain s' where "emit_constant (number_val (strtod x)) (moves 1 s) = Inr s'"
      "evolves (moves 1 s) s' 0 [op_byte OP_CONSTANT, of_nat (length (cur_consts s))] [Number_Lit (number_val (strtod x))]"
    by (rule emit_constant_emits [OF r, of "Number_Lit (number_val (strtod x))" "number_val (strtod x)"]) (use t0(4) in \<open>auto simp: denotes_def\<close>)
  then show "\<exists>fn s'. pr_prefix (parse_rule (tk_type t0)) = Some fn \<and> parse_fn f (prec_parse f) fn ca (moves 1 s) = Inr s'
      \<and> evolves (moves 1 s) s' (length ts) (ecode (names s) (length (cur_consts s)) (Num x)) (econsts (names s) (Num x))"
    using t0 prev by (simp add: rule_def number_def)
qed

lemma reaches_lit: "reaches_loop (Lit ty)"
proof (rule reaches_prefix)
  fix q f ca s t0 ts t rest
  assume src: "source_of (Lit ty) s (t0 # ts) t rest" and fits: "fits q (Lit ty)" and r: "ready (moves 1 s)"
    and prev: "previous_token (moves 1 s) = Inr t0"
  have t0: "tk_type t0 = ty" "ts = []" using src by (auto simp: source_of_def tok_sketch_def)
  obtain s' where "emit_byte (op_byte (literal_op ty)) (moves 1 s) = Inr s'" "evolves (moves 1 s) s' 0 [op_byte (literal_op ty)] []"
    by (rule emit_byte_emits [OF r])
  then show "\<exists>fn s'. pr_prefix (parse_rule (tk_type t0)) = Some fn \<and> parse_fn f (prec_parse f) fn ca (moves 1 s) = Inr s'
      \<and> evolves (moves 1 s) s' (length ts) (ecode (names s) (length (cur_consts s)) (Lit ty)) (econsts (names s) (Lit ty))"
    using t0 prev fits by (auto simp: rule_def literal_def literal_op_def)
qed

lemma level_not_unary: "level ty \<noteq> 8"
  by (cases ty) (simp_all add: rule_def)

lemma reaches_unary:
  assumes "compiled a"
  shows "reaches_loop (Unary ty a)"
proof (rule reaches_prefix)
  fix q f ca s t0 ts t rest
  assume src: "source_of (Unary ty a) s (t0 # ts) t rest" and fits: "fits q (Unary ty a)" and nx: "next_ok q (tk_type t)"
    and fuel: "length ts < f" and r: "ready (moves 1 s)" and prev: "previous_token (moves 1 s) = Inr t0"
    and ah: "ahead (moves 1 s) (ts @ t # rest)"
  have t0: "tk_type t0 = ty" using src by (auto simp: source_of_def tok_sketch_def)
  have srca: "source_of a (moves 1 s) ts t rest"
    using src r ah by (auto simp: source_of_def ready_def)
  have "level (tk_type t) < prec_rank PREC_UNARY"
    using nx fits level_not_unary [of "tk_type t"] by (auto simp: next_ok_def)
  then obtain s1 where s1: "prec_parse f PREC_UNARY (moves 1 s) = Inr s1" "compiles_to a (moves 1 s) ts s1"
    using assms [unfolded compiled_def, rule_format, OF srca, of PREC_UNARY f] fits fuel by auto
  have rs: "ready (moves (length ts) (moves 1 s))"
    using r source_ready [OF srca] by (cases "ts = []") auto
  have r1: "ready s1" by (rule evolves_inv(1) [OF s1(2) rs])
  obtain s2 where s2: "emit_byte (op_byte (unary_op ty)) s1 = Inr s2" "evolves s1 s2 0 [op_byte (unary_op ty)] []"
    by (rule emit_byte_emits [OF r1])
  have "unary (prec_parse f) (moves 1 s) = Inr s2"
    using prev s1(1) s2(1) t0 fits by (auto simp: unary_def unary_op_def)
  moreover have "evolves (moves 1 s) s2 (length ts) (ecode (names s) (length (cur_consts s)) (Unary ty a)) (econsts (names s) (Unary ty a))"
    using evolves_trans [OF s1(2) s2(2)] rs by simp
  ultimately show "\<exists>fn s'. pr_prefix (parse_rule (tk_type t0)) = Some fn \<and> parse_fn f (prec_parse f) fn ca (moves 1 s) = Inr s'
      \<and> evolves (moves 1 s) s' (length ts) (ecode (names s) (length (cur_consts s)) (Unary ty a)) (econsts (names s) (Unary ty a))"
    using t0 fits by (auto simp: rule_def)
qed

lemma reaches_group:
  assumes "compiled a"
  shows "reaches_loop (Group a)"
proof (rule reaches_prefix)
  fix q f ca s t0 ts t rest
  assume src: "source_of (Group a) s (t0 # ts) t rest" and fits: "fits q (Group a)"
    and fuel: "length ts < f" and r: "ready (moves 1 s)" and ah: "ahead (moves 1 s) (ts @ t # rest)"
  obtain ta c where ts: "ts = ta @ [c]" "map tok_sketch ta = sketch a" "tk_type c = TOKEN_RIGHT_PAREN" and t0: "tk_type t0 = TOKEN_LEFT_PAREN"
    using src by (auto simp: source_of_def tok_sketch_def map_eq_append_conv map_eq_Cons_conv)
  have srca: "source_of a (moves 1 s) ta c (t # rest)"
    using src r ah ts by (auto simp: source_of_def ready_def)
  obtain s1 where s1: "prec_parse f PREC_ASSIGNMENT (moves 1 s) = Inr s1" "compiles_to a (moves 1 s) ta s1"
    using assms [unfolded compiled_def, rule_format, OF srca, of PREC_ASSIGNMENT f] fits fuel ts by (auto simp: rule_def)
  have "ta \<noteq> []" using sketch_Cons [of 1 a] fits ts(2) by auto
  note n = source_next [OF srca s1(2) this]
  have adv: "advance s1 = Inr (moves 1 s1)" by (rule advance_next(1) [OF n(2)]) simp
  have "grouping (prec_parse f) (moves 1 s) = Inr (moves 1 s1)"
    using s1(1) n(3) adv ts(3) by (simp add: grouping_def expression_def consume_def)
  moreover have "ready (moves (length ts) (moves 1 s))" using source_ready [OF src] by simp
  then have "evolves (moves 1 s) (moves 1 s1) (length ts) (ecode (names s) (length (cur_consts s)) (Group a)) (econsts (names s) (Group a))"
    using evolves_trans [OF s1(2) evolves_moves [OF ready_moves [OF n(6,2), of 1]]] ts(1) by simp
  ultimately show "\<exists>fn s'. pr_prefix (parse_rule (tk_type t0)) = Some fn \<and> parse_fn f (prec_parse f) fn ca (moves 1 s) = Inr s'
      \<and> evolves (moves 1 s) s' (length ts) (ecode (names s) (length (cur_consts s)) (Group a)) (econsts (names s) (Group a))"
    using t0 by (auto simp: rule_def)
qed

lemma binary_rule:
  "binary_ops ty \<noteq> [] \<Longrightarrow> pr_infix (parse_rule ty) = Some fn_binary \<and> 4 \<le> level ty
     \<and> prec_rank (prec_succ (pr_precedence (parse_rule ty))) = Suc (level ty)"
  by (cases ty) (simp_all add: rule_def)

lemma reaches_binary:
  assumes "reaches_loop a" "compiled b"
  shows "reaches_loop (Binary ty a b)"
proof (cases "binary_ops ty = []")
  case True
  then show ?thesis by (simp add: reaches_loop_def)
next
  case False
  note br = binary_rule [OF False]
  show ?thesis
  proof (rule reaches_infix [OF assms(1), where b = b and ty = ty and fn = fn_binary and qa = "level ty"
        and icode = "\<lambda>L k. ecode L k b @ map op_byte (binary_ops ty)"])
    fix q m f ca s t0 ts t rest
    assume src: "source_of b s ts t rest" and r: "ready s" and prev: "previous_token s = Inr t0" and t0: "tk_type t0 = ty"
      and fits: "fits q (Binary ty a b)" and nx: "next_ok q (tk_type t)" and fuel: "length ts < f"
    have "level (tk_type t) < Suc (level ty)" using nx fits by (auto simp: next_ok_def)
    then obtain s1 where s1: "prec_parse f (prec_succ (pr_precedence (parse_rule ty))) s = Inr s1" "compiles_to b s ts s1"
      using assms(2) [unfolded compiled_def, rule_format, OF src, of "prec_succ (pr_precedence (parse_rule ty))" f] fits fuel br by auto
    have rs: "ready (moves (length ts) s)" using r source_ready [OF src] by (cases "ts = []") auto
    have r1: "ready s1" by (rule evolves_inv(1) [OF s1(2) rs])
    obtain s2 where s2: "emit_ops (binary_ops ty) s1 = Inr s2" "evolves s1 s2 0 (map op_byte (binary_ops ty)) []"
      by (rule emit_ops_emits [OF r1])
    then show "\<exists>s'. parse_fn m (prec_parse f) fn_binary ca s = Inr s'
        \<and> evolves s s' (length ts) (ecode (names s) (length (cur_consts s)) b @ map op_byte (binary_ops ty)) (econsts (names s) b)"
      using prev s1(1) t0 evolves_trans [OF s1(2) s2(2)] rs by (simp add: binary_def)
  qed (use br in \<open>auto simp: next_ok_def\<close>)
qed


text \<open>The right operand of \<^verbatim>\<open>and\<close> or \<^verbatim>\<open>or\<close>: a discarded value, the operand, and the jump over both.\<close>

lemma operand_code:
  assumes "compiled b" "source_of b s ts t rest" "ready s" "fits (prec_rank p) b" "level (tk_type t) < prec_rank p" "1 < prec_rank p"
    "length ts < f" "length (ecode [] 0 b) < 255" "evolves s s1 0 (c @ [0xff, 0xff]) []" "offset = length (cur_code s) + length c"
  defines "cb \<equiv> ecode (names s) (length (cur_consts s)) b"
  obtains s2 s3 s4 where "emit_byte (op_byte OP_POP) s1 = Inr s2" "prec_parse f p s2 = Inr s3" "patch_jump offset s3 = Inr s4"
    "evolves s s4 (length ts) (c @ [jump_hi (int (Suc (length cb))), jump_lo (int (Suc (length cb)))] @ op_byte OP_POP # cb) (econsts (names s) b)"
proof -
  have r1: "ready s1" by (rule evolves_inv(1) [OF assms(9)]) (use assms(3) in simp)
  obtain s2 where s2: "emit_byte (op_byte OP_POP) s1 = Inr s2" "evolves s1 s2 0 [op_byte OP_POP] []"
    by (rule emit_byte_emits [OF r1])
  have e2: "evolves s s2 0 (c @ [0xff, 0xff] @ [op_byte OP_POP]) []"
    using evolves_trans [OF assms(9) s2(2)] assms(3) by simp
  note i2 = evolves_inv [OF e2, simplified, OF assms(3)]
  have src2: "source_of b s2 ts t rest"
    using assms(2) i2 by (auto simp: source_of_def ready_def ahead_def)
  obtain s3 where s3: "prec_parse f p s2 = Inr s3" "compiles_to b s2 ts s3"
    using assms(1) [unfolded compiled_def, rule_format, OF src2 assms(4,5) _ assms(7)] assms(6) by auto
  have rs: "ready (moves (length ts) s)" using assms(3) source_ready [OF assms(2)] by (cases "ts = []") auto
  have e3: "evolves s s3 (length ts) (c @ [0xff, 0xff] @ op_byte OP_POP # cb) (econsts (names s) b)"
    using evolves_trans [OF e2 s3(2)] rs i2(4,7) by (simp add: cb_def)
  obtain s4 where "patch_jump offset s3 = Inr s4"
    "evolves s s4 (length ts) (c @ [jump_hi (int (length (op_byte OP_POP # cb))), jump_lo (int (length (op_byte OP_POP # cb)))]
        @ op_byte OP_POP # cb) (econsts (names s) b)"
    by (rule patch_jump_emits [OF e3 rs assms(10)]) (use assms(8) length_ecode [of "names s" "length (cur_consts s)" b] in \<open>simp add: cb_def\<close>)
  with that [OF s2(1) s3(1)] show thesis by simp
qed

lemma reaches_and:
  assumes "reaches_loop a" "compiled b"
  shows "reaches_loop (AndExp a b)"
proof (rule reaches_infix [OF assms(1), where b = b and ty = TOKEN_AND and fn = fn_and and qa = 4
      and icode = "\<lambda>L k. jump_code OP_JUMP_IF_FALSE (Suc (length (ecode L k b))) @ op_byte OP_POP # ecode L k b"])
  fix q m f ca s t0 ts t rest
  assume src: "source_of b s ts t rest" and r: "ready s" and fits: "fits q (AndExp a b)" and nx: "next_ok q (tk_type t)"
    and fuel: "length ts < f" and short: "short_jumps (AndExp a b)"
  obtain s1 where s1: "emit_jump OP_JUMP_IF_FALSE s = Inr (Suc (length (cur_code s)), s1)"
      "evolves s s1 0 [op_byte OP_JUMP_IF_FALSE, 0xff, 0xff] []"
    by (rule emit_jump_emits [OF r])
  obtain s2 s3 s4 where "emit_byte (op_byte OP_POP) s1 = Inr s2" "prec_parse f PREC_AND s2 = Inr s3"
      "patch_jump (Suc (length (cur_code s))) s3 = Inr s4"
      "evolves s s4 (length ts) ([op_byte OP_JUMP_IF_FALSE] @ [jump_hi (int (Suc (length (ecode (names s) (length (cur_consts s)) b)))),
        jump_lo (int (Suc (length (ecode (names s) (length (cur_consts s)) b))))] @ op_byte OP_POP # ecode (names s) (length (cur_consts s)) b) (econsts (names s) b)"
    by (rule operand_code [OF assms(2) src r, of PREC_AND f s1 "[op_byte OP_JUMP_IF_FALSE]" "Suc (length (cur_code s))"])
      (use fits nx fuel short s1(2) in \<open>auto simp: next_ok_def\<close>)
  with s1 show "\<exists>s'. parse_fn m (prec_parse f) fn_and ca s = Inr s' \<and> evolves s s' (length ts)
      (jump_code OP_JUMP_IF_FALSE (Suc (length (ecode (names s) (length (cur_consts s)) b))) @ op_byte OP_POP # ecode (names s) (length (cur_consts s)) b)
      (econsts (names s) b)"
    by (simp add: and_fn_def jump_code_def)
qed (auto simp: next_ok_def rule_def Let_def)

lemma reaches_or:
  assumes "reaches_loop a" "compiled b"
  shows "reaches_loop (OrExp a b)"
proof (rule reaches_infix [OF assms(1), where b = b and ty = TOKEN_OR and fn = fn_or and qa = 3 and icode =
      "\<lambda>L k. jump_code OP_JUMP_IF_FALSE 3 @ jump_code OP_JUMP (Suc (length (ecode L k b))) @ op_byte OP_POP # ecode L k b"])
  fix q m f ca s t0 ts t rest
  assume src: "source_of b s ts t rest" and r: "ready s" and fits: "fits q (OrExp a b)" and nx: "next_ok q (tk_type t)"
    and fuel: "length ts < f" and short: "short_jumps (OrExp a b)"
  let ?n = "length (cur_code s)"
  obtain s1 where s1: "emit_jump OP_JUMP_IF_FALSE s = Inr (Suc ?n, s1)" "evolves s s1 0 [op_byte OP_JUMP_IF_FALSE, 0xff, 0xff] []"
    by (rule emit_jump_emits [OF r])
  note i1 = evolves_inv [OF s1(2), simplified, OF r]
  obtain s2 where s2: "emit_jump OP_JUMP s1 = Inr (Suc (length (cur_code s1)), s2)" "evolves s1 s2 0 [op_byte OP_JUMP, 0xff, 0xff] []"
    by (rule emit_jump_emits [OF i1(1)])
  have e2: "evolves s s2 0 ([op_byte OP_JUMP_IF_FALSE] @ [0xff, 0xff] @ [op_byte OP_JUMP, 0xff, 0xff]) []"
    using evolves_trans [OF s1(2) s2(2)] r by simp
  obtain s3 where s3: "patch_jump (Suc ?n) s2 = Inr s3"
      "evolves s s3 0 ([op_byte OP_JUMP_IF_FALSE] @ [jump_hi (int 3), jump_lo (int 3)] @ [op_byte OP_JUMP, 0xff, 0xff]) []"
    by (rule patch_jump_emits [OF e2, of "Suc ?n"]) (use r in auto)
  have e3: "evolves s s3 0 ((jump_code OP_JUMP_IF_FALSE 3 @ [op_byte OP_JUMP]) @ [0xff, 0xff]) []"
    using s3(2) by (simp add: jump_code_def)
  obtain s4 s5 s6 where "emit_byte (op_byte OP_POP) s3 = Inr s4" "prec_parse f PREC_OR s4 = Inr s5"
      "patch_jump (Suc (Suc (Suc (Suc ?n)))) s5 = Inr s6"
      "evolves s s6 (length ts) ((jump_code OP_JUMP_IF_FALSE 3 @ [op_byte OP_JUMP]) @ [jump_hi (int (Suc (length (ecode (names s) (length (cur_consts s)) b)))),
        jump_lo (int (Suc (length (ecode (names s) (length (cur_consts s)) b))))] @ op_byte OP_POP # ecode (names s) (length (cur_consts s)) b) (econsts (names s) b)"
    by (rule operand_code [OF assms(2) src r, of PREC_OR f s3 _ "Suc (Suc (Suc (Suc ?n)))", OF _ _ _ _ _ e3])
      (use fits nx fuel short in \<open>auto simp: next_ok_def jump_code_def\<close>)
  with s1 s2 s3(1) i1(3) show "\<exists>s'. parse_fn m (prec_parse f) fn_or ca s = Inr s' \<and> evolves s s' (length ts)
      (jump_code OP_JUMP_IF_FALSE 3 @ jump_code OP_JUMP (Suc (length (ecode (names s) (length (cur_consts s)) b)))
        @ op_byte OP_POP # ecode (names s) (length (cur_consts s)) b) (econsts (names s) b)"
    by (simp add: or_fn_def jump_code_def)
qed (auto simp: next_ok_def rule_def Let_def)

text \<open>Reading and assigning a variable.\<close>

lemma named_variable_emits:
  assumes "ready s" "usable s x" "tk_lexeme t0 = Some x" "length (cur_consts s) + length (name_lits (names s) x) \<le> 256"
    "L = names s" "k = length (cur_consts s)"
  obtains s1 where "evolves s s1 0 [] (name_lits L x)" "ready s1"
    "\<And>pp ca. named_variable pp t0 ca s = bind_result (if ca then match TOKEN_EQUAL s1 else Inr (False, s1)) (\<lambda>(assign, s3).
       if assign then bind_result (expression pp s3) (emit_bytes (op_byte (set_op L x)) (var_arg L k x))
       else emit_bytes (op_byte (get_op L x)) (var_arg L k x) s3)"
proof (cases "x \<in> set (names s)")
  case True
  then have ops: "get_op (names s) x = OP_GET_LOCAL" "set_op (names s) x = OP_SET_LOCAL" "var_arg (names s) k x = of_nat (local_slot (names s) x)" for k
    by (simp_all add: get_op_def set_op_def var_arg_def)
  have "evolves s s 0 [] (name_lits (names s) x)" using evolves_moves [of 0 s] assms(1) True by (simp add: name_lits_def)
  moreover have "named_variable pp t0 ca s = bind_result (if ca then match TOKEN_EQUAL s else Inr (False, s)) (\<lambda>(assign, s3).
       if assign then bind_result (expression pp s3) (emit_bytes (op_byte (set_op (names s) x)) (var_arg (names s) (length (cur_consts s)) x))
       else emit_bytes (op_byte (get_op (names s) x)) (var_arg (names s) (length (cur_consts s)) x) s3)" for pp ca
    using resolve_usable [OF assms(2,3)] assms(1) True
    unfolding ops by (simp add: named_variable_def current_compiler_Inr ready_def variable_local_resolve_def flip: cur_locals_def)
  ultimately show thesis using that [OF _ assms(1), unfolded assms(5,6)] by blast
next
  case False
  then have ops: "get_op (names s) x = OP_GET_GLOBAL" "set_op (names s) x = OP_SET_GLOBAL" "var_arg (names s) k x = of_nat k" for k
    by (simp_all add: get_op_def set_op_def var_arg_def)
  have "length (cur_consts s) < 256" using False assms(4) by (simp add: name_lits_def)
  then obtain s1 where s1: "identifier_constant t0 s = Inr (of_nat (length (cur_consts s)), s1)" "evolves s s1 0 [] [Name_Lit x]"
    by (rule identifier_constant_emits [OF assms(1) _ assms(3)])
  have r: "ready s1" by (rule evolves_inv(1) [OF s1(2)]) (simp add: assms(1))
  have "evolves s s1 0 [] (name_lits (names s) x)" using s1(2) False by (simp add: name_lits_def)
  moreover have "named_variable pp t0 ca s = bind_result (if ca then match TOKEN_EQUAL s1 else Inr (False, s1)) (\<lambda>(assign, s3).
       if assign then bind_result (expression pp s3) (emit_bytes (op_byte (set_op (names s) x)) (var_arg (names s) (length (cur_consts s)) x))
       else emit_bytes (op_byte (get_op (names s) x)) (var_arg (names s) (length (cur_consts s)) x) s3)" for pp ca
    using resolve_usable [OF assms(2,3)] assms(1) False s1(1)
    unfolding ops by (simp add: named_variable_def current_compiler_Inr ready_def variable_local_resolve_def flip: cur_locals_def)
  ultimately show thesis using that [OF _ r, unfolded assms(5,6)] by blast
qed

lemma reaches_var: "reaches_loop (Var x)"
proof (rule reaches_prefix)
  fix q f ca s t0 ts t rest
  assume src: "source_of (Var x) s (t0 # ts) t rest" and r: "ready (moves 1 s)" and prev: "previous_token (moves 1 s) = Inr t0"
    and ah: "ahead (moves 1 s) (ts @ t # rest)" and ca: "ca \<Longrightarrow> tk_type t \<noteq> TOKEN_EQUAL"
  let ?L = "names s" and ?k = "length (cur_consts s)"
  have t0: "tk_type t0 = TOKEN_IDENTIFIER" "tk_lexeme t0 = Some x" "ts = []" "usable (moves 1 s) x" "?k + length (name_lits ?L x) \<le> 256"
    using src by (auto simp: source_of_def tok_sketch_def split: if_splits)
  obtain s1 where s1: "evolves (moves 1 s) s1 0 [] (name_lits ?L x)" "ready s1"
    "\<And>pp ca. named_variable pp t0 ca (moves 1 s) = bind_result (if ca then match TOKEN_EQUAL s1 else Inr (False, s1)) (\<lambda>(assign, s3).
       if assign then bind_result (expression pp s3) (emit_bytes (op_byte (set_op ?L x)) (var_arg ?L ?k x))
       else emit_bytes (op_byte (get_op ?L x)) (var_arg ?L ?k x) s3)"
    by (rule named_variable_emits [OF r t0(4,2), of ?L ?k]) (use t0(5) in simp_all)
  obtain s' where s': "emit_bytes (op_byte (get_op ?L x)) (var_arg ?L ?k x) s1 = Inr s'"
      "evolves s1 s' 0 [op_byte (get_op ?L x), var_arg ?L ?k x] []"
    by (rule emit_bytes_emits [OF s1(2)])
  have "ahead s1 (t # rest)" using evolves_ahead [of "moves 1 s" s1 "[]"] s1(1) r ah t0(3) by simp
  then have "(if ca then match TOKEN_EQUAL s1 else Inr (False, s1)) = Inr (False, s1)"
    using ahead_current [of s1 t rest] ca by (simp add: match_def check_def)
  then show "\<exists>fn s'. pr_prefix (parse_rule (tk_type t0)) = Some fn \<and> parse_fn f (prec_parse f) fn ca (moves 1 s) = Inr s'
      \<and> evolves (moves 1 s) s' (length ts) (ecode (names s) (length (cur_consts s)) (Var x)) (econsts (names s) (Var x))"
    using t0 prev s' s1(3) evolves_trans [OF s1(1) s'(2)] by (simp add: rule_def variable_def)
qed

lemma reaches_assign:
  assumes "compiled a"
  shows "reaches_loop (Assign x a)"
proof (rule reaches_prefix)
  fix q f ca s t0 ts t rest
  assume src: "source_of (Assign x a) s (t0 # ts) t rest" and fits: "fits q (Assign x a)" and nx: "next_ok q (tk_type t)"
    and fuel: "length ts < f" and r: "ready (moves 1 s)" and prev: "previous_token (moves 1 s) = Inr t0"
    and ah: "ahead (moves 1 s) (ts @ t # rest)" and ca: "q \<le> 1 \<Longrightarrow> ca" "ca \<Longrightarrow> tk_type t \<noteq> TOKEN_EQUAL"
  obtain e ta where t0: "tk_type t0 = TOKEN_IDENTIFIER" "tk_lexeme t0 = Some x" "ts = e # ta" "tk_type e = TOKEN_EQUAL"
      "map tok_sketch ta = sketch a" "usable (moves 1 s) x"
    using src by (auto simp: source_of_def tok_sketch_def map_eq_Cons_conv split: if_splits)
  let ?L = "names s" and ?k = "length (cur_consts s)"
  have room: "?k + length (name_lits ?L x) + length (econsts ?L a) \<le> 256" using src by (simp add: source_of_def)
  obtain s0 where s0: "evolves (moves 1 s) s0 0 [] (name_lits ?L x)" "ready s0"
    "\<And>pp ca. named_variable pp t0 ca (moves 1 s) = bind_result (if ca then match TOKEN_EQUAL s0 else Inr (False, s0)) (\<lambda>(assign, s3).
       if assign then bind_result (expression pp s3) (emit_bytes (op_byte (set_op ?L x)) (var_arg ?L ?k x))
       else emit_bytes (op_byte (get_op ?L x)) (var_arg ?L ?k x) s3)"
    by (rule named_variable_emits [OF r t0(6,2), of ?L ?k]) (use room in simp_all)
  note i0 = evolves_inv [OF s0(1), simplified, OF r [simplified]]
  have yes: ca using ca(1) fits by simp
  have a1: "ahead s0 (e # ta @ t # rest)" using evolves_ahead [of "moves 1 s" s0 "[]"] s0(1) r ah t0(3) by simp
  note adv = advance_next [OF a1, simplified]
  have r2: "ready (moves 1 s0)" by (rule ready_moves [OF _ a1]) (use s0(2) in \<open>simp_all add: ready_def\<close>)
  have srca: "source_of a (moves 1 s0) ta t rest"
    using src r2 adv(3) t0(5) i0(4,7) by (auto simp: source_of_def ready_def)
  obtain s1 where s1: "prec_parse f PREC_ASSIGNMENT (moves 1 s0) = Inr s1" "compiles_to a (moves 1 s0) ta s1"
    using assms [unfolded compiled_def, rule_format, OF srca, of PREC_ASSIGNMENT f] fits fuel t0(3) nx ca(2) [OF yes] by (auto simp: next_ok_def)
  have rs: "ready (moves (length ta) (moves 1 s0))"
    using r2 source_ready [OF srca] by (cases "ta = []") auto
  have r1: "ready s1" by (rule evolves_inv(1) [OF s1(2) rs])
  obtain s2 where s2: "emit_bytes (op_byte (set_op ?L x)) (var_arg ?L ?k x) s1 = Inr s2"
      "evolves s1 s2 0 [op_byte (set_op ?L x), var_arg ?L ?k x] []"
    by (rule emit_bytes_emits [OF r1])
  have "match TOKEN_EQUAL s0 = Inr (True, moves 1 s0)"
    using ahead_current [OF a1] adv(1) t0(4) by (simp add: match_def check_def)
  then have "variable (prec_parse f) ca (moves 1 s) = Inr s2"
    using prev s1(1) s2(1) s0(3) yes by (simp add: variable_def expression_def)
  moreover have "evolves (moves 1 s) s2 (length ts) (ecode ?L ?k (Assign x a)) (econsts ?L (Assign x a))"
    using evolves_trans [OF s0(1) evolves_step [OF evolves_trans [OF s1(2) s2(2)]]] t0(3) i0(4,7) by simp
  ultimately show "\<exists>fn s'. pr_prefix (parse_rule (tk_type t0)) = Some fn \<and> parse_fn f (prec_parse f) fn ca (moves 1 s) = Inr s'
      \<and> evolves (moves 1 s) s' (length ts) (ecode (names s) (length (cur_consts s)) (Assign x a)) (econsts (names s) (Assign x a))"
    using t0 by (auto simp: rule_def)
qed

lemma all_reach_loop: "reaches_loop e"
proof (induction e)
qed (simp_all add: reaches_num reaches_lit reaches_unary reaches_binary reaches_and reaches_or reaches_group reaches_var reaches_assign
    reaches_loop_compiled)

lemma expression_code:
  assumes "source_of e s ts t rest" "fits 1 e" "level (tk_type t) = 0" "tk_type t \<noteq> TOKEN_EQUAL" "length ts < f"
  obtains s' where "expression (prec_parse f) s = Inr s'" "compiles_to e s ts s'"
  using reaches_loop_compiled [OF all_reach_loop, unfolded compiled_def, rule_format, OF assms(1), of PREC_ASSIGNMENT f] assms(2-5)
  by (auto simp: expression_def)

end
