(* ===== verification/Clox_Codegen_Prog.thy ===== *)
theory Clox_Codegen_Prog
  imports Clox_Codegen
begin

text \<open>
  What \<^verbatim>\<open>vm/compiler.c\<close> emits for programs of print, expression, \<^verbatim>\<open>if\<close>, \<^verbatim>\<open>while\<close> and \<^verbatim>\<open>for\<close> statements, global
  variables and blocks with local variables, over the expressions of \<open>Clox_Codegen\<close>: \<open>scode\<close> and \<open>bcode\<close> give the bytes,
  \<open>sconsts\<close> and \<open>bconsts\<close> the constants. The last lemma follows \<^verbatim>\<open>compile\<close> from the source text to the
  finished script.
\<close>

section \<open>Statements\<close>

text \<open>A declaration in a block is \<open>VarDecl\<close>; outside of blocks it defines a global and is \<open>Global\<close>.\<close>

datatype cstmt =
    Print cexp
  | Expr cexp
  | IfThen cexp cstmt
  | IfElse cexp cstmt cstmt
  | While cexp cstmt
  | For "cstmt list" "cexp option" "cexp option" cstmt
  | Block "cstmt list"
  | VarDecl string "cexp option"
  | Global string "cexp option"

definition initializer :: "cexp option \<Rightarrow> (TokenType \<times> string option) list" where
  "initializer i = (case i of None \<Rightarrow> [] | Some e \<Rightarrow> (TOKEN_EQUAL, None) # sketch e)"

text \<open>
  The parts of a \<^verbatim>\<open>for\<close> statement may be missing. Its initializer is the list of no statement, or of
  one expression statement or declaration, which brings its own semicolon.
\<close>

definition clause :: "cexp option \<Rightarrow> (TokenType \<times> string option) list" where
  "clause i = (case i of None \<Rightarrow> [] | Some e \<Rightarrow> sketch e)"

fun ssketch :: "cstmt \<Rightarrow> (TokenType \<times> string option) list" where
  "ssketch (Print e) = (TOKEN_PRINT, None) # sketch e @ [(TOKEN_SEMICOLON, None)]"
| "ssketch (Expr e) = sketch e @ [(TOKEN_SEMICOLON, None)]"
| "ssketch (IfThen c a) = (TOKEN_IF, None) # (TOKEN_LEFT_PAREN, None) # sketch c @ (TOKEN_RIGHT_PAREN, None) # ssketch a"
| "ssketch (IfElse c a b) = (TOKEN_IF, None) # (TOKEN_LEFT_PAREN, None) # sketch c @ (TOKEN_RIGHT_PAREN, None) # ssketch a
     @ (TOKEN_ELSE, None) # ssketch b"
| "ssketch (While c a) = (TOKEN_WHILE, None) # (TOKEN_LEFT_PAREN, None) # sketch c @ (TOKEN_RIGHT_PAREN, None) # ssketch a"
| "ssketch (For fi c inc a) = (TOKEN_FOR, None) # (TOKEN_LEFT_PAREN, None) # (if fi = [] then [(TOKEN_SEMICOLON, None)] else concat (map ssketch fi))
     @ clause c @ (TOKEN_SEMICOLON, None) # clause inc @ (TOKEN_RIGHT_PAREN, None) # ssketch a"
| "ssketch (Block as) = (TOKEN_LEFT_BRACE, None) # concat (map ssketch as) @ [(TOKEN_RIGHT_BRACE, None)]"
| "ssketch (VarDecl x i) = (TOKEN_VAR, None) # (TOKEN_IDENTIFIER, Some x) # initializer i @ [(TOKEN_SEMICOLON, None)]"
| "ssketch (Global x i) = (TOKEN_VAR, None) # (TOKEN_IDENTIFIER, Some x) # initializer i @ [(TOKEN_SEMICOLON, None)]"

text \<open>The local that a statement of a block adds to the scope.\<close>

fun binds :: "cstmt \<Rightarrow> string list" where
  "binds (VarDecl x i) = [x]"
| "binds _ = []"

definition declared :: "cstmt list \<Rightarrow> string list" where
  "declared as = concat (map binds as)"

text \<open>The constants, under the locals \<open>L\<close>.\<close>

definition iconsts :: "string list \<Rightarrow> cexp option \<Rightarrow> const_lit list" where
  "iconsts L i = (case i of None \<Rightarrow> [] | Some e \<Rightarrow> econsts L e)"

fun sconsts :: "string list \<Rightarrow> cstmt \<Rightarrow> const_lit list" and bconsts :: "string list \<Rightarrow> cstmt list \<Rightarrow> const_lit list" where
  "sconsts L (Print e) = econsts L e"
| "sconsts L (Expr e) = econsts L e"
| "sconsts L (IfThen c a) = econsts L c @ sconsts L a"
| "sconsts L (IfElse c a b) = econsts L c @ sconsts L a @ sconsts L b"
| "sconsts L (While c a) = econsts L c @ sconsts L a"
| "sconsts L (For fi c inc a) = (let M = rev (declared fi) @ L in bconsts L fi @ iconsts M c @ iconsts M inc @ sconsts M a)"
| "sconsts L (Block as) = bconsts L as"
| "sconsts L (VarDecl x i) = iconsts L i"
| "sconsts L (Global x i) = Name_Lit x # iconsts L i"
| "bconsts L [] = []"
| "bconsts L (a # as) = sconsts L a @ bconsts (binds a @ L) as"

definition if_code :: "byte list \<Rightarrow> byte list \<Rightarrow> byte list \<Rightarrow> byte list" where
  "if_code c a b = c @ jump_code OP_JUMP_IF_FALSE (length a + 4) @ op_byte OP_POP # a
     @ jump_code OP_JUMP (Suc (length b)) @ op_byte OP_POP # b"

definition while_code :: "byte list \<Rightarrow> byte list \<Rightarrow> byte list" where
  "while_code c a = c @ jump_code OP_JUMP_IF_FALSE (length a + 4) @ op_byte OP_POP # a
     @ jump_code OP_LOOP (length c + length a + 7) @ [op_byte OP_POP]"

text \<open>
  A loop with an optional condition and an optional increment. The increment stands before the body:
  it is jumped over at first, the body ends with a jump back to it, and it ends with one to the condition.
\<close>

definition guard_size :: "nat option \<Rightarrow> nat" where
  "guard_size c = (case c of None \<Rightarrow> 0 | Some n \<Rightarrow> n + 4)"

definition guard_code :: "nat \<Rightarrow> byte list option \<Rightarrow> byte list" where
  "guard_code d c = (case c of None \<Rightarrow> [] | Some x \<Rightarrow> x @ jump_code OP_JUMP_IF_FALSE d @ [op_byte OP_POP])"

definition incr_code :: "nat \<Rightarrow> byte list option \<Rightarrow> byte list" where
  "incr_code g i = (case i of None \<Rightarrow> [] | Some x \<Rightarrow> jump_code OP_JUMP (length x + 4) @ x @ [op_byte OP_POP] @ jump_code OP_LOOP (g + length x + 7))"

definition loop_size :: "nat \<Rightarrow> nat option \<Rightarrow> nat \<Rightarrow> nat" where
  "loop_size g i n = (case i of None \<Rightarrow> g + n + 3 | Some m \<Rightarrow> m + n + 7)"

definition exit_code :: "byte list option \<Rightarrow> byte list" where
  "exit_code c = (if c = None then [] else [op_byte OP_POP])"

definition loop_code :: "byte list option \<Rightarrow> byte list option \<Rightarrow> byte list \<Rightarrow> byte list" where
  "loop_code c i a = (let g = guard_size (map_option length c); x = incr_code g i in
     guard_code (length x + length a + 4) c @ x @ a @ jump_code OP_LOOP (loop_size g (map_option length i) (length a)) @ exit_code c)"

lemma while_is_loop: "while_code c a = loop_code (Some c) None a"
  by (simp add: while_code_def loop_code_def guard_code_def guard_size_def incr_code_def loop_size_def exit_code_def ac_simps)

text \<open>The distances of the jumps in a loop, from the sizes of its parts.\<close>

definition loop_fits :: "nat option \<Rightarrow> nat option \<Rightarrow> nat \<Rightarrow> bool" where
  "loop_fits c i n \<longleftrightarrow> loop_size (guard_size c) i n \<le> 65535 \<and> (case i of None \<Rightarrow> True | Some m \<Rightarrow> m \<le> 251 \<and> guard_size c + m + 7 \<le> 65535)
     \<and> (c = None \<or> (case i of None \<Rightarrow> 0 | Some m \<Rightarrow> m + 7) + n \<le> 251)"

definition icode :: "string list \<Rightarrow> nat \<Rightarrow> cexp option \<Rightarrow> byte list" where
  "icode L k i = (case i of None \<Rightarrow> [op_byte OP_NIL] | Some e \<Rightarrow> ecode L k e)"

text \<open>A block leaves the stack as it found it: one \<^verbatim>\<open>OP_POP\<close> for each of its locals.\<close>

fun scode :: "string list \<Rightarrow> nat \<Rightarrow> cstmt \<Rightarrow> byte list"
  and bcode :: "string list \<Rightarrow> nat \<Rightarrow> cstmt list \<Rightarrow> byte list" where
  "scode L k (Print e) = ecode L k e @ [op_byte OP_PRINT]"
| "scode L k (Expr e) = ecode L k e @ [op_byte OP_POP]"
| "scode L k (IfThen c a) = if_code (ecode L k c) (scode L (k + length (econsts L c)) a) []"
| "scode L k (IfElse c a b) = if_code (ecode L k c) (scode L (k + length (econsts L c)) a)
     (scode L (k + length (econsts L c) + length (sconsts L a)) b)"
| "scode L k (While c a) = while_code (ecode L k c) (scode L (k + length (econsts L c)) a)"
| "scode L k (For fi c inc a) = (let M = rev (declared fi) @ L; k1 = k + length (bconsts L fi); k2 = k1 + length (iconsts M c); k3 = k2 + length (iconsts M inc) in
     bcode L k fi @ loop_code (map_option (ecode M k1) c) (map_option (ecode M k2) inc) (scode M k3 a) @ replicate (length (declared fi)) (op_byte OP_POP))"
| "scode L k (Block as) = bcode L k as @ replicate (length (declared as)) (op_byte OP_POP)"
| "scode L k (VarDecl x i) = icode L k i"
| "scode L k (Global x i) = icode L (Suc k) i @ [op_byte OP_DEFINE_GLOBAL, of_nat k]"
| "bcode L k [] = []"
| "bcode L k (a # as) = scode L k a @ bcode (binds a @ L) (k + length (sconsts L a)) as"

text \<open>A statement that a following \<^verbatim>\<open>else\<close> would belong to.\<close>

fun open_if :: "cstmt \<Rightarrow> bool" where
  "open_if (IfThen c a) = True"
| "open_if (IfElse c a b) = open_if b"
| "open_if (While c a) = open_if a"
| "open_if (For fi c inc a) = open_if a"
| "open_if _ = False"

definition wf_exp :: "cexp \<Rightarrow> bool" where
  "wf_exp e \<longleftrightarrow> fits 1 e \<and> short_jumps e \<and> [] \<notin> set (evars e)"

definition ivars :: "cexp option \<Rightarrow> string list" where
  "ivars i = (case i of None \<Rightarrow> [] | Some e \<Rightarrow> evars e)"

definition wf_init :: "cexp option \<Rightarrow> bool" where
  "wf_init i \<longleftrightarrow> (case i of None \<Rightarrow> True | Some e \<Rightarrow> wf_exp e)"

text \<open>
  Well-formed statements under the locals \<open>L\<close>; \<open>D\<close> are the locals of the innermost block. The distance
  of a forward jump must fit into a byte, that of a backward jump into two; a function has at most 256 locals.
\<close>

fun for_init :: "cstmt list \<Rightarrow> bool" where
  "for_init [] = True"
| "for_init [Expr e] = True"
| "for_init [VarDecl x i] = True"
| "for_init _ = False"

abbreviation esize :: "cexp \<Rightarrow> nat" where
  "esize e \<equiv> length (ecode [] 0 e)"

fun wf_stmt :: "string list \<Rightarrow> cstmt \<Rightarrow> bool"
  and wf_block :: "string list \<Rightarrow> string list \<Rightarrow> cstmt list \<Rightarrow> bool" where
  "wf_stmt L (Print e) = wf_exp e"
| "wf_stmt L (Expr e) = wf_exp e"
| "wf_stmt L (IfThen c a) = (wf_exp c \<and> wf_stmt L a \<and> length (scode [] 0 a) < 252)"
| "wf_stmt L (IfElse c a b) = (wf_exp c \<and> wf_stmt L a \<and> wf_stmt L b \<and> \<not> open_if a
     \<and> length (scode [] 0 a) < 252 \<and> length (scode [] 0 b) < 255)"
| "wf_stmt L (While c a) = (wf_exp c \<and> wf_stmt L a \<and> length (scode [] 0 a) < 252
     \<and> length (ecode [] 0 c) + length (scode [] 0 a) + 7 \<le> 65535)"
| "wf_stmt L (For fi c inc a) = (for_init fi \<and> wf_block [] L fi \<and> wf_init c \<and> wf_init inc \<and> wf_stmt (rev (declared fi) @ L) a
     \<and> loop_fits (map_option esize c) (map_option esize inc) (length (scode [] 0 a)))"
| "wf_stmt L (Block as) = wf_block [] L as"
| "wf_stmt L (VarDecl x i) = False"
| "wf_stmt L (Global x i) = False"
| "wf_block D L [] = True"
| "wf_block D L (a # as) = ((case a of
       VarDecl x i \<Rightarrow> x \<notin> set D \<and> length L < 255 \<and> wf_init i \<and> x \<notin> set (ivars i)
     | _ \<Rightarrow> wf_stmt L a) \<and> wf_block (binds a @ D) (binds a @ L) as)"

lemma length_scode: "length (scode L k a) = length (scode [] 0 a)"
proof -
  have e: "length (ecode L k c) = length (ecode M j c)" for L k M j c using length_ecode [of L k c] length_ecode [of M j c] by simp
  have i: "length (icode L k i) = length (icode M j i)" for L k M j i by (auto simp: icode_def e split: option.splits intro: e)
  have "length (scode L k a) = length (scode M j a)" for L k M j
  proof (induction a arbitrary: L k M j)
    case (Block as)
    have "length (bcode L k bs) = length (bcode M j bs)" if "set bs \<subseteq> set as" for bs
      using that by (induction bs arbitrary: L k M j) (auto intro: arg_cong2 [where f = "(+)"] Block.IH)
    then show ?case by simp
  next
    case (For fi c inc a)
    have "length (bcode L k bs) = length (bcode M j bs)" if "set bs \<subseteq> set fi" for bs
      using that by (induction bs arbitrary: L k M j) (auto intro: arg_cong2 [where f = "(+)"] For.IH(1))
    moreover have "length (loop_code (map_option (ecode L k) c) (map_option (ecode L k') inc) x) = length (loop_code (map_option (ecode M j) c) (map_option (ecode M j') inc) y)"
      if "length x = length y" for L k k' M j j' x y
      using that by (auto simp: loop_code_def guard_code_def incr_code_def exit_code_def jump_code_def Let_def length_ecode [of L] length_ecode [of M] split: option.splits)
    ultimately show ?case using For.IH(2) by (simp add: Let_def)
  qed (auto simp: if_code_def while_code_def jump_code_def e i; metis e i)+
  then show ?thesis .
qed

section \<open>The compiler of a scope\<close>

text \<open>The locals and the depth of the innermost compiler replaced.\<close>

definition rescope :: "Local list \<Rightarrow> int \<Rightarrow> CS \<Rightarrow> CS" where
  "rescope ls d s = put_compiler ((hd (cs_compilers s))\<lparr>cp_locals := ls, cp_scopeDepth := d\<rparr>) s"

lemma rescope_simps [simp]: "cs_vm (rescope ls d s) = cs_vm s" "cs_parser (rescope ls d s) = cs_parser s" "cur (rescope ls d s) = cur s"
  "cur_locals (rescope ls d s) = ls" "depth (rescope ls d s) = d" "rescope ls d (rescope ms e s) = rescope ls d s"
  by (simp_all add: rescope_def put_compiler_def cur_def cur_locals_def depth_def)

lemma rescope_moves: "moves n (rescope ls d s) = rescope ls d (moves n s)"
  by (simp add: rescope_def put_compiler_def moves_def)

lemma rescope_same: "cs_inv s \<Longrightarrow> rescope (cur_locals s) (depth s) s = s"
  by (cases "cs_compilers s") (auto simp: rescope_def put_compiler_def cur_locals_def depth_def cs_inv_def)

lemma ahead_rescope [simp]: "ahead (rescope ls d s) ts = ahead s ts"
  by (simp add: ahead_def)

lemma cs_inv_rescope:
  assumes "cs_inv s" "ls \<noteq> []" "lc_depth (hd ls) = 0" "0 \<le> d" "length ls \<le> BYTE_COUNT"
  shows "cs_inv (rescope ls d s)"
  using assms by (cases "cs_compilers s") (auto simp: cs_inv_def rescope_def put_compiler_def locals_ok_def)

lemma ready_rescope: "ready s \<Longrightarrow> cs_inv (rescope ls d s) \<Longrightarrow> ready (rescope ls d s)"
  by (simp add: ready_def begun_def)

lemma evolves_rescope:
  assumes "evolves s s' n code vals"
  shows "evolves (rescope ls d s) (rescope ls d s') n code vals"
  using assms by (simp add: evolves_def emits_def rescope_moves) (simp add: rescope_def put_compiler_def)

lemma evolves_unscope:
  assumes "evolves (rescope ls d s) s' n code vals" "cs_inv s"
  shows "evolves s (rescope (cur_locals s) (depth s) s') n code vals"
  using evolves_rescope [OF assms(1), of "cur_locals s" "depth s"] rescope_same [OF assms(2)] by simp

text \<open>
  Every local is initialised and belongs to a scope that is open, the one in slot 0 has no name,
  and no error has been reported.
\<close>

definition settled :: "CS \<Rightarrow> bool" where
  "settled s \<longleftrightarrow> (\<forall>l\<in>set (cur_locals s). 0 \<le> lc_depth l \<and> lc_depth l \<le> depth s) \<and> cur_locals s \<noteq> []
     \<and> lex_text (lc_name (hd (cur_locals s))) = [] \<and> \<not> ps_panicMode (cs_parser s)"

lemma settled_moves [simp]: "settled (moves n s) = settled s"
  by (simp add: settled_def depth_def moves_def cur_locals_def)

lemma settled_evolves: "evolves s s' n code vals \<Longrightarrow> ready (moves n s) \<Longrightarrow> settled s' = settled s"
  using settled_moves [of n s] evolves_inv(5-7) [of s s' n code vals] by (simp add: settled_def depth_def)

lemma settled_usable:
  assumes "settled s" "wf_exp e"
  shows "list_all (usable s) (evars e)"
proof -
  let ?m = "rev (map (\<lambda>l. (lex_text (lc_name l), lc_depth l \<noteq> -1)) (tl (cur_locals s)))"
  have "\<forall>l\<in>set (tl (cur_locals s)). lc_depth l \<noteq> -1"
    using assms(1) by (cases "cur_locals s") (auto simp: settled_def)
  then have "map_of ?m x \<noteq> Some False" for x by (auto dest!: map_of_SomeD)
  then show ?thesis using assms by (auto simp: settled_def wf_exp_def usable_in_def list_all_iff)
qed

section \<open>Statements and their tokens\<close>

lemma match_no: "ahead s (t # us) \<Longrightarrow> tk_type t \<noteq> ty \<Longrightarrow> match ty s = Inr (False, s)"
  by (simp add: match_def check_def ahead_current)

lemma match_yes: "ahead s (t # us) \<Longrightarrow> us \<noteq> [] \<Longrightarrow> tk_type t = ty \<Longrightarrow> match ty s = Inr (True, moves 1 s)"
  by (simp add: match_def check_def ahead_current advance_next(1) del: One_nat_def)

lemma consume_yes: "ahead s (t # us) \<Longrightarrow> us \<noteq> [] \<Longrightarrow> tk_type t = ty \<Longrightarrow> consume ty msg s = Inr (moves 1 s)"
  by (simp add: consume_def ahead_current advance_next(1) del: One_nat_def)

definition stmt_source :: "cstmt \<Rightarrow> CS \<Rightarrow> Token list \<Rightarrow> Token \<Rightarrow> Token list \<Rightarrow> bool" where
  "stmt_source a s ts t rest \<longleftrightarrow> cs_inv s \<and> ahead s (ts @ t # rest) \<and> map tok_sketch ts = ssketch a \<and> wf_stmt (names s) a
     \<and> length (cur_consts s) + length (sconsts (names s) a) \<le> 256 \<and> (open_if a \<longrightarrow> tk_type t \<noteq> TOKEN_ELSE) \<and> settled s"

abbreviation stmt_compiles_to :: "cstmt \<Rightarrow> CS \<Rightarrow> Token list \<Rightarrow> CS \<Rightarrow> bool" where
  "stmt_compiles_to a s ts s' \<equiv> evolves s s' (length ts) (scode (names s) (length (cur_consts s)) a) (sconsts (names s) a)"

definition stmt_compiled :: "cstmt \<Rightarrow> bool" where
  "stmt_compiled a \<longleftrightarrow> (\<forall>f s ts t rest. stmt_source a s ts t rest \<longrightarrow> length ts < f
     \<longrightarrow> (\<exists>s'. statement f s = Inr s' \<and> stmt_compiles_to a s ts s'))"

text \<open>Tokens that do not begin a statement, or not one of these.\<close>

definition no_start :: "TokenType set" where
  "no_start = {TOKEN_VAR, TOKEN_FUN, TOKEN_RETURN, TOKEN_ENDOFFILE, TOKEN_ELSE, TOKEN_RIGHT_BRACE}"

lemma ssketch_Cons: "wf_stmt L a \<Longrightarrow> \<exists>ty x us. ssketch a = (ty, x) # us \<and> ty \<notin> no_start"
  using sketch_Cons by (cases a) (force simp: wf_exp_def rule_def no_start_def)+

lemma exp_no_error: "fits q e \<Longrightarrow> (TOKEN_ERROR, x) \<notin> set (sketch e)"
  by (induction e arbitrary: q) auto

lemma stmt_no_error:
  "wf_stmt L a \<Longrightarrow> (TOKEN_ERROR, x) \<notin> set (ssketch a)"
  "wf_block D L as \<Longrightarrow> (TOKEN_ERROR, x) \<notin> set (concat (map ssketch as))"
  by (induction L a and D L as rule: wf_stmt_wf_block.induct)
    (auto simp: wf_exp_def wf_init_def initializer_def clause_def dest: exp_no_error split: option.splits cstmt.splits if_splits)

lemma stmt_tokens:
  assumes "stmt_source a s ts t rest"
  obtains t0 ts0 where "ts = t0 # ts0" "tk_type t0 \<notin> no_start" "ready (moves (length ts) s)"
proof -
  have wf: "wf_stmt (names s) a" using assms by (simp add: stmt_source_def)
  obtain ty x us where sk: "ssketch a = (ty, x) # us" "ty \<notin> no_start" using ssketch_Cons [OF wf] by blast
  then obtain t0 ts0 where ts: "ts = t0 # ts0" "tk_type t0 = ty"
    using assms by (cases ts) (auto simp: stmt_source_def tok_sketch_def)
  have "ready (moves (length ts) s)"
    using assms ts by (intro ready_moves [of s "ts @ t # rest"]) (auto simp: stmt_source_def)
  with that ts sk(2) show thesis by blast
qed

lemma stmt_next:
  assumes "stmt_source a s ts t rest" "evolves s s' (length ts) code vals"
  shows "ready s'" "ahead s' (t # rest)" "length (cur_consts s') = length (cur_consts s) + length vals" "cur_code s' = cur_code s @ code" "cs_inv s'"
    "cs_compilers s' = cs_compilers s" "settled s'"
proof -
  have r: "ready (moves (length ts) s)" by (rule stmt_tokens [OF assms(1)])
  show "ahead s' (t # rest)" by (rule evolves_ahead [OF assms(2) r]) (use assms(1) in \<open>simp add: stmt_source_def\<close>)
  show "ready s'" "length (cur_consts s') = length (cur_consts s) + length vals" "cur_code s' = cur_code s @ code"
    "cs_compilers s' = cs_compilers s" using evolves_inv [OF assms(2) r] by simp_all
  then show "cs_inv s'" by (simp add: ready_def)
  show "settled s'" using settled_evolves [OF assms(2) r] assms(1) by (simp add: stmt_source_def)
qed

lemma expression_then:
  assumes "cs_inv s" "ahead s (te @ c # us)" "us \<noteq> []" "map tok_sketch te = sketch e" "fits 1 e" "short_jumps e" "list_all (usable s) (evars e)"
    "length (cur_consts s) + length (econsts (names s) e) \<le> 256" "level (tk_type c) = 0" "tk_type c \<noteq> TOKEN_EQUAL" "length te < f"
  obtains s' where "expression (prec_parse f) s = Inr s'" "compiles_to e s te s'" "ready s'" "ahead s' (c # us)"
    "ready (moves 1 s')" "evolves s (moves 1 s') (Suc (length te)) (ecode (names s) (length (cur_consts s)) e) (econsts (names s) e)"
    "ahead (moves 1 s') us" "te \<noteq> []" "ready (moves (length te) s)"
proof -
  have src: "source_of e s te c us" using assms by (simp add: source_of_def)
  have te: "te \<noteq> []" using sketch_Cons [of 1 e] assms(4,5) by auto
  obtain s' where s': "expression (prec_parse f) s = Inr s'" "compiles_to e s te s'"
    by (rule expression_code [OF src]) (use assms in simp_all)
  note n = source_next [OF src s'(2) te]
  have r1: "ready (moves 1 s')" by (rule ready_moves [OF n(6,2)]) (use assms(3) in simp_all)
  have "ready (moves (Suc (length te)) s)"
    by (rule ready_moves [OF assms(1,2)]) (use assms(3) in simp_all)
  then have "evolves s (moves 1 s') (Suc (length te)) (ecode (names s) (length (cur_consts s)) e) (econsts (names s) e)"
    using evolves_trans [OF s'(2) evolves_moves [OF r1]] by simp
  with that s' n r1 te advance_next(3) [OF n(2) assms(3)] source_ready [OF src te] show thesis by blast
qed

lemma print_compiled: "stmt_compiled (Print e)"
  unfolding stmt_compiled_def
proof (intro allI impI)
  fix f s ts t rest
  assume src: "stmt_source (Print e) s ts t rest" and fuel: "length ts < f"
  obtain f' where f: "f = Suc f'" using fuel by (cases f) auto
  obtain p te c where ts: "ts = p # te @ [c]" "tk_type p = TOKEN_PRINT" "map tok_sketch te = sketch e" "tk_type c = TOKEN_SEMICOLON"
    using src by (auto simp: stmt_source_def tok_sketch_def map_eq_append_conv map_eq_Cons_conv)
  have a: "cs_inv s" "ahead s (p # te @ c # t # rest)" using src ts by (simp_all add: stmt_source_def)
  have r0: "ready (moves 1 s)" by (rule ready_moves [OF a]) simp_all
  note a1 = advance_next(3) [OF a(2), simplified]
  have us: "list_all (usable s) (evars e)" by (rule settled_usable) (use src in \<open>simp_all add: stmt_source_def\<close>)
  obtain s1 where s1: "expression (prec_parse f') (moves 1 s) = Inr s1" "ahead s1 (c # t # rest)" "ready (moves 1 s1)"
      "evolves (moves 1 s) (moves 1 s1) (Suc (length te)) (ecode (names s) (length (cur_consts s)) e) (econsts (names s) e)"
    by (rule expression_then [of "moves 1 s" te c "t # rest" e f'])
      (use src ts r0 a1 fuel f us in \<open>auto simp: stmt_source_def ready_def rule_def wf_exp_def\<close>)
  obtain s2 where s2: "emit_byte (op_byte OP_PRINT) (moves 1 s1) = Inr s2" "evolves (moves 1 s1) s2 0 [op_byte OP_PRINT] []"
    by (rule emit_byte_emits [OF s1(3)])
  have "consume TOKEN_SEMICOLON ''Expect ';' after value.'' s1 = Inr (moves 1 s1)"
    by (rule consume_yes [OF s1(2)]) (use ts in simp_all)
  moreover have "match TOKEN_PRINT s = Inr (True, moves 1 s)" by (rule match_yes [OF a(2)]) (use ts in simp_all)
  ultimately have "statement f s = Inr s2"
    using s1(1) s2(1) by (simp add: f statement_body_def when_match_def lox_print_statement_def)
  moreover have "ready (moves (length ts) s)" by (rule stmt_tokens [OF src])
  then have "stmt_compiles_to (Print e) s ts s2"
    using evolves_trans [OF evolves_step [OF s1(4)] s2(2)] ts(1) by simp
  ultimately show "\<exists>s'. statement f s = Inr s' \<and> stmt_compiles_to (Print e) s ts s'" by blast
qed

lemma expression_statement_code:
  assumes src: "stmt_source (Expr e) s ts t rest" and fuel: "length ts < Suc f'"
  obtains s' t0 ts0 where "expression_statement (prec_parse f') s = Inr s'" "stmt_compiles_to (Expr e) s ts s'" "ts = t0 # ts0"
    "tk_type t0 \<notin> {TOKEN_VAR, TOKEN_SEMICOLON, TOKEN_PRINT, TOKEN_FOR, TOKEN_IF, TOKEN_WHILE, TOKEN_LEFT_BRACE, TOKEN_RETURN}"
proof -
  obtain te c where ts: "ts = te @ [c]" "map tok_sketch te = sketch e" "tk_type c = TOKEN_SEMICOLON"
    using src by (auto simp: stmt_source_def tok_sketch_def map_eq_append_conv map_eq_Cons_conv)
  have a: "cs_inv s" "ahead s (te @ c # t # rest)" using src ts by (simp_all add: stmt_source_def)
  have us: "list_all (usable s) (evars e)" by (rule settled_usable) (use src in \<open>simp_all add: stmt_source_def\<close>)
  obtain s1 where s1: "expression (prec_parse f') s = Inr s1" "compiles_to e s te s1" "ready s1" "ahead s1 (c # t # rest)" "te \<noteq> []"
      "ready (moves (length te) s)"
    by (rule expression_then [of s te c "t # rest" e f'])
      (use src ts a fuel us in \<open>auto simp: stmt_source_def rule_def wf_exp_def\<close>)
  obtain s2 where s2: "emit_byte (op_byte OP_POP) s1 = Inr s2" "evolves s1 s2 0 [op_byte OP_POP] []"
    by (rule emit_byte_emits [OF s1(3)])
  note i2 = evolves_inv [OF s2(2), simplified, OF s1(3)]
  have a2: "ahead s2 (c # t # rest)" using s1(4) i2(5) by (simp add: ahead_def)
  have r2: "ready (moves 1 s2)" by (rule ready_moves [OF _ a2]) (use i2(1) in \<open>simp_all add: ready_def\<close>)
  have r: "ready (moves (length ts) s)" by (rule stmt_tokens [OF src])
  have "stmt_compiles_to (Expr e) s ts (moves 1 s2)"
    using evolves_trans [OF evolves_trans [OF s1(2) s2(2)] evolves_moves [OF r2]] s1(6) r ts(1) by simp
  moreover have "consume TOKEN_SEMICOLON ''Expect ';' after expression.'' s2 = Inr (moves 1 s2)"
    by (rule consume_yes [OF a2]) (use ts in simp_all)
  moreover obtain t0 te0 where te: "te = t0 # te0" using s1(5) by (cases te) auto
  obtain ty x us where "sketch e = (ty, x) # us" "pr_prefix (parse_rule ty) \<noteq> None"
    using sketch_Cons [of 1 e] src by (auto simp: stmt_source_def wf_exp_def)
  then have "tk_type t0 \<notin> {TOKEN_VAR, TOKEN_SEMICOLON, TOKEN_PRINT, TOKEN_FOR, TOKEN_IF, TOKEN_WHILE, TOKEN_LEFT_BRACE, TOKEN_RETURN}"
    using ts(2) te by (auto simp: tok_sketch_def rule_def)
  ultimately show thesis using that [of "moves 1 s2" t0 "te0 @ [c]"] s1(1) s2(1) te ts(1) by (simp add: expression_statement_def)
qed

lemma expr_compiled: "stmt_compiled (Expr e)"
  unfolding stmt_compiled_def
proof (intro allI impI)
  fix f s ts t rest
  assume src: "stmt_source (Expr e) s ts t rest" and fuel: "length ts < f"
  obtain f' where f: "f = Suc f'" using fuel by (cases f) auto
  obtain s' t0 ts0 where s': "expression_statement (prec_parse f') s = Inr s'" "stmt_compiles_to (Expr e) s ts s'" "ts = t0 # ts0"
      "tk_type t0 \<notin> {TOKEN_VAR, TOKEN_SEMICOLON, TOKEN_PRINT, TOKEN_FOR, TOKEN_IF, TOKEN_WHILE, TOKEN_LEFT_BRACE, TOKEN_RETURN}"
    by (rule expression_statement_code [OF src]) (use fuel f in auto)
  have "ahead s (t0 # ts0 @ t # rest)" using src s'(3) by (simp add: stmt_source_def)
  then have "statement f s = Inr s'"
    using s'(1,4) by (simp add: f statement_body_def when_match_def match_no [of s t0 "ts0 @ t # rest"])
  with s'(2) show "\<exists>s'. statement f s = Inr s' \<and> stmt_compiles_to (Expr e) s ts s'" by blast
qed

section \<open>Branches and loops\<close>

text \<open>A statement behind a conditional jump that is patched later.\<close>

lemma jump_body:
  assumes r: "ready s" "ready (moves n s)"
    and st: "\<And>s2. evolves s s2 0 [op_byte OP_JUMP_IF_FALSE, 0xff, 0xff, op_byte OP_POP] [] \<Longrightarrow> \<exists>s3. st s2 = Inr s3 \<and> evolves s2 s3 n a vals"
  obtains s1 s2 s3 where "emit_jump OP_JUMP_IF_FALSE s = Inr (Suc (length (cur_code s)), s1)"
    "emit_byte (op_byte OP_POP) s1 = Inr s2" "st s2 = Inr s3" "ready s3" "cur_code s3 = cur_code s @ [op_byte OP_JUMP_IF_FALSE, 0xff, 0xff, op_byte OP_POP] @ a"
    "evolves s s3 n ([op_byte OP_JUMP_IF_FALSE, 0xff, 0xff, op_byte OP_POP] @ a) vals"
proof -
  obtain s1 where s1: "emit_jump OP_JUMP_IF_FALSE s = Inr (Suc (length (cur_code s)), s1)" "evolves s s1 0 [op_byte OP_JUMP_IF_FALSE, 0xff, 0xff] []"
    by (rule emit_jump_emits [OF r(1)])
  have r1: "ready s1" by (rule evolves_inv(1) [OF s1(2)]) (use r in simp)
  obtain s2 where s2: "emit_byte (op_byte OP_POP) s1 = Inr s2" "evolves s1 s2 0 [op_byte OP_POP] []"
    by (rule emit_byte_emits [OF r1])
  have e2: "evolves s s2 0 [op_byte OP_JUMP_IF_FALSE, 0xff, 0xff, op_byte OP_POP] []" using evolves_trans [OF s1(2) s2(2)] r(1) by simp
  obtain s3 where s3: "st s2 = Inr s3" "evolves s2 s3 n a vals" using st [OF e2] by blast
  have e3: "evolves s s3 n ([op_byte OP_JUMP_IF_FALSE, 0xff, 0xff, op_byte OP_POP] @ a) vals"
    using evolves_trans [OF e2 s3(2)] r(2) by simp
  with that [OF s1(1) s2(1) s3(1)] evolves_inv [OF e3 r(2)] show thesis by simp
qed

lemma close_jump:
  assumes "evolves s s4 n ([op_byte OP_JUMP_IF_FALSE, 0xff, 0xff, op_byte OP_POP] @ a @ [x, y, z]) vals" "ready (moves n s)" "length a < 252"
  obtains s5 s6 where "patch_jump (Suc (length (cur_code s))) s4 = Inr s5" "emit_byte (op_byte OP_POP) s5 = Inr s6"
    "evolves s s6 n (jump_code OP_JUMP_IF_FALSE (length a + 4) @ op_byte OP_POP # a @ [x, y, z, op_byte OP_POP]) vals"
proof -
  have e4: "evolves s s4 n ([op_byte OP_JUMP_IF_FALSE] @ [0xff, 0xff] @ op_byte OP_POP # a @ [x, y, z]) vals" using assms(1) by simp
  obtain s5 where s5: "patch_jump (Suc (length (cur_code s))) s4 = Inr s5"
    "evolves s s5 n (jump_code OP_JUMP_IF_FALSE (length a + 4) @ op_byte OP_POP # a @ [x, y, z]) vals"
    by (rule patch_jump_emits [OF e4 assms(2), of "Suc (length (cur_code s))"]) (use assms(3) in \<open>auto simp: jump_code_def ac_simps\<close>)
  have r5: "ready s5" by (rule evolves_inv(1) [OF s5(2) assms(2)])
  obtain s6 where s6: "emit_byte (op_byte OP_POP) s5 = Inr s6" "evolves s5 s6 0 [op_byte OP_POP] []"
    by (rule emit_byte_emits [OF r5])
  have "evolves s s6 n (jump_code OP_JUMP_IF_FALSE (length a + 4) @ op_byte OP_POP # a @ [x, y, z, op_byte OP_POP]) vals"
    using evolves_trans [OF s5(2) s6(2)] assms(2) by simp
  with that [OF s5(1) s6(1)] show thesis by simp
qed

lemma emit_loop_emits:
  assumes "ready s" "cur_code s = c @ c'" "loopStart = length c" "length c' + 3 \<le> 65535"
  obtains s' where "emit_loop loopStart s = Inr s'" "evolves s s' 0 (jump_code OP_LOOP (length c' + 3)) []"
proof -
  obtain s1 where s1: "emit_byte (op_byte OP_LOOP) s = Inr s1" "evolves s s1 0 [op_byte OP_LOOP] []" by (rule emit_byte_emits [OF assms(1)])
  note i1 = evolves_inv [OF s1(2), simplified, OF assms(1)]
  have inv: "cs_inv s1" using i1(1) by (simp add: ready_def)
  have count: "code_count s1 = Inr (length c + length c' + 1)"
    using i1(3) assms(2) length_code_of [OF cur_chunk_inv [OF inv]] by (simp add: code_count_Inr [OF inv])
  let ?o = "int (length c' + 3)"
  obtain s2 where s2: "emit_byte (jump_hi ?o) s1 = Inr s2" "evolves s1 s2 0 [jump_hi ?o] []" by (rule emit_byte_emits [OF i1(1)])
  have r2: "ready s2" by (rule evolves_inv(1) [OF s2(2)]) (simp add: i1(1))
  obtain s3 where s3: "emit_byte (jump_lo ?o) s2 = Inr s3" "evolves s2 s3 0 [jump_lo ?o] []" by (rule emit_byte_emits [OF r2])

  have "emit_loop loopStart s = Inr s3"
    using s1(1) count s2(1) s3(1) assms(4) unfolding emit_loop_def by (simp add: Let_def SHORT_MAX_def assms(3) add.commute)
  moreover have "evolves s s3 0 (jump_code OP_LOOP (length c' + 3)) []"
    using evolves_trans [OF evolves_trans [OF s1(2) s2(2)] s3(2)] assms(1) by (simp add: jump_code_def)
  ultimately show thesis using that by blast
qed

text \<open>The condition of an \<^verbatim>\<open>if\<close> or \<^verbatim>\<open>while\<close> with its parentheses.\<close>

lemma condition_code:
  assumes "cs_inv s" "ahead s (i # l # te @ c # us)" "us \<noteq> []" "map tok_sketch te = sketch e" "wf_exp e" "settled s"
    "length (cur_consts s) + length (econsts (names s) e) \<le> 256" "tk_type l = TOKEN_LEFT_PAREN" "tk_type c = TOKEN_RIGHT_PAREN" "length te < f"
  obtains s1 s' where "\<And>msg. consume TOKEN_LEFT_PAREN msg (moves 1 s) = Inr (moves 2 s)" "expression (prec_parse f) (moves 2 s) = Inr s1"
    "\<And>msg. consume TOKEN_RIGHT_PAREN msg s1 = Inr s'"
    "ready s'" "ahead s' us" "evolves s s' (length te + 3) (ecode (names s) (length (cur_consts s)) e) (econsts (names s) e)"
proof -
  have r1: "ready (moves 1 s)" and r2: "ready (moves 1 (moves 1 s))"
    using ready_moves [OF assms(1,2), of 1] ready_moves [OF assms(1,2), of 2] by (simp_all add: numeral_2_eq_2)
  note a1 = advance_next(3) [OF assms(2), simplified] and a2 = advance_next(3) [OF advance_next(3) [OF assms(2), simplified], simplified]
  obtain s1 where s1: "expression (prec_parse f) (moves 2 s) = Inr s1" "ahead s1 (c # us)" "ready (moves 1 s1)"
      "evolves (moves 2 s) (moves 1 s1) (Suc (length te)) (ecode (names s) (length (cur_consts s)) e) (econsts (names s) e)" "ahead (moves 1 s1) us"
    by (rule expression_then [of "moves 2 s" te c us e f])
      (use assms r2 a2 settled_usable [OF assms(6,5)] in \<open>auto simp: ready_def rule_def numeral_2_eq_2 wf_exp_def\<close>)
  show thesis
  proof (rule that)
    show "consume TOKEN_LEFT_PAREN msg (moves 1 s) = Inr (moves 2 s)" for msg
      using consume_yes [OF a1] assms(8) by (simp add: numeral_2_eq_2)
    show "consume TOKEN_RIGHT_PAREN msg s1 = Inr (moves 1 s1)" for msg
      by (rule consume_yes [OF s1(2)]) (use assms in simp_all)
    show "evolves s (moves 1 s1) (length te + 3) (ecode (names s) (length (cur_consts s)) e) (econsts (names s) e)"
      using evolves_step [OF s1(4)] by (simp add: eval_nat_numeral)
  qed (use s1 in simp_all)
qed

lemma then_operand:
  assumes "stmt_compiled a" "ready s" "ahead s (ta @ t # rest)" "map tok_sketch ta = ssketch a" "wf_stmt (names s) a" "settled s"
    "length (cur_consts s) + length (sconsts (names s) a) \<le> 256" "open_if a \<Longrightarrow> tk_type t \<noteq> TOKEN_ELSE" "length ta < f"
    "evolves s s2 0 code []"
  shows "\<exists>s3. statement f s2 = Inr s3 \<and> evolves s2 s3 (length ta) (scode (names s) (length (cur_consts s)) a) (sconsts (names s) a)"
proof -
  note i = evolves_inv [OF assms(10), simplified, OF assms(2)] and st = settled_evolves [OF assms(10), simplified, OF assms(2)]
  have "stmt_source a s2 ta t rest" using assms i st by (auto simp: stmt_source_def ready_def ahead_def)
  then show ?thesis using assms(1,9) i(4,7) by (fastforce simp: stmt_compiled_def)
qed

text \<open>The condition and the jumps around the statement that depends on it, up to the end of the statement.\<close>

lemma guarded_code:
  assumes a: "stmt_compiled a" and inv: "cs_inv s" and ahd: "ahead s (i # l # te @ p # ta @ t # rest)"
    and ty: "tk_type l = TOKEN_LEFT_PAREN" "tk_type p = TOKEN_RIGHT_PAREN"
    and sk: "map tok_sketch te = sketch c" "map tok_sketch ta = ssketch a"
    and wf: "wf_exp c" "wf_stmt (names s) a" "settled s" "open_if a \<Longrightarrow> tk_type t \<noteq> TOKEN_ELSE"
    and room: "length (cur_consts s) + length (econsts (names s) c) + length (sconsts (names s) a) \<le> 256" and fuel: "length te + length ta < f"
  defines "cc \<equiv> ecode (names s) (length (cur_consts s)) c" and "cs \<equiv> scode (names s) (length (cur_consts s) + length (econsts (names s) c)) a"
  obtains s1 s2 s3 s4 s5 where "\<And>msg. consume TOKEN_LEFT_PAREN msg (moves 1 s) = Inr (moves 2 s)" "expression (prec_parse f) (moves 2 s) = Inr s1"
    "\<And>msg. consume TOKEN_RIGHT_PAREN msg s1 = Inr s2"
    "emit_jump OP_JUMP_IF_FALSE s2 = Inr (Suc (length (cur_code s) + length cc), s3)"
    "emit_byte (op_byte OP_POP) s3 = Inr s4" "statement f s4 = Inr s5" "ready s5"
    "cur_code s5 = cur_code s @ cc @ [op_byte OP_JUMP_IF_FALSE, 0xff, 0xff, op_byte OP_POP] @ cs"
    "evolves s s2 (length te + 3) cc (econsts (names s) c)" "ready (moves (length te + 3) s)" "ready (moves (length ta) s2)"
    "evolves s2 s5 (length ta) ([op_byte OP_JUMP_IF_FALSE, 0xff, 0xff, op_byte OP_POP] @ cs) (sconsts (names s) a)"
    "ready (moves (length te + 3 + length ta) s)" "cur_code s2 = cur_code s @ cc"
proof -
  obtain s1 s2 where s1: "\<And>msg. consume TOKEN_LEFT_PAREN msg (moves 1 s) = Inr (moves 2 s)" "expression (prec_parse f) (moves 2 s) = Inr s1"
    "\<And>msg. consume TOKEN_RIGHT_PAREN msg s1 = Inr s2"
    "ready s2" "ahead s2 (ta @ t # rest)" "evolves s s2 (length te + 3) cc (econsts (names s) c)"
    unfolding cc_def by (rule condition_code [OF inv ahd, of c f]) (use assms in auto)
  have r: "ready (moves (length te + 3) s)" and rn: "ready (moves (length te + 3 + length ta) s)"
    by (rule ready_moves [OF inv ahd]; simp)+
  note i2 = evolves_inv [OF s1(6) r]
  have st: "settled s2" using settled_evolves [OF s1(6) r] wf(3) by simp
  have rm: "ready (moves (length ta) s2)" by (rule ready_past [OF s1(4,5)])
  obtain s3 s4 s5 where e: "emit_jump OP_JUMP_IF_FALSE s2 = Inr (Suc (length (cur_code s2)), s3)"
    "emit_byte (op_byte OP_POP) s3 = Inr s4" "statement f s4 = Inr s5" "ready s5"
    "cur_code s5 = cur_code s2 @ [op_byte OP_JUMP_IF_FALSE, 0xff, 0xff, op_byte OP_POP] @ cs"
    "evolves s2 s5 (length ta) ([op_byte OP_JUMP_IF_FALSE, 0xff, 0xff, op_byte OP_POP] @ cs) (sconsts (names s) a)"
    by (rule jump_body [OF s1(4) rm, of "statement f" cs "sconsts (names s) a"])
      (use then_operand [OF a s1(4,5) sk(2)] wf room i2(4,7) fuel st in \<open>auto simp: cs_def\<close>)
  show thesis by (rule that [OF s1(1,2,3) _ e(2,3,4) _ s1(6) r rm e(6) rn]) (use e i2 in simp_all)
qed

text \<open>The code of an \<^verbatim>\<open>if\<close> up to the operand of the jump over the second branch.\<close>

definition if_front :: "byte list \<Rightarrow> byte list \<Rightarrow> byte list" where
  "if_front c a = c @ jump_code OP_JUMP_IF_FALSE (length a + 4) @ op_byte OP_POP # a @ [op_byte OP_JUMP]"

lemma if_code_front: "if_code c a b = if_front c a @ [jump_hi (int (Suc (length b))), jump_lo (int (Suc (length b)))] @ op_byte OP_POP # b"
  by (simp add: if_code_def if_front_def jump_code_def)

lemma if_first_branch:
  assumes a: "stmt_compiled a" and inv: "cs_inv s" and ahd: "ahead s (i # l # te @ p # ta @ t # rest)"
    and ty: "tk_type i = TOKEN_IF" "tk_type l = TOKEN_LEFT_PAREN" "tk_type p = TOKEN_RIGHT_PAREN"
    and sk: "map tok_sketch te = sketch c" "map tok_sketch ta = ssketch a"
    and wf: "wf_exp c" "wf_stmt (names s) a" "settled s" "length (scode [] 0 a) < 252" "open_if a \<Longrightarrow> tk_type t \<noteq> TOKEN_ELSE"
    and room: "length (cur_consts s) + length (econsts (names s) c) + length (sconsts (names s) a) \<le> 256" and fuel: "length te + length ta < f"
  defines "front \<equiv> if_front (ecode (names s) (length (cur_consts s)) c) (scode (names s) (length (cur_consts s) + length (econsts (names s) c)) a)"
  obtains s' where "evolves s s' (length te + length ta + 3) (front @ [0xff, 0xff] @ [op_byte OP_POP]) (econsts (names s) c @ sconsts (names s) a)"
    "ready (moves (length te + length ta + 3) s)"
    "statement (Suc f) s = bind_result (match TOKEN_ELSE s') (\<lambda>(els, s10).
       bind_result (if els then statement f s10 else Inr s10) (patch_jump (length (cur_code s) + length front)))"
proof -
  let ?cc = "ecode (names s) (length (cur_consts s)) c" and ?cs = "scode (names s) (length (cur_consts s) + length (econsts (names s) c)) a"
  obtain s1 s2 s3 s4 s5 where g: "\<And>msg. consume TOKEN_LEFT_PAREN msg (moves 1 s) = Inr (moves 2 s)" "expression (prec_parse f) (moves 2 s) = Inr s1"
    "\<And>msg. consume TOKEN_RIGHT_PAREN msg s1 = Inr s2"
    "emit_jump OP_JUMP_IF_FALSE s2 = Inr (Suc (length (cur_code s) + length ?cc), s3)"
    "emit_byte (op_byte OP_POP) s3 = Inr s4" "statement f s4 = Inr s5" "ready s5"
    "cur_code s5 = cur_code s @ ?cc @ [op_byte OP_JUMP_IF_FALSE, 0xff, 0xff, op_byte OP_POP] @ ?cs"
    "evolves s s2 (length te + 3) ?cc (econsts (names s) c)" "ready (moves (length te + 3) s)" "ready (moves (length ta) s2)"
    "evolves s2 s5 (length ta) ([op_byte OP_JUMP_IF_FALSE, 0xff, 0xff, op_byte OP_POP] @ ?cs) (sconsts (names s) a)"
    "ready (moves (length te + 3 + length ta) s)" "cur_code s2 = cur_code s @ ?cc"
    by (rule guarded_code [OF a inv ahd ty(2,3) sk wf(1,2,3), of f]) (use wf(5) room fuel in auto)
  have len: "length ?cs = length (scode [] 0 a)" by (rule length_scode)
  obtain s6 where s6: "emit_jump OP_JUMP s5 = Inr (Suc (length (cur_code s5)), s6)" "evolves s5 s6 0 [op_byte OP_JUMP, 0xff, 0xff] []"
    by (rule emit_jump_emits [OF g(7)])
  have e6: "evolves s2 s6 (length ta) ([op_byte OP_JUMP_IF_FALSE, 0xff, 0xff, op_byte OP_POP] @ ?cs @ [op_byte OP_JUMP, 0xff, 0xff]) (sconsts (names s) a)"
    using evolves_trans [OF g(12) s6(2)] g(11) by simp
  obtain s7 s8 where s7: "patch_jump (Suc (length (cur_code s2))) s6 = Inr s7" "emit_byte (op_byte OP_POP) s7 = Inr s8"
    "evolves s2 s8 (length ta) (jump_code OP_JUMP_IF_FALSE (length ?cs + 4) @ op_byte OP_POP # ?cs @ [op_byte OP_JUMP, 0xff, 0xff, op_byte OP_POP]) (sconsts (names s) a)"
    by (rule close_jump [OF e6 g(11)]) (use wf(4) len in auto)
  have off: "Suc (length (cur_code s5)) = length (cur_code s) + length front" "Suc (length (cur_code s2)) = Suc (length (cur_code s) + length ?cc)"
    using g(8,14) by (simp_all add: front_def if_front_def jump_code_def)
  have "match TOKEN_PRINT s = Inr (False, s)" "match TOKEN_FOR s = Inr (False, s)" "match TOKEN_IF s = Inr (True, moves 1 s)"
    using match_no [OF ahd] match_yes [OF ahd] ty(1) by simp_all
  then have "statement (Suc f) s = bind_result (match TOKEN_ELSE s8) (\<lambda>(els, s10).
       bind_result (if els then statement f s10 else Inr s10) (patch_jump (length (cur_code s) + length front)))"
    using g(1-6) s6(1) [unfolded off] s7(1) [unfolded off] s7(2) by (simp add: statement_body_def when_match_def if_statement_def)
  moreover have "evolves s s8 (length te + length ta + 3) (front @ [0xff, 0xff] @ [op_byte OP_POP]) (econsts (names s) c @ sconsts (names s) a)"
    using evolves_trans [OF g(9) s7(3)] by (simp add: front_def if_front_def ac_simps)
  ultimately show thesis using that g(13) by (simp add: ac_simps)
qed

lemma if_compiled:
  assumes "stmt_compiled a" shows "stmt_compiled (IfThen c a)"
  unfolding stmt_compiled_def
proof (intro allI impI)
  fix f s ts t rest
  assume src: "stmt_source (IfThen c a) s ts t rest" and fuel: "length ts < f"
  obtain f' where f: "f = Suc f'" using fuel by (cases f) auto
  obtain i l te p ta where ts: "ts = i # l # te @ p # ta" "tk_type i = TOKEN_IF" "tk_type l = TOKEN_LEFT_PAREN"
      "tk_type p = TOKEN_RIGHT_PAREN" "map tok_sketch te = sketch c" "map tok_sketch ta = ssketch a"
    using src by (auto simp: stmt_source_def tok_sketch_def map_eq_append_conv map_eq_Cons_conv)
  have h: "cs_inv s" "ahead s (i # l # te @ p # ta @ t # rest)" "tk_type t \<noteq> TOKEN_ELSE" using src ts by (simp_all add: stmt_source_def)
  let ?front = "if_front (ecode (names s) (length (cur_consts s)) c) (scode (names s) (length (cur_consts s) + length (econsts (names s) c)) a)"
  obtain s1 where s1: "evolves s s1 (length te + length ta + 3) (?front @ [0xff, 0xff] @ [op_byte OP_POP]) (econsts (names s) c @ sconsts (names s) a)"
    "ready (moves (length te + length ta + 3) s)"
    "statement f s = bind_result (match TOKEN_ELSE s1) (\<lambda>(els, s10).
       bind_result (if els then statement f' s10 else Inr s10) (patch_jump (length (cur_code s) + length ?front)))"
    unfolding f by (rule if_first_branch [OF assms h(1,2) ts(2-6), of f']) (use src ts fuel f in \<open>auto simp: stmt_source_def\<close>)
  obtain s2 where s2: "patch_jump (length (cur_code s) + length ?front) s1 = Inr s2"
    "evolves s s2 (length te + length ta + 3) (?front @ [jump_hi (int (length [op_byte OP_POP])), jump_lo (int (length [op_byte OP_POP]))]
       @ [op_byte OP_POP]) (econsts (names s) c @ sconsts (names s) a)"
    by (rule patch_jump_emits [OF s1(1,2) refl]) simp
  have "ahead s1 (t # rest)"
    using evolves_ahead [of s s1 ts] s1(1,2) src ts(1) by (simp add: stmt_source_def eval_nat_numeral)
  then have "statement f s = Inr s2" using s1(3) s2(1) match_no [OF _ h(3)] by simp
  moreover have "stmt_compiles_to (IfThen c a) s ts s2" using s2(2) ts(1) by (simp add: if_code_front eval_nat_numeral)
  ultimately show "\<exists>s'. statement f s = Inr s' \<and> stmt_compiles_to (IfThen c a) s ts s'" by blast
qed

lemma if_else_compiled:
  assumes "stmt_compiled a" "stmt_compiled b" shows "stmt_compiled (IfElse c a b)"
  unfolding stmt_compiled_def
proof (intro allI impI)
  fix f s ts t rest
  assume src: "stmt_source (IfElse c a b) s ts t rest" and fuel: "length ts < f"
  obtain f' where f: "f = Suc f'" using fuel by (cases f) auto
  obtain i l te p ta el tb where ts: "ts = i # l # te @ p # ta @ el # tb" "tk_type i = TOKEN_IF" "tk_type l = TOKEN_LEFT_PAREN"
      "tk_type p = TOKEN_RIGHT_PAREN" "map tok_sketch te = sketch c" "map tok_sketch ta = ssketch a" "tk_type el = TOKEN_ELSE"
      "map tok_sketch tb = ssketch b"
    using src by (auto simp: stmt_source_def tok_sketch_def map_eq_append_conv map_eq_Cons_conv append_eq_map_conv Cons_eq_map_conv)
  have h: "cs_inv s" "ahead s (i # l # te @ p # ta @ el # tb @ t # rest)" "wf_stmt (names s) (IfElse c a b)"
    using src ts by (simp_all add: stmt_source_def)
  let ?k = "length (cur_consts s) + length (econsts (names s) c)"
  let ?front = "if_front (ecode (names s) (length (cur_consts s)) c) (scode (names s) ?k a)" and ?b = "scode (names s) (?k + length (sconsts (names s) a)) b"
  obtain s1 where s1: "evolves s s1 (length te + length ta + 3) (?front @ [0xff, 0xff] @ [op_byte OP_POP]) (econsts (names s) c @ sconsts (names s) a)"
    "ready (moves (length te + length ta + 3) s)"
    "statement f s = bind_result (match TOKEN_ELSE s1) (\<lambda>(els, s10).
       bind_result (if els then statement f' s10 else Inr s10) (patch_jump (length (cur_code s) + length ?front)))"
    unfolding f by (rule if_first_branch [OF assms(1) h(1,2) ts(2-6), of f']) (use src ts fuel f in \<open>auto simp: stmt_source_def\<close>)
  note i1 = evolves_inv [OF s1(1,2)]
  have st: "settled s1" using settled_evolves [OF s1(1,2)] src by (simp add: stmt_source_def)
  have a1: "ahead s1 (el # tb @ t # rest)"
    using evolves_ahead [of s s1 "i # l # te @ p # ta"] s1(1,2) h(2) by (simp add: eval_nat_numeral)
  note a2 = advance_next(3) [OF a1, simplified]
  have m: "match TOKEN_ELSE s1 = Inr (True, moves 1 s1)" by (rule match_yes [OF a1]) (use ts(7) in simp_all)
  have inv1: "cs_inv s1" using i1(1) by (simp add: ready_def)
  have r2: "ready (moves 1 s1)" by (rule ready_moves [OF inv1 a1]) simp_all
  have srcb: "stmt_source b (moves 1 s1) tb t rest"
    using src ts a2 r2 i1(4,7) st by (auto simp: stmt_source_def ready_def)
  obtain s2 where s2: "statement f' (moves 1 s1) = Inr s2" "evolves (moves 1 s1) s2 (length tb) ?b (sconsts (names s) b)"
    using assms(2) [unfolded stmt_compiled_def, rule_format, OF srcb, of f'] fuel f ts(1) i1(4,7) by (auto simp: add.assoc)
  have rts: "ready (moves (length ts) s)" by (rule stmt_tokens [OF src])
  have "evolves s s2 (length ts) ((?front @ [0xff, 0xff] @ [op_byte OP_POP]) @ ?b) ((econsts (names s) c @ sconsts (names s) a) @ sconsts (names s) b)"
    using evolves_trans [OF s1(1) evolves_step [OF s2(2)]] rts ts(1) by (simp add: eval_nat_numeral add.assoc)
  then have e2: "evolves s s2 (length ts) (?front @ [0xff, 0xff] @ op_byte OP_POP # ?b) (econsts (names s) c @ sconsts (names s) a @ sconsts (names s) b)" by simp
  obtain s3 where s3: "patch_jump (length (cur_code s) + length ?front) s2 = Inr s3"
    "evolves s s3 (length ts) (?front @ [jump_hi (int (length (op_byte OP_POP # ?b))), jump_lo (int (length (op_byte OP_POP # ?b)))]
       @ op_byte OP_POP # ?b) (econsts (names s) c @ sconsts (names s) a @ sconsts (names s) b)"
    by (rule patch_jump_emits [OF e2 rts refl]) (use h(3) length_scode [of "names s" "?k + length (sconsts (names s) a)" b] in simp)
  have "statement f s = Inr s3" using s1(3) m s2(1) s3(1) by simp
  moreover have "stmt_compiles_to (IfElse c a b) s ts s3" using s3(2) by (simp add: if_code_front)
  ultimately show "\<exists>s'. statement f s = Inr s' \<and> stmt_compiles_to (IfElse c a b) s ts s'" by blast
qed

lemma while_compiled:
  assumes "stmt_compiled a" shows "stmt_compiled (While c a)"
  unfolding stmt_compiled_def
proof (intro allI impI)
  fix f s ts t rest
  assume src: "stmt_source (While c a) s ts t rest" and fuel: "length ts < f"
  obtain f' where f: "f = Suc f'" using fuel by (cases f) auto
  obtain i l te p ta where ts: "ts = i # l # te @ p # ta" "tk_type i = TOKEN_WHILE" "tk_type l = TOKEN_LEFT_PAREN"
      "tk_type p = TOKEN_RIGHT_PAREN" "map tok_sketch te = sketch c" "map tok_sketch ta = ssketch a"
    using src by (auto simp: stmt_source_def tok_sketch_def map_eq_append_conv map_eq_Cons_conv)
  have h: "cs_inv s" "ahead s (i # l # te @ p # ta @ t # rest)" "wf_stmt (names s) (While c a)" using src ts by (simp_all add: stmt_source_def)
  let ?cc = "ecode (names s) (length (cur_consts s)) c" and ?cs = "scode (names s) (length (cur_consts s) + length (econsts (names s) c)) a"
  obtain s1 s2 s3 s4 s5 where g: "\<And>msg. consume TOKEN_LEFT_PAREN msg (moves 1 s) = Inr (moves 2 s)" "expression (prec_parse f') (moves 2 s) = Inr s1"
    "\<And>msg. consume TOKEN_RIGHT_PAREN msg s1 = Inr s2"
    "emit_jump OP_JUMP_IF_FALSE s2 = Inr (Suc (length (cur_code s) + length ?cc), s3)"
    "emit_byte (op_byte OP_POP) s3 = Inr s4" "statement f' s4 = Inr s5" "ready s5"
    "cur_code s5 = cur_code s @ ?cc @ [op_byte OP_JUMP_IF_FALSE, 0xff, 0xff, op_byte OP_POP] @ ?cs"
    "evolves s s2 (length te + 3) ?cc (econsts (names s) c)" "ready (moves (length te + 3) s)" "ready (moves (length ta) s2)"
    "evolves s2 s5 (length ta) ([op_byte OP_JUMP_IF_FALSE, 0xff, 0xff, op_byte OP_POP] @ ?cs) (sconsts (names s) a)"
    "ready (moves (length te + 3 + length ta) s)" "cur_code s2 = cur_code s @ ?cc"
    by (rule guarded_code [OF assms h(1,2) ts(3-6), of f']) (use src ts fuel f in \<open>auto simp: stmt_source_def\<close>)
  let ?d = "length ?cc + length ?cs + 7"
  have len: "length ?cs = length (scode [] 0 a)" "length ?cc = length (ecode [] 0 c)" by (rule length_scode, rule length_ecode)
  have d: "length (?cc @ [op_byte OP_JUMP_IF_FALSE, 0xff, 0xff, op_byte OP_POP] @ ?cs) + 3 = ?d" by simp
  obtain s6 where s6: "emit_loop (length (cur_code s)) s5 = Inr s6" "evolves s5 s6 0 (jump_code OP_LOOP ?d) []"
    by (rule emit_loop_emits [OF g(7,8) refl, unfolded d]) (use h(3) len in auto)
  have e6: "evolves s2 s6 (length ta) ([op_byte OP_JUMP_IF_FALSE, 0xff, 0xff, op_byte OP_POP] @ ?cs @ [op_byte OP_LOOP, jump_hi (int ?d), jump_lo (int ?d)]) (sconsts (names s) a)"
    using evolves_trans [OF g(12) s6(2)] g(11) by (simp add: jump_code_def)
  obtain s7 s8 where s7: "patch_jump (Suc (length (cur_code s2))) s6 = Inr s7" "emit_byte (op_byte OP_POP) s7 = Inr s8"
    "evolves s2 s8 (length ta) (jump_code OP_JUMP_IF_FALSE (length ?cs + 4) @ op_byte OP_POP # ?cs
       @ [op_byte OP_LOOP, jump_hi (int ?d), jump_lo (int ?d), op_byte OP_POP]) (sconsts (names s) a)"
    by (rule close_jump [OF e6 g(11)]) (use h(3) len in auto)
  have inv1: "cs_inv (moves 1 s)" using ready_moves [OF h(1,2), of 1] by (simp add: ready_def)
  have count: "code_count (moves 1 s) = Inr (length (cur_code s))"
    using length_code_of [OF cur_chunk_inv [OF inv1]] code_count_Inr [OF inv1] by simp
  have "match TOKEN_PRINT s = Inr (False, s)" "match TOKEN_FOR s = Inr (False, s)" "match TOKEN_IF s = Inr (False, s)"
      "match TOKEN_WHILE s = Inr (True, moves 1 s)"
    using match_no [OF h(2)] match_yes [OF h(2)] ts(2) by simp_all
  then have "statement f s = Inr s8"
    using g(1-6,14) s6(1) s7(1,2) count by (simp add: f statement_body_def when_match_def while_statement_def)
  moreover have "stmt_compiles_to (While c a) s ts s8"
    using evolves_trans [OF g(9) s7(3)] ts(1) by (simp add: while_code_def jump_code_def eval_nat_numeral ac_simps)
  ultimately show "\<exists>s'. statement f s = Inr s' \<and> stmt_compiles_to (While c a) s ts s'" by blast
qed

section \<open>Blocks\<close>

abbreviation local_text :: "Local \<Rightarrow> string" where
  "local_text l \<equiv> lex_text (lc_name l)"

lemma names_of_append: "ls \<noteq> [] \<Longrightarrow> names_of (ls @ ms) = rev (map local_text ms) @ names_of ls"
  by (simp add: names_of_def)

lemma locals_inv:
  assumes "cs_inv s"
  shows "cur_locals s \<noteq> []" "lc_depth (hd (cur_locals s)) = 0" "0 \<le> depth s" "length (cur_locals s) \<le> BYTE_COUNT"
    "length (cur_locals s) = Suc (length (names s))"
proof -
  have "locals_ok (hd (cs_compilers s))" using assms by (auto simp: cs_inv_def)
  then show "cur_locals s \<noteq> []" "lc_depth (hd (cur_locals s)) = 0" "0 \<le> depth s" "length (cur_locals s) \<le> BYTE_COUNT"
    by (auto simp: locals_ok_def cur_locals_def depth_def)
  then show "length (cur_locals s) = Suc (length (names s))" by (cases "cur_locals s") (auto simp: names_of_def)
qed

lemma cs_inv_more:
  assumes "cs_inv s" "length (cur_locals s @ ms) \<le> BYTE_COUNT" "0 \<le> d"
  shows "cs_inv (rescope (cur_locals s @ ms) d s)"
  using assms locals_inv [OF assms(1)] by (intro cs_inv_rescope) auto

text \<open>The innermost scope is a block, and \<open>D\<close> are the names declared in it.\<close>

definition in_block :: "string list \<Rightarrow> CS \<Rightarrow> bool" where
  "in_block D s \<longleftrightarrow> settled s \<and> 0 < depth s \<and> (\<forall>l\<in>set (cur_locals s). lc_depth l = depth s \<longrightarrow> local_text l \<in> set D)"

lemma in_block_moves [simp]: "in_block D (moves n s) = in_block D s"
  by (simp add: in_block_def depth_def)

lemma declare_fresh:
  assumes "\<forall>l\<in>set (cp_locals c). lc_depth l \<noteq> -1 \<and> lc_depth l \<le> cp_scopeDepth c \<and> (lc_depth l = cp_scopeDepth c \<longrightarrow> \<not> identifier_equal t (lc_name l))"
  shows "i \<le> length (cp_locals c) \<Longrightarrow> declare_loop i c t s = Inr s"
proof (induction i)
  case (Suc i)
  then have "cp_locals c ! i \<in> set (cp_locals c)" by simp
  with Suc assms show ?case by (fastforce simp: Let_def)
qed simp

text \<open>\<^verbatim>\<open>variable_parse\<close> adds an uninitialised local, \<^verbatim>\<open>variable_define\<close> initialises it.\<close>

lemma variable_parse_local:
  assumes "cs_inv s" "ahead s (n # us)" "us \<noteq> []" "tk_type n = TOKEN_IDENTIFIER" "tk_lexeme n = Some x" "in_block D s" "x \<notin> set D"
    "length (names s) < 255"
  shows "variable_parse msg s = Inr (0, rescope (cur_locals s @ [\<lparr>lc_name = n, lc_depth = -1\<rparr>]) (depth s) (moves 1 s))"
proof -
  have r1: "ready (moves 1 s)" by (rule ready_moves [OF assms(1,2)]) (use assms(3) in simp_all)
  have inv1: "cs_inv (moves 1 s)" using r1 by (simp add: ready_def)
  note l = locals_inv [OF assms(1)]
  let ?c = "hd (cs_compilers s)"
  have c: "current_compiler (moves 1 s) = Inr ?c" using current_compiler_Inr [OF inv1] by simp
  have "declare_loop (length (cp_locals ?c)) ?c n (moves 1 s) = Inr (moves 1 s)"
    by (rule declare_fresh)
      (use assms(5-7) in \<open>auto simp: in_block_def settled_def depth_def cur_locals_def identifier_equal_text\<close>)
  then have "variable_declare (moves 1 s) = Inr (rescope (cur_locals s @ [\<lparr>lc_name = n, lc_depth = -1\<rparr>]) (depth s) (moves 1 s))"
    using c advance_next(2) [OF assms(2,3)] assms(6,8) l(5)
    by (simp add: variable_declare_def variable_local_add_def in_block_def depth_def cur_locals_def rescope_def put_compiler_def BYTE_COUNT_def)
  then show ?thesis
    using consume_yes [OF assms(2-4)] assms(6)
    by (simp add: variable_parse_def current_compiler_def rescope_def put_compiler_def in_block_def depth_def)
qed

lemma variable_define_local:
  assumes "cs_inv s" "0 < depth s" "cur_locals s = ls @ [l]"
  shows "variable_define g s = Inr (rescope (ls @ [l\<lparr>lc_depth := depth s\<rparr>]) (depth s) s)"
  using assms current_compiler_Inr [OF assms(1)]
  by (simp add: variable_define_def variable_initialize_def depth_def cur_locals_def rescope_def put_compiler_def Let_def list_update_append nth_append)

definition item_source :: "string list \<Rightarrow> cstmt \<Rightarrow> CS \<Rightarrow> Token list \<Rightarrow> Token \<Rightarrow> Token list \<Rightarrow> bool" where
  "item_source D a s ts t rest \<longleftrightarrow> cs_inv s \<and> ahead s (ts @ t # rest) \<and> map tok_sketch ts = ssketch a \<and> wf_block D (names s) [a]
     \<and> length (cur_consts s) + length (sconsts (names s) a) \<le> 256 \<and> (open_if a \<longrightarrow> tk_type t \<noteq> TOKEN_ELSE) \<and> in_block D s"

text \<open>The state after an item of a block: its locals are in scope.\<close>

definition item_compiles_to :: "cstmt list \<Rightarrow> CS \<Rightarrow> nat \<Rightarrow> CS \<Rightarrow> bool" where
  "item_compiles_to as s n s' \<longleftrightarrow> (\<exists>ms. evolves (rescope (cur_locals s @ ms) (depth s) s) s' n (bcode (names s) (length (cur_consts s)) as) (bconsts (names s) as)
     \<and> map local_text ms = declared as \<and> (\<forall>l\<in>set ms. lc_depth l = depth s) \<and> length (cur_locals s @ ms) \<le> BYTE_COUNT)"

lemma stmt_item:
  assumes "stmt_compiled a" "stmt_source a s ts t rest" "length ts < f"
  obtains s' where "lox_declaration (Suc f) s = Inr s'" "stmt_compiles_to a s ts s'"
proof -
  obtain s' where s': "statement f s = Inr s'" "stmt_compiles_to a s ts s'"
    using assms(1) [unfolded stmt_compiled_def, rule_format, OF assms(2,3)] by blast
  obtain t0 ts0 where t0: "ts = t0 # ts0" "tk_type t0 \<noteq> TOKEN_VAR" "tk_type t0 \<noteq> TOKEN_FUN"
    by (rule stmt_tokens [OF assms(2)]) (auto simp: no_start_def)
  then have "ahead s (t0 # ts0 @ t # rest)" using assms(2) by (simp add: stmt_source_def)
  note m = match_no [OF this t0(2)] match_no [OF this t0(3)]
  have "\<not> ps_panicMode (cs_parser s')" using stmt_next(7) [OF assms(2) s'(2)] by (simp add: settled_def)
  then have "lox_declaration (Suc f) s = Inr s'"
    using s'(1) m by (simp add: declaration_body_def when_match_def)
  with that s'(2) show thesis by blast
qed

text \<open>The optional initializer, or \<^verbatim>\<open>OP_NIL\<close>, and the semicolon.\<close>

lemma initializer_code:
  assumes "cs_inv s" "ahead s (ti @ c # us)" "us \<noteq> []" "map tok_sketch ti = initializer i" "tk_type c = TOKEN_SEMICOLON"
    "wf_init i" "list_all (usable s) (ivars i)" "length (cur_consts s) + length (iconsts (names s) i) \<le> 256"
    "length ti < f" "ready s"
  obtains s1 s2 s3 b where "match TOKEN_EQUAL s = Inr (b, s1)" "(if b then expression (prec_parse f) s1 else emit_byte (op_byte OP_NIL) s1) = Inr s2"
    "\<And>msg. consume TOKEN_SEMICOLON msg s2 = Inr s3" "ready s3"
    "evolves s s3 (Suc (length ti)) (icode (names s) (length (cur_consts s)) i) (iconsts (names s) i)"
proof (cases i)
  case None
  then have ti: "ti = []" using assms(4) by (simp add: initializer_def)
  have a: "ahead s (c # us)" using assms(2) ti by simp
  obtain s2 where s2: "emit_byte (op_byte OP_NIL) s = Inr s2" "evolves s s2 0 [op_byte OP_NIL] []" by (rule emit_byte_emits [OF assms(10)])
  note i2 = evolves_inv [OF s2(2), simplified, OF assms(10)]
  have a2: "ahead s2 (c # us)" using a i2(5) by (simp add: ahead_def)
  have r3: "ready (moves 1 s2)" by (rule ready_moves [OF _ a2]) (use i2(1) assms(3) in \<open>simp_all add: ready_def\<close>)
  have rs: "ready (moves 1 s)" by (rule ready_moves [OF assms(1) a]) (use assms(3) in simp_all)
  have "match TOKEN_EQUAL s = Inr (False, s)" by (rule match_no [OF a]) (simp add: assms(5))
  moreover have "consume TOKEN_SEMICOLON msg s2 = Inr (moves 1 s2)" for msg by (rule consume_yes [OF a2 assms(3,5)])
  moreover have "evolves s (moves 1 s2) 1 [op_byte OP_NIL] []"
    using evolves_trans [OF s2(2) evolves_moves [OF r3]] rs by simp
  ultimately show thesis using that [of False s s2 "moves 1 s2"] s2(1) r3 None ti by (simp add: icode_def iconsts_def)
next
  case (Some e)
  then obtain q te where ti: "ti = q # te" "tk_type q = TOKEN_EQUAL" "map tok_sketch te = sketch e"
    using assms(4) by (auto simp: initializer_def map_eq_Cons_conv tok_sketch_def)
  have a: "ahead s (q # te @ c # us)" using assms(2) ti by simp
  have m: "match TOKEN_EQUAL s = Inr (True, moves 1 s)" by (rule match_yes [OF a]) (use ti in simp_all)
  note a1 = advance_next(3) [OF a, simplified]
  have r1: "ready (moves 1 s)" by (rule ready_moves [OF assms(1) a]) simp_all
  obtain s2 where s2: "expression (prec_parse f) (moves 1 s) = Inr s2" "ahead s2 (c # us)" "ready (moves 1 s2)"
      "evolves (moves 1 s) (moves 1 s2) (Suc (length te)) (ecode (names s) (length (cur_consts s)) e) (econsts (names s) e)"
    by (rule expression_then [of "moves 1 s" te c us e f])
      (use assms ti a1 r1 Some in \<open>auto simp: ready_def rule_def wf_init_def wf_exp_def ivars_def iconsts_def\<close>)
  have "consume TOKEN_SEMICOLON msg s2 = Inr (moves 1 s2)" for msg by (rule consume_yes [OF s2(2) assms(3,5)])
  moreover have "evolves s (moves 1 s2) (Suc (length ti)) (ecode (names s) (length (cur_consts s)) e) (econsts (names s) e)"
    using evolves_step [OF s2(4)] ti(1) by simp
  ultimately show thesis using that [of True "moves 1 s" s2 "moves 1 s2"] m s2(1,3) Some by (simp add: icode_def iconsts_def)
qed

text \<open>A declaration inside a block leaves one more local.\<close>

lemma local_declaration:
  assumes inv: "cs_inv s" and ahd: "ahead s (n # ti @ c # us)" "us \<noteq> []"
    and ty: "tk_type n = TOKEN_IDENTIFIER" "tk_lexeme n = Some x" "map tok_sketch ti = initializer i" "tk_type c = TOKEN_SEMICOLON"
    and blk: "in_block D s" "x \<notin> set D" "length (names s) < 255" and wf: "wf_init i" "x \<notin> set (ivars i)"
    and room: "length (cur_consts s) + length (iconsts (names s) i) \<le> 256" and fuel: "length ti < f"
  obtains s' l where "var_declaration (prec_parse f) s = Inr s'" "local_text l = x" "lc_depth l = depth s" "length (cur_locals s @ [l]) \<le> BYTE_COUNT"
    "evolves (rescope (cur_locals s @ [l]) (depth s) s) s' (length ti + 2) (icode (names s) (length (cur_consts s)) i) (iconsts (names s) i)"
proof -
  have r1: "ready (moves 1 s)" by (rule ready_moves [OF inv ahd(1)]) simp_all
  have a1: "ahead (moves 1 s) (ti @ c # us)" using advance_next(3) [OF ahd(1)] by simp
  note l = locals_inv [OF inv]
  let ?ls = "\<lambda>d. cur_locals s @ [\<lparr>lc_name = n, lc_depth = d\<rparr>]"
  have len: "length (?ls d) \<le> BYTE_COUNT" for d using l(5) blk(3) by (simp add: BYTE_COUNT_def)
  let ?s2 = "rescope (?ls (-1)) (depth s) (moves 1 s)"
  have inv2: "cs_inv (rescope (?ls d) (depth s) (moves 1 s))" for d
    using cs_inv_more [of "moves 1 s" "[\<lparr>lc_name = n, lc_depth = d\<rparr>]" "depth s"] r1 len l(3) by (simp add: ready_def)
  have vp: "variable_parse msg s = Inr (0, ?s2)" for msg
    by (rule variable_parse_local [OF inv ahd(1) _ ty(1,2) blk]) simp
  have nm: "names ?s2 = x # names s" using ty(2) l(1) by (simp add: names_of_append)
  have us: "list_all (usable ?s2) (ivars i)"
  proof -
    have "list_all (usable s) (ivars i)"
      using settled_usable [of s] wf(1) blk(1) by (auto simp: in_block_def ivars_def wf_init_def split: option.splits)
    moreover have "usable ?s2 y" if "usable s y" "y \<noteq> x" for y
      using that ty(2) l(1) by (auto simp: usable_in_def)
    ultimately show ?thesis using wf(2) by (auto simp: list_all_iff)
  qed
  have code: "icode (names ?s2) k i = icode (names s) k i" "iconsts (names ?s2) i = iconsts (names s) i" for k
    unfolding nm using wf(2) by (auto simp: icode_def iconsts_def ivars_def ecode_fresh econsts_fresh split: option.splits)
  obtain s3 s4 s5 b where s3: "match TOKEN_EQUAL ?s2 = Inr (b, s3)"
      "(if b then expression (prec_parse f) s3 else emit_byte (op_byte OP_NIL) s3) = Inr s4"
      "\<And>msg. consume TOKEN_SEMICOLON msg s4 = Inr s5" "ready s5"
      "evolves ?s2 s5 (Suc (length ti)) (icode (names s) (length (cur_consts s)) i) (iconsts (names s) i)"
  proof (rule initializer_code [of ?s2 ti c us i f])
    show "ready ?s2" by (rule ready_rescope [OF r1 inv2])
    show "length (cur_consts ?s2) + length (iconsts (names ?s2) i) \<le> 256" unfolding code using room by simp
  qed (use inv2 a1 ty ahd(2) us wf(1) fuel code that in auto)
  have r2': "ready (moves (Suc (length ti)) ?s2)"
    by (rule ready_moves [OF inv2, of _ "ti @ c # us"]) (use a1 ahd(2) in simp_all)
  have i5: "cs_compilers s5 = cs_compilers ?s2" using evolves_inv(6) [OF s3(5) r2'] by simp
  have s5: "cur_locals s5 = ?ls (-1)" "depth s5 = depth s"
    using arg_cong [OF i5, of "\<lambda>x. cp_locals (hd x)"] arg_cong [OF i5, of "\<lambda>x. cp_scopeDepth (hd x)"]
    by (simp_all add: rescope_def put_compiler_def cur_locals_def depth_def)
  have "variable_define 0 s5 = Inr (rescope (?ls (depth s)) (depth s) s5)"
    using variable_define_local [of s5 "cur_locals s" "\<lparr>lc_name = n, lc_depth = -1\<rparr>" 0] s3(4) s5 blk by (simp add: ready_def in_block_def)
  then have "var_declaration (prec_parse f) s = Inr (rescope (?ls (depth s)) (depth s) s5)"
    using vp s3(1-3) by (simp add: var_declaration_def)
  moreover have "evolves (rescope (?ls (depth s)) (depth s) s) (rescope (?ls (depth s)) (depth s) s5) (length ti + 2)
      (icode (names s) (length (cur_consts s)) i) (iconsts (names s) i)"
    using evolves_step [OF evolves_rescope [OF s3(5), of "?ls (depth s)" "depth s", simplified, folded rescope_moves]] by simp
  ultimately show thesis using that len ty(2) by force
qed

lemma local_item:
  assumes "item_source D (VarDecl x i) s ts t rest" "length ts < f"
  obtains s' where "match TOKEN_VAR s = Inr (True, moves 1 s)" "var_declaration (prec_parse f) (moves 1 s) = Inr s'"
    "item_compiles_to [VarDecl x i] s (length ts) s'" "\<not> ps_panicMode (cs_parser s')"
proof -
  obtain v n ti c where ts: "ts = v # n # ti @ [c]" "tk_type v = TOKEN_VAR" "tk_type n = TOKEN_IDENTIFIER" "tk_lexeme n = Some x"
      "map tok_sketch ti = initializer i" "tk_type c = TOKEN_SEMICOLON"
    using assms(1) by (auto simp: item_source_def tok_sketch_def map_eq_append_conv map_eq_Cons_conv split: if_splits)
  have inv: "cs_inv s" and ahd: "ahead s (v # n # ti @ c # t # rest)" and blk: "in_block D s"
    using assms(1) ts(1) by (auto simp: item_source_def)
  have r1: "ready (moves 1 s)" by (rule ready_moves [OF inv ahd]) simp_all
  have a1: "ahead (moves 1 s) (n # ti @ c # t # rest)" using advance_next(3) [OF ahd] by simp
  obtain s' l where s': "var_declaration (prec_parse f) (moves 1 s) = Inr s'" "local_text l = x" "lc_depth l = depth s" "length (cur_locals s @ [l]) \<le> BYTE_COUNT"
      "evolves (rescope (cur_locals s @ [l]) (depth s) (moves 1 s)) s' (length ti + 2) (icode (names s) (length (cur_consts s)) i) (iconsts (names s) i)"
    using local_declaration [OF _ a1 _ ts(3-6), of D f] r1 assms ts(1) by (auto simp: item_source_def ready_def depth_def)
  have inv': "cs_inv (rescope (cur_locals s @ [l]) (depth s) (moves 1 s))"
    using cs_inv_more [of "moves 1 s" "[l]" "depth s"] r1 s'(4) locals_inv(3) [OF inv] by (simp add: ready_def)
  have "ready (moves (length ti + 2) (rescope (cur_locals s @ [l]) (depth s) (moves 1 s)))"
    by (rule ready_moves [OF inv', of "n # ti @ c # t # rest"]) (use a1 in simp_all)
  then have "\<not> ps_panicMode (cs_parser s')" using evolves_inv(5) [OF s'(5)] blk by (simp add: in_block_def settled_def moves_def)
  moreover have "match TOKEN_VAR s = Inr (True, moves 1 s)" by (rule match_yes [OF ahd]) (use ts in simp_all)
  moreover have "evolves (rescope (cur_locals s @ [l]) (depth s) s) s' (length ts) (icode (names s) (length (cur_consts s)) i) (iconsts (names s) i)"
    using evolves_step [of 1 "rescope (cur_locals s @ [l]) (depth s) s", OF s'(5) [folded rescope_moves]] ts(1) by simp
  ultimately show thesis using that s'(1-4) by (force simp: item_compiles_to_def declared_def)
qed

lemma stmt_as_item:
  assumes "stmt_compiles_to a s ts s'" "cs_inv s" "binds a = []"
  shows "item_compiles_to [a] s (length ts) s'"
  unfolding item_compiles_to_def using assms rescope_same [OF assms(2)] locals_inv(4) [OF assms(2)]
  by (intro exI [of _ "[]"]) (simp add: declared_def)

lemma item_code:
  assumes "stmt_compiled a" "item_source D a s ts t rest" "length ts < f"
  obtains s' where "lox_declaration (Suc f) s = Inr s'" "item_compiles_to [a] s (length ts) s'"
proof (cases "\<exists>x i. a = VarDecl x i")
  case True
  then obtain x i where "item_source D (VarDecl x i) s ts t rest" "a = VarDecl x i" using assms(2) by auto
  then obtain s' where "match TOKEN_VAR s = Inr (True, moves 1 s)" "var_declaration (prec_parse f) (moves 1 s) = Inr s'"
    "item_compiles_to [a] s (length ts) s'" "\<not> ps_panicMode (cs_parser s')" using local_item [OF _ assms(3)] by metis
  then show thesis using that by (simp add: declaration_body_def when_match_def)
next
  case False
  then have wf: "wf_stmt (names s) a" "binds a = []" using assms(2) by (cases a; auto simp: item_source_def)+
  then have "stmt_source a s ts t rest" using assms(2) by (auto simp: item_source_def stmt_source_def in_block_def)
  then obtain s' where s': "lox_declaration (Suc f) s = Inr s'" "stmt_compiles_to a s ts s'" using stmt_item [OF assms(1) _ assms(3)] by metis
  have "cs_inv s" using assms(2) by (simp add: item_source_def)
  from stmt_as_item [OF s'(2) this wf(2)] s'(1) that show thesis by blast
qed

text \<open>What an item leaves: the compiler inside the same block, with the names it declared.\<close>

lemma item_next:
  assumes "item_compiles_to as s (length ts) s'" "cs_inv s" "ahead s (ts @ t # rest)" "in_block D s" "ts \<noteq> []"
  shows "cs_inv s'" "ready s'" "ahead s' (t # rest)" "in_block (rev (declared as) @ D) s'" "names s' = rev (declared as) @ names s" "depth s' = depth s"
    "length (cur_consts s') = length (cur_consts s) + length (bconsts (names s) as)"
proof -
  obtain ms where ms: "evolves (rescope (cur_locals s @ ms) (depth s) s) s' (length ts) (bcode (names s) (length (cur_consts s)) as) (bconsts (names s) as)"
     "map local_text ms = declared as" "\<forall>l\<in>set ms. lc_depth l = depth s" "length (cur_locals s @ ms) \<le> BYTE_COUNT"
    using assms(1) by (auto simp: item_compiles_to_def)
  note l = locals_inv [OF assms(2)]
  let ?s = "rescope (cur_locals s @ ms) (depth s) s"
  have inv: "cs_inv ?s" by (rule cs_inv_more [OF assms(2) ms(4) l(3)])
  have r: "ready (moves (length ts) ?s)" by (rule ready_moves [OF inv, of "ts @ t # rest"]) (use assms(3,5) in simp_all)
  note i = evolves_inv [OF ms(1) r]
  show "ready s'" "cs_inv s'" using i(1) by (simp_all add: ready_def)
  show "ahead s' (t # rest)" by (rule evolves_ahead [OF ms(1) r]) (use assms(3) in simp)
  have loc: "cur_locals s' = cur_locals s @ ms" using i(7) by simp
  show dep: "depth s' = depth s" using arg_cong [OF i(6), of "\<lambda>x. cp_scopeDepth (hd x)"] by (simp add: depth_def rescope_def put_compiler_def)
  show "names s' = rev (declared as) @ names s" using loc ms(2) l(1) by (simp add: names_of_append)
  show "length (cur_consts s') = length (cur_consts s) + length (bconsts (names s) as)" using i(4) by simp
  have panic: "ps_panicMode (cs_parser s') = ps_panicMode (cs_parser s)" using i(5) by (simp add: moves_def)
  have "local_text ` set ms = set (declared as)" using arg_cong [OF ms(2), of set] by simp
  then show "in_block (rev (declared as) @ D) s'"
    using assms(4) loc dep panic ms(3) by (auto simp: in_block_def settled_def)
qed

lemma item_trans:
  assumes "item_compiles_to as s (length ts) s1" "item_compiles_to bs s1 m s2" "cs_inv s" "ahead s (ts @ us @ t # rest)" "in_block D s"
    "ts \<noteq> []" "length us = m"
  shows "item_compiles_to (as @ bs) s (length ts + m) s2"
proof -
  obtain t' rest' where tl: "us @ t # rest = t' # rest'" by (cases us) auto
  have ahd: "ahead s (ts @ t' # rest')" using assms(4) tl by simp
  note n = item_next [OF assms(1,3) ahd assms(5,6)]
  obtain ms where ms: "evolves (rescope (cur_locals s @ ms) (depth s) s) s1 (length ts) (bcode (names s) (length (cur_consts s)) as) (bconsts (names s) as)"
     "map local_text ms = declared as" "\<forall>l\<in>set ms. lc_depth l = depth s" "length (cur_locals s @ ms) \<le> BYTE_COUNT"
    using assms(1) by (auto simp: item_compiles_to_def)
  obtain ks where ks: "evolves (rescope (cur_locals s1 @ ks) (depth s1) s1) s2 m (bcode (names s1) (length (cur_consts s1)) bs) (bconsts (names s1) bs)"
     "map local_text ks = declared bs" "\<forall>l\<in>set ks. lc_depth l = depth s1" "length (cur_locals s1 @ ks) \<le> BYTE_COUNT"
    using assms(2) by (auto simp: item_compiles_to_def)
  note l = locals_inv [OF assms(3)]
  have inv: "cs_inv (rescope (cur_locals s @ ms) (depth s) s)" by (rule cs_inv_more [OF assms(3) ms(4) l(3)])
  have r: "ready (moves (length ts) (rescope (cur_locals s @ ms) (depth s) s))"
    by (rule ready_moves [OF inv, of "ts @ t' # rest'"]) (use assms(6) ahd in simp_all)
  have loc: "cur_locals s1 = cur_locals s @ ms" using evolves_inv(7) [OF ms(1) r] by simp
  let ?ls = "cur_locals s @ ms @ ks"
  have inv': "cs_inv (rescope ?ls (depth s) s)" by (rule cs_inv_more [OF assms(3) _ l(3)]) (use ks(4) loc in simp)
  have r': "ready (moves (length ts + m) (rescope ?ls (depth s) s))"
    by (rule ready_moves [OF inv', of "ts @ us @ t # rest"]) (use assms(4,6,7) in simp_all)
  have bc: "bconsts L (as @ bs) = bconsts L as @ bconsts (rev (declared as) @ L) bs" for L
  proof (induction as arbitrary: L)
    case (Cons a as)
    have "rev (binds a) = binds a" by (cases a) auto
    with Cons show ?case by (simp add: declared_def)
  qed (simp add: declared_def)
  have "evolves (rescope ?ls (depth s) s) (rescope ?ls (depth s) s1) (length ts) (bcode (names s) (length (cur_consts s)) as) (bconsts (names s) as)"
    using evolves_rescope [OF ms(1), of ?ls "depth s"] by simp
  moreover have "evolves (rescope ?ls (depth s) s1) s2 m (bcode (names s1) (length (cur_consts s1)) bs) (bconsts (names s1) bs)"
    using ks(1) loc n(6) by simp
  ultimately have "evolves (rescope ?ls (depth s) s) s2 (length ts + m)
      (bcode (names s) (length (cur_consts s)) as @ bcode (names s1) (length (cur_consts s1)) bs) (bconsts (names s) as @ bconsts (names s1) bs)"
    by (rule evolves_trans)
  moreover have "bcode L k (as @ bs) = bcode L k as @ bcode (rev (declared as) @ L) (k + length (bconsts L as)) bs" for L k
  proof (induction as arbitrary: L k)
    case (Cons a as)
    have "rev (binds a) = binds a" by (cases a) auto
    with Cons show ?case by (simp add: declared_def add.assoc)
  qed (simp add: declared_def)
  ultimately show ?thesis
    unfolding item_compiles_to_def bc using ms ks loc n(5-7)
    by (intro exI [of _ "ms @ ks"]) (auto simp: declared_def)
qed

lemma block_loop_code:
  assumes "\<forall>a\<in>set as. stmt_compiled a" "cs_inv s" "ahead s (ts @ t # rest)" "map tok_sketch ts = concat (map ssketch as)"
    "wf_block D (names s) as" "length (cur_consts s) + length (bconsts (names s) as) \<le> 256" "in_block D s" "tk_type t = TOKEN_RIGHT_BRACE"
    "length ts < g" "length ts < f"
  shows "\<exists>s'. block_loop g (lox_declaration (Suc f)) s = Inr s' \<and> item_compiles_to as s (length ts) s' \<and> ahead s' (t # rest) \<and> cs_inv s'"
  using assms
proof (induction as arbitrary: s ts g D)
  case Nil
  then obtain g' where g: "g = Suc g'" by (cases g) auto
  have a: "ahead s (t # rest)" and ts: "ts = []" using Nil by auto
  have "evolves s s 0 [] []" using Nil.prems(2) by (simp add: evolves_def emits_here)
  then have "item_compiles_to [] s 0 s"
    unfolding item_compiles_to_def using rescope_same [OF Nil.prems(2)] locals_inv(4) [OF Nil.prems(2)]
    by (intro exI [of _ "[]"]) (simp add: declared_def)
  then show ?case using a ts ahead_current [OF a] Nil.prems(2,8) by (simp add: g check_def)
next
  case (Cons a as)
  obtain g' where g: "g = Suc g'" using Cons.prems(9) by (cases g) auto
  obtain ta tb where ts: "ts = ta @ tb" "map tok_sketch ta = ssketch a" "map tok_sketch tb = concat (map ssketch as)"
    using Cons.prems(4) by (auto simp: map_eq_append_conv)
  obtain t' rest' where tl: "tb @ t # rest = t' # rest'" by (cases tb) auto
  have first: "\<exists>ty x us. ssketch b = (ty, x) # us \<and> ty \<notin> {TOKEN_ELSE, TOKEN_RIGHT_BRACE, TOKEN_ENDOFFILE}"
    if "wf_block D L (b # bs)" for D L b bs
    using that ssketch_Cons [of L b] by (cases b) (auto simp: no_start_def)
  have els: "tk_type t' \<noteq> TOKEN_ELSE"
  proof (cases as)
    case (Cons b bs)
    then have "wf_block (binds a @ D) (binds a @ names s) (b # bs)" using Cons.prems(5) by simp
    from first [OF this] obtain ty x us where "ssketch b = (ty, x) # us" "ty \<noteq> TOKEN_ELSE" by auto
    then show ?thesis using ts(3) tl Cons by (cases tb) (auto simp: tok_sketch_def)
  qed (use ts(3) tl Cons.prems(8) in auto)
  have src: "item_source D a s ta t' rest'"
    using Cons.prems(2-7) ts tl els by (auto simp: item_source_def)
  obtain s1 where s1: "lox_declaration (Suc f) s = Inr s1" "item_compiles_to [a] s (length ta) s1"
    by (rule item_code [OF _ src, of f]) (use Cons.prems(1,10) ts in auto)
  obtain ty x us where sk: "ssketch a = (ty, x) # us" "ty \<notin> {TOKEN_RIGHT_BRACE, TOKEN_ENDOFFILE}" using first Cons.prems(5) by blast
  then obtain t0 ta0 where ta: "ta = t0 # ta0" "tk_type t0 = ty" using ts(2) by (cases ta) (auto simp: tok_sketch_def)
  have ahd: "ahead s (ta @ t' # rest')" and cur0: "ahead s (t0 # ta0 @ t' # rest')" using Cons.prems(3) ts tl ta by simp_all
  have [simp]: "declared [a] = binds a" "rev (binds a) = binds a" by (simp add: declared_def, cases a) auto
  note n = item_next [OF s1(2) Cons.prems(2) ahd Cons.prems(7), simplified]
  obtain s2 where s2: "block_loop g' (lox_declaration (Suc f)) s1 = Inr s2" "item_compiles_to as s1 (length tb) s2" "ahead s2 (t # rest)" "cs_inv s2"
    using Cons.IH [of s1 tb "binds a @ D" g'] Cons.prems ts n ta tl g by (auto simp del: lox_declaration.simps)
  have "item_compiles_to ([a] @ as) s (length ta + length tb) s2"
    by (rule item_trans [OF s1(2) s2(2) Cons.prems(2) _ Cons.prems(7), of tb t rest]) (use Cons.prems(3) ts ta in simp_all)
  moreover have "block_loop g (lox_declaration (Suc f)) s = Inr s2"
    using s1(1) s2(1) ahead_current [OF cur0] sk(2) ta(2) by (simp add: g check_def del: lox_declaration.simps)
  ultimately show ?case using s2(3,4) ts(1) by (auto simp del: lox_declaration.simps)
qed

lemma scope_end_loop_code:
  assumes "ready s" "cur_locals s = ls @ ms" "ls \<noteq> []" "lc_depth (hd ls) = 0" "lc_depth (last ls) \<le> depth s" "\<forall>l\<in>set ms. depth s < lc_depth l" "length ms < n"
  shows "\<exists>s'. scope_end_loop n s = Inr s' \<and> evolves (rescope ls (depth s) s) s' 0 (replicate (length ms) (op_byte OP_POP)) []"
  using assms
proof (induction ms arbitrary: s n rule: rev_induct)
  case Nil
  then obtain n' where n: "n = Suc n'" by (cases n) auto
  have inv: "cs_inv s" using Nil.prems(1) by (simp add: ready_def)
  have "rescope ls (depth s) s = s" using rescope_same [OF inv] Nil.prems(2) by simp
  then show ?case
    using Nil.prems current_compiler_Inr [OF inv] emits_here [OF inv] by (simp add: n cur_locals_def depth_def evolves_def)
next
  case (snoc m ms)
  then obtain n' where n: "n = Suc n'" "length ms < n'" by (cases n) auto
  have inv: "cs_inv s" using snoc.prems(1) by (simp add: ready_def)
  let ?c = "hd (cs_compilers s)" and ?d = "depth s"
  obtain s1 where s1: "emit_byte (op_byte OP_POP) s = Inr s1" "evolves s s1 0 [op_byte OP_POP] []" by (rule emit_byte_emits [OF snoc.prems(1)])
  note i1 = evolves_inv [OF s1(2), simplified, OF snoc.prems(1)]
  let ?s1 = "rescope (ls @ ms) ?d s1"
  have put: "put_compiler (?c\<lparr>cp_locals := butlast (cp_locals ?c)\<rparr>) s1 = ?s1"
    using snoc.prems(2) i1(6) by (simp add: rescope_def put_compiler_def cur_locals_def depth_def butlast_append)
  have inv1: "cs_inv s1" using i1(1) by (simp add: ready_def)
  note l = locals_inv [OF inv]
  have len: "length (ls @ ms) \<le> BYTE_COUNT" "length ls \<le> BYTE_COUNT" using l(4) snoc.prems(2) by auto
  have r1: "ready ?s1" by (rule ready_rescope [OF i1(1) cs_inv_rescope [OF inv1]]) (use snoc.prems(3,4) l(3) len in auto)
  obtain s2 where s2: "scope_end_loop n' ?s1 = Inr s2" "evolves (rescope ls ?d s1) s2 0 (replicate (length ms) (op_byte OP_POP)) []"
    using snoc.IH [OF r1, of n'] snoc.prems n(2) by auto
  have "scope_end_loop n s = Inr s2"
    using current_compiler_Inr [OF inv] snoc.prems(2,6) s1(1) s2(1) put by (simp add: n(1) cur_locals_def depth_def)
  moreover have "ready (rescope ls ?d s)"
    by (rule ready_rescope [OF snoc.prems(1) cs_inv_rescope [OF inv]]) (use snoc.prems(3,4) l(3) len in auto)
  then have "evolves (rescope ls ?d s) s2 0 ([op_byte OP_POP] @ replicate (length ms) (op_byte OP_POP)) []"
    using evolves_trans [OF evolves_rescope [OF s1(2), of ls ?d] s2(2)] by simp
  ultimately show ?case by auto
qed

lemma scope_end_code:
  assumes "ready s2" "cur_locals s2 = cur_locals s @ ms" "depth s2 = depth s + 1" "\<forall>l\<in>set ms. lc_depth l = depth s + 1" "cs_inv s" "settled s"
  obtains s4 where "scope_end s2 = Inr s4" "evolves (rescope (cur_locals s) (depth s) s2) s4 0 (replicate (length ms) (op_byte OP_POP)) []"
proof -
  note l = locals_inv [OF assms(5)]
  have inv2: "cs_inv s2" using assms(1) by (simp add: ready_def)
  let ?d = "depth s" and ?c = "hd (cs_compilers s2)" and ?s3 = "rescope (cur_locals s @ ms) (depth s) s2"
  have len: "length (cp_locals ?c) = length (cur_locals s @ ms)" using assms(2) by (simp add: cur_locals_def)
  have "?c\<lparr>cp_scopeDepth := cp_scopeDepth ?c - 1\<rparr> = ?c\<lparr>cp_locals := cur_locals s @ ms, cp_scopeDepth := ?d\<rparr>"
    using assms(2,3) by (cases ?c) (simp add: cur_locals_def depth_def)
  then have s3: "put_compiler (?c\<lparr>cp_scopeDepth := cp_scopeDepth ?c - 1\<rparr>) s2 = ?s3" by (simp add: rescope_def)
  have "ready ?s3" by (rule ready_rescope [OF assms(1) cs_inv_rescope [OF inv2]]) (use l locals_inv(4) [OF inv2] assms(2) in auto)
  then obtain s4 where s4: "scope_end_loop (Suc (length (cur_locals s @ ms))) ?s3 = Inr s4"
      "evolves (rescope (cur_locals s) ?d ?s3) s4 0 (replicate (length ms) (op_byte OP_POP)) []"
    using scope_end_loop_code [of ?s3 "cur_locals s" ms "Suc (length (cur_locals s @ ms))"] l(1,2) assms(4,6) by (auto simp: settled_def)
  have "scope_end s2 = Inr s4"
    using current_compiler_Inr [OF inv2] s4(1) s3 len by (simp add: scope_end_def del: scope_end_loop.simps)
  with that s4(2) show thesis by simp
qed

lemma block_compiled:
  assumes "\<And>a. a \<in> set as \<Longrightarrow> stmt_compiled a" shows "stmt_compiled (Block as)"
  unfolding stmt_compiled_def
proof (intro allI impI)
  fix f s ts t rest
  assume src: "stmt_source (Block as) s ts t rest" and fuel: "length ts < f"
  obtain o1 tb o2 where ts: "ts = o1 # tb @ [o2]" "tk_type o1 = TOKEN_LEFT_BRACE" "map tok_sketch tb = concat (map ssketch as)" "tk_type o2 = TOKEN_RIGHT_BRACE"
    using src by (auto simp: stmt_source_def tok_sketch_def map_eq_append_conv map_eq_Cons_conv)
  obtain f' where f: "f = Suc (Suc f')" "length tb < f'" using fuel ts(1) by (cases f; cases "f - 1") auto
  have inv: "cs_inv s" and ahd: "ahead s (o1 # tb @ o2 # t # rest)" and st: "settled s" using src ts by (simp_all add: stmt_source_def)
  have r1: "ready (moves 1 s)" by (rule ready_moves [OF inv ahd]) simp_all
  have a1: "ahead (moves 1 s) (tb @ o2 # t # rest)" using advance_next(3) [OF ahd] by simp
  note l = locals_inv [OF inv]
  let ?d = "depth s" and ?s1 = "rescope (cur_locals s) (depth s + 1) (moves 1 s)"
  have inv1: "cs_inv ?s1" by (rule cs_inv_rescope) (use r1 l in \<open>auto simp: ready_def\<close>)
  have blk: "in_block [] ?s1" using st l(3) by (force simp: in_block_def settled_def moves_def)
  have begin_: "scope_begin (moves 1 s) = Inr ?s1"
    using current_compiler_Inr [of "moves 1 s"] r1 by (simp add: scope_begin_def ready_def rescope_def cur_locals_def depth_def)
  obtain s2 where s2: "block_loop (Suc f') (lox_declaration (Suc f')) ?s1 = Inr s2" "item_compiles_to as ?s1 (length tb) s2"
      "ahead s2 (o2 # t # rest)" "cs_inv s2"
    using block_loop_code [of as ?s1 tb o2 "t # rest" "[]" "Suc f'" f'] assms inv1 a1 ts src blk f(2) by (auto simp: stmt_source_def)
  obtain ms where ms: "evolves (rescope (cur_locals s @ ms) (?d + 1) (moves 1 s)) s2 (length tb) (bcode (names s) (length (cur_consts s)) as) (bconsts (names s) as)"
     "map local_text ms = declared as" "\<forall>l\<in>set ms. lc_depth l = ?d + 1" "length (cur_locals s @ ms) \<le> BYTE_COUNT"
    using s2(2) by (auto simp: item_compiles_to_def)
  have r3: "ready (moves 1 s2)" by (rule ready_moves [OF s2(4,3)]) simp_all
  have inv1': "cs_inv (rescope (cur_locals s @ ms) (?d + 1) (moves 1 s))"
    using cs_inv_more [of "moves 1 s" ms "?d + 1"] r1 ms(4) l(3) by (simp add: ready_def)
  have ev: "cs_compilers s2 = cs_compilers (rescope (cur_locals s @ ms) (?d + 1) (moves 1 s))"
  proof (cases "tb = []")
    case True
    then show ?thesis using ms(1) by (auto simp: evolves_def emits_def)
  next
    case False
    have "ready (moves (length tb) (rescope (cur_locals s @ ms) (?d + 1) (moves 1 s)))"
      by (rule ready_moves [OF inv1', of "tb @ o2 # t # rest"]) (use a1 False in simp_all)
    then show ?thesis by (rule evolves_inv(6) [OF ms(1)])
  qed
  have loc: "cur_locals s2 = cur_locals s @ ms" "depth s2 = ?d + 1" using ev by (simp_all add: cur_locals_def depth_def rescope_def put_compiler_def)
  obtain s4 where s4: "scope_end (moves 1 s2) = Inr s4"
      "evolves (rescope (cur_locals s) ?d (moves 1 s2)) s4 0 (replicate (length ms) (op_byte OP_POP)) []"
    by (rule scope_end_code [OF r3, of s ms]) (use loc ms(3) inv st in \<open>simp_all add: depth_def\<close>)
  note s4(1)
  moreover have "consume TOKEN_RIGHT_BRACE msg s2 = Inr (moves 1 s2)" for msg by (rule consume_yes [OF s2(3)]) (use ts in simp_all)
  moreover have "match TOKEN_LEFT_BRACE s = Inr (True, moves 1 s)" by (rule match_yes [OF ahd]) (use ts in simp_all)
  ultimately have "statement f s = Inr s4"
    using begin_ s2(1) match_no [OF ahd] ts(2)
    by (simp add: f(1) statement_body_def when_match_def block_scope_def block_statement_def del: lox_declaration.simps block_loop.simps)
  moreover have "stmt_compiles_to (Block as) s ts s4"
  proof -
    have "evolves (moves 1 s) (rescope (cur_locals s) ?d s2) (length tb) (bcode (names s) (length (cur_consts s)) as) (bconsts (names s) as)"
      using evolves_rescope [OF ms(1), of "cur_locals s" ?d] rescope_same [of "moves 1 s"] r1 by (simp add: ready_def depth_def)
    then have e1: "evolves s (rescope (cur_locals s) ?d s2) (1 + length tb) (bcode (names s) (length (cur_consts s)) as) (bconsts (names s) as)"
      by (rule evolves_step)
    have e2: "evolves (rescope (cur_locals s) ?d s2) s4 1 (replicate (length ms) (op_byte OP_POP)) []"
      using evolves_step [of 1 "rescope (cur_locals s) ?d s2" s4 0] s4(2) by (simp add: rescope_moves)
    have r: "ready (moves (length ts) s)" by (rule stmt_tokens [OF src])
    have "length (declared as) = length ms" using arg_cong [OF ms(2), of length] by simp
    then show ?thesis using evolves_trans [OF e1 e2] r ts(1) by simp
  qed
  ultimately show "\<exists>s'. statement f s = Inr s' \<and> stmt_compiles_to (Block as) s ts s'" by blast
qed

section \<open>For loops\<close>

lemma for_initializer_code:
  assumes inv: "cs_inv s" and ahd: "ahead s (ti @ t # rest)" and sk: "map tok_sketch ti = (if fi = [] then [(TOKEN_SEMICOLON, None)] else concat (map ssketch fi))"
    and wf: "for_init fi" "wf_block [] (names s) fi" "in_block [] s" and room: "length (cur_consts s) + length (bconsts (names s) fi) \<le> 256" and fuel: "length ti < f"
  obtains s' where "for_initializer (prec_parse f) s = Inr s'" "item_compiles_to fi s (length ti) s'" "ti \<noteq> []"
  using wf(1)
proof (cases fi rule: for_init.cases)
  case 1
  then obtain c where ti: "ti = [c]" "tk_type c = TOKEN_SEMICOLON" using sk by (auto simp: tok_sketch_def)
  have a: "ahead s (c # t # rest)" using ahd ti by simp
  have r: "ready (moves 1 s)" by (rule ready_moves [OF inv a]) simp_all
  have "item_compiles_to [] s 1 (moves 1 s)"
    unfolding item_compiles_to_def using rescope_same [OF inv] locals_inv(4) [OF inv] evolves_moves [OF r]
    by (intro exI [of _ "[]"]) (simp add: declared_def)
  then show thesis using that [of "moves 1 s"] match_no [OF a, of TOKEN_VAR] match_yes [OF a, of TOKEN_SEMICOLON] ti 1 by (simp add: for_initializer_def)
next
  case (2 e)
  have src: "stmt_source (Expr e) s ti t rest" using assms 2 by (auto simp: stmt_source_def in_block_def)
  obtain s' t0 ts0 where s': "expression_statement (prec_parse f) s = Inr s'" "stmt_compiles_to (Expr e) s ti s'" "ti = t0 # ts0"
      "tk_type t0 \<notin> {TOKEN_VAR, TOKEN_SEMICOLON, TOKEN_PRINT, TOKEN_FOR, TOKEN_IF, TOKEN_WHILE, TOKEN_LEFT_BRACE, TOKEN_RETURN}"
    by (rule expression_statement_code [OF src, of f]) (use fuel in auto)
  have "ahead s (t0 # ts0 @ t # rest)" using ahd s'(3) by simp
  note m = match_no [OF this]
  have "item_compiles_to [Expr e] s (length ti) s'" by (rule stmt_as_item [OF s'(2) inv]) simp
  then show thesis using that [of s'] m s'(1,3,4) 2 by (simp add: for_initializer_def)
next
  case (3 x i)
  have "item_source [] (VarDecl x i) s ti t rest" using assms 3 by (simp add: item_source_def)
  then obtain s' where "match TOKEN_VAR s = Inr (True, moves 1 s)" "var_declaration (prec_parse f) (moves 1 s) = Inr s'"
    "item_compiles_to [VarDecl x i] s (length ti) s'" using local_item [OF _ fuel] by metis
  then show thesis using that [of s'] 3 sk by (auto simp: for_initializer_def)
qed simp_all

lemma clause_first:
  assumes "map tok_sketch te = sketch e" "wf_exp e"
  obtains t0 te0 where "te = t0 # te0" "tk_type t0 \<notin> {TOKEN_SEMICOLON, TOKEN_RIGHT_PAREN}"
proof -
  obtain ty x us where "sketch e = (ty, x) # us" "pr_prefix (parse_rule ty) \<noteq> None"
    using sketch_Cons [of 1 e] assms(2) by (auto simp: wf_exp_def)
  moreover from this obtain t0 te0 where "te = t0 # te0" "tk_type t0 = ty" using assms(1) by (cases te) (auto simp: tok_sketch_def)
  moreover have "pr_prefix (parse_rule TOKEN_SEMICOLON) = None" "pr_prefix (parse_rule TOKEN_RIGHT_PAREN) = None" by (simp_all add: rule_def)
  ultimately show thesis using that [of t0 te0] by force
qed

text \<open>The optional condition; the operand of its jump is patched after the body.\<close>

lemma for_condition_code:
  assumes "cs_inv s" "ahead s (tc @ c # us)" "us \<noteq> []" "map tok_sketch tc = clause e" "tk_type c = TOKEN_SEMICOLON" "wf_init e" "settled s"
    "length (cur_consts s) + length (iconsts (names s) e) \<le> 256" "length tc < f"
  defines "cc \<equiv> map_option (ecode (names s) (length (cur_consts s))) e"
  obtains s' where "for_condition (prec_parse f) s = Inr (map_option (\<lambda>x. Suc (length (cur_code s) + length x)) cc, s')" "ready s'" "ahead s' us"
    "evolves s s' (Suc (length tc)) (case cc of None \<Rightarrow> [] | Some x \<Rightarrow> x @ [op_byte OP_JUMP_IF_FALSE, 0xff, 0xff, op_byte OP_POP]) (iconsts (names s) e)"
proof (cases e)
  case None
  then have a: "ahead s (c # us)" "tc = []" using assms(2,4) by (simp_all add: clause_def)
  have r: "ready (moves 1 s)" by (rule ready_moves [OF assms(1) a(1)]) (use assms(3) in simp_all)
  show thesis
    using that [of "moves 1 s"] match_yes [OF a(1) assms(3,5)] r advance_next(3) [OF a(1) assms(3)] evolves_moves [OF r] None a(2)
    by (simp add: for_condition_def cc_def iconsts_def)
next
  case (Some x)
  let ?x = "ecode (names s) (length (cur_consts s)) x"
  have te: "map tok_sketch tc = sketch x" "wf_exp x" using assms(4,6) Some by (simp_all add: clause_def wf_init_def)
  obtain t0 te0 where t0: "tc = t0 # te0" "tk_type t0 \<notin> {TOKEN_SEMICOLON, TOKEN_RIGHT_PAREN}" by (rule clause_first [OF te])
  have "ahead s (t0 # te0 @ c # us)" using assms(2) t0 by simp
  then have m: "match TOKEN_SEMICOLON s = Inr (False, s)" using match_no t0(2) by simp
  obtain s1 where s1: "expression (prec_parse f) s = Inr s1" "ahead s1 (c # us)" "ready (moves 1 s1)"
      "evolves s (moves 1 s1) (Suc (length tc)) ?x (econsts (names s) x)" "ahead (moves 1 s1) us"
    by (rule expression_then [of s tc c us x f])
      (use assms te settled_usable [OF assms(7) te(2)] Some in \<open>auto simp: rule_def wf_exp_def iconsts_def\<close>)
  have r: "ready (moves (Suc (length tc)) s)" by (rule ready_moves [OF assms(1,2)]) (use assms(3) in simp_all)
  note i1 = evolves_inv [OF s1(4) r]
  obtain s2 where s2: "emit_jump OP_JUMP_IF_FALSE (moves 1 s1) = Inr (Suc (length (cur_code (moves 1 s1))), s2)"
      "evolves (moves 1 s1) s2 0 [op_byte OP_JUMP_IF_FALSE, 0xff, 0xff] []" by (rule emit_jump_emits [OF s1(3)])
  have r2: "ready s2" by (rule evolves_inv(1) [OF s2(2)]) (use s1(3) in simp)
  obtain s3 where s3: "emit_byte (op_byte OP_POP) s2 = Inr s3" "evolves s2 s3 0 [op_byte OP_POP] []" by (rule emit_byte_emits [OF r2])
  note i3 = evolves_inv [OF evolves_trans [OF s2(2) s3(2)], simplified, OF s1(3) [simplified]]
  have "ahead s3 us" using s1(5) i3(5) by (simp add: ahead_def)
  moreover have "for_condition (prec_parse f) s = Inr (Some (Suc (length (cur_code s) + length ?x)), s3)"
    using m s1(1) consume_yes [OF s1(2) assms(3,5)] s2(1) s3(1) i1(3) by (simp add: for_condition_def)
  moreover have "evolves s s3 (Suc (length tc)) (?x @ [op_byte OP_JUMP_IF_FALSE, 0xff, 0xff, op_byte OP_POP]) (econsts (names s) x)"
    using evolves_trans [OF s1(4) evolves_trans [OF s2(2) s3(2)]] by simp
  ultimately show thesis using that [of s3] i3(1) Some by (simp add: cc_def iconsts_def)
qed

text \<open>The optional increment, behind the code \<open>g\<close> since the start of the loop.\<close>

lemma for_increment_code:
  assumes "ready s" "ahead s (ti @ c # us)" "us \<noteq> []" "map tok_sketch ti = clause e" "tk_type c = TOKEN_RIGHT_PAREN" "wf_init e" "settled s"
    "length (cur_consts s) + length (iconsts (names s) e) \<le> 256" "length ti < f" "cur_code s = c0 @ g" "start = length c0"
    "\<And>x. e = Some x \<Longrightarrow> esize x \<le> 251 \<and> length g + esize x + 7 \<le> 65535"
  obtains s' where "for_increment (prec_parse f) start s = Inr (if e = None then start else length (cur_code s) + 3, s')" "ready s'" "ahead s' us"
    "evolves s s' (Suc (length ti)) (incr_code (length g) (map_option (ecode (names s) (length (cur_consts s))) e)) (iconsts (names s) e)"
proof (cases e)
  case None
  have inv: "cs_inv s" using assms(1) by (simp add: ready_def)
  have a: "ahead s (c # us)" "ti = []" using assms(2,4) None by (simp_all add: clause_def)
  have r: "ready (moves 1 s)" by (rule ready_moves [OF inv a(1)]) (use assms(3) in simp_all)
  show thesis
    using that [of "moves 1 s"] match_yes [OF a(1) assms(3,5)] r advance_next(3) [OF a(1) assms(3)] evolves_moves [OF r] None a(2)
    by (simp add: for_increment_def incr_code_def iconsts_def)
next
  case (Some x)
  have inv: "cs_inv s" using assms(1) by (simp add: ready_def)
  let ?x = "ecode (names s) (length (cur_consts s)) x"
  have len: "length ?x \<le> 251" "length g + length ?x + 7 \<le> 65535" using assms(12) [OF Some] length_ecode [of "names s" "length (cur_consts s)" x] by simp_all
  have te: "map tok_sketch ti = sketch x" "wf_exp x" using assms(4,6) Some by (simp_all add: clause_def wf_init_def)
  obtain t0 te0 where t0: "ti = t0 # te0" "tk_type t0 \<notin> {TOKEN_SEMICOLON, TOKEN_RIGHT_PAREN}" by (rule clause_first [OF te])
  have "ahead s (t0 # te0 @ c # us)" using assms(2) t0 by simp
  then have m: "match TOKEN_RIGHT_PAREN s = Inr (False, s)" using match_no t0(2) by simp
  obtain s1 where s1: "emit_jump OP_JUMP s = Inr (Suc (length (cur_code s)), s1)" "evolves s s1 0 [op_byte OP_JUMP, 0xff, 0xff] []"
    by (rule emit_jump_emits [OF assms(1)])
  note i1 = evolves_inv [OF s1(2), simplified, OF assms(1)]
  have st1: "settled s1" using settled_evolves [OF s1(2), simplified, OF assms(1)] assms(7) by simp
  have inv1: "cs_inv s1" using i1(1) by (simp add: ready_def)
  have a1: "ahead s1 (ti @ c # us)" using assms(2) i1(5) by (simp add: ahead_def)
  have count: "code_count s1 = Inr (length (cur_code s) + 3)"
    using i1(3) length_code_of [OF cur_chunk_inv [OF inv1]] by (simp add: code_count_Inr [OF inv1])
  obtain s2 where s2: "expression (prec_parse f) s1 = Inr s2" "evolves s1 s2 (length ti) ?x (econsts (names s) x)" "ready s2" "ahead s2 (c # us)"
      "ready (moves (length ti) s1)"
    by (rule expression_then [OF inv1 a1 assms(3) te(1), of f])
      (use assms te settled_usable [OF st1 te(2)] Some i1(4,7) in \<open>auto simp: rule_def wf_exp_def iconsts_def\<close>)
  obtain s3 where s3: "emit_byte (op_byte OP_POP) s2 = Inr s3" "evolves s2 s3 0 [op_byte OP_POP] []" by (rule emit_byte_emits [OF s2(3)])
  note i3 = evolves_inv [OF s3(2), simplified, OF s2(3)]
  have a3: "ahead s3 (c # us)" using s2(4) i3(5) by (simp add: ahead_def)
  have r4: "ready (moves 1 s3)" by (rule ready_moves [OF _ a3]) (use i3(1) assms(3) in \<open>simp_all add: ready_def\<close>)
  have r: "ready (moves (Suc (length ti)) s)" by (rule ready_moves [OF inv assms(2)]) (use assms(3) in simp_all)
  have e4: "evolves s (moves 1 s3) (Suc (length ti)) ([op_byte OP_JUMP, 0xff, 0xff] @ ?x @ [op_byte OP_POP]) (econsts (names s) x)"
    using evolves_trans [OF s1(2) evolves_trans [OF s2(2) evolves_trans [OF s3(2) evolves_moves [OF r4]]]] by simp
  have code4: "cur_code (moves 1 s3) = c0 @ (g @ [op_byte OP_JUMP, 0xff, 0xff] @ ?x @ [op_byte OP_POP])"
    using evolves_inv(3) [OF e4 r] assms(10) by simp
  have d: "length (g @ [op_byte OP_JUMP, 0xff, 0xff] @ ?x @ [op_byte OP_POP]) + 3 = length g + length ?x + 7" by simp
  obtain s5 where s5: "emit_loop start (moves 1 s3) = Inr s5" "evolves (moves 1 s3) s5 0 (jump_code OP_LOOP (length g + length ?x + 7)) []"
    by (rule emit_loop_emits [OF r4 code4 assms(11), unfolded d]) (use len in simp_all)
  have e5: "evolves s s5 (Suc (length ti)) ([op_byte OP_JUMP] @ [0xff, 0xff] @ (?x @ [op_byte OP_POP] @ jump_code OP_LOOP (length g + length ?x + 7))) (econsts (names s) x)"
    using evolves_trans [OF e4 s5(2)] by simp
  have d': "length (?x @ [op_byte OP_POP] @ jump_code OP_LOOP (length g + length ?x + 7)) = length ?x + 4" by (simp add: jump_code_def)
  obtain s6 where s6: "patch_jump (Suc (length (cur_code s))) s5 = Inr s6"
    "evolves s s6 (Suc (length ti)) ([op_byte OP_JUMP] @ [jump_hi (int (length ?x + 4)), jump_lo (int (length ?x + 4))]
       @ (?x @ [op_byte OP_POP] @ jump_code OP_LOOP (length g + length ?x + 7))) (econsts (names s) x)"
    by (rule patch_jump_emits [OF e5 r, of "Suc (length (cur_code s))", unfolded d']) (use len in simp_all)
  have "for_increment (prec_parse f) start s = Inr (length (cur_code s) + 3, s6)"
    using m s1(1) count s2(1) s3(1) consume_yes [OF a3 assms(3,5)] s5(1) s6(1) by (simp add: for_increment_def)
  moreover have "evolves s s6 (Suc (length ti)) (incr_code (length g) (Some ?x)) (econsts (names s) x)"
    using s6(2) by (simp add: incr_code_def jump_code_def)
  moreover have "ahead s6 us" by (rule evolves_ahead [of s s6 "ti @ [c]"]) (use s6(2) r assms(2) in simp_all)
  ultimately show thesis using that [of s6] evolves_inv(1) [OF s6(2) r] Some by (simp add: iconsts_def)
qed

text \<open>The loop after its initializer, up to the end of the scope.\<close>

definition for_rest :: "parser_fn \<Rightarrow> stmt_fn \<Rightarrow> stmt_fn" where
  "for_rest pp st s =
     bind_result (code_count s) (\<lambda>loopStart.
     bind_result (for_condition pp s) (\<lambda>(exitJump, s4).
     bind_result (for_increment pp loopStart s4) (\<lambda>(loopStart', s5).
     bind_result (st s5) (\<lambda>s6.
     bind_result (emit_loop loopStart' s6) (\<lambda>s7.
     case exitJump of None \<Rightarrow> Inr s7
       | Some j \<Rightarrow> bind_result (patch_jump j s7) (emit_byte (op_byte OP_POP)))))))"

lemma for_statement_rest:
  "for_statement pp st s = bind_result (scope_begin s) (\<lambda>s1. bind_result (consume TOKEN_LEFT_PAREN ''Expect '(' after 'for'.'' s1) (\<lambda>s2.
     bind_result (for_initializer pp s2) (\<lambda>s3. bind_result (for_rest pp st s3) scope_end)))"
  by (simp add: for_statement_def for_rest_def bind_result_def split: sum.splits prod.splits)

lemma exit_patched:
  assumes "evolves s s1 n ((case cc of None \<Rightarrow> [] | Some x \<Rightarrow> x @ [op_byte OP_JUMP_IF_FALSE, 0xff, 0xff, op_byte OP_POP]) @ y) vals" "ready (moves n s)"
    "cc \<noteq> None \<Longrightarrow> length y \<le> 254"
  obtains s2 where "(case map_option (\<lambda>x. Suc (length (cur_code s) + length x)) cc of None \<Rightarrow> Inr s1
       | Some j \<Rightarrow> bind_result (patch_jump j s1) (emit_byte (op_byte OP_POP))) = Inr s2"
    "evolves s s2 n (guard_code (Suc (length y)) cc @ y @ exit_code cc) vals"
proof (cases cc)
  case None
  then show thesis using that assms(1) by (simp add: guard_code_def exit_code_def)
next
  case (Some x)
  have e: "evolves s s1 n ((x @ [op_byte OP_JUMP_IF_FALSE]) @ [0xff, 0xff] @ (op_byte OP_POP # y)) vals" using assms(1) Some by simp
  obtain s2 where s2: "patch_jump (Suc (length (cur_code s) + length x)) s1 = Inr s2"
    "evolves s s2 n ((x @ [op_byte OP_JUMP_IF_FALSE]) @ [jump_hi (int (length (op_byte OP_POP # y))), jump_lo (int (length (op_byte OP_POP # y)))]
       @ (op_byte OP_POP # y)) vals"
    by (rule patch_jump_emits [OF e assms(2), of "Suc (length (cur_code s) + length x)"]) (use assms(3) Some in auto)
  have r2: "ready s2" by (rule evolves_inv(1) [OF s2(2) assms(2)])
  obtain s3 where s3: "emit_byte (op_byte OP_POP) s2 = Inr s3" "evolves s2 s3 0 [op_byte OP_POP] []" by (rule emit_byte_emits [OF r2])
  have "evolves s s3 n (guard_code (Suc (length y)) cc @ y @ exit_code cc) vals"
    using evolves_trans [OF s2(2) s3(2)] Some by (simp add: guard_code_def exit_code_def jump_code_def)
  then show thesis using that [of s3] s2(1) s3(1) Some by simp
qed

lemma loop_parts:
  assumes "loop_fits (map_option length cc) (map_option length ci) (length a)"
  shows "cc \<noteq> None \<Longrightarrow> length (incr_code g ci @ a @ jump_code OP_LOOP d) \<le> 254"
    "guard_size (map_option length cc) = length (case cc of None \<Rightarrow> [] | Some x \<Rightarrow> x @ [op_byte OP_JUMP_IF_FALSE, 0xff, 0xff, op_byte OP_POP])"
    "loop_size (guard_size (map_option length cc)) (map_option length ci) (length a) \<le> 65535"
    "ci = Some x \<Longrightarrow> length x \<le> 251 \<and> guard_size (map_option length cc) + length x + 7 \<le> 65535"
  using assms by (auto simp: loop_fits_def incr_code_def jump_code_def guard_size_def split: option.splits)

lemma loop_code_exit:
  "loop_code cc ci a = (let g = guard_size (map_option length cc); y = incr_code g ci @ a @ jump_code OP_LOOP (loop_size g (map_option length ci) (length a))
     in guard_code (Suc (length y)) cc @ y @ exit_code cc)"
proof -
  have "Suc (length (x @ a @ jump_code OP_LOOP d)) = length x + length a + 4" for x d by (simp add: jump_code_def)
  then show ?thesis unfolding loop_code_def Let_def by (simp only: append_assoc)
qed

lemma for_rest_code:
  assumes a: "stmt_compiled a" and s: "cs_inv s" "settled s" and ahd: "ahead s (tc @ c1 # ti @ c2 # ta @ t # rest)"
    and ty: "tk_type c1 = TOKEN_SEMICOLON" "tk_type c2 = TOKEN_RIGHT_PAREN"
    and sk: "map tok_sketch tc = clause c" "map tok_sketch ti = clause inc" "map tok_sketch ta = ssketch a"
    and wf: "wf_init c" "wf_init inc" "wf_stmt (names s) a" "loop_fits (map_option esize c) (map_option esize inc) (length (scode [] 0 a))"
      "open_if a \<Longrightarrow> tk_type t \<noteq> TOKEN_ELSE"
    and room: "length (cur_consts s) + length (iconsts (names s) c) + length (iconsts (names s) inc) + length (sconsts (names s) a) \<le> 256"
    and fuel: "length tc < f" "length ti < f" "length ta < f"
  defines "k2 \<equiv> length (cur_consts s) + length (iconsts (names s) c)"
  defines "cc \<equiv> map_option (ecode (names s) (length (cur_consts s))) c" and "ci \<equiv> map_option (ecode (names s) k2) inc"
    and "ca \<equiv> scode (names s) (k2 + length (iconsts (names s) inc)) a"
  obtains s' where "for_rest (prec_parse f) (statement f) s = Inr s'" "ready s'"
    "evolves s s' (length tc + length ti + length ta + 2) (loop_code cc ci ca) (iconsts (names s) c @ iconsts (names s) inc @ sconsts (names s) a)"
proof -
  have fits: "loop_fits (map_option length cc) (map_option length ci) (length ca)"
  proof -
    have "map_option length cc = map_option esize c" "map_option length ci = map_option esize inc" "length ca = length (scode [] 0 a)"
      using length_ecode [of "names s"] length_scode [of "names s"] by (auto simp: cc_def ci_def ca_def option.map_comp o_def)
    then show ?thesis using wf(4) by simp
  qed
  note parts = loop_parts [OF fits]
  let ?G = "case cc of None \<Rightarrow> [] | Some x \<Rightarrow> x @ [op_byte OP_JUMP_IF_FALSE, 0xff, 0xff, op_byte OP_POP]"
  let ?g = "guard_size (map_option length cc)" and ?n = "length (cur_code s)"
  obtain s1 where s1: "for_condition (prec_parse f) s = Inr (map_option (\<lambda>x. Suc (?n + length x)) cc, s1)" "ready s1" "ahead s1 (ti @ c2 # ta @ t # rest)"
      "evolves s s1 (Suc (length tc)) ?G (iconsts (names s) c)"
    unfolding cc_def by (rule for_condition_code [OF s(1) ahd _ sk(1) ty(1) wf(1) s(2), of f]) (use room fuel in auto)
  have r1: "ready (moves (Suc (length tc)) s)" by (rule ready_moves [OF s(1) ahd]) simp_all
  note i1 = evolves_inv [OF s1(4) r1]
  have st1: "settled s1" using settled_evolves [OF s1(4) r1] s(2) by simp
  have ic: "names s1 = names s" "length (cur_consts s1) = k2" using i1(4,7) by (simp_all add: k2_def)
  obtain s2 where s2: "for_increment (prec_parse f) ?n s1 = Inr (if inc = None then ?n else length (cur_code s1) + 3, s2)" "ready s2" "ahead s2 (ta @ t # rest)"
      "evolves s1 s2 (Suc (length ti)) (incr_code ?g ci) (iconsts (names s) inc)"
  proof (rule for_increment_code [OF s1(2,3) _ sk(2) ty(2) wf(2) st1, of f "cur_code s" ?G ?n, unfolded ic, folded parts(2)])
    fix x assume "inc = Some x"
    then show "esize x \<le> 251 \<and> guard_size (map_option length cc) + esize x + 7 \<le> 65535"
      using parts(4) [of "ecode (names s) k2 x"] length_ecode [of "names s" k2 x] by (simp add: ci_def)
  qed (use room fuel i1(3) in \<open>auto simp: k2_def ci_def\<close>)
  have r2: "ready (moves (Suc (length ti)) s1)"
    by (rule ready_moves [OF _ s1(3)]) (use s1(2) in \<open>simp_all add: ready_def\<close>)
  note i2 = evolves_inv [OF s2(4) r2]
  have st2: "settled s2" using settled_evolves [OF s2(4) r2] st1 by simp
  have ic2: "names s2 = names s" "length (cur_consts s2) = k2 + length (iconsts (names s) inc)" using i2(4,7) ic i1(7) by simp_all
  have src: "stmt_source a s2 ta t rest"
    using s2(2,3) sk(3) wf(3,5) st2 room by (auto simp: stmt_source_def ready_def ic2 k2_def)
  obtain s3 where s3: "statement f s2 = Inr s3" "evolves s2 s3 (length ta) ca (sconsts (names s) a)"
    using a [unfolded stmt_compiled_def, rule_format, OF src fuel(3)] by (auto simp: ic2 ca_def)
  have r3: "ready (moves (length ta) s2)" by (rule stmt_tokens [OF src])
  note i3 = evolves_inv [OF s3(2) r3]
  let ?d = "loop_size ?g (map_option length ci) (length ca)"
  obtain s4 where s4: "emit_loop (if inc = None then ?n else length (cur_code s1) + 3) s3 = Inr s4" "evolves s3 s4 0 (jump_code OP_LOOP ?d) []"
  proof (cases inc)
    case None
    have code: "cur_code s3 = cur_code s @ (?G @ ca)" using i1(3) i2(3) i3(3) None by (simp add: ci_def incr_code_def)
    have d: "length (?G @ ca) + 3 = ?d" using None by (simp add: ci_def loop_size_def parts(2))
    show thesis by (rule emit_loop_emits [OF i3(1) code refl, unfolded d]) (use parts(3) that None in auto)
  next
    case (Some x)
    let ?x = "ecode (names s) k2 x"
    have code: "cur_code s3 = (cur_code s1 @ jump_code OP_JUMP (length ?x + 4)) @ (?x @ [op_byte OP_POP] @ jump_code OP_LOOP (?g + length ?x + 7) @ ca)"
      using i2(3) i3(3) Some by (simp add: ci_def incr_code_def)
    have d: "length (?x @ [op_byte OP_POP] @ jump_code OP_LOOP (?g + length ?x + 7) @ ca) + 3 = ?d" using Some by (simp add: ci_def loop_size_def jump_code_def)
    show thesis by (rule emit_loop_emits [OF i3(1) code _, unfolded d, of "length (cur_code s1) + 3"]) (use parts(3) that Some in \<open>auto simp: jump_code_def\<close>)
  qed
  let ?y = "incr_code ?g ci @ ca @ jump_code OP_LOOP ?d" and ?m = "length tc + length ti + length ta + 2"
  have rm: "ready (moves ?m s)" by (rule ready_moves [OF s(1) ahd]) simp_all
  have e4: "evolves s s4 ?m (?G @ ?y) (iconsts (names s) c @ iconsts (names s) inc @ sconsts (names s) a)"
    using evolves_trans [OF s1(4) evolves_trans [OF s2(4) evolves_trans [OF s3(2) s4(2)]]] by (simp add: ac_simps)
  obtain s5 where s5: "(case map_option (\<lambda>x. Suc (?n + length x)) cc of None \<Rightarrow> Inr s4
       | Some j \<Rightarrow> bind_result (patch_jump j s4) (emit_byte (op_byte OP_POP))) = Inr s5"
    "evolves s s5 ?m (guard_code (Suc (length ?y)) cc @ ?y @ exit_code cc) (iconsts (names s) c @ iconsts (names s) inc @ sconsts (names s) a)"
    by (rule exit_patched [OF e4 rm]) (use parts(1) in auto)
  have "code_count s = Inr ?n" using length_code_of [OF cur_chunk_inv [OF s(1)]] code_count_Inr [OF s(1)] by simp
  then have "for_rest (prec_parse f) (statement f) s = Inr s5" using s1(1) s2(1) s3(1) s4(1) s5(1) by (simp add: for_rest_def)
  moreover have "evolves s s5 ?m (loop_code cc ci ca) (iconsts (names s) c @ iconsts (names s) inc @ sconsts (names s) a)"
    using s5(2) by (simp add: loop_code_exit Let_def)
  ultimately show thesis using that evolves_inv(1) [OF s5(2) rm] by blast
qed

lemma for_compiled:
  assumes "stmt_compiled a" shows "stmt_compiled (For fi c inc a)"
  unfolding stmt_compiled_def
proof (intro allI impI)
  fix f s ts t rest
  assume src: "stmt_source (For fi c inc a) s ts t rest" and fuel: "length ts < f"
  obtain f' where f: "f = Suc f'" using fuel by (cases f) auto
  let ?sk = "if fi = [] then [(TOKEN_SEMICOLON, None)] else concat (map ssketch fi)"
  obtain o1 o2 tf tc c1 ti c2 ta where ts: "ts = o1 # o2 # tf @ tc @ c1 # ti @ c2 # ta" "tk_type o1 = TOKEN_FOR" "tk_type o2 = TOKEN_LEFT_PAREN"
      "map tok_sketch tf = ?sk" "map tok_sketch tc = clause c" "tk_type c1 = TOKEN_SEMICOLON" "map tok_sketch ti = clause inc"
      "tk_type c2 = TOKEN_RIGHT_PAREN" "map tok_sketch ta = ssketch a"
    using src by (auto simp: stmt_source_def tok_sketch_def map_eq_append_conv map_eq_Cons_conv append_eq_map_conv Cons_eq_map_conv simp del: if_split)
  let ?L = "names s" and ?M = "rev (declared fi) @ names s" and ?ls = "cur_locals s" and ?d = "depth s"
  have inv: "cs_inv s" and st: "settled s" and ahd: "ahead s (o1 # o2 # tf @ tc @ c1 # ti @ c2 # ta @ t # rest)"
    and wf: "wf_stmt ?L (For fi c inc a)" "open_if a \<Longrightarrow> tk_type t \<noteq> TOKEN_ELSE" and room: "length (cur_consts s) + length (sconsts ?L (For fi c inc a)) \<le> 256"
    using src ts(1) by (simp_all add: stmt_source_def)
  note l = locals_inv [OF inv]
  have r1: "ready (moves 1 s)" and r2: "ready (moves 2 s)" by (rule ready_moves [OF inv ahd]; simp)+
  have a1: "ahead (moves 1 s) (o2 # tf @ tc @ c1 # ti @ c2 # ta @ t # rest)" using advance_next(3) [OF ahd] by simp
  have a2: "ahead (moves 2 s) (tf @ tc @ c1 # ti @ c2 # ta @ t # rest)" using advance_next(3) [OF a1] by (simp add: numeral_2_eq_2)
  let ?s1 = "rescope ?ls (?d + 1) (moves 1 s)" and ?s2 = "rescope ?ls (?d + 1) (moves 2 s)"
  have begin1: "scope_begin (moves 1 s) = Inr ?s1"
    using current_compiler_Inr [of "moves 1 s"] r1 by (simp add: scope_begin_def ready_def rescope_def cur_locals_def depth_def)
  have paren: "consume TOKEN_LEFT_PAREN msg ?s1 = Inr ?s2" for msg
    using consume_yes [of ?s1 o2] a1 ts(3) by (simp add: rescope_moves numeral_2_eq_2)
  have inv2: "cs_inv ?s2" by (rule cs_inv_rescope) (use r2 l in \<open>auto simp: ready_def\<close>)
  have blk: "in_block [] ?s2" using st l(3) by (force simp: in_block_def settled_def moves_def)
  obtain t' rest' where tl: "tc @ c1 # ti @ c2 # ta @ t # rest = t' # rest'" by (cases tc) auto
  have a2': "ahead ?s2 (tf @ t' # rest')" using a2 tl by simp
  obtain s3 where s3: "for_initializer (prec_parse f') ?s2 = Inr s3" "item_compiles_to fi ?s2 (length tf) s3" "tf \<noteq> []"
    by (rule for_initializer_code [OF inv2 a2' ts(4), of f']) (use wf room blk fuel f ts(1) in \<open>auto simp: Let_def\<close>)
  note n3 = item_next [OF s3(2) inv2 a2' blk s3(3)]
  have n3': "names s3 = ?M" "length (cur_consts s3) = length (cur_consts s) + length (bconsts ?L fi)" using n3(5,7) by simp_all
  let ?k2 = "length (cur_consts s) + length (bconsts ?L fi) + length (iconsts ?M c)"
  let ?loop = "loop_code (map_option (ecode ?M (length (cur_consts s) + length (bconsts ?L fi))) c) (map_option (ecode ?M ?k2) inc)
    (scode ?M (?k2 + length (iconsts ?M inc)) a)"
  obtain s4 where s4: "for_rest (prec_parse f') (statement f') s3 = Inr s4" "ready s4"
      "evolves s3 s4 (length tc + length ti + length ta + 2) ?loop (iconsts ?M c @ iconsts ?M inc @ sconsts ?M a)"
    by (rule for_rest_code [OF assms n3(1) _ n3(3) [folded tl] ts(6,8,5,7,9), of f', unfolded n3'])
      (use n3(4) wf room fuel f ts(1) in \<open>auto simp: in_block_def Let_def\<close>)
  obtain ms where ms: "evolves (rescope (?ls @ ms) (?d + 1) (moves 2 s)) s3 (length tf) (bcode ?L (length (cur_consts s)) fi) (bconsts ?L fi)"
     "map local_text ms = declared fi" "\<forall>l\<in>set ms. lc_depth l = ?d + 1" "length (?ls @ ms) \<le> BYTE_COUNT"
    using s3(2) by (auto simp: item_compiles_to_def)
  let ?n = "length tf + (length tc + length ti + length ta + 2)" and ?vals = "bconsts ?L fi @ iconsts ?M c @ iconsts ?M inc @ sconsts ?M a"
  have e4: "evolves (rescope (?ls @ ms) (?d + 1) (moves 2 s)) s4 ?n (bcode ?L (length (cur_consts s)) fi @ ?loop) ?vals"
    by (rule evolves_trans [OF ms(1) s4(3)])
  have inv3: "cs_inv (rescope (?ls @ ms) (?d + 1) (moves 2 s))"
    using cs_inv_more [of "moves 2 s" ms "?d + 1"] r2 ms(4) l(3) by (simp add: ready_def)
  have r: "ready (moves ?n (rescope (?ls @ ms) (?d + 1) (moves 2 s)))"
    by (rule ready_moves [OF inv3, of "tf @ tc @ c1 # ti @ c2 # ta @ t # rest"]) (use a2 in simp_all)
  have loc: "cur_locals s4 = ?ls @ ms" "depth s4 = ?d + 1"
    using evolves_inv(6) [OF e4 r] by (simp_all add: cur_locals_def depth_def rescope_def put_compiler_def)
  obtain s5 where s5: "scope_end s4 = Inr s5" "evolves (rescope ?ls ?d s4) s5 0 (replicate (length ms) (op_byte OP_POP)) []"
    by (rule scope_end_code [OF s4(2) loc ms(3) inv st])
  have "match TOKEN_PRINT s = Inr (False, s)" "match TOKEN_FOR s = Inr (True, moves 1 s)" using match_no [OF ahd] match_yes [OF ahd] ts(2) by simp_all
  then have "statement f s = Inr s5"
    using begin1 paren s3(1) s4(1) s5(1) by (simp add: f statement_body_def when_match_def for_statement_rest)
  moreover have "stmt_compiles_to (For fi c inc a) s ts s5"
  proof -
    have "evolves (moves 2 s) (rescope ?ls ?d s4) ?n (bcode ?L (length (cur_consts s)) fi @ ?loop) ?vals"
      using evolves_rescope [OF e4, of ?ls ?d] rescope_same [of "moves 2 s"] r2 by (simp add: ready_def depth_def)
    from evolves_trans [OF evolves_step [OF this] s5(2)] show ?thesis
      using arg_cong [OF ms(2), of length] ts(1) by (simp add: Let_def ac_simps)
  qed
  ultimately show "\<exists>s'. statement f s = Inr s' \<and> stmt_compiles_to (For fi c inc a) s ts s'" by blast
qed

lemma all_stmt_compiled: "stmt_compiled a"
proof (induction a)
  case (VarDecl x i)
  show ?case by (simp add: stmt_compiled_def stmt_source_def)
next
  case (Global x i)
  show ?case by (simp add: stmt_compiled_def stmt_source_def)
qed (simp_all add: print_compiled expr_compiled if_compiled if_else_compiled while_compiled for_compiled block_compiled)

section \<open>Programs\<close>

abbreviation pcode :: "nat \<Rightarrow> cstmt list \<Rightarrow> byte list" where
  "pcode \<equiv> bcode []"

text \<open>The items of a program: statements and global declarations.\<close>

fun wf_top :: "cstmt \<Rightarrow> bool" where
  "wf_top (Global x i) = wf_init i"
| "wf_top a = wf_stmt [] a"

definition wf_prog :: "cstmt list \<Rightarrow> bool" where
  "wf_prog as \<longleftrightarrow> list_all wf_top as \<and> length (bconsts [] as) \<le> 256"

lemma wf_no_binds: "wf_stmt L a \<Longrightarrow> binds a = []"
  by (cases a) auto

lemma top_no_binds: "wf_top a \<Longrightarrow> binds a = []"
  by (cases a) auto

lemma wf_top_cases: "wf_top a \<Longrightarrow> (\<exists>x i. a = Global x i \<and> wf_init i) \<or> wf_stmt [] a"
  by (cases a) auto

lemma top_Cons: "wf_top a \<Longrightarrow> \<exists>ty x us. ssketch a = (ty, x) # us \<and> ty \<notin> {TOKEN_ELSE, TOKEN_ENDOFFILE}"
  using ssketch_Cons [of "[]" a] wf_top_cases [of a] by (auto simp: no_start_def)

lemma top_no_error: "wf_top a \<Longrightarrow> (TOKEN_ERROR, x) \<notin> set (ssketch a)"
  using stmt_no_error(1) [of "[]" a] exp_no_error wf_top_cases [of a]
  by (auto simp: initializer_def wf_init_def wf_exp_def split: option.splits)

definition top_source :: "cstmt \<Rightarrow> CS \<Rightarrow> Token list \<Rightarrow> Token \<Rightarrow> Token list \<Rightarrow> bool" where
  "top_source a s ts t rest \<longleftrightarrow> cs_inv s \<and> ahead s (ts @ t # rest) \<and> map tok_sketch ts = ssketch a \<and> wf_top a
     \<and> length (cur_consts s) + length (sconsts [] a) \<le> 256 \<and> (open_if a \<longrightarrow> tk_type t \<noteq> TOKEN_ELSE) \<and> settled s
     \<and> names s = [] \<and> depth s = 0"

lemma top_tokens:
  assumes "top_source a s ts t rest"
  obtains t0 ts0 where "ts = t0 # ts0" "match TOKEN_ENDOFFILE s = Inr (False, s)" "ready (moves (length ts) s)"
proof -
  obtain ty x us where sk: "ssketch a = (ty, x) # us" "ty \<noteq> TOKEN_ENDOFFILE" using top_Cons [of a] assms by (auto simp: top_source_def)
  then obtain t0 ts0 where ts: "ts = t0 # ts0" "tk_type t0 = ty" using assms by (cases ts) (auto simp: top_source_def tok_sketch_def)
  have "ahead s (t0 # ts0 @ t # rest)" using assms ts by (simp add: top_source_def)
  then have "match TOKEN_ENDOFFILE s = Inr (False, s)" by (rule match_no) (use ts sk in simp)
  moreover have "ready (moves (length ts) s)"
    by (rule ready_moves [of s "ts @ t # rest"]) (use assms ts in \<open>auto simp: top_source_def\<close>)
  ultimately show thesis using that ts by blast
qed

text \<open>A global declaration: the name becomes a constant before the initializer is compiled.\<close>

lemma global_item:
  assumes "top_source (Global x i) s ts t rest" "length ts < f"
  obtains s' where "lox_declaration (Suc f) s = Inr s'" "stmt_compiles_to (Global x i) s ts s'"
proof -
  obtain v n ti c where ts: "ts = v # n # ti @ [c]" "tk_type v = TOKEN_VAR" "tk_type n = TOKEN_IDENTIFIER" "tk_lexeme n = Some x"
      "map tok_sketch ti = initializer i" "tk_type c = TOKEN_SEMICOLON"
    using assms(1) by (auto simp: top_source_def tok_sketch_def map_eq_append_conv map_eq_Cons_conv split: if_splits)
  have inv: "cs_inv s" and ahd: "ahead s (v # n # ti @ c # t # rest)" and st: "settled s" and top: "names s = []" "depth s = 0" and wf: "wf_init i"
    and room: "Suc (length (cur_consts s) + length (iconsts [] i)) \<le> 256"
    using assms(1) ts(1) by (auto simp: top_source_def)
  have r1: "ready (moves 1 s)" and r2: "ready (moves 2 s)" by (rule ready_moves [OF inv ahd]; simp)+
  have a1: "ahead (moves 1 s) (n # ti @ c # t # rest)" and a2: "ahead (moves 2 s) (ti @ c # t # rest)"
    using advance_next(3) [OF ahd] advance_next(3) [OF advance_next(3) [OF ahd]] by (simp_all add: numeral_2_eq_2)
  have prev: "previous_token (moves 2 s) = Inr n" using advance_next(2) [OF a1] by (simp add: numeral_2_eq_2)
  have con: "consume TOKEN_IDENTIFIER msg (moves 1 s) = Inr (moves 2 s)" for msg
    using consume_yes [OF a1 _ ts(3)] by (simp add: numeral_2_eq_2)
  have cc: "current_compiler (moves 2 s) = Inr (hd (cs_compilers s))" "cp_scopeDepth (hd (cs_compilers s)) = 0"
    using current_compiler_Inr [of "moves 2 s"] r2 top(2) by (simp_all add: ready_def depth_def)
  obtain s1 where s1: "identifier_constant n (moves 2 s) = Inr (of_nat (length (cur_consts s)), s1)" "evolves (moves 2 s) s1 0 [] [Name_Lit x]"
    using identifier_constant_emits [OF r2 _ ts(4)] room by auto
  have vp: "variable_parse msg (moves 1 s) = Inr (of_nat (length (cur_consts s)), s1)" for msg
    using con cc prev s1(1) by (simp add: variable_parse_def variable_declare_def)
  note i1 = evolves_inv [OF s1(2), simplified, OF r2]
  have b1: "ahead s1 (ti @ c # t # rest)" using i1(5) a2 by (simp add: ahead_def)
  have nm: "names s1 = []" using i1(7) top(1) by simp
  have st1: "settled s1" using settled_evolves [OF s1(2)] r2 st by simp
  have us: "list_all (usable s1) (ivars i)"
    using settled_usable [OF st1] wf by (auto simp: ivars_def wf_init_def split: option.splits)
  obtain s2 s3 s4 b where s3: "match TOKEN_EQUAL s1 = Inr (b, s2)"
      "(if b then expression (prec_parse f) s2 else emit_byte (op_byte OP_NIL) s2) = Inr s3"
      "\<And>msg. consume TOKEN_SEMICOLON msg s3 = Inr s4" "ready s4"
      "evolves s1 s4 (Suc (length ti)) (icode [] (Suc (length (cur_consts s))) i) (iconsts [] i)"
    by (rule initializer_code [of s1 ti c "t # rest" i f]) (use i1(1,4) b1 ts us wf room assms(2) nm in \<open>simp_all add: ready_def\<close>)
  have "cs_compilers s4 = cs_compilers s" using s3(5) i1(6) by (simp add: evolves_def emits_def)
  then have cc4: "current_compiler s4 = Inr (hd (cs_compilers s))" using current_compiler_Inr [of s4] s3(4) by (simp add: ready_def)
  obtain s5 where s5: "emit_bytes (op_byte OP_DEFINE_GLOBAL) (of_nat (length (cur_consts s))) s4 = Inr s5"
      "evolves s4 s5 0 [op_byte OP_DEFINE_GLOBAL, of_nat (length (cur_consts s))] []"
    by (rule emit_bytes_emits [OF s3(4)])
  have e: "evolves s s5 (length ts) (scode (names s) (length (cur_consts s)) (Global x i)) (sconsts (names s) (Global x i))"
    using evolves_step [OF evolves_trans [OF s1(2) evolves_trans [OF s3(5) s5(2)]]] ts(1) top(1) by simp
  have "ready (moves (length ts) s)" by (rule top_tokens [OF assms(1)])
  then have "\<not> ps_panicMode (cs_parser s5)" using evolves_inv(5) [OF e] st by (simp add: settled_def moves_def)
  moreover have "match TOKEN_VAR s = Inr (True, moves 1 s)" by (rule match_yes [OF ahd]) (use ts in simp_all)
  ultimately have "lox_declaration (Suc f) s = Inr s5"
    using vp s3(1-3) s5(1) cc4 cc(2) by (simp add: declaration_body_def when_match_def var_declaration_def variable_define_def)
  with e show thesis using that by blast
qed

lemma top_item:
  assumes "top_source a s ts t rest" "length ts < f"
  obtains s' where "lox_declaration (Suc f) s = Inr s'" "stmt_compiles_to a s ts s'"
proof (cases "\<exists>x i. a = Global x i")
  case True
  then show thesis using global_item assms that by metis
next
  case False
  then have "stmt_source a s ts t rest" using assms(1) wf_top_cases [of a] by (auto simp: top_source_def stmt_source_def)
  then show thesis using stmt_item [OF all_stmt_compiled _ assms(2)] that by metis
qed

lemma top_next:
  assumes "top_source a s ts t rest" "evolves s s' (length ts) code lits"
  shows "cs_inv s'" "ahead s' (t # rest)" "length (cur_consts s') = length (cur_consts s) + length lits" "settled s'" "names s' = []" "depth s' = 0"
proof -
  have r: "ready (moves (length ts) s)" by (rule top_tokens [OF assms(1)])
  note i = evolves_inv [OF assms(2) r]
  show "ahead s' (t # rest)" by (rule evolves_ahead [OF assms(2) r]) (use assms(1) in \<open>simp add: top_source_def\<close>)
  show "cs_inv s'" "length (cur_consts s') = length (cur_consts s) + length lits" using i by (simp_all add: ready_def)
  show "settled s'" "names s' = []" "depth s' = 0"
    using settled_evolves [OF assms(2) r] i(6,7) assms(1) by (simp_all add: top_source_def depth_def)
qed

text \<open>The end of the file is consumed without moving: the parser stays at the last token.\<close>

definition at_end :: "CS \<Rightarrow> CS" where
  "at_end s = s\<lparr>cs_parser := (cs_parser s)\<lparr>ps_previous := Some (ps_current (cs_parser s))\<rparr>\<rparr>"

lemma match_eof: "ahead s [t] \<Longrightarrow> tk_type t = TOKEN_ENDOFFILE \<Longrightarrow> match TOKEN_ENDOFFILE s = Inr (True, at_end s)"
proof -
  assume a: "ahead s [t]" "tk_type t = TOKEN_ENDOFFILE"
  have "length (drop (ps_current (cs_parser s)) (ps_tokens (cs_parser s))) = 1" using a(1) by (simp add: ahead_def)
  then have "length (ps_tokens (cs_parser s)) - 1 - ps_current (cs_parser s) = 0" by simp
  then show ?thesis using ahead_current [OF a(1)] a(2) by (simp add: match_def check_def advance_def at_end_def)
qed

lemma compile_loop_code:
  assumes "cs_inv s" "ahead s (ts @ [eof])" "map tok_sketch ts = concat (map ssketch as)" "tk_type eof = TOKEN_ENDOFFILE"
    "list_all wf_top as" "length (cur_consts s) + length (bconsts [] as) \<le> 256" "names s = []" "settled s" "length ts + 2 < f" "depth s = 0"
  obtains s' where "compile_loop f s = Inr (at_end s')" "evolves s s' (length ts) (pcode (length (cur_consts s)) as) (bconsts [] as)"
    "as \<noteq> [] \<Longrightarrow> ready (moves (length ts) s)" "ahead s' [eof]" "cs_inv s'"
proof -
  have "\<exists>s'. compile_loop f s = Inr (at_end s') \<and> evolves s s' (length ts) (pcode (length (cur_consts s)) as) (bconsts [] as)
      \<and> (as \<noteq> [] \<longrightarrow> ready (moves (length ts) s)) \<and> ahead s' [eof] \<and> cs_inv s'"
    using assms
  proof (induction as arbitrary: s ts f)
    case Nil
    then have "evolves s s 0 [] []" "ahead s [eof]" "cs_inv s" by (auto simp: evolves_def emits_here)
    moreover have "compile_loop f s = Inr (at_end s)" using match_eof [of s eof] Nil by (cases f) auto
    ultimately show ?case using Nil by auto
  next
    case (Cons a as)
    obtain f' where f: "f = Suc (Suc f')" "length ts < f'" using Cons.prems(9) by (cases f; cases "f - 1") auto
    obtain ta tb where ts: "ts = ta @ tb" "map tok_sketch ta = ssketch a" "map tok_sketch tb = concat (map ssketch as)"
      using Cons.prems(3) by (auto simp: map_eq_append_conv)
    obtain t rest where tl: "tb @ [eof] = t # rest" by (cases tb) auto
    have "tk_type t \<noteq> TOKEN_ELSE"
    proof (cases as)
      case (Cons a' as')
      then obtain ty x us where "ssketch a' = (ty, x) # us" "ty \<noteq> TOKEN_ELSE"
        using top_Cons [of a'] Cons.prems(5) by auto
      then show ?thesis using ts(3) tl Cons by (cases tb) (auto simp: tok_sketch_def)
    qed (use ts(3) tl Cons.prems(4) in auto)
    then have src: "top_source a s ta t rest" using Cons.prems ts tl by (simp add: top_source_def)
    obtain s1 where s1: "lox_declaration (Suc f') s = Inr s1" "stmt_compiles_to a s ta s1"
      by (rule top_item [OF src, of f']) (use f ts in auto)
    note n1 = top_next [OF src s1(2)]
    have ta: "ta \<noteq> []" "match TOKEN_ENDOFFILE s = Inr (False, s)" by (rule top_tokens [OF src]; simp)+
    have nb: "binds a = []" using Cons.prems(5) top_no_binds by auto
    have "length tb + 2 < Suc f'" using f(2) ts(1) ta(1) by (cases ta) auto
    then obtain s2 where s2: "compile_loop (Suc f') s1 = Inr (at_end s2)" "ahead s2 [eof]" "cs_inv s2"
      "evolves s1 s2 (length tb) (pcode (length (cur_consts s1)) as) (bconsts [] as)"
      using Cons.IH [of s1 tb "Suc f'"] n1 ts tl nb Cons.prems(4-7) by (auto simp del: compile_loop.simps)
    have r: "ready (moves (length ts) s)"
      by (rule ready_moves [OF Cons.prems(1,2)]) (use ta(1) ts in auto)
    have "evolves s s2 (length ts) (pcode (length (cur_consts s)) (a # as)) (bconsts [] (a # as))"
      using evolves_trans [OF s1(2) s2(4)] r ts(1) n1(3) nb Cons.prems(7) by simp
    moreover have "compile_loop f s = Inr (at_end s2)" using s1(1) s2(1) ta(2) by (simp add: f)
    ultimately show ?case using r s2(2,3) by blast
  qed
  with that show thesis by blast
qed

lemma entered_script:
  fixes code :: string
  assumes "heap_inv vm" "chunks_ok (vm_heap vm)"
  defines "s \<equiv> entered TYPE_SCRIPT \<lparr>cs_parser = parser_start code, cs_compilers = [], cs_vm = vm\<rparr>"
  shows "cs_inv s" "cs_parser s = parser_start code" "cur_code s = []" "cur_consts s = []" "vf_name (cur_fun s) = None"
    "vf_arity (cur_fun s) = 0" "same_state vm (cs_vm s)" "names s = []" "settled s" "depth s = 0" "strings_kept vm (cs_vm s)"
proof -
  let ?s0 = "\<lparr>cs_parser = parser_start code, cs_compilers = [], cs_vm = vm\<rparr>"
  have base: "cs_base ?s0" using assms(1,2) parser_start_ok [of code] by (simp add: cs_base_def)
  show "cs_inv s" "cs_parser s = parser_start code" using entered_ok [OF base, of TYPE_SCRIPT] by (simp_all add: s_def)
  have "cur_fun s = \<lparr>vf_arity = 0, vf_chunk = chunk_init, vf_name = None\<rparr>"
    by (simp add: s_def entered_def vmfunction_new_def new_vmobject_def cur_def fun_of_def as_function_def object_at_def Let_def)
  then show "cur_code s = []" "cur_consts s = []" "vf_name (cur_fun s) = None" "vf_arity (cur_fun s) = 0"
    by (simp_all add: chunk_init_abs)
  show "names s = []" "settled s" "depth s = 0"
    by (simp_all add: s_def entered_def vmfunction_new_def new_vmobject_def Let_def names_of_def settled_def cur_locals_def depth_def
        parser_start_def no_token_def)
  show "strings_kept vm (cs_vm s)"
    by (auto simp: s_def entered_def vmfunction_new_def new_vmobject_def Let_def strings_kept_def is_str_append is_str_length)
  show "same_state vm (cs_vm s)"
    by (simp add: s_def entered_def vmfunction_new_def new_vmobject_def Let_def same_state_def)
qed

lemma ready_at_end: "cs_inv s \<Longrightarrow> ahead s [t] \<Longrightarrow> ready (at_end s)"
  by (auto simp: ready_def cs_inv_def parser_ok_def begun_def at_end_def)

lemma at_end_simps [simp]: "cur (at_end s) = cur s" "cs_vm (at_end s) = cs_vm s"
  "ps_hadError (cs_parser (at_end s)) = ps_hadError (cs_parser s)"
  by (simp_all add: at_end_def cur_def)

text \<open>What \<^verbatim>\<open>compile\<close> makes of the tokens of a program: a script with exactly the code and the constants of the program.\<close>

lemma compile_program:
  assumes vm: "heap_inv vm" "chunks_ok (vm_heap vm)" and toks: "tkz_values (toknzr code False) = ts @ [eof]"
    and sk: "map tok_sketch ts = concat (map ssketch as)" and wf: "wf_prog as" and fuel: "length ts + 2 < fuel"
  obtains r vm' where "compile fuel code vm = Inr (Some r, vm')" "is_fun (vm_heap vm') r" "chunk_inv (vf_chunk (fun_of (vm_heap vm') r))"
    "code_of (vf_chunk (fun_of (vm_heap vm') r)) = pcode 0 as @ [op_byte OP_NIL, op_byte OP_RETURN]"
    "list_all2 (denotes (vm_heap vm')) (bconsts [] as) (consts_of (vf_chunk (fun_of (vm_heap vm') r)))" "vf_name (fun_of (vm_heap vm') r) = None"
    "vf_arity (fun_of (vm_heap vm') r) = 0" "same_state vm vm'" "strings_kept vm vm'"
proof -
  let ?s = "entered TYPE_SCRIPT \<lparr>cs_parser = parser_start code, cs_compilers = [], cs_vm = vm\<rparr>"
  note s = entered_script [OF vm, of code]
  have eof: "tk_type eof = TOKEN_ENDOFFILE" using toks by (auto simp: toknzr_def Let_def)
  have "tk_type t \<noteq> TOKEN_ERROR" if "t \<in> set ts" for t
  proof -
    have "tok_sketch t \<in> set (concat (map ssketch as))" using that by (simp flip: sk)
    then obtain a where a: "a \<in> set as" "tok_sketch t \<in> set (ssketch a)" by auto
    then have "wf_top a" using wf by (auto simp: wf_prog_def list_all_iff)
    with top_no_error a(2) show ?thesis by (metis tok_sketch_def)
  qed
  then have ahd: "ahead ?s (ts @ [eof])" using toks eof s(2) by (auto simp: ahead_def parser_start_def)
  obtain s1 where s1: "compile_loop fuel ?s = Inr (at_end s1)" "evolves ?s s1 (length ts) (pcode 0 as) (bconsts [] as)"
      "as \<noteq> [] \<Longrightarrow> ready (moves (length ts) ?s)" "ahead s1 [eof]" "cs_inv s1"
  proof (rule compile_loop_code [OF s(1) ahd sk eof, of fuel])
    show "list_all wf_top as" "length (cur_consts ?s) + length (bconsts [] as) \<le> 256" using wf s(4) by (simp_all add: wf_prog_def)
    show "names ?s = []" "settled ?s" "depth ?s = 0" by (rule s(8), rule s(9), rule s(10))
  qed (use fuel that s(4) in simp_all)
  have inv1: "cs_inv (moves (length ts) ?s)" using s1(3) sk s(1) by (cases as) (auto simp: ready_def)
  note e1 = s1(2) [unfolded evolves_def]
  have i1: "cs_parser s1 = cs_parser (moves (length ts) ?s)" "cur s1 = cur ?s" using e1 by (simp_all add: emits_def cur_def)
  have r1: "ready (at_end s1)" by (rule ready_at_end [OF s1(5,4)])
  obtain s2 where s2: "emit_ops [OP_NIL, OP_RETURN] (at_end s1) = Inr s2" "evolves (at_end s1) s2 0 [op_byte OP_NIL, op_byte OP_RETURN] []"
    using emit_ops_emits [OF r1, of "[OP_NIL, OP_RETURN]"] by auto
  have ret: "emit_return (at_end s1) = Inr s2" using s2(1) by (auto simp: emit_return_def elim!: bind_result_InrE)
  note i2 = evolves_inv [OF s2(2), simplified, OF r1]
  have inv2: "cs_inv s2" using i2(1) by (simp add: ready_def)
  have "emits s1 (s2\<lparr>cs_parser := cs_parser s1\<rparr>) [op_byte OP_NIL, op_byte OP_RETURN] []"
    using s2(2) by (auto simp: evolves_def emits_def at_end_def cur_def)
  from emits_trans [OF e1 this]
  have e2: "vm_grown (cur ?s) (cs_vm ?s) (cs_vm s2)" "cur_code s2 = pcode 0 as @ [op_byte OP_NIL, op_byte OP_RETURN]"
      "list_all2 (denotes (vm_heap (cs_vm s2))) (bconsts [] as) (cur_consts s2)"
    using s(3,4) i1(2) i2(2) by (auto simp: emits_def cur_def)
  have "\<not> ps_hadError (cs_parser s2)" using i2(5) i1(1) s(2) by (simp add: at_end_def moves_def parser_start_def)
  then have "compile fuel code vm = Inr (Some (cur s2), cs_vm s2)"
    using s1(1) ret current_compiler_Inr [OF inv2] by (simp add: compile_def compiler_init_script compiler_end_def cur_def)
  moreover have "same_state vm (cs_vm s2)" "strings_kept vm (cs_vm s2)"
    using e2(1) s(7,11) by (simp_all add: vm_grown_def same_state_def strings_kept_def)
  moreover have "cur s2 = cur ?s" using i1(2) i2(2) by simp
  ultimately show thesis
    using that cur_is_fun [OF inv2] cur_chunk_inv [OF inv2] e2 s(5,6) by (simp add: vm_grown_def)
qed

end
