(* ===== verification/Clox_Run.thy ===== *)
theory Clox_Run
  imports Clox_Codegen_Prog
begin

text \<open>
  The meaning of the expressions and statements of \<open>Clox_Codegen\<close> and \<open>Clox_Codegen_Prog\<close>, and the proof
  that the machine of \<^verbatim>\<open>vm/vm.c\<close> gives their code this meaning: the values, the variables, the output with
  the extra line that \<^verbatim>\<open>OP_CONSTANT\<close> prints for every constant, the runtime errors, and the loops that
  do not end. The meaning of statements takes a number of loop rounds and is \<open>None\<close> when they are used up.
\<close>

section \<open>Meaning\<close>

definition truth :: "bool \<Rightarrow> Value" where
  "truth b = bool_val (bool_num b)"

definition shown :: "Value \<Rightarrow> out_item" where
  "shown v = (case v of VAL_NUMBER d \<Rightarrow> Number d | VAL_BOOL b \<Rightarrow> Text (if b \<noteq> 0 then ''true'' else ''false'') | _ \<Rightarrow> Text ''nil'')"

definition line_of :: "Value \<Rightarrow> out_item list" where
  "line_of v = [shown v, Text [CHR 0x0A]]"

text \<open>The messages of runtime errors.\<close>

definition type_error :: "string \<Rightarrow> err_item" where
  "type_error msg = Err_Msg msg [] []"

definition unknown_read :: "string \<Rightarrow> err_item" where
  "unknown_read x = Err_Msg (''Undefined variable at '' @ quoted_arg) [] [c_string x]"

definition unknown_write :: "string \<Rightarrow> err_item" where
  "unknown_write x = Err_Msg (''Undefined variable '' @ quoted_arg @ ''.'') [] [c_string x]"

definition numbers :: "(double \<Rightarrow> double \<Rightarrow> Value) \<Rightarrow> string \<Rightarrow> Value \<Rightarrow> Value \<Rightarrow> err_item + Value" where
  "numbers f msg l r = (case (l, r) of (VAL_NUMBER a, VAL_NUMBER b) \<Rightarrow> Inr (f a b) | _ \<Rightarrow> Inl (type_error msg))"

definition same_value :: "Value \<Rightarrow> Value \<Rightarrow> bool" where
  "same_value l r = (case (l, r) of
     (VAL_BOOL x, VAL_BOOL y) \<Rightarrow> x = y | (VAL_NUMBER x, VAL_NUMBER y) \<Rightarrow> dbl_eq x y | (VAL_NIL, VAL_NIL) \<Rightarrow> True | _ \<Rightarrow> False)"

definition need_numbers :: string where
  "need_numbers = ''Operands must be numbers.''"

fun binary_value :: "TokenType \<Rightarrow> Value \<Rightarrow> Value \<Rightarrow> err_item + Value" where
  "binary_value TOKEN_PLUS l r = numbers (\<lambda>a b. number_val (dbl_add a b)) ''Operands must be two numbers or two strings.'' l r"
| "binary_value TOKEN_MINUS l r = numbers (\<lambda>a b. number_val (dbl_sub a b)) need_numbers l r"
| "binary_value TOKEN_STAR l r = numbers (\<lambda>a b. number_val (dbl_mul a b)) need_numbers l r"
| "binary_value TOKEN_SLASH l r = numbers (\<lambda>a b. number_val (dbl_div a b)) need_numbers l r"
| "binary_value TOKEN_GREATER l r = numbers (\<lambda>a b. truth (dbl_less b a)) need_numbers l r"
| "binary_value TOKEN_LESS l r = numbers (\<lambda>a b. truth (dbl_less a b)) need_numbers l r"
| "binary_value TOKEN_GREATER_EQUAL l r = numbers (\<lambda>a b. truth (\<not> dbl_less a b)) need_numbers l r"
| "binary_value TOKEN_LESS_EQUAL l r = numbers (\<lambda>a b. truth (\<not> dbl_less b a)) need_numbers l r"
| "binary_value TOKEN_EQUAL_EQUAL l r = Inr (truth (same_value l r))"
| "binary_value _ l r = Inr (truth (\<not> same_value l r))"

definition unary_value :: "TokenType \<Rightarrow> Value \<Rightarrow> err_item + Value" where
  "unary_value ty v =
     (if ty = TOKEN_MINUS then (case v of VAL_NUMBER d \<Rightarrow> Inr (number_val (dbl_neg d)) | _ \<Rightarrow> Inl (type_error ''OPerand must be a number''))
      else Inr (truth (is_falsey v)))"

definition literal_value :: "TokenType \<Rightarrow> Value" where
  "literal_value ty = (if ty = TOKEN_FALSE then bool_val 0 else if ty = TOKEN_TRUE then bool_val 1 else nil_val)"

text \<open>Output and result; an \<open>Inl\<close> result is the message of a runtime error.\<close>

type_synonym 'a meaning = "out_item list \<times> (err_item + 'a)"

definition then_do :: "'a meaning \<Rightarrow> ('a \<Rightarrow> 'b meaning) \<Rightarrow> 'b meaning" where
  "then_do p f = (case p of (out, Inl msg) \<Rightarrow> (out, Inl msg) | (out, Inr x) \<Rightarrow> (case f x of (out', y) \<Rightarrow> (out @ out', y)))"

text \<open>
  The local variables in scope and the values that global variables were given, both newest
  first. A local hides the global of its name; a global must be defined before it is read or
  assigned.
\<close>

type_synonym bindings = "(string \<times> Value) list"
type_synonym store = "bindings \<times> bindings"

fun local_set :: "string \<Rightarrow> Value \<Rightarrow> bindings \<Rightarrow> bindings" where
  "local_set x v [] = []"
| "local_set x v ((y, w) # st) = (if x = y then (y, v) # st else (y, w) # local_set x v st)"

definition store_get :: "store \<Rightarrow> string \<Rightarrow> err_item + Value" where
  "store_get st x = (case map_of (fst st) x of Some v \<Rightarrow> Inr v
     | None \<Rightarrow> (case map_of (snd st) x of Some v \<Rightarrow> Inr v | None \<Rightarrow> Inl (unknown_read x)))"

definition store_set :: "string \<Rightarrow> Value \<Rightarrow> store \<Rightarrow> err_item + store" where
  "store_set x v st = (if map_of (fst st) x \<noteq> None then Inr (local_set x v (fst st), snd st)
     else if map_of (snd st) x \<noteq> None then Inr (fst st, (x, v) # snd st) else Inl (unknown_write x))"

definition with_local :: "string \<Rightarrow> Value \<Rightarrow> store \<Rightarrow> store" where
  "with_local x v st = ((x, v) # fst st, snd st)"

definition with_global :: "string \<Rightarrow> Value \<Rightarrow> store \<Rightarrow> store" where
  "with_global x v st = (fst st, (x, v) # snd st)"

definition keeping :: "store \<Rightarrow> err_item + Value \<Rightarrow> err_item + Value \<times> store" where
  "keeping st res = map_sum id (\<lambda>v. (v, st)) res"

fun eeval :: "cexp \<Rightarrow> store \<Rightarrow> (Value \<times> store) meaning" where
  "eeval (Num x) st = (line_of (number_val (strtod x)), Inr (number_val (strtod x), st))"
| "eeval (Lit ty) st = ([], Inr (literal_value ty, st))"
| "eeval (Unary ty a) st = then_do (eeval a st) (\<lambda>(v, st1). ([], keeping st1 (unary_value ty v)))"
| "eeval (Binary ty a b) st = then_do (eeval a st) (\<lambda>(l, st1). then_do (eeval b st1) (\<lambda>(r, st2). ([], keeping st2 (binary_value ty l r))))"
| "eeval (AndExp a b) st = then_do (eeval a st) (\<lambda>(l, st1). if is_falsey l then ([], Inr (l, st1)) else eeval b st1)"
| "eeval (OrExp a b) st = then_do (eeval a st) (\<lambda>(l, st1). if is_falsey l then eeval b st1 else ([], Inr (l, st1)))"
| "eeval (Group a) st = eeval a st"
| "eeval (Var x) st = ([], keeping st (store_get st x))"
| "eeval (Assign x a) st = then_do (eeval a st) (\<lambda>(v, st1). ([], map_sum id (\<lambda>st2. (v, st2)) (store_set x v st1)))"

text \<open>A meaning that may need more rounds than there are.\<close>

definition then_run :: "'a meaning \<Rightarrow> ('a \<Rightarrow> 'b meaning option) \<Rightarrow> 'b meaning option" where
  "then_run p f = (case p of (out, Inl msg) \<Rightarrow> Some (out, Inl msg) | (out, Inr x) \<Rightarrow> map_option (\<lambda>(out', y). (out @ out', y)) (f x))"

definition and_then :: "'a meaning option \<Rightarrow> ('a \<Rightarrow> 'b meaning option) \<Rightarrow> 'b meaning option" where
  "and_then q f = (case q of None \<Rightarrow> None | Some p \<Rightarrow> then_run p f)"

text \<open>
  The value of an initializer, the optional condition and increment of a loop, and the statements.
  The locals of a block are gone at its end. Loops take the number of rounds they may need.
\<close>

definition ieval :: "cexp option \<Rightarrow> store \<Rightarrow> (Value \<times> store) meaning" where
  "ieval i st = (case i of None \<Rightarrow> ([], Inr (nil_val, st)) | Some e \<Rightarrow> eeval e st)"

definition drop_locals :: "nat \<Rightarrow> store \<Rightarrow> store" where
  "drop_locals n st = (drop n (fst st), snd st)"

definition guard :: "cexp option \<Rightarrow> store \<Rightarrow> (Value \<times> store) meaning" where
  "guard c st = (case c of None \<Rightarrow> ([], Inr (truth True, st)) | Some e \<Rightarrow> eeval e st)"

definition incr :: "cexp option \<Rightarrow> store \<Rightarrow> store meaning" where
  "incr i st = (case i of None \<Rightarrow> ([], Inr st) | Some e \<Rightarrow> then_do (eeval e st) (\<lambda>(v, st1). ([], Inr st1)))"

fun rounds :: "nat \<Rightarrow> (store \<Rightarrow> (Value \<times> store) meaning) \<Rightarrow> (store \<Rightarrow> store meaning option) \<Rightarrow> (store \<Rightarrow> store meaning) \<Rightarrow> store \<Rightarrow> store meaning option" where
  "rounds 0 c a i st = None"
| "rounds (Suc n) c a i st = then_run (c st) (\<lambda>(v, st1). if is_falsey v then Some ([], Inr st1)
     else and_then (a st1) (\<lambda>st2. then_run (i st2) (\<lambda>st3. rounds n c a i st3)))"

fun seval :: "nat \<Rightarrow> cstmt \<Rightarrow> store \<Rightarrow> store meaning option"
  and beval :: "nat \<Rightarrow> cstmt list \<Rightarrow> store \<Rightarrow> store meaning option" where
  "seval n (Print e) st = then_run (eeval e st) (\<lambda>(v, st1). Some (line_of v, Inr st1))"
| "seval n (Expr e) st = then_run (eeval e st) (\<lambda>(v, st1). Some ([], Inr st1))"
| "seval n (IfThen c a) st = then_run (eeval c st) (\<lambda>(v, st1). if is_falsey v then Some ([], Inr st1) else seval n a st1)"
| "seval n (IfElse c a b) st = then_run (eeval c st) (\<lambda>(v, st1). if is_falsey v then seval n b st1 else seval n a st1)"
| "seval n (While c a) st = rounds n (guard (Some c)) (\<lambda>st. seval n a st) (incr None) st"
| "seval n (For fi c inc a) st = and_then (beval n fi st) (\<lambda>st1. and_then (rounds n (guard c) (\<lambda>st. seval n a st) (incr inc) st1)
     (\<lambda>st2. Some ([], Inr (drop_locals (length (declared fi)) st2))))"
| "seval n (Block as) st = and_then (beval n as st) (\<lambda>st1. Some ([], Inr (drop_locals (length (declared as)) st1)))"
| "seval n (VarDecl x i) st = then_run (ieval i st) (\<lambda>(v, st1). Some ([], Inr (with_local x v st1)))"
| "seval n (Global x i) st = then_run (ieval i st) (\<lambda>(v, st1). Some ([], Inr (with_global x v st1)))"
| "beval n [] st = Some ([], Inr st)"
| "beval n (a # as) st = and_then (seval n a st) (\<lambda>st1. beval n as st1)"

text \<open>The meaning of a program.\<close>

definition peval :: "nat \<Rightarrow> cstmt list \<Rightarrow> store meaning option" where
  "peval n as = beval n as ([], [])"

section \<open>Runs of the machine\<close>

text \<open>A run of at most \<open>k\<close> steps.\<close>

definition runs :: "nat \<Rightarrow> VM \<Rightarrow> VM \<Rightarrow> bool" where
  "runs k vm vm' \<longleftrightarrow> (\<exists>n\<le>k. \<forall>fuel. vm_run (n + fuel) vm = vm_run fuel vm')"

lemma runs_refl [simp]: "runs k vm vm"
  unfolding runs_def by (rule exI [of _ 0]) simp

lemma runs_trans:
  assumes "runs j a b" "runs k b c"
  shows "runs (j + k) a c"
proof -
  obtain n n' where "n \<le> j" "n' \<le> k" "\<And>fuel. vm_run (n + fuel) a = vm_run fuel b" "\<And>fuel. vm_run (n' + fuel) b = vm_run fuel c"
    using assms by (auto simp: runs_def)
  then show ?thesis unfolding runs_def by (intro exI [of _ "n + n'"]) (simp add: add.assoc)
qed

lemma runs_mono: "runs j a b \<Longrightarrow> j \<le> k \<Longrightarrow> runs k a b"
  unfolding runs_def by (meson order_trans)

lemma runs_step: "vm_step a = Inr (Running b) \<Longrightarrow> runs (Suc 0) a b"
  unfolding runs_def by (rule exI [of _ "Suc 0"]) simp

text \<open>The machine inside the script \<open>r\<close>.\<close>

definition script_ok :: "VM \<Rightarrow> nat \<Rightarrow> byte list \<Rightarrow> const_lit list \<Rightarrow> bool" where
  "script_ok m r code pool \<longleftrightarrow> is_fun (vm_heap m) r \<and> chunk_inv (vf_chunk (fun_of (vm_heap m) r))
     \<and> code_of (vf_chunk (fun_of (vm_heap m) r)) = code
     \<and> list_all2 (denotes (vm_heap m)) pool (consts_of (vf_chunk (fun_of (vm_heap m) r)))
     \<and> vf_name (fun_of (vm_heap m) r) = None"

definition conf :: "VM \<Rightarrow> nat \<Rightarrow> nat \<Rightarrow> Value list \<Rightarrow> out_item list \<Rightarrow> VM" where
  "conf m r ip st out = m\<lparr>vm_frames := [\<lparr>cf_function = r, cf_ip = ip, cf_slots = 0\<rparr>], vm_stack := st, vm_out := out\<rparr>"

lemma conf_simps [simp]:
  "vm_frames (conf m r ip st out) = [\<lparr>cf_function = r, cf_ip = ip, cf_slots = 0\<rparr>]" "vm_stack (conf m r ip st out) = st"
  "vm_out (conf m r ip st out) = out" "vm_heap (conf m r ip st out) = vm_heap m" "vm_err (conf m r ip st out) = vm_err m"
  "(conf m r ip st out)\<lparr>vm_stack := st'\<rparr> = conf m r ip st' out" "(conf m r ip st out)\<lparr>vm_out := out'\<rparr> = conf m r ip st out'"
  "set_ip (conf m r ip st out) ip' = conf m r ip' st out" "top_frame (conf m r ip st out) = Inr \<lparr>cf_function = r, cf_ip = ip, cf_slots = 0\<rparr>"
  by (simp_all add: conf_def set_ip_def top_frame_def)

lemma READ_BYTE_conf:
  assumes "script_ok m r code pool" "ip < length code"
  shows "READ_BYTE (conf m r ip st out) = Inr (conf m r (Suc ip) st out, code ! ip)"
  using assms code_at [of "vf_chunk (fun_of (vm_heap m) r)" ip]
  by (simp add: READ_BYTE_def script_ok_def as_function_is_fun)

lemma step_conf:
  assumes "script_ok m r code pool" "ip < length code" "code ! ip = op_byte instr"
  shows "vm_step (conf m r ip st out) = exec instr (conf m r (Suc ip) st out)"
  using READ_BYTE_conf [OF assms(1,2)] assms(3) by (simp add: vm_step_def)

lemma READ_CONSTANT_conf:
  assumes "script_ok m r code pool" "ip < length code" "code ! ip = of_nat k" "k < length pool" "k < 256"
  shows "\<exists>v. READ_CONSTANT (conf m r ip st out) = Inr (conf m r (Suc ip) st out, v) \<and> denotes (vm_heap m) (pool ! k) v"
proof -
  have "unat (of_nat k :: byte) = k" using assms(5) by (simp add: unat_of_nat)
  moreover have "list_all2 (denotes (vm_heap m)) pool (consts_of (vf_chunk (fun_of (vm_heap m) r)))" using assms(1) by (simp add: script_ok_def)
  ultimately show ?thesis
    using assms READ_BYTE_conf [OF assms(1,2)] const_at [of "vf_chunk (fun_of (vm_heap m) r)" k]
    by (auto simp: READ_CONSTANT_def script_ok_def as_function_is_fun list_all2_conv_all_nth)
qed

lemma READ_SHORT_conf:
  assumes "script_ok m r code pool" "Suc ip < length code" "code ! ip = jump_hi (int d)" "code ! Suc ip = jump_lo (int d)" "d \<le> 65535"
  shows "READ_SHORT (conf m r ip st out) = Inr (conf m r (ip + 2) st out, d)"
proof -
  have b: "READ_BYTE (conf m r ip st out) = Inr (conf m r (Suc ip) st out, jump_hi (int d))"
    "READ_BYTE (conf m r (Suc ip) st out) = Inr (conf m r (ip + 2) st out, jump_lo (int d))"
    using READ_BYTE_conf [OF assms(1), of ip] READ_BYTE_conf [OF assms(1), of "Suc ip"] assms(2-4) by simp_all
  have "int d \<le> SHORT_MAX" using assms(5) by (simp add: SHORT_MAX_def)
  then show ?thesis
    by (simp only: READ_SHORT_def b bind_result_Inr prod.case short_of_jump [OF of_nat_0_le_iff] nat_int)
qed

text \<open>A piece of code at a position.\<close>

definition segment :: "'a list \<Rightarrow> nat \<Rightarrow> 'a list \<Rightarrow> bool" where
  "segment xs i ys \<longleftrightarrow> (\<exists>us vs. xs = us @ ys @ vs \<and> length us = i)"

lemma segment_append: "segment xs i (ys @ zs) \<Longrightarrow> segment xs i ys \<and> segment xs (i + length ys) zs"
proof -
  assume "segment xs i (ys @ zs)"
  then obtain us vs where "xs = us @ (ys @ zs) @ vs" "length us = i" by (auto simp: segment_def)
  then have "xs = us @ ys @ (zs @ vs) \<and> length us = i" "xs = (us @ ys) @ zs @ vs \<and> length (us @ ys) = i + length ys" by auto
  then show ?thesis unfolding segment_def by blast
qed

lemma segment_Cons: "segment xs i (y # ys) \<Longrightarrow> i < length xs \<and> xs ! i = y \<and> segment xs (Suc i) ys"
proof -
  assume "segment xs i (y # ys)"
  then obtain us vs where "xs = us @ (y # ys) @ vs" "length us = i" by (auto simp: segment_def)
  then have "i < length xs" "xs ! i = y" "xs = (us @ [y]) @ ys @ vs \<and> length (us @ [y]) = Suc i" by auto
  then show ?thesis unfolding segment_def by blast
qed

lemma segment_parts: "segment xs i (a @ b @ c @ d) \<Longrightarrow> segment xs i a \<and> segment xs (i + length a) b
    \<and> segment xs (i + length a + length b) c \<and> segment xs (i + length a + length b + length c) d"
  by (auto dest!: segment_append)

lemma segment_self: "segment xs 0 xs"
  by (auto simp: segment_def)

section \<open>Single instructions\<close>

lemma push_conf: "length st < STACK_MAX \<Longrightarrow> push_run (conf m r ip st out) v = Inr (Running (conf m r ip (st @ [v]) out))"
  by (simp add: push_run_def vm_stack_push_def)

lemma pop_conf [simp]: "vm_stack_pop (conf m r ip (st @ [v]) out) = Inr (conf m r ip st out, v)"
  by (simp add: vm_stack_pop_def)

lemma peek_conf [simp]: "vm_stack_peek (conf m r ip (st @ [v]) out) 0 = Inr v"
  "vm_stack_peek (conf m r ip (st @ [l, v]) out) 0 = Inr v" "vm_stack_peek (conf m r ip (st @ [l, v]) out) (Suc 0) = Inr l"
  by (simp_all add: vm_stack_peek_def nth_append)

lemma pop2_conf [simp]: "vm_stack_pop (conf m r ip (st @ [l, v]) out) = Inr (conf m r ip (st @ [l]) out, v)"
  by (simp add: vm_stack_pop_def butlast_append)

text \<open>A runtime error: one message and the line of the script.\<close>

definition failed :: "VM \<Rightarrow> err_item \<Rightarrow> out_item list \<Rightarrow> VM \<Rightarrow> bool" where
  "failed m msg out vm' \<longleftrightarrow> vm_out vm' = out \<and> vm_stack vm' = [] \<and> vm_frames vm' = []
     \<and> (heap_inv m \<longrightarrow> heap_inv vm') \<and> (\<exists>line. vm_err vm' = vm_err m @ [msg, Err_Trace line None])"

lemma fail_conf:
  assumes "script_ok m r code pool" "0 < ip" "ip \<le> length code"
  shows "\<exists>vm'. fail (conf m r ip st out) msg = Inr (Done INTERPRET_RUNTIME_ERROR vm') \<and> failed m msg out vm'"
proof -
  let ?ck = "vf_chunk (fun_of (vm_heap m) r)"
  have "ip - 1 < ck_count ?ck" "filled (ck_count ?ck) (ck_lines ?ck)"
    using assms length_code_of [of ?ck] by (simp_all add: script_ok_def chunk_inv_def)
  then obtain line where "array_at (ck_lines ?ck) (ip - 1) = Inr line" using array_at_filled by metis
  then show ?thesis using assms(2)
    using assms(1) by (cases ip)
      (simp_all add: fail_def runtime_error_def script_ok_def as_function_is_fun failed_def vm_stack_reset_def heap_inv_def conf_def)
qed

definition prim :: "Value \<Rightarrow> bool" where
  "prim v \<longleftrightarrow> (case v of VAL_OBJECT _ \<Rightarrow> False | _ \<Rightarrow> True)"

lemma prim_simps [simp]: "prim (VAL_NUMBER d)" "prim (VAL_BOOL b)" "prim VAL_NIL" "\<not> prim (VAL_OBJECT q)"
  by (simp_all add: prim_def)

lemma value_print_prim: "prim v \<Longrightarrow> value_print H v = Inr (shown v)"
  by (cases v) (simp_all add: value_print_def shown_def)

lemma print_conf: "prim v \<Longrightarrow> print_line (conf m r ip st out) v = Inr (conf m r ip st (out @ line_of v))"
  by (simp add: print_line_def value_print_prim line_of_def)

lemma values_equal_prim: "prim a \<Longrightarrow> prim b \<Longrightarrow> values_equal H a b = Inr (same_value a b)"
  by (cases a; cases b; simp add: values_equal_def same_value_def)

text \<open>What a piece of code makes of the machine, given the meaning of its source.\<close>

definition reaches :: "nat \<Rightarrow> VM \<Rightarrow> VM \<Rightarrow> out_item list \<Rightarrow> 'a meaning \<Rightarrow> ('a \<Rightarrow> out_item list \<Rightarrow> VM) \<Rightarrow> ('a \<Rightarrow> bool) \<Rightarrow> bool" where
  "reaches k m a out p b P = (case p of
      (out', Inr x) \<Rightarrow> runs k a (b x (out @ out')) \<and> P x
    | (out', Inl msg) \<Rightarrow> (\<exists>n vm'. n \<le> k \<and> (\<forall>fuel. vm_run (n + fuel) a = Inr (INTERPRET_RUNTIME_ERROR, vm')) \<and> failed m msg (out @ out') vm'))"

lemma reaches_mono: "reaches j m a out p b P \<Longrightarrow> j \<le> k \<Longrightarrow> reaches k m a out p b P"
  unfolding reaches_def runs_def by (auto split: prod.splits sum.splits; meson order_trans)

lemma reaches_then:
  assumes "reaches j m a out p b P" "\<And>x. P x \<Longrightarrow> reaches k m (b x (out @ fst p)) (out @ fst p) (f x) c Q"
  shows "reaches (j + k) m a out (then_do p f) c Q"
proof -
  obtain out1 x where p: "p = (out1, x)" by (cases p)
  show ?thesis
  proof (cases x)
    case (Inl msg)
    then have "reaches j m a out (then_do p f) c Q" using assms(1) p by (simp add: reaches_def then_do_def)
    then show ?thesis by (rule reaches_mono) simp
  next
    case (Inr v)
    have r: "runs j a (b v (out @ out1))" and "P v" using assms(1) p Inr by (simp_all add: reaches_def)
    then have 2: "reaches k m (b v (out @ out1)) (out @ out1) (f v) c Q" using assms(2) p by simp
    obtain n where n: "n \<le> j" "\<And>fuel. vm_run (n + fuel) a = vm_run fuel (b v (out @ out1))" using r by (auto simp: runs_def)
    obtain out2 y where f: "f v = (out2, y)" by (cases "f v")
    show ?thesis
    proof (cases y)
      case (Inl msg)
      then obtain i vm' where i: "i \<le> k" "\<And>fuel. vm_run (i + fuel) (b v (out @ out1)) = Inr (INTERPRET_RUNTIME_ERROR, vm')" "failed m msg (out @ out1 @ out2) vm'"
        using 2 f by (auto simp: reaches_def)
      then have "n + i \<le> j + k" "\<forall>fuel. vm_run (n + i + fuel) a = Inr (INTERPRET_RUNTIME_ERROR, vm')" using n by (simp_all add: add.assoc)
      then have "\<exists>n vm'. n \<le> j + k \<and> (\<forall>fuel. vm_run (n + fuel) a = Inr (INTERPRET_RUNTIME_ERROR, vm')) \<and> failed m msg (out @ out1 @ out2) vm'"
        using i(3) by blast
      then show ?thesis using p \<open>x = Inr v\<close> f Inl by (simp add: reaches_def then_do_def)
    next
      case (Inr w)
      then show ?thesis using 2 r p \<open>x = Inr v\<close> f by (auto simp: reaches_def then_do_def intro: runs_trans)
    qed
  qed
qed

lemma reaches_both:
  "reaches j m a out p b P \<Longrightarrow> (\<And>x. P x \<Longrightarrow> reaches k m (b x (out @ fst p)) (out @ fst p) (f x) c Q) \<Longrightarrow> j + k \<le> n
    \<Longrightarrow> reaches n m a out (then_do p f) c Q"
  by (rule reaches_mono [OF reaches_then])

lemma reaches_value: "runs k a (b x out) \<Longrightarrow> P x \<Longrightarrow> reaches k m a out ([], Inr x) b P"
  by (simp add: reaches_def)

lemma reaches_run:
  assumes "runs j a a'" "reaches k m a' out p b P"
  shows "reaches (j + k) m a out p b P"
proof -
  have "reaches (j + k) m a out (then_do ([], Inr ()) (\<lambda>_. p)) b P"
    by (rule reaches_then [where b = "\<lambda>_ _. a'" and P = "\<lambda>_. True"]) (use assms in \<open>simp_all add: reaches_def [of j m a out "([], Inr ())"]\<close>)
  then show ?thesis by (simp add: then_do_def split: prod.splits)
qed

section \<open>Operators and jumps\<close>

fun eheight :: "cexp \<Rightarrow> nat" where
  "eheight (Num x) = 1"
| "eheight (Lit ty) = 1"
| "eheight (Unary ty a) = eheight a"
| "eheight (Binary ty a b) = max (eheight a) (Suc (eheight b))"
| "eheight (AndExp a b) = max (eheight a) (eheight b)"
| "eheight (OrExp a b) = max (eheight a) (eheight b)"
| "eheight (Group a) = eheight a"
| "eheight (Var x) = 1"
| "eheight (Assign x a) = eheight a"

lemma eheight_pos: "0 < eheight e"
  by (induction e) auto

lemma step_reaches:
  assumes "script_ok m r code pool" "segment code ip [op_byte instr]"
    "exec instr (conf m r (Suc ip) st out) = Inr (Running (conf m r (Suc ip) (st' @ [v]) out))" "prim v"
  shows "reaches (Suc 0) m (conf m r ip st out) out ([], Inr v) (\<lambda>v. conf m r (Suc ip) (st' @ [v])) prim"
  using assms step_conf [OF assms(1), of ip instr] segment_Cons [OF assms(2)] by (intro reaches_value runs_step) auto

lemma fail_reaches:
  assumes "script_ok m r code pool" "vm_step a = fail (conf m r ip st out) msg" "0 < ip" "ip \<le> length code"
  shows "reaches (Suc 0) m a out ([], Inl msg) b P"
proof -
  obtain vm' where "fail (conf m r ip st out) msg = Inr (Done INTERPRET_RUNTIME_ERROR vm')" "failed m msg out vm'"
    using fail_conf [OF assms(1,3,4)] by blast
  then have "vm_run (Suc 0 + fuel) a = Inr (INTERPRET_RUNTIME_ERROR, vm')" for fuel using assms(2) by simp
  with \<open>failed m msg out vm'\<close> show ?thesis unfolding reaches_def prod.case sum.case append_Nil2 by (intro exI [of _ "Suc 0"]) blast
qed

lemma step_fails:
  assumes "script_ok m r code pool" "segment code ip [op_byte instr]"
    "exec instr (conf m r (Suc ip) st out) = fail (conf m r (Suc ip) st out) (Err_Msg msg [] [])"
  shows "reaches (Suc 0) m (conf m r ip st out) out ([], Inl (type_error msg)) b P"
proof -
  have i: "ip < length code" "code ! ip = op_byte instr" using segment_Cons [OF assms(2)] by auto
  show ?thesis
    unfolding type_error_def by (rule fail_reaches [OF assms(1), of _ "Suc ip" st]) (use step_conf [OF assms(1) i] assms(3) i(1) in simp_all)
qed

lemma unary_reaches:
  assumes "script_ok m r code pool" "segment code ip [op_byte (unary_op ty)]" "prim v" "length st < STACK_MAX"
  shows "reaches (Suc 0) m (conf m r ip (st @ [v]) out) out ([], unary_value ty v) (\<lambda>v. conf m r (Suc ip) (st @ [v])) prim"
proof (cases "ty = TOKEN_MINUS")
  case True
  then have seg: "segment code ip [op_byte OP_NEGATE]" using assms(2) by (simp add: unary_op_def)
  show ?thesis
  proof (cases "\<exists>d. v = VAL_NUMBER d")
    case True
    then show ?thesis using \<open>ty = _\<close> assms(4)
      by (auto simp: unary_value_def number_val_def push_conf intro!: step_reaches [OF assms(1) seg])
  next
    case False
    then have "unary_value ty v = Inl (type_error ''OPerand must be a number'')" using \<open>ty = _\<close> by (simp add: unary_value_def split: Value.splits)
    then show ?thesis using False by (auto intro!: step_fails [OF assms(1) seg] split: Value.splits)
  qed
next
  case False
  then show ?thesis using assms(2,4)
    by (auto simp: unary_value_def unary_op_def truth_def bool_val_def push_conf intro!: step_reaches [OF assms(1)])
qed

lemma numbers_reaches:
  assumes "script_ok m r code pool" "segment code ip [op_byte instr]" "\<And>a b. prim (f a b)" "length st < STACK_MAX"
    "\<And>a b. exec instr (conf m r (Suc ip) (st @ [VAL_NUMBER a, VAL_NUMBER b]) out) = push_run (conf m r (Suc ip) st out) (f a b)"
    "(\<nexists>a b. l = VAL_NUMBER a \<and> v = VAL_NUMBER b) \<Longrightarrow>
       exec instr (conf m r (Suc ip) (st @ [l, v]) out) = fail (conf m r (Suc ip) (st @ [l, v]) out) (Err_Msg msg [] [])"
  shows "reaches (Suc 0) m (conf m r ip (st @ [l, v]) out) out ([], numbers f msg l v) (\<lambda>v. conf m r (Suc ip) (st @ [v])) prim"
proof (cases "\<exists>a b. l = VAL_NUMBER a \<and> v = VAL_NUMBER b")
  case True
  then show ?thesis using assms(3-5) by (auto simp: numbers_def push_conf intro!: step_reaches [OF assms(1,2)])
next
  case False
  then have "numbers f msg l v = Inl (type_error msg)" by (auto simp: numbers_def split: Value.splits)
  then show ?thesis using step_fails [OF assms(1,2) assms(6)] False by auto
qed

lemma is_falsey_truth [simp]: "is_falsey (truth b) \<longleftrightarrow> \<not> b"
  by (simp add: truth_def is_falsey_def bool_val_def bool_num_def)

lemma prim_truth [simp]: "prim (truth b)" "prim (number_val d)"
  by (simp_all add: truth_def bool_val_def number_val_def)

lemma then_not:
  "([], numbers (\<lambda>a b. truth (\<not> g a b)) msg l v) = then_do ([], numbers (\<lambda>a b. truth (g a b)) msg l v) (\<lambda>w. ([], unary_value TOKEN_BANG w))"
  "([], Inr (truth (\<not> x))) = then_do ([], Inr (truth x)) (\<lambda>w. ([], unary_value TOKEN_BANG w))"
  by (auto simp: then_do_def numbers_def unary_value_def split: Value.splits)

lemma compare_reaches:
  assumes "script_ok m r code pool" "length st < STACK_MAX" "prim l" "prim v"
  shows "segment code ip [op_byte OP_LESS] \<Longrightarrow> reaches (Suc 0) m (conf m r ip (st @ [l, v]) out) out
      ([], numbers (\<lambda>a b. truth (dbl_less a b)) need_numbers l v) (\<lambda>v. conf m r (Suc ip) (st @ [v])) prim"
    and "segment code ip [op_byte OP_GREATER] \<Longrightarrow> reaches (Suc 0) m (conf m r ip (st @ [l, v]) out) out
      ([], numbers (\<lambda>a b. truth (dbl_less b a)) need_numbers l v) (\<lambda>v. conf m r (Suc ip) (st @ [v])) prim"
    and "segment code ip [op_byte OP_EQUAL] \<Longrightarrow> reaches (Suc 0) m (conf m r ip (st @ [l, v]) out) out
      ([], Inr (truth (same_value l v))) (\<lambda>v. conf m r (Suc ip) (st @ [v])) prim"
  using assms
  by (auto intro!: numbers_reaches step_reaches simp: BINARY_OP_def truth_def bool_val_def need_numbers_def values_equal_prim push_conf
      split: Value.splits)

lemma arithmetic_reaches:
  assumes "script_ok m r code pool" "length st < STACK_MAX" "prim l" "prim v"
  shows "segment code ip [op_byte OP_ADD] \<Longrightarrow> reaches (Suc 0) m (conf m r ip (st @ [l, v]) out) out
      ([], numbers (\<lambda>a b. number_val (dbl_add a b)) ''Operands must be two numbers or two strings.'' l v) (\<lambda>v. conf m r (Suc ip) (st @ [v])) prim"
    and "segment code ip [op_byte OP_SUBTRACT] \<Longrightarrow> reaches (Suc 0) m (conf m r ip (st @ [l, v]) out) out
      ([], numbers (\<lambda>a b. number_val (dbl_sub a b)) need_numbers l v) (\<lambda>v. conf m r (Suc ip) (st @ [v])) prim"
    and "segment code ip [op_byte OP_MULTIPLY] \<Longrightarrow> reaches (Suc 0) m (conf m r ip (st @ [l, v]) out) out
      ([], numbers (\<lambda>a b. number_val (dbl_mul a b)) need_numbers l v) (\<lambda>v. conf m r (Suc ip) (st @ [v])) prim"
    and "segment code ip [op_byte OP_DIVIDE] \<Longrightarrow> reaches (Suc 0) m (conf m r ip (st @ [l, v]) out) out
      ([], numbers (\<lambda>a b. number_val (dbl_div a b)) need_numbers l v) (\<lambda>v. conf m r (Suc ip) (st @ [v])) prim"
  using assms
  by (auto intro!: numbers_reaches simp: BINARY_OP_def need_numbers_def IS_STRING_def split: Value.splits)

lemma binary_reaches:
  assumes ok: "script_ok m r code pool" and seg: "segment code ip (map op_byte (binary_ops ty))" and ty: "binary_ops ty \<noteq> []"
    and prim: "prim l" "prim v" and room: "length st < STACK_MAX"
  shows "reaches (length (binary_ops ty)) m (conf m r ip (st @ [l, v]) out) out ([], binary_value ty l v)
    (\<lambda>v. conf m r (ip + length (binary_ops ty)) (st @ [v])) prim"
proof -
  note one = compare_reaches [OF ok room prim, of ip out] arithmetic_reaches [OF ok room prim, of ip out]
  have two: "reaches (Suc (Suc 0)) m (conf m r ip (st @ [l, v]) out) out (then_do p (\<lambda>w. ([], unary_value TOKEN_BANG w))) (\<lambda>v. conf m r (ip + 2) (st @ [v])) prim"
    if "reaches (Suc 0) m (conf m r ip (st @ [l, v]) out) out p (\<lambda>v. conf m r (Suc ip) (st @ [v])) prim" "segment code (Suc ip) [op_byte OP_NOT]" for p
    using unary_reaches [OF ok, of "Suc ip" TOKEN_BANG] that(2) room
    by (intro reaches_both [OF that(1)]) (auto simp: unary_op_def)
  have seg2: "segment code ip [a] \<and> segment code (Suc ip) [b]" if "segment code ip [a, b]" for a b
    using segment_append [of code ip "[a]" "[b]"] that by simp
  show ?thesis
    using ty seg one seg2 two
    by (cases ty) (auto simp: then_not)
qed

lemma literal_runs:
  assumes "script_ok m r code pool" "segment code ip [op_byte (literal_op ty)]" "length st < STACK_MAX"
  shows "reaches (Suc 0) m (conf m r ip st out) out ([], Inr (literal_value ty)) (\<lambda>v. conf m r (Suc ip) (st @ [v])) prim"
  by (rule step_reaches [OF assms(1,2)])
    (use assms(3) in \<open>auto simp: literal_op_def literal_value_def push_conf bool_val_def nil_val_def\<close>)

lemma constant_runs:
  assumes "script_ok m r code pool" "segment code ip [op_byte OP_CONSTANT, of_nat k]" "segment pool k [Number_Lit v]" "k < 256" "prim v"
    "length st < STACK_MAX"
  shows "runs (Suc 0) (conf m r ip st out) (conf m r (ip + 2) (st @ [v]) (out @ line_of v))"
proof (rule runs_step)
  have "segment code ip ([op_byte OP_CONSTANT] @ [of_nat k])" using assms(2) by simp
  note i = segment_Cons [OF assms(2)] segment_Cons [OF conjunct2 [OF segment_append [OF this]]] and k = segment_Cons [OF assms(3)]
  have "exec OP_CONSTANT (conf m r (Suc ip) st out) = Inr (Running (conf m r (ip + 2) (st @ [v]) (out @ line_of v)))"
    using READ_CONSTANT_conf [OF assms(1), of "Suc ip" k st out] i k assms(4-6) by (auto simp: vm_stack_push_def print_conf denotes_def)
  then show "vm_step (conf m r ip st out) = Inr (Running (conf m r (ip + 2) (st @ [v]) (out @ line_of v)))"
    using step_conf [OF assms(1)] i by simp
qed

lemma jump_if_false_step:
  assumes "script_ok m r code pool" "segment code ip (jump_code OP_JUMP_IF_FALSE d)" "d \<le> 255"
  shows "vm_step (conf m r ip (st @ [v]) out) = Inr (Running (conf m r (if is_falsey v then ip + 3 + d else ip + 3) (st @ [v]) out))"
proof -
  have i: "ip < length code" "code ! ip = op_byte OP_JUMP_IF_FALSE" "Suc (Suc ip) < length code" "code ! Suc ip = jump_hi (int d)"
    "code ! Suc (Suc ip) = jump_lo (int d)"
    using assms(2) by (auto simp: jump_code_def dest!: segment_Cons)
  have d: "d \<le> 65535" using assms(3) by simp
  show ?thesis
    using step_conf [OF assms(1) i(1,2)] READ_SHORT_conf [OF assms(1) i(3-5) d] by (simp add: ac_simps eval_nat_numeral)
qed

lemmas jump_if_false_runs = runs_step [OF jump_if_false_step]

lemma jump_runs:
  assumes "script_ok m r code pool" "segment code ip (jump_code OP_JUMP d)" "d \<le> 255"
  shows "runs (Suc 0) (conf m r ip st out) (conf m r (ip + 3 + d) st out)"
proof (rule runs_step)
  have i: "ip < length code" "code ! ip = op_byte OP_JUMP" "Suc (Suc ip) < length code" "code ! Suc ip = jump_hi (int d)"
    "code ! Suc (Suc ip) = jump_lo (int d)"
    using assms(2) by (auto simp: jump_code_def dest!: segment_Cons)
  have d: "d \<le> 65535" using assms(3) by simp
  show "vm_step (conf m r ip st out) = Inr (Running (conf m r (ip + 3 + d) st out))"
    using step_conf [OF assms(1) i(1,2)] READ_SHORT_conf [OF assms(1) i(3-5) d] by (simp add: ac_simps eval_nat_numeral)
qed

lemma loop_step:
  assumes "script_ok m r code pool" "segment code ip (jump_code OP_LOOP d)" "d \<le> 65535" "d \<le> ip + 3"
  shows "vm_step (conf m r ip st out) = Inr (Running (conf m r (ip + 3 - d) st out))"
proof -
  have i: "ip < length code" "code ! ip = op_byte OP_LOOP" "Suc (Suc ip) < length code" "code ! Suc ip = jump_hi (int d)"
    "code ! Suc (Suc ip) = jump_lo (int d)"
    using assms(2) by (auto simp: jump_code_def dest!: segment_Cons)
  show ?thesis
    using step_conf [OF assms(1) i(1,2)] READ_SHORT_conf [OF assms(1) i(3-5) assms(3)] assms(4) by (simp add: ac_simps eval_nat_numeral)
qed

lemmas loop_runs = runs_step [OF loop_step]

lemma pop_runs:
  assumes "script_ok m r code pool" "segment code ip [op_byte OP_POP]"
  shows "runs (Suc 0) (conf m r ip (st @ [v]) out) (conf m r (Suc ip) st out)"
  using step_conf [OF assms(1)] segment_Cons [OF assms(2)] by (intro runs_step) simp

section \<open>Global variables\<close>

text \<open>The string object of a name, and the machine after global variables were given values.\<close>

definition spelled :: "objects \<Rightarrow> string \<Rightarrow> nat \<Rightarrow> bool" where
  "spelled H x q \<longleftrightarrow> is_str H q \<and> vs_chars (str_of H q) = x"

definition name_ref :: "objects \<Rightarrow> string \<Rightarrow> nat" where
  "name_ref H x = (THE q. spelled H x q)"

definition assigned :: "objects \<Rightarrow> string \<times> Value \<Rightarrow> Table \<Rightarrow> Table" where
  "assigned H b t = (case table_set (str_of H) t (name_ref H (fst b)) (snd b) of Inr (t', _) \<Rightarrow> t' | Inl _ \<Rightarrow> t)"

definition gl :: "VM \<Rightarrow> bindings \<Rightarrow> VM" where
  "gl m G = m\<lparr>vm_globals := foldr (assigned (vm_heap m)) G (vm_globals m)\<rparr>"

text \<open>The table of globals is valid and defines none of the names among the constants.\<close>

definition names_ready :: "VM \<Rightarrow> const_lit list \<Rightarrow> bool" where
  "names_ready m pool \<longleftrightarrow> heap_inv m \<and> table_inv (str_of (vm_heap m)) (vm_globals m)
     \<and> (\<forall>x. Name_Lit x \<in> set pool \<longrightarrow> (\<exists>q. spelled (vm_heap m) x q) \<and> table_abs (vm_globals m) (name_ref (vm_heap m) x) = None)"

lemma gl_simps [simp]: "vm_heap (gl m G) = vm_heap m" "vm_err (gl m G) = vm_err m" "gl m [] = m" "heap_inv (gl m G) = heap_inv m"
  "script_ok (gl m G) r code pool = script_ok m r code pool" "failed (gl m G) msg out vm' = failed m msg out vm'"
  by (simp_all add: gl_def heap_inv_def script_ok_def failed_def)

lemma reaches_gl [simp]: "reaches k (gl m G) = reaches k m"
  by (intro ext) (simp add: reaches_def split: prod.splits sum.splits)

lemma named_unique: "heap_inv m \<Longrightarrow> spelled (vm_heap m) x q \<Longrightarrow> spelled (vm_heap m) x p \<Longrightarrow> p = q"
  by (auto simp: heap_inv_def interned_def spelled_def)

lemma name_ref_eq: "heap_inv m \<Longrightarrow> spelled (vm_heap m) x q \<Longrightarrow> name_ref (vm_heap m) x = q"
  unfolding name_ref_def by (rule the_equality) (auto dest: named_unique)

lemma name_ref_inj:
  "heap_inv m \<Longrightarrow> spelled (vm_heap m) x q \<Longrightarrow> spelled (vm_heap m) y p \<Longrightarrow> name_ref (vm_heap m) x = name_ref (vm_heap m) y \<Longrightarrow> x = y"
  using name_ref_eq [of m x q] name_ref_eq [of m y p] by (auto simp: spelled_def)

lemma assigned_set:
  assumes "table_inv (str_of H) t"
  shows "table_set (str_of H) t (name_ref H x) v = Inr (assigned H (x, v) t, table_abs t (name_ref H x) = None)"
    "table_inv (str_of H) (assigned H (x, v) t)" "table_abs (assigned H (x, v) t) = (table_abs t)(name_ref H x \<mapsto> v)"
proof -
  obtain t' where t': "table_set (str_of H) t (name_ref H x) v = Inr (t', table_abs t (name_ref H x) = None)" "table_inv (str_of H) t'"
      "table_abs t' = (table_abs t)(name_ref H x \<mapsto> v)"
    by (rule table_set_spec [OF assms])
  then have "assigned H (x, v) t = t'" by (simp add: assigned_def)
  with t' show "table_set (str_of H) t (name_ref H x) v = Inr (assigned H (x, v) t, table_abs t (name_ref H x) = None)"
    "table_inv (str_of H) (assigned H (x, v) t)" "table_abs (assigned H (x, v) t) = (table_abs t)(name_ref H x \<mapsto> v)" by simp_all
qed

definition pooled :: "const_lit list \<Rightarrow> bindings \<Rightarrow> bool" where
  "pooled pool G \<longleftrightarrow> (\<forall>b\<in>set G. Name_Lit (fst b) \<in> set pool)"

lemma globals_abs:
  assumes "names_ready m pool" "pooled pool G"
  shows "table_inv (str_of (vm_heap m)) (vm_globals (gl m G))"
    "Name_Lit x \<in> set pool \<Longrightarrow> table_abs (vm_globals (gl m G)) (name_ref (vm_heap m) x) = map_of G x"
proof -
  let ?H = "vm_heap m" and ?t = "vm_globals m"
  have "table_inv (str_of ?H) (foldr (assigned ?H) G ?t)
      \<and> (\<forall>x. Name_Lit x \<in> set pool \<longrightarrow> table_abs (foldr (assigned ?H) G ?t) (name_ref ?H x) = map_of G x)"
    using assms(2)
  proof (induction G)
    case Nil
    then show ?case using assms(1) by (simp add: names_ready_def)
  next
    case (Cons b G)
    obtain y v where b: "b = (y, v)" by (cases b)
    note IH = Cons.IH [of] and s = assigned_set [where x = y and v = v]
    have inv: "table_inv (str_of ?H) (foldr (assigned ?H) G ?t)" and pool: "Name_Lit y \<in> set pool" using Cons b by (auto simp: pooled_def)
    have "name_ref ?H x = name_ref ?H y \<longleftrightarrow> x = y" if "Name_Lit x \<in> set pool" for x
      using name_ref_inj [of m x _ y] assms(1) that pool unfolding names_ready_def by metis
    then show ?case using Cons b s(2,3) [OF inv] by (auto simp: pooled_def)
  qed
  then show "table_inv (str_of ?H) (vm_globals (gl m G))"
    "Name_Lit x \<in> set pool \<Longrightarrow> table_abs (vm_globals (gl m G)) (name_ref ?H x) = map_of G x" by (auto simp: gl_def)
qed

lemma gl_more: "(conf (gl m G) r ip st out)\<lparr>vm_globals := assigned (vm_heap m) b (vm_globals (gl m G))\<rparr> = conf (gl m (b # G)) r ip st out"
  by (simp add: gl_def conf_def)

lemma conf_globals [simp]: "vm_globals (conf m r ip st out) = vm_globals m"
  by (simp add: conf_def)

text \<open>The instructions on globals; the operand is the index of the name.\<close>

lemma READ_STRING_conf:
  assumes "script_ok m r code pool" "names_ready m pool" "ip < length code" "code ! ip = of_nat k" "segment pool k [Name_Lit x]" "k < 256"
  shows "READ_STRING (conf (gl m G) r ip st out) = Inr (conf (gl m G) r (Suc ip) st out, name_ref (vm_heap m) x)"
    "vs_chars (str_of (vm_heap m) (name_ref (vm_heap m) x)) = x"
proof -
  have k: "k < length pool" "pool ! k = Name_Lit x" using segment_Cons [OF assms(5)] by simp_all
  obtain v where v: "READ_CONSTANT (conf (gl m G) r ip st out) = Inr (conf (gl m G) r (Suc ip) st out, v)" "denotes (vm_heap m) (Name_Lit x) v"
    using READ_CONSTANT_conf [of "gl m G" r code pool ip k st out] assms k by auto
  obtain q where q: "v = object_val q" "spelled (vm_heap m) x q" using v(2) by (auto simp: denotes_def spelled_def)
  have ref: "name_ref (vm_heap m) x = q" by (rule name_ref_eq [OF _ q(2)]) (use assms(2) in \<open>simp add: names_ready_def\<close>)
  then show "READ_STRING (conf (gl m G) r ip st out) = Inr (conf (gl m G) r (Suc ip) st out, name_ref (vm_heap m) x)"
    using v(1) q by (simp add: READ_STRING_def as_object_def object_val_def as_string_is_str spelled_def)
  show "vs_chars (str_of (vm_heap m) (name_ref (vm_heap m) x)) = x" using q(2) ref by (simp add: spelled_def)
qed

lemma global_step:
  assumes "script_ok m r code pool" "names_ready m pool" "segment code ip [op_byte instr, of_nat k]" "segment pool k [Name_Lit x]" "k < 256"
  shows "vm_step (conf (gl m G) r ip st out) = exec instr (conf (gl m G) r (Suc ip) st out)"
    "READ_STRING (conf (gl m G) r (Suc ip) st out) = Inr (conf (gl m G) r (ip + 2) st out, name_ref (vm_heap m) x)"
    "vs_chars (str_of (vm_heap m) (name_ref (vm_heap m) x)) = x" "ip + 2 \<le> length code" "Name_Lit x \<in> set pool"
proof -
  have i: "ip < length code" "code ! ip = op_byte instr" "Suc ip < length code" "code ! Suc ip = of_nat k"
    using assms(3) by (auto dest!: segment_Cons)
  show "vm_step (conf (gl m G) r ip st out) = exec instr (conf (gl m G) r (Suc ip) st out)"
    by (rule step_conf [of _ _ code pool]) (use assms(1) i in simp_all)
  show "READ_STRING (conf (gl m G) r (Suc ip) st out) = Inr (conf (gl m G) r (ip + 2) st out, name_ref (vm_heap m) x)"
    "vs_chars (str_of (vm_heap m) (name_ref (vm_heap m) x)) = x"
    using READ_STRING_conf [OF assms(1,2) i(3,4) assms(4,5)] by simp_all
  show "ip + 2 \<le> length code" using i(3) by simp
  show "Name_Lit x \<in> set pool" using segment_Cons [OF assms(4)] by (metis nth_mem)
qed

lemma get_global_reaches:
  assumes "script_ok m r code pool" "names_ready m pool" "segment code ip [op_byte OP_GET_GLOBAL, of_nat k]" "segment pool k [Name_Lit x]" "k < 256"
    "pooled pool G" "length st < STACK_MAX" "list_all prim (map snd G)"
  shows "reaches (Suc 0) m (conf (gl m G) r ip st out) out ([], case map_of G x of Some v \<Rightarrow> Inr v | None \<Rightarrow> Inl (unknown_read x))
    (\<lambda>v. conf (gl m G) r (ip + 2) (st @ [v])) prim"
proof -
  note g = global_step [OF assms(1-5)] and a = globals_abs [OF assms(2,6)]
  have get: "table_get (str_of (vm_heap m)) (vm_globals (gl m G)) (name_ref (vm_heap m) x) = Inr (map_of G x)"
    using table_get_spec [OF a(1), of "name_ref (vm_heap m) x"] a(2) [OF g(5)] by simp
  show ?thesis
  proof (cases "map_of G x")
    case None
    have "reaches (Suc 0) (gl m G) (conf (gl m G) r ip st out) out ([], Inl (unknown_read x)) b P" for b :: "Value \<Rightarrow> out_item list \<Rightarrow> VM" and P
      by (rule fail_reaches [of _ r code pool _ "ip + 2" st]) (use g get None assms(1) in \<open>simp_all add: unknown_read_def\<close>)
    then show ?thesis using None by simp
  next
    case (Some v)
    have "prim v" using Some assms(8) by (auto simp: list_all_iff dest!: map_of_SomeD)
    then show ?thesis using g(1,2) get Some assms(7) by (auto simp: push_conf intro!: reaches_value runs_step)
  qed
qed

lemma set_global_reaches:
  assumes "script_ok m r code pool" "names_ready m pool" "segment code ip [op_byte OP_SET_GLOBAL, of_nat k]" "segment pool k [Name_Lit x]" "k < 256"
    "pooled pool G"
  shows "reaches (Suc 0) m (conf (gl m G) r ip (st @ [v]) out) out ([], if map_of G x \<noteq> None then Inr () else Inl (unknown_write x))
    (\<lambda>_. conf (gl m ((x, v) # G)) r (ip + 2) (st @ [v])) (\<lambda>_. True)"
proof -
  note g = global_step [OF assms(1-5)] and a = globals_abs [OF assms(2,6)]
  note s = assigned_set [OF a(1), of x v]
  show ?thesis
  proof (cases "map_of G x")
    case None
    have "reaches (Suc 0) (gl m ((x, v) # G)) (conf (gl m G) r ip (st @ [v]) out) out ([], Inl (unknown_write x)) b P"
      for b :: "unit \<Rightarrow> out_item list \<Rightarrow> VM" and P
      by (rule fail_reaches [of _ r code pool _ "ip + 2" "st @ [v]"])
        (use g s(1) a(2) None assms(1) in \<open>simp_all add: unknown_write_def gl_more Let_def\<close>)
    then show ?thesis using None by simp
  next
    case (Some w)
    then show ?thesis using g s(1) a(2) by (auto simp: gl_more Let_def intro!: reaches_value runs_step)
  qed
qed

lemma define_global_runs:
  assumes "script_ok m r code pool" "names_ready m pool" "segment code ip [op_byte OP_DEFINE_GLOBAL, of_nat k]" "segment pool k [Name_Lit x]" "k < 256"
    "pooled pool G"
  shows "runs (Suc 0) (conf (gl m G) r ip (st @ [v]) out) (conf (gl m ((x, v) # G)) r (ip + 2) st out)"
  using global_step [OF assms(1-5)] assigned_set(1) [OF globals_abs(1) [OF assms(2,6)], of x v]
  by (intro runs_step) (simp add: gl_more)

section \<open>Variables on the stack\<close>

text \<open>The stack of the script: its function object, the locals, the operands.\<close>

abbreviation frame_stack :: "Value \<Rightarrow> store \<Rightarrow> Value list \<Rightarrow> Value list" where
  "frame_stack f vars st \<equiv> f # rev (map snd (fst vars)) @ st"

definition store_ok :: "const_lit list \<Rightarrow> string list \<Rightarrow> store \<Rightarrow> bool" where
  "store_ok pool L st \<longleftrightarrow> map fst (fst st) = L \<and> list_all prim (map snd (fst st)) \<and> list_all prim (map snd (snd st)) \<and> pooled pool (snd st)"

lemma store_ok_length: "store_ok pool L st \<Longrightarrow> length (fst st) = length L"
  by (auto simp: store_ok_def)

lemma store_ok_local: "store_ok pool L st \<Longrightarrow> map_of (fst st) x = None \<longleftrightarrow> x \<notin> set L"
  unfolding store_ok_def map_of_eq_None_iff by (metis image_set)

lemma local_slot_le: "local_slot L x \<le> length L"
  by (induction L) auto

lemma slot_get:
  assumes "map fst l = L" "x \<in> set L"
  shows "map_of l x = Some ((f # rev (map snd l) @ st) ! local_slot L x)"
  using assms
proof (induction L arbitrary: l st)
  case (Cons y L)
  then show ?case using Cons.IH [of "tl l" "snd (hd l) # st"] by (cases l) (auto simp: nth_append)
qed simp

lemma slot_set:
  assumes "map fst l = L" "x \<in> set L"
  shows "(f # rev (map snd l) @ st)[local_slot L x := v] = f # rev (map snd (local_set x v l)) @ st"
  using assms
proof (induction L arbitrary: l st)
  case (Cons y L)
  then show ?case using Cons.IH [of "tl l" "snd (hd l) # st"] by (cases l) (auto simp: list_update_append)
qed simp

lemma local_set_ok: "map fst (local_set x v l) = map fst l" "prim v \<Longrightarrow> list_all prim (map snd l) \<Longrightarrow> list_all prim (map snd (local_set x v l))"
  by (induction l) auto

lemma local_runs:
  assumes "script_ok m r code pool" "segment code ip [op_byte instr, of_nat i]" "i < 256" "i < length st"
  shows "instr = OP_GET_LOCAL \<Longrightarrow> length st < STACK_MAX \<Longrightarrow> runs (Suc 0) (conf m r ip st out) (conf m r (ip + 2) (st @ [st ! i]) out)"
    "instr = OP_SET_LOCAL \<Longrightarrow> st \<noteq> [] \<Longrightarrow> runs (Suc 0) (conf m r ip st out) (conf m r (ip + 2) (st[i := last st]) out)"
proof -
  have b: "unat (of_nat i :: byte) = i" using assms(3) by (simp add: unat_of_nat)
  have i: "ip < length code" "code ! ip = op_byte instr" "Suc ip < length code" "code ! Suc ip = of_nat i"
    using assms(2) by (auto dest!: segment_Cons)
  note s = step_conf [OF assms(1) i(1,2)] and rd = READ_BYTE_conf [OF assms(1) i(3)]
  show "runs (Suc 0) (conf m r ip st out) (conf m r (ip + 2) (st @ [st ! i]) out)" if "instr = OP_GET_LOCAL" "length st < STACK_MAX"
    by (rule runs_step) (use s rd that b i(4) assms(4) in \<open>simp add: push_conf\<close>)
  show "runs (Suc 0) (conf m r ip st out) (conf m r (ip + 2) (st[i := last st]) out)" if "instr = OP_SET_LOCAL" "st \<noteq> []"
  proof (rule runs_step)
    show "vm_step (conf m r ip st out) = Inr (Running (conf m r (ip + 2) (st[i := last st]) out))"
      using s rd that b i(4) assms(4) by (cases st rule: rev_cases) simp_all
  qed
qed

section \<open>The code of expressions\<close>

abbreviation with_value :: "VM \<Rightarrow> nat \<Rightarrow> nat \<Rightarrow> Value \<Rightarrow> Value list \<Rightarrow> Value \<times> store \<Rightarrow> out_item list \<Rightarrow> VM" where
  "with_value m r ip f st \<equiv> (\<lambda>(v, vars). conf (gl m (snd vars)) r ip (frame_stack f vars (st @ [v])))"

definition expr_ok :: "const_lit list \<Rightarrow> string list \<Rightarrow> Value \<times> store \<Rightarrow> bool" where
  "expr_ok pool L x \<longleftrightarrow> prim (fst x) \<and> store_ok pool L (snd x)"

lemma reaches_keeping:
  assumes "reaches k m a out ([], res) (\<lambda>v. conf (gl m (snd vars)) r ip (frame_stack f vars st @ [v])) prim" "store_ok pool L vars"
  shows "reaches k m a out ([], keeping vars res) (with_value m r ip f st) (expr_ok pool L)"
  using assms by (cases res) (auto simp: reaches_def keeping_def expr_ok_def)

text \<open>The state before the code of an expression, and the conditions on it.\<close>

definition expr_at :: "byte list \<Rightarrow> const_lit list \<Rightarrow> string list \<Rightarrow> nat \<Rightarrow> cexp \<Rightarrow> nat \<Rightarrow> store \<Rightarrow> Value list \<Rightarrow> bool" where
  "expr_at code pool L k e ip vars st \<longleftrightarrow> segment code ip (ecode L k e) \<and> segment pool k (econsts L e) \<and> k + length (econsts L e) \<le> 256
     \<and> short_jumps e \<and> length L < 256 \<and> store_ok pool L vars
     \<and> Suc (length L + length st + eheight e) \<le> STACK_MAX"

abbreviation computes :: "VM \<Rightarrow> nat \<Rightarrow> Value \<Rightarrow> const_lit list \<Rightarrow> string list \<Rightarrow> nat \<Rightarrow> cexp \<Rightarrow> nat \<Rightarrow> store \<Rightarrow> Value list \<Rightarrow> out_item list \<Rightarrow> bool" where
  "computes m r f pool L k e ip vars st out \<equiv> reaches (length (ecode L k e)) m (conf (gl m (snd vars)) r ip (frame_stack f vars st) out) out (eeval e vars)
     (with_value m r (ip + length (ecode L k e)) f st) (expr_ok pool L)"

lemma unary_computes:
  assumes "script_ok m r code pool" "expr_at code pool L k (Unary ty a) ip vars st"
    "\<And>ip vars st out. expr_at code pool L k a ip vars st \<Longrightarrow> computes m r f pool L k a ip vars st out"
  shows "computes m r f pool L k (Unary ty a) ip vars st out"
proof -
  have seg: "segment code (ip + length (ecode L k a)) [op_byte (unary_op ty)]" "expr_at code pool L k a ip vars st"
    using assms(2) by (auto simp: expr_at_def dest: segment_append)
  have room: "Suc (length L + length st) < STACK_MAX" using assms(2) eheight_pos [of a] by (auto simp: expr_at_def max_def split: if_splits)
  show ?thesis
    unfolding eeval.simps
  proof (rule reaches_both [OF assms(3) [OF seg(2)], where k = "Suc 0"])
    fix x assume x: "expr_ok pool L x"
    obtain v vs where p: "x = (v, vs)" by (cases x)
    have "reaches (Suc 0) (gl m (snd vs)) (conf (gl m (snd vs)) r (ip + length (ecode L k a)) (frame_stack f vs st @ [v]) out') out' ([], unary_value ty v)
        (\<lambda>v. conf (gl m (snd vs)) r (Suc (ip + length (ecode L k a))) (frame_stack f vs st @ [v])) prim" for out'
      by (rule unary_reaches [OF _ seg(1)]) (use assms(1) x p room store_ok_length [of pool L vs] in \<open>auto simp: expr_ok_def\<close>)
    from reaches_keeping [OF this [unfolded reaches_gl]] x p
    show "reaches (Suc 0) m (with_value m r (ip + length (ecode L k a)) f st x (out @ fst (eeval a vars))) (out @ fst (eeval a vars))
        (case x of (v, st1) \<Rightarrow> ([], keeping st1 (unary_value ty v))) (with_value m r (ip + length (ecode L k (Unary ty a))) f st) (expr_ok pool L)"
      by (simp add: expr_ok_def)
  qed simp
qed

lemma binary_computes:
  assumes "script_ok m r code pool" "expr_at code pool L k (Binary ty a b) ip vars st" "binary_ops ty \<noteq> []"
    "\<And>k ip vars st out. expr_at code pool L k a ip vars st \<Longrightarrow> computes m r f pool L k a ip vars st out"
    "\<And>k ip vars st out. expr_at code pool L k b ip vars st \<Longrightarrow> computes m r f pool L k b ip vars st out"
  shows "computes m r f pool L k (Binary ty a b) ip vars st out"
proof -
  let ?ib = "ip + length (ecode L k a)" and ?kb = "k + length (econsts L a)"
  let ?io = "?ib + length (ecode L ?kb b)"
  have seg: "segment code ?io (map op_byte (binary_ops ty))" "expr_at code pool L k a ip vars st"
    using assms(2) by (auto simp: expr_at_def dest!: segment_append)
  have room: "Suc (length L + length st) < STACK_MAX" using assms(2) eheight_pos [of a] by (auto simp: expr_at_def max_def split: if_splits)
  have b: "computes m r f pool L ?kb b ?ib vs (st @ [v]) out'" if "store_ok pool L vs" for vs v out'
    by (rule assms(5)) (use assms(2) that in \<open>auto simp: expr_at_def dest!: segment_append\<close>)
  show ?thesis
    unfolding eeval.simps
  proof (rule reaches_both [OF assms(4) [OF seg(2)], where k = "length (ecode L ?kb b) + length (binary_ops ty)"])
    fix x assume x: "expr_ok pool L x"
    obtain v vs where p: "x = (v, vs)" by (cases x)
    let ?o = "out @ fst (eeval a vars)"
    have "reaches (length (ecode L ?kb b) + length (binary_ops ty)) m (conf (gl m (snd vs)) r ?ib (frame_stack f vs (st @ [v])) ?o) ?o
        (then_do (eeval b vs) (\<lambda>(w, st2). ([], keeping st2 (binary_value ty v w)))) (with_value m r (?io + length (binary_ops ty)) f st) (expr_ok pool L)"
    proof (rule reaches_then [OF b])
      show "store_ok pool L vs" using x p by (simp add: expr_ok_def)
      fix y assume y: "expr_ok pool L y"
      obtain w ws where q: "y = (w, ws)" by (cases y)
      let ?o' = "?o @ fst (eeval b vs)"
      have "reaches (length (binary_ops ty)) (gl m (snd ws)) (conf (gl m (snd ws)) r ?io (frame_stack f ws st @ [v, w]) ?o') ?o' ([], binary_value ty v w)
          (\<lambda>v. conf (gl m (snd ws)) r (?io + length (binary_ops ty)) (frame_stack f ws st @ [v])) prim"
        by (rule binary_reaches [OF _ seg(1) assms(3)]) (use assms(1) x y p q room store_ok_length [of pool L ws] in \<open>auto simp: expr_ok_def\<close>)
      from reaches_keeping [OF this [unfolded reaches_gl]] y q
      show "reaches (length (binary_ops ty)) m (with_value m r ?io f (st @ [v]) y ?o') ?o'
          (case y of (w, st2) \<Rightarrow> ([], keeping st2 (binary_value ty v w))) (with_value m r (?io + length (binary_ops ty)) f st) (expr_ok pool L)"
        by (simp add: expr_ok_def)
    qed
    then show "reaches (length (ecode L ?kb b) + length (binary_ops ty)) m (with_value m r ?ib f st x ?o) ?o
        (case x of (l, st1) \<Rightarrow> then_do (eeval b st1) (\<lambda>(r, st2). ([], keeping st2 (binary_value ty l r))))
        (with_value m r (ip + length (ecode L k (Binary ty a b))) f st) (expr_ok pool L)"
      by (simp add: p add.assoc)
  qed simp
qed

lemma and_computes:
  assumes "script_ok m r code pool" "expr_at code pool L k (AndExp a b) ip vars st"
    "\<And>k ip vars st out. expr_at code pool L k a ip vars st \<Longrightarrow> computes m r f pool L k a ip vars st out"
    "\<And>k ip vars st out. expr_at code pool L k b ip vars st \<Longrightarrow> computes m r f pool L k b ip vars st out"
  shows "computes m r f pool L k (AndExp a b) ip vars st out"
proof -
  let ?ib = "ip + length (ecode L k a)" and ?kb = "k + length (econsts L a)" let ?d = "Suc (length (ecode L ?kb b))"
  have code: "segment code ip (ecode L k a @ jump_code OP_JUMP_IF_FALSE ?d @ [op_byte OP_POP] @ ecode L ?kb b)"
    and pool: "segment pool k (econsts L a @ econsts L b)" using assms(2) by (simp_all add: expr_at_def Let_def)
  have seg: "segment code ?ib (jump_code OP_JUMP_IF_FALSE ?d)" "segment code (?ib + 3) [op_byte OP_POP]" "segment code (?ib + 4) (ecode L ?kb b)"
    using segment_parts [OF code] by (simp_all add: jump_code_def add.assoc eval_nat_numeral)
  have a: "expr_at code pool L k a ip vars st" using assms(2) code pool by (auto simp: expr_at_def dest: segment_append)
  have b: "computes m r f pool L ?kb b (?ib + 4) vs st out'" if "store_ok pool L vs" for vs out'
    by (rule assms(4)) (use assms(2) that seg(3) segment_append [OF pool] in \<open>auto simp: expr_at_def\<close>)
  have d: "?d \<le> 255" using assms(2) length_ecode [of L ?kb b] by (simp add: expr_at_def)
  show ?thesis
    unfolding eeval.simps
  proof (rule reaches_both [OF assms(3) [OF a]])
    fix x assume x: "expr_ok pool L x"
    obtain l vs where p: "x = (l, vs)" by (cases x)
    let ?o = "out @ fst (eeval a vars)" and ?S = "frame_stack f vs st" and ?m = "gl m (snd vs)"
    have ok: "script_ok ?m r code pool" using assms(1) by simp
    note j = jump_if_false_runs [OF ok seg(1) d, of ?S l ?o]
    show "reaches (2 + length (ecode L ?kb b)) m (with_value m r ?ib f st x ?o) ?o (case x of (l, st1) \<Rightarrow> if is_falsey l then ([], Inr (l, st1)) else eeval b st1)
        (with_value m r (ip + length (ecode L k (AndExp a b))) f st) (expr_ok pool L)"
    proof (cases "is_falsey l")
      case True
      then show ?thesis
        using j x p by (auto simp: Let_def jump_code_def ac_simps eval_nat_numeral intro!: reaches_value elim: runs_mono)
    next
      case False
      have "runs 2 (conf ?m r ?ib (?S @ [l]) ?o) (conf ?m r (?ib + 4) ?S ?o)"
        using runs_trans [OF j] pop_runs [OF ok seg(2), of ?S l ?o] False by (simp add: eval_nat_numeral)
      from reaches_run [OF this b] x p False show ?thesis by (simp add: Let_def jump_code_def ac_simps eval_nat_numeral expr_ok_def)
    qed
  qed (simp add: Let_def jump_code_def)
qed

lemma or_computes:
  assumes "script_ok m r code pool" "expr_at code pool L k (OrExp a b) ip vars st"
    "\<And>k ip vars st out. expr_at code pool L k a ip vars st \<Longrightarrow> computes m r f pool L k a ip vars st out"
    "\<And>k ip vars st out. expr_at code pool L k b ip vars st \<Longrightarrow> computes m r f pool L k b ip vars st out"
  shows "computes m r f pool L k (OrExp a b) ip vars st out"
proof -
  let ?ib = "ip + length (ecode L k a)" and ?kb = "k + length (econsts L a)" let ?d = "Suc (length (ecode L ?kb b))"
  have code: "segment code ip (ecode L k a @ jump_code OP_JUMP_IF_FALSE 3 @ jump_code OP_JUMP ?d @ ([op_byte OP_POP] @ ecode L ?kb b))"
    and pool: "segment pool k (econsts L a @ econsts L b)" using assms(2) by (simp_all add: expr_at_def Let_def)
  have seg: "segment code ?ib (jump_code OP_JUMP_IF_FALSE 3)" "segment code (?ib + 3) (jump_code OP_JUMP ?d)"
      "segment code (?ib + 6) [op_byte OP_POP]" "segment code (?ib + 7) (ecode L ?kb b)"
    using segment_parts [OF code] segment_append [of code "?ib + 6" "[op_byte OP_POP]" "ecode L ?kb b"]
    by (simp_all add: jump_code_def add.assoc eval_nat_numeral)
  have a: "expr_at code pool L k a ip vars st" using assms(2) code pool by (auto simp: expr_at_def dest: segment_append)
  have b: "computes m r f pool L ?kb b (?ib + 7) vs st out'" if "store_ok pool L vs" for vs out'
    by (rule assms(4)) (use assms(2) that seg(4) segment_append [OF pool] in \<open>auto simp: expr_at_def\<close>)
  have d: "?d \<le> 255" using assms(2) length_ecode [of L ?kb b] by (simp add: expr_at_def)
  show ?thesis
    unfolding eeval.simps
  proof (rule reaches_both [OF assms(3) [OF a]])
    fix x assume x: "expr_ok pool L x"
    obtain l vs where p: "x = (l, vs)" by (cases x)
    let ?o = "out @ fst (eeval a vars)" and ?S = "frame_stack f vs st" and ?m = "gl m (snd vs)"
    have ok: "script_ok ?m r code pool" using assms(1) by simp
    have j: "runs (Suc 0) (conf ?m r ?ib (?S @ [l]) ?o) (conf ?m r (if is_falsey l then ?ib + 6 else ?ib + 3) (?S @ [l]) ?o)"
      using jump_if_false_runs [OF ok seg(1), of ?S l ?o] by (cases "is_falsey l") (simp_all add: eval_nat_numeral)
    show "reaches (2 + length (ecode L ?kb b)) m (with_value m r ?ib f st x ?o) ?o (case x of (l, st1) \<Rightarrow> if is_falsey l then eeval b st1 else ([], Inr (l, st1)))
        (with_value m r (ip + length (ecode L k (OrExp a b))) f st) (expr_ok pool L)"
    proof (cases "is_falsey l")
      case True
      have "runs 2 (conf ?m r ?ib (?S @ [l]) ?o) (conf ?m r (?ib + 7) ?S ?o)"
        using runs_trans [OF j] pop_runs [OF ok seg(3), of ?S l ?o] True by (simp add: eval_nat_numeral)
      from reaches_run [OF this b] x p True show ?thesis by (simp add: Let_def jump_code_def ac_simps eval_nat_numeral expr_ok_def)
    next
      case False
      have "runs 2 (conf ?m r ?ib (?S @ [l]) ?o) (conf ?m r (?ib + 6 + ?d) (?S @ [l]) ?o)"
        using runs_trans [OF j] jump_runs [OF ok seg(2) d, of "?S @ [l]" ?o] False by (simp add: eval_nat_numeral)
      then show ?thesis
        using False x p by (auto simp: Let_def jump_code_def ac_simps eval_nat_numeral intro!: reaches_value elim: runs_mono)
    qed
  qed (simp add: Let_def jump_code_def)
qed

text \<open>A variable is a local in its slot or a global.\<close>

lemma var_computes:
  assumes "script_ok m r code pool" "names_ready m pool" "expr_at code pool L k (Var x) ip vars st"
  shows "computes m r f pool L k (Var x) ip vars st out"
proof -
  let ?S = "frame_stack f vars st" and ?m = "gl m (snd vars)"
  have h: "segment code ip [op_byte (get_op L x), var_arg L k x]" "store_ok pool L vars" "length L < 256" "Suc (length L + length st) < STACK_MAX"
    using assms(3) by (simp_all add: expr_at_def)
  have room: "length ?S < STACK_MAX" using h(4) store_ok_length [OF h(2)] by simp
  have "reaches (Suc 0) m (conf ?m r ip ?S out) out ([], store_get vars x) (\<lambda>v. conf ?m r (ip + 2) (?S @ [v])) prim"
  proof (cases "x \<in> set L")
    case True
    let ?i = "local_slot L x"
    have i: "?i < 256" "?i < length ?S" using local_slot_le [of L x] h(3) store_ok_length [OF h(2)] by auto
    have seg: "segment code ip [op_byte OP_GET_LOCAL, of_nat ?i]" using h(1) True by (simp add: get_op_def var_arg_def)
    have v: "map_of (fst vars) x = Some (?S ! ?i)" by (rule slot_get) (use h(2) True in \<open>simp_all add: store_ok_def\<close>)
    have "prim (?S ! ?i)" using map_of_SomeD [OF v] h(2) by (auto simp: store_ok_def list_all_iff)
    moreover have "runs (Suc 0) (conf ?m r ip ?S out) (conf ?m r (ip + 2) (?S @ [?S ! ?i]) out)"
      by (rule local_runs(1) [OF _ seg i refl room]) (use assms(1) in simp)
    ultimately show ?thesis unfolding store_get_def v option.case by (intro reaches_value)
  next
    case False
    then have "map_of (fst vars) x = None" using store_ok_local [OF h(2)] by simp
    moreover have "reaches (Suc 0) m (conf ?m r ip ?S out) out ([], case map_of (snd vars) x of Some v \<Rightarrow> Inr v | None \<Rightarrow> Inl (unknown_read x))
        (\<lambda>v. conf ?m r (ip + 2) (?S @ [v])) prim"
      by (rule get_global_reaches [OF assms(1,2), of ip k x])
        (use h False room assms(3) in \<open>simp_all add: get_op_def var_arg_def expr_at_def name_lits_def store_ok_def\<close>)
    ultimately show ?thesis by (simp add: store_get_def)
  qed
  from reaches_mono [OF reaches_keeping [OF this h(2)], of "Suc (Suc 0)"] show ?thesis by simp
qed

lemma set_reaches:
  assumes "script_ok m r code pool" "names_ready m pool" "segment code ip [op_byte (set_op L x), var_arg L k x]" "segment pool k (name_lits L x)"
    "k + length (name_lits L x) \<le> 256" "length L < 256" "store_ok pool L vars" "prim v"
  shows "reaches (Suc 0) m (conf (gl m (snd vars)) r ip (frame_stack f vars (st @ [v])) out) out ([], map_sum id (\<lambda>st2. (v, st2)) (store_set x v vars))
    (with_value m r (ip + 2) f st) (expr_ok pool L)"
proof (cases "x \<in> set L")
  case True
  let ?S = "frame_stack f vars (st @ [v])" and ?i = "local_slot L x" and ?m = "gl m (snd vars)" and ?l = "local_set x v (fst vars)"
  have i: "?i < 256" "?i < length ?S" using local_slot_le [of L x] assms(6) store_ok_length [OF assms(7)] by auto
  have seg: "segment code ip [op_byte OP_SET_LOCAL, of_nat ?i]" using assms(3) True by (simp add: set_op_def var_arg_def)
  have "map_of (fst vars) x \<noteq> None" using store_ok_local [OF assms(7)] True by simp
  then have st: "store_set x v vars = Inr (?l, snd vars)" by (simp add: store_set_def)
  have "runs (Suc 0) (conf ?m r ip ?S out) (conf ?m r (ip + 2) (?S[?i := last ?S]) out)"
    by (rule local_runs(2) [OF _ seg i refl]) (use assms(1) in simp_all)
  moreover have "last ?S = v" by simp
  moreover have "?S[?i := v] = f # rev (map snd ?l) @ st @ [v]" by (rule slot_set) (use assms(7) True in \<open>simp_all add: store_ok_def\<close>)
  ultimately have "runs (Suc 0) (conf ?m r ip ?S out) (conf ?m r (ip + 2) (f # rev (map snd ?l) @ st @ [v]) out)" by metis
  then show ?thesis using st assms(7,8) local_set_ok(1) [of x v "fst vars"] local_set_ok(2) [of v "fst vars" x] by (auto simp: expr_ok_def store_ok_def intro!: reaches_value)
next
  case False
  then have none: "map_of (fst vars) x = None" using store_ok_local [OF assms(7)] by simp
  have g: "reaches (Suc 0) m (conf (gl m (snd vars)) r ip (frame_stack f vars st @ [v]) out) out
      ([], if map_of (snd vars) x \<noteq> None then Inr () else Inl (unknown_write x))
      (\<lambda>_. conf (gl m ((x, v) # snd vars)) r (ip + 2) (frame_stack f vars st @ [v])) (\<lambda>_. True)"
    by (rule set_global_reaches [OF assms(1,2), of ip k x])
      (use assms(3-7) False in \<open>simp_all add: set_op_def var_arg_def name_lits_def store_ok_def\<close>)
  have "Name_Lit x \<in> set pool" using assms(4) False segment_Cons [of pool k "Name_Lit x" "[]"] by (auto simp: name_lits_def) (metis nth_mem)
  then show ?thesis
    using g none assms(7,8) by (cases "map_of (snd vars) x") (auto simp: store_set_def reaches_def expr_ok_def store_ok_def pooled_def)
qed

lemma assign_computes:
  assumes "script_ok m r code pool" "names_ready m pool" "expr_at code pool L k (Assign x a) ip vars st"
    "\<And>k ip vars st out. expr_at code pool L k a ip vars st \<Longrightarrow> computes m r f pool L k a ip vars st out"
  shows "computes m r f pool L k (Assign x a) ip vars st out"
proof -
  let ?k = "k + length (name_lits L x)" let ?io = "ip + length (ecode L ?k a)"
  have seg: "segment code ?io [op_byte (set_op L x), var_arg L k x]" "segment pool k (name_lits L x)" "expr_at code pool L ?k a ip vars st" "length L < 256"
      "?k \<le> 256"
    using assms(3) by (auto simp: expr_at_def dest!: segment_append)
  show ?thesis
    unfolding eeval.simps
  proof (rule reaches_both [OF assms(4) [OF seg(3)], where k = "Suc 0"])
    fix y assume "expr_ok pool L y"
    then show "reaches (Suc 0) m (with_value m r ?io f st y (out @ fst (eeval a vars))) (out @ fst (eeval a vars))
        (case y of (v, st1) \<Rightarrow> ([], map_sum id (\<lambda>st2. (v, st2)) (store_set x v st1))) (with_value m r (ip + length (ecode L k (Assign x a))) f st) (expr_ok pool L)"
      using set_reaches [OF assms(1,2) seg(1,2,5,4), of "snd y" "fst y" f st "out @ fst (eeval a vars)"]
      by (cases y) (simp add: expr_ok_def add.assoc)
  qed simp
qed

lemma ecode_reaches:
  assumes "script_ok m r code pool" "names_ready m pool"
  shows "expr_at code pool L k e ip vars st \<Longrightarrow> fits q e \<Longrightarrow> computes m r f pool L k e ip vars st out"
proof (induction e arbitrary: ip k q vars st out)
  case (Num x)
  then have "runs (Suc 0) (conf (gl m (snd vars)) r ip (frame_stack f vars st) out)
      (conf (gl m (snd vars)) r (ip + 2) (frame_stack f vars st @ [number_val (strtod x)]) (out @ line_of (number_val (strtod x))))"
    using store_ok_length [of pool L vars] assms(1) by (intro constant_runs [of _ r code pool ip k]) (auto simp: expr_at_def)
  with Num show ?case by (auto simp: reaches_def expr_at_def expr_ok_def elim: runs_mono)
next
  case (Lit ty)
  have "reaches (Suc 0) (gl m (snd vars)) (conf (gl m (snd vars)) r ip (frame_stack f vars st) out) out ([], Inr (literal_value ty))
      (\<lambda>v. conf (gl m (snd vars)) r (Suc ip) (frame_stack f vars st @ [v])) prim"
    by (rule literal_runs [of _ _ code pool]) (use Lit.prems(1) store_ok_length [of pool L vars] assms(1) in \<open>auto simp: expr_at_def\<close>)
  from reaches_keeping [OF this [unfolded reaches_gl], of pool L] Lit.prems(1) show ?case by (simp add: expr_at_def keeping_def)
next
  case (Unary ty a)
  then show ?case by (intro unary_computes [OF assms(1)]) auto
next
  case (Binary ty a b)
  then show ?case by (intro binary_computes [OF assms(1)]) auto
next
  case (AndExp a b)
  then show ?case by (intro and_computes [OF assms(1)]) auto
next
  case (OrExp a b)
  then show ?case by (intro or_computes [OF assms(1)]) auto
next
  case (Group a)
  then have "expr_at code pool L k a ip vars st" by (simp add: expr_at_def)
  with Group show ?case by auto
next
  case (Var x)
  then show ?case by (intro var_computes [OF assms]) auto
next
  case (Assign x a)
  then show ?case by (intro assign_computes [OF assms]) auto
qed

section \<open>Runs that need not end\<close>

text \<open>
  With a meaning the machine behaves as it says, in at most \<open>k\<close> steps; without one, because the
  rounds are used up, it is still running after \<open>n\<close> steps.
\<close>

definition follows :: "nat \<Rightarrow> nat \<Rightarrow> VM \<Rightarrow> VM \<Rightarrow> out_item list \<Rightarrow> 'a meaning option \<Rightarrow> ('a \<Rightarrow> out_item list \<Rightarrow> VM) \<Rightarrow> ('a \<Rightarrow> bool) \<Rightarrow> bool" where
  "follows n k m a out q b P = (case q of Some p \<Rightarrow> reaches k m a out p b P | None \<Rightarrow> \<forall>fuel\<le>n. vm_run fuel a = Inl Out_Of_Fuel)"

lemma vm_run_more: "vm_run fuel a \<noteq> Inl Out_Of_Fuel \<Longrightarrow> fuel \<le> fuel' \<Longrightarrow> vm_run fuel' a = vm_run fuel a"
proof (induction fuel arbitrary: a fuel')
  case (Suc fuel)
  then obtain g where "fuel' = Suc g" "fuel \<le> g" by (cases fuel') auto
  then show ?case
  proof (cases "vm_step a")
    case (Inr res)
    show ?thesis
    proof (cases res)
      case (Running a')
      then have "vm_run fuel a' \<noteq> Inl Out_Of_Fuel" using Suc.prems(1) Inr by simp
      from Suc.IH [OF this \<open>fuel \<le> g\<close>] show ?thesis using Inr Running \<open>fuel' = _\<close> by simp
    qed (simp add: Inr \<open>fuel' = _\<close>)
  qed simp
qed simp

lemma runs_late:
  assumes "runs j a b" "\<forall>fuel\<le>n. vm_run fuel b = Inl Out_Of_Fuel"
  shows "\<forall>fuel\<le>n. vm_run fuel a = Inl Out_Of_Fuel"
proof (intro allI impI)
  fix fuel assume f: "fuel \<le> n"
  obtain i where i: "\<And>fuel. vm_run (i + fuel) a = vm_run fuel b" using assms(1) by (auto simp: runs_def)
  have "vm_run (i + fuel) a = Inl Out_Of_Fuel" using i assms(2) f by simp
  then show "vm_run fuel a = Inl Out_Of_Fuel" using vm_run_more [of fuel a "i + fuel"] by force
qed

lemma follows_mono: "follows n k m a out q b P \<Longrightarrow> n' \<le> n \<Longrightarrow> k \<le> k' \<Longrightarrow> follows n' k' m a out q b P"
  by (auto simp: follows_def split: option.splits elim: reaches_mono)

lemma follows_then:
  assumes "reaches j m a out p b P" "\<And>x. P x \<Longrightarrow> follows n k m (b x (out @ fst p)) (out @ fst p) (f x) c Q"
  shows "follows n (j + k) m a out (then_run p f) c Q"
proof -
  obtain out1 x where p: "p = (out1, x)" by (cases p)
  show ?thesis
  proof (cases x)
    case (Inl msg)
    have "reaches (j + k) m a out p b P" by (rule reaches_mono [OF assms(1)]) simp
    then show ?thesis using p Inl by (simp add: follows_def then_run_def reaches_def)
  next
    case (Inr v)
    have r: "runs j a (b v (out @ out1))" "P v" using assms(1) p Inr by (simp_all add: reaches_def)
    then have 2: "follows n k m (b v (out @ out1)) (out @ out1) (f v) c Q" using assms(2) p by simp
    show ?thesis
    proof (cases "f v")
      case None
      then have "\<forall>fuel\<le>n. vm_run fuel (b v (out @ out1)) = Inl Out_Of_Fuel" using 2 by (simp add: follows_def)
      from runs_late [OF r(1) this] show ?thesis using p Inr None by (simp add: follows_def then_run_def)
    next
      case (Some q)
      let ?f = "\<lambda>_ :: 'a. q"
      have "reaches (j + k) m a out (then_do p ?f) c Q"
        by (rule reaches_then [where P = "\<lambda>x. x = v" and b = b]) (use assms(1) 2 p Inr Some in \<open>auto simp: reaches_def follows_def\<close>)
      then show ?thesis using p Inr Some by (simp add: follows_def then_run_def then_do_def split: prod.splits)
    qed
  qed
qed

lemma follows_and_then:
  assumes "follows n j m a out q b P" "\<And>p x. q = Some p \<Longrightarrow> P x \<Longrightarrow> follows n k m (b x (out @ fst p)) (out @ fst p) (f x) c Q"
  shows "follows n (j + k) m a out (and_then q f) c Q"
proof (cases q)
  case None
  then show ?thesis using assms(1) by (simp add: follows_def and_then_def)
next
  case (Some p)
  then have "reaches j m a out p b P" using assms(1) by (simp add: follows_def)
  from follows_then [OF this assms(2) [OF Some]] Some show ?thesis by (simp add: and_then_def)
qed

lemma follows_value: "runs k a (b x out) \<Longrightarrow> P x \<Longrightarrow> follows n k m a out (Some ([], Inr x)) b P"
  by (simp add: follows_def reaches_value)

lemma follows_run:
  assumes "runs j a a'" "follows n k m a' out q b P"
  shows "follows n (j + k) m a out q b P"
proof -
  have "reaches j m a out ([], Inr ()) (\<lambda>_ _. a') (\<lambda>_. True)" using assms(1) by (simp add: reaches_def)
  from follows_then [OF this, of n k "\<lambda>_. q" b P] assms(2) show ?thesis
    by (cases q) (simp_all add: then_run_def)
qed

lemma follows_step:
  assumes "vm_step a = Inr (Running a')" "follows n k m a' out q b P"
  shows "follows (Suc n) (Suc k) m a out q b P"
proof (cases q)
  case None
  have "vm_run fuel a = Inl Out_Of_Fuel" if "fuel \<le> Suc n" for fuel
    using that assms None by (cases fuel) (auto simp: follows_def)
  then show ?thesis using None by (simp add: follows_def)
next
  case (Some p)
  then show ?thesis using reaches_run [OF runs_step [OF assms(1)], of k m out p b P] assms(2) by (simp add: follows_def)
qed

section \<open>The code of statements and programs\<close>

text \<open>The room a statement needs on the stack, and the number of steps its meaning takes.\<close>

definition iheight :: "cexp option \<Rightarrow> nat" where
  "iheight i = (case i of None \<Rightarrow> 1 | Some e \<Rightarrow> eheight e)"

fun sheight :: "cstmt \<Rightarrow> nat" and bheight :: "cstmt list \<Rightarrow> nat" where
  "sheight (Print e) = eheight e"
| "sheight (Expr e) = eheight e"
| "sheight (IfThen c a) = max (eheight c) (sheight a)"
| "sheight (IfElse c a b) = max (eheight c) (max (sheight a) (sheight b))"
| "sheight (While c a) = max (eheight c) (sheight a)"
| "sheight (For fi c inc a) = max (bheight fi) (length (declared fi) + max (iheight c) (max (iheight inc) (sheight a)))"
| "sheight (Block as) = bheight as"
| "sheight (VarDecl x i) = iheight i"
| "sheight (Global x i) = iheight i"
| "bheight [] = 0"
| "bheight (a # as) = max (sheight a) (length (binds a) + bheight as)"

definition csize :: "cexp option \<Rightarrow> nat" where
  "csize c = (case c of None \<Rightarrow> 0 | Some e \<Rightarrow> esize e)"

definition round_steps :: "cexp option \<Rightarrow> cexp option \<Rightarrow> nat \<Rightarrow> nat" where
  "round_steps c inc s = csize c + 2 + (1 + (s + Suc (csize inc + 2)))"

fun ssteps :: "nat \<Rightarrow> cstmt \<Rightarrow> nat" and bsteps :: "nat \<Rightarrow> cstmt list \<Rightarrow> nat" where
  "ssteps n (Print e) = esize e + 1"
| "ssteps n (Expr e) = esize e + 1"
| "ssteps n (IfThen c a) = esize c + 3 + ssteps n a"
| "ssteps n (IfElse c a b) = esize c + 3 + max (ssteps n a) (ssteps n b)"
| "ssteps n (While c a) = n * round_steps (Some c) None (ssteps n a)"
| "ssteps n (For fi c inc a) = bsteps n fi + (n * round_steps c inc (ssteps n a) + length (declared fi))"
| "ssteps n (Block as) = bsteps n as + length (declared as)"
| "ssteps n (VarDecl x i) = length (icode [] 0 i)"
| "ssteps n (Global x i) = length (icode [] 0 i) + 1"
| "bsteps n [] = 0"
| "bsteps n (a # as) = ssteps n a + bsteps n as"

lemma print_runs:
  assumes "script_ok m r code pool" "segment code ip [op_byte OP_PRINT]" "prim v"
  shows "runs (Suc 0) (conf m r ip (st @ [v]) out) (conf m r (Suc ip) st (out @ line_of v))"
  using step_conf [OF assms(1)] segment_Cons [OF assms(2)] print_conf [OF assms(3)] by (intro runs_step) simp

text \<open>The state before the code of a statement, and the conditions on it.\<close>

definition item_ok :: "string list \<Rightarrow> cstmt \<Rightarrow> bool" where
  "item_ok L a \<longleftrightarrow> (case a of VarDecl x i \<Rightarrow> wf_init i \<and> length L < 255 | Global x i \<Rightarrow> wf_init i | _ \<Rightarrow> wf_stmt L a)"

fun items_ok :: "string list \<Rightarrow> cstmt list \<Rightarrow> bool" where
  "items_ok L [] = True"
| "items_ok L (a # as) = (item_ok L a \<and> items_ok (binds a @ L) as)"

lemma wf_item: "wf_stmt L a \<Longrightarrow> item_ok L a"
  by (cases a) (auto simp: item_ok_def)

lemma block_items: "wf_block D L as \<Longrightarrow> items_ok L as"
  by (induction as arbitrary: D L) (auto simp: item_ok_def split: cstmt.splits)

definition stmt_at :: "byte list \<Rightarrow> const_lit list \<Rightarrow> string list \<Rightarrow> nat \<Rightarrow> cstmt \<Rightarrow> nat \<Rightarrow> store \<Rightarrow> bool" where
  "stmt_at code pool L k a ip vars \<longleftrightarrow> segment code ip (scode L k a) \<and> segment pool k (sconsts L a) \<and> k + length (sconsts L a) \<le> 256
     \<and> item_ok L a \<and> length L < 256 \<and> store_ok pool L vars \<and> Suc (length L + sheight a) \<le> STACK_MAX"

abbreviation executes :: "nat \<Rightarrow> VM \<Rightarrow> nat \<Rightarrow> Value \<Rightarrow> const_lit list \<Rightarrow> string list \<Rightarrow> nat \<Rightarrow> cstmt \<Rightarrow> nat \<Rightarrow> store \<Rightarrow> out_item list \<Rightarrow> bool" where
  "executes n m r f pool L k a ip vars out \<equiv> follows n (ssteps n a) m (conf (gl m (snd vars)) r ip (frame_stack f vars []) out) out (seval n a vars)
     (\<lambda>vs. conf (gl m (snd vs)) r (ip + length (scode L k a)) (frame_stack f vs [])) (store_ok pool (binds a @ L))"

definition executed :: "nat \<Rightarrow> VM \<Rightarrow> nat \<Rightarrow> Value \<Rightarrow> byte list \<Rightarrow> const_lit list \<Rightarrow> cstmt \<Rightarrow> bool" where
  "executed n m r f code pool a \<longleftrightarrow> (\<forall>L k ip vars out. stmt_at code pool L k a ip vars \<longrightarrow> executes n m r f pool L k a ip vars out)"

lemma executedD: "executed n m r f code pool a \<Longrightarrow> stmt_at code pool L k a ip vars \<Longrightarrow> executes n m r f pool L k a ip vars out"
  unfolding executed_def by blast

lemma expression_computes:
  assumes "script_ok m r code pool" "names_ready m pool" "segment code ip (ecode L k e)" "segment pool k (econsts L e)" "k + length (econsts L e) \<le> 256" "wf_exp e"
    "length L < 256" "store_ok pool L vars" "Suc (length L + eheight e) \<le> STACK_MAX"
  shows "computes m r f pool L k e ip vars [] out"
  by (rule ecode_reaches [OF assms(1,2), where q = 1]) (use assms in \<open>auto simp: expr_at_def wf_exp_def\<close>)

lemma length_icode: "length (icode L k i) = length (icode [] 0 i)"
  using length_ecode [of L k] by (auto simp: icode_def split: option.splits)

lemma initializer_computes:
  assumes "script_ok m r code pool" "names_ready m pool" "segment code ip (icode L k i)" "segment pool k (iconsts L i)" "k + length (iconsts L i) \<le> 256" "wf_init i"
    "length L < 256" "store_ok pool L vars" "Suc (length L + iheight i) \<le> STACK_MAX"
  shows "reaches (length (icode L k i)) m (conf (gl m (snd vars)) r ip (frame_stack f vars []) out) out (ieval i vars)
    (with_value m r (ip + length (icode L k i)) f []) (expr_ok pool L)"
proof (cases i)
  case None
  have "reaches (Suc 0) (gl m (snd vars)) (conf (gl m (snd vars)) r ip (frame_stack f vars []) out) out ([], Inr (literal_value TOKEN_NIL))
      (\<lambda>v. conf (gl m (snd vars)) r (Suc ip) (frame_stack f vars [] @ [v])) prim"
    by (rule literal_runs [of _ _ code pool])
      (use assms None store_ok_length [OF assms(8)] in \<open>auto simp: icode_def iheight_def literal_op_def\<close>)
  from reaches_keeping [OF this [unfolded reaches_gl] assms(8)] show ?thesis
    using None by (simp add: icode_def ieval_def keeping_def literal_value_def)
next
  case (Some e)
  have "computes m r f pool L k e ip vars [] out"
    by (rule expression_computes [OF assms(1,2)]) (use assms Some in \<open>auto simp: icode_def iconsts_def iheight_def wf_init_def\<close>)
  then show ?thesis using Some by (simp add: icode_def ieval_def)
qed

text \<open>A value is computed, then one instruction uses it up.\<close>

lemma value_then:
  assumes "reaches j m a out p (with_value m r ip f []) (expr_ok pool L)"
    "\<And>v vs out. expr_ok pool L (v, vs) \<Longrightarrow> runs k (conf (gl m (snd vs)) r ip (frame_stack f vs [] @ [v]) out)
       (conf (gl m (snd (upd v vs))) r ip' (frame_stack f (upd v vs) []) (out @ prt v)) \<and> store_ok pool L' (upd v vs)"
  shows "follows n (j + k) m a out (then_run p (\<lambda>(v, vs). Some (prt v, Inr (upd v vs)))) (\<lambda>vs. conf (gl m (snd vs)) r ip' (frame_stack f vs []))
    (store_ok pool L')"
proof (rule follows_then [OF assms(1)])
  fix y assume "expr_ok pool L y"
  then show "follows n k m (with_value m r ip f [] y (out @ fst p)) (out @ fst p) (case y of (v, vs) \<Rightarrow> Some (prt v, Inr (upd v vs)))
      (\<lambda>vs. conf (gl m (snd vs)) r ip' (frame_stack f vs [])) (store_ok pool L')"
    using assms(2) [of "fst y" "snd y" "out @ fst p"] by (cases y) (simp add: follows_def reaches_def)
qed

lemma simple_executes:
  assumes ok: "script_ok m r code pool" "names_ready m pool"
  shows "executed n m r f code pool (Print e)" "executed n m r f code pool (Expr e)"
proof -
  have c: "computes m r f pool L k e ip vars [] out" if "stmt_at code pool L k (Print e) ip vars \<or> stmt_at code pool L k (Expr e) ip vars" for L k ip vars out
    by (rule expression_computes [OF ok]) (use that in \<open>auto simp: stmt_at_def item_ok_def dest: segment_append\<close>)
  have "executes n m r f pool L k (Print e) ip vars out" if at: "stmt_at code pool L k (Print e) ip vars" for L k ip vars out
  proof -
    have seg: "segment code (ip + length (ecode L k e)) [op_byte OP_PRINT]" using at by (auto simp: stmt_at_def dest: segment_append)
    have "executes n m r f pool L k (Print e) ip vars out
        = follows n (length (ecode L k e) + Suc 0) m (conf (gl m (snd vars)) r ip (frame_stack f vars []) out) out
          (then_run (eeval e vars) (\<lambda>(v, vs). Some (line_of v, Inr vs)))
          (\<lambda>vs. conf (gl m (snd vs)) r (Suc (ip + length (ecode L k e))) (frame_stack f vs [])) (store_ok pool L)"
      by (simp add: length_ecode [of L k e])
    also have "..."
      by (rule value_then [where upd = "\<lambda>v vs. vs"], rule c, use at in simp)
        (use print_runs [OF _ seg] ok(1) in \<open>auto simp: expr_ok_def simp del: append_Cons\<close>)
    finally show ?thesis .
  qed
  then show "executed n m r f code pool (Print e)" by (simp add: executed_def)
  have "executes n m r f pool L k (Expr e) ip vars out" if at: "stmt_at code pool L k (Expr e) ip vars" for L k ip vars out
  proof -
    have seg: "segment code (ip + length (ecode L k e)) [op_byte OP_POP]" using at by (auto simp: stmt_at_def dest: segment_append)
    have "executes n m r f pool L k (Expr e) ip vars out
        = follows n (length (ecode L k e) + Suc 0) m (conf (gl m (snd vars)) r ip (frame_stack f vars []) out) out
          (then_run (eeval e vars) (\<lambda>(v, vs). Some ([], Inr vs)))
          (\<lambda>vs. conf (gl m (snd vs)) r (Suc (ip + length (ecode L k e))) (frame_stack f vs [])) (store_ok pool L)"
      by (simp add: length_ecode [of L k e])
    also have "..."
      by (rule value_then [where upd = "\<lambda>v vs. vs"], rule c, use at in simp)
        (use pop_runs [OF _ seg] ok(1) in \<open>auto simp: expr_ok_def simp del: append_Cons\<close>)
    finally show ?thesis .
  qed
  then show "executed n m r f code pool (Expr e)" by (simp add: executed_def)
qed

lemma declaration_executes:
  assumes ok: "script_ok m r code pool" "names_ready m pool"
  shows "executed n m r f code pool (VarDecl x i)" "executed n m r f code pool (Global x i)"
proof -
  have "executes n m r f pool L k (VarDecl x i) ip vars out" if at: "stmt_at code pool L k (VarDecl x i) ip vars" for L k ip vars out
  proof -
    have "follows n (length (icode L k i) + 0) m (conf (gl m (snd vars)) r ip (frame_stack f vars []) out) out
        (then_run (ieval i vars) (\<lambda>(v, vs). Some ([], Inr (with_local x v vs))))
        (\<lambda>vs. conf (gl m (snd vs)) r (ip + length (icode L k i)) (frame_stack f vs [])) (store_ok pool (x # L))"
    proof (rule value_then)
      show "reaches (length (icode L k i)) m (conf (gl m (snd vars)) r ip (frame_stack f vars []) out) out (ieval i vars)
          (with_value m r (ip + length (icode L k i)) f []) (expr_ok pool L)"
        by (rule initializer_computes [OF ok]) (use at in \<open>auto simp: stmt_at_def item_ok_def\<close>)
    qed (auto simp: expr_ok_def store_ok_def with_local_def)
    then show ?thesis by (simp add: length_icode [of L k i])
  qed
  then show "executed n m r f code pool (VarDecl x i)" by (simp add: executed_def)
  have "executes n m r f pool L k (Global x i) ip vars out" if at: "stmt_at code pool L k (Global x i) ip vars" for L k ip vars out
  proof -
    let ?ic = "icode L (Suc k) i"
    have seg: "segment code ip ?ic" "segment code (ip + length ?ic) [op_byte OP_DEFINE_GLOBAL, of_nat k]" "segment pool k [Name_Lit x]" "k < 256"
        "segment pool (Suc k) (iconsts L i)"
      using at segment_append [of pool k "[Name_Lit x]" "iconsts L i"] by (auto simp: stmt_at_def dest: segment_append)
    have init: "reaches (length ?ic) m (conf (gl m (snd vars)) r ip (frame_stack f vars []) out) out (ieval i vars)
        (with_value m r (ip + length ?ic) f []) (expr_ok pool L)"
      by (rule initializer_computes [OF ok seg(1,5)]) (use at in \<open>auto simp: stmt_at_def item_ok_def\<close>)
    have "Name_Lit x \<in> set pool" using segment_Cons [OF seg(3)] by (metis nth_mem)
    moreover have "runs (Suc 0) (conf (gl m (snd vs)) r (ip + length ?ic) (frame_stack f vs [] @ [v]) out')
        (conf (gl m ((x, v) # snd vs)) r (ip + length ?ic + 2) (frame_stack f vs []) out')" if "store_ok pool L vs" for v vs out'
      by (rule define_global_runs [OF ok seg(2-4)]) (use that in \<open>simp add: store_ok_def\<close>)
    ultimately have "follows n (length ?ic + Suc 0) m (conf (gl m (snd vars)) r ip (frame_stack f vars []) out) out
        (then_run (ieval i vars) (\<lambda>(v, vs). Some ([], Inr (with_global x v vs))))
        (\<lambda>vs. conf (gl m (snd vs)) r (ip + length ?ic + 2) (frame_stack f vs [])) (store_ok pool L)"
      by (intro value_then [OF init]) (auto simp: expr_ok_def store_ok_def with_global_def pooled_def)
    then show ?thesis by (simp add: length_icode [of L "Suc k" i] add.assoc)
  qed
  then show "executed n m r f code pool (Global x i)" by (simp add: executed_def)
qed

lemma if_follows:
  assumes ok: "script_ok m r code pool" and seg: "segment code ip (if_code cc ca cb)" and len: "length ca < 252" "length cb < 255"
    and c: "reaches (length cc) m (conf (gl m (snd vars)) r ip (frame_stack f vars []) out) out p (with_value m r (ip + length cc) f []) (expr_ok pool L)"
    and a: "\<And>ip vs out. segment code ip ca \<Longrightarrow> store_ok pool L vs \<Longrightarrow> follows n ja m (conf (gl m (snd vs)) r ip (frame_stack f vs []) out) out (qa vs)
      (\<lambda>vs. conf (gl m (snd vs)) r (ip + length ca) (frame_stack f vs [])) (store_ok pool L)"
    and b: "\<And>ip vs out. segment code ip cb \<Longrightarrow> store_ok pool L vs \<Longrightarrow> follows n jb m (conf (gl m (snd vs)) r ip (frame_stack f vs []) out) out (qb vs)
      (\<lambda>vs. conf (gl m (snd vs)) r (ip + length cb) (frame_stack f vs [])) (store_ok pool L)"
  shows "follows n (length cc + (3 + max ja jb)) m (conf (gl m (snd vars)) r ip (frame_stack f vars []) out) out (then_run p (\<lambda>(v, vs). if is_falsey v then qb vs else qa vs))
    (\<lambda>vs. conf (gl m (snd vs)) r (ip + length (if_code cc ca cb)) (frame_stack f vs [])) (store_ok pool L)"
proof (rule follows_then [OF c])
  fix x assume x: "expr_ok pool L x"
  obtain v vs where p: "x = (v, vs)" by (cases x)
  let ?i = "ip + length cc" and ?o = "out @ fst p" and ?S = "frame_stack f vs []" and ?m = "gl m (snd vs)"
  have okm: "script_ok (gl m G) r code pool" for G using ok by simp
  have vs: "store_ok pool L vs" using x p by (simp add: expr_ok_def)
  have s: "segment code ?i (jump_code OP_JUMP_IF_FALSE (length ca + 4))" "segment code (?i + 3) [op_byte OP_POP]" "segment code (?i + 4) ca"
      "segment code (?i + 4 + length ca) (jump_code OP_JUMP (Suc (length cb)))" "segment code (?i + 7 + length ca) [op_byte OP_POP]"
      "segment code (?i + 8 + length ca) cb"
    using segment_parts [of code ip cc "jump_code OP_JUMP_IF_FALSE (length ca + 4)" "[op_byte OP_POP]"
        "ca @ jump_code OP_JUMP (Suc (length cb)) @ [op_byte OP_POP] @ cb"]
      segment_parts [of code "?i + 4" ca "jump_code OP_JUMP (Suc (length cb))" "[op_byte OP_POP]" cb] seg
    by (simp_all add: if_code_def jump_code_def add.assoc eval_nat_numeral)
  have j: "runs (Suc 0) (conf ?m r ?i (?S @ [v]) ?o) (conf ?m r (if is_falsey v then ?i + 7 + length ca else ?i + 3) (?S @ [v]) ?o)"
    using jump_if_false_runs [OF okm s(1), of "snd vs" ?S v ?o] len(1) by (cases "is_falsey v") (simp_all add: eval_nat_numeral)
  have total: "ip + length (if_code cc ca cb) = ?i + 8 + length ca + length cb" by (simp add: if_code_def jump_code_def)
  have "follows n (3 + max ja jb) m (conf ?m r ?i (?S @ [v]) ?o) ?o (if is_falsey v then qb vs else qa vs)
      (\<lambda>vs. conf (gl m (snd vs)) r (ip + length (if_code cc ca cb)) (frame_stack f vs [])) (store_ok pool L)"
  proof (cases "is_falsey v")
    case True
    have "runs 2 (conf ?m r ?i (?S @ [v]) ?o) (conf ?m r (?i + 8 + length ca) ?S ?o)"
      using runs_trans [OF j] pop_runs [OF okm s(5), of "snd vs" ?S v ?o] True by (simp add: eval_nat_numeral)
    from follows_mono [OF follows_run [OF this b [OF s(6) vs]], of n "3 + max ja jb"] show ?thesis using True by (simp add: total)
  next
    case False
    have "runs 2 (conf ?m r ?i (?S @ [v]) ?o) (conf ?m r (?i + 4) ?S ?o)"
      using runs_trans [OF j] pop_runs [OF okm s(2), of "snd vs" ?S v ?o] False by (simp add: eval_nat_numeral)
    note run = follows_run [OF this a [OF s(3) vs]]
    have "follows n (2 + ja + Suc 0) m (conf ?m r ?i (?S @ [v]) ?o) ?o (and_then (qa vs) (\<lambda>u. Some ([], Inr u)))
        (\<lambda>vs. conf (gl m (snd vs)) r (ip + length (if_code cc ca cb)) (frame_stack f vs [])) (store_ok pool L)"
      using jump_runs [OF okm s(4)] len(2) unfolding total
      by (intro follows_and_then [OF run] follows_value) (simp_all add: ac_simps)
    moreover have "and_then q (\<lambda>u. Some ([], Inr u)) = q" for q :: "store meaning option"
      by (auto simp: and_then_def then_run_def split: option.splits prod.splits sum.splits)
    ultimately show ?thesis using False follows_mono [of n "2 + ja + Suc 0" m _ _ _ _ _ n "3 + max ja jb"] by simp
  qed
  then show "follows n (3 + max ja jb) m (with_value m r (ip + length cc) f [] x ?o) ?o (case x of (v, vs) \<Rightarrow> if is_falsey v then qb vs else qa vs)
      (\<lambda>vs. conf (gl m (snd vs)) r (ip + length (if_code cc ca cb)) (frame_stack f vs [])) (store_ok pool L)"
    by (simp add: p)
qed

lemma if_executes:
  assumes ok: "script_ok m r code pool" "names_ready m pool" and a: "executed n m r f code pool a"
  shows "executed n m r f code pool (IfThen c a)"
  unfolding executed_def
proof (intro allI impI)
  fix L k ip vars out assume at: "stmt_at code pool L k (IfThen c a) ip vars"
  let ?k = "k + length (econsts L c)"
  have seg: "segment code ip (if_code (ecode L k c) (scode L ?k a) [])" "segment code ip (ecode L k c)" "segment pool k (econsts L c)" "segment pool ?k (sconsts L a)"
    and wf: "wf_exp c" "wf_stmt L a" "length (scode L ?k a) < 252" and vs: "store_ok pool L vars"
    using at length_scode [of L ?k a] by (auto simp: stmt_at_def item_ok_def if_code_def dest: segment_append)
  have c: "computes m r f pool L k c ip vars [] out" by (rule expression_computes [OF ok seg(2,3)]) (use at in \<open>auto simp: stmt_at_def item_ok_def\<close>)
  have "follows n (length (ecode L k c) + (3 + max (ssteps n a) 0)) m (conf (gl m (snd vars)) r ip (frame_stack f vars []) out) out (seval n (IfThen c a) vars)
    (\<lambda>vs. conf (gl m (snd vs)) r (ip + length (scode L k (IfThen c a))) (frame_stack f vs [])) (store_ok pool L)"
    unfolding seval.simps scode.simps
  proof (rule if_follows [OF ok(1) seg(1) wf(3) _ c, where qb = "\<lambda>st1. Some ([], Inr st1)"])
    fix ip vs out assume "segment code ip (scode L ?k a)" "store_ok pool L vs"
    then have "stmt_at code pool L ?k a ip vs" using at seg(4) wf_item [OF wf(2)] by (auto simp: stmt_at_def)
    then show "follows n (ssteps n a) m (conf (gl m (snd vs)) r ip (frame_stack f vs []) out) out (seval n a vs)
        (\<lambda>vs. conf (gl m (snd vs)) r (ip + length (scode L ?k a)) (frame_stack f vs [])) (store_ok pool L)"
      using executedD [OF a] wf_no_binds [OF wf(2)] by simp
  qed (auto intro: follows_value)
  then show "executes n m r f pool L k (IfThen c a) ip vars out" by (simp add: length_ecode [of L k c] ac_simps)
qed

lemma if_else_executes:
  assumes ok: "script_ok m r code pool" "names_ready m pool" and a: "executed n m r f code pool a" and b: "executed n m r f code pool b"
  shows "executed n m r f code pool (IfElse c a b)"
  unfolding executed_def
proof (intro allI impI)
  fix L k ip vars out assume at: "stmt_at code pool L k (IfElse c a b) ip vars"
  let ?k = "k + length (econsts L c)" let ?kb = "?k + length (sconsts L a)"
  have seg: "segment code ip (if_code (ecode L k c) (scode L ?k a) (scode L ?kb b))" "segment code ip (ecode L k c)" "segment pool k (econsts L c)"
      "segment pool ?k (sconsts L a)" "segment pool ?kb (sconsts L b)"
    and wf: "wf_exp c" "wf_stmt L a" "wf_stmt L b" "length (scode L ?k a) < 252" "length (scode L ?kb b) < 255"
    using at length_scode [of L ?k a] length_scode [of L ?kb b] by (auto simp: stmt_at_def item_ok_def if_code_def dest!: segment_append)
  have c: "computes m r f pool L k c ip vars [] out" by (rule expression_computes [OF ok seg(2,3)]) (use at in \<open>auto simp: stmt_at_def item_ok_def\<close>)
  have "follows n (length (ecode L k c) + (3 + max (ssteps n a) (ssteps n b))) m (conf (gl m (snd vars)) r ip (frame_stack f vars []) out) out (seval n (IfElse c a b) vars)
    (\<lambda>vs. conf (gl m (snd vs)) r (ip + length (scode L k (IfElse c a b))) (frame_stack f vs [])) (store_ok pool L)"
    unfolding seval.simps scode.simps
  proof (rule if_follows [OF ok(1) seg(1) wf(4,5) c])
    fix ip vs out assume "segment code ip (scode L ?k a)" "store_ok pool L vs"
    then have "stmt_at code pool L ?k a ip vs" using at seg(4) wf_item [OF wf(2)] by (auto simp: stmt_at_def)
    then show "follows n (ssteps n a) m (conf (gl m (snd vs)) r ip (frame_stack f vs []) out) out (seval n a vs)
        (\<lambda>vs. conf (gl m (snd vs)) r (ip + length (scode L ?k a)) (frame_stack f vs [])) (store_ok pool L)"
      using executedD [OF a] wf_no_binds [OF wf(2)] by simp
  next
    fix ip vs out assume "segment code ip (scode L ?kb b)" "store_ok pool L vs"
    then have "stmt_at code pool L ?kb b ip vs" using at seg(5) wf_item [OF wf(3)] by (auto simp: stmt_at_def)
    then show "follows n (ssteps n b) m (conf (gl m (snd vs)) r ip (frame_stack f vs []) out) out (seval n b vs)
        (\<lambda>vs. conf (gl m (snd vs)) r (ip + length (scode L ?kb b)) (frame_stack f vs [])) (store_ok pool L)"
      using executedD [OF b] wf_no_binds [OF wf(3)] by simp
  qed
  then show "executes n m r f pool L k (IfElse c a b) ip vars out" by (simp add: length_ecode [of L k c] ac_simps)
qed

text \<open>The parts of a loop: condition, increment, body, the jump back.\<close>

lemma length_jump_code: "length (jump_code instr d) = 3"
  by (simp add: jump_code_def)

lemma length_guard_code: "length (guard_code d cc) = guard_size (map_option length cc)"
  by (simp add: guard_code_def guard_size_def jump_code_def split: option.splits)

lemma loop_segments:
  assumes "segment code ip (loop_code cc ci ca)"
  defines "g \<equiv> guard_size (map_option length cc)"
  defines "x \<equiv> incr_code g ci"
  shows "segment code ip (guard_code (length x + length ca + 4) cc)" "segment code (ip + g) x" "segment code (ip + g + length x) ca"
    "segment code (ip + g + length x + length ca) (jump_code OP_LOOP (loop_size g (map_option length ci) (length ca)))"
    "segment code (ip + g + length x + length ca + 3) (exit_code cc)"
  using segment_parts [of code ip "guard_code (length x + length ca + 4) cc" x ca "jump_code OP_LOOP (loop_size g (map_option length ci) (length ca)) @ exit_code cc"]
    segment_append [of code "ip + g + length x + length ca" "jump_code OP_LOOP (loop_size g (map_option length ci) (length ca))" "exit_code cc"] assms(1)
  by (simp_all add: loop_code_def g_def [symmetric] x_def [symmetric] Let_def length_guard_code length_jump_code)

text \<open>The condition, then the loop or the way out.\<close>

lemma guard_follows:
  assumes ok: "script_ok m r code pool" "names_ready m pool" and seg: "segment code ip (guard_code d (map_option (ecode L k) c))" "segment pool k (iconsts L c)"
    and exits: "\<And>e. c = Some e \<Longrightarrow> segment code (ip + length (ecode L k e) + 3 + d) [op_byte OP_POP] \<and> ip' = ip + length (ecode L k e) + 4 + d \<and> d \<le> 255"
    and at: "k + length (iconsts L c) \<le> 256" "wf_init c" "length L < 256" "store_ok pool L vars" "Suc (length L + iheight c) \<le> STACK_MAX"
    and rest: "\<And>vs out. store_ok pool L vs \<Longrightarrow> follows n j m (conf (gl m (snd vs)) r (ip + guard_size (map_option esize c)) (frame_stack f vs []) out) out (q vs)
      (\<lambda>vs. conf (gl m (snd vs)) r ip' (frame_stack f vs [])) (store_ok pool L)"
  shows "follows n (csize c + (2 + j)) m (conf (gl m (snd vars)) r ip (frame_stack f vars []) out) out
    (then_run (guard c vars) (\<lambda>(v, vs). if is_falsey v then Some ([], Inr vs) else q vs))
    (\<lambda>vs. conf (gl m (snd vs)) r ip' (frame_stack f vs [])) (store_ok pool L)"
proof (cases c)
  case None
  have "then_run (guard c vars) (\<lambda>(v, vs). if is_falsey v then Some ([], Inr vs) else q vs) = q vars"
    using None by (cases "q vars") (simp_all add: guard_def then_run_def)
  moreover have "follows n j m (conf (gl m (snd vars)) r ip (frame_stack f vars []) out) out (q vars)
      (\<lambda>vs. conf (gl m (snd vs)) r ip' (frame_stack f vs [])) (store_ok pool L)"
    using rest [OF at(4)] None by (simp add: guard_size_def)
  ultimately show ?thesis using follows_mono [of n j m _ out "q vars" _ "store_ok pool L" n "csize c + (2 + j)"] by simp
next
  case (Some e)
  let ?c = "ecode L k e" let ?i = "ip + length ?c"
  have s: "segment code ip ?c" "segment code ?i (jump_code OP_JUMP_IF_FALSE d)" "segment code (?i + 3) [op_byte OP_POP]"
    using segment_parts [of code ip ?c "jump_code OP_JUMP_IF_FALSE d" "[op_byte OP_POP]" "[]"] seg(1) Some
    by (simp_all add: guard_code_def length_jump_code)
  have c: "computes m r f pool L k e ip vars [] out"
    by (rule expression_computes [OF ok s(1)]) (use seg(2) at Some in \<open>auto simp: iconsts_def wf_init_def iheight_def\<close>)
  have "follows n (length ?c + (2 + j)) m (conf (gl m (snd vars)) r ip (frame_stack f vars []) out) out
      (then_run (eeval e vars) (\<lambda>(v, vs). if is_falsey v then Some ([], Inr vs) else q vs))
      (\<lambda>vs. conf (gl m (snd vs)) r ip' (frame_stack f vs [])) (store_ok pool L)"
  proof (rule follows_then [OF c])
    fix x assume x: "expr_ok pool L x"
    obtain v vs where p: "x = (v, vs)" by (cases x)
    have vs: "store_ok pool L vs" using x p by (simp add: expr_ok_def)
    let ?o = "out @ fst (eeval e vars)" and ?S = "frame_stack f vs []" and ?m = "gl m (snd vs)"
    have okm: "script_ok (gl m G) r code pool" for G using ok(1) by simp
    have ex: "segment code (?i + 3 + d) [op_byte OP_POP]" "ip' = Suc (?i + 3 + d)" "d \<le> 255" using exits [OF Some] by simp_all
    note jmp = jump_if_false_runs [OF okm s(2) ex(3), of "snd vs" ?S v ?o]
    have "follows n (Suc 0 + j) m (conf ?m r (if is_falsey v then ?i + 3 + d else ?i + 3) (?S @ [v]) ?o) ?o (if is_falsey v then Some ([], Inr vs) else q vs)
        (\<lambda>vs. conf (gl m (snd vs)) r ip' (frame_stack f vs [])) (store_ok pool L)"
    proof (cases "is_falsey v")
      case True
      have "runs (Suc 0 + j) (conf ?m r (?i + 3 + d) (?S @ [v]) ?o) (conf ?m r ip' ?S ?o)"
        unfolding ex(2) by (rule runs_mono [OF pop_runs [OF okm ex(1)]]) simp
      then show ?thesis using True vs by (simp add: follows_value)
    next
      case False
      have "ip + guard_size (map_option esize c) = Suc (?i + 3)" using Some length_ecode [of L k e] by (simp add: guard_size_def)
      then have "follows n j m (conf ?m r (Suc (?i + 3)) ?S ?o) ?o (q vs) (\<lambda>vs. conf (gl m (snd vs)) r ip' (frame_stack f vs [])) (store_ok pool L)"
        using rest [OF vs, of ?o] by (simp only:)
      from follows_run [OF pop_runs [OF okm s(3), of "snd vs" ?S v ?o] this] False show ?thesis by simp
    qed
    from follows_run [OF jmp this] show "follows n (2 + j) m (with_value m r ?i f [] x ?o) ?o
        (case x of (v, vs) \<Rightarrow> if is_falsey v then Some ([], Inr vs) else q vs) (\<lambda>vs. conf (gl m (snd vs)) r ip' (frame_stack f vs [])) (store_ok pool L)"
      by (simp add: p)
  qed
  then show ?thesis using Some length_ecode [of L k e] by (simp add: guard_def csize_def)
qed

text \<open>The end of a round: back to the increment, if there is one, and from there to the condition.\<close>

lemma then_run_incr: "then_run (incr inc vs) q = (case inc of None \<Rightarrow> q vs | Some e \<Rightarrow> then_run (eeval e vs) (\<lambda>(v, vs). q vs))"
  by (cases "q vs") (auto simp: incr_def then_run_def then_do_def option.map_comp o_def case_prod_beta option.map_ident split: option.splits prod.splits sum.splits)

lemma incr_follows:
  assumes ok: "script_ok m r code pool" "names_ready m pool" and seg: "segment code (ip + g) (incr_code g (map_option (ecode L k) inc))"
      "segment code (ip + g + length (incr_code g (map_option (ecode L k) inc)) + l) (jump_code OP_LOOP (loop_size g (map_option esize inc) l))" "segment pool k (iconsts L inc)"
    and dist: "loop_size g (map_option esize inc) l \<le> 65535" "\<And>e. inc = Some e \<Longrightarrow> g + esize e + 7 \<le> 65535"
    and at: "k + length (iconsts L inc) \<le> 256" "wf_init inc" "length L < 256" "store_ok pool L vars" "Suc (length L + iheight inc) \<le> STACK_MAX"
    and rest: "\<And>vs out. store_ok pool L vs \<Longrightarrow> follows n j m (conf (gl m (snd vs)) r ip (frame_stack f vs []) out) out (q vs) b P"
  shows "follows (Suc n) (Suc (csize inc + (2 + j))) m
    (conf (gl m (snd vars)) r (ip + g + length (incr_code g (map_option (ecode L k) inc)) + l) (frame_stack f vars []) out) out (then_run (incr inc vars) q) b P"
proof (cases inc)
  case None
  have "script_ok (gl m (snd vars)) r code pool" using ok(1) by simp
  note step = loop_step [OF this seg(2) dist(1), of "frame_stack f vars []" out]
  have "follows n (csize inc + (2 + j)) m (conf (gl m (snd vars)) r ip (frame_stack f vars []) out) out (q vars) b P"
    by (rule follows_mono [OF rest [OF at(4)]]) simp_all
  then show ?thesis using follows_step [OF step] None by (simp add: then_run_incr incr_code_def loop_size_def)
next
  case (Some e)
  have okm: "script_ok (gl m G) r code pool" for G using ok(1) by simp
  let ?c = "ecode L k e" let ?i = "ip + g + 3" let ?il = "ip + g + length (incr_code g (map_option (ecode L k) inc)) + l"
  have len: "length ?c = esize e" by (rule length_ecode)
  have s: "segment code ?i ?c" "segment code (?i + length ?c) [op_byte OP_POP]" "segment code (Suc (?i + length ?c)) (jump_code OP_LOOP (g + length ?c + 7))"
    using segment_parts [of code "ip + g" "jump_code OP_JUMP (length ?c + 4)" ?c "[op_byte OP_POP]" "jump_code OP_LOOP (g + length ?c + 7)"] seg(1) Some
    by (simp_all add: incr_code_def length_jump_code)
  have c: "computes m r f pool L k e ?i vars [] out"
    by (rule expression_computes [OF ok s(1)]) (use seg(3) at Some in \<open>auto simp: iconsts_def wf_init_def iheight_def\<close>)
  have "follows n (length ?c + (2 + j)) m (conf (gl m (snd vars)) r ?i (frame_stack f vars []) out) out (then_run (eeval e vars) (\<lambda>(v, vs). q vs)) b P"
  proof (rule follows_then [OF c])
    fix x assume x: "expr_ok pool L x"
    obtain v vs where p: "x = (v, vs)" by (cases x)
    have vs: "store_ok pool L vs" using x p by (simp add: expr_ok_def)
    let ?o = "out @ fst (eeval e vars)" and ?S = "frame_stack f vs []" and ?m = "gl m (snd vs)"
    have "runs (Suc 0) (conf ?m r (Suc (?i + length ?c)) ?S ?o) (conf ?m r ip ?S ?o)"
      using loop_runs [OF okm s(3), of "snd vs" ?S ?o] dist(2) [OF Some] len by simp
    from runs_trans [OF pop_runs [OF okm s(2)] this] have "runs 2 (conf ?m r (?i + length ?c) (?S @ [v]) ?o) (conf ?m r ip ?S ?o)" by (simp add: numeral_2_eq_2)
    from follows_run [OF this rest [OF vs]] show "follows n (2 + j) m (with_value m r (?i + length ?c) f [] x ?o) ?o (case x of (v, vs) \<Rightarrow> q vs) b P"
      by (simp add: p)
  qed
  moreover have "vm_step (conf (gl m (snd vars)) r ?il (frame_stack f vars []) out) = Inr (Running (conf (gl m (snd vars)) r ?i (frame_stack f vars []) out))"
    using loop_step [OF okm seg(2) dist(1), of "snd vars" "frame_stack f vars []" out] Some len by (simp add: loop_size_def incr_code_def length_jump_code ac_simps)
  ultimately have "follows (Suc n) (Suc (length ?c + (2 + j))) m (conf (gl m (snd vars)) r ?il (frame_stack f vars []) out) out
      (then_run (eeval e vars) (\<lambda>(v, vs). q vs)) b P" by (intro follows_step)
  then show ?thesis using Some len by (simp add: then_run_incr csize_def)
qed

definition loop_at :: "byte list \<Rightarrow> const_lit list \<Rightarrow> string list \<Rightarrow> nat \<Rightarrow> cexp option \<Rightarrow> cexp option \<Rightarrow> cstmt \<Rightarrow> nat \<Rightarrow> bool" where
  "loop_at code pool L k c inc a ip \<longleftrightarrow> (let k2 = k + length (iconsts L c); k3 = k2 + length (iconsts L inc) in
     segment code ip (loop_code (map_option (ecode L k) c) (map_option (ecode L k2) inc) (scode L k3 a))
     \<and> segment pool k (iconsts L c) \<and> segment pool k2 (iconsts L inc) \<and> segment pool k3 (sconsts L a) \<and> k3 + length (sconsts L a) \<le> 256)
     \<and> wf_init c \<and> wf_init inc \<and> wf_stmt L a \<and> loop_fits (map_option esize c) (map_option esize inc) (length (scode [] 0 a))
     \<and> length L < 256 \<and> Suc (length L + max (iheight c) (max (iheight inc) (sheight a))) \<le> STACK_MAX"

lemma rounds_follow:
  assumes ok: "script_ok m r code pool" "names_ready m pool" and a: "executed n m r f code pool a" and at: "loop_at code pool L k c inc a ip"
  defines "k2 \<equiv> k + length (iconsts L c)"
  defines "ca \<equiv> scode L (k2 + length (iconsts L inc)) a"
  defines "ip' \<equiv> ip + length (loop_code (map_option (ecode L k) c) (map_option (ecode L k2) inc) ca)"
  shows "j \<le> n \<Longrightarrow> store_ok pool L vars \<Longrightarrow> follows j (j * round_steps c inc (ssteps n a)) m (conf (gl m (snd vars)) r ip (frame_stack f vars []) out) out
    (rounds j (guard c) (\<lambda>st. seval n a st) (incr inc) vars) (\<lambda>vs. conf (gl m (snd vs)) r ip' (frame_stack f vs [])) (store_ok pool L)"
proof (induction j arbitrary: vars out)
  case 0
  then show ?case by (simp add: follows_def)
next
  case (Suc j)
  let ?cc = "map_option (ecode L k) c" and ?ci = "map_option (ecode L k2) inc"
  have sizes: "map_option length ?cc = map_option esize c" "map_option length ?ci = map_option esize inc" "length ca = length (scode [] 0 a)"
    using length_ecode [of L] length_scode [of L] by (auto simp: ca_def option.map_comp o_def)
  let ?g = "guard_size (map_option esize c)" and ?q = "j * round_steps c inc (ssteps n a)"
  let ?x = "incr_code ?g ?ci" let ?ib = "ip + ?g + length ?x" let ?d = "length ?x + length ca + 4"
  have seg: "segment code ip (loop_code ?cc ?ci ca)" "segment pool k (iconsts L c)" "segment pool k2 (iconsts L inc)"
      "segment pool (k2 + length (iconsts L inc)) (sconsts L a)"
    and fit: "loop_fits (map_option esize c) (map_option esize inc) (length ca)" and wf: "wf_init c" "wf_init inc" "wf_stmt L a"
    using at by (auto simp: loop_at_def k2_def ca_def Let_def length_scode [of L])
  note s = loop_segments [OF seg(1), unfolded sizes(1,2)] and parts = loop_parts [of ?cc ?ci ca, unfolded sizes(1,2), OF fit]
  have total: "ip' = ip + ?g + length ?x + length ca + 3 + length (exit_code ?cc)"
    by (simp add: ip'_def loop_code_def Let_def length_guard_code sizes length_jump_code)
  let ?b = "\<lambda>vs. conf (gl m (snd vs)) r ip' (frame_stack f vs [])"
  have again: "follows (Suc j) (Suc (csize inc + (2 + ?q))) m (conf (gl m (snd vs)) r (?ib + length ca) (frame_stack f vs []) out) out
      (then_run (incr inc vs) (rounds j (guard c) (\<lambda>st. seval n a st) (incr inc))) ?b (store_ok pool L)" if "store_ok pool L vs" for vs out
  proof (rule incr_follows [OF ok s(2) s(4) seg(3) parts(3)])
    show "?g + esize e + 7 \<le> 65535" if "inc = Some e" for e using parts(4) [of "ecode L k2 e"] that length_ecode [of L k2 e] by simp
    show "follows j ?q m (conf (gl m (snd vs)) r ip (frame_stack f vs []) out) out (rounds j (guard c) (\<lambda>st. seval n a st) (incr inc) vs) ?b (store_ok pool L)"
      if "store_ok pool L vs" for vs out using Suc.IH Suc.prems(1) that by simp
  qed (use at that in \<open>auto simp: loop_at_def k2_def Let_def\<close>)
  have body: "follows (Suc j) (ssteps n a + Suc (csize inc + (2 + ?q))) m (conf (gl m (snd vs)) r ?ib (frame_stack f vs []) out) out
      (and_then (seval n a vs) (\<lambda>st2. then_run (incr inc st2) (rounds j (guard c) (\<lambda>st. seval n a st) (incr inc)))) ?b (store_ok pool L)"
    if "store_ok pool L vs" for vs out
  proof (rule follows_and_then)
    have "stmt_at code pool L (k2 + length (iconsts L inc)) a ?ib vs"
      using s(3) seg(4) at that wf_item [OF wf(3)] by (auto simp: stmt_at_def loop_at_def k2_def ca_def Let_def)
    from executedD [OF a this, of out]
    have "follows n (ssteps n a) m (conf (gl m (snd vs)) r ?ib (frame_stack f vs []) out) out (seval n a vs)
        (\<lambda>vs. conf (gl m (snd vs)) r (?ib + length ca) (frame_stack f vs [])) (store_ok pool L)"
      using wf_no_binds [OF wf(3)] by (simp add: ca_def)
    then show "follows (Suc j) (ssteps n a) m (conf (gl m (snd vs)) r ?ib (frame_stack f vs []) out) out (seval n a vs)
        (\<lambda>vs. conf (gl m (snd vs)) r (?ib + length ca) (frame_stack f vs [])) (store_ok pool L)"
      by (rule follows_mono) (use Suc.prems(1) in simp_all)
  qed (use again in auto)
  have over: "follows (Suc j) (1 + (ssteps n a + Suc (csize inc + (2 + ?q)))) m (conf (gl m (snd vs)) r (ip + ?g) (frame_stack f vs []) out) out
      (and_then (seval n a vs) (\<lambda>st2. then_run (incr inc st2) (rounds j (guard c) (\<lambda>st. seval n a st) (incr inc)))) ?b (store_ok pool L)"
    if vs: "store_ok pool L vs" for vs out
  proof (rule follows_run [OF _ body [OF vs]])
    show "runs 1 (conf (gl m (snd vs)) r (ip + ?g) (frame_stack f vs []) out) (conf (gl m (snd vs)) r ?ib (frame_stack f vs []) out)"
    proof (cases inc)
      case (Some e)
      let ?c = "ecode L k2 e"
      have "segment code (ip + ?g) (jump_code OP_JUMP (length ?c + 4))" using s(2) Some by (auto simp: incr_code_def dest: segment_append)
      moreover have "length ?c + 4 \<le> 255" using parts(4) [of ?c] Some by simp
      moreover have "script_ok (gl m (snd vs)) r code pool" using ok(1) by simp
      ultimately show ?thesis using jump_runs [of "gl m (snd vs)" r code pool "ip + ?g" "length ?c + 4" "frame_stack f vs []" out] Some
        by (simp add: incr_code_def length_jump_code ac_simps)
    qed (simp add: incr_code_def)
  qed
  have "follows (Suc j) (csize c + (2 + (1 + (ssteps n a + Suc (csize inc + (2 + ?q)))))) m (conf (gl m (snd vars)) r ip (frame_stack f vars []) out) out
      (rounds (Suc j) (guard c) (\<lambda>st. seval n a st) (incr inc) vars) ?b (store_ok pool L)"
    unfolding rounds.simps
  proof (rule guard_follows [OF ok s(1) seg(2) _ _ wf(1) _ Suc.prems(2) _ over])
    fix e assume e: "c = Some e"
    have "?g = length (ecode L k e) + 4" using e length_ecode [of L k e] by (simp add: guard_size_def)
    then show "segment code (ip + length (ecode L k e) + 3 + ?d) [op_byte OP_POP] \<and> ip' = ip + length (ecode L k e) + 4 + ?d \<and> ?d \<le> 255"
      using s(5) total parts(1) [of ?g 0] e by (simp add: exit_code_def length_jump_code ac_simps)
  qed (use at in \<open>auto simp: loop_at_def k2_def Let_def\<close>)
  moreover have "csize c + (2 + (1 + (ssteps n a + Suc (csize inc + (2 + ?q))))) = Suc j * round_steps c inc (ssteps n a)"
    by (simp add: round_steps_def)
  ultimately show ?case by (simp only:)
qed

lemma while_executes:
  assumes ok: "script_ok m r code pool" "names_ready m pool" and a: "executed n m r f code pool a"
  shows "executed n m r f code pool (While c a)"
  unfolding executed_def
proof (intro allI impI)
  fix L k ip vars out assume at: "stmt_at code pool L k (While c a) ip vars"
  have "segment pool k (econsts L c)" "segment pool (k + length (econsts L c)) (sconsts L a)"
    using at by (auto simp: stmt_at_def dest: segment_append)
  moreover from this have "segment pool (k + length (econsts L c)) []" using segment_append [of pool k "econsts L c" "[]"] by simp
  moreover have "max (eheight c) (max (Suc 0) (sheight a)) = max (eheight c) (sheight a)" using eheight_pos [of c] by simp
  ultimately have "loop_at code pool L k (Some c) None a ip"
    using at by (simp add: stmt_at_def loop_at_def item_ok_def while_is_loop iconsts_def wf_init_def loop_fits_def loop_size_def guard_size_def iheight_def)
  from rounds_follow [OF ok a this order_refl, of vars out] at
  show "executes n m r f pool L k (While c a) ip vars out" by (simp add: stmt_at_def while_is_loop iconsts_def)
qed

text \<open>The items of a block, then one \<^verbatim>\<open>OP_POP\<close> for each local.\<close>

lemma pops_run:
  assumes ok: "script_ok m r code pool"
  shows "segment code ip (replicate (length xs) (op_byte OP_POP)) \<Longrightarrow> runs (length xs) (conf m r ip (st @ xs) out) (conf m r (ip + length xs) st out)"
proof (induction xs arbitrary: ip rule: rev_induct)
  case (snoc x xs)
  have seg: "segment code ip ([op_byte OP_POP] @ replicate (length xs) (op_byte OP_POP))" using snoc.prems by simp
  have "runs (Suc 0) (conf m r ip ((st @ xs) @ [x]) out) (conf m r (Suc ip) (st @ xs) out)"
    by (rule pop_runs [OF ok]) (use segment_append [OF seg] in simp)
  moreover have "runs (length xs) (conf m r (Suc ip) (st @ xs) out) (conf m r (Suc ip + length xs) st out)"
    by (rule snoc.IH) (use segment_append [OF seg] in simp)
  ultimately show ?case using runs_trans by fastforce
qed simp

lemma items_execute:
  assumes "\<forall>a\<in>set as. executed n m r f code pool a"
  shows "segment code ip (bcode L k as) \<Longrightarrow> segment pool k (bconsts L as) \<Longrightarrow> k + length (bconsts L as) \<le> 256 \<Longrightarrow> items_ok L as
    \<Longrightarrow> length L < 256 \<Longrightarrow> store_ok pool L vars \<Longrightarrow> Suc (length L + bheight as) \<le> STACK_MAX
    \<Longrightarrow> follows n (bsteps n as) m (conf (gl m (snd vars)) r ip (frame_stack f vars []) out) out (beval n as vars)
         (\<lambda>vs. conf (gl m (snd vs)) r (ip + length (bcode L k as)) (frame_stack f vs [])) (store_ok pool (rev (declared as) @ L))"
  using assms
proof (induction as arbitrary: ip L k vars out)
  case Nil
  then show ?case by (auto simp: declared_def intro: follows_value)
next
  case (Cons a as)
  let ?k = "k + length (sconsts L a)" and ?L = "binds a @ L" and ?ia = "ip + length (scode L k a)"
  have seg: "segment code ip (scode L k a)" "segment code ?ia (bcode ?L ?k as)" "segment pool k (sconsts L a)" "segment pool ?k (bconsts ?L as)"
    using Cons.prems(1,2) by (auto dest: segment_append)
  have item: "item_ok L a" "items_ok ?L as" using Cons.prems(4) by auto
  have len: "length ?L < 256" using item(1) Cons.prems(5) by (cases a) (auto simp: item_ok_def)
  have "stmt_at code pool L k a ip vars" using Cons.prems seg item(1) by (auto simp: stmt_at_def)
  then have first: "executes n m r f pool L k a ip vars out" by (rule executedD [rotated]) (use Cons.prems(8) in simp)
  have "follows n (ssteps n a + bsteps n as) m (conf (gl m (snd vars)) r ip (frame_stack f vars []) out) out (and_then (seval n a vars) (\<lambda>st1. beval n as st1))
      (\<lambda>vs. conf (gl m (snd vs)) r (?ia + length (bcode ?L ?k as)) (frame_stack f vs [])) (store_ok pool (rev (declared as) @ ?L))"
    by (rule follows_and_then [OF first], rule Cons.IH [OF seg(2,4) _ item(2) len]) (use Cons.prems in auto)
  moreover have "rev (declared (a # as)) @ L = rev (declared as) @ ?L" by (cases a) (auto simp: declared_def)
  ultimately show ?case by (simp add: add.assoc)
qed

text \<open>The end of a scope.\<close>

lemma drop_follows:
  assumes ok: "script_ok m r code pool" and seg: "segment code ip (replicate (length ds) (op_byte OP_POP))" and vs: "store_ok pool (rev ds @ L) vs"
  shows "follows n (length ds) m (conf (gl m (snd vs)) r ip (frame_stack f vs []) out) out (Some ([], Inr (drop_locals (length ds) vs)))
    (\<lambda>vs. conf (gl m (snd vs)) r (ip + length ds) (frame_stack f vs [])) (store_ok pool L)"
proof -
  let ?n = "length ds" let ?vs = "drop_locals ?n vs"
  have len: "length (take ?n (fst vs)) = ?n" using store_ok_length [OF vs] by simp
  have vs': "store_ok pool L ?vs"
    using vs by (auto simp: store_ok_def drop_locals_def list_all_iff simp flip: drop_map dest: in_set_dropD) (use in_set_dropD in force)
  have "frame_stack f vs [] = frame_stack f ?vs [] @ rev (map snd (take ?n (fst vs)))"
    by (simp add: drop_locals_def flip: rev_append map_append)
  then have "runs ?n (conf (gl m (snd vs)) r ip (frame_stack f vs []) out) (conf (gl m (snd ?vs)) r (ip + ?n) (frame_stack f ?vs []) out)"
    using pops_run [of "gl m (snd vs)" r code pool ip "rev (map snd (take ?n (fst vs)))" "frame_stack f ?vs []" out] ok seg len
    by (simp add: drop_locals_def del: append_Cons)
  then show ?thesis using vs' by (rule follows_value)
qed

lemma block_executes:
  assumes ok: "script_ok m r code pool" "names_ready m pool" and items: "\<And>a. a \<in> set as \<Longrightarrow> executed n m r f code pool a"
  shows "executed n m r f code pool (Block as)"
  unfolding executed_def
proof (intro allI impI)
  fix L k ip vars out assume at: "stmt_at code pool L k (Block as) ip vars"
  have seg: "segment code ip (bcode L k as)" "segment code (ip + length (bcode L k as)) (replicate (length (declared as)) (op_byte OP_POP))"
    using at by (auto simp: stmt_at_def dest: segment_append)
  have body: "follows n (bsteps n as) m (conf (gl m (snd vars)) r ip (frame_stack f vars []) out) out (beval n as vars)
       (\<lambda>vs. conf (gl m (snd vs)) r (ip + length (bcode L k as)) (frame_stack f vs [])) (store_ok pool (rev (declared as) @ L))"
    by (rule items_execute [of as n m r f code pool ip L k]) (use at items seg block_items [of "[]" L as] in \<open>auto simp: stmt_at_def item_ok_def\<close>)
  from follows_and_then [OF body drop_follows [OF ok(1) seg(2)]]
  show "executes n m r f pool L k (Block as) ip vars out" by (simp add: add.assoc)
qed

lemma for_executes:
  assumes ok: "script_ok m r code pool" "names_ready m pool" and items: "\<And>b. b \<in> set fi \<Longrightarrow> executed n m r f code pool b" and a: "executed n m r f code pool a"
  shows "executed n m r f code pool (For fi c inc a)"
  unfolding executed_def
proof (intro allI impI)
  fix L k ip vars out assume at: "stmt_at code pool L k (For fi c inc a) ip vars"
  let ?M = "rev (declared fi) @ L" and ?k1 = "k + length (bconsts L fi)" let ?k2 = "?k1 + length (iconsts ?M c)"
  let ?loop = "loop_code (map_option (ecode ?M ?k1) c) (map_option (ecode ?M ?k2) inc) (scode ?M (?k2 + length (iconsts ?M inc)) a)"
  let ?i1 = "ip + length (bcode L k fi)" let ?i2 = "?i1 + length ?loop"
  have wf: "for_init fi" "wf_block [] L fi" using at by (simp_all add: stmt_at_def item_ok_def)
  have "length (declared fi) \<le> 1 \<and> (declared fi \<noteq> [] \<longrightarrow> length L < 255)"
    using wf by (cases fi rule: for_init.cases) (auto simp: declared_def)
  then have len: "length ?M < 256" using at by (cases "declared fi") (auto simp: stmt_at_def)
  have seg: "segment code ip (bcode L k fi)" "segment code ?i1 ?loop" "segment code ?i2 (replicate (length (declared fi)) (op_byte OP_POP))"
    using at segment_parts [of code ip "bcode L k fi" ?loop "replicate (length (declared fi)) (op_byte OP_POP)" "[]"] by (simp_all add: stmt_at_def Let_def)
  have pool: "segment pool k (bconsts L fi)" "segment pool ?k1 (iconsts ?M c)" "segment pool ?k2 (iconsts ?M inc)" "segment pool (?k2 + length (iconsts ?M inc)) (sconsts ?M a)"
    using at segment_parts [of pool k "bconsts L fi" "iconsts ?M c" "iconsts ?M inc" "sconsts ?M a"] by (simp_all add: stmt_at_def Let_def)
  have first: "follows n (bsteps n fi) m (conf (gl m (snd vars)) r ip (frame_stack f vars []) out) out (beval n fi vars)
       (\<lambda>vs. conf (gl m (snd vs)) r ?i1 (frame_stack f vs [])) (store_ok pool ?M)"
    by (rule items_execute [of fi n m r f code pool ip L k]) (use at items seg pool block_items [OF wf(2)] in \<open>auto simp: stmt_at_def Let_def\<close>)
  have "loop_at code pool ?M ?k1 c inc a ?i1"
    using at seg(2) pool(2-4) len by (auto simp: stmt_at_def loop_at_def item_ok_def Let_def)
  note rounds = rounds_follow [OF ok a this order_refl]
  have "follows n (bsteps n fi + (n * round_steps c inc (ssteps n a) + length (declared fi))) m (conf (gl m (snd vars)) r ip (frame_stack f vars []) out) out
      (seval n (For fi c inc a) vars) (\<lambda>vs. conf (gl m (snd vs)) r (?i2 + length (declared fi)) (frame_stack f vs [])) (store_ok pool L)"
    unfolding seval.simps by (rule follows_and_then [OF first], rule follows_and_then [OF rounds drop_follows [OF ok(1) seg(3)]])
  then show "executes n m r f pool L k (For fi c inc a) ip vars out" by (simp add: Let_def add.assoc)
qed

lemma all_executed:
  assumes "script_ok m r code pool" "names_ready m pool"
  shows "executed n m r f code pool a"
  by (induction a) (auto intro: simple_executes [OF assms] declaration_executes [OF assms] if_executes [OF assms] if_else_executes [OF assms]
    while_executes [OF assms] for_executes [OF assms] block_executes [OF assms])

section \<open>From source text to output\<close>

lemma launch_conf:
  assumes "vm_stack vm = []" "vm_frames vm = []" "is_fun (vm_heap vm) r" "vf_arity (fun_of (vm_heap vm) r) = 0"
  shows "vm_launch vm r = Inr (conf vm r 0 [object_val r] (vm_out vm))"
proof -
  have "object_at (vm_heap vm) r = Inr (OBJECT_FUNCTION (fun_of (vm_heap vm) r))"
    using assms(3) by (auto simp: is_fun_def fun_of_def as_function_def object_at_def split: object_body.splits)
  then show ?thesis
    using assms by (simp add: vm_launch_def vm_stack_push_def value_call_def vm_call_def object_val_def conf_def
        STACK_MAX_def FRAMES_MAX_def BYTE_COUNT_def)
qed

lemma end_runs:
  assumes "script_ok m r code pool" "segment code ip [op_byte OP_NIL, op_byte OP_RETURN]" "length st < STACK_MAX"
  shows "vm_run (2 + fuel) (conf m r ip st out) = Inr (INTERPRET_OK, (conf m r (ip + 2) st out)\<lparr>vm_frames := []\<rparr>)"
proof -
  have i: "ip < length code" "code ! ip = op_byte OP_NIL" "Suc ip < length code" "code ! Suc ip = op_byte OP_RETURN"
    using assms(2) by (auto dest!: segment_Cons)
  show ?thesis
    using step_conf [OF assms(1) i(1,2)] step_conf [OF assms(1) i(3,4)] assms(3)
    by (simp add: push_conf nil_val_def vm_stack_pop_def numeral_2_eq_2 Let_def)
qed

text \<open>What the interpreter must do with a program of the given meaning.\<close>

definition interprets :: "VM \<Rightarrow> 'a meaning \<Rightarrow> (VmInterpretResult \<times> VM) result \<Rightarrow> bool" where
  "interprets vm p res = (case p of
      (out, Inr _) \<Rightarrow> (\<exists>vm'. res = Inr (INTERPRET_OK, vm') \<and> vm_out vm' = vm_out vm @ out \<and> vm_err vm' = vm_err vm
          \<and> vm_frames vm' = [] \<and> length (vm_stack vm') = 1 \<and> heap_inv vm')
    | (out, Inl msg) \<Rightarrow> (\<exists>vm' line. res = Inr (INTERPRET_RUNTIME_ERROR, vm') \<and> vm_out vm' = vm_out vm @ out
          \<and> vm_err vm' = vm_err vm @ [msg, Err_Trace line None] \<and> vm_frames vm' = [] \<and> vm_stack vm' = []
          \<and> heap_inv vm'))"

text \<open>A program declares no locals outside blocks.\<close>

lemma top_items: "list_all wf_top as \<Longrightarrow> items_ok [] as \<and> declared as = []"
proof (induction as)
  case (Cons a as)
  have "item_ok [] a" using wf_top_cases [of a] Cons.prems wf_item [of "[]" a] by (auto simp: item_ok_def)
  then show ?case using Cons top_no_binds [of a] by (auto simp: declared_def)
qed (simp add: declared_def)

lemma program_follows:
  assumes "script_ok m r (pcode 0 as @ [op_byte OP_NIL, op_byte OP_RETURN]) (bconsts [] as)" "names_ready m (bconsts [] as)" "wf_prog as" "bheight as < STACK_MAX"
  shows "follows n (bsteps n as) m (conf m r 0 [v] (vm_out m)) (vm_out m) (peval n as)
    (\<lambda>vs. conf (gl m (snd vs)) r (length (pcode 0 as)) (frame_stack v vs [])) (store_ok (bconsts [] as) [])"
proof -
  let ?code = "pcode 0 as @ [op_byte OP_NIL, op_byte OP_RETURN]"
  note seg = segment_append [OF segment_self [of ?code]] and wf = top_items [of as]
  let ?vs = "([], []) :: store"
  have "follows n (bsteps n as) m (conf (gl m (snd ?vs)) r 0 (frame_stack v ?vs []) (vm_out m)) (vm_out m) (beval n as ?vs)
         (\<lambda>vs. conf (gl m (snd vs)) r (0 + length (bcode [] 0 as)) (frame_stack v vs [])) (store_ok (bconsts [] as) (rev (declared as) @ []))"
    by (rule items_execute [of as n m r v ?code "bconsts [] as" 0 "[]" 0 "([], [])"])
      (use assms(3,4) wf seg segment_self all_executed [OF assms(1,2)] in \<open>auto simp: wf_prog_def store_ok_def pooled_def\<close>)
  then show ?thesis using wf assms(3) by (simp add: peval_def wf_prog_def)
qed

lemma run_program:
  assumes "script_ok m r (pcode 0 as @ [op_byte OP_NIL, op_byte OP_RETURN]) (bconsts [] as)" "names_ready m (bconsts [] as)" "wf_prog as" "bheight as < STACK_MAX"
    "peval n as = Some p" "bsteps n as + 2 \<le> fuel"
  shows "interprets m p (vm_run fuel (conf m r 0 [v] (vm_out m)))"
proof -
  let ?code = "pcode 0 as @ [op_byte OP_NIL, op_byte OP_RETURN]"
  note seg = segment_append [OF segment_self [of ?code]]
  have inv: "heap_inv m" using assms(2) by (simp add: names_ready_def)
  have reach: "reaches (bsteps n as) m (conf m r 0 [v] (vm_out m)) (vm_out m) p
      (\<lambda>vs. conf (gl m (snd vs)) r (length (pcode 0 as)) (frame_stack v vs [])) (store_ok (bconsts [] as) [])"
    using program_follows [OF assms(1-4), of n v] assms(5) by (simp add: follows_def)
  obtain out res where p: "p = (out, res)" by (cases p)
  show ?thesis
  proof (cases res)
    case (Inl msg)
    then obtain j vm' where j: "j \<le> bsteps n as" "\<And>fuel. vm_run (j + fuel) (conf m r 0 [v] (vm_out m)) = Inr (INTERPRET_RUNTIME_ERROR, vm')"
        "failed m msg (vm_out m @ out) vm'"
      using reach p by (auto simp: reaches_def)
    then show ?thesis using j(2) [of "fuel - j"] assms(6) inv p Inl by (auto simp: interprets_def failed_def)
  next
    case (Inr vs)
    then have "fst vs = []" using reach p by (auto simp: reaches_def store_ok_def)
    with Inr obtain j where j: "j \<le> bsteps n as"
        "\<And>fuel. vm_run (j + fuel) (conf m r 0 [v] (vm_out m)) = vm_run fuel (conf (gl m (snd vs)) r (length (pcode 0 as)) [v] (vm_out m @ out))"
      using reach p by (auto simp: reaches_def runs_def)
    obtain k where k: "fuel = j + (2 + k)" using j(1) assms(6) le_Suc_ex [of "j + 2" fuel] by auto
    have "script_ok (gl m (snd vs)) r ?code (bconsts [] as)" using assms(1) by simp
    from end_runs [OF this, of "length (pcode 0 as)" "[v]"] seg
    have "vm_run fuel (conf m r 0 [v] (vm_out m))
        = Inr (INTERPRET_OK, (conf (gl m (snd vs)) r (length (pcode 0 as) + 2) [v] (vm_out m @ out))\<lparr>vm_frames := []\<rparr>)"
      using j(2) [of "2 + k"] by (simp add: k STACK_MAX_def FRAMES_MAX_def BYTE_COUNT_def)
    then show ?thesis using p Inr inv by (simp add: interprets_def conf_def heap_inv_def gl_def)
  qed
qed

text \<open>
  The compiler on the text of a program, and the machine on the compiled script. At the start the
  table of globals is valid, its keys are strings, and none of them is a name the program uses.
\<close>

definition globals_clear :: "VM \<Rightarrow> cstmt list \<Rightarrow> bool" where
  "globals_clear vm as \<longleftrightarrow> table_inv (str_of (vm_heap vm)) (vm_globals vm)
     \<and> (\<forall>q. table_abs (vm_globals vm) q \<noteq> None \<longrightarrow> is_str (vm_heap vm) q \<and> Name_Lit (vs_chars (str_of (vm_heap vm) q)) \<notin> set (bconsts [] as))"

lemma clear_ready:
  assumes "globals_clear vm as" "heap_inv vm1" "same_state vm vm1" "strings_kept vm vm1" "list_all2 (denotes (vm_heap vm1)) (bconsts [] as) vs"
  shows "names_ready vm1 (bconsts [] as)"
  unfolding names_ready_def
proof (intro conjI allI impI)
  have glob: "vm_globals vm1 = vm_globals vm" using assms(3) by (simp add: same_state_def)
  have kept: "str_of (vm_heap vm1) q = str_of (vm_heap vm) q" if "table_abs (vm_globals vm) q \<noteq> None" for q
    using assms(1,4) that by (simp add: globals_clear_def strings_kept_def)
  show "heap_inv vm1" by fact
  show "table_inv (str_of (vm_heap vm1)) (vm_globals vm1)"
    unfolding glob by (rule table_inv_cong) (use assms(1) kept in \<open>auto simp: globals_clear_def\<close>)
  fix x assume x: "Name_Lit x \<in> set (bconsts [] as)"
  then obtain v where "denotes (vm_heap vm1) (Name_Lit x) v" using assms(5) by (auto simp: in_set_conv_nth list_all2_conv_all_nth)
  then obtain q where q: "spelled (vm_heap vm1) x q" by (auto simp: denotes_def spelled_def)
  then show "\<exists>q. spelled (vm_heap vm1) x q" by blast
  have "table_abs (vm_globals vm) q = None"
  proof (rule ccontr)
    assume "table_abs (vm_globals vm) q \<noteq> None"
    from kept [OF this] this show False using x q assms(1) by (auto simp: globals_clear_def spelled_def)
  qed
  then show "table_abs (vm_globals vm1) (name_ref (vm_heap vm1) x) = None" using name_ref_eq [OF assms(2) q] glob by simp
qed

lemma interpret_start:
  assumes "heap_inv vm" "chunks_ok (vm_heap vm)" "vm_stack vm = []" "vm_frames vm = []" "globals_clear vm as"
    "map tok_sketch (butlast (tkz_values (toknzr code False))) = concat (map ssketch as)" "wf_prog as" "length (tkz_values (toknzr code False)) + 2 < fuel"
  obtains vm1 r where "vm_interpret fuel code vm = vm_run fuel (conf vm1 r 0 [object_val r] (vm_out vm1))" "names_ready vm1 (bconsts [] as)" "same_state vm vm1"
    "script_ok vm1 r (pcode 0 as @ [op_byte OP_NIL, op_byte OP_RETURN]) (bconsts [] as)"
proof -
  let ?ts = "butlast (tkz_values (toknzr code False))" and ?eof = "last (tkz_values (toknzr code False))"
  have toks: "tkz_values (toknzr code False) = ?ts @ [?eof]" by (simp add: toknzr_def Let_def)
  obtain r vm1 where c: "compile fuel code vm = Inr (Some r, vm1)" "is_fun (vm_heap vm1) r" "chunk_inv (vf_chunk (fun_of (vm_heap vm1) r))"
    "code_of (vf_chunk (fun_of (vm_heap vm1) r)) = pcode 0 as @ [op_byte OP_NIL, op_byte OP_RETURN]"
    "list_all2 (denotes (vm_heap vm1)) (bconsts [] as) (consts_of (vf_chunk (fun_of (vm_heap vm1) r)))" "vf_name (fun_of (vm_heap vm1) r) = None"
    "vf_arity (fun_of (vm_heap vm1) r) = 0" "same_state vm vm1" "strings_kept vm vm1"
    by (rule compile_program [OF assms(1,2) toks assms(6,7), of fuel]) (use assms(8) toks in auto)
  have "vm_launch vm1 r = Inr (conf vm1 r 0 [object_val r] (vm_out vm1))"
    by (rule launch_conf) (use c assms(3,4) in \<open>simp_all add: same_state_def\<close>)
  moreover have "heap_inv vm1" using compile_ok [OF assms(1,2), of fuel code] c(1) by (simp add: ok_def compiled_ok_def)
  moreover from this have "names_ready vm1 (bconsts [] as)" by (rule clear_ready [OF assms(5) _ c(8,9,5)])
  ultimately show thesis using that [of vm1 r] c by (simp add: vm_interpret_def script_ok_def)
qed

lemma interpret_program:
  assumes "heap_inv vm" "chunks_ok (vm_heap vm)" "vm_stack vm = []" "vm_frames vm = []" "globals_clear vm as"
    "map tok_sketch (butlast (tkz_values (toknzr code False))) = concat (map ssketch as)" "wf_prog as" "bheight as < STACK_MAX"
    "length (tkz_values (toknzr code False)) + 2 < fuel" "peval n as = Some p" "bsteps n as + 2 \<le> fuel"
  shows "interprets vm p (vm_interpret fuel code vm)"
proof -
  obtain vm1 r where v: "vm_interpret fuel code vm = vm_run fuel (conf vm1 r 0 [object_val r] (vm_out vm1))" "names_ready vm1 (bconsts [] as)" "same_state vm vm1"
    "script_ok vm1 r (pcode 0 as @ [op_byte OP_NIL, op_byte OP_RETURN]) (bconsts [] as)"
    by (rule interpret_start [OF assms(1-7,9)])
  have "interprets vm1 p (vm_interpret fuel code vm)"
    unfolding v(1) by (rule run_program [OF v(4,2) assms(7,8,10,11)])
  then show ?thesis using v(3) by (auto simp: interprets_def same_state_def split: prod.splits sum.splits)
qed

lemma interpret_goes_on:
  assumes "heap_inv vm" "chunks_ok (vm_heap vm)" "vm_stack vm = []" "vm_frames vm = []" "globals_clear vm as"
    "map tok_sketch (butlast (tkz_values (toknzr code False))) = concat (map ssketch as)" "wf_prog as" "bheight as < STACK_MAX"
    "length (tkz_values (toknzr code False)) + 2 < fuel" "peval n as = None" "fuel \<le> n"
  shows "vm_interpret fuel code vm = Inl Out_Of_Fuel"
proof -
  obtain vm1 r where v: "vm_interpret fuel code vm = vm_run fuel (conf vm1 r 0 [object_val r] (vm_out vm1))" "names_ready vm1 (bconsts [] as)" "same_state vm vm1"
    "script_ok vm1 r (pcode 0 as @ [op_byte OP_NIL, op_byte OP_RETURN]) (bconsts [] as)"
    by (rule interpret_start [OF assms(1-7,9)])
  show ?thesis using program_follows [OF v(4,2) assms(7,8), of n "object_val r"] v(1) assms(10,11) by (simp add: follows_def)
qed

section \<open>A sample\<close>

text \<open>
  A text with a global, locals that hide it, two loops and an assignment to an unknown variable at the
  end: the outer variables named \<^verbatim>\<open>i\<close> keep their values while the innermost counts.
\<close>

definition sample_text :: string where
  "sample_text = ''print 1 + 2 * 3; var i = 8; { var i; for (var i = 0; i < 2; i = i + 1) print i; print i == nil; } while (i > 2) i = i / 2; if (nil or -1 < 0) print i; k = i;''"

definition sample_prog :: "cstmt list" where
  "sample_prog = [Print (Binary TOKEN_PLUS (Num ''1'') (Binary TOKEN_STAR (Num ''2'') (Num ''3''))),
     Global ''i'' (Some (Num ''8'')),
     Block [VarDecl ''i'' None,
       For [VarDecl ''i'' (Some (Num ''0''))] (Some (Binary TOKEN_LESS (Var ''i'') (Num ''2''))) (Some (Assign ''i'' (Binary TOKEN_PLUS (Var ''i'') (Num ''1''))))
         (Print (Var ''i'')),
       Print (Binary TOKEN_EQUAL_EQUAL (Var ''i'') (Lit TOKEN_NIL))],
     While (Binary TOKEN_GREATER (Var ''i'') (Num ''2'')) (Expr (Assign ''i'' (Binary TOKEN_SLASH (Var ''i'') (Num ''2'')))),
     IfThen (OrExp (Lit TOKEN_NIL) (Binary TOKEN_LESS (Unary TOKEN_MINUS (Num ''1'')) (Num ''0''))) (Print (Var ''i'')),
     Expr (Assign ''k'' (Var ''i''))]"

text \<open>What the text must print: the values, and every constant as it is loaded.\<close>

definition sample_out :: "out_item list" where
  "sample_out = concat (map line_of (map number_val (map strtod [''1'', ''2'', ''3'', ''7'', ''8'', ''0'', ''2'', ''0'', ''1'', ''2'', ''1'', ''1'', ''2''])
     @ [truth True] @ map number_val (map strtod [''2'', ''2'', ''2'', ''2'', ''2'', ''1'', ''0'', ''2''])))"

lemma sample_facts:
  "peval 3 sample_prog = Some (sample_out, Inl (unknown_write ''k''))"
  "map tok_sketch (butlast (tkz_values (toknzr sample_text False))) = concat (map ssketch sample_prog)"
  "wf_prog sample_prog" "bheight sample_prog < STACK_MAX" "length (tkz_values (toknzr sample_text False)) < 298"
  "bsteps 3 sample_prog \<le> 298"
proof -
  show "peval 3 sample_prog = Some (sample_out, Inl (unknown_write ''k''))" by code_simp
  show "map tok_sketch (butlast (tkz_values (toknzr sample_text False))) = concat (map ssketch sample_prog)" by code_simp
  show "wf_prog sample_prog"
    by (simp add: wf_prog_def sample_prog_def wf_exp_def wf_init_def icode_def iconsts_def jump_code_def declared_def name_lits_def ivars_def
        var_arg_def get_op_def set_op_def rule_def loop_fits_def loop_size_def guard_size_def)
  show "bheight sample_prog < STACK_MAX"
    by (simp add: sample_prog_def iheight_def declared_def STACK_MAX_def FRAMES_MAX_def BYTE_COUNT_def)
  show "length (tkz_values (toknzr sample_text False)) < 298" by code_simp
  show "bsteps 3 sample_prog \<le> 298"
    by (simp add: sample_prog_def icode_def jump_code_def declared_def var_arg_def get_op_def set_op_def round_steps_def csize_def)
qed

end
