(* ===== verification/Clox_Parser.thy ===== *)
theory Clox_Parser
  imports Clox_Tokenizer C_Double
begin

text \<open>
  The recursive-descent parser of the tree walker, \<^verbatim>\<open>src/parse.c\<close> and \<^verbatim>\<open>include/parse.h\<close>.

  The cursor \<^verbatim>\<open>Node** node\<close> into the token list is a position: the node of the token at that
  index, or NULL when the position is the number of tokens. A C pointer to an expression or a
  statement that may be NULL is an option. Lists built with \<^verbatim>\<open>list_push\<close> are lists.

  Functions that \<^verbatim>\<open>src/vm/compiler.c\<close> also has carry the suffix \<open>_ast\<close>. As in the compiler, the
  recursive functions a function calls are its arguments, and the knot is tied with a step
  budget. \<^verbatim>\<open>assignment\<close> of the source declares \<^verbatim>\<open>eqals\<close> and then uses \<^verbatim>\<open>equals\<close>; the model reads
  both as the same variable.
\<close>

section \<open>Syntax trees\<close>

datatype LiteralValue =
    LITERAL_NIL
  | LITERAL_BOOL bool
  | LITERAL_NUMBER double
  | LITERAL_STRING string

record LiteralExpr =
  le_value :: LiteralValue
  le_valueSize :: nat

text \<open>An \<^verbatim>\<open>Expr\<close> is its tagged content and the \<^verbatim>\<open>order\<close> that the resolver assigns.\<close>

datatype Expr = Mk_Expr (ex_expr: RealExpr) (ex_order: nat)
and RealExpr =
    EXPR_BINARY Token "Expr option" "Expr option"
  | EXPR_GROUPING "Expr option"
  | EXPR_UNARY Token "Expr option"
  | EXPR_LITERAL LiteralExpr
  | EXPR_VARIABLE Token
  | EXPR_ASSIGNMENT Token "Expr option"
  | EXPR_LOGICAL "Expr option" "Expr option" Token
  | EXPR_CALL "Expr option" Token "Expr list"
  | EXPR_GET "Expr option" Token
  | EXPR_SET "Expr option" Token "Expr option"
  | EXPR_THIS Token
  | EXPR_SUPER Token Token

datatype Stmt =
    STMT_PRINT "Expr option"
  | STMT_VAR_DECLARATION "Expr option" Token
  | STMT_BLOCK "Stmt option list"
  | STMT_EXPR "Expr option"
  | STMT_IF_ELSE "Expr option" "Stmt option" "Stmt option"
  | STMT_WHILE "Expr option" "Stmt option"
  | STMT_FUN "Token list" Token "Stmt option"
  | STMT_RETURN Token "Expr option"
  | STMT_CLASS Token "Stmt option list" "Expr option"

definition new_expr :: "RealExpr \<Rightarrow> Expr option" where
  "new_expr realExpr = Some (Mk_Expr realExpr 0)"

definition new_literal :: "LiteralValue \<Rightarrow> nat \<Rightarrow> RealExpr" where
  "new_literal v n = EXPR_LITERAL \<lparr>le_value = v, le_valueSize = n\<rparr>"

definition new_true :: RealExpr where
  "new_true = new_literal (LITERAL_BOOL True) 1"

definition new_false :: RealExpr where
  "new_false = new_literal (LITERAL_BOOL False) 1"

definition new_nil :: RealExpr where
  "new_nil = new_literal LITERAL_NIL 0"

definition new_unary :: "Token \<Rightarrow> Expr option \<Rightarrow> RealExpr" where
  "new_unary op_tkn internalExpr = EXPR_UNARY op_tkn internalExpr"

definition new_binary :: "Token \<Rightarrow> Expr option \<Rightarrow> Expr option \<Rightarrow> RealExpr" where
  "new_binary op_tkn left right = EXPR_BINARY op_tkn left right"

definition new_grouping :: "Expr option \<Rightarrow> RealExpr" where
  "new_grouping internalExpr = EXPR_GROUPING internalExpr"

definition new_variable :: "Token \<Rightarrow> RealExpr" where
  "new_variable variableName = EXPR_VARIABLE variableName"

definition new_assignment :: "Token \<Rightarrow> Expr option \<Rightarrow> RealExpr" where
  "new_assignment variableName rightExpr = EXPR_ASSIGNMENT variableName rightExpr"

definition new_call :: "Expr option \<Rightarrow> Expr list \<Rightarrow> Token \<Rightarrow> RealExpr" where
  "new_call callee args paren = EXPR_CALL callee paren args"

definition new_logical :: "Expr option \<Rightarrow> Token \<Rightarrow> Expr option \<Rightarrow> Expr option" where
  "new_logical left op_tkn right = new_expr (EXPR_LOGICAL left right op_tkn)"

section \<open>Cursor and errors\<close>

text \<open>What \<^verbatim>\<open>parse_error\<close> prints: the message with the end-of-file prefix, or the bare message.\<close>

datatype parse_report =
    Report_Eof string
  | Report_Msg string

record PS =
  pa_tokens :: "Token list"
  pa_pos :: nat
  pa_err :: "parse_report list"

type_synonym 'a parser = "PS \<Rightarrow> ('a \<times> PS) result"

definition LINEBUFSIZE :: nat where
  "LINEBUFSIZE = 1024"

definition MAX_ARGS :: nat where
  "MAX_ARGS = 8"

text \<open>The number of characters \<^verbatim>\<open>%d\<close> prints for a line number.\<close>

fun dec_digits :: "nat \<Rightarrow> nat" where
  "dec_digits n = (if n < 10 then 1 else Suc (dec_digits (n div 10)))"

declare dec_digits.simps [simp del]

definition shown_lexeme :: "Token \<Rightarrow> string" where
  "shown_lexeme t = (case tk_lexeme t of None \<Rightarrow> ''(null)'' | Some x \<Rightarrow> x)"

text \<open>
  \<^verbatim>\<open>parse_error\<close> formats the line, the message and the lexeme into a buffer of \<^verbatim>\<open>LINEBUFSIZE\<close>
  bytes that it then does not print; the 26 fixed characters are those of \<^verbatim>\<open>ERROR_AT_LINE\<close>.
\<close>

definition parse_error :: "Token \<Rightarrow> string \<Rightarrow> PS \<Rightarrow> PS result" where
  "parse_error t msg s =
     (if tk_type t = TOKEN_ENDOFFILE then Inr (s\<lparr>pa_err := pa_err s @ [Report_Eof msg]\<rparr>)
      else if 26 + dec_digits (tk_line t) + length msg + length (shown_lexeme t) < LINEBUFSIZE
      then Inr (s\<lparr>pa_err := pa_err s @ [Report_Msg msg]\<rparr>)
      else Inl (Crash Out_Of_Bounds))"

text \<open>\<^verbatim>\<open>(*node)->data\<close>, \<^verbatim>\<open>(*node)->prev->data\<close> and \<^verbatim>\<open>(*node) = (*node)->next\<close>.\<close>

definition node_data :: "PS \<Rightarrow> Token result" where
  "node_data s = (if pa_pos s < length (pa_tokens s) then Inr (pa_tokens s ! pa_pos s) else Inl (Crash Null_Deref))"

definition prev_data :: "PS \<Rightarrow> Token result" where
  "prev_data s = (if 0 < pa_pos s \<and> pa_pos s < length (pa_tokens s) then Inr (pa_tokens s ! (pa_pos s - 1))
     else Inl (Crash Null_Deref))"

definition next_node :: "PS \<Rightarrow> PS result" where
  "next_node s = (if pa_pos s < length (pa_tokens s) then Inr (s\<lparr>pa_pos := Suc (pa_pos s)\<rparr>) else Inl (Crash Null_Deref))"

fun match_ast :: "TokenType \<Rightarrow> TokenType list \<Rightarrow> bool parser" where
  "match_ast type [] s = Inr (False, s)"
| "match_ast type (t # types) s =
     (if type = t then bind_result (next_node s) (\<lambda>s1. Inr (True, s1)) else match_ast type types s)"

text \<open>
  \<^verbatim>\<open>consume\<close> returns the address of the \<^verbatim>\<open>prev\<close> field of the next node, through which its callers
  read the consumed token; there is no such field when the consumed token is the last one.
\<close>

definition consume_ast :: "TokenType \<Rightarrow> string \<Rightarrow> Token option parser" where
  "consume_ast type msg s =
     bind_result (node_data s) (\<lambda>tkn.
       if tk_type tkn = type
       then bind_result (next_node s) (\<lambda>s1. bind_result (prev_data s1) (\<lambda>t. Inr (Some t, s1)))
       else bind_result (parse_error tkn msg s) (\<lambda>s1. Inr (None, s1)))"

section \<open>Freeing trees\<close>

text \<open>The blocks released, in order: literal values, literals, expressions, list cells, statements.\<close>

datatype freed = Fr_Value | Fr_Literal | Fr_Expr Expr | Fr_List nat | Fr_Stmt Stmt

definition literal_destroy :: "LiteralExpr \<Rightarrow> freed list" where
  "literal_destroy expr = (case le_value expr of LITERAL_BOOL _ \<Rightarrow> [Fr_Value, Fr_Literal]
     | LITERAL_NUMBER _ \<Rightarrow> [Fr_Value, Fr_Literal] | LITERAL_NIL \<Rightarrow> [Fr_Literal] | LITERAL_STRING _ \<Rightarrow> [Fr_Literal])"

fun expr_destroy :: "Expr option \<Rightarrow> freed list result" where
  "expr_destroy None = Inl (Crash Null_Deref)"
| "expr_destroy (Some (Mk_Expr real order)) =
     bind_result (case real of
         EXPR_LITERAL l \<Rightarrow> Inr (literal_destroy l)
       | EXPR_UNARY _ ex \<Rightarrow> expr_destroy ex
       | EXPR_BINARY _ l r \<Rightarrow> bind_result (expr_destroy l) (\<lambda>a. bind_result (expr_destroy r) (\<lambda>b. Inr (a @ b)))
       | EXPR_GROUPING ex \<Rightarrow> expr_destroy ex
       | EXPR_ASSIGNMENT _ ex \<Rightarrow> expr_destroy ex
       | EXPR_LOGICAL l r _ \<Rightarrow> bind_result (expr_destroy l) (\<lambda>a. bind_result (expr_destroy r) (\<lambda>b. Inr (a @ b)))
       | EXPR_CALL callee _ args \<Rightarrow> bind_result (expr_destroy callee) (\<lambda>a. Inr (a @ [Fr_List (length args)]))
       | EXPR_SET obj _ v \<Rightarrow> bind_result (expr_destroy obj) (\<lambda>a. bind_result (expr_destroy v) (\<lambda>b. Inr (a @ b)))
       | EXPR_GET obj _ \<Rightarrow> expr_destroy obj
       | _ \<Rightarrow> Inr [])
     (\<lambda>fs. Inr (fs @ [Fr_Expr (Mk_Expr real order)]))"

text \<open>\<^verbatim>\<open>stmt_destroy\<close> and the \<^verbatim>\<open>list_foreach\<close> over a list of statements.\<close>

fun stmt_destroy :: "Stmt option \<Rightarrow> freed list result" and stmts_foreach :: "Stmt option list \<Rightarrow> freed list result" where
  "stmt_destroy None = Inr []"
| "stmt_destroy (Some stmt) =
     bind_result (case stmt of
         STMT_BLOCK inner \<Rightarrow> stmts_foreach inner
       | STMT_PRINT ex \<Rightarrow> expr_destroy ex
       | STMT_EXPR ex \<Rightarrow> expr_destroy ex
       | STMT_VAR_DECLARATION init _ \<Rightarrow> expr_destroy init
       | STMT_IF_ELSE condition thenStmt elseStmt \<Rightarrow> bind_result (stmt_destroy thenStmt) (\<lambda>a.
           bind_result (stmt_destroy elseStmt) (\<lambda>b. bind_result (expr_destroy condition) (\<lambda>c. Inr (a @ b @ c))))
       | STMT_WHILE condition body \<Rightarrow> bind_result (stmt_destroy body) (\<lambda>a.
           bind_result (expr_destroy condition) (\<lambda>b. Inr (a @ b)))
       | STMT_FUN args _ body \<Rightarrow> bind_result (stmt_destroy body) (\<lambda>a. Inr (Fr_List (length args) # a))
       | STMT_RETURN _ v \<Rightarrow> expr_destroy v
       | STMT_CLASS _ methods _ \<Rightarrow> bind_result (stmts_foreach methods) (\<lambda>a. Inr (a @ [Fr_List (length methods)])))
     (\<lambda>fs. Inr (fs @ [Fr_Stmt stmt]))"
| "stmts_foreach [] = Inr []"
| "stmts_foreach (stmt # stmts) =
     bind_result (stmt_destroy stmt) (\<lambda>a. bind_result (stmts_foreach stmts) (\<lambda>b. Inr (a @ b)))"

definition stmts_destroy :: "Stmt option list \<Rightarrow> freed list result" where
  "stmts_destroy stmts =
     bind_result (if length stmts \<noteq> 0 then stmts_foreach stmts else Inr []) (\<lambda>a. Inr (a @ [Fr_List (length stmts)]))"

section \<open>Expressions\<close>

text \<open>\<open>pp\<close> stands for \<^verbatim>\<open>expression\<close>, which only calls \<^verbatim>\<open>assignment\<close>.\<close>

type_synonym expr_parser = "Expr option parser"

text \<open>The leaves of \<^verbatim>\<open>primary\<close> that step over one token.\<close>

definition leaf :: "RealExpr \<Rightarrow> expr_parser" where
  "leaf real s = bind_result (next_node s) (\<lambda>s1. Inr (new_expr real, s1))"

definition primary_grouping :: "expr_parser \<Rightarrow> expr_parser" where
  "primary_grouping pp s =
     bind_result (next_node s) (\<lambda>s1. bind_result (pp s1) (\<lambda>(groupedExpr, s2).
     bind_result (consume_ast TOKEN_RIGHT_PAREN ''Expect ')' after expression.'' s2) (\<lambda>(n, s3).
       Inr (if n = None then None else new_expr (new_grouping groupedExpr), s3))))"

text \<open>\<^verbatim>\<open>super\<close> and \<^verbatim>\<open>this\<close> do not step over their keyword and read the token before it.\<close>

definition primary_super :: expr_parser where
  "primary_super s =
     bind_result (prev_data s) (\<lambda>keyword.
     bind_result (consume_ast TOKEN_DOT ''Expect '.' after 'super'.'' s) (\<lambda>(dot, s1). case dot of None \<Rightarrow> Inr (None, s1)
       | Some _ \<Rightarrow> bind_result (consume_ast TOKEN_IDENTIFIER ''Expect superclass method name.'' s1) (\<lambda>(n, s2).
           case n of None \<Rightarrow> Inr (None, s2) | Some m \<Rightarrow> Inr (new_expr (EXPR_SUPER keyword m), s2))))"

definition primary_this :: expr_parser where
  "primary_this s = bind_result (prev_data s) (\<lambda>keyword. Inr (new_expr (EXPR_THIS keyword), s))"

definition primary :: "expr_parser \<Rightarrow> expr_parser" where
  "primary pp s =
     bind_result (node_data s) (\<lambda>tkn.
       if tk_type tkn = TOKEN_TRUE then leaf new_true s
       else if tk_type tkn = TOKEN_FALSE then leaf new_false s
       else if tk_type tkn = TOKEN_NIL then leaf new_nil s
       else if tk_type tkn = TOKEN_STRING then
         (case tk_literal tkn of None \<Rightarrow> Inl (Crash Null_Deref)
          | Some l \<Rightarrow> leaf (new_literal (LITERAL_STRING l) (length l + 1)) s)
       else if tk_type tkn = TOKEN_NUMBER then
         (case tk_literal tkn of None \<Rightarrow> Inl (Crash Null_Deref)
          | Some l \<Rightarrow> leaf (new_literal (LITERAL_NUMBER (strtod l)) 8) s)
       else if tk_type tkn = TOKEN_LEFT_PAREN then primary_grouping pp s
       else if tk_type tkn = TOKEN_SUPER then primary_super s
       else if tk_type tkn = TOKEN_THIS then primary_this s
       else if tk_type tkn = TOKEN_IDENTIFIER then
         bind_result (next_node s) (\<lambda>s1. bind_result (prev_data s1) (\<lambda>t. Inr (new_expr (new_variable t), s1)))
       else bind_result (parse_error tkn ''Unresolved Identifier'' s) (\<lambda>s1. Inr (None, s1)))"

text \<open>
  The \<^verbatim>\<open>do\<close> loop of \<^verbatim>\<open>finish_call\<close>. \<open>arg\<close> keeps its value from one round to the next. The result
  is \<open>None\<close> for the early return.
\<close>

fun finish_call_loop :: "nat \<Rightarrow> expr_parser \<Rightarrow> Expr option \<Rightarrow> Expr option \<Rightarrow> Expr list \<Rightarrow> Expr list option parser" where
  "finish_call_loop 0 pp callee arg args s = Inl Out_Of_Fuel"
| "finish_call_loop (Suc fuel) pp callee arg args s =
     bind_result (next_node s) (\<lambda>s1. bind_result (node_data s1) (\<lambda>tkn.
       if length args > MAX_ARGS
       then bind_result (parse_error tkn ''Cannot have more than %d args'' s1) (\<lambda>s2.
            bind_result (expr_destroy callee) (\<lambda>_. Inr (None, s2)))
       else bind_result (if tk_type tkn \<noteq> TOKEN_RIGHT_PAREN then pp s1 else Inr (arg, s1)) (\<lambda>(arg1, s2).
            let args1 = (case arg1 of None \<Rightarrow> args | Some a \<Rightarrow> args @ [a])
            in bind_result (node_data s2) (\<lambda>tkn1.
                 if tk_type tkn1 = TOKEN_COMMA then finish_call_loop fuel pp callee arg1 args1 s2
                 else Inr (Some args1, s2)))))"

definition finish_call :: "nat \<Rightarrow> expr_parser \<Rightarrow> Expr option \<Rightarrow> expr_parser" where
  "finish_call fuel pp callee s =
     bind_result (finish_call_loop fuel pp callee None [] s) (\<lambda>(r, s1). case r of None \<Rightarrow> Inr (None, s1)
       | Some args \<Rightarrow> bind_result (consume_ast TOKEN_RIGHT_PAREN ''Expect ')' for function EXPR_CALL'' s1) (\<lambda>(temp, s2).
           case temp of None \<Rightarrow> Inl (Crash Null_Deref) | Some paren \<Rightarrow> Inr (new_expr (new_call callee args paren), s2)))"

text \<open>The loop of \<^verbatim>\<open>call\<close>; \<^verbatim>\<open>tkn\<close> is the token at the cursor in every round.\<close>

fun call_loop :: "nat \<Rightarrow> expr_parser \<Rightarrow> Expr option \<Rightarrow> expr_parser" where
  "call_loop 0 pp expr s = Inl Out_Of_Fuel"
| "call_loop (Suc fuel) pp expr s =
     bind_result (node_data s) (\<lambda>tkn.
       if tk_type tkn = TOKEN_LEFT_PAREN
       then bind_result (finish_call (Suc fuel) pp expr s) (\<lambda>(expr1, s1). call_loop fuel pp expr1 s1)
       else if tk_type tkn = TOKEN_DOT
       then bind_result (next_node s) (\<lambda>s1.
            bind_result (consume_ast TOKEN_IDENTIFIER ''Expect property name after '.'.'' s1) (\<lambda>(temp, s2).
              call_loop fuel pp (case temp of None \<Rightarrow> expr | Some name \<Rightarrow> new_expr (EXPR_GET expr name)) s2))
       else Inr (expr, s))"

definition call_ast :: "nat \<Rightarrow> expr_parser \<Rightarrow> expr_parser" where
  "call_ast fuel pp s = bind_result (primary pp s) (\<lambda>(expr, s1). call_loop fuel pp expr s1)"

fun unary_ast :: "nat \<Rightarrow> expr_parser \<Rightarrow> expr_parser" where
  "unary_ast 0 pp s = Inl Out_Of_Fuel"
| "unary_ast (Suc fuel) pp s =
     bind_result (node_data s) (\<lambda>tkn. bind_result (match_ast (tk_type tkn) [TOKEN_MINUS, TOKEN_BANG] s) (\<lambda>(b, s1).
       if b then bind_result (prev_data s1) (\<lambda>tknPrev. bind_result (unary_ast fuel pp s1) (\<lambda>(rightExpr, s2).
         Inr (new_expr (new_unary tknPrev rightExpr), s2)))
       else call_ast (Suc fuel) pp s1))"

fun binary_loop :: "nat \<Rightarrow> expr_parser \<Rightarrow> TokenType list \<Rightarrow> Expr option \<Rightarrow> expr_parser" where
  "binary_loop 0 rule_fn matchTokens expr s = Inl Out_Of_Fuel"
| "binary_loop (Suc fuel) rule_fn matchTokens expr s =
     bind_result (node_data s) (\<lambda>tkn. bind_result (match_ast (tk_type tkn) matchTokens s) (\<lambda>(b, s1).
       if b then bind_result (prev_data s1) (\<lambda>tknPrev. bind_result (rule_fn s1) (\<lambda>(exprRight, s2).
         binary_loop fuel rule_fn matchTokens (new_expr (new_binary tknPrev expr exprRight)) s2))
       else Inr (expr, s1)))"

definition binary_production :: "nat \<Rightarrow> expr_parser \<Rightarrow> TokenType list \<Rightarrow> expr_parser" where
  "binary_production fuel rule_fn matchTokens s =
     bind_result (rule_fn s) (\<lambda>(expr, s1). binary_loop fuel rule_fn matchTokens expr s1)"

definition mutiplication :: "nat \<Rightarrow> expr_parser \<Rightarrow> expr_parser" where
  "mutiplication fuel pp = binary_production fuel (unary_ast fuel pp) [TOKEN_SLASH, TOKEN_STAR]"

definition addition :: "nat \<Rightarrow> expr_parser \<Rightarrow> expr_parser" where
  "addition fuel pp = binary_production fuel (mutiplication fuel pp) [TOKEN_MINUS, TOKEN_PLUS]"

definition comparison :: "nat \<Rightarrow> expr_parser \<Rightarrow> expr_parser" where
  "comparison fuel pp = binary_production fuel (addition fuel pp)
     [TOKEN_GREATER, TOKEN_GREATER_EQUAL, TOKEN_LESS, TOKEN_LESS_EQUAL]"

definition equality :: "nat \<Rightarrow> expr_parser \<Rightarrow> expr_parser" where
  "equality fuel pp = binary_production fuel (comparison fuel pp) [TOKEN_BANG_EQUAL, TOKEN_EQUAL_EQUAL]"

text \<open>
  The loops of \<^verbatim>\<open>logicOr\<close> and \<^verbatim>\<open>logicAnd\<close>: \<open>tkn\<close> is read before the right operand is parsed and
  tested after it.
\<close>

fun logic_loop :: "nat \<Rightarrow> TokenType \<Rightarrow> expr_parser \<Rightarrow> Token \<Rightarrow> Expr option \<Rightarrow> expr_parser" where
  "logic_loop 0 type rule_fn tkn expr s = Inl Out_Of_Fuel"
| "logic_loop (Suc fuel) type rule_fn tkn expr s =
     (if tk_type tkn = type
      then bind_result (node_data s) (\<lambda>operatorTkn. bind_result (next_node s) (\<lambda>s1.
           bind_result (node_data s1) (\<lambda>tkn1. bind_result (rule_fn s1) (\<lambda>(right, s2).
             logic_loop fuel type rule_fn tkn1 (new_logical expr operatorTkn right) s2))))
      else Inr (expr, s))"

definition logicAnd :: "nat \<Rightarrow> expr_parser \<Rightarrow> expr_parser" where
  "logicAnd fuel pp s =
     bind_result (equality fuel pp s) (\<lambda>(expr, s1). bind_result (node_data s1) (\<lambda>tkn.
       logic_loop fuel TOKEN_AND (equality fuel pp) tkn expr s1))"

definition logicOr :: "nat \<Rightarrow> expr_parser \<Rightarrow> expr_parser" where
  "logicOr fuel pp s =
     bind_result (logicAnd fuel pp s) (\<lambda>(expr, s1). bind_result (node_data s1) (\<lambda>tkn.
       logic_loop fuel TOKEN_OR (logicAnd fuel pp) tkn expr s1))"

definition assign_target :: "Expr option \<Rightarrow> Expr option \<Rightarrow> Token \<Rightarrow> expr_parser" where
  "assign_target expr v equals s = (case expr of None \<Rightarrow> Inl (Crash Null_Deref)
     | Some (Mk_Expr real order) \<Rightarrow> (case real of
         EXPR_VARIABLE variableName \<Rightarrow> Inr (new_expr (new_assignment variableName v), s)
       | EXPR_GET obj name \<Rightarrow> Inr (Some (Mk_Expr (EXPR_SET obj name v) order), s)
       | _ \<Rightarrow> bind_result (parse_error equals ''Invalid Assignment Target'' s) (\<lambda>s1. Inr (expr, s1))))"

definition assignment_body :: "nat \<Rightarrow> expr_parser \<Rightarrow> expr_parser" where
  "assignment_body fuel pp s =
     bind_result (logicOr fuel pp s) (\<lambda>(expr, s1). bind_result (node_data s1) (\<lambda>equals.
       if tk_type equals = TOKEN_EQUAL
       then bind_result (next_node s1) (\<lambda>s2. bind_result (pp s2) (\<lambda>(v, s3). assign_target expr v equals s3))
       else Inr (expr, s1)))"

primrec assignment :: "nat \<Rightarrow> expr_parser" where
  "assignment 0 = (\<lambda>s. Inl Out_Of_Fuel)"
| "assignment (Suc fuel) = assignment_body (Suc fuel) (assignment fuel)"

definition expression_ast :: "nat \<Rightarrow> expr_parser" where
  "expression_ast fuel = assignment fuel"

section \<open>Statements\<close>

text \<open>\<open>st\<close> and \<open>dc\<close> stand for \<^verbatim>\<open>statement\<close> and \<^verbatim>\<open>declaration\<close>, \<open>pp\<close> for \<^verbatim>\<open>expression\<close>.\<close>

type_synonym stmt_parser = "Stmt option parser"

text \<open>
  The loop of \<^verbatim>\<open>synchronize\<close>, with the number of nodes left as its measure. The type of the
  current token is read once; the previous token is read in every round. The measure covers
  the node behind the last one, where reading the previous token fails. A round that starts with
  the measure used up is \<open>Out_Of_Fuel\<close>, as for every other loop of the parser; that
  the cursor of the loop moves and this never happens is part of what the theory
  \<^verbatim>\<open>Clox_Parser_Props\<close> proves.
\<close>

fun sync_loop_ast :: "nat \<Rightarrow> TokenType \<Rightarrow> PS \<Rightarrow> PS result" where
  "sync_loop_ast 0 type s = Inl Out_Of_Fuel"
| "sync_loop_ast (Suc n) type s =
     (if type = TOKEN_ENDOFFILE then Inr s
      else bind_result (prev_data s) (\<lambda>prevToken.
        if tk_type prevToken = TOKEN_SEMICOLON then Inr s
        else if type \<in> {TOKEN_CLASS, TOKEN_FUN, TOKEN_VAR, TOKEN_FOR, TOKEN_IF, TOKEN_WHILE, TOKEN_PRINT, TOKEN_RETURN}
        then Inr s
        else bind_result (next_node s) (sync_loop_ast n type)))"

definition synchronize_ast :: "PS \<Rightarrow> PS result" where
  "synchronize_ast s =
     bind_result (next_node s) (\<lambda>s1.
       if pa_pos s1 = length (pa_tokens s1) then Inr s1
       else bind_result (node_data s1) (\<lambda>tkn.
         sync_loop_ast (Suc (length (pa_tokens s1) - pa_pos s1)) (tk_type tkn) s1))"

definition terminated_statement :: "Token option parser" where
  "terminated_statement s = consume_ast TOKEN_SEMICOLON ''Expect ';' after value'' s"

definition new_terminated_statement :: "Stmt \<Rightarrow> stmt_parser" where
  "new_terminated_statement stmt s =
     bind_result (terminated_statement s) (\<lambda>(n, s1). Inr (if n \<noteq> None then Some stmt else None, s1))"

definition print_statement_ast :: "expr_parser \<Rightarrow> stmt_parser" where
  "print_statement_ast pp s = bind_result (pp s) (\<lambda>(expr, s1). new_terminated_statement (STMT_PRINT expr) s1)"

definition expression_statement_ast :: "expr_parser \<Rightarrow> stmt_parser" where
  "expression_statement_ast pp s = bind_result (pp s) (\<lambda>(expr, s1). new_terminated_statement (STMT_EXPR expr) s1)"

definition var_statement :: "Expr option \<Rightarrow> Token \<Rightarrow> stmt_parser" where
  "var_statement init variableName s = new_terminated_statement (STMT_VAR_DECLARATION init variableName) s"

definition var_declaration_ast :: "expr_parser \<Rightarrow> stmt_parser" where
  "var_declaration_ast pp s =
     bind_result (consume_ast TOKEN_IDENTIFIER ''Expected a EXPR_VARIABLE name'' s) (\<lambda>(identifierNode, s1).
       case identifierNode of None \<Rightarrow> Inr (None, s1)
       | Some name \<Rightarrow> bind_result (node_data s1) (\<lambda>tkn.
           bind_result (if tk_type tkn = TOKEN_EQUAL then bind_result (next_node s1) pp else Inr (None, s1))
             (\<lambda>(init, s2). var_statement init name s2)))"

text \<open>The loop and the body of \<^verbatim>\<open>block_statements\<close>; a declaration that fails is pushed as NULL.\<close>

fun block_loop_ast :: "nat \<Rightarrow> stmt_parser \<Rightarrow> Stmt option list \<Rightarrow> Stmt option list parser" where
  "block_loop_ast 0 dc innerStmts s = Inl Out_Of_Fuel"
| "block_loop_ast (Suc fuel) dc innerStmts s =
     bind_result (node_data s) (\<lambda>token.
       if tk_type token \<noteq> TOKEN_RIGHT_BRACE \<and> tk_type token \<noteq> TOKEN_ENDOFFILE
       then bind_result (dc s) (\<lambda>(stmt, s1). block_loop_ast fuel dc (innerStmts @ [stmt]) s1)
       else Inr (innerStmts, s))"

definition block_statements :: "nat \<Rightarrow> stmt_parser \<Rightarrow> stmt_parser" where
  "block_statements fuel dc s =
     bind_result (block_loop_ast fuel dc [] s) (\<lambda>(innerStmts, s1).
     bind_result (consume_ast TOKEN_RIGHT_BRACE ''Expect '}' after block.'' s1) (\<lambda>(_, s2).
       Inr (Some (STMT_BLOCK innerStmts), s2)))"

definition if_statement_ast :: "expr_parser \<Rightarrow> stmt_parser \<Rightarrow> stmt_parser" where
  "if_statement_ast pp st s =
     bind_result (consume_ast TOKEN_LEFT_PAREN ''Expect '(' after 'if'.'' s) (\<lambda>(_, s1).
     bind_result (pp s1) (\<lambda>(condition, s2).
     bind_result (consume_ast TOKEN_RIGHT_PAREN ''Expect ')' after condition.'' s2) (\<lambda>(_, s3).
     bind_result (st s3) (\<lambda>(thenStmt, s4).
     bind_result (node_data s4) (\<lambda>tkn.
     bind_result (if tk_type tkn = TOKEN_ELSE then bind_result (next_node s4) st else Inr (None, s4)) (\<lambda>(elseStmt, s5).
       Inr (Some (STMT_IF_ELSE condition thenStmt elseStmt), s5)))))))"

text \<open>
  The initializer of a \<^verbatim>\<open>for\<close>; an expression initializer loses its first token. \<open>for_wrap\<close> is the
  desugaring at the end of \<^verbatim>\<open>for_statement\<close>.
\<close>

definition for_initializer_ast :: "expr_parser \<Rightarrow> stmt_parser" where
  "for_initializer_ast pp s =
     bind_result (node_data s) (\<lambda>tkn.
       if tk_type tkn = TOKEN_SEMICOLON then bind_result (next_node s) (\<lambda>s1. Inr (None, s1))
       else if tk_type tkn = TOKEN_VAR then bind_result (next_node s) (var_declaration_ast pp)
       else bind_result (next_node s) (expression_statement_ast pp))"

definition for_wrap :: "Stmt option \<Rightarrow> Expr option \<Rightarrow> Expr option \<Rightarrow> Stmt option \<Rightarrow> Stmt" where
  "for_wrap init condition step body =
     (let body1 = (if step \<noteq> None then Some (STMT_BLOCK [body, Some (STMT_EXPR step)]) else body);
          condition1 = (if condition = None then new_expr new_true else condition);
          body2 = STMT_WHILE condition1 body1
      in if init \<noteq> None then STMT_BLOCK [init, Some body2] else body2)"

definition for_statement_ast :: "expr_parser \<Rightarrow> stmt_parser \<Rightarrow> stmt_parser" where
  "for_statement_ast pp st s =
     bind_result (consume_ast TOKEN_LEFT_PAREN ''Expect '(' after for'' s) (\<lambda>(_, s1).
     bind_result (for_initializer_ast pp s1) (\<lambda>(init, s2).
     bind_result (node_data s2) (\<lambda>tkn.
     bind_result (if tk_type tkn \<noteq> TOKEN_SEMICOLON then pp s2 else Inr (None, s2)) (\<lambda>(condition, s3).
     bind_result (consume_ast TOKEN_SEMICOLON ''Expect ';' after for condition'' s3) (\<lambda>(_, s4).
     bind_result (if tk_type tkn \<noteq> TOKEN_RIGHT_PAREN then pp s4 else Inr (None, s4)) (\<lambda>(step, s5).
     bind_result (consume_ast TOKEN_RIGHT_PAREN ''Expect ')' for 'for' closing'' s5) (\<lambda>(_, s6).
     bind_result (st s6) (\<lambda>(body, s7).
       Inr (Some (for_wrap init condition step body), s7)))))))))"

definition while_statement_ast :: "expr_parser \<Rightarrow> stmt_parser \<Rightarrow> stmt_parser" where
  "while_statement_ast pp st s =
     bind_result (consume_ast TOKEN_LEFT_PAREN ''Expect '(' after 'while'.'' s) (\<lambda>(_, s1).
     bind_result (pp s1) (\<lambda>(condition, s2).
     bind_result (consume_ast TOKEN_RIGHT_PAREN ''Expect ')' after condition.'' s2) (\<lambda>(_, s3).
     bind_result (st s3) (\<lambda>(bodyStmt, s4). Inr (Some (STMT_WHILE condition bodyStmt), s4)))))"

definition return_statement_ast :: "expr_parser \<Rightarrow> stmt_parser" where
  "return_statement_ast pp s =
     bind_result (prev_data s) (\<lambda>keyword. bind_result (node_data s) (\<lambda>tkn.
     bind_result (if tk_type tkn \<noteq> TOKEN_SEMICOLON then pp s else Inr (None, s)) (\<lambda>(v, s1).
     bind_result (consume_ast TOKEN_SEMICOLON ''Expect ';' after return'' s1) (\<lambda>(_, s2).
       Inr (Some (STMT_RETURN keyword v), s2)))))"

text \<open>The parameter loop of \<^verbatim>\<open>fun_statement\<close>; \<open>tkn\<close> is the token the limit error is reported at.\<close>

fun params_loop :: "nat \<Rightarrow> Token \<Rightarrow> Token list \<Rightarrow> Token list parser" where
  "params_loop 0 tkn params s = Inl Out_Of_Fuel"
| "params_loop (Suc fuel) tkn params s =
     bind_result (if length params > MAX_ARGS then parse_error tkn ''Cannot have more than 8 parameters.'' s else Inr s) (\<lambda>s1.
     bind_result (consume_ast TOKEN_IDENTIFIER ''Expect parameter name.'' s1) (\<lambda>(temp, s2).
       case temp of None \<Rightarrow> Inl (Crash Null_Deref)
       | Some param \<Rightarrow> bind_result (node_data s2) (\<lambda>tkn1.
           bind_result (if tk_type tkn1 \<noteq> TOKEN_RIGHT_PAREN then next_node s2 else Inr s2) (\<lambda>s3.
             if tk_type tkn1 = TOKEN_COMMA then params_loop fuel tkn1 (params @ [param]) s3
             else Inr (params @ [param], s3)))))"

definition fun_statement :: "nat \<Rightarrow> stmt_parser \<Rightarrow> string \<Rightarrow> stmt_parser" where
  "fun_statement fuel dc kind s =
     bind_result (consume_ast TOKEN_IDENTIFIER (''Expect '' @ kind @ '' name.'') s) (\<lambda>(temp, s1).
       case temp of None \<Rightarrow> Inr (None, s1)
       | Some name \<Rightarrow>
         bind_result (consume_ast TOKEN_LEFT_PAREN (''Expect '(' after '' @ kind @ '' name.'') s1) (\<lambda>(_, s2).
         bind_result (node_data s2) (\<lambda>tkn.
         bind_result (if tk_type tkn \<noteq> TOKEN_RIGHT_PAREN then params_loop fuel tkn [] s2 else Inr ([], s2)) (\<lambda>(params, s3).
         bind_result (consume_ast TOKEN_RIGHT_PAREN ''Expect ')' after parameters.'' s3) (\<lambda>(_, s4).
         bind_result (consume_ast TOKEN_LEFT_BRACE (''Expect '{' before '' @ kind @ '' body.'') s4) (\<lambda>(_, s5).
         bind_result (block_statements fuel dc s5) (\<lambda>(body, s6).
           Inr (Some (STMT_FUN params name body), s6))))))))"

text \<open>The method loop of \<^verbatim>\<open>class_statement\<close>; a method that fails is pushed as NULL.\<close>

fun methods_loop :: "nat \<Rightarrow> stmt_parser \<Rightarrow> Stmt option list \<Rightarrow> Stmt option list parser" where
  "methods_loop 0 dc methods s = Inl Out_Of_Fuel"
| "methods_loop (Suc fuel) dc methods s =
     bind_result (node_data s) (\<lambda>temp.
       if tk_type temp \<noteq> TOKEN_RIGHT_BRACE \<and> tk_type temp \<noteq> TOKEN_ENDOFFILE
       then bind_result (fun_statement (Suc fuel) dc ''method'' s) (\<lambda>(m, s1). methods_loop fuel dc (methods @ [m]) s1)
       else Inr (methods, s))"

text \<open>The optional superclass clause; the outer \<open>None\<close> is the early return.\<close>

definition superclass_clause :: "Expr option option parser" where
  "superclass_clause s =
     bind_result (node_data s) (\<lambda>temp.
       if tk_type temp = TOKEN_LESS
       then bind_result (next_node s) (\<lambda>s1.
            bind_result (consume_ast TOKEN_IDENTIFIER ''Expect super class'' s1) (\<lambda>(n, s2).
              case n of None \<Rightarrow> Inr (None, s2) | Some t \<Rightarrow> Inr (Some (new_expr (new_variable t)), s2)))
       else Inr (Some None, s))"

definition class_statement :: "nat \<Rightarrow> stmt_parser \<Rightarrow> stmt_parser" where
  "class_statement fuel dc s =
     bind_result (consume_ast TOKEN_IDENTIFIER ''Expect class name'' s) (\<lambda>(classNameNode, s1).
       case classNameNode of None \<Rightarrow> Inr (None, s1)
       | Some name \<Rightarrow> bind_result (superclass_clause s1) (\<lambda>(super, s2).
           case super of None \<Rightarrow> Inr (None, s2)
           | Some superClassExpr \<Rightarrow>
             bind_result (consume_ast TOKEN_LEFT_BRACE ''Expect '{' before class body'' s2) (\<lambda>(_, s3).
             bind_result (methods_loop fuel dc [] s3) (\<lambda>(methods, s4).
             bind_result (consume_ast TOKEN_RIGHT_BRACE ''Expect '}' after class body'' s4) (\<lambda>(_, s5).
               Inr (Some (STMT_CLASS name methods superClassExpr), s5))))))"

definition statement_body_ast :: "nat \<Rightarrow> expr_parser \<Rightarrow> stmt_parser \<Rightarrow> stmt_parser \<Rightarrow> stmt_parser" where
  "statement_body_ast fuel pp st dc s =
     bind_result (node_data s) (\<lambda>tkn.
       if tk_type tkn = TOKEN_PRINT then bind_result (next_node s) (print_statement_ast pp)
       else if tk_type tkn = TOKEN_LEFT_BRACE then bind_result (next_node s) (block_statements fuel dc)
       else if tk_type tkn = TOKEN_IF then bind_result (next_node s) (if_statement_ast pp st)
       else if tk_type tkn = TOKEN_FOR then bind_result (next_node s) (for_statement_ast pp st)
       else if tk_type tkn = TOKEN_WHILE then bind_result (next_node s) (while_statement_ast pp st)
       else if tk_type tkn = TOKEN_RETURN then bind_result (next_node s) (return_statement_ast pp)
       else expression_statement_ast pp s)"

definition declaration_body_ast :: "nat \<Rightarrow> expr_parser \<Rightarrow> stmt_parser \<Rightarrow> stmt_parser \<Rightarrow> stmt_parser" where
  "declaration_body_ast fuel pp st dc s =
     bind_result (node_data s) (\<lambda>tkn.
       if tk_type tkn = TOKEN_CLASS then bind_result (next_node s) (class_statement fuel dc)
       else if tk_type tkn = TOKEN_FUN then bind_result (next_node s) (fun_statement fuel dc ''function'')
       else bind_result (if tk_type tkn = TOKEN_VAR then bind_result (next_node s) (var_declaration_ast pp) else st s)
         (\<lambda>(stmt, s1). case stmt of None \<Rightarrow> bind_result (synchronize_ast s1) (\<lambda>s2. Inr (None, s2))
            | Some x \<Rightarrow> Inr (Some x, s1)))"

fun statement_ast :: "nat \<Rightarrow> stmt_parser" and declaration_ast :: "nat \<Rightarrow> stmt_parser" where
  "statement_ast 0 s = Inl Out_Of_Fuel"
| "statement_ast (Suc fuel) s =
     statement_body_ast (Suc fuel) (expression_ast (Suc fuel)) (statement_ast fuel) (declaration_ast fuel) s"
| "declaration_ast 0 s = Inl Out_Of_Fuel"
| "declaration_ast (Suc fuel) s =
     declaration_body_ast (Suc fuel) (expression_ast (Suc fuel)) (statement_ast (Suc fuel)) (declaration_ast fuel) s"

text \<open>
  \<^verbatim>\<open>parse\<close>: \<open>None\<close> is the empty context after an error, when the statements read so far are
  destroyed.
\<close>

fun parse_loop :: "nat \<Rightarrow> Stmt option list \<Rightarrow> Stmt option list option parser" where
  "parse_loop 0 stmts s = Inl Out_Of_Fuel"
| "parse_loop (Suc fuel) stmts s =
     bind_result (node_data s) (\<lambda>tkn.
       if tk_type tkn = TOKEN_ENDOFFILE then Inr (Some stmts, s)
       else bind_result (declaration_ast (Suc fuel) s) (\<lambda>(stmt, s1). case stmt of
           Some x \<Rightarrow> parse_loop fuel (stmts @ [Some x]) s1
         | None \<Rightarrow> bind_result (stmts_destroy stmts) (\<lambda>_. Inr (None, s1))))"

definition parse_start :: "Token list \<Rightarrow> PS" where
  "parse_start tokens = \<lparr>pa_tokens = tokens, pa_pos = 0, pa_err = []\<rparr>"

definition parse :: "nat \<Rightarrow> Tokenization \<Rightarrow> (Stmt option list option \<times> PS) result" where
  "parse fuel toknz = parse_loop fuel [] (parse_start (tkz_values toknz))"

text \<open>\<^verbatim>\<open>parser_destroy\<close>: the \<^verbatim>\<open>expr\<close> field of a context is never set.\<close>

definition parser_destroy :: "Stmt option list option \<Rightarrow> freed list result" where
  "parser_destroy ctx = (case ctx of None \<Rightarrow> Inr [] | Some stmts \<Rightarrow> stmts_destroy stmts)"

end
