(* ===== verification/Clox_Parser_Props.thy ===== *)
theory Clox_Parser_Props
  imports Clox_Parser "HOL-Library.Multiset"
begin

text \<open>
  Properties of the recursive-descent parser. Part one: it ends. Every function is shown to move
  the cursor only forward, the recursive calls are shown to happen behind a consumed token, and
  so a budget above the number of remaining tokens is enough; the one exception is the method
  loop of a class, which is shown to run for ever. Part two: it accepts the expression grammar.
\<close>

section \<open>Moving forward\<close>

definition ahead :: "nat \<Rightarrow> PS \<Rightarrow> PS \<Rightarrow> bool" where
  "ahead k s s' \<longleftrightarrow> pa_tokens s' = pa_tokens s \<and> pa_pos s + k \<le> pa_pos s'"

definition remaining :: "PS \<Rightarrow> nat" where
  "remaining s = length (pa_tokens s) - pa_pos s"

text \<open>
  A result reached from \<open>s\<close>: not for want of fuel, and with a state at least \<open>k\<close> tokens
  ahead of \<open>s\<close>.
\<close>

definition runs :: "nat \<Rightarrow> ('a \<Rightarrow> PS) \<Rightarrow> PS \<Rightarrow> 'a result \<Rightarrow> bool" where
  "runs k g s r \<longleftrightarrow> ends r \<and> holds (\<lambda>x. ahead k s (g x)) r"

abbreviation reaches :: "PS \<Rightarrow> ('a \<times> PS) result \<Rightarrow> bool" where
  "reaches \<equiv> runs 0 snd"

abbreviation advances :: "PS \<Rightarrow> ('a \<times> PS) result \<Rightarrow> bool" where
  "advances \<equiv> runs (Suc 0) snd"

lemma ahead_refl [simp]: "ahead 0 s s"
  by (simp add: ahead_def)

lemma ahead_trans: "ahead j s t \<Longrightarrow> ahead k t u \<Longrightarrow> ahead (j + k) s u"
  by (simp add: ahead_def)

lemma ahead_remaining: "ahead k s t \<Longrightarrow> remaining t \<le> remaining s"
  by (auto simp: ahead_def remaining_def)

lemma runs_Inr [simp]: "runs k g s (Inr x) = ahead k s (g x)"
  by (simp add: runs_def)

lemma runs_Inl [simp]: "runs k g s (Inl e) \<longleftrightarrow> e \<noteq> Out_Of_Fuel"
  by (simp add: runs_def)

lemma runs_weaken: "runs k g s r \<Longrightarrow> runs 0 g s r"
  by (cases r) (auto simp: ahead_def)

lemma runs_bind_gen:
  assumes "runs j g s r" "\<And>x. r = Inr x \<Longrightarrow> ahead j s (g x) \<Longrightarrow> runs k h (g x) (f x)"
  shows "runs (j + k) h s (bind_result r f)"
proof (cases r)
  case (Inr x)
  with assms(1) have "ahead j s (g x)" by simp
  with assms(2) [OF Inr] show ?thesis
    by (cases "f x") (auto simp: Inr intro: ahead_trans)
qed (use assms(1) in simp)

lemmas runs_bind = runs_bind_gen [where j = 0, simplified]
lemmas runs_bind_advance = runs_bind_gen [where k = 0, simplified]

text \<open>The same with a result that reads the state and leaves it.\<close>

lemma runs_read: "ends r \<Longrightarrow> (\<And>x. r = Inr x \<Longrightarrow> runs k h s (f x)) \<Longrightarrow> runs k h s (bind_result r f)"
  by (cases r) auto

lemma runs_if: "(b \<Longrightarrow> runs k g s x) \<Longrightarrow> (\<not> b \<Longrightarrow> runs k g s y) \<Longrightarrow> runs k g s (if b then x else y)"
  by simp

lemma ends_node_data [simp]: "ends (node_data s)" "ends (prev_data s)"
  by (simp_all add: node_data_def prev_data_def)

lemma runs_node:
  "(\<And>t. node_data s = Inr t \<Longrightarrow> runs k h s (f t)) \<Longrightarrow> runs k h s (bind_result (node_data s) f)"
  "(\<And>t. prev_data s = Inr t \<Longrightarrow> runs k h s (f t)) \<Longrightarrow> runs k h s (bind_result (prev_data s) f)"
  by (auto intro: runs_read)

lemma node_data_pos: "node_data s = Inr t \<Longrightarrow> pa_pos s < length (pa_tokens s) \<and> t = pa_tokens s ! pa_pos s"
  by (simp add: node_data_def split: if_splits)

lemma next_node_runs [simp]: "runs (Suc 0) (\<lambda>x. x) s (next_node s)" "runs 0 (\<lambda>x. x) s (next_node s)"
  by (simp_all add: next_node_def ahead_def)

lemma next_node_less:
  "next_node s = Inr s1 \<Longrightarrow> remaining s1 < remaining s \<and> pa_pos s1 = Suc (pa_pos s) \<and> pa_tokens s1 = pa_tokens s"
  by (auto simp: next_node_def remaining_def split: if_splits)

lemma next_bind:
  assumes "\<And>s1. remaining s1 < remaining s \<Longrightarrow> pa_tokens s1 = pa_tokens s \<Longrightarrow> runs 0 h s1 (f s1)"
  shows "runs (Suc 0) h s (bind_result (next_node s) f)"
  by (rule runs_bind_advance [where g = "\<lambda>x. x"]) (auto dest: next_node_less intro!: assms)

lemma next_bind_weak:
  assumes "\<And>s1. remaining s1 < remaining s \<Longrightarrow> pa_tokens s1 = pa_tokens s \<Longrightarrow> runs 0 h s1 (f s1)"
  shows "runs 0 h s (bind_result (next_node s) f)"
  by (rule runs_weaken [OF next_bind]) (rule assms)

lemma parse_error_runs [simp]: "runs 0 (\<lambda>x. x) s (parse_error t msg s)"
  by (simp add: parse_error_def ahead_def)

lemma match_ast_runs [simp]: "reaches s (match_ast type types s)"
  by (induction types) (auto intro!: next_bind_weak)

lemma match_ast_True: "match_ast type types s = Inr (True, s1) \<Longrightarrow> remaining s1 < remaining s"
  by (induction types) (auto elim!: bind_result_InrE dest: next_node_less split: if_splits)

lemma consume_ast_runs [simp]: "reaches s (consume_ast type msg s)"
  unfolding consume_ast_def
  by (auto intro!: runs_read next_bind_weak runs_bind [where g = "\<lambda>x. x"])

lemma consume_ast_Some: "consume_ast type msg s = Inr (Some t, s1) \<Longrightarrow> ahead (Suc 0) s s1 \<and> remaining s1 < remaining s"
  by (auto simp: consume_ast_def ahead_def elim!: bind_result_InrE dest!: next_node_less split: if_splits)

lemma ends_expr_destroy [simp]: "ends (expr_destroy e)"
  by (induction e rule: expr_destroy.induct)
    (auto intro!: ends_bind split: RealExpr.split)

section \<open>Expressions end\<close>

text \<open>
  The interface between the expression parser and its recursive call: \<open>pp\<close> runs when fewer
  than \<open>K\<close> tokens are left.
\<close>

locale sub_expr =
  fixes pp :: expr_parser and K :: nat
  assumes pp_reaches: "remaining s < K \<Longrightarrow> reaches s (pp s)"
begin

lemma primary_reaches:
  assumes "remaining s \<le> K"
  shows "reaches s (primary pp s)"
proof -
  have "reaches s (primary_grouping pp s)"
    unfolding primary_grouping_def
    by (rule next_bind_weak, rule runs_bind [where g = snd])
      (use assms in \<open>auto intro!: pp_reaches runs_bind [where g = snd]\<close>)
  moreover have "reaches s (primary_super s)" "reaches s (primary_this s)" "\<And>real. reaches s (leaf real s)"
    unfolding primary_super_def primary_this_def leaf_def
    by (auto intro!: runs_read next_bind_weak runs_bind [where g = snd] split: option.split)
  ultimately show ?thesis
    unfolding primary_def
    by (auto intro!: runs_read next_bind_weak runs_bind [where g = "\<lambda>x. x"] split: option.split)
qed

lemma finish_call_loop_advances:
  "remaining s < n \<Longrightarrow> remaining s \<le> K \<Longrightarrow> advances s (finish_call_loop n pp callee arg args s)"
proof (induction n arbitrary: s arg args)
  case (Suc n)
  have arg: "reaches s1 (if tk_type tkn \<noteq> TOKEN_RIGHT_PAREN then pp s1 else Inr (arg, s1))"
    if "remaining s1 < remaining s" for s1 and tkn :: Token
    using that Suc.prems by (auto intro: pp_reaches)
  have again: "reaches s2 (finish_call_loop n pp callee arg1 args1 s2)"
    if "remaining s1 < remaining s" "ahead 0 s1 s2" for s1 s2 arg1 args1
    by (rule runs_weaken, rule Suc.IH) (use that(1) Suc.prems ahead_remaining [OF that(2)] in auto)
  show ?case
    unfolding finish_call_loop.simps
    apply (rule next_bind, rule runs_read, simp, rule runs_if)
    subgoal by (rule runs_bind [OF parse_error_runs]) (auto intro!: runs_read)
    subgoal by (rule runs_bind [OF arg]) (auto intro!: runs_read again simp: Let_def)
    done
qed simp

lemma finish_call_advances:
  assumes "remaining s < n" "remaining s \<le> K"
  shows "advances s (finish_call n pp callee s)"
  unfolding finish_call_def
  by (rule runs_bind_advance [OF finish_call_loop_advances [OF assms]])
    (auto intro!: runs_bind [where g = snd] split: option.split)

lemma call_loop_reaches:
  "remaining s < n \<Longrightarrow> remaining s \<le> K \<Longrightarrow> reaches s (call_loop n pp expr s)"
proof (induction n arbitrary: s expr)
  case (Suc n)
  have again: "reaches s2 (call_loop n pp e s2)" if "remaining s2 < remaining s" for s2 e
    by (rule Suc.IH) (use Suc.prems that in auto)
  have paren: "reaches s (bind_result (finish_call (Suc n) pp expr s) (\<lambda>(expr1, s1). call_loop n pp expr1 s1))"
    if "pa_pos s < length (pa_tokens s)"
    by (rule runs_weaken [OF runs_bind_advance [OF finish_call_advances [OF Suc.prems]]])
      (use that in \<open>auto intro!: again simp: ahead_def remaining_def\<close>)
  show ?case
    unfolding call_loop.simps
    by (rule runs_read) (auto intro!: paren next_bind_weak runs_bind [where g = snd] again
        dest!: node_data_pos ahead_remaining)
qed simp

lemma call_ast_reaches: "remaining s < n \<Longrightarrow> remaining s \<le> K \<Longrightarrow> reaches s (call_ast n pp s)"
  unfolding call_ast_def
  by (rule runs_bind [OF primary_reaches]) (auto intro!: call_loop_reaches dest!: ahead_remaining)

lemma unary_ast_reaches: "remaining s < n \<Longrightarrow> remaining s \<le> K \<Longrightarrow> reaches s (unary_ast n pp s)"
proof (induction n arbitrary: s)
  case (Suc n)
  have again: "reaches s1 (unary_ast n pp s1)" if "remaining s1 < remaining s" for s1
    by (rule Suc.IH) (use Suc.prems that in auto)
  show ?case
    unfolding unary_ast.simps
    by (rule runs_read, simp, rule runs_bind [OF match_ast_runs])
      (use Suc.prems in \<open>auto intro!: runs_read runs_bind [OF again] call_ast_reaches
        dest!: match_ast_True ahead_remaining simp del: match_ast.simps\<close>)
qed simp

end

text \<open>A rule of the grammar that runs when at most \<open>K\<close> tokens are left.\<close>

definition total_upto :: "nat \<Rightarrow> expr_parser \<Rightarrow> bool" where
  "total_upto K p \<longleftrightarrow> (\<forall>s. remaining s \<le> K \<longrightarrow> reaches s (p s))"

lemma total_uptoD: "total_upto K p \<Longrightarrow> remaining s \<le> K \<Longrightarrow> reaches s (p s)"
  by (simp add: total_upto_def)

lemma binary_loop_reaches:
  assumes "total_upto K rule_fn"
  shows "remaining s < n \<Longrightarrow> remaining s \<le> K \<Longrightarrow> reaches s (binary_loop n rule_fn types expr s)"
proof (induction n arbitrary: s expr)
  case (Suc n)
  have again: "reaches s2 (binary_loop n rule_fn types e s2)" if "remaining s2 < remaining s" for s2 e
    by (rule Suc.IH) (use that Suc.prems in auto)
  have operand: "reaches s1 (rule_fn s1)" if "remaining s1 < remaining s" for s1
    by (rule total_uptoD [OF assms]) (use that Suc.prems in auto)
  show ?case
    unfolding binary_loop.simps
    by (rule runs_read, simp, rule runs_bind [OF match_ast_runs])
      (auto intro!: runs_read runs_bind [OF operand] again dest!: match_ast_True ahead_remaining)
qed simp

lemma binary_production_total:
  assumes "total_upto K rule_fn" "K < n"
  shows "total_upto K (binary_production n rule_fn types)"
  unfolding total_upto_def binary_production_def
  by (intro allI impI runs_bind [OF total_uptoD [OF assms(1)]])
    (use assms(2) in \<open>auto intro!: binary_loop_reaches [OF assms(1)] dest!: ahead_remaining\<close>)

lemma logic_loop_reaches:
  assumes "total_upto K rule_fn"
  shows "remaining s < n \<Longrightarrow> remaining s \<le> K \<Longrightarrow> reaches s (logic_loop n t0 rule_fn tkn expr s)"
proof (induction n arbitrary: s tkn expr)
  case (Suc n)
  have again: "reaches s2 (logic_loop n t0 rule_fn t e s2)" if "remaining s2 < remaining s" for s2 t e
    by (rule Suc.IH) (use that Suc.prems in auto)
  have operand: "reaches s1 (rule_fn s1)" if "remaining s1 < remaining s" for s1
    by (rule total_uptoD [OF assms]) (use that Suc.prems in auto)
  show ?case
    unfolding logic_loop.simps
    apply (rule runs_if)
    subgoal premises
      by (rule runs_read, simp, rule next_bind_weak, rule runs_read, simp, rule runs_bind [OF operand])
        (auto dest!: ahead_remaining intro!: again)
    subgoal by simp
    done
qed simp

lemma logic_total:
  assumes "total_upto K rule_fn" "K < n"
  shows "total_upto K (\<lambda>s. bind_result (rule_fn s) (\<lambda>(expr, s1). bind_result (node_data s1) (\<lambda>tkn.
    logic_loop n type rule_fn tkn expr s1)))"
  unfolding total_upto_def
  by (intro allI impI runs_bind [OF total_uptoD [OF assms(1)]])
    (use assms(2) in \<open>auto intro!: runs_read logic_loop_reaches [OF assms(1)] dest!: ahead_remaining\<close>)

context sub_expr
begin

lemma logicOr_total: "K < n \<Longrightarrow> total_upto K (logicOr n pp)"
proof -
  assume n: "K < n"
  have "total_upto K (unary_ast n pp)"
    using n by (auto simp: total_upto_def intro!: unary_ast_reaches)
  then have "total_upto K (equality n pp)"
    unfolding equality_def comparison_def addition_def mutiplication_def
    by (intro binary_production_total n)
  then have "total_upto K (logicAnd n pp)"
    unfolding logicAnd_def by (rule logic_total) (rule n)
  then show ?thesis
    unfolding logicOr_def by (rule logic_total) (rule n)
qed

lemma assignment_body_reaches:
  assumes "remaining s \<le> K" "K < n"
  shows "reaches s (assignment_body n pp s)"
proof -
  have target: "reaches s1 (assign_target e v t s1)" for e v t s1
    unfolding assign_target_def
    by (auto intro!: runs_bind [where g = "\<lambda>x. x"] split: option.split Expr.split RealExpr.split)
  show ?thesis
    unfolding assignment_body_def
    by (rule runs_bind [OF total_uptoD [OF logicOr_total [OF assms(2)] assms(1)]])
      (use assms in \<open>auto intro!: runs_read next_bind_weak runs_bind [OF pp_reaches] target dest!: ahead_remaining\<close>)
qed

end

lemma assignment_sub_expr: "sub_expr (assignment fuel) fuel"
proof (induction fuel)
  case (Suc fuel)
  show ?case
    using sub_expr.assignment_body_reaches [OF Suc] by unfold_locales simp
qed (unfold_locales, simp)

interpretation asg: sub_expr "assignment fuel" fuel for fuel
  by (rule assignment_sub_expr)

lemma expression_total: "total_upto n (expression_ast (Suc n))"
  unfolding total_upto_def expression_ast_def
  by (auto intro!: asg.pp_reaches simp del: assignment.simps)

section \<open>Statements end\<close>

lemma ahead_less: "ahead (Suc 0) s s' \<Longrightarrow> node_data s = Inr t \<Longrightarrow> remaining s' < remaining s"
  by (auto simp: ahead_def remaining_def dest!: node_data_pos)

lemma sync_loop_runs: "remaining s < n \<Longrightarrow> runs 0 (\<lambda>x. x) s (sync_loop_ast n type s)"
proof (induction n arbitrary: s)
  case (Suc n)
  then show ?case
    by (auto intro!: runs_node next_bind_weak Suc.IH)
qed simp

lemma synchronize_runs: "runs (Suc 0) (\<lambda>x. x) s (synchronize_ast s)"
  unfolding synchronize_ast_def
  by (rule next_bind) (auto intro!: runs_read sync_loop_runs simp: remaining_def simp del: sync_loop_ast.simps)

text \<open>A statement parser: forward, and past at least one token when it returns a statement.\<close>

definition steps :: "PS \<Rightarrow> (Stmt option \<times> PS) result \<Rightarrow> bool" where
  "steps s r \<longleftrightarrow> reaches s r \<and> (\<forall>x s'. r = Inr (Some x, s') \<longrightarrow> ahead (Suc 0) s s')"

lemma steps_reaches: "steps s r \<Longrightarrow> reaches s r"
  by (simp add: steps_def)

lemma advances_steps: "advances s r \<Longrightarrow> steps s r"
  by (auto simp: steps_def intro: runs_weaken)

lemma steps_bind:
  assumes "reaches s r" "\<And>x s1. r = Inr (x, s1) \<Longrightarrow> ahead 0 s s1 \<Longrightarrow> steps s1 (f (x, s1))"
  shows "steps s (bind_result r f)"
proof (cases r)
  case (Inr a)
  obtain x s1 where a: "a = (x, s1)" by force
  with Inr assms(1) have s1: "ahead 0 s s1" by simp
  have f: "steps s1 (f (x, s1))" using assms(2) Inr a s1 by simp
  have "reaches s (f (x, s1))" "ahead 0 s s2" "ahead (Suc 0) s1 s2 \<Longrightarrow> ahead (Suc 0) s s2"
    if "f (x, s1) = Inr (y, s2)" for y s2
    using f s1 that by (auto simp: steps_def ahead_def)
  then show ?thesis
    using f by (cases "f (x, s1)") (auto simp: Inr a steps_def)
qed (use assms(1) in \<open>simp add: steps_def\<close>)

lemma new_terminated_steps: "steps s (new_terminated_statement stmt s)"
  unfolding new_terminated_statement_def terminated_statement_def
  using consume_ast_runs [of s TOKEN_SEMICOLON "''Expect ';' after value''"]
  by (cases "consume_ast TOKEN_SEMICOLON ''Expect ';' after value'' s")
    (auto simp: steps_def split: if_splits dest: consume_ast_Some)

text \<open>
  The interface between the statement parser and its recursive calls, on a token list \<open>T\<close>:
  expressions run with at most \<open>K\<close> tokens left, statements and declarations with fewer.
\<close>

definition live :: "nat \<Rightarrow> Token list \<Rightarrow> PS \<Rightarrow> bool" where
  "live K T s \<longleftrightarrow> remaining s < K \<and> pa_tokens s = T"

lemma live_ahead: "ahead k s s' \<Longrightarrow> live K T s \<Longrightarrow> live K T s'"
  using ahead_remaining [of k s s'] by (auto simp: live_def ahead_def)

locale sub_stmt =
  fixes pp :: expr_parser and st dc :: stmt_parser and K :: nat and T :: "Token list"
  assumes pp_total: "total_upto K pp"
    and st_steps: "live K T s \<Longrightarrow> steps s (st s)"
    and dc_advances: "live K T s \<Longrightarrow> advances s (dc s)"
begin

lemma live_pp: "live K T s \<Longrightarrow> reaches s (pp s)"
  by (rule total_uptoD [OF pp_total]) (simp add: live_def)

lemma live_st: "live K T s \<Longrightarrow> reaches s (st s)"
  by (rule steps_reaches, rule st_steps)

lemma live_bind:
  assumes "live K T s" "reaches s r" "\<And>x s1. r = Inr (x, s1) \<Longrightarrow> live K T s1 \<Longrightarrow> reaches s1 (f (x, s1))"
  shows "reaches s (bind_result r f)"
  by (rule runs_bind [OF assms(2)]) (use assms(1,3) live_ahead in auto)

lemma live_next:
  assumes "live K T s" "\<And>s1. live K T s1 \<Longrightarrow> reaches s1 (f s1)"
  shows "reaches s (bind_result (next_node s) f)"
  by (rule next_bind_weak) (use assms in \<open>auto simp: live_def\<close>)

lemmas live_intros = runs_node live_next live_bind live_pp live_st

lemma block_loop_reaches: "remaining s < n \<Longrightarrow> live K T s \<Longrightarrow> reaches s (block_loop_ast n dc inner s)"
proof (induction n arbitrary: s inner)
  case (Suc n)
  have "reaches s (bind_result (dc s) (\<lambda>(stmt, s1). block_loop_ast n dc (inner @ [stmt]) s1))"
    if "node_data s = Inr t" for t
  proof (rule runs_weaken [OF runs_bind_advance [OF dc_advances [OF Suc.prems(2)]]])
    fix x :: "Stmt option \<times> PS"
    assume "ahead (Suc 0) s (snd x)"
    then have "remaining (snd x) < remaining s" "live K T (snd x)"
      using that Suc.prems(2) by (blast intro: ahead_less live_ahead)+
    then show "reaches (snd x) (case x of (stmt, s1) \<Rightarrow> block_loop_ast n dc (inner @ [stmt]) s1)"
      using Suc.prems(1) by (auto intro!: Suc.IH split: prod.split)
  qed
  then show ?case by (auto intro!: runs_node)
qed simp

lemma block_statements_reaches: "live K T s \<Longrightarrow> K \<le> n \<Longrightarrow> reaches s (block_statements n dc s)"
  unfolding block_statements_def
  by (rule live_bind [OF _ block_loop_reaches]) (auto intro!: live_intros simp: live_def)

lemma if_statement_reaches: "live K T s \<Longrightarrow> reaches s (if_statement_ast pp st s)"
  unfolding if_statement_ast_def by (auto intro!: live_intros)

lemma while_statement_reaches: "live K T s \<Longrightarrow> reaches s (while_statement_ast pp st s)"
  unfolding while_statement_ast_def by (auto intro!: live_intros)

lemma return_statement_reaches: "live K T s \<Longrightarrow> reaches s (return_statement_ast pp s)"
  unfolding return_statement_ast_def by (auto intro!: live_intros)

lemma terminated_reaches: "reaches s (new_terminated_statement stmt s)"
  by (rule steps_reaches [OF new_terminated_steps])

lemma simple_statements_reach:
  assumes "live K T s"
  shows "reaches s (print_statement_ast pp s)" "reaches s (expression_statement_ast pp s)" "reaches s (var_declaration_ast pp s)"
  unfolding print_statement_ast_def expression_statement_ast_def var_declaration_ast_def var_statement_def
  using assms by (auto intro!: live_intros terminated_reaches split: option.split)

lemma for_statement_reaches: "live K T s \<Longrightarrow> reaches s (for_statement_ast pp st s)"
  unfolding for_statement_ast_def for_initializer_ast_def
  by (auto intro!: live_intros simple_statements_reach)

lemma params_loop_reaches: "remaining s < n \<Longrightarrow> reaches s (params_loop n tkn params s)"
proof (induction n arbitrary: s tkn params)
  case (Suc n)
  have "reaches s1 (bind_result (consume_ast TOKEN_IDENTIFIER ''Expect parameter name.'' s1) (\<lambda>(temp, s2).
       case temp of None \<Rightarrow> Inl (Crash Null_Deref)
       | Some param \<Rightarrow> bind_result (node_data s2) (\<lambda>tkn1.
           bind_result (if tk_type tkn1 \<noteq> TOKEN_RIGHT_PAREN then next_node s2 else Inr s2) (\<lambda>s3.
             if tk_type tkn1 = TOKEN_COMMA then params_loop n tkn1 (params @ [param]) s3
             else Inr (params @ [param], s3)))))"
    if "remaining s1 \<le> remaining s" for s1
    by (rule runs_bind [OF consume_ast_runs])
      (use that Suc.prems in \<open>auto intro!: runs_node next_bind_weak Suc.IH simp: ahead_def dest!: consume_ast_Some split: option.split\<close>)
  then show ?case
    unfolding params_loop.simps
    by (intro runs_bind [where g = "\<lambda>x. x"]) (auto dest!: ahead_remaining)
qed simp

lemma fun_statement_reaches:
  assumes "live K T s" "K \<le> n"
  shows "reaches s (fun_statement n dc kind s)"
proof -
  have "reaches s2 (params_loop n tkn [] s2)" if "live K T s2" for s2 tkn
    using that assms(2) by (intro params_loop_reaches) (simp add: live_def)
  then show ?thesis
    unfolding fun_statement_def using assms
    by (auto intro!: live_intros block_statements_reaches split: option.split)
qed

lemma live_start: "remaining s \<le> K \<Longrightarrow> pa_tokens s = T \<Longrightarrow>
    (\<And>s1. live K T s1 \<Longrightarrow> reaches s1 (f s1)) \<Longrightarrow> advances s (bind_result (next_node s) f)"
  by (rule next_bind) (simp add: live_def)

lemma statement_body_steps:
  assumes "remaining s \<le> K" "pa_tokens s = T" "K \<le> n"
  shows "steps s (statement_body_ast n pp st dc s)"
proof -
  have "steps s (expression_statement_ast pp s)"
    unfolding expression_statement_ast_def
    by (rule steps_bind [OF total_uptoD [OF pp_total assms(1)]]) (simp add: new_terminated_steps)
  moreover have "steps s (bind_result (next_node s) f)" if "\<And>s1. live K T s1 \<Longrightarrow> reaches s1 (f s1)" for f
    by (rule advances_steps, rule live_start) (use assms that in auto)
  ultimately show ?thesis
    unfolding statement_body_ast_def using assms(3)
    by (cases "node_data s") (auto simp: steps_def ends_def node_data_def split: if_splits
        intro!: block_statements_reaches if_statement_reaches while_statement_reaches return_statement_reaches
          simple_statements_reach for_statement_reaches)
qed

lemma sync_advances:
  assumes "steps s r"
  shows "advances s (bind_result r (\<lambda>(stmt, s1). case stmt of
      None \<Rightarrow> bind_result (synchronize_ast s1) (\<lambda>s2. Inr (None, s2)) | Some x \<Rightarrow> Inr (Some x, s1)))"
proof (cases r)
  case (Inr a)
  obtain stmt s1 where a: "a = (stmt, s1)" by force
  with Inr assms have s1: "ahead 0 s s1" "stmt \<noteq> None \<Longrightarrow> ahead (Suc 0) s s1" by (auto simp: steps_def)
  show ?thesis
    using s1 synchronize_runs [of s1]
    by (cases "synchronize_ast s1") (auto simp: Inr a ahead_def split: option.split)
qed (use assms in \<open>simp add: steps_def\<close>)

lemma declaration_body_advances:
  assumes "remaining s \<le> K" "pa_tokens s = T" "K \<le> n" "steps s (st0 s)" "\<forall>t\<in>set T. tk_type t \<noteq> TOKEN_CLASS"
  shows "advances s (declaration_body_ast n pp st0 dc s)"
proof -
  have var: "steps s (bind_result (next_node s) (var_declaration_ast pp))"
    by (rule advances_steps, rule live_start) (use assms simple_statements_reach in auto)
  have fun_st: "advances s (bind_result (next_node s) (fun_statement n dc ''function''))"
    by (rule live_start) (use assms in \<open>auto intro: fun_statement_reaches\<close>)
  have no_class: "tk_type t \<noteq> TOKEN_CLASS" if "node_data s = Inr t" for t
    using node_data_pos [OF that] assms(2,5) by auto
  show ?thesis
    unfolding declaration_body_ast_def
    by (rule runs_node(1)) (use no_class fun_st sync_advances [OF var] sync_advances [OF assms(4)] in auto)
qed

end

lemma statements_sub_stmt:
  assumes "\<forall>t\<in>set T. tk_type t \<noteq> TOKEN_CLASS"
  shows "sub_stmt (expression_ast (Suc fuel)) (statement_ast fuel) (declaration_ast fuel) fuel T"
proof (induction fuel)
  case 0
  show ?case by unfold_locales (simp_all add: expression_total live_def)
next
  case (Suc fuel)
  have st: "steps s (statement_ast (Suc fuel) s)" if "remaining s \<le> fuel" "pa_tokens s = T" for s
    unfolding statement_ast.simps by (rule sub_stmt.statement_body_steps [OF Suc that]) simp
  have dc: "advances s (declaration_ast (Suc fuel) s)" if "remaining s \<le> fuel" "pa_tokens s = T" for s
    unfolding declaration_ast.simps
    by (rule sub_stmt.declaration_body_advances [OF Suc that _ _ assms]) (simp, rule st [OF that])
  show ?case
    by unfold_locales (use expression_total st dc in \<open>auto simp: live_def\<close>)
qed

interpretation stm: sub_stmt "expression_ast (Suc fuel)" "statement_ast fuel" "declaration_ast fuel" fuel
    "filter (\<lambda>t. tk_type t \<noteq> TOKEN_CLASS) T" for fuel T
  by (rule statements_sub_stmt) simp

lemma stmts_destroy_ends:
  "ends (stmt_destroy x)" "ends (stmts_foreach xs)"
  by (induction x and xs rule: stmt_destroy_stmts_foreach.induct)
    (auto intro!: ends_bind split: Stmt.split)

lemma parse_loop_ends:
  assumes "\<forall>t\<in>set T. tk_type t \<noteq> TOKEN_CLASS"
  shows "remaining s < n \<Longrightarrow> pa_tokens s = T \<Longrightarrow> ends (parse_loop n stmts s)"
proof (induction n arbitrary: s stmts)
  case (Suc n)
  have dc: "advances s (declaration_ast (Suc n) s)"
    by (rule stm.dc_advances [where T = T]) (use Suc.prems assms in \<open>simp add: live_def filter_id_conv\<close>)
  then have dc_ends: "ends (declaration_ast (Suc n) s)" by (simp add: runs_def)
  have less: "remaining s1 < remaining s \<and> pa_tokens s1 = T"
    if "declaration_ast (Suc n) s = Inr (x, s1)" "node_data s = Inr t" for x s1 t
    using dc that Suc.prems(2) ahead_less [of s s1 t] by (auto simp: ahead_def simp del: declaration_ast.simps)
  have again: "ends (parse_loop n xs s1)"
    if "declaration_ast (Suc n) s = Inr (x, s1)" "node_data s = Inr t" for x s1 t xs
    by (rule Suc.IH) (use less [OF that] Suc.prems in auto)
  show ?case
    unfolding parse_loop.simps
    by (intro ends_bind) (auto intro!: ends_bind dc_ends again simp: stmts_destroy_def stmts_destroy_ends
      simp del: declaration_ast.simps split: option.split)
qed simp

text \<open>
  C10. The parser ends on every token list without a class declaration, well formed or not: with a
  budget above the number of tokens it returns, or fails at a NULL pointer, but never runs on.
  Error recovery and every loop of the grammar are covered.
\<close>

theorem parser_terminates:
  assumes "\<forall>t\<in>set (tkz_values toknz). tk_type t \<noteq> TOKEN_CLASS" "length (tkz_values toknz) < fuel"
  shows "parse fuel toknz \<noteq> Inl Out_Of_Fuel"
  unfolding parse_def ends_def [symmetric]
  by (rule parse_loop_ends [OF assms(1)]) (simp_all add: parse_start_def remaining_def assms(2))

theorem parser_terminates_witness:
  "parse 20 (toknzr ''1 2 3 +; { print 1;'' True) \<noteq> Inl Out_Of_Fuel"
  by (rule parser_terminates; code_simp)

section \<open>Where it does not end, and what it misreads\<close>

lemma fun_statement_fails:
  assumes "node_data s = Inr t" "tk_type t \<noteq> TOKEN_IDENTIFIER" "tk_type t \<noteq> TOKEN_ENDOFFILE"
    "dec_digits (tk_line t) + length (shown_lexeme t) < 900"
  shows "fun_statement n dc ''method'' s = Inr (None, s\<lparr>pa_err := pa_err s @ [Report_Msg ''Expect method name.'']\<rparr>)"
  using assms by (simp add: fun_statement_def consume_ast_def parse_error_def LINEBUFSIZE_def)

text \<open>
  C33. A class body that continues with anything but a method name is never left: the method
  parser reports the error, returns NULL and consumes nothing, and the loop of
  \<^verbatim>\<open>class_statement\<close> calls it again at the same token, whatever the budget.
\<close>

theorem class_body_diverges:
  assumes "node_data s = Inr t" "tk_type t \<notin> {TOKEN_IDENTIFIER, TOKEN_RIGHT_BRACE, TOKEN_ENDOFFILE}"
    "dec_digits (tk_line t) + length (shown_lexeme t) < 900"
  shows "methods_loop fuel dc methods s = Inl Out_Of_Fuel"
  using assms(1)
proof (induction fuel arbitrary: s methods)
  case (Suc fuel)
  have "node_data (s\<lparr>pa_err := e\<rparr>) = Inr t" for e
    using Suc.prems by (simp add: node_data_def split: if_splits)
  then show ?case
    using Suc assms(2,3) by (simp add: fun_statement_fails)
qed simp

definition class_tokens :: "Token list" where
  "class_tokens = [token_simple TOKEN_NUMBER 1 10 ''1'', token_simple TOKEN_RIGHT_BRACE 1 12 ''}'',
     token_simple TOKEN_ENDOFFILE 1 13 ''EOF'']"

theorem class_body_diverges_witness:
  "methods_loop 1000 (declaration_ast 5) [] (parse_start class_tokens) = Inl Out_Of_Fuel"
  by (rule class_body_diverges [where t = "token_simple TOKEN_NUMBER 1 10 ''1''"])
    (simp_all add: node_data_def parse_start_def class_tokens_def token_simple_def token_def shown_lexeme_def
      dec_digits.simps)

section \<open>Destroying trees\<close>

text \<open>
  The nodes of a tree, from the data type alone: the pointers a node keeps to other expressions
  are its operands and, for a call, the list of its arguments.
\<close>

fun operands :: "Expr \<Rightarrow> Expr option list" where
  "operands (Mk_Expr real order) = (case real of
       EXPR_BINARY _ l r \<Rightarrow> [l, r]
     | EXPR_GROUPING ex \<Rightarrow> [ex]
     | EXPR_UNARY _ ex \<Rightarrow> [ex]
     | EXPR_ASSIGNMENT _ ex \<Rightarrow> [ex]
     | EXPR_LOGICAL l r _ \<Rightarrow> [l, r]
     | EXPR_CALL callee _ _ \<Rightarrow> [callee]
     | EXPR_GET obj _ \<Rightarrow> [obj]
     | EXPR_SET obj _ v \<Rightarrow> [obj, v]
     | _ \<Rightarrow> [])"

fun arguments :: "Expr \<Rightarrow> Expr list" where
  "arguments (Mk_Expr (EXPR_CALL callee paren args) order) = args"
| "arguments e = []"

lemma operand_size [termination_simp]: "Some c \<in> set (operands e) \<Longrightarrow> size c < size e"
  by (cases e rule: operands.cases) (auto split: RealExpr.splits)

lemma argument_size [termination_simp]: "c \<in> set (arguments e) \<Longrightarrow> size c < size e"
  by (cases e rule: arguments.cases) (auto dest: size_list_estimation' [where f = size, OF _ order_refl])

text \<open>
  All nodes of a tree; the nodes at and below the arguments of the calls among its operands; the
  trees with no NULL among the operands; and those where no such call has an argument.
\<close>

fun nodes :: "Expr \<Rightarrow> Expr multiset" where
  "nodes e = add_mset e (\<Sum>c\<leftarrow>operands e. case c of None \<Rightarrow> {#} | Some c' \<Rightarrow> nodes c') + (\<Sum>c\<leftarrow>arguments e. nodes c)"

fun argument_nodes :: "Expr \<Rightarrow> Expr multiset" where
  "argument_nodes e = (\<Sum>c\<leftarrow>operands e. case c of None \<Rightarrow> {#} | Some c' \<Rightarrow> argument_nodes c') + (\<Sum>c\<leftarrow>arguments e. nodes c)"

fun complete :: "Expr \<Rightarrow> bool" where
  "complete e \<longleftrightarrow> list_all (\<lambda>c. case c of None \<Rightarrow> False | Some c' \<Rightarrow> complete c') (operands e)"

fun no_arguments_passed :: "Expr \<Rightarrow> bool" where
  "no_arguments_passed e \<longleftrightarrow>
     arguments e = [] \<and> list_all (\<lambda>c. case c of None \<Rightarrow> True | Some c' \<Rightarrow> no_arguments_passed c') (operands e)"

declare nodes.simps [simp del] argument_nodes.simps [simp del] complete.simps [simp del] no_arguments_passed.simps [simp del]

text \<open>A sequence in which every expression comes after its operands.\<close>

fun operands_first :: "Expr set \<Rightarrow> Expr list \<Rightarrow> bool" where
  "operands_first seen [] \<longleftrightarrow> True"
| "operands_first seen (e # es) \<longleftrightarrow> set (operands e) \<subseteq> Some ` seen \<and> operands_first (insert e seen) es"

definition freed_exprs :: "freed list \<Rightarrow> Expr list" where
  "freed_exprs fs = concat (map (\<lambda>f. case f of Fr_Expr e \<Rightarrow> [e] | _ \<Rightarrow> []) fs)"

lemma freed_exprs_simps [simp]:
  "freed_exprs [] = []" "freed_exprs (xs @ ys) = freed_exprs xs @ freed_exprs ys"
  "freed_exprs (Fr_Expr e # fs) = e # freed_exprs fs" "freed_exprs (Fr_List n # fs) = freed_exprs fs" "freed_exprs (literal_destroy l) = []"
  by (simp_all add: freed_exprs_def literal_destroy_def split: LiteralValue.split)

lemma operands_first_append [simp]:
  "operands_first D (xs @ ys) \<longleftrightarrow> operands_first D xs \<and> operands_first (D \<union> set xs) ys"
  by (induction xs arbitrary: D) simp_all

lemma operands_first_mono: "operands_first D xs \<Longrightarrow> D \<subseteq> D' \<Longrightarrow> operands_first D' xs"
proof (induction xs arbitrary: D D')
  case (Cons e xs)
  then have "set (operands e) \<subseteq> Some ` D" "operands_first (insert e D) xs" "insert e D \<subseteq> insert e D'" by auto
  then have "operands_first (insert e D') xs" "set (operands e) \<subseteq> Some ` D'"
    using Cons.IH image_mono [OF Cons.prems(2), of Some] by (blast, blast)
  then show ?case by simp
qed simp

lemma nodes_not_empty [simp]: "nodes e \<noteq> {#}"
  by (simp add: nodes.simps [of e])

lemma sum_list_empty: "sum_list xs = {#} \<longleftrightarrow> (\<forall>x\<in>set xs. x = {#})"
  by (induction xs) simp_all

lemma no_arguments_iff: "argument_nodes e = {#} \<longleftrightarrow> no_arguments_passed e"
proof (induction e rule: argument_nodes.induct)
  case (1 e)
  then have "(case c of None \<Rightarrow> {#} | Some c' \<Rightarrow> argument_nodes c') = {#} \<longleftrightarrow>
    (case c of None \<Rightarrow> True | Some c' \<Rightarrow> no_arguments_passed c')" if "c \<in> set (operands e)" for c
    using that by (auto split: option.split)
  then have "(\<Sum>c\<leftarrow>operands e. case c of None \<Rightarrow> {#} | Some c' \<Rightarrow> argument_nodes c') = {#} \<longleftrightarrow>
    list_all (\<lambda>c. case c of None \<Rightarrow> True | Some c' \<Rightarrow> no_arguments_passed c') (operands e)"
    by (simp add: list_all_iff sum_list_empty)
  moreover have "(\<Sum>c\<leftarrow>arguments e. nodes c) = {#} \<longleftrightarrow> arguments e = []"
    by (cases "arguments e") simp_all
  ultimately show ?case
    by (simp add: argument_nodes.simps [of e] no_arguments_passed.simps [of e] conj_commute)
qed

definition destroyed :: "Expr \<Rightarrow> Expr list \<Rightarrow> bool" where
  "destroyed e es \<longleftrightarrow> mset es + argument_nodes e = nodes e \<and> operands_first {} es \<and> e \<in> set es"

lemma destroyed_list:
  "list_all2 destroyed cs ess \<Longrightarrow> mset (concat ess) + (\<Sum>c\<leftarrow>cs. argument_nodes c) = (\<Sum>c\<leftarrow>cs. nodes c) \<and>
    operands_first D (concat ess) \<and> set cs \<subseteq> set (concat ess)"
proof (induction arbitrary: D rule: list_all2_induct)
  case (Cons c cs es ess)
  have "mset es + argument_nodes c = nodes c" "operands_first D es" "c \<in> set es"
    using Cons.hyps operands_first_mono [of "{}" es D] by (auto simp: destroyed_def)
  moreover have "mset (concat ess) + (\<Sum>c\<leftarrow>cs. argument_nodes c) = (\<Sum>c\<leftarrow>cs. nodes c)"
    "operands_first (D \<union> set es) (concat ess)" "set cs \<subseteq> set (concat ess)"
    using Cons.IH by simp_all
  ultimately show ?case by (auto simp: ac_simps)
qed simp

lemma destroyed_node:
  assumes "list_all2 destroyed cs ess" "operands e = map Some cs"
  shows "destroyed e (concat ess @ [e])"
proof -
  have "(\<Sum>c\<leftarrow>operands e. case c of None \<Rightarrow> {#} | Some c' \<Rightarrow> f c') = (\<Sum>c\<leftarrow>cs. f c)" for f :: "Expr \<Rightarrow> Expr multiset"
    by (simp add: assms(2) comp_def)
  then show ?thesis
    using destroyed_list [OF assms(1), of "{}"]
    by (auto simp: destroyed_def nodes.simps [of e] argument_nodes.simps [of e] assms(2) ac_simps)
qed

lemmas destroyed_nodes = destroyed_node [of "[]" "[]", simplified] destroyed_node [of "[c]" "[es]" for c es, simplified]
  destroyed_node [of "[c, c']" "[es, es']" for c c' es es', simplified]

lemma expr_destroy_nodes:
  "case e of None \<Rightarrow> expr_destroy e = Inl (Crash Null_Deref)
   | Some e' \<Rightarrow> if complete e' then \<exists>fs. expr_destroy e = Inr fs \<and> destroyed e' (freed_exprs fs)
      else expr_destroy e = Inl (Crash Null_Deref)"
proof (induction e rule: expr_destroy.induct)
  case (2 real order)
  then show ?case
    by (cases real)
      (auto simp: complete.simps [of "Mk_Expr r order" for r] intro!: destroyed_nodes split: option.splits if_splits)
qed simp

fun is_literal :: "Expr \<Rightarrow> bool" where
  "is_literal (Mk_Expr (EXPR_LITERAL l) order) = True"
| "is_literal e = False"

lemma expr_destroy_literals:
  "expr_destroy e = Inr fs \<Longrightarrow> count_list fs Fr_Literal = length (filter is_literal (freed_exprs fs))"
proof (induction e arbitrary: fs rule: expr_destroy.induct)
  case (2 real order)
  then show ?case
    by (cases real) (auto simp: literal_destroy_def freed_exprs_def elim!: bind_result_InrE split: LiteralValue.splits)
qed simp

text \<open>
  C38. \<^verbatim>\<open>expr_destroy\<close> succeeds exactly on the trees without a missing operand. The expressions it
  frees and the nodes at and below call arguments are then together all nodes of the tree, each
  once, and an expression is freed after its operands: so the arguments of calls are exactly what
  is leaked, and the whole tree is freed exactly when no call that is reached has an argument. The
  payload of a literal is freed once per freed literal. On any other tree, such as the missing initializer
  of a variable declaration, it dereferences NULL.
\<close>

theorem expr_destroy_frees:
  "(if complete e then \<exists>fs. expr_destroy (Some e) = Inr fs \<and> mset (freed_exprs fs) + argument_nodes e = nodes e
       \<and> operands_first {} (freed_exprs fs) \<and> (mset (freed_exprs fs) = nodes e) = no_arguments_passed e
       \<and> count_list fs Fr_Literal = length (filter is_literal (freed_exprs fs))
    else expr_destroy (Some e) = Inl (Crash Null_Deref))
   \<and> expr_destroy None = Inl (Crash Null_Deref)
   \<and> stmt_destroy (Some (STMT_VAR_DECLARATION None name)) = Inl (Crash Null_Deref)"
  using expr_destroy_nodes [of "Some e"] no_arguments_iff [of e] expr_destroy_literals [of "Some e"]
  by (auto simp: destroyed_def)

end
