(* ===== verification/Clox_Grammar.thy ===== *)
theory Clox_Grammar
  imports Clox_Parser_Props
begin

text \<open>
  The expression grammar of Lox as an inductive relation between token sequences and trees, and
  the proof that on the trees of its \<open>plain\<close> part the parser builds exactly the tree a
  derivation gives: precedence, left associativity and assignment targets come out as the
  grammar says. What is not plain is what the parser does not implement: \<^verbatim>\<open>this\<close>, \<^verbatim>\<open>super\<close>, chains of
  one logical operator, and calls with more than \<^verbatim>\<open>MAX_ARGS\<close> arguments.

  The levels are the functions of \<^verbatim>\<open>src/parse.c\<close>: 0 \<^verbatim>\<open>assignment\<close>, 1 \<^verbatim>\<open>logicOr\<close>, 2 \<^verbatim>\<open>logicAnd\<close>,
  3 \<^verbatim>\<open>equality\<close>, 4 \<^verbatim>\<open>comparison\<close>, 5 \<^verbatim>\<open>addition\<close>, 6 \<^verbatim>\<open>mutiplication\<close>, 7 \<^verbatim>\<open>unary\<close>, 8 \<^verbatim>\<open>call\<close>, 9 \<^verbatim>\<open>primary\<close>.
\<close>

section \<open>Grammar\<close>

definition binary_tokens :: "nat \<Rightarrow> TokenType list" where
  "binary_tokens n = (if n = 3 then [TOKEN_BANG_EQUAL, TOKEN_EQUAL_EQUAL]
     else if n = 4 then [TOKEN_GREATER, TOKEN_GREATER_EQUAL, TOKEN_LESS, TOKEN_LESS_EQUAL]
     else if n = 5 then [TOKEN_MINUS, TOKEN_PLUS]
     else if n = 6 then [TOKEN_SLASH, TOKEN_STAR] else [])"

definition logic_token :: "nat \<Rightarrow> TokenType" where
  "logic_token n = (if n = 1 then TOKEN_OR else TOKEN_AND)"

definition leaf_tree :: "Token \<Rightarrow> RealExpr option" where
  "leaf_tree t = (case tk_type t of
       TOKEN_TRUE \<Rightarrow> Some new_true
     | TOKEN_FALSE \<Rightarrow> Some new_false
     | TOKEN_NIL \<Rightarrow> Some new_nil
     | TOKEN_STRING \<Rightarrow> map_option (\<lambda>l. new_literal (LITERAL_STRING l) (length l + 1)) (tk_literal t)
     | TOKEN_NUMBER \<Rightarrow> map_option (\<lambda>l. new_literal (LITERAL_NUMBER (strtod l)) 8) (tk_literal t)
     | TOKEN_IDENTIFIER \<Rightarrow> Some (new_variable t)
     | _ \<Rightarrow> None)"

text \<open>
  The grammar of Lox, as the comments above the functions give it: \<^verbatim>\<open>and\<close> and \<^verbatim>\<open>or\<close> repeat and
  associate to the left like the arithmetic operators, a call has any number of arguments, and
  \<^verbatim>\<open>this\<close> and \<^verbatim>\<open>super.method\<close> are primary expressions.
\<close>

inductive lox :: "nat \<Rightarrow> Token list \<Rightarrow> Expr \<Rightarrow> bool" and lox_args :: "Token list \<Rightarrow> Expr list \<Rightarrow> bool" where
  l_leaf: "leaf_tree t = Some real \<Longrightarrow> lox 9 [t] (Mk_Expr real 0)"
| l_this: "tk_type t = TOKEN_THIS \<Longrightarrow> lox 9 [t] (Mk_Expr (EXPR_THIS t) 0)"
| l_super: "tk_type t = TOKEN_SUPER \<Longrightarrow> tk_type dot = TOKEN_DOT \<Longrightarrow> tk_type name = TOKEN_IDENTIFIER \<Longrightarrow>
    lox 9 [t, dot, name] (Mk_Expr (EXPR_SUPER t name) 0)"
| l_group: "tk_type lp = TOKEN_LEFT_PAREN \<Longrightarrow> lox 0 ts e \<Longrightarrow> tk_type rp = TOKEN_RIGHT_PAREN \<Longrightarrow>
    lox 9 (lp # ts @ [rp]) (Mk_Expr (EXPR_GROUPING (Some e)) 0)"
| l_call: "lox 8 ts f \<Longrightarrow> tk_type lp = TOKEN_LEFT_PAREN \<Longrightarrow> as = [] \<and> es = [] \<or> lox_args as es \<Longrightarrow>
    tk_type rp = TOKEN_RIGHT_PAREN \<Longrightarrow> lox 8 (ts @ lp # as @ [rp]) (Mk_Expr (EXPR_CALL (Some f) rp es) 0)"
| l_get: "lox 8 ts e \<Longrightarrow> tk_type dot = TOKEN_DOT \<Longrightarrow> tk_type name = TOKEN_IDENTIFIER \<Longrightarrow>
    lox 8 (ts @ [dot, name]) (Mk_Expr (EXPR_GET (Some e) name) 0)"
| l_unary: "tk_type t \<in> {TOKEN_MINUS, TOKEN_BANG} \<Longrightarrow> lox 7 ts e \<Longrightarrow>
    lox 7 (t # ts) (Mk_Expr (EXPR_UNARY t (Some e)) 0)"
| l_binary: "lox n ts e \<Longrightarrow> tk_type t \<in> set (binary_tokens n) \<Longrightarrow> lox (Suc n) ts' e' \<Longrightarrow>
    lox n (ts @ t # ts') (Mk_Expr (EXPR_BINARY t (Some e) (Some e')) 0)"
| l_logic: "n \<in> {1, 2} \<Longrightarrow> lox n ts e \<Longrightarrow> tk_type t = logic_token n \<Longrightarrow> lox (Suc n) ts' e' \<Longrightarrow>
    lox n (ts @ t # ts') (Mk_Expr (EXPR_LOGICAL (Some e) (Some e') t) 0)"
| l_assign: "tk_type name = TOKEN_IDENTIFIER \<Longrightarrow> tk_type eq = TOKEN_EQUAL \<Longrightarrow> lox 0 ts e \<Longrightarrow>
    lox 0 (name # eq # ts) (Mk_Expr (EXPR_ASSIGNMENT name (Some e)) 0)"
| l_set: "lox 8 ts e \<Longrightarrow> tk_type dot = TOKEN_DOT \<Longrightarrow> tk_type name = TOKEN_IDENTIFIER \<Longrightarrow>
    tk_type eq = TOKEN_EQUAL \<Longrightarrow> lox 0 ts' v \<Longrightarrow>
    lox 0 (ts @ dot # name # eq # ts') (Mk_Expr (EXPR_SET (Some e) name (Some v)) 0)"
| l_up: "lox (Suc n) ts e \<Longrightarrow> n < 9 \<Longrightarrow> lox n ts e"
| l_last: "lox 0 ts e \<Longrightarrow> lox_args ts [e]"
| l_more: "lox 0 ts e \<Longrightarrow> tk_type comma = TOKEN_COMMA \<Longrightarrow> lox_args ts' es \<Longrightarrow>
    lox_args (ts @ comma # ts') (e # es)"

text \<open>
  The trees within the limits of the parser. The left operand of a logical operator is not one of
  the same operator unless it is in parentheses, which are a node of their own.
\<close>

fun same_logical :: "Token \<Rightarrow> Expr option \<Rightarrow> bool" where
  "same_logical t (Some (Mk_Expr (EXPR_LOGICAL l r op) order)) \<longleftrightarrow> tk_type op = tk_type t"
| "same_logical t e \<longleftrightarrow> False"

fun plain_node :: "Expr \<Rightarrow> bool" where
  "plain_node (Mk_Expr real order) = (case real of
       EXPR_THIS _ \<Rightarrow> False
     | EXPR_SUPER _ _ \<Rightarrow> False
     | EXPR_CALL _ _ args \<Rightarrow> length args \<le> MAX_ARGS
     | EXPR_LOGICAL l _ op \<Rightarrow> \<not> same_logical op l
     | _ \<Rightarrow> True)"

fun plain :: "Expr \<Rightarrow> bool" where
  "plain e \<longleftrightarrow> plain_node e \<and> list_all (\<lambda>c. case c of None \<Rightarrow> True | Some c' \<Rightarrow> plain c') (operands e)
     \<and> list_all plain (arguments e)"

declare plain.simps [simp del]

lemmas plain_simps [simp] = plain.simps [of "Mk_Expr real order" for real order]

text \<open>
  The same grammar cut down to what the functions of the parser accept, the form in which the
  proof goes by induction: one \<^verbatim>\<open>or\<close> and one \<^verbatim>\<open>and\<close> per level, since their loops stop after the
  first, and up to nine arguments, since \<^verbatim>\<open>finish_call\<close> tests the count before it reads one more.
\<close>

inductive derives :: "nat \<Rightarrow> Token list \<Rightarrow> Expr \<Rightarrow> bool" and derives_args :: "Token list \<Rightarrow> Expr list \<Rightarrow> bool" where
  d_leaf: "leaf_tree t = Some real \<Longrightarrow> derives 9 [t] (Mk_Expr real 0)"
| d_group: "tk_type lp = TOKEN_LEFT_PAREN \<Longrightarrow> derives 0 ts e \<Longrightarrow> tk_type rp = TOKEN_RIGHT_PAREN \<Longrightarrow>
    derives 9 (lp # ts @ [rp]) (Mk_Expr (EXPR_GROUPING (Some e)) 0)"
| d_call0: "derives 8 ts f \<Longrightarrow> tk_type lp = TOKEN_LEFT_PAREN \<Longrightarrow> tk_type rp = TOKEN_RIGHT_PAREN \<Longrightarrow>
    derives 8 (ts @ [lp, rp]) (Mk_Expr (EXPR_CALL (Some f) rp []) 0)"
| d_call: "derives 8 ts f \<Longrightarrow> tk_type lp = TOKEN_LEFT_PAREN \<Longrightarrow> derives_args as es \<Longrightarrow> length es \<le> 9 \<Longrightarrow>
    tk_type rp = TOKEN_RIGHT_PAREN \<Longrightarrow> derives 8 (ts @ lp # as @ [rp]) (Mk_Expr (EXPR_CALL (Some f) rp es) 0)"
| d_get: "derives 8 ts e \<Longrightarrow> tk_type dot = TOKEN_DOT \<Longrightarrow> tk_type name = TOKEN_IDENTIFIER \<Longrightarrow>
    derives 8 (ts @ [dot, name]) (Mk_Expr (EXPR_GET (Some e) name) 0)"
| d_unary: "tk_type t \<in> {TOKEN_MINUS, TOKEN_BANG} \<Longrightarrow> derives 7 ts e \<Longrightarrow>
    derives 7 (t # ts) (Mk_Expr (EXPR_UNARY t (Some e)) 0)"
| d_binary: "derives n ts e \<Longrightarrow> tk_type t \<in> set (binary_tokens n) \<Longrightarrow> derives (Suc n) ts' e' \<Longrightarrow>
    derives n (ts @ t # ts') (Mk_Expr (EXPR_BINARY t (Some e) (Some e')) 0)"
| d_logic: "n \<in> {1, 2} \<Longrightarrow> derives (Suc n) ts e \<Longrightarrow> tk_type t = logic_token n \<Longrightarrow> derives (Suc n) ts' e' \<Longrightarrow>
    derives n (ts @ t # ts') (Mk_Expr (EXPR_LOGICAL (Some e) (Some e') t) 0)"
| d_assign: "tk_type name = TOKEN_IDENTIFIER \<Longrightarrow> tk_type eq = TOKEN_EQUAL \<Longrightarrow> derives 0 ts e \<Longrightarrow>
    derives 0 (name # eq # ts) (Mk_Expr (EXPR_ASSIGNMENT name (Some e)) 0)"
| d_set: "derives 8 ts e \<Longrightarrow> tk_type dot = TOKEN_DOT \<Longrightarrow> tk_type name = TOKEN_IDENTIFIER \<Longrightarrow>
    tk_type eq = TOKEN_EQUAL \<Longrightarrow> derives 0 ts' v \<Longrightarrow>
    derives 0 (ts @ dot # name # eq # ts') (Mk_Expr (EXPR_SET (Some e) name (Some v)) 0)"
| d_up: "derives (Suc n) ts e \<Longrightarrow> n < 9 \<Longrightarrow> derives n ts e"
| d_last: "derives 0 ts e \<Longrightarrow> derives_args ts [e]"
| d_more: "derives 0 ts e \<Longrightarrow> tk_type comma = TOKEN_COMMA \<Longrightarrow> derives_args ts' es \<Longrightarrow>
    derives_args (ts @ comma # ts') (e # es)"

text \<open>The plain part of the grammar is covered.\<close>

lemma derives_logic_left:
  assumes "derives n ts e" "n \<in> {1, 2}" "tk_type t = logic_token n" "\<not> same_logical t (Some e)"
  shows "derives (Suc n) ts e"
  using assms by (cases rule: derives.cases) (auto simp: binary_tokens_def)

lemma lox_derives:
  "lox n ts e \<Longrightarrow> plain e \<Longrightarrow> derives n ts e"
  "lox_args as es \<Longrightarrow> list_all plain es \<Longrightarrow> derives_args as es"
proof (induction rule: lox_lox_args.inducts)
  case (l_leaf t real)
  then show ?case by (intro d_leaf)
next
  case (l_call ts f lp as es rp)
  then show ?case using d_call0 [of ts f lp rp] d_call [of ts f lp as es rp] by (auto simp: MAX_ARGS_def)
next
  case (l_logic n ts e t ts' e')
  then show ?case by (intro d_logic derives_logic_left [of n ts e t]) auto
next
  case (l_up n ts e)
  then show ?case by (intro d_up [of n ts e])
qed (auto intro: derives_derives_args.intros)

section \<open>Positions\<close>

definition toks_at :: "PS \<Rightarrow> Token list \<Rightarrow> bool" where
  "toks_at s ts \<longleftrightarrow> drop (pa_pos s) (pa_tokens s) = ts"

definition skip :: "PS \<Rightarrow> nat \<Rightarrow> PS" where
  "skip s k = s\<lparr>pa_pos := pa_pos s + k\<rparr>"

lemma skip_skip [simp]: "skip (skip s a) b = skip s (a + b)" "skip s 0 = s"
  by (simp_all add: skip_def add.assoc)

lemma remaining_at: "toks_at s ts \<Longrightarrow> remaining s = length ts"
  by (auto simp: toks_at_def remaining_def)

lemma at_skip: "toks_at s (ts @ rest) \<Longrightarrow> toks_at (skip s (length ts)) rest"
  by (auto simp: toks_at_def skip_def simp flip: drop_drop) (metis add.commute append_eq_conv_conj drop_drop)

lemma at_Cons:
  assumes "toks_at s (t # ts)"
  shows "node_data s = Inr t" "next_node s = Inr (skip s (Suc 0))" "toks_at (skip s (Suc 0)) ts"
    "ts \<noteq> [] \<Longrightarrow> prev_data (skip s (Suc 0)) = Inr t"
proof -
  from assms have d: "drop (pa_pos s) (pa_tokens s) = t # ts" by (simp add: toks_at_def)
  then have "pa_pos s < length (pa_tokens s)" "pa_tokens s ! pa_pos s = t" "drop (Suc (pa_pos s)) (pa_tokens s) = ts"
    by (metis drop_eq_Nil linorder_not_less list.simps(3), metis nth_via_drop, metis drop_Suc list.sel(3) tl_drop)
  then show "node_data s = Inr t" "next_node s = Inr (skip s (Suc 0))" "toks_at (skip s (Suc 0)) ts"
    "ts \<noteq> [] \<Longrightarrow> prev_data (skip s (Suc 0)) = Inr t"
    by (auto simp: node_data_def next_node_def toks_at_def skip_def prev_data_def)
qed

lemma at_consume:
  "toks_at s (t # ts) \<Longrightarrow> ts \<noteq> [] \<Longrightarrow> tk_type t = type \<Longrightarrow> consume_ast type msg s = Inr (Some t, skip s (Suc 0))"
  by (simp add: consume_ast_def at_Cons)

lemma at_match:
  "toks_at s (t # ts) \<Longrightarrow> match_ast (tk_type t) types s =
     (if tk_type t \<in> set types then Inr (True, skip s (Suc 0)) else Inr (False, s))"
  by (induction types) (auto simp: at_Cons)

section \<open>Levels\<close>

definition level :: "nat \<Rightarrow> nat \<Rightarrow> expr_parser" where
  "level n fuel = (let k = Suc fuel; pp = assignment fuel in
     if n = 0 then assignment k else if n = 1 then logicOr k pp else if n = 2 then logicAnd k pp
     else if n = 3 then equality k pp else if n = 4 then comparison k pp else if n = 5 then addition k pp
     else if n = 6 then mutiplication k pp else if n = 7 then unary_ast k pp else if n = 8 then call_ast k pp
     else primary pp)"

lemma level_binary:
  assumes "n \<in> {3, 4, 5, 6}"
  shows "level n fuel = binary_production (Suc fuel) (level (Suc n) fuel) (binary_tokens n)"
  using assms
  by (elim insertE emptyE)
    (simp_all add: level_def binary_tokens_def equality_def comparison_def addition_def mutiplication_def)

lemma level_logic:
  assumes "n \<in> {1, 2}"
  shows "level n fuel s = bind_result (level (Suc n) fuel s) (\<lambda>(expr, s1). bind_result (node_data s1) (\<lambda>tkn.
    logic_loop (Suc fuel) (logic_token n) (level (Suc n) fuel) tkn expr s1))"
  using assms
  by (elim insertE emptyE)
    (simp_all add: level_def logic_token_def logicOr_def logicAnd_def)

lemma level_total: "3 \<le> n \<Longrightarrow> n \<le> 7 \<Longrightarrow> total_upto fuel (level n fuel)"
proof -
  assume n: "3 \<le> n" "n \<le> 7"
  have u: "total_upto fuel (unary_ast (Suc fuel) (assignment fuel))"
    by (auto simp: total_upto_def intro!: asg.unary_ast_reaches simp del: unary_ast.simps)
  have "total_upto fuel (level (7 - k) fuel)" if "k \<le> 4" for k
    using that
  proof (induction k)
    case 0 with u show ?case by (simp add: level_def del: unary_ast.simps)
  next
    case (Suc k)
    then have "7 - Suc k \<in> {3, 4, 5, 6}" "Suc (7 - Suc k) = 7 - k" by auto
    with Suc show ?case by (simp add: level_binary binary_production_total)
  qed
  from this [of "7 - n"] n show ?thesis by simp
qed

text \<open>A loop counter above the number of remaining tokens does not matter.\<close>

lemma binary_loop_fuel:
  assumes "total_upto K rule_fn"
  shows "remaining s < n \<Longrightarrow> remaining s < m \<Longrightarrow> remaining s \<le> K \<Longrightarrow>
    binary_loop n rule_fn types e s = binary_loop m rule_fn types e s"
proof (induction n arbitrary: m s e)
  case (Suc n)
  then obtain m' where m: "m = Suc m'" by (cases m) auto
  have "binary_loop n rule_fn types e' s2 = binary_loop m' rule_fn types e' s2"
    if "match_ast type types s = Inr (True, s1)" "rule_fn s1 = Inr (r, s2)" for e' type s1 r s2
  proof -
    have "remaining s1 < remaining s" by (rule match_ast_True [OF that(1)])
    moreover have "ahead 0 s1 s2"
      using total_uptoD [OF assms, of s1] that(2) calculation Suc.prems by simp
    ultimately show ?thesis
      using Suc.prems m ahead_remaining [of 0 s1 s2] by (intro Suc.IH) auto
  qed
  then show ?case
    unfolding m binary_loop.simps bind_result_def
    by (auto split: sum.split prod.split)
qed simp

lemma finish_call_loop_fuel:
  "remaining s < n \<Longrightarrow> remaining s < m \<Longrightarrow> remaining s \<le> fuel \<Longrightarrow>
    finish_call_loop n (assignment fuel) callee arg args s = finish_call_loop m (assignment fuel) callee arg args s"
proof (induction n arbitrary: m s arg args)
  case (Suc n)
  then obtain m' where m: "m = Suc m'" by (cases m) auto
  have "finish_call_loop n (assignment fuel) callee a as s2 = finish_call_loop m' (assignment fuel) callee a as s2"
    if "next_node s = Inr s1" "assignment fuel s1 = Inr (a, s2) \<or> s2 = s1" for s1 a as s2
  proof -
    have s1: "remaining s1 < remaining s" using next_node_less [OF that(1)] by simp
    have "ahead 0 s1 s2"
      using asg.pp_reaches [of s1 fuel] that(2) s1 Suc.prems by auto
    then show ?thesis
      using Suc.prems m s1 ahead_remaining [of 0 s1 s2] by (intro Suc.IH) auto
  qed
  then show ?case
    unfolding m finish_call_loop.simps bind_result_def
    by (auto split: sum.split prod.split simp: Let_def)
qed simp

lemma call_loop_fuel:
  "remaining s < n \<Longrightarrow> remaining s < m \<Longrightarrow> remaining s \<le> fuel \<Longrightarrow>
    call_loop n (assignment fuel) e s = call_loop m (assignment fuel) e s"
proof (induction n arbitrary: m s e)
  case (Suc n)
  then obtain m' where m: "m = Suc m'" by (cases m) auto
  have again: "call_loop n (assignment fuel) e' s2 = call_loop m' (assignment fuel) e' s2"
    if "remaining s2 < remaining s" for e' s2
    by (rule Suc.IH) (use that Suc.prems m in auto)
  have finish: "finish_call (Suc n) (assignment fuel) e s = finish_call (Suc m') (assignment fuel) e s"
    unfolding finish_call_def
    using finish_call_loop_fuel [of s "Suc n" "Suc m'" fuel e None "[]"] Suc.prems m by simp
  have less: "remaining s2 < remaining s"
    if "node_data s = Inr t" "finish_call (Suc m') (assignment fuel) e s = Inr (r, s2)" for t r s2
    using asg.finish_call_advances [of s "Suc m'" fuel e] that Suc.prems m ahead_less [of s s2 t] by simp
  have get: "remaining s2 < remaining s"
    if "next_node s = Inr s1" "consume_ast type msg s1 = Inr (r, s2)" for s1 s2 r type msg
    using next_node_less [OF that(1)] consume_ast_runs [of s1 type msg] that(2) ahead_remaining [of 0 s1 s2] by simp
  show ?case
    unfolding m call_loop.simps finish bind_result_def
    by (auto split: sum.split prod.split intro!: again dest: less get)
qed simp

lemma call_ast_fuel:
  assumes "remaining s < n" "remaining s < m" "remaining s \<le> fuel"
  shows "call_ast n (assignment fuel) s = call_ast m (assignment fuel) s"
proof -
  have "call_loop n (assignment fuel) e s1 = call_loop m (assignment fuel) e s1"
    if "primary (assignment fuel) s = Inr (e, s1)" for e s1
    using asg.primary_reaches [OF assms(3)] that ahead_remaining [of 0 s s1] assms by (intro call_loop_fuel) auto
  then show ?thesis by (auto simp: call_ast_def bind_result_def split: sum.split)
qed

lemma unary_ast_fuel:
  "remaining s < n \<Longrightarrow> remaining s < m \<Longrightarrow> remaining s \<le> fuel \<Longrightarrow>
    unary_ast n (assignment fuel) s = unary_ast m (assignment fuel) s"
proof (induction n arbitrary: m s)
  case (Suc n)
  then obtain m' where m: "m = Suc m'" by (cases m) auto
  have again: "unary_ast n (assignment fuel) s1 = unary_ast m' (assignment fuel) s1"
    if "match_ast type types s = Inr (True, s1)" for type types s1
    using match_ast_True [OF that] Suc.prems m by (intro Suc.IH) auto
  have stay: "s1 = s" if "match_ast type types s = Inr (False, s1)" for type types s1
    using that by (induction types) (auto elim!: bind_result_InrE split: if_splits)
  have "call_ast (Suc n) (assignment fuel) s = call_ast (Suc m') (assignment fuel) s"
    by (rule call_ast_fuel) (use Suc.prems m in auto)
  then show ?case
    unfolding m unary_ast.simps
    by (auto simp: bind_result_def again split: sum.split prod.split simp del: match_ast.simps dest: stay)
qed simp

section \<open>The parser follows the grammar\<close>

definition consumed :: "nat \<Rightarrow> TokenType set" where
  "consumed n = (if n = 0 then {TOKEN_EQUAL} else if n \<in> {1, 2} then {logic_token n}
     else if n = 8 then {TOKEN_LEFT_PAREN, TOKEN_DOT} else set (binary_tokens n))"

text \<open>The token behind an expression of a level: none that a loop of that level or a deeper one takes.\<close>

definition stops :: "nat \<Rightarrow> TokenType \<Rightarrow> bool" where
  "stops n type \<longleftrightarrow> (\<forall>m\<in>{n..8}. type \<notin> consumed m)"

definition parses :: "nat \<Rightarrow> Token list \<Rightarrow> Expr \<Rightarrow> bool" where
  "parses n ts e \<longleftrightarrow> (\<forall>fuel s t rest. toks_at s (ts @ t # rest) \<longrightarrow> stops n (tk_type t) \<longrightarrow>
     remaining s \<le> fuel \<longrightarrow> level n fuel s = Inr (Some e, skip s (length ts)))"

text \<open>At a level with a loop, the loop goes on behind the expression.\<close>

definition level_loop :: "nat \<Rightarrow> nat \<Rightarrow> Expr option \<Rightarrow> expr_parser" where
  "level_loop n fuel = (if n = 8 then call_loop (Suc fuel) (assignment fuel)
     else binary_loop (Suc fuel) (level (Suc n) fuel) (binary_tokens n))"

definition prefixes :: "nat \<Rightarrow> Token list \<Rightarrow> Expr \<Rightarrow> bool" where
  "prefixes n ts e \<longleftrightarrow> (\<forall>fuel s t rest. toks_at s (ts @ t # rest) \<longrightarrow> stops (Suc n) (tk_type t) \<longrightarrow>
     remaining s \<le> fuel \<longrightarrow> level n fuel s = level_loop n fuel (Some e) (skip s (length ts)))"

abbreviation has_loop :: "nat \<Rightarrow> bool" where
  "has_loop n \<equiv> n \<in> {3, 4, 5, 6, 8}"

lemma stops_Suc: "stops n t \<Longrightarrow> stops (Suc n) t"
  by (auto simp: stops_def)

lemma stops_consumed: "stops n t \<Longrightarrow> n \<le> 8 \<Longrightarrow> t \<notin> consumed n"
  by (auto simp: stops_def)

lemma parsesD:
  "parses n ts e \<Longrightarrow> toks_at s (ts @ t # rest) \<Longrightarrow> stops n (tk_type t) \<Longrightarrow> remaining s \<le> fuel \<Longrightarrow>
    level n fuel s = Inr (Some e, skip s (length ts))"
  unfolding parses_def by blast

lemma prefixesD:
  "prefixes n ts e \<Longrightarrow> toks_at s (ts @ t # rest) \<Longrightarrow> stops (Suc n) (tk_type t) \<Longrightarrow> remaining s \<le> fuel \<Longrightarrow>
    level n fuel s = level_loop n fuel (Some e) (skip s (length ts))"
  unfolding prefixes_def by blast

lemma prefixes_parses:
  assumes "prefixes n ts e" "has_loop n"
  shows "parses n ts e"
  unfolding parses_def
proof (intro allI impI)
  fix fuel s t rest
  assume s: "toks_at s (ts @ t # rest)" "stops n (tk_type t)" "remaining s \<le> fuel"
  have t: "tk_type t \<notin> consumed n" by (rule stops_consumed) (use s assms(2) in auto)
  have at: "toks_at (skip s (length ts)) (t # rest)" by (rule at_skip) (rule s)
  have "level n fuel s = level_loop n fuel (Some e) (skip s (length ts))"
    by (rule prefixesD [OF assms(1) s(1) stops_Suc [OF s(2)] s(3)])
  also have "\<dots> = Inr (Some e, skip s (length ts))"
    using t assms(2) by (auto simp: level_loop_def consumed_def at_Cons [OF at] at_match [OF at])
  finally show "level n fuel s = Inr (Some e, skip s (length ts))" .
qed

lemma stops_concrete:
  "stops 0 TOKEN_RIGHT_PAREN" "stops 0 TOKEN_COMMA" "stops 0 TOKEN_SEMICOLON" "stops (Suc 0) TOKEN_EQUAL"
  "stops 9 t"
  by (auto simp: stops_def consumed_def binary_tokens_def logic_token_def split: if_splits)

lemma stops_binary: "t \<in> set (binary_tokens n) \<Longrightarrow> stops (Suc n) t"
  by (auto simp: stops_def consumed_def binary_tokens_def logic_token_def split: if_splits)

lemma stops_logic: "n \<in> {1, 2} \<Longrightarrow> stops (Suc n) (logic_token n)"
  by (auto simp: stops_def consumed_def binary_tokens_def logic_token_def split: if_splits)

lemma stops_get: "stops 9 t" "t \<in> {TOKEN_DOT, TOKEN_LEFT_PAREN} \<Longrightarrow> stops 9 t"
  by (simp_all add: stops_def)

text \<open>The first token of an expression.\<close>

definition starts :: "nat \<Rightarrow> TokenType \<Rightarrow> bool" where
  "starts n type \<longleftrightarrow> type \<notin> {TOKEN_OR, TOKEN_AND, TOKEN_RIGHT_PAREN} \<and> (8 \<le> n \<longrightarrow> type \<notin> {TOKEN_MINUS, TOKEN_BANG})"

lemma leaf_starts: "leaf_tree t = Some real \<Longrightarrow> starts n (tk_type t)"
  by (auto simp: leaf_tree_def starts_def split: TokenType.splits)

lemma binary_tokens_level: "t \<in> set (binary_tokens n) \<Longrightarrow> n \<in> {3, 4, 5, 6}"
  by (auto simp: binary_tokens_def split: if_splits)

lemma derives_starts:
  "derives n ts e \<Longrightarrow> ts \<noteq> [] \<and> starts n (tk_type (hd ts))"
  "derives_args ts es \<Longrightarrow> ts \<noteq> [] \<and> starts 0 (tk_type (hd ts))"
proof (induction rule: derives_derives_args.inducts)
  case (d_leaf t real)
  then show ?case by (simp add: leaf_starts)
next
  case (d_binary n ts e t ts' e')
  then show ?case by (auto simp: starts_def dest!: binary_tokens_level)
qed (auto simp: starts_def)

section \<open>One rule at a time\<close>

lemma pp_parses:
  assumes "parses 0 ts e" "toks_at s (ts @ t # rest)" "stops 0 (tk_type t)" "remaining s < fuel"
  shows "assignment fuel s = Inr (Some e, skip s (length ts))"
proof -
  obtain f where f: "fuel = Suc f" using assms(4) by (cases fuel) auto
  then show ?thesis
    using parsesD [OF assms(1-3), of f] assms(4) by (simp add: level_def)
qed

lemma parses_leaf:
  assumes "leaf_tree t = Some real"
  shows "parses 9 [t] (Mk_Expr real 0)"
  unfolding parses_def
proof (intro allI impI)
  fix fuel s t' rest
  assume "toks_at s ([t] @ t' # rest)"
  then have at: "toks_at s (t # t' # rest)" by simp
  show "level 9 fuel s = Inr (Some (Mk_Expr real 0), skip s (length [t]))"
    using assms
    by (auto simp: level_def primary_def at_Cons [OF at] leaf_def new_expr_def leaf_tree_def split: TokenType.splits)
qed

lemma parses_group:
  assumes "tk_type lp = TOKEN_LEFT_PAREN" "parses 0 ts e" "tk_type rp = TOKEN_RIGHT_PAREN"
  shows "parses 9 (lp # ts @ [rp]) (Mk_Expr (EXPR_GROUPING (Some e)) 0)"
  unfolding parses_def
proof (intro allI impI)
  fix fuel s t rest
  assume "toks_at s ((lp # ts @ [rp]) @ t # rest)" and r: "remaining s \<le> fuel"
  then have at: "toks_at s (lp # ts @ rp # t # rest)" by simp
  note at1 = at_Cons(3) [OF at] and at2 = at_skip [OF at_Cons(3) [OF at], simplified]
  have "remaining (skip s (Suc 0)) < fuel"
    using r by (simp add: remaining_at [OF at] remaining_at [OF at1])
  note inner = pp_parses [OF assms(2) at1 _ this]
  show "level 9 fuel s = Inr (Some (Mk_Expr (EXPR_GROUPING (Some e)) 0), skip s (length (lp # ts @ [rp])))"
    using assms(1,3)
    by (simp add: level_def primary_def primary_grouping_def at_Cons [OF at] inner stops_concrete
        at_consume [OF at2] new_expr_def new_grouping_def)
qed

lemma prefixes_up:
  assumes "parses (Suc n) ts e" "has_loop n"
  shows "prefixes n ts e"
  unfolding prefixes_def
proof (intro allI impI)
  fix fuel s t rest
  assume s: "toks_at s (ts @ t # rest)" "stops (Suc n) (tk_type t)" "remaining s \<le> fuel"
  note operand = parsesD [OF assms(1) s]
  consider "n \<in> {3, 4, 5, 6}" "n \<noteq> 8" | "n = 8" using assms(2) by auto
  then show "level n fuel s = level_loop n fuel (Some e) (skip s (length ts))"
  proof cases
    case 1
    then show ?thesis
      by (simp only: level_binary level_loop_def binary_production_def operand bind_result_Inr prod.case if_False)
  next
    case 2
    with operand have "primary (assignment fuel) s = Inr (Some e, skip s (length ts))" by (simp add: level_def)
    with 2 show ?thesis by (simp add: level_loop_def level_def call_ast_def)
  qed
qed

lemma prefixes_binary:
  assumes "prefixes n ts e" "tk_type t \<in> set (binary_tokens n)" "parses (Suc n) ts' e'"
  shows "prefixes n (ts @ t # ts') (Mk_Expr (EXPR_BINARY t (Some e) (Some e')) 0)"
  unfolding prefixes_def
proof (intro allI impI)
  fix fuel s t' rest
  assume at: "toks_at s ((ts @ t # ts') @ t' # rest)" and t': "stops (Suc n) (tk_type t')" and r: "remaining s \<le> fuel"
  have n: "n \<in> {3, 4, 5, 6}" by (rule binary_tokens_level [OF assms(2)])
  have at0: "toks_at s (ts @ t # ts' @ t' # rest)" using at by simp
  define s1 where "s1 = skip s (length ts)"
  have at1: "toks_at s1 (t # ts' @ t' # rest)" unfolding s1_def by (rule at_skip [OF at0])
  have at2: "toks_at (skip s1 (Suc 0)) (ts' @ t' # rest)" by (rule at_Cons [OF at1])
  have small: "remaining (skip s1 (Suc 0)) \<le> fuel" "remaining s1 \<le> fuel" "remaining s1 \<noteq> 0"
    using r by (simp_all add: remaining_at [OF at0] remaining_at [OF at1] remaining_at [OF at2])
  let ?e = "Some (Mk_Expr (EXPR_BINARY t (Some e) (Some e')) 0)" and ?rule = "level (Suc n) fuel"
  have s2: "remaining (skip s1 (Suc (length ts'))) < fuel"
    using r at_skip [OF at2, THEN remaining_at] by (simp add: remaining_at [OF at0])
  have "level n fuel s = level_loop n fuel (Some e) s1"
    unfolding s1_def by (rule prefixesD [OF assms(1) at0 stops_binary [OF assms(2)] r])
  also have "\<dots> = binary_loop (Suc fuel) ?rule (binary_tokens n) (Some e) s1"
    using n by (auto simp: level_loop_def)
  also have "\<dots> = binary_loop fuel ?rule (binary_tokens n) ?e (skip s1 (Suc (length ts')))"
    using assms(2) by (simp add: at_Cons [OF at1] at_match [OF at1] parsesD [OF assms(3) at2 t' small(1)]
        new_expr_def new_binary_def)
  also have "\<dots> = binary_loop (Suc fuel) ?rule (binary_tokens n) ?e (skip s1 (Suc (length ts')))"
    by (rule binary_loop_fuel [OF level_total]) (use n s2 in auto)
  also have "\<dots> = level_loop n fuel ?e (skip s (length (ts @ t # ts')))"
    using n by (auto simp: level_loop_def s1_def)
  finally show "level n fuel s = level_loop n fuel ?e (skip s (length (ts @ t # ts')))" .
qed

lemma prefixes_get:
  assumes "prefixes 8 ts e" "tk_type dot = TOKEN_DOT" "tk_type name = TOKEN_IDENTIFIER"
  shows "prefixes 8 (ts @ [dot, name]) (Mk_Expr (EXPR_GET (Some e) name) 0)"
  unfolding prefixes_def
proof (intro allI impI)
  fix fuel s t rest
  assume at: "toks_at s ((ts @ [dot, name]) @ t # rest)" and r: "remaining s \<le> fuel"
  have at0: "toks_at s (ts @ dot # name # t # rest)" using at by simp
  define s1 where "s1 = skip s (length ts)"
  have at1: "toks_at s1 (dot # name # t # rest)" unfolding s1_def by (rule at_skip [OF at0])
  have at2: "toks_at (skip s1 (Suc 0)) (name # t # rest)" by (rule at_Cons [OF at1])
  have s2: "remaining (skip s1 (Suc (Suc 0))) < fuel"
    using r at_Cons(3) [OF at2, THEN remaining_at] by (simp add: remaining_at [OF at0])
  let ?e = "Some (Mk_Expr (EXPR_GET (Some e) name) 0)"
  have "level 8 fuel s = call_loop (Suc fuel) (assignment fuel) (Some e) s1"
    using prefixesD [OF assms(1) at0 _ r] by (simp add: s1_def stops_concrete level_loop_def)
  also have "\<dots> = call_loop fuel (assignment fuel) ?e (skip s1 (Suc (Suc 0)))"
    using assms(2,3) by (simp add: at_Cons [OF at1] at_consume [OF at2] new_expr_def)
  also have "\<dots> = call_loop (Suc fuel) (assignment fuel) ?e (skip s1 (Suc (Suc 0)))"
    by (rule call_loop_fuel) (use s2 in auto)
  finally show "level 8 fuel s = level_loop 8 fuel ?e (skip s (length (ts @ [dot, name])))"
    by (simp add: level_loop_def s1_def)
qed

text \<open>The arguments of a call, read from the parenthesis or comma before them.\<close>

definition parses_args :: "Token list \<Rightarrow> Expr list \<Rightarrow> bool" where
  "parses_args as es \<longleftrightarrow> (\<forall>fuel k s x rp rest callee arg args.
     toks_at s (x # as @ rp # rest) \<longrightarrow> tk_type rp = TOKEN_RIGHT_PAREN \<longrightarrow> length args + length es \<le> 9 \<longrightarrow>
     remaining s \<le> fuel \<longrightarrow> remaining s < k \<longrightarrow>
     finish_call_loop k (assignment fuel) callee arg args s = Inr (Some (args @ es), skip s (Suc (length as))))"

lemma parses_argsD:
  "parses_args as es \<Longrightarrow> toks_at s (x # as @ rp # rest) \<Longrightarrow> tk_type rp = TOKEN_RIGHT_PAREN \<Longrightarrow>
   length args + length es \<le> 9 \<Longrightarrow> remaining s \<le> fuel \<Longrightarrow> remaining s < k \<Longrightarrow>
   finish_call_loop k (assignment fuel) callee arg args s = Inr (Some (args @ es), skip s (Suc (length as)))"
  unfolding parses_args_def by blast

text \<open>One round of the argument loop.\<close>

lemma finish_call_round:
  assumes "parses 0 ts e" "ts \<noteq> []" "starts 0 (tk_type (hd ts))" "toks_at s (x # ts @ t # rest)"
    "tk_type t \<in> {TOKEN_COMMA, TOKEN_RIGHT_PAREN}" "length args \<le> 8" "remaining s \<le> fuel"
  shows "finish_call_loop (Suc k) (assignment fuel) callee arg args s =
    (if tk_type t = TOKEN_COMMA
     then finish_call_loop k (assignment fuel) callee (Some e) (args @ [e]) (skip s (Suc (length ts)))
     else Inr (Some (args @ [e]), skip s (Suc (length ts))))"
proof -
  note at = assms(4)
  have at1: "toks_at (skip s (Suc 0)) (ts @ t # rest)" by (rule at_Cons [OF at])
  obtain t0 ts0 where ts: "ts = t0 # ts0" using assms(2) by (cases ts) auto
  have at1': "toks_at (skip s (Suc 0)) (t0 # ts0 @ t # rest)" using at1 ts by simp
  have small: "remaining (skip s (Suc 0)) < fuel"
    using assms(7) by (simp add: remaining_at [OF at] remaining_at [OF at1])
  have "stops 0 (tk_type t)" using assms(5) stops_concrete by auto
  note inner = pp_parses [OF assms(1) at1 this small]
  have t0: "tk_type t0 \<noteq> TOKEN_RIGHT_PAREN" using assms(3) ts by (simp add: starts_def)
  show ?thesis
    using assms(6) t0 inner
    by (simp add: at_Cons [OF at] at_Cons [OF at1'] at_Cons [OF at_skip [OF at1, simplified]] MAX_ARGS_def Let_def)
qed

lemma parses_args_last:
  assumes "parses 0 ts e" "ts \<noteq> []" "starts 0 (tk_type (hd ts))"
  shows "parses_args ts [e]"
  unfolding parses_args_def
proof (intro allI impI)
  fix fuel k s x rp rest callee arg and args :: "Expr list"
  assume s: "toks_at s (x # ts @ rp # rest)" "tk_type rp = TOKEN_RIGHT_PAREN" "length args + length [e] \<le> 9"
    "remaining s \<le> fuel" "remaining s < k"
  obtain k' where "k = Suc k'" using s(5) by (cases k) auto
  then show "finish_call_loop k (assignment fuel) callee arg args s = Inr (Some (args @ [e]), skip s (Suc (length ts)))"
    using finish_call_round [OF assms s(1), of args fuel k' callee arg] s(2-4) by simp
qed

lemma parses_args_more:
  assumes "parses 0 ts e" "ts \<noteq> []" "starts 0 (tk_type (hd ts))" "tk_type comma = TOKEN_COMMA" "parses_args ts' es"
  shows "parses_args (ts @ comma # ts') (e # es)"
  unfolding parses_args_def
proof (intro allI impI)
  fix fuel k s x rp rest callee arg and args :: "Expr list"
  assume s: "toks_at s (x # (ts @ comma # ts') @ rp # rest)" "tk_type rp = TOKEN_RIGHT_PAREN"
    "length args + length (e # es) \<le> 9" "remaining s \<le> fuel" "remaining s < k"
  have at: "toks_at s (x # ts @ comma # ts' @ rp # rest)" using s(1) by simp
  have at1: "toks_at (skip s (Suc (length ts))) (comma # ts' @ rp # rest)"
    using at_skip [of s "x # ts"] at by simp
  obtain k' where k: "k = Suc k'" using s(5) by (cases k) auto
  have small: "remaining (skip s (Suc (length ts))) \<le> fuel" "remaining (skip s (Suc (length ts))) < k'"
    using s(4,5) k by (simp_all add: remaining_at [OF at] remaining_at [OF at1])
  show "finish_call_loop k (assignment fuel) callee arg args s =
      Inr (Some (args @ e # es), skip s (Suc (length (ts @ comma # ts'))))"
    using finish_call_round [OF assms(1-3) at, of args fuel k' callee arg] s(3,4) assms(4) k
      parses_argsD [OF assms(5) at1 s(2) _ small, of "args @ [e]"] by simp
qed

lemma prefixes_call:
  assumes f: "prefixes 8 ts f" and lp: "tk_type lp = TOKEN_LEFT_PAREN" and rp: "tk_type rp = TOKEN_RIGHT_PAREN"
    and args: "\<And>s t rest fuel. toks_at s (lp # as @ rp # t # rest) \<Longrightarrow> remaining s \<le> fuel \<Longrightarrow>
      finish_call_loop (Suc fuel) (assignment fuel) (Some f) None [] s = Inr (Some es, skip s (Suc (length as)))"
  shows "prefixes 8 (ts @ lp # as @ [rp]) (Mk_Expr (EXPR_CALL (Some f) rp es) 0)"
  unfolding prefixes_def
proof (intro allI impI)
  fix fuel s t rest
  assume at: "toks_at s ((ts @ lp # as @ [rp]) @ t # rest)" and r: "remaining s \<le> fuel"
  have at0: "toks_at s (ts @ lp # as @ rp # t # rest)" using at by simp
  define s1 where "s1 = skip s (length ts)"
  have at1: "toks_at s1 (lp # as @ rp # t # rest)" unfolding s1_def by (rule at_skip [OF at0])
  have at2: "toks_at (skip s1 (Suc (length as))) (rp # t # rest)" using at_skip [of s1 "lp # as"] at1 by simp
  have small: "remaining s1 \<le> fuel" "remaining (skip s1 (Suc (Suc (length as)))) < fuel"
    using r at_Cons(3) [OF at2, THEN remaining_at] by (simp_all add: remaining_at [OF at0] remaining_at [OF at1])
  let ?e = "Some (Mk_Expr (EXPR_CALL (Some f) rp es) 0)"
  have "level 8 fuel s = call_loop (Suc fuel) (assignment fuel) (Some f) s1"
    using prefixesD [OF f at0 _ r] by (simp add: s1_def stops_concrete level_loop_def)
  also have "\<dots> = call_loop fuel (assignment fuel) ?e (skip s1 (Suc (Suc (length as))))"
    using lp rp args [OF at1 small(1)]
    by (simp add: at_Cons [OF at1] finish_call_def at_consume [OF at2] new_expr_def new_call_def
        del: finish_call_loop.simps)
  also have "\<dots> = call_loop (Suc fuel) (assignment fuel) ?e (skip s1 (Suc (Suc (length as))))"
    by (rule call_loop_fuel) (use small in auto)
  finally show "level 8 fuel s = level_loop 8 fuel ?e (skip s (length (ts @ lp # as @ [rp])))"
    by (simp add: level_loop_def s1_def)
qed

lemma no_arguments:
  assumes "toks_at s (lp # [] @ rp # t # rest)" "tk_type rp = TOKEN_RIGHT_PAREN"
  shows "finish_call_loop (Suc fuel) pp callee None [] s = Inr (Some [], skip s (Suc (length [])))"
proof -
  have at: "toks_at s (lp # rp # t # rest)" using assms(1) by simp
  then show ?thesis
    using assms(2) by (simp add: at_Cons [OF at] at_Cons [OF at_Cons(3) [OF at]])
qed

lemma parses_unary:
  assumes "tk_type t \<in> {TOKEN_MINUS, TOKEN_BANG}" "parses 7 ts e"
  shows "parses 7 (t # ts) (Mk_Expr (EXPR_UNARY t (Some e)) 0)"
  unfolding parses_def
proof (intro allI impI)
  fix fuel s t' rest
  assume s: "toks_at s ((t # ts) @ t' # rest)" "stops 7 (tk_type t')" "remaining s \<le> fuel"
  have at: "toks_at s (t # ts @ t' # rest)" using s(1) by simp
  have at1: "toks_at (skip s (Suc 0)) (ts @ t' # rest)" by (rule at_Cons [OF at])
  have small: "remaining (skip s (Suc 0)) < fuel"
    using s(3) by (simp add: remaining_at [OF at] remaining_at [OF at1])
  have "unary_ast fuel (assignment fuel) (skip s (Suc 0)) = level 7 fuel (skip s (Suc 0))"
    using unary_ast_fuel [of "skip s (Suc 0)" fuel "Suc fuel" fuel] small by (simp add: level_def del: unary_ast.simps)
  also have "\<dots> = Inr (Some e, skip s (Suc (length ts)))"
    using parsesD [OF assms(2) at1 s(2)] small by simp
  finally have "unary_ast fuel (assignment fuel) (skip s (Suc 0)) = Inr (Some e, skip s (Suc (length ts)))" .
  then show "level 7 fuel s = Inr (Some (Mk_Expr (EXPR_UNARY t (Some e)) 0), skip s (length (t # ts)))"
    using assms(1) by (auto simp: level_def at_Cons [OF at] at_match [OF at] new_expr_def new_unary_def
        simp del: match_ast.simps)
qed

lemma unary_up:
  assumes "parses 8 ts e" "ts \<noteq> []" "starts 8 (tk_type (hd ts))"
  shows "parses 7 ts e"
  unfolding parses_def
proof (intro allI impI)
  fix fuel s t rest
  assume s: "toks_at s (ts @ t # rest)" "stops 7 (tk_type t)" "remaining s \<le> fuel"
  have "stops 8 (tk_type t)" using s(2) by (auto simp: stops_def)
  note operand = parsesD [OF assms(1) s(1) this s(3)]
  obtain t0 ts0 where ts: "ts = t0 # ts0" using assms(2) by (cases ts) auto
  with s(1) have at: "toks_at s (t0 # ts0 @ t # rest)" by simp
  show "level 7 fuel s = Inr (Some e, skip s (length ts))"
    using operand assms(3) ts by (simp add: level_def at_Cons [OF at] at_match [OF at] starts_def)
qed

lemma logic_up:
  assumes "parses (Suc n) ts e" "n \<in> {1, 2}"
  shows "parses n ts e"
  unfolding parses_def
proof (intro allI impI)
  fix fuel s t rest
  assume s: "toks_at s (ts @ t # rest)" "stops n (tk_type t)" "remaining s \<le> fuel"
  have t: "tk_type t \<noteq> logic_token n" using stops_consumed [OF s(2)] assms(2) by (auto simp: consumed_def)
  show "level n fuel s = Inr (Some e, skip s (length ts))"
    unfolding level_logic [OF assms(2)] parsesD [OF assms(1) s(1) stops_Suc [OF s(2)] s(3)]
    using t by (simp add: at_Cons [OF at_skip [OF s(1)]])
qed

lemma assignment_up:
  assumes "parses (Suc 0) ts e"
  shows "parses 0 ts e"
  unfolding parses_def
proof (intro allI impI)
  fix fuel s t rest
  assume s: "toks_at s (ts @ t # rest)" "stops 0 (tk_type t)" "remaining s \<le> fuel"
  have t: "tk_type t \<noteq> TOKEN_EQUAL" using stops_consumed [OF s(2)] by (simp add: consumed_def)
  show "level 0 fuel s = Inr (Some e, skip s (length ts))"
    using t parsesD [OF assms s(1) stops_Suc [OF s(2)] s(3)]
    by (simp add: level_def assignment_body_def at_Cons [OF at_skip [OF s(1)]])
qed

text \<open>
  The loop tests the token behind the operator again, never the token behind the right operand:
  the function returns there, also at a second operator of its own.
\<close>

lemma level_logical:
  assumes n: "n \<in> {1, 2}" and l: "parses (Suc n) ts e" and t: "tk_type t = logic_token n"
    and r: "parses (Suc n) ts' e'" "ts' \<noteq> []" "starts k (tk_type (hd ts'))"
    and s: "toks_at s ((ts @ t # ts') @ t' # rest)" "stops (Suc n) (tk_type t')" "remaining s \<le> fuel"
  shows "level n fuel s = Inr (Some (Mk_Expr (EXPR_LOGICAL (Some e) (Some e') t) 0), skip s (length (ts @ t # ts')))"
proof -
  have at: "toks_at s (ts @ t # ts' @ t' # rest)" using s(1) by simp
  define s1 where "s1 = skip s (length ts)"
  have at1: "toks_at s1 (t # ts' @ t' # rest)" unfolding s1_def by (rule at_skip [OF at])
  have at2: "toks_at (skip s1 (Suc 0)) (ts' @ t' # rest)" by (rule at_Cons [OF at1])
  obtain t0 ts0 where ts': "ts' = t0 # ts0" using r(2) by (cases ts') auto
  have at2': "toks_at (skip s1 (Suc 0)) (t0 # ts0 @ t' # rest)" using at2 ts' by simp
  have t0: "tk_type t0 \<noteq> logic_token n" using r(3) ts' by (auto simp: starts_def logic_token_def)
  have small: "remaining (skip s1 (Suc 0)) \<le> fuel" "0 < fuel"
    using s(3) by (simp_all add: remaining_at [OF at] remaining_at [OF at2])
  obtain f where f: "fuel = Suc f" using small(2) by (cases fuel) auto
  have left: "level (Suc n) fuel s = Inr (Some e, s1)"
    using parsesD [OF l at _ s(3)] stops_logic [OF n] t by (simp add: s1_def)
  have right: "level (Suc n) fuel (skip s1 (Suc 0)) = Inr (Some e', skip s1 (Suc (length ts')))"
    using parsesD [OF r(1) at2 s(2) small(1)] by simp
  have "level n fuel s = Inr (Some (Mk_Expr (EXPR_LOGICAL (Some e) (Some e') t) 0), skip s1 (Suc (length ts')))"
    unfolding level_logic [OF n] left
    using t t0 right by (simp add: at_Cons [OF at1] at_Cons [OF at2'] f new_logical_def new_expr_def)
  then show ?thesis by (simp add: s1_def)
qed

lemma parses_logic:
  assumes "n \<in> {1, 2}" "parses (Suc n) ts e" "tk_type t = logic_token n" "parses (Suc n) ts' e'" "ts' \<noteq> []"
    "starts k (tk_type (hd ts'))"
  shows "parses n (ts @ t # ts') (Mk_Expr (EXPR_LOGICAL (Some e) (Some e') t) 0)"
  unfolding parses_def using level_logical [OF assms] stops_Suc by blast

text \<open>An assignment, to a variable or to a property.\<close>

lemma parses_equal:
  assumes l: "parses (Suc 0) ts target" and eq: "tk_type eq = TOKEN_EQUAL" and v: "parses 0 ts' v"
    and target: "\<And>s. assign_target (Some target) (Some v) eq s = Inr (Some e, s)"
  shows "parses 0 (ts @ eq # ts') e"
  unfolding parses_def
proof (intro allI impI)
  fix fuel s t rest
  assume s: "toks_at s ((ts @ eq # ts') @ t # rest)" "stops 0 (tk_type t)" "remaining s \<le> fuel"
  have at: "toks_at s (ts @ eq # ts' @ t # rest)" using s(1) by simp
  have at1: "toks_at (skip s (length ts)) (eq # ts' @ t # rest)" by (rule at_skip [OF at])
  have at2: "toks_at (skip s (Suc (length ts))) (ts' @ t # rest)" using at_Cons(3) [OF at1] by simp
  have small: "remaining (skip s (Suc (length ts))) < fuel"
    using s(3) by (simp add: remaining_at [OF at] remaining_at [OF at2])
  have "logicOr (Suc fuel) (assignment fuel) s = Inr (Some target, skip s (length ts))"
    using parsesD [OF l at _ s(3)] stops_concrete eq by (simp add: level_def)
  then show "level 0 fuel s = Inr (Some e, skip s (length (ts @ eq # ts')))"
    using pp_parses [OF v at2 s(2) small] eq
    by (simp add: level_def assignment_body_def at_Cons [OF at1] target)
qed

section \<open>The whole grammar\<close>

definition follows :: "nat \<Rightarrow> Token list \<Rightarrow> Expr \<Rightarrow> bool" where
  "follows n ts e \<longleftrightarrow> parses n ts e \<and> (has_loop n \<longrightarrow> prefixes n ts e)"

lemma follows_loop: "prefixes n ts e \<Longrightarrow> has_loop n \<Longrightarrow> follows n ts e"
  unfolding follows_def using prefixes_parses by blast

lemma follows_plain: "parses n ts e \<Longrightarrow> \<not> has_loop n \<Longrightarrow> follows n ts e"
  by (simp add: follows_def)

lemma follows_up:
  assumes "follows (Suc n) ts e" "derives (Suc n) ts e" "n < 9"
  shows "follows n ts e"
proof -
  have p: "parses (Suc n) ts e" using assms(1) by (simp add: follows_def)
  have "has_loop n \<or> n = 7 \<or> n \<in> {1, 2} \<or> n = 0" using assms(3) by auto
  then consider "has_loop n" | "n = 7" | "n \<in> {1, 2}" | "n = 0" by blast
  then show ?thesis
  proof cases
    case 1
    then show ?thesis using prefixes_up [OF p] by (rule_tac follows_loop)
  next
    case 2
    with p derives_starts(1) [OF assms(2)] have "parses 7 ts e" by (intro unary_up) auto
    with 2 show ?thesis by (simp add: follows_def)
  next
    case 3
    then show ?thesis using logic_up [OF p] by (auto simp: follows_def)
  next
    case 4
    with p show ?thesis using assignment_up [of ts e] by (simp add: follows_def)
  qed
qed

lemma follows_lift:
  assumes "follows n ts e" "derives n ts e" "k \<le> n" "n \<le> 9"
  shows "follows k ts e \<and> derives k ts e"
  using assms(3)
proof (induction "n - k" arbitrary: k)
  case 0
  with assms show ?case by simp
next
  case (Suc d)
  then have "follows (Suc k) ts e \<and> derives (Suc k) ts e" "k < 9" using assms(4) by auto
  then show ?case using follows_up d_up by blast
qed

lemma parser_follows:
  "derives n ts e \<Longrightarrow> follows n ts e"
  "derives_args as es \<Longrightarrow> parses_args as es"
proof (induction rule: derives_derives_args.inducts)
  case (d_leaf t real)
  then show ?case by (intro follows_plain parses_leaf) auto
next
  case (d_group lp ts e rp)
  then show ?case by (intro follows_plain parses_group) (auto simp: follows_def)
next
  case (d_call0 ts f lp rp)
  then show ?case
    using prefixes_call [of ts f lp rp "[]" "[]"] no_arguments by (intro follows_loop) (auto simp: follows_def)
next
  case (d_call ts f lp as es rp)
  then have "prefixes 8 (ts @ lp # as @ [rp]) (Mk_Expr (EXPR_CALL (Some f) rp es) 0)"
    by (intro prefixes_call) (auto simp: follows_def intro!: parses_argsD [where args = "[]", simplified] simp del: finish_call_loop.simps)
  then show ?case by (rule follows_loop) simp
next
  case (d_get ts e dot name)
  then show ?case by (intro follows_loop prefixes_get) (auto simp: follows_def)
next
  case (d_unary t ts e)
  then show ?case by (intro follows_plain parses_unary) (auto simp: follows_def)
next
  case (d_binary n ts e t ts' e')
  then have n: "n \<in> {3, 4, 5, 6}" by (intro binary_tokens_level)
  with d_binary show ?case by (intro follows_loop prefixes_binary) (auto simp: follows_def)
next
  case (d_logic n ts e t ts' e')
  have p: "parses (Suc n) ts e" "parses (Suc n) ts' e'" using d_logic.IH by (simp_all add: follows_def)
  have "ts' \<noteq> []" "starts (Suc n) (tk_type (hd ts'))"
    using derives_starts(1) [OF d_logic.hyps(4)] by simp_all
  from parses_logic [OF d_logic.hyps(1) p(1) d_logic.hyps(3) p(2) this] show ?case
    by (rule follows_plain) (use d_logic.hyps(1) in auto)
next
  case (d_assign name eq ts e)
  have leaf: "leaf_tree name = Some (new_variable name)" using d_assign.hyps by (simp add: leaf_tree_def)
  have "parses (Suc 0) [name] (Mk_Expr (new_variable name) 0)"
    using follows_lift [OF follows_plain [OF parses_leaf [OF leaf]] derives_derives_args.d_leaf [OF leaf], of "Suc 0"]
    by (simp add: follows_def)
  then have "parses 0 ([name] @ eq # ts) (Mk_Expr (EXPR_ASSIGNMENT name (Some e)) 0)"
  proof (rule parses_equal)
    show "parses 0 ts e" using d_assign.IH by (simp add: follows_def)
  qed (simp_all add: d_assign.hyps assign_target_def new_variable_def new_assignment_def new_expr_def)
  then show ?case by (simp add: follows_def)
next
  case (d_set ts e dot name eq ts' v)
  let ?get = "Mk_Expr (EXPR_GET (Some e) name) 0"
  have "parses (Suc 0) (ts @ [dot, name]) ?get"
    using follows_lift [OF follows_loop [OF prefixes_get] derives_derives_args.d_get, of ts e dot name "Suc 0"] d_set
    by (simp add: follows_def)
  then have "parses 0 ((ts @ [dot, name]) @ eq # ts') (Mk_Expr (EXPR_SET (Some e) name (Some v)) 0)"
  proof (rule parses_equal)
    show "parses 0 ts' v" using d_set.IH by (simp add: follows_def)
  qed (simp_all add: d_set.hyps assign_target_def)
  then show ?case by (simp add: follows_def)
next
  case (d_up n ts e)
  show ?case by (rule follows_up [OF d_up.IH d_up.hyps])
next
  case (d_last ts e)
  from d_last.IH have "parses 0 ts e" by (simp add: follows_def)
  then show ?case
    using derives_starts(1) [OF d_last.hyps] by (intro parses_args_last) simp_all
next
  case (d_more ts e comma ts' es)
  from d_more.IH(1) have "parses 0 ts e" by (simp add: follows_def)
  then show ?case
    using derives_starts(1) [OF d_more.hyps(1)] d_more.IH(2) d_more.hyps(2) by (intro parses_args_more) simp_all
qed

lemma derives_parses:
  assumes "derives 0 ts e" "toks_at s (ts @ t # rest)" "\<forall>n\<le>8. tk_type t \<notin> consumed n" "length (ts @ t # rest) < fuel"
  shows "expression_ast fuel s = Inr (Some e, skip s (length ts))"
proof -
  have "parses 0 ts e" using parser_follows(1) [OF assms(1)] by (simp add: follows_def)
  moreover have "stops 0 (tk_type t)" using assms(3) by (simp add: stops_def)
  ultimately show ?thesis
    unfolding expression_ast_def using assms(2) by (elim pp_parses) (use assms(4) remaining_at [OF assms(2)] in simp_all)
qed

text \<open>Behind a logical operator, a second one of its kind ends the expression.\<close>

lemma derives_logical:
  "derives m ts e \<Longrightarrow> same_logical t (Some e) \<Longrightarrow>
    \<exists>n ts1 op ts2 e1 e2. n \<in> {1, 2} \<and> ts = ts1 @ op # ts2 \<and> tk_type op = logic_token n \<and> tk_type t = logic_token n \<and>
      derives (Suc n) ts1 e1 \<and> derives (Suc n) ts2 e2 \<and> e = Mk_Expr (EXPR_LOGICAL (Some e1) (Some e2) op) 0"
  "derives_args as es \<Longrightarrow> True"
proof (induction rule: derives_derives_args.inducts)
  case (d_logic n ts e op ts' e')
  then show ?case
    by (intro exI [of _ n] exI [of _ ts] exI [of _ op] exI [of _ ts'] exI [of _ e] exI [of _ e']) auto
next
  case (d_leaf t' real)
  then show ?case
    by (auto simp: leaf_tree_def new_true_def new_false_def new_nil_def new_literal_def new_variable_def split: TokenType.splits)
qed simp_all

lemma chain_cut:
  assumes "derives 0 ts e" "same_logical t (Some e)" "toks_at s (ts @ t # rest)" "length (ts @ t # rest) < fuel"
  shows "expression_ast fuel s = Inr (Some e, skip s (length ts))"
proof -
  obtain n ts1 op ts2 e1 e2 where n: "n \<in> {1, 2}" and ts: "ts = ts1 @ op # ts2"
    and op: "tk_type op = logic_token n" "tk_type t = logic_token n"
    and d: "derives (Suc n) ts1 e1" "derives (Suc n) ts2 e2" and e: "e = Mk_Expr (EXPR_LOGICAL (Some e1) (Some e2) op) 0"
    using derives_logical(1) [OF assms(1,2)] by blast
  obtain k where k: "fuel = Suc k" using assms(4) by (cases fuel) auto
  have p: "parses (Suc n) ts1 e1" "parses (Suc n) ts2 e2"
    using parser_follows(1) [OF d(1)] parser_follows(1) [OF d(2)] by (simp_all add: follows_def)
  have top: "level n k s = Inr (Some e, skip s (length ts))"
    unfolding e ts
    by (rule level_logical [OF n p(1) op(1) p(2)])
      (use derives_starts(1) [OF d(2)] assms(3,4) ts stops_logic [OF n] op remaining_at [OF assms(3)] k in auto)
  note here = at_Cons(1) [OF at_skip [OF assms(3)]]
  have "level 1 k s = Inr (Some e, skip s (length ts))"
  proof (cases "n = 1")
    case False
    then have "n = 2" using n by simp
    then show ?thesis
      using level_logic [of 1 k s] top op(2) here by (simp add: logic_token_def numeral_2_eq_2)
  qed (use top in simp)
  then have "level 0 k s = Inr (Some e, skip s (length ts))"
    using op(2) here by (simp add: level_def assignment_body_def logic_token_def)
  then show ?thesis by (simp add: expression_ast_def k level_def)
qed

text \<open>
  C9. The parser builds the tree of every derivation of the Lox expression grammar within its
  limits (no \<^verbatim>\<open>this\<close> or \<^verbatim>\<open>super\<close>, no unparenthesised chain of one logical operator, at most
  \<^verbatim>\<open>MAX_ARGS\<close> arguments): given the tokens of an expression followed by a token that cannot
  continue one, it returns exactly the derived tree, stops right behind the expression and
  reports nothing. The limit on chains is where the parser departs from the grammar: behind
  \<^verbatim>\<open>a or b\<close> it also stops at a second \<^verbatim>\<open>or\<close>, behind \<^verbatim>\<open>a and b\<close> at a second \<^verbatim>\<open>and\<close>, and returns the part
  before.
\<close>

theorem expression_parses:
  assumes "lox 0 ts e" "plain e" "drop (pa_pos s) (pa_tokens s) = ts @ t # rest"
    "(\<forall>n\<le>8. tk_type t \<notin> consumed n) \<or> same_logical t (Some e)" "length (ts @ t # rest) < fuel"
  shows "expression_ast fuel s = Inr (Some e, s\<lparr>pa_pos := pa_pos s + length ts\<rparr>)"
  using lox_derives(1) [OF assms(1,2)] assms(3-5) derives_parses [of ts e s t rest fuel] chain_cut [of ts e t s rest fuel]
  by (auto simp: toks_at_def skip_def)

text \<open>The tokens of \<^verbatim>\<open>a + b * c;\<close> and their tree.\<close>

definition sample_word :: "nat \<Rightarrow> TokenType \<Rightarrow> string \<Rightarrow> Token" where
  "sample_word column type lexeme = token_simple type 1 column lexeme"

definition sample_tokens :: "Token list" where
  "sample_tokens = [sample_word 0 TOKEN_IDENTIFIER ''a'', sample_word 2 TOKEN_PLUS ''+'',
     sample_word 4 TOKEN_IDENTIFIER ''b'', sample_word 6 TOKEN_STAR ''*'', sample_word 8 TOKEN_IDENTIFIER ''c'']"

definition sample_tree :: Expr where
  "sample_tree = Mk_Expr (EXPR_BINARY (sample_word 2 TOKEN_PLUS ''+'')
     (Some (Mk_Expr (EXPR_VARIABLE (sample_word 0 TOKEN_IDENTIFIER ''a'')) 0))
     (Some (Mk_Expr (EXPR_BINARY (sample_word 6 TOKEN_STAR ''*'')
        (Some (Mk_Expr (EXPR_VARIABLE (sample_word 4 TOKEN_IDENTIFIER ''b'')) 0))
        (Some (Mk_Expr (EXPR_VARIABLE (sample_word 8 TOKEN_IDENTIFIER ''c'')) 0))) 0))) 0"

lemma derives_lift: "derives n ts e \<Longrightarrow> n \<le> 9 \<Longrightarrow> k \<le> n \<Longrightarrow> derives k ts e"
  using follows_lift [of n ts e k] parser_follows(1) by blast

lemma lox_lift: "lox n ts e \<Longrightarrow> n \<le> 9 \<Longrightarrow> k \<le> n \<Longrightarrow> lox k ts e"
proof (induction "n - k" arbitrary: k)
  case (Suc d)
  then show ?case using l_up [of k ts e] by simp
qed simp

lemma variable_lox:
  "k \<le> 9 \<Longrightarrow> lox k [sample_word c TOKEN_IDENTIFIER x] (Mk_Expr (EXPR_VARIABLE (sample_word c TOKEN_IDENTIFIER x)) 0)"
  by (rule lox_lift [OF l_leaf])
    (simp_all add: leaf_tree_def sample_word_def token_simple_def token_def new_variable_def)

lemma sample_lox: "lox 0 sample_tokens sample_tree"
proof -
  let ?v = "\<lambda>c x. sample_word c TOKEN_IDENTIFIER x"
  have "lox 6 ([?v 4 ''b''] @ sample_word 6 TOKEN_STAR ''*'' # [?v 8 ''c''])
    (Mk_Expr (EXPR_BINARY (sample_word 6 TOKEN_STAR ''*'') (Some (Mk_Expr (EXPR_VARIABLE (?v 4 ''b'')) 0))
      (Some (Mk_Expr (EXPR_VARIABLE (?v 8 ''c'')) 0))) 0)"
    by (rule l_binary; (rule variable_lox)?)
      (simp_all add: binary_tokens_def sample_word_def token_simple_def token_def)
  then have "lox 5 ([?v 0 ''a''] @ sample_word 2 TOKEN_PLUS ''+'' #
      [?v 4 ''b''] @ sample_word 6 TOKEN_STAR ''*'' # [?v 8 ''c'']) sample_tree"
    unfolding sample_tree_def
    by (intro l_binary variable_lox)
      (simp_all add: binary_tokens_def sample_word_def token_simple_def token_def)
  from lox_lift [OF this, of 0] show ?thesis by (simp add: sample_tokens_def)
qed

text \<open>The tokens of \<^verbatim>\<open>a or b\<close>, the beginning of \<^verbatim>\<open>a or b or c;\<close>.\<close>

definition chain_tokens :: "Token list" where
  "chain_tokens = [sample_word 0 TOKEN_IDENTIFIER ''a'', sample_word 2 TOKEN_OR ''or'', sample_word 5 TOKEN_IDENTIFIER ''b'']"

definition chain_rest :: "Token list" where
  "chain_rest = [sample_word 10 TOKEN_IDENTIFIER ''c'', sample_word 11 TOKEN_SEMICOLON '';'']"

definition chain_tree :: Expr where
  "chain_tree = Mk_Expr (EXPR_LOGICAL (Some (Mk_Expr (EXPR_VARIABLE (sample_word 0 TOKEN_IDENTIFIER ''a'')) 0))
     (Some (Mk_Expr (EXPR_VARIABLE (sample_word 5 TOKEN_IDENTIFIER ''b'')) 0)) (sample_word 2 TOKEN_OR ''or'')) 0"

lemma chain_lox: "lox 0 chain_tokens chain_tree"
proof -
  let ?v = "\<lambda>c x. sample_word c TOKEN_IDENTIFIER x"
  have "lox 1 ([?v 0 ''a''] @ sample_word 2 TOKEN_OR ''or'' # [?v 5 ''b'']) chain_tree"
    unfolding chain_tree_def
    by (rule l_logic; (rule variable_lox)?) (simp_all add: logic_token_def sample_word_def token_simple_def token_def)
  from lox_lift [OF this, of 0] show ?thesis by (simp add: chain_tokens_def)
qed

lemmas sample_eval = parse_start_def consumed_def binary_tokens_def logic_token_def sample_word_def token_simple_def token_def

theorem expression_parses_witness:
  "expression_ast 10 (parse_start (sample_tokens @ [sample_word 9 TOKEN_SEMICOLON '';'']))
     = Inr (Some sample_tree, (parse_start (sample_tokens @ [sample_word 9 TOKEN_SEMICOLON '';'']))\<lparr>pa_pos := 5\<rparr>)
   \<and> expression_ast 10 (parse_start (chain_tokens @ sample_word 7 TOKEN_OR ''or'' # chain_rest))
     = Inr (Some chain_tree, (parse_start (chain_tokens @ sample_word 7 TOKEN_OR ''or'' # chain_rest))\<lparr>pa_pos := 3\<rparr>)"
proof
  show "expression_ast 10 (parse_start (sample_tokens @ [sample_word 9 TOKEN_SEMICOLON '';'']))
     = Inr (Some sample_tree, (parse_start (sample_tokens @ [sample_word 9 TOKEN_SEMICOLON '';'']))\<lparr>pa_pos := 5\<rparr>)"
    using expression_parses [OF sample_lox, of "parse_start (sample_tokens @ [sample_word 9 TOKEN_SEMICOLON '';''])"
        "sample_word 9 TOKEN_SEMICOLON '';''" "[]" 10]
    by (simp add: sample_eval sample_tokens_def sample_tree_def)
  show "expression_ast 10 (parse_start (chain_tokens @ sample_word 7 TOKEN_OR ''or'' # chain_rest))
     = Inr (Some chain_tree, (parse_start (chain_tokens @ sample_word 7 TOKEN_OR ''or'' # chain_rest))\<lparr>pa_pos := 3\<rparr>)"
    using expression_parses [OF chain_lox, of "parse_start (chain_tokens @ sample_word 7 TOKEN_OR ''or'' # chain_rest)"
        "sample_word 7 TOKEN_OR ''or''" chain_rest 10]
    by (simp add: sample_eval chain_tokens_def chain_tree_def chain_rest_def)
qed

end
