(* ===== verification/Clox_Visitor.thy ===== *)
theory Clox_Visitor
  imports Clox_Parser
begin

text \<open>
  The visitor pattern of \<^verbatim>\<open>include/visitor.h\<close> and \<^verbatim>\<open>src/visitor.c\<close>. A visitor is a record of actions,
  one per kind of node; an action takes the node and a state. \<open>'s\<close> is the state of the client and
  \<open>'r\<close> what its actions return: the resolver and the evaluator instantiate both.
\<close>

record ('s, 'r) ExpressionVisitor =
  visitBinary :: "Expr \<Rightarrow> 's \<Rightarrow> 'r result"
  visitUnary :: "Expr \<Rightarrow> 's \<Rightarrow> 'r result"
  visitLiteral :: "Expr \<Rightarrow> 's \<Rightarrow> 'r result"
  visitGrouping :: "Expr \<Rightarrow> 's \<Rightarrow> 'r result"
  visitVariable :: "Expr \<Rightarrow> 's \<Rightarrow> 'r result"
  visitAssignment :: "Expr \<Rightarrow> 's \<Rightarrow> 'r result"
  visitLogical :: "Expr \<Rightarrow> 's \<Rightarrow> 'r result"
  visitCallable :: "Expr \<Rightarrow> 's \<Rightarrow> 'r result"
  visitGet :: "Expr \<Rightarrow> 's \<Rightarrow> 'r result"
  visitSet :: "Expr \<Rightarrow> 's \<Rightarrow> 'r result"
  visitThis :: "Expr \<Rightarrow> 's \<Rightarrow> 'r result"
  visitSuper :: "Expr \<Rightarrow> 's \<Rightarrow> 'r result"

record ('s, 'r) StmtVisitor =
  visitPrint :: "Stmt \<Rightarrow> 's \<Rightarrow> 'r result"
  visitVarDeclaration :: "Stmt \<Rightarrow> 's \<Rightarrow> 'r result"
  visitExpression :: "Stmt \<Rightarrow> 's \<Rightarrow> 'r result"
  visitBlock :: "Stmt \<Rightarrow> 's \<Rightarrow> 'r result"
  visitIfElse :: "Stmt \<Rightarrow> 's \<Rightarrow> 'r result"
  visitWhile :: "Stmt \<Rightarrow> 's \<Rightarrow> 'r result"
  visitFun :: "Stmt \<Rightarrow> 's \<Rightarrow> 'r result"
  visitReturn :: "Stmt \<Rightarrow> 's \<Rightarrow> 'r result"
  visitClass :: "Stmt \<Rightarrow> 's \<Rightarrow> 'r result"

definition accept_expr :: "('s, 'r) ExpressionVisitor \<Rightarrow> Expr option \<Rightarrow> 's \<Rightarrow> 'r result" where
  "accept_expr visitor expr s = (case expr of None \<Rightarrow> Inl (Crash Null_Deref)
     | Some e \<Rightarrow> (case ex_expr e of
         EXPR_LITERAL _ \<Rightarrow> visitLiteral visitor e s
       | EXPR_UNARY _ _ \<Rightarrow> visitUnary visitor e s
       | EXPR_BINARY _ _ _ \<Rightarrow> visitBinary visitor e s
       | EXPR_GROUPING _ \<Rightarrow> visitGrouping visitor e s
       | EXPR_VARIABLE _ \<Rightarrow> visitVariable visitor e s
       | EXPR_ASSIGNMENT _ _ \<Rightarrow> visitAssignment visitor e s
       | EXPR_LOGICAL _ _ _ \<Rightarrow> visitLogical visitor e s
       | EXPR_CALL _ _ _ \<Rightarrow> visitCallable visitor e s
       | EXPR_GET _ _ \<Rightarrow> visitGet visitor e s
       | EXPR_SET _ _ _ \<Rightarrow> visitSet visitor e s
       | EXPR_THIS _ \<Rightarrow> visitThis visitor e s
       | EXPR_SUPER _ _ \<Rightarrow> visitSuper visitor e s))"

definition accept :: "('s, 'r) StmtVisitor \<Rightarrow> Stmt option \<Rightarrow> 's \<Rightarrow> 'r result" where
  "accept visitor stmt s = (case stmt of None \<Rightarrow> Inl (Crash Null_Deref)
     | Some t \<Rightarrow> (case t of
         STMT_PRINT _ \<Rightarrow> visitPrint visitor t s
       | STMT_EXPR _ \<Rightarrow> visitExpression visitor t s
       | STMT_VAR_DECLARATION _ _ \<Rightarrow> visitVarDeclaration visitor t s
       | STMT_BLOCK _ \<Rightarrow> visitBlock visitor t s
       | STMT_IF_ELSE _ _ _ \<Rightarrow> visitIfElse visitor t s
       | STMT_WHILE _ _ \<Rightarrow> visitWhile visitor t s
       | STMT_FUN _ _ _ \<Rightarrow> visitFun visitor t s
       | STMT_RETURN _ _ \<Rightarrow> visitReturn visitor t s
       | STMT_CLASS _ _ _ \<Rightarrow> visitClass visitor t s))"

text \<open>\<^verbatim>\<open>name.lexeme\<close> handed to a string function.\<close>

definition lexeme_of :: "Token \<Rightarrow> string result" where
  "lexeme_of t = (case tk_lexeme t of None \<Rightarrow> Inl (Crash Null_Deref) | Some x \<Rightarrow> Inr x)"

text \<open>\<^verbatim>\<open>order\<close> is an \<^verbatim>\<open>unsigned int\<close>: the assignment of -1 stores its largest value.\<close>

definition UINT_MAX :: nat where
  "UINT_MAX = 4294967295"

end
