(* ===== verification/Clox_Resolve.thy ===== *)
theory Clox_Resolve
  imports Clox_Visitor Clox_Dict
begin

text \<open>
  The resolver of the tree walker, \<^verbatim>\<open>src/resolve.c\<close> and \<^verbatim>\<open>include/resolve.h\<close>: it counts, for every use
  of a variable, the scopes between the use and the declaration, and stores the count in the
  \<^verbatim>\<open>order\<close> of the expression.

  The static variables of the file are the record \<open>RS\<close>. The list of scopes is kept innermost
  first, so that \<^verbatim>\<open>scopes->last\<close> is its head and \<^verbatim>\<open>node->prev\<close> its tail; a scope is a dictionary
  from names to pointers into the store of \<^verbatim>\<open>int\<close> flags. \<^verbatim>\<open>resolve\<close> creates the list before anything
  reads it. Trees are changed in place by the source; here every function returns the tree with
  what was assigned to it, also when resolution fails.

  \<^verbatim>\<open>define\<close> hands the flag to \<^verbatim>\<open>dict_set\<close>, which writes the field \<^verbatim>\<open>value\<close> of a \<^verbatim>\<open>KeyValuePair\<close>, eight
  bytes at offset 8, in an allocation of four bytes. Whether that overruns depends on the allocator: \<open>usable\<close> gives the number of bytes
  that may be used in a block requested with a given size, as \<^verbatim>\<open>malloc_usable_size\<close> does.
\<close>

section \<open>State\<close>

datatype FunctionType_ast =
    FUNCTION_TYPE_NONE
  | FUNCTION_TYPE_FUNCTION
  | FUNCTION_TYPE_METHOD
  | FUNCTION_TYPE_CTOR

datatype ClassType =
    CLASS_TYPE_NONE
  | CLASS_TYPE_CLASS
  | CLASS_TYPE_SUBCLASS

record RS =
  rs_scopes :: "nat Dictionary list"
  rs_flags :: "int list"
  rs_function :: FunctionType_ast
  rs_class :: ClassType
  rs_err :: "parse_report list"

definition initial_rs :: RS where
  "initial_rs = \<lparr>rs_scopes = [], rs_flags = [], rs_function = FUNCTION_TYPE_NONE, rs_class = CLASS_TYPE_NONE, rs_err = []\<rparr>"

definition resolve_error :: "Token \<Rightarrow> string \<Rightarrow> RS \<Rightarrow> RS result" where
  "resolve_error t msg s =
     bind_result (parse_error t msg \<lparr>pa_tokens = [], pa_pos = 0, pa_err = rs_err s\<rparr>)
       (\<lambda>p. Inr (s\<lparr>rs_err := pa_err p\<rparr>))"

section \<open>Scopes\<close>

definition scope_begin_rs :: "RS \<Rightarrow> RS" where
  "scope_begin_rs s = s\<lparr>rs_scopes := new_dict # rs_scopes s\<rparr>"

definition scope_end_rs :: "RS \<Rightarrow> RS result" where
  "scope_end_rs s = (case rs_scopes s of [] \<Rightarrow> Inl (Crash Null_Deref) | _ # ds \<Rightarrow> Inr (s\<lparr>rs_scopes := ds\<rparr>))"

text \<open>A new flag in the store, under a name of the innermost scope.\<close>

definition add_flag :: "string \<Rightarrow> int \<Rightarrow> RS \<Rightarrow> RS" where
  "add_flag name v s = (case rs_scopes s of [] \<Rightarrow> s
     | d # ds \<Rightarrow> s\<lparr>rs_flags := rs_flags s @ [v],
                   rs_scopes := the (fst (dict_add (Some d) name (Some (length (rs_flags s))))) # ds\<rparr>)"

definition scope_add :: "string \<Rightarrow> int \<Rightarrow> RS \<Rightarrow> RS \<times> bool" where
  "scope_add name v s = (if rs_scopes s = [] then (s, False) else (add_flag name v s, True))"

definition declare_rs :: "Token \<Rightarrow> RS \<Rightarrow> (bool \<times> RS) result" where
  "declare_rs name s = (case rs_scopes s of [] \<Rightarrow> Inr (True, s)
     | scope # _ \<Rightarrow> bind_result (lexeme_of name) (\<lambda>x.
         if dict_contains (Some scope) x
         then bind_result (resolve_error name ''Variable with this name already declared in this scope.'' s)
                (\<lambda>s1. Inr (False, s1))
         else Inr (True, add_flag x 0 s)))"

text \<open>
  The flag, a block of \<^verbatim>\<open>sizeof(int)\<close> bytes, is set; then \<^verbatim>\<open>dict_set\<close> takes it for a \<^verbatim>\<open>KeyValuePair\<close> and
  stores a pointer in the field \<^verbatim>\<open>value\<close> of that struct.
\<close>

definition define_rs :: "(nat \<Rightarrow> nat) \<Rightarrow> Token \<Rightarrow> RS \<Rightarrow> RS result" where
  "define_rs usable name s = (case rs_scopes s of [] \<Rightarrow> Inr s
     | scope # _ \<Rightarrow> bind_result (lexeme_of name) (\<lambda>x.
         case dict_get (Some scope) x of None \<Rightarrow> Inl (Crash Null_Deref)
         | Some p \<Rightarrow> (case dict_set (Some scope) x (Some p) of
             (True, _) \<Rightarrow> if inside_block usable sizeof_int (offsetof KeyValuePair_fields ''value'') sizeof_pointer
                          then Inr (s\<lparr>rs_flags := (rs_flags s)[p := 1]\<rparr>) else Inl (Crash Out_Of_Bounds)
           | (False, _) \<Rightarrow> Inr (s\<lparr>rs_flags := (rs_flags s)[p := 1]\<rparr>))))"

fun local_order :: "nat Dictionary list \<Rightarrow> nat \<Rightarrow> string \<Rightarrow> nat" where
  "local_order [] i x = UINT_MAX"
| "local_order (d # ds) i x = (if dict_contains (Some d) x then i else local_order ds (Suc i) x)"

definition resolve_local :: "Expr \<Rightarrow> Token \<Rightarrow> RS \<Rightarrow> Expr result" where
  "resolve_local expr name s =
     (if rs_scopes s = [] then Inr (Mk_Expr (ex_expr expr) UINT_MAX)
      else bind_result (lexeme_of name) (\<lambda>x. Inr (Mk_Expr (ex_expr expr) (local_order (rs_scopes s) 0 x))))"

section \<open>Expressions\<close>

text \<open>
  A visit tells whether it returned the node or NULL, and gives the node as it is afterwards;
  \<open>rec\<close> stands for \<^verbatim>\<open>resolve_expr\<close>.
\<close>

type_synonym expr_resolver = "Expr option \<Rightarrow> RS \<Rightarrow> ((bool \<times> Expr option) \<times> RS) result"
type_synonym expr_visit = "Expr \<Rightarrow> RS \<Rightarrow> ((bool \<times> Expr) \<times> RS) result"

text \<open>\<^verbatim>\<open>!resolve_expr(l) || !resolve_expr(r) ? NULL : expr\<close>.\<close>

definition resolve_both :: "expr_resolver \<Rightarrow> Expr option \<Rightarrow> Expr option \<Rightarrow> (Expr option \<Rightarrow> Expr option \<Rightarrow> Expr) \<Rightarrow> RS \<Rightarrow>
    ((bool \<times> Expr) \<times> RS) result" where
  "resolve_both rec l r mk s = bind_result (rec l s) (\<lambda>((ok, l'), s1).
     if ok then bind_result (rec r s1) (\<lambda>((ok', r'), s2). Inr ((ok', mk l' r'), s2)) else Inr ((False, mk l' r), s1))"

definition resolve_one :: "expr_resolver \<Rightarrow> Expr option \<Rightarrow> (Expr option \<Rightarrow> Expr) \<Rightarrow> RS \<Rightarrow> ((bool \<times> Expr) \<times> RS) result" where
  "resolve_one rec l mk s = bind_result (rec l s) (\<lambda>((ok, l'), s1). Inr ((ok, mk l'), s1))"

definition visit_var_expr_resolver :: expr_visit where
  "visit_var_expr_resolver expr s = (case ex_expr expr of
     EXPR_VARIABLE name \<Rightarrow>
       (let local = bind_result (resolve_local expr name s) (\<lambda>e. Inr ((True, e), s))
        in case rs_scopes s of [] \<Rightarrow> local
         | scope # _ \<Rightarrow> bind_result (lexeme_of name) (\<lambda>x.
             case dict_get (Some scope) x of
               Some p \<Rightarrow> if rs_flags s ! p = 0
                 then bind_result (resolve_error name ''Cannot Read Local variable in its own initializer: %s\<newline>'' s)
                        (\<lambda>s1. Inr ((False, expr), s1))
                 else local
             | None \<Rightarrow> local))
   | _ \<Rightarrow> Inl (Crash Bad_Cast))"

definition visit_assign_expr_resolver :: "expr_resolver \<Rightarrow> expr_visit" where
  "visit_assign_expr_resolver rec expr s = (case ex_expr expr of
     EXPR_ASSIGNMENT name right \<Rightarrow> bind_result (rec right s) (\<lambda>((ok, r'), s1).
       let e = Mk_Expr (EXPR_ASSIGNMENT name r') (ex_order expr)
       in if ok then bind_result (resolve_local e name s1) (\<lambda>e'. Inr ((True, e'), s1)) else Inr ((False, e), s1))
   | _ \<Rightarrow> Inl (Crash Bad_Cast))"

definition visit_binary_expr_resolver :: "expr_resolver \<Rightarrow> expr_visit" where
  "visit_binary_expr_resolver rec expr s = (case ex_expr expr of
     EXPR_BINARY op_tkn l r \<Rightarrow> resolve_both rec l r (\<lambda>l' r'. Mk_Expr (EXPR_BINARY op_tkn l' r') (ex_order expr)) s
   | _ \<Rightarrow> Inl (Crash Bad_Cast))"

text \<open>The loop over the arguments; \<open>resolved\<close> is the sum of the results so far.\<close>

fun call_args_loop :: "expr_resolver \<Rightarrow> nat \<Rightarrow> Expr list \<Rightarrow> RS \<Rightarrow> ((nat \<times> Expr list) \<times> RS) result" where
  "call_args_loop rec resolved [] s = Inr ((resolved, []), s)"
| "call_args_loop rec resolved (a # as) s = bind_result (rec (Some a) s) (\<lambda>((ok, a'), s1).
     let resolved' = resolved + of_bool ok
     in if resolved' = 0 then Inr ((0, the a' # as), s1)
        else bind_result (call_args_loop rec resolved' as s1) (\<lambda>((n, as'), s2). Inr ((n, the a' # as'), s2)))"

definition visit_call_expr_resolver :: "expr_resolver \<Rightarrow> expr_visit" where
  "visit_call_expr_resolver rec expr s = (case ex_expr expr of
     EXPR_CALL callee paren args \<Rightarrow> bind_result (rec callee s) (\<lambda>((ok, c'), s1).
       if \<not> ok then Inr ((False, Mk_Expr (EXPR_CALL c' paren args) (ex_order expr)), s1)
       else bind_result (call_args_loop rec 1 args s1) (\<lambda>((n, as'), s2).
              Inr ((n \<noteq> 0, Mk_Expr (EXPR_CALL c' paren as') (ex_order expr)), s2)))
   | _ \<Rightarrow> Inl (Crash Bad_Cast))"

definition visit_grouping_expr_resolver :: "expr_resolver \<Rightarrow> expr_visit" where
  "visit_grouping_expr_resolver rec expr s = (case ex_expr expr of
     EXPR_GROUPING e \<Rightarrow> resolve_one rec e (\<lambda>e'. Mk_Expr (EXPR_GROUPING e') (ex_order expr)) s
   | _ \<Rightarrow> Inl (Crash Bad_Cast))"

definition visit_literal_expr_resolver :: expr_visit where
  "visit_literal_expr_resolver expr s = Inr ((True, expr), s)"

definition visit_logical_expr_resolver :: "expr_resolver \<Rightarrow> expr_visit" where
  "visit_logical_expr_resolver rec expr s = (case ex_expr expr of
     EXPR_LOGICAL l r op_tkn \<Rightarrow> resolve_both rec l r (\<lambda>l' r'. Mk_Expr (EXPR_LOGICAL l' r' op_tkn) (ex_order expr)) s
   | _ \<Rightarrow> Inl (Crash Bad_Cast))"

definition visit_unary_expr_resolver :: "expr_resolver \<Rightarrow> expr_visit" where
  "visit_unary_expr_resolver rec expr s = (case ex_expr expr of
     EXPR_UNARY op_tkn e \<Rightarrow> resolve_one rec e (\<lambda>e'. Mk_Expr (EXPR_UNARY op_tkn e') (ex_order expr)) s
   | _ \<Rightarrow> Inl (Crash Bad_Cast))"

definition visit_get_expr_resolver :: "expr_resolver \<Rightarrow> expr_visit" where
  "visit_get_expr_resolver rec expr s = (case ex_expr expr of
     EXPR_GET e name \<Rightarrow> resolve_one rec e (\<lambda>e'. Mk_Expr (EXPR_GET e' name) (ex_order expr)) s
   | _ \<Rightarrow> Inl (Crash Bad_Cast))"

definition visit_set_expr_resolver :: "expr_resolver \<Rightarrow> expr_visit" where
  "visit_set_expr_resolver rec expr s = (case ex_expr expr of
     EXPR_SET e name v \<Rightarrow> resolve_both rec e v (\<lambda>e' v'. Mk_Expr (EXPR_SET e' name v') (ex_order expr)) s
   | _ \<Rightarrow> Inl (Crash Bad_Cast))"

definition visit_this_expr_resolver :: expr_visit where
  "visit_this_expr_resolver expr s = (case ex_expr expr of
     EXPR_THIS keyword \<Rightarrow>
       if rs_class s = CLASS_TYPE_NONE
       then bind_result (resolve_error keyword ''Cannot use 'this' outside of a class.'' s) (\<lambda>s1. Inr ((False, expr), s1))
       else bind_result (resolve_local expr keyword s) (\<lambda>e. Inr ((True, e), s))
   | _ \<Rightarrow> Inl (Crash Bad_Cast))"

definition visit_super_expr_resolver :: expr_visit where
  "visit_super_expr_resolver expr s = (case ex_expr expr of
     EXPR_SUPER keyword method \<Rightarrow>
       if rs_class s = CLASS_TYPE_NONE
       then bind_result (resolve_error keyword ''Cannot use 'super' outside of a class.'' s) (\<lambda>s1. Inr ((False, expr), s1))
       else if rs_class s \<noteq> CLASS_TYPE_CLASS
       then bind_result (resolve_error keyword ''Cannot use 'super' in a class with no superclass.'' s) (\<lambda>s1. Inr ((False, expr), s1))
       else bind_result (resolve_local expr keyword s) (\<lambda>e. Inr ((True, e), s))
   | _ \<Rightarrow> Inl (Crash Bad_Cast))"

definition ExpressionResolver :: "expr_resolver \<Rightarrow> (RS, (bool \<times> Expr) \<times> RS) ExpressionVisitor" where
  "ExpressionResolver rec = \<lparr>visitBinary = visit_binary_expr_resolver rec, visitUnary = visit_unary_expr_resolver rec,
     visitLiteral = visit_literal_expr_resolver, visitGrouping = visit_grouping_expr_resolver rec,
     visitVariable = visit_var_expr_resolver, visitAssignment = visit_assign_expr_resolver rec,
     visitLogical = visit_logical_expr_resolver rec, visitCallable = visit_call_expr_resolver rec,
     visitGet = visit_get_expr_resolver rec, visitSet = visit_set_expr_resolver rec,
     visitThis = visit_this_expr_resolver, visitSuper = visit_super_expr_resolver\<rparr>"

fun resolve_expr :: "nat \<Rightarrow> expr_resolver" where
  "resolve_expr 0 expr s = Inl Out_Of_Fuel"
| "resolve_expr (Suc n) expr s = bind_result (accept_expr (ExpressionResolver (resolve_expr n)) expr s)
     (\<lambda>((ok, e), s1). Inr ((ok, Some e), s1))"

section \<open>Statements\<close>

type_synonym stmt_resolver = "Stmt option \<Rightarrow> RS \<Rightarrow> ((bool \<times> Stmt option) \<times> RS) result"
type_synonym stmt_visit = "Stmt \<Rightarrow> RS \<Rightarrow> ((bool \<times> Stmt) \<times> RS) result"

text \<open>\<^verbatim>\<open>resolve_list\<close>: the result of the last statement, 0 for an empty list.\<close>

fun resolve_list :: "stmt_resolver \<Rightarrow> Stmt option list \<Rightarrow> RS \<Rightarrow> ((bool \<times> Stmt option list) \<times> RS) result" where
  "resolve_list rec [] s = Inr ((False, []), s)"
| "resolve_list rec (st # sts) s = bind_result (rec st s) (\<lambda>((ok, st'), s1).
     if \<not> ok then Inr ((False, st' # sts), s1)
     else if sts = [] then Inr ((True, [st']), s1)
     else bind_result (resolve_list rec sts s1) (\<lambda>((ok', sts'), s2). Inr ((ok', st' # sts'), s2)))"

text \<open>\<^verbatim>\<open>list_foreach\<close> with \<^verbatim>\<open>fun_args_iterator\<close>.\<close>

fun fun_args_iterator :: "(nat \<Rightarrow> nat) \<Rightarrow> Token list \<Rightarrow> RS \<Rightarrow> RS result" where
  "fun_args_iterator usable [] s = Inr s"
| "fun_args_iterator usable (t # ts) s = bind_result (declare_rs t s) (\<lambda>(_, s1).
     bind_result (define_rs usable t s1) (fun_args_iterator usable ts))"

definition resolve_fun :: "(nat \<Rightarrow> nat) \<Rightarrow> stmt_resolver \<Rightarrow> Stmt \<Rightarrow> FunctionType_ast \<Rightarrow> RS \<Rightarrow> ((bool \<times> Stmt) \<times> RS) result" where
  "resolve_fun usable rec stmt type s = (case stmt of
     STMT_FUN args name body \<Rightarrow>
       bind_result (fun_args_iterator usable args (scope_begin_rs (s\<lparr>rs_function := type\<rparr>))) (\<lambda>s1.
         case body of
           None \<Rightarrow> Inl (Crash Null_Deref)
         | Some (STMT_BLOCK inner) \<Rightarrow> bind_result (resolve_list rec inner s1) (\<lambda>((ok, inner'), s2).
             bind_result (scope_end_rs s2) (\<lambda>s3.
               Inr ((ok, STMT_FUN args name (Some (STMT_BLOCK inner'))), s3\<lparr>rs_function := rs_function s\<rparr>)))
         | Some _ \<Rightarrow> Inl (Crash Bad_Cast))
   | _ \<Rightarrow> Inl (Crash Bad_Cast))"

definition visit_block_stmt_resolver :: "stmt_resolver \<Rightarrow> stmt_visit" where
  "visit_block_stmt_resolver rec stmt s = (case stmt of
     STMT_BLOCK inner \<Rightarrow> bind_result (resolve_list rec inner (scope_begin_rs s)) (\<lambda>((ok, inner'), s1).
       bind_result (scope_end_rs s1) (\<lambda>s2. Inr ((ok, STMT_BLOCK inner'), s2)))
   | _ \<Rightarrow> Inl (Crash Bad_Cast))"

text \<open>\<^verbatim>\<open>if (initializer != NULL) resolved = resolve_expr(initializer)\<close>, and the same for a returned value.\<close>

definition resolve_optional :: "expr_resolver \<Rightarrow> expr_resolver" where
  "resolve_optional rec expr s = (if expr = None then Inr ((True, None), s) else rec expr s)"

definition visit_var_stmt_resolver :: "(nat \<Rightarrow> nat) \<Rightarrow> expr_resolver \<Rightarrow> stmt_visit" where
  "visit_var_stmt_resolver usable rec stmt s = (case stmt of
     STMT_VAR_DECLARATION initializer varName \<Rightarrow> bind_result (declare_rs varName s) (\<lambda>(_, s1).
       bind_result (resolve_optional rec initializer s1) (\<lambda>((ok, e), s2).
         bind_result (if ok then define_rs usable varName s2 else Inr s2) (\<lambda>s3.
           Inr ((ok, STMT_VAR_DECLARATION e varName), s3))))
   | _ \<Rightarrow> Inl (Crash Bad_Cast))"

definition visit_fun_stmt_resolver :: "(nat \<Rightarrow> nat) \<Rightarrow> stmt_resolver \<Rightarrow> stmt_visit" where
  "visit_fun_stmt_resolver usable rec stmt s = (case stmt of
     STMT_FUN _ name _ \<Rightarrow> bind_result (declare_rs name s) (\<lambda>(_, s1).
       bind_result (define_rs usable name s1) (resolve_fun usable rec stmt FUNCTION_TYPE_FUNCTION))
   | _ \<Rightarrow> Inl (Crash Bad_Cast))"

definition visit_expr_stmt_resolver :: "expr_resolver \<Rightarrow> stmt_visit" where
  "visit_expr_stmt_resolver rec stmt s = (case stmt of
     STMT_EXPR e \<Rightarrow> bind_result (rec e s) (\<lambda>((ok, e'), s1). Inr ((ok, STMT_EXPR e'), s1))
   | _ \<Rightarrow> Inl (Crash Bad_Cast))"

definition visit_if_stmt_resolver :: "expr_resolver \<Rightarrow> stmt_resolver \<Rightarrow> stmt_visit" where
  "visit_if_stmt_resolver rec rec_stmt stmt s = (case stmt of
     STMT_IF_ELSE cond th el \<Rightarrow> bind_result (rec cond s) (\<lambda>((ok, c), s1).
       if \<not> ok then Inr ((False, STMT_IF_ELSE c th el), s1)
       else bind_result (rec_stmt th s1) (\<lambda>((ok', t), s2).
              if ok' \<and> el \<noteq> None
              then bind_result (rec_stmt el s2) (\<lambda>((ok'', e), s3). Inr ((ok'', STMT_IF_ELSE c t e), s3))
              else Inr ((ok', STMT_IF_ELSE c t el), s2)))
   | _ \<Rightarrow> Inl (Crash Bad_Cast))"

definition visit_print_stmt_resolver :: "expr_resolver \<Rightarrow> stmt_visit" where
  "visit_print_stmt_resolver rec stmt s = (case stmt of
     STMT_PRINT e \<Rightarrow> bind_result (rec e s) (\<lambda>((ok, e'), s1). Inr ((ok, STMT_PRINT e'), s1))
   | _ \<Rightarrow> Inl (Crash Bad_Cast))"

text \<open>The second test of the source for an initializer is never reached.\<close>

definition visit_return_stmt_resolver :: "expr_resolver \<Rightarrow> stmt_visit" where
  "visit_return_stmt_resolver rec stmt s = (case stmt of
     STMT_RETURN keyword v \<Rightarrow>
       if rs_function s = FUNCTION_TYPE_CTOR
       then bind_result (resolve_error keyword ''Cannot return from top-level code.'' s) (\<lambda>s1. Inr ((False, stmt), s1))
       else bind_result (resolve_optional rec v s) (\<lambda>((ok, v'), s1). Inr ((ok, STMT_RETURN keyword v'), s1))
   | _ \<Rightarrow> Inl (Crash Bad_Cast))"

definition visit_while_stmt_resolver :: "expr_resolver \<Rightarrow> stmt_resolver \<Rightarrow> stmt_visit" where
  "visit_while_stmt_resolver rec rec_stmt stmt s = (case stmt of
     STMT_WHILE cond body \<Rightarrow> bind_result (rec cond s) (\<lambda>((ok, c), s1).
       if ok then bind_result (rec_stmt body s1) (\<lambda>((ok', b), s2). Inr ((ok', STMT_WHILE c b), s2))
       else Inr ((False, STMT_WHILE c body), s1))
   | _ \<Rightarrow> Inl (Crash Bad_Cast))"

text \<open>\<^verbatim>\<open>list_foreach\<close> with \<^verbatim>\<open>class_foreach_method\<close>: the results of the methods are dropped.\<close>

fun class_foreach_method :: "(nat \<Rightarrow> nat) \<Rightarrow> stmt_resolver \<Rightarrow> Stmt option list \<Rightarrow> RS \<Rightarrow> (Stmt option list \<times> RS) result" where
  "class_foreach_method usable rec [] s = Inr ([], s)"
| "class_foreach_method usable rec (m # ms) s = (case m of
     None \<Rightarrow> Inl (Crash Null_Deref)
   | Some (STMT_FUN args name body) \<Rightarrow> bind_result (lexeme_of name) (\<lambda>x.
       bind_result (resolve_fun usable rec (STMT_FUN args name body)
           (if x = ''init'' then FUNCTION_TYPE_CTOR else FUNCTION_TYPE_METHOD) s) (\<lambda>((_, m'), s1).
         bind_result (class_foreach_method usable rec ms s1) (\<lambda>(ms', s2). Inr (Some m' # ms', s2))))
   | Some _ \<Rightarrow> Inl (Crash Bad_Cast))"

definition visit_class_stmt_resolver :: "(nat \<Rightarrow> nat) \<Rightarrow> expr_resolver \<Rightarrow> stmt_resolver \<Rightarrow> stmt_visit" where
  "visit_class_stmt_resolver usable rec rec_stmt stmt s = (case stmt of
     STMT_CLASS name methods super \<Rightarrow>
       bind_result (declare_rs name (s\<lparr>rs_class := CLASS_TYPE_CLASS\<rparr>)) (\<lambda>(_, s1).
       bind_result (define_rs usable name s1) (\<lambda>s2.
       bind_result (if super = None then Inr ((True, None), s2)
                    else bind_result (rec super (s2\<lparr>rs_class := CLASS_TYPE_SUBCLASS\<rparr>)) (\<lambda>(r, s3).
                           Inr (r, fst (scope_add ''super'' 1 (scope_begin_rs s3))))) (\<lambda>((ok, super'), s4).
       bind_result (class_foreach_method usable rec_stmt methods (fst (scope_add ''this'' 1 (scope_begin_rs s4)))) (\<lambda>(methods', s5).
       bind_result (scope_end_rs s5) (\<lambda>s6.
       bind_result (if super = None then Inr s6 else scope_end_rs s6) (\<lambda>s7.
         Inr ((ok, STMT_CLASS name methods' super'), s7\<lparr>rs_class := rs_class s\<rparr>)))))))
   | _ \<Rightarrow> Inl (Crash Bad_Cast))"

definition StatementResolver :: "(nat \<Rightarrow> nat) \<Rightarrow> expr_resolver \<Rightarrow> stmt_resolver \<Rightarrow> (RS, (bool \<times> Stmt) \<times> RS) StmtVisitor" where
  "StatementResolver usable rec rec_stmt = \<lparr>visitPrint = visit_print_stmt_resolver rec,
     visitVarDeclaration = visit_var_stmt_resolver usable rec, visitExpression = visit_expr_stmt_resolver rec,
     visitBlock = visit_block_stmt_resolver rec_stmt, visitIfElse = visit_if_stmt_resolver rec rec_stmt,
     visitWhile = visit_while_stmt_resolver rec rec_stmt, visitFun = visit_fun_stmt_resolver usable rec_stmt,
     visitReturn = visit_return_stmt_resolver rec, visitClass = visit_class_stmt_resolver usable rec rec_stmt\<rparr>"

fun resolve :: "(nat \<Rightarrow> nat) \<Rightarrow> nat \<Rightarrow> stmt_resolver" where
  "resolve usable 0 stmt s = Inl Out_Of_Fuel"
| "resolve usable (Suc n) stmt s =
     bind_result (accept (StatementResolver usable (resolve_expr n) (resolve usable n)) stmt s)
       (\<lambda>((ok, st), s1). Inr ((ok, Some st), s1))"

end
