(* ===== verification/Clox_Resolve_Props.thy ===== *)
theory Clox_Resolve_Props
  imports Clox_Resolve
begin

text \<open>
  What the resolver computes. The reference is lexical scoping itself: \<open>number_expr\<close> and
  \<open>number_stmt\<close> annotate a tree with scope distances, given the names of the enclosing scopes.
  The resolver, with its dictionaries of flags, always ends, restores its static variables, and
  computes this numbering unless it reports an error.
\<close>

section \<open>Lexical scoping\<close>

text \<open>The number of scopes between a use and the innermost scope with the name.\<close>

definition scope_depth :: "string list list \<Rightarrow> string \<Rightarrow> nat" where
  "scope_depth G x = (case List.find (\<lambda>i. x \<in> set (G ! i)) [0..<length G] of None \<Rightarrow> UINT_MAX | Some i \<Rightarrow> i)"

definition enter :: "string list list \<Rightarrow> string \<Rightarrow> string list list" where
  "enter G x = (case G of [] \<Rightarrow> [] | S # G' \<Rightarrow> (x # S) # G')"

fun number_expr :: "string list list \<Rightarrow> Expr option \<Rightarrow> Expr option" where
  "number_expr G None = None"
| "number_expr G (Some (Mk_Expr real k)) = Some (case real of
       EXPR_UNARY t e \<Rightarrow> Mk_Expr (EXPR_UNARY t (number_expr G e)) k
     | EXPR_BINARY t l r \<Rightarrow> Mk_Expr (EXPR_BINARY t (number_expr G l) (number_expr G r)) k
     | EXPR_GROUPING e \<Rightarrow> Mk_Expr (EXPR_GROUPING (number_expr G e)) k
     | EXPR_LITERAL l \<Rightarrow> Mk_Expr (EXPR_LITERAL l) k
     | EXPR_VARIABLE t \<Rightarrow> Mk_Expr (EXPR_VARIABLE t) (scope_depth G (shown_lexeme t))
     | EXPR_ASSIGNMENT t e \<Rightarrow> Mk_Expr (EXPR_ASSIGNMENT t (number_expr G e)) (scope_depth G (shown_lexeme t))
     | EXPR_LOGICAL l r t \<Rightarrow> Mk_Expr (EXPR_LOGICAL (number_expr G l) (number_expr G r) t) k
     | EXPR_CALL c t as \<Rightarrow> Mk_Expr (EXPR_CALL (number_expr G c) t (map (\<lambda>a. the (number_expr G (Some a))) as)) k
     | EXPR_GET e t \<Rightarrow> Mk_Expr (EXPR_GET (number_expr G e) t) k
     | EXPR_SET e t v \<Rightarrow> Mk_Expr (EXPR_SET (number_expr G e) t (number_expr G v)) k
     | EXPR_THIS t \<Rightarrow> Mk_Expr (EXPR_THIS t) (scope_depth G (shown_lexeme t))
     | EXPR_SUPER t m \<Rightarrow> Mk_Expr (EXPR_SUPER t m) (scope_depth G (shown_lexeme t)))"

text \<open>
  Trees the resolver can walk: no missing child, names present and short enough for the buffer of
  \<^verbatim>\<open>parse_error\<close>.
\<close>

definition reportable :: "Token \<Rightarrow> bool" where
  "reportable t \<longleftrightarrow> tk_lexeme t \<noteq> None \<and> 100 + dec_digits (tk_line t) + length (shown_lexeme t) < LINEBUFSIZE"

fun resolvable :: "Expr option \<Rightarrow> bool" where
  "resolvable None = False"
| "resolvable (Some (Mk_Expr real k)) = (case real of
       EXPR_UNARY _ e \<Rightarrow> resolvable e
     | EXPR_BINARY _ l r \<Rightarrow> resolvable l \<and> resolvable r
     | EXPR_GROUPING e \<Rightarrow> resolvable e
     | EXPR_LITERAL _ \<Rightarrow> True
     | EXPR_VARIABLE t \<Rightarrow> reportable t
     | EXPR_ASSIGNMENT t e \<Rightarrow> reportable t \<and> resolvable e
     | EXPR_LOGICAL l r _ \<Rightarrow> resolvable l \<and> resolvable r
     | EXPR_CALL c _ as \<Rightarrow> resolvable c \<and> list_all (\<lambda>a. resolvable (Some a)) as
     | EXPR_GET e _ \<Rightarrow> resolvable e
     | EXPR_SET e _ v \<Rightarrow> resolvable e \<and> resolvable v
     | EXPR_THIS t \<Rightarrow> reportable t
     | EXPR_SUPER t _ \<Rightarrow> reportable t)"

section \<open>Scopes as dictionaries and as lists of names\<close>

definition names :: "nat Dictionary \<Rightarrow> string set" where
  "names d = {x. dict_abs d x \<noteq> None}"

definition scope_ok :: "nat \<Rightarrow> nat Dictionary \<Rightarrow> bool" where
  "scope_ok n d \<longleftrightarrow> dict_inv d \<and> (\<forall>x v. dict_abs d x = Some v \<longrightarrow> (\<exists>p < n. v = Some p))"

definition models :: "RS \<Rightarrow> string list list \<Rightarrow> bool" where
  "models s G \<longleftrightarrow> list_all (scope_ok (length (rs_flags s))) (rs_scopes s) \<and> map names (rs_scopes s) = map set G"

lemma models_err [simp]: "models (s\<lparr>rs_err := es\<rparr>) G = models s G"
  "models (s\<lparr>rs_function := f\<rparr>) G = models s G" "models (s\<lparr>rs_class := c\<rparr>) G = models s G"
  by (simp_all add: models_def)

lemma contains_names: "scope_ok n d \<Longrightarrow> dict_contains (Some d) x \<longleftrightarrow> x \<in> names d"
  by (simp add: scope_ok_def names_def dict_contains_abs)

lemma dict_get_abs: "dict_inv d \<Longrightarrow> dict_get (Some d) x = (case dict_abs d x of None \<Rightarrow> None | Some v \<Rightarrow> v)"
  by (simp add: dict_get_def dict_get_bucket_abs split: option.split)

lemma dict_get_flag: "scope_ok n d \<Longrightarrow> x \<in> names d \<Longrightarrow> \<exists>p < n. dict_get (Some d) x = Some p"
  by (fastforce simp: scope_ok_def names_def dict_get_abs)

lemma find_map: "List.find P (map f xs) = map_option f (List.find (\<lambda>x. P (f x)) xs)"
  by (induction xs) auto

lemma local_order_depth:
  assumes "list_all (scope_ok n) ds" "map names ds = map set G"
  shows "local_order ds i x = (case List.find (\<lambda>i. x \<in> set (G ! i)) [0..<length G] of None \<Rightarrow> UINT_MAX | Some k \<Rightarrow> i + k)"
  using assms
proof (induction ds arbitrary: G i)
  case (Cons d ds)
  then obtain S G' where G: "G = S # G'" "names d = set S" "map names ds = map set G'" by (cases G) auto
  have u: "[0..<length G] = 0 # map Suc [0..<length G']" using G by (simp add: map_Suc_upt upt_conv_Cons del: upt_Suc)
  have "List.find (\<lambda>i. x \<in> set (G ! i)) [0..<length G]
      = (if x \<in> set S then Some 0 else map_option Suc (List.find (\<lambda>i. x \<in> set (G' ! i)) [0..<length G']))"
    by (simp only: u) (simp add: G find_map)
  with Cons.IH [OF _ G(3), of "Suc i"] Cons.prems(1) G(2) contains_names [of n d x] show ?case
    by (auto split: option.split)
qed simp

lemma resolve_local_models:
  assumes "models s G" "tk_lexeme name \<noteq> None"
  shows "resolve_local e name s = Inr (Mk_Expr (ex_expr e) (scope_depth G (shown_lexeme name)))"
proof -
  obtain x where x: "tk_lexeme name = Some x" using assms(2) by blast
  have "local_order (rs_scopes s) 0 x = scope_depth G x"
    using assms(1) local_order_depth [of _ "rs_scopes s" G 0 x] by (auto simp: models_def scope_depth_def split: option.split)
  moreover have "rs_scopes s = [] \<Longrightarrow> scope_depth G x = UINT_MAX"
    using assms(1) by (auto simp: models_def scope_depth_def)
  ultimately show ?thesis using x by (simp add: resolve_local_def lexeme_of_def shown_lexeme_def)
qed

lemma resolve_error_reports:
  assumes "reportable t" "length msg \<le> 64"
  shows "\<exists>e. resolve_error t msg s = Inr (s\<lparr>rs_err := rs_err s @ [e]\<rparr>)"
  using assms by (auto simp: resolve_error_def parse_error_def reportable_def)

section \<open>Expressions\<close>

text \<open>
  The outcome of a visit: at most errors are added to the state, and without an error the visit
  succeeds with the numbered tree.
\<close>

definition numbered :: "string list list \<Rightarrow> Expr \<Rightarrow> RS \<Rightarrow> ((bool \<times> Expr) \<times> RS) result \<Rightarrow> bool" where
  "numbered G e s r \<longleftrightarrow> (\<exists>ok e' es. r = Inr ((ok, e'), s\<lparr>rs_err := rs_err s @ es\<rparr>)
     \<and> (es = [] \<longrightarrow> ok \<and> Some e' = number_expr G (Some e)))"

definition numbered_opt :: "string list list \<Rightarrow> Expr option \<Rightarrow> RS \<Rightarrow> ((bool \<times> Expr option) \<times> RS) result \<Rightarrow> bool" where
  "numbered_opt G e s r \<longleftrightarrow> (\<exists>ok e' es. r = Inr ((ok, Some e'), s\<lparr>rs_err := rs_err s @ es\<rparr>)
     \<and> (es = [] \<longrightarrow> ok \<and> Some e' = number_expr G e))"

lemma numbered_optE:
  assumes "numbered_opt G e s r"
  obtains ok e' es where "r = Inr ((ok, Some e'), s\<lparr>rs_err := rs_err s @ es\<rparr>)"
    "es = [] \<Longrightarrow> ok \<and> number_expr G e = Some e'"
  using assms unfolding numbered_opt_def by metis

lemma numberedI:
  assumes "r = Inr ((ok, e'), s\<lparr>rs_err := rs_err s @ es\<rparr>)" "es = [] \<Longrightarrow> ok \<and> Some e' = number_expr G (Some e)"
  shows "numbered G e s r"
  unfolding numbered_def using assms by blast

lemma error_numbers:
  assumes "reportable t" "length msg \<le> 64"
  shows "numbered G e s (bind_result (resolve_error t msg s) (\<lambda>s1. Inr ((False, e'), s1)))"
proof -
  obtain x where "resolve_error t msg s = Inr (s\<lparr>rs_err := rs_err s @ [x]\<rparr>)" using resolve_error_reports [OF assms] by blast
  then show ?thesis by (intro numberedI [where es = "[x]" and ok = False and e' = e']) simp_all
qed

lemma found_numbers: "number_expr G (Some e) = Some e' \<Longrightarrow> numbered G e s (Inr ((True, e'), s))"
  by (rule numberedI [where es = "[]"]) simp_all

lemma no_error [simp]: "s\<lparr>rs_err := rs_err s @ []\<rparr> = s" "s\<lparr>rs_err := rs_err s\<rparr> = s"
  by simp_all

text \<open>
  The knot of the recursion, as an interface: \<open>rec\<close> numbers every tree smaller than \<open>K\<close>. The
  visits of the resolver number the trees whose children are.
\<close>

locale numbers_exprs =
  fixes rec :: expr_resolver and K :: nat
  assumes rec_numbers: "resolvable (Some e) \<Longrightarrow> size e < K \<Longrightarrow> models s G \<Longrightarrow> numbered_opt G (Some e) s (rec (Some e) s)"
begin

lemma rec_opt:
  assumes "resolvable e" "size_option size e \<le> K" "models s G"
  shows "numbered_opt G e s (rec e s)"
  using assms by (cases e) (auto intro: rec_numbers)

lemma both_numbers:
  assumes "resolvable l" "resolvable r" "size_option size l \<le> K" "size_option size r \<le> K" "models s G"
    and "\<And>l' r'. number_expr G l = Some l' \<Longrightarrow> number_expr G r = Some r' \<Longrightarrow> number_expr G (Some e) = Some (mk (Some l') (Some r'))"
  shows "numbered G e s (resolve_both rec l r mk s)"
proof -
  from rec_opt [OF assms(1,3,5)] obtain ok l' es where
    1: "rec l s = Inr ((ok, Some l'), s\<lparr>rs_err := rs_err s @ es\<rparr>)" "es = [] \<Longrightarrow> ok \<and> number_expr G l = Some l'"
    by (erule numbered_optE)
  let ?s = "s\<lparr>rs_err := rs_err s @ es\<rparr>"
  show ?thesis
  proof (cases ok)
    case False
    with 1 show ?thesis by (intro numberedI [where es = es and ok = False and e' = "mk (Some l') r"]) (auto simp: resolve_both_def)
  next
    case True
    have "models ?s G" using assms(5) by simp
    from rec_opt [OF assms(2,4) this] obtain ok' r' es' where
      2: "rec r ?s = Inr ((ok', Some r'), ?s\<lparr>rs_err := rs_err ?s @ es'\<rparr>)" "es' = [] \<Longrightarrow> ok' \<and> number_expr G r = Some r'"
      by (erule numbered_optE)
    with 1 True show ?thesis
      by (intro numberedI [where es = "es @ es'" and ok = ok' and e' = "mk (Some l') (Some r')"]) (auto simp: resolve_both_def assms(6))
  qed
qed

lemma one_numbers:
  assumes "resolvable l" "size_option size l \<le> K" "models s G"
    and "\<And>l'. number_expr G l = Some l' \<Longrightarrow> number_expr G (Some e) = Some (mk (Some l'))"
  shows "numbered G e s (resolve_one rec l mk s)"
  using rec_opt [OF assms(1-3)]
  by (elim numbered_optE, intro numberedI) (auto simp: resolve_one_def assms(4))

lemma args_number:
  assumes "list_all (\<lambda>a. resolvable (Some a)) as" "\<forall>a \<in> set as. size a < K" "models s G" "0 < k"
  shows "\<exists>n as' es. call_args_loop rec k as s = Inr ((n, as'), s\<lparr>rs_err := rs_err s @ es\<rparr>) \<and> 0 < n
    \<and> (es = [] \<longrightarrow> as' = map (\<lambda>a. the (number_expr G (Some a))) as)"
  using assms
proof (induction as arbitrary: k s)
  case Nil
  then show ?case by (auto intro!: exI [where x = "[]"])
next
  case (Cons a as)
  then have "numbered_opt G (Some a) s (rec (Some a) s)" by (simp add: rec_numbers)
  then obtain ok a' es where
    1: "rec (Some a) s = Inr ((ok, Some a'), s\<lparr>rs_err := rs_err s @ es\<rparr>)" "es = [] \<Longrightarrow> ok \<and> number_expr G (Some a) = Some a'"
    by (erule numbered_optE)
  let ?s = "s\<lparr>rs_err := rs_err s @ es\<rparr>"
  from Cons.IH [of ?s "k + of_bool ok"] Cons.prems obtain n as' es' where
    2: "call_args_loop rec (k + of_bool ok) as ?s = Inr ((n, as'), ?s\<lparr>rs_err := rs_err ?s @ es'\<rparr>)" "0 < n"
      "es' = [] \<Longrightarrow> as' = map (\<lambda>a. the (number_expr G (Some a))) as"
    by auto
  with 1 Cons.prems(4) show ?case
    by (intro exI [where x = n] exI [where x = "a' # as'"] exI [where x = "es @ es'"]) (simp add: Let_def)
qed

text \<open>\<^verbatim>\<open>accept_expr\<close> with the visitor of the resolver, on every kind of expression.\<close>

lemma var_numbers:
  assumes "ex_expr e = EXPR_VARIABLE t" "reportable t" "models s G"
  shows "numbered G e s (visit_var_expr_resolver e s)"
proof -
  obtain x where x: "tk_lexeme t = Some x" using assms(2) by (auto simp: reportable_def)
  have l: "resolve_local e t s = Inr (Mk_Expr (EXPR_VARIABLE t) (scope_depth G (shown_lexeme t)))"
    using resolve_local_models [OF assms(3), of t e] assms(1) x by simp
  have n: "number_expr G (Some e) = Some (Mk_Expr (EXPR_VARIABLE t) (scope_depth G (shown_lexeme t)))"
    using assms(1) by (cases e) simp
  from assms(1,2) l n x show ?thesis
    by (auto simp: visit_var_expr_resolver_def lexeme_of_def Let_def intro!: found_numbers error_numbers split: list.split option.split)
qed

lemma this_numbers:
  assumes "ex_expr e = EXPR_THIS t" "reportable t" "models s G"
  shows "numbered G e s (visit_this_expr_resolver e s)"
proof -
  have "resolve_local e t s = Inr (Mk_Expr (EXPR_THIS t) (scope_depth G (shown_lexeme t)))"
    using resolve_local_models [OF assms(3), of t e] assms by (simp add: reportable_def)
  moreover have "number_expr G (Some e) = Some (Mk_Expr (EXPR_THIS t) (scope_depth G (shown_lexeme t)))"
    using assms(1) by (cases e) simp
  ultimately show ?thesis
    using assms(1,2) by (auto simp: visit_this_expr_resolver_def intro!: found_numbers error_numbers)
qed

lemma super_numbers:
  assumes "ex_expr e = EXPR_SUPER t m" "reportable t" "models s G"
  shows "numbered G e s (visit_super_expr_resolver e s)"
proof -
  have "resolve_local e t s = Inr (Mk_Expr (EXPR_SUPER t m) (scope_depth G (shown_lexeme t)))"
    using resolve_local_models [OF assms(3), of t e] assms by (simp add: reportable_def)
  moreover have "number_expr G (Some e) = Some (Mk_Expr (EXPR_SUPER t m) (scope_depth G (shown_lexeme t)))"
    using assms(1) by (cases e) simp
  ultimately show ?thesis
    using assms(1,2) by (auto simp: visit_super_expr_resolver_def intro!: found_numbers error_numbers)
qed

lemma assign_numbers:
  assumes "ex_expr e = EXPR_ASSIGNMENT t r" "reportable t" "resolvable r" "size_option size r \<le> K" "models s G"
  shows "numbered G e s (visit_assign_expr_resolver rec e s)"
proof -
  from rec_opt [OF assms(3-5)] obtain ok r' es where
    1: "rec r s = Inr ((ok, Some r'), s\<lparr>rs_err := rs_err s @ es\<rparr>)" "es = [] \<Longrightarrow> ok \<and> number_expr G r = Some r'"
    by (erule numbered_optE)
  have "number_expr G (Some e) = Some (Mk_Expr (EXPR_ASSIGNMENT t (number_expr G r)) (scope_depth G (shown_lexeme t)))"
    using assms(1) by (cases e) simp
  with 1 assms(1,2,5) show ?thesis
    by (intro numberedI [where es = es and ok = ok and e' = "Mk_Expr (EXPR_ASSIGNMENT t (Some r')) (if ok then scope_depth G (shown_lexeme t) else ex_order e)"])
      (auto simp: visit_assign_expr_resolver_def Let_def resolve_local_models [where G = G] reportable_def)
qed

lemma call_numbers:
  assumes "ex_expr e = EXPR_CALL c t as" "resolvable c" "size_option size c \<le> K" "models s G"
    and "list_all (\<lambda>a. resolvable (Some a)) as" "\<forall>a \<in> set as. size a < K"
  shows "numbered G e s (visit_call_expr_resolver rec e s)"
proof -
  from rec_opt [OF assms(2-4)] obtain ok c' es where
    1: "rec c s = Inr ((ok, Some c'), s\<lparr>rs_err := rs_err s @ es\<rparr>)" "es = [] \<Longrightarrow> ok \<and> number_expr G c = Some c'"
    by (erule numbered_optE)
  let ?s = "s\<lparr>rs_err := rs_err s @ es\<rparr>"
  have n: "number_expr G (Some e) = Some (Mk_Expr (EXPR_CALL (number_expr G c) t (map (\<lambda>a. the (number_expr G (Some a))) as)) (ex_order e))"
    using assms(1) by (cases e) simp
  show ?thesis
  proof (cases ok)
    case False
    with 1 assms(1) show ?thesis
      by (intro numberedI [where es = es and ok = False and e' = "Mk_Expr (EXPR_CALL (Some c') t as) (ex_order e)"])
        (auto simp: visit_call_expr_resolver_def)
  next
    case True
    have "models ?s G" using assms(4) by simp
    from args_number [OF assms(5,6) this, of 1] obtain k as' es' where
      2: "call_args_loop rec 1 as ?s = Inr ((k, as'), ?s\<lparr>rs_err := rs_err ?s @ es'\<rparr>)" "0 < k"
        "es' = [] \<longrightarrow> as' = map (\<lambda>a. the (number_expr G (Some a))) as" by auto
    with 1 True assms(1) n show ?thesis
      by (intro numberedI [where es = "es @ es'" and ok = True and e' = "Mk_Expr (EXPR_CALL (Some c') t as') (ex_order e)"])
        (auto simp: visit_call_expr_resolver_def)
  qed
qed

lemma accept_numbers:
  assumes "resolvable (Some e)" "size e \<le> K" "models s G"
  shows "numbered G e s (accept_expr (ExpressionResolver rec) (Some e) s)"
proof -
  obtain real k where e: "e = Mk_Expr real k" by (cases e)
  note numbers = both_numbers [OF _ _ _ _ assms(3)] one_numbers [OF _ _ assms(3)] var_numbers [OF _ _ assms(3)] this_numbers [OF _ _ assms(3)]
    super_numbers [OF _ _ assms(3)] assign_numbers [OF _ _ _ _ assms(3)] call_numbers [OF _ _ _ assms(3)]
  show ?thesis
    using assms(1,2)
    by (cases real) (auto simp: e accept_expr_def ExpressionResolver_def visit_binary_expr_resolver_def visit_logical_expr_resolver_def
      visit_set_expr_resolver_def visit_unary_expr_resolver_def visit_grouping_expr_resolver_def visit_get_expr_resolver_def
      visit_literal_expr_resolver_def
      intro!: numbers found_numbers dest: size_list_estimation' [where f = size])
qed

end

lemma numbered_Some:
  assumes "numbered G e s r"
  shows "numbered_opt G (Some e) s (bind_result r (\<lambda>((ok, e), s1). Inr ((ok, Some e), s1)))"
proof -
  from assms obtain ok e' es where "r = Inr ((ok, e'), s\<lparr>rs_err := rs_err s @ es\<rparr>)" "es = [] \<longrightarrow> ok \<and> Some e' = number_expr G (Some e)"
    unfolding numbered_def by blast
  then show ?thesis unfolding numbered_opt_def by (intro exI [where x = ok] exI [where x = e'] exI [where x = es]) simp
qed

lemma resolve_expr_numbers:
  "resolvable (Some e) \<Longrightarrow> size e < n \<Longrightarrow> models s G \<Longrightarrow> numbered_opt G (Some e) s (resolve_expr n (Some e) s)"
proof (induction n arbitrary: e s G)
  case (Suc n)
  have "numbers_exprs (resolve_expr n) n" by unfold_locales (rule Suc.IH)
  from numbers_exprs.accept_numbers [OF this Suc.prems(1) _ Suc.prems(3)] Suc.prems(2) show ?case
    by (simp add: numbered_Some)
qed simp

interpretation resolved: numbers_exprs "resolve_expr n" n for n
  by unfold_locales (rule resolve_expr_numbers)

section \<open>Statements\<close>

definition params :: "Token list \<Rightarrow> string list" where
  "params args = rev (map shown_lexeme args)"

text \<open>The numbering of statements, with the scopes that follow them.\<close>

fun number_stmt :: "string list list \<Rightarrow> Stmt \<Rightarrow> Stmt \<times> string list list"
and number_opt :: "string list list \<Rightarrow> Stmt option \<Rightarrow> Stmt option \<times> string list list"
and number_stmts :: "string list list \<Rightarrow> Stmt option list \<Rightarrow> Stmt option list \<times> string list list"
and number_body :: "string list list \<Rightarrow> Stmt option \<Rightarrow> Stmt option"
and number_methods :: "string list list \<Rightarrow> Stmt option list \<Rightarrow> Stmt option list" where
  "number_stmt G (STMT_PRINT e) = (STMT_PRINT (number_expr G e), G)"
| "number_stmt G (STMT_VAR_DECLARATION e t) =
     (STMT_VAR_DECLARATION (number_expr (enter G (shown_lexeme t)) e) t, enter G (shown_lexeme t))"
| "number_stmt G (STMT_BLOCK sts) = (STMT_BLOCK (fst (number_stmts ([] # G) sts)), G)"
| "number_stmt G (STMT_EXPR e) = (STMT_EXPR (number_expr G e), G)"
| "number_stmt G (STMT_IF_ELSE c th el) =
     (let r = number_opt G th; r' = number_opt (snd r) el in (STMT_IF_ELSE (number_expr G c) (fst r) (fst r'), snd r'))"
| "number_stmt G (STMT_WHILE c b) = (let r = number_opt G b in (STMT_WHILE (number_expr G c) (fst r), snd r))"
| "number_stmt G (STMT_FUN args t body) =
     (STMT_FUN args t (number_body (params args # enter G (shown_lexeme t)) body), enter G (shown_lexeme t))"
| "number_stmt G (STMT_RETURN t v) = (STMT_RETURN t (number_expr G v), G)"
| "number_stmt G (STMT_CLASS t ms super) =
     (let H = enter G (shown_lexeme t); H' = [''this''] # (if super = None then H else [''super''] # H)
      in (STMT_CLASS t (number_methods H' ms) (number_expr H super), H))"
| "number_opt G None = (None, G)"
| "number_opt G (Some st) = (let r = number_stmt G st in (Some (fst r), snd r))"
| "number_stmts G [] = ([], G)"
| "number_stmts G (st # sts) = (let r = number_opt G st; r' = number_stmts (snd r) sts in (fst r # fst r', snd r'))"
| "number_body G b = (case b of Some (STMT_BLOCK sts) \<Rightarrow> Some (STMT_BLOCK (fst (number_stmts G sts))) | _ \<Rightarrow> b)"
| "number_methods G [] = []"
| "number_methods G (m # ms) = (case m of Some (STMT_FUN args t b) \<Rightarrow> Some (STMT_FUN args t (number_body (params args # G) b)) | _ \<Rightarrow> m)
     # number_methods G ms"

fun walkable :: "Stmt option \<Rightarrow> bool" where
  "walkable None = False"
| "walkable (Some st) = (case st of
     STMT_PRINT e \<Rightarrow> resolvable e
   | STMT_VAR_DECLARATION e t \<Rightarrow> (e = None \<or> resolvable e) \<and> reportable t
   | STMT_BLOCK sts \<Rightarrow> sts \<noteq> [] \<and> list_all walkable sts
   | STMT_EXPR e \<Rightarrow> resolvable e
   | STMT_IF_ELSE c th el \<Rightarrow> resolvable c \<and> walkable th \<and> (el = None \<or> walkable el)
   | STMT_WHILE c b \<Rightarrow> resolvable c \<and> walkable b
   | STMT_FUN args t body \<Rightarrow> list_all reportable args \<and> reportable t
       \<and> walkable body \<and> (case body of Some (STMT_BLOCK _) \<Rightarrow> True | _ \<Rightarrow> False)
   | STMT_RETURN t v \<Rightarrow> reportable t \<and> (v = None \<or> resolvable v)
   | STMT_CLASS t ms super \<Rightarrow> reportable t \<and> (super = None \<or> resolvable super)
       \<and> list_all (\<lambda>m. walkable m \<and> (case m of Some (STMT_FUN _ _ _) \<Rightarrow> True | _ \<Rightarrow> False)) ms)"

fun weight :: "Stmt option \<Rightarrow> nat" where
  "weight None = 0"
| "weight (Some st) = Suc (case st of
     STMT_PRINT e \<Rightarrow> size_option size e
   | STMT_VAR_DECLARATION e t \<Rightarrow> size_option size e
   | STMT_BLOCK sts \<Rightarrow> sum_list (map weight sts)
   | STMT_EXPR e \<Rightarrow> size_option size e
   | STMT_IF_ELSE c th el \<Rightarrow> size_option size c + weight th + weight el
   | STMT_WHILE c b \<Rightarrow> size_option size c + weight b
   | STMT_FUN args t body \<Rightarrow> weight body
   | STMT_RETURN t v \<Rightarrow> size_option size v
   | STMT_CLASS t ms super \<Rightarrow> sum_list (map weight ms) + size_option size super)"

text \<open>How a statement moves the static variables: only the innermost scope grows.\<close>

definition grown :: "RS \<Rightarrow> RS \<Rightarrow> parse_report list \<Rightarrow> string list list \<Rightarrow> string list list \<Rightarrow> bool" where
  "grown s s' es G H \<longleftrightarrow> rs_function s' = rs_function s \<and> rs_class s' = rs_class s \<and> rs_err s' = rs_err s @ es
     \<and> models s' H \<and> length H = length G \<and> tl H = tl G \<and> tl (rs_scopes s') = tl (rs_scopes s)"

lemma grown_refl: "models s G \<Longrightarrow> grown s s [] G G"
  by (simp add: grown_def)

lemma grown_trans: "grown s s1 es G H \<Longrightarrow> grown s1 s2 es' H H' \<Longrightarrow> grown s s2 (es @ es') G H'"
  by (simp add: grown_def)

lemma grown_models: "grown s s' es G H \<Longrightarrow> models s' H"
  by (simp add: grown_def)

definition resolves :: "string list list \<Rightarrow> 'a \<times> string list list \<Rightarrow> RS \<Rightarrow> ((bool \<times> 'a) \<times> RS) result \<Rightarrow> bool" where
  "resolves G ref s r \<longleftrightarrow> (\<exists>ok x s' es H. r = Inr ((ok, x), s') \<and> grown s s' es G H \<and> (es = [] \<longrightarrow> ok \<and> (x, H) = ref))"

lemma resolvesI:
  "r = Inr ((ok, x), s') \<Longrightarrow> grown s s' es G H \<Longrightarrow> (es = [] \<Longrightarrow> ok \<and> (x, H) = ref) \<Longrightarrow> resolves G ref s r"
  unfolding resolves_def by blast

lemma resolvesE:
  assumes "resolves G ref s r"
  obtains ok x s' es H where "r = Inr ((ok, x), s')" "grown s s' es G H" "es = [] \<Longrightarrow> ok \<and> ref = (x, H)"
  using assms unfolding resolves_def by blast

lemma numbered_opt_resolves: "numbered_opt G e s r \<Longrightarrow> models s G \<Longrightarrow> resolves G (number_expr G e, G) s r"
proof (erule numbered_optE)
  fix ok e' es assume "models s G" "r = Inr ((ok, Some e'), s\<lparr>rs_err := rs_err s @ es\<rparr>)" "es = [] \<Longrightarrow> ok \<and> number_expr G e = Some e'"
  then show ?thesis by (intro resolvesI [where es = es and H = G and ok = ok and x = "Some e'"]) (auto simp: grown_def)
qed

lemma resolves_map:
  assumes "resolves G ref s r" "\<And>x H. ref = (x, H) \<Longrightarrow> ref' = (f x, H)"
  shows "resolves G ref' s (bind_result r (\<lambda>((ok, x), s1). Inr ((ok, f x), s1)))"
  using assms(1) by (elim resolvesE, intro resolvesI) (auto simp: assms(2))

section \<open>Declarations\<close>

lemma models_begin: "models s G \<Longrightarrow> models (scope_begin_rs s) ([] # G)"
  by (simp add: models_def scope_begin_rs_def scope_ok_def new_dict_inv new_dict_abs names_def)

lemma models_add:
  assumes "models s (S # G)" "x \<notin> set S"
  shows "models (add_flag x v s) ((x # S) # G)" "tl (rs_scopes (add_flag x v s)) = tl (rs_scopes s)"
proof -
  obtain d ds where d: "rs_scopes s = d # ds" "names d = set S" using assms(1) by (cases "rs_scopes s") (auto simp: models_def)
  let ?d = "added d x (Some (length (rs_flags s)))"
  have inv: "dict_inv d" and none: "dict_abs d x = None" using assms d by (auto simp: models_def scope_ok_def names_def)
  have abs: "dict_abs ?d = (dict_abs d)(x \<mapsto> Some (length (rs_flags s)))" using added_abs [OF inv, of x] none by simp
  have "names ?d = insert x (names d)" by (auto simp: names_def abs)
  moreover have "scope_ok (Suc (length (rs_flags s))) ?d"
    using assms(1) d(1) added_inv [OF inv] by (fastforce simp: scope_ok_def abs models_def)
  moreover have "list_all (scope_ok (Suc (length (rs_flags s)))) ds"
    using assms(1) d(1) by (fastforce simp: models_def scope_ok_def list_all_iff)
  ultimately show "models (add_flag x v s) ((x # S) # G)" "tl (rs_scopes (add_flag x v s)) = tl (rs_scopes s)"
    using assms(1) d by (simp_all add: models_def add_flag_def added_def [symmetric])
qed

lemma declare_grows:
  assumes "models s G" "reportable t"
  shows "\<exists>ok s' es. declare_rs t s = Inr (ok, s') \<and> grown s s' es G (enter G (shown_lexeme t))"
proof (cases "rs_scopes s")
  case Nil
  then have "G = []" using assms(1) by (simp add: models_def)
  with Nil assms(1) have "grown s s [] G (enter G (shown_lexeme t))" by (simp add: enter_def grown_refl)
  with Nil show ?thesis by (auto simp: declare_rs_def)
next
  case (Cons d ds)
  then obtain S G' where G: "G = S # G'" "names d = set S" "scope_ok (length (rs_flags s)) d"
    using assms(1) by (cases G) (auto simp: models_def)
  obtain x where x: "tk_lexeme t = Some x" "shown_lexeme t = x" using assms(2) by (auto simp: reportable_def shown_lexeme_def)
  show ?thesis
  proof (cases "x \<in> set S")
    case True
    obtain err where "resolve_error t ''Variable with this name already declared in this scope.'' s = Inr (s\<lparr>rs_err := rs_err s @ [err]\<rparr>)"
      using resolve_error_reports [OF assms(2), of "''Variable with this name already declared in this scope.''" s] by auto
    moreover have "set (x # S) = set S" using True by auto
    ultimately show ?thesis using assms(1) Cons G True x
      by (auto simp: declare_rs_def lexeme_of_def contains_names enter_def grown_def models_def)
  next
    case False
    then have "grown s (add_flag x 0 s) [] G (enter G x)"
      using models_add [of s S G' x 0] assms(1) G(1) Cons by (simp add: grown_def enter_def add_flag_def)
    with False Cons G x show ?thesis by (auto simp: declare_rs_def lexeme_of_def contains_names)
  qed
qed

lemma define_keeps:
  assumes "models s (enter G (shown_lexeme t))" "reportable t" "16 \<le> usable (4 :: nat)"
  shows "\<exists>s'. define_rs usable t s = Inr s' \<and> grown s s' [] (enter G (shown_lexeme t)) (enter G (shown_lexeme t))"
proof (cases "rs_scopes s")
  case Nil
  then show ?thesis using assms(1) by (auto simp: define_rs_def intro: grown_refl)
next
  case (Cons d ds)
  obtain x where x: "tk_lexeme t = Some x" "shown_lexeme t = x" using assms(2) by (auto simp: reportable_def shown_lexeme_def)
  have "x \<in> names d" "scope_ok (length (rs_flags s)) d"
    using assms(1) Cons x by (auto simp: models_def enter_def split: list.splits)
  then obtain p where "dict_get (Some d) x = Some p" using dict_get_flag by blast
  then show ?thesis using assms x Cons
    by (auto simp: define_rs_def lexeme_of_def dict_set_def inside_block_def grown_def models_def)
qed

lemma declare_define:
  assumes "models s G" "reportable t" "16 \<le> usable 4"
  shows "\<exists>s' es. bind_result (declare_rs t s) (\<lambda>(_, s1). bind_result (define_rs usable t s1) f) = f s'
    \<and> grown s s' es G (enter G (shown_lexeme t))"
proof -
  from declare_grows [OF assms(1,2)] obtain ok s1 es where 1: "declare_rs t s = Inr (ok, s1)" "grown s s1 es G (enter G (shown_lexeme t))"
    by blast
  from define_keeps [where usable = usable, OF grown_models [OF 1(2)] assms(2,3)] obtain s2 where
    2: "define_rs usable t s1 = Inr s2" "grown s1 s2 [] (enter G (shown_lexeme t)) (enter G (shown_lexeme t))" by blast
  from 1 2 grown_trans [OF 1(2) 2(2)] show ?thesis by auto
qed

lemma args_grow:
  assumes "models s (S # G)" "list_all reportable ts" "16 \<le> usable 4"
  shows "\<exists>s' es. fun_args_iterator usable ts s = Inr s' \<and> grown s s' es (S # G) ((params ts @ S) # G)"
  using assms
proof (induction ts arbitrary: s S)
  case (Cons t ts)
  then obtain s1 es where 1: "fun_args_iterator usable (t # ts) s = fun_args_iterator usable ts s1"
      "grown s s1 es (S # G) (enter (S # G) (shown_lexeme t))"
    using declare_define [of s "S # G" t usable "fun_args_iterator usable ts"] by auto
  then have "models s1 ((shown_lexeme t # S) # G)" by (auto simp: grown_def enter_def)
  from Cons.IH [OF this] Cons.prems obtain s2 es' where
    2: "fun_args_iterator usable ts s1 = Inr s2" "grown s1 s2 es' ((shown_lexeme t # S) # G) ((params ts @ shown_lexeme t # S) # G)" by auto
  from 1(2) have "grown s s1 es (S # G) ((shown_lexeme t # S) # G)" by (simp add: enter_def)
  from grown_trans [OF this 2(2)] 1 2 show ?case by (auto simp: params_def)
qed (auto simp: params_def intro: grown_refl)

lemma begin_add:
  assumes "models s G"
  shows "grown (scope_begin_rs s) (fst (scope_add x 1 (scope_begin_rs s))) [] ([] # G) ([x] # G)"
  using models_add [OF models_begin [OF assms], of x 1] by (simp add: grown_def scope_add_def add_flag_def scope_begin_rs_def)

lemma end_scope:
  assumes "grown (scope_begin_rs s) s' es ([] # G) H" "models s G"
  shows "\<exists>s''. scope_end_rs s' = Inr s'' \<and> grown s s'' es G G \<and> rs_scopes s'' = rs_scopes s \<and> rs_err s'' = rs_err s'"
proof -
  obtain S where H: "H = S # G" using assms(1) by (cases H) (auto simp: grown_def)
  obtain d where d: "rs_scopes s' = d # rs_scopes s"
    using assms(1) H by (cases "rs_scopes s'") (auto simp: grown_def models_def scope_begin_rs_def)
  then have "grown s (s'\<lparr>rs_scopes := rs_scopes s\<rparr>) es G G"
    using assms(1) H by (simp add: grown_def models_def scope_begin_rs_def)
  with d show ?thesis by (auto simp: scope_end_rs_def)
qed

locale resolves_stmts = numbers_exprs +
  fixes usable :: "nat \<Rightarrow> nat" and rec_stmt :: stmt_resolver
  assumes slack: "16 \<le> usable 4"
    and rec_resolves: "walkable st \<Longrightarrow> weight st \<le> K \<Longrightarrow> models s G \<Longrightarrow> resolves G (number_opt G st) s (rec_stmt st s)"
begin

lemma optional_numbers:
  assumes "e = None \<or> resolvable e" "size_option size e \<le> K" "models s G"
  shows "\<exists>ok e' es. resolve_optional rec e s = Inr ((ok, e'), s\<lparr>rs_err := rs_err s @ es\<rparr>) \<and> (es = [] \<longrightarrow> ok \<and> e' = number_expr G e)"
proof (cases e)
  case None
  then show ?thesis
    by (intro exI [where x = True] exI [where x = None] exI [where x = "[]"]) (simp add: resolve_optional_def)
next
  case (Some x)
  with assms(1) have "numbered_opt G e s (rec e s)" by (intro rec_opt assms) simp_all
  then obtain ok e' es where "rec e s = Inr ((ok, Some e'), s\<lparr>rs_err := rs_err s @ es\<rparr>)" "es = [] \<Longrightarrow> ok \<and> number_expr G e = Some e'"
    by (erule numbered_optE)
  with Some show ?thesis
    by (intro exI [where x = ok] exI [where x = "Some e'"] exI [where x = es]) (auto simp: resolve_optional_def)
qed

lemma optional_resolves:
  assumes "e = None \<or> resolvable e" "size_option size e \<le> K" "models s G"
  shows "resolves G (number_expr G e, G) s (resolve_optional rec e s)"
  using optional_numbers [OF assms] assms(3) by (fastforce simp: resolves_def grown_def)

lemma list_resolves:
  assumes "list_all walkable sts" "sum_list (map weight sts) \<le> K" "models s G" "sts \<noteq> []"
  shows "resolves G (number_stmts G sts) s (resolve_list rec_stmt sts s)"
  using assms
proof (induction sts arbitrary: s G)
  case (Cons st sts)
  then have "resolves G (number_opt G st) s (rec_stmt st s)" by (simp add: rec_resolves)
  then obtain ok st' s1 es H where 1: "rec_stmt st s = Inr ((ok, st'), s1)" "grown s s1 es G H" "es = [] \<Longrightarrow> ok \<and> number_opt G st = (st', H)"
    by (erule resolvesE)
  show ?case
  proof (cases "ok \<and> sts \<noteq> []")
    case False
    with 1 show ?thesis
      by (intro resolvesI [where ok = ok and x = "st' # sts" and s' = s1 and es = es and H = H]) (auto simp: Let_def)
  next
    case True
    with Cons.prems have "resolves H (number_stmts H sts) s1 (resolve_list rec_stmt sts s1)"
      by (intro Cons.IH) (auto intro: grown_models 1)
    then obtain ok' sts' s2 es' H' where
      2: "resolve_list rec_stmt sts s1 = Inr ((ok', sts'), s2)" "grown s1 s2 es' H H'" "es' = [] \<Longrightarrow> ok' \<and> number_stmts H sts = (sts', H')"
      by (erule resolvesE)
    with 1 True show ?thesis
      by (intro resolvesI [OF _ grown_trans [OF 1(2) 2(2)], where ok = ok' and x = "st' # sts'"]) (auto simp: Let_def)
  qed
qed simp

text \<open>A body in a scope of its own, with names entered before it.\<close>

lemma body_resolves:
  assumes "list_all walkable sts" "sum_list (map weight sts) \<le> K" "models s G" "sts \<noteq> []"
    and "grown (scope_begin_rs s) s0 es0 ([] # G) (S # G)"
  shows "\<exists>ok sts' s1 s2 es. resolve_list rec_stmt sts s0 = Inr ((ok, sts'), s1) \<and> scope_end_rs s1 = Inr s2
    \<and> grown s s2 es G G \<and> rs_scopes s2 = rs_scopes s \<and> (es = [] \<longrightarrow> ok \<and> sts' = fst (number_stmts (S # G) sts))"
proof -
  from list_resolves [OF assms(1,2) grown_models [OF assms(5)] assms(4)] obtain ok sts' s1 es H where
    1: "resolve_list rec_stmt sts s0 = Inr ((ok, sts'), s1)" "grown s0 s1 es (S # G) H" "es = [] \<Longrightarrow> ok \<and> number_stmts (S # G) sts = (sts', H)"
    by (erule resolvesE)
  from end_scope [OF grown_trans [OF assms(5) 1(2)] assms(3)] obtain s2 where
    "scope_end_rs s1 = Inr s2" "grown s s2 (es0 @ es) G G" "rs_scopes s2 = rs_scopes s" by blast
  with 1 show ?thesis by auto
qed

lemma fun_resolves:
  assumes "list_all reportable args" "list_all walkable sts" "sts \<noteq> []" "sum_list (map weight sts) \<le> K" "models s G"
  shows "\<exists>ok s' es sts'. resolve_fun usable rec_stmt (STMT_FUN args t (Some (STMT_BLOCK sts))) type s
      = Inr ((ok, STMT_FUN args t (Some (STMT_BLOCK sts'))), s')
    \<and> grown s s' es G G \<and> rs_scopes s' = rs_scopes s \<and> (es = [] \<longrightarrow> ok \<and> sts' = fst (number_stmts (params args # G) sts))"
proof -
  let ?s = "s\<lparr>rs_function := type\<rparr>"
  have m: "models ?s G" using assms(5) by simp
  from args_grow [where usable = usable, OF models_begin [OF m] assms(1) slack] obtain s1 es where
    1: "fun_args_iterator usable args (scope_begin_rs ?s) = Inr s1" "grown (scope_begin_rs ?s) s1 es ([] # G) (params args # G)" by auto
  from body_resolves [OF assms(2,4) m assms(3) 1(2)] obtain ok sts' s2 s3 es' where
    2: "resolve_list rec_stmt sts s1 = Inr ((ok, sts'), s2)" "scope_end_rs s2 = Inr s3" "grown ?s s3 es' G G" "rs_scopes s3 = rs_scopes ?s"
      "es' = [] \<longrightarrow> ok \<and> sts' = fst (number_stmts (params args # G) sts)" by blast
  from 2(3) have "grown s (s3\<lparr>rs_function := rs_function s\<rparr>) es' G G" by (simp add: grown_def)
  with 1 2 show ?thesis by (auto simp: resolve_fun_def intro!: exI)
qed

lemma block_resolves:
  assumes "walkable (Some (STMT_BLOCK sts))" "weight (Some (STMT_BLOCK sts)) \<le> Suc K" "models s G"
  shows "resolves G (number_stmt G (STMT_BLOCK sts)) s (visit_block_stmt_resolver rec_stmt (STMT_BLOCK sts) s)"
proof -
  from body_resolves [OF _ _ assms(3) _ grown_refl [OF models_begin [OF assms(3)]], of sts] assms(1,2) obtain ok sts' s1 s2 es where
    "resolve_list rec_stmt sts (scope_begin_rs s) = Inr ((ok, sts'), s1)" "scope_end_rs s1 = Inr s2" "grown s s2 es G G"
      "es = [] \<longrightarrow> ok \<and> sts' = fst (number_stmts ([] # G) sts)" by auto
  then show ?thesis
    by (intro resolvesI [where ok = ok and x = "STMT_BLOCK sts'" and s' = s2 and es = es and H = G])
      (auto simp: visit_block_stmt_resolver_def)
qed

lemma var_resolves:
  assumes "e = None \<or> resolvable e" "reportable t" "size_option size e \<le> K" "models s G"
  shows "resolves G (number_stmt G (STMT_VAR_DECLARATION e t)) s (visit_var_stmt_resolver usable rec (STMT_VAR_DECLARATION e t) s)"
proof -
  let ?H = "enter G (shown_lexeme t)"
  from declare_grows [OF assms(4,2)] obtain d s1 es where 1: "declare_rs t s = Inr (d, s1)" "grown s s1 es G ?H" by blast
  from optional_numbers [OF assms(1,3) grown_models [OF 1(2)]] obtain ok e' es' where
    2: "resolve_optional rec e s1 = Inr ((ok, e'), s1\<lparr>rs_err := rs_err s1 @ es'\<rparr>)" "es' = [] \<longrightarrow> ok \<and> e' = number_expr ?H e"
    by blast
  let ?s = "s1\<lparr>rs_err := rs_err s1 @ es'\<rparr>"
  have g: "grown s1 ?s es' ?H ?H" using grown_models [OF 1(2)] by (simp add: grown_def)
  obtain s3 where 3: "(if ok then define_rs usable t ?s else Inr ?s) = Inr s3" "grown ?s s3 [] ?H ?H"
    using define_keeps [where usable = usable, OF grown_models [OF g] assms(2) slack] grown_refl [OF grown_models [OF g]] by (cases ok) auto
  from 1 2 3 show ?thesis
    by (intro resolvesI [OF _ grown_trans [OF grown_trans [OF 1(2) g] 3(2)], where ok = ok and x = "STMT_VAR_DECLARATION e' t"])
      (auto simp: visit_var_stmt_resolver_def)
qed

lemma if_resolves:
  assumes "resolvable c" "walkable th" "el = None \<or> walkable el" "size_option size c + weight th + weight el \<le> K" "models s G"
  shows "resolves G (number_stmt G (STMT_IF_ELSE c th el)) s (visit_if_stmt_resolver rec rec_stmt (STMT_IF_ELSE c th el) s)"
proof -
  have "resolves G (number_expr G c, G) s (rec c s)" using assms rec_opt [of c s G] by (simp add: numbered_opt_resolves)
  then obtain ok c' s1 es H where 1: "rec c s = Inr ((ok, c'), s1)" "grown s s1 es G H" "es = [] \<Longrightarrow> ok \<and> (number_expr G c, G) = (c', H)"
    by (erule resolvesE)
  show ?thesis
  proof (cases ok)
    case False
    with 1 show ?thesis
      by (intro resolvesI [OF _ 1(2), where ok = False and x = "STMT_IF_ELSE c' th el"]) (auto simp: visit_if_stmt_resolver_def)
  next
    case True
    have "resolves H (number_opt H th) s1 (rec_stmt th s1)" using assms by (intro rec_resolves grown_models [OF 1(2)]) auto
    then obtain ok' th' s2 es' H' where
      2: "rec_stmt th s1 = Inr ((ok', th'), s2)" "grown s1 s2 es' H H'" "es' = [] \<Longrightarrow> ok' \<and> number_opt H th = (th', H')"
      by (erule resolvesE)
    note g2 = grown_trans [OF 1(2) 2(2)]
    show ?thesis
    proof (cases "ok' \<and> el \<noteq> None")
      case False
      with 1 2 True show ?thesis
        by (intro resolvesI [OF _ g2, where ok = ok' and x = "STMT_IF_ELSE c' th' el"]) (auto simp: visit_if_stmt_resolver_def Let_def)
    next
      case ok': True
      have "resolves H' (number_opt H' el) s2 (rec_stmt el s2)" using assms ok' by (intro rec_resolves grown_models [OF 2(2)]) auto
      then obtain ok'' el' s3 es'' H'' where
        3: "rec_stmt el s2 = Inr ((ok'', el'), s3)" "grown s2 s3 es'' H' H''" "es'' = [] \<Longrightarrow> ok'' \<and> number_opt H' el = (el', H'')"
        by (erule resolvesE)
      with 1 2 True ok' show ?thesis
        by (intro resolvesI [OF _ grown_trans [OF g2 3(2)], where ok = ok'' and x = "STMT_IF_ELSE c' th' el'"])
          (auto simp: visit_if_stmt_resolver_def Let_def)
    qed
  qed
qed

lemma while_resolves:
  assumes "resolvable c" "walkable b" "size_option size c + weight b \<le> K" "models s G"
  shows "resolves G (number_stmt G (STMT_WHILE c b)) s (visit_while_stmt_resolver rec rec_stmt (STMT_WHILE c b) s)"
proof -
  have "resolves G (number_expr G c, G) s (rec c s)" using assms rec_opt [of c s G] by (simp add: numbered_opt_resolves)
  then obtain ok c' s1 es H where 1: "rec c s = Inr ((ok, c'), s1)" "grown s s1 es G H" "es = [] \<Longrightarrow> ok \<and> (number_expr G c, G) = (c', H)"
    by (erule resolvesE)
  have "resolves H (number_opt H b) s1 (rec_stmt b s1)" using assms by (intro rec_resolves grown_models [OF 1(2)]) auto
  then obtain ok' b' s2 es' H' where
    2: "rec_stmt b s1 = Inr ((ok', b'), s2)" "grown s1 s2 es' H H'" "es' = [] \<Longrightarrow> ok' \<and> number_opt H b = (b', H')"
    by (erule resolvesE)
  show ?thesis
  proof (cases ok)
    case False
    with 1 show ?thesis
      by (intro resolvesI [OF _ 1(2), where ok = False and x = "STMT_WHILE c' b"]) (auto simp: visit_while_stmt_resolver_def)
  next
    case True
    with 1 2 show ?thesis
      by (intro resolvesI [OF _ grown_trans [OF 1(2) 2(2)], where ok = ok' and x = "STMT_WHILE c' b'"])
        (auto simp: visit_while_stmt_resolver_def Let_def)
  qed
qed

lemma fun_stmt_resolves:
  assumes "walkable (Some (STMT_FUN args t body))" "weight body \<le> Suc K" "models s G"
  shows "resolves G (number_stmt G (STMT_FUN args t body)) s (visit_fun_stmt_resolver usable rec_stmt (STMT_FUN args t body) s)"
proof -
  obtain sts where b: "body = Some (STMT_BLOCK sts)" using assms(1) by (auto split: option.splits Stmt.splits)
  let ?H = "enter G (shown_lexeme t)"
  let ?f = "resolve_fun usable rec_stmt (STMT_FUN args t body) FUNCTION_TYPE_FUNCTION"
  from declare_define [where f = ?f and usable = usable, OF assms(3) _ slack, of t] assms(1) obtain s1 es where
    1: "visit_fun_stmt_resolver usable rec_stmt (STMT_FUN args t body) s = ?f s1" "grown s s1 es G ?H"
    by (auto simp: visit_fun_stmt_resolver_def)
  from fun_resolves [of args sts s1 ?H t FUNCTION_TYPE_FUNCTION] assms(1,2) b grown_models [OF 1(2)] obtain ok s2 es' sts' where
    2: "?f s1 = Inr ((ok, STMT_FUN args t (Some (STMT_BLOCK sts'))), s2)" "grown s1 s2 es' ?H ?H"
      "es' = [] \<longrightarrow> ok \<and> sts' = fst (number_stmts (params args # ?H) sts)" by auto
  from 1 2 b show ?thesis
    by (intro resolvesI [OF _ grown_trans [OF 1(2) 2(2)], where ok = ok and x = "STMT_FUN args t (Some (STMT_BLOCK sts'))"]) auto
qed

lemma return_resolves:
  assumes "reportable t" "v = None \<or> resolvable v" "size_option size v \<le> K" "models s G"
  shows "resolves G (number_stmt G (STMT_RETURN t v)) s (visit_return_stmt_resolver rec (STMT_RETURN t v) s)"
proof (cases "rs_function s = FUNCTION_TYPE_CTOR")
  case True
  obtain err where "resolve_error t ''Cannot return from top-level code.'' s = Inr (s\<lparr>rs_err := rs_err s @ [err]\<rparr>)"
    using resolve_error_reports [OF assms(1), of "''Cannot return from top-level code.''" s] by auto
  with True assms(4) show ?thesis
    by (intro resolvesI [where ok = False and x = "STMT_RETURN t v" and es = "[err]" and H = G and s' = "s\<lparr>rs_err := rs_err s @ [err]\<rparr>"])
      (auto simp: visit_return_stmt_resolver_def grown_def)
next
  case False
  then show ?thesis
    using resolves_map [OF optional_resolves [OF assms(2-4)], of "number_stmt G (STMT_RETURN t v)" "STMT_RETURN t"]
    by (simp add: visit_return_stmt_resolver_def)
qed

lemma methods_resolve:
  assumes "list_all (\<lambda>m. walkable m \<and> (case m of Some (STMT_FUN _ _ _) \<Rightarrow> True | _ \<Rightarrow> False)) ms"
    and "sum_list (map weight ms) \<le> K" "models s G"
  shows "\<exists>ms' s' es. class_foreach_method usable rec_stmt ms s = Inr (ms', s') \<and> grown s s' es G G \<and> rs_scopes s' = rs_scopes s
    \<and> (es = [] \<longrightarrow> ms' = number_methods G ms)"
  using assms
proof (induction ms arbitrary: s)
  case Nil
  then show ?case by (auto intro: grown_refl exI [where x = "[]"])
next
  case (Cons m ms)
  then obtain args t body where m: "m = Some (STMT_FUN args t body)" by (auto split: option.splits Stmt.splits)
  with Cons.prems obtain sts where b: "body = Some (STMT_BLOCK sts)" by (auto split: option.splits Stmt.splits)
  obtain x where x: "tk_lexeme t = Some x" using Cons.prems(1) m by (auto simp: reportable_def)
  from fun_resolves [of args sts s G t "if x = ''init'' then FUNCTION_TYPE_CTOR else FUNCTION_TYPE_METHOD"] Cons.prems m b
  obtain ok s1 es sts' where
    1: "resolve_fun usable rec_stmt (STMT_FUN args t body) (if x = ''init'' then FUNCTION_TYPE_CTOR else FUNCTION_TYPE_METHOD) s
        = Inr ((ok, STMT_FUN args t (Some (STMT_BLOCK sts'))), s1)" "grown s s1 es G G" "rs_scopes s1 = rs_scopes s"
      "es = [] \<longrightarrow> ok \<and> sts' = fst (number_stmts (params args # G) sts)" by auto
  from Cons.IH [of s1] Cons.prems grown_models [OF 1(2)] obtain ms' s2 es' where
    2: "class_foreach_method usable rec_stmt ms s1 = Inr (ms', s2)" "grown s1 s2 es' G G" "rs_scopes s2 = rs_scopes s1"
      "es' = [] \<longrightarrow> ms' = number_methods G ms" by auto
  from 1 2 m b x grown_trans [OF 1(2) 2(2)] show ?case
    by (intro exI [where x = "Some (STMT_FUN args t (Some (STMT_BLOCK sts'))) # ms'"] exI [where x = s2] exI [where x = "es @ es'"])
      (auto simp: lexeme_of_def)
qed

lemma this_scope:
  assumes "list_all (\<lambda>m. walkable m \<and> (case m of Some (STMT_FUN _ _ _) \<Rightarrow> True | _ \<Rightarrow> False)) ms"
    and "sum_list (map weight ms) \<le> K" "models s G"
  shows "\<exists>ms' s' es. bind_result (class_foreach_method usable rec_stmt ms (fst (scope_add ''this'' 1 (scope_begin_rs s))))
        (\<lambda>(ms', s5). bind_result (scope_end_rs s5) (f ms')) = f ms' s'
    \<and> grown s s' es G G \<and> rs_scopes s' = rs_scopes s \<and> (es = [] \<longrightarrow> ms' = number_methods ([''this''] # G) ms)"
proof -
  note b = begin_add [OF assms(3), of "''this''"]
  from methods_resolve [OF assms(1,2) grown_models [OF b]] obtain ms' s1 es where
    1: "class_foreach_method usable rec_stmt ms (fst (scope_add ''this'' 1 (scope_begin_rs s))) = Inr (ms', s1)"
      "grown (fst (scope_add ''this'' 1 (scope_begin_rs s))) s1 es ([''this''] # G) ([''this''] # G)"
      "es = [] \<longrightarrow> ms' = number_methods ([''this''] # G) ms" by blast
  from end_scope [OF grown_trans [OF b 1(2)] assms(3)] obtain s2 where
    "scope_end_rs s1 = Inr s2" "grown s s2 es G G" "rs_scopes s2 = rs_scopes s" by auto
  with 1 show ?thesis by auto
qed

lemma class_resolves:
  assumes "reportable t" "super = None \<or> resolvable super"
    and "list_all (\<lambda>m. walkable m \<and> (case m of Some (STMT_FUN _ _ _) \<Rightarrow> True | _ \<Rightarrow> False)) ms"
    and "sum_list (map weight ms) + size_option size super \<le> K" "models s G"
  shows "resolves G (number_stmt G (STMT_CLASS t ms super)) s (visit_class_stmt_resolver usable rec rec_stmt (STMT_CLASS t ms super) s)"
proof -
  let ?H = "enter G (shown_lexeme t)" and ?s = "s\<lparr>rs_class := CLASS_TYPE_CLASS\<rparr>"
  have w: "sum_list (map weight ms) \<le> K" using assms(4) by simp
  have "models ?s G" using assms(5) by simp
  from declare_grows [OF this assms(1)] obtain d s1 es where 1: "declare_rs t ?s = Inr (d, s1)" "grown ?s s1 es G ?H" by blast
  from define_keeps [where usable = usable, OF grown_models [OF 1(2)] assms(1) slack] obtain s2 where
    2: "define_rs usable t s1 = Inr s2" "grown s1 s2 [] ?H ?H" by blast
  from grown_trans [OF 1(2) 2(2)] have g: "grown ?s s2 es G ?H" by simp
  have restored: "grown s (s'\<lparr>rs_class := rs_class s\<rparr>) (es @ es') G ?H" if "grown (s2\<lparr>rs_class := c\<rparr>) s' es' ?H ?H" for c s' es'
    using that g by (simp add: grown_def)
  show ?thesis
  proof (cases super)
    case None
    let ?f = "\<lambda>ms' s6. Inr ((True, STMT_CLASS t ms' None), s6\<lparr>rs_class := rs_class s\<rparr>)"
    from this_scope [OF assms(3) w grown_models [OF 2(2)], of ?f] obtain ms' s3 es' where
      3: "bind_result (class_foreach_method usable rec_stmt ms (fst (scope_add ''this'' 1 (scope_begin_rs s2))))
        (\<lambda>(ms', s5). bind_result (scope_end_rs s5) (?f ms')) = ?f ms' s3" "grown s2 s3 es' ?H ?H"
        "es' = [] \<longrightarrow> ms' = number_methods ([''this''] # ?H) ms" by blast
    have "grown s (s3\<lparr>rs_class := rs_class s\<rparr>) (es @ es') G ?H" using 3(2) g by (simp add: grown_def)
    with 1 2 3 None show ?thesis
      by (intro resolvesI [where ok = True and x = "STMT_CLASS t ms' None" and es = "es @ es'" and H = ?H and s' = "s3\<lparr>rs_class := rs_class s\<rparr>"])
        (auto simp: visit_class_stmt_resolver_def Let_def)
  next
    case (Some e)
    let ?s2 = "s2\<lparr>rs_class := CLASS_TYPE_SUBCLASS\<rparr>"
    have m2: "models ?s2 ?H" using grown_models [OF 2(2)] by simp
    from optional_numbers [OF assms(2) _ m2] assms(4) Some obtain ok super' es2 where
      3: "rec super ?s2 = Inr ((ok, super'), ?s2\<lparr>rs_err := rs_err ?s2 @ es2\<rparr>)" "es2 = [] \<longrightarrow> ok \<and> super' = number_expr ?H super"
      by (auto simp: resolve_optional_def)
    let ?s3 = "?s2\<lparr>rs_err := rs_err ?s2 @ es2\<rparr>"
    have g3: "grown ?s2 ?s3 es2 ?H ?H" using m2 by (simp add: grown_def)
    have m3: "models ?s3 ?H" using m2 by simp
    note b = begin_add [OF m3, of "''super''"]
    let ?f = "\<lambda>ms' s6. bind_result (scope_end_rs s6) (\<lambda>s7. Inr ((ok, STMT_CLASS t ms' super'), s7\<lparr>rs_class := rs_class s\<rparr>))"
    from this_scope [OF assms(3) w grown_models [OF b], of ?f] obtain ms' s4 es' where
      4: "bind_result (class_foreach_method usable rec_stmt ms (fst (scope_add ''this'' 1 (scope_begin_rs (fst (scope_add ''super'' 1 (scope_begin_rs ?s3)))))))
        (\<lambda>(ms', s5). bind_result (scope_end_rs s5) (?f ms')) = ?f ms' s4"
        "grown (fst (scope_add ''super'' 1 (scope_begin_rs ?s3))) s4 es' ([''super''] # ?H) ([''super''] # ?H)"
        "es' = [] \<longrightarrow> ms' = number_methods ([''this''] # [''super''] # ?H) ms" by blast
    from end_scope [OF grown_trans [OF b 4(2)] m3] obtain s5 where 5: "scope_end_rs s4 = Inr s5" "grown ?s3 s5 es' ?H ?H" by auto
    from restored [OF grown_trans [OF g3 5(2)]] have "grown s (s5\<lparr>rs_class := rs_class s\<rparr>) (es @ es2 @ es') G ?H" .
    with 1 2 3 4 5 Some show ?thesis
      by (intro resolvesI [where ok = ok and x = "STMT_CLASS t ms' super'" and es = "es @ es2 @ es'" and H = ?H and s' = "s5\<lparr>rs_class := rs_class s\<rparr>"])
        (auto simp: visit_class_stmt_resolver_def Let_def)
  qed
qed

lemma accept_resolves:
  assumes "walkable (Some st)" "weight (Some st) \<le> Suc K" "models s G"
  shows "resolves G (number_stmt G st) s (accept (StatementResolver usable rec rec_stmt) (Some st) s)"
proof -
  note by_expr = resolves_map [OF numbered_opt_resolves [OF rec_opt [OF _ _ assms(3)] assms(3)]]
  note by_kind = var_resolves if_resolves while_resolves return_resolves class_resolves
  show ?thesis
  proof (cases st)
    case (STMT_PRINT e)
    with assms show ?thesis by (auto simp: accept_def StatementResolver_def visit_print_stmt_resolver_def intro!: by_expr)
  next
    case (STMT_EXPR e)
    with assms show ?thesis by (auto simp: accept_def StatementResolver_def visit_expr_stmt_resolver_def intro!: by_expr)
  next
    case (STMT_BLOCK sts)
    with assms block_resolves [of sts s G] show ?thesis by (simp add: accept_def StatementResolver_def)
  next
    case (STMT_FUN args t body)
    with assms fun_stmt_resolves [of args t body s G] show ?thesis by (simp add: accept_def StatementResolver_def del: number_stmt.simps)
  qed (use assms in \<open>auto simp: accept_def StatementResolver_def simp del: number_stmt.simps intro!: by_kind\<close>)
qed

end

lemma resolve_resolves:
  assumes "16 \<le> usable (4 :: nat)"
  shows "walkable st \<Longrightarrow> weight st \<le> n \<Longrightarrow> models s G \<Longrightarrow> resolves G (number_opt G st) s (resolve usable n st s)"
proof (induction n arbitrary: st s G)
  case 0
  then show ?case by (cases st) auto
next
  case (Suc n)
  obtain t where t: "st = Some t" using Suc.prems(1) by (cases st) auto
  have "resolves_stmts (resolve_expr n) n usable (resolve usable n)" by unfold_locales (auto intro: assms Suc.IH)
  from resolves_stmts.accept_resolves [OF this] Suc.prems have
    "resolves G (number_stmt G t) s (accept (StatementResolver usable (resolve_expr n) (resolve usable n)) st s)" by (simp add: t)
  from resolves_map [OF this, of "number_opt G st" Some] show ?case by (simp add: t)
qed

interpretation resolved_stmts: resolves_stmts "resolve_expr n" n "\<lambda>_. 24" "resolve (\<lambda>_. 24) n" for n
  by unfold_locales (auto intro: resolve_resolves)

section \<open>The properties of the resolver\<close>

text \<open>
  C5. On every statement without a missing child and without an empty block, with an allocator
  that leaves room for the stray write of \<^verbatim>\<open>dict_set\<close>, the resolver ends within as many calls as the
  tree has nodes and without a fault. It restores the current kinds of function and class and all
  scopes but the innermost, which only grows. When it reports no error it succeeds, every variable,
  assignment, \<^verbatim>\<open>this\<close> and \<^verbatim>\<open>super\<close> in the tree carries the number of scopes between its use and the
  innermost enclosing scope that declares it, or -1, and nothing else in the tree has changed.
\<close>

theorem resolve_is_lexical:
  assumes "16 \<le> usable (4 :: nat)" "walkable (Some st)" "weight (Some st) \<le> fuel" "models s G"
  shows "\<exists>ok st' s' H es. resolve usable fuel (Some st) s = Inr ((ok, Some st'), s')
    \<and> rs_function s' = rs_function s \<and> rs_class s' = rs_class s \<and> tl (rs_scopes s') = tl (rs_scopes s)
    \<and> models s' H \<and> length H = length G \<and> tl H = tl G
    \<and> rs_err s' = rs_err s @ es \<and> (es = [] \<longrightarrow> ok \<and> number_stmt G st = (st', H))"
proof -
  from resolve_resolves [where usable = usable, OF assms] obtain ok x s' es H where
    r: "resolve usable fuel (Some st) s = Inr ((ok, x), s')" "grown s s' es G H" "es = [] \<Longrightarrow> ok \<and> number_opt G (Some st) = (x, H)"
    by (erule resolvesE)
  moreover obtain st' where "x = Some st'"
    using r(1) assms(3) by (cases fuel) (auto elim!: bind_result_InrE)
  ultimately show ?thesis by (auto simp: grown_def Let_def prod_eq_iff)
qed

definition name_token :: "string \<Rightarrow> Token" where
  "name_token x = token TOKEN_IDENTIFIER None 1 1 (Some x)"

definition leaf_node :: "RealExpr \<Rightarrow> Expr option" where
  "leaf_node real = Some (Mk_Expr real 0)"

definition sample_block :: Stmt where
  "sample_block = STMT_BLOCK [Some (STMT_VAR_DECLARATION (leaf_node new_true) (name_token ''a'')),
     Some (STMT_BLOCK [Some (STMT_PRINT (leaf_node (EXPR_VARIABLE (name_token ''a'')))),
                       Some (STMT_PRINT (leaf_node (EXPR_VARIABLE (name_token ''b''))))])]"

theorem resolve_is_lexical_witness:
  "\<exists>ok st' s' H es. resolve (\<lambda>_. 24) 20 (Some sample_block) initial_rs = Inr ((ok, Some st'), s')
    \<and> rs_function s' = rs_function initial_rs \<and> rs_class s' = rs_class initial_rs \<and> tl (rs_scopes s') = tl (rs_scopes initial_rs)
    \<and> models s' H \<and> length H = length ([] :: string list list) \<and> tl H = tl []
    \<and> rs_err s' = rs_err initial_rs @ es \<and> (es = [] \<longrightarrow> ok \<and> number_stmt [] sample_block = (st', H))"
proof (rule resolve_is_lexical)
  show "walkable (Some sample_block)" by code_simp
  show "weight (Some sample_block) \<le> 20" by code_simp
  show "models initial_rs []" by (simp add: models_def initial_rs_def)
qed simp

text \<open>The names a statement declares in a local scope, with \<open>G\<close> the scopes around it: its own name, and the parameters of a function.\<close>

fun declares_local :: "string list list \<Rightarrow> Stmt \<Rightarrow> bool" where
  "declares_local G (STMT_VAR_DECLARATION e t) \<longleftrightarrow> G \<noteq> []"
| "declares_local G (STMT_FUN args t body) \<longleftrightarrow> G \<noteq> [] \<or> args \<noteq> []"
| "declares_local G (STMT_CLASS t ms super) \<longleftrightarrow> G \<noteq> []"
| "declares_local G st \<longleftrightarrow> False"

lemma define_overruns:
  assumes "\<not> inside_block usable sizeof_int (offsetof KeyValuePair_fields ''value'') sizeof_pointer"
    "models s (enter G (shown_lexeme t))" "G \<noteq> []" "reportable t"
  shows "define_rs usable t s = Inl (Crash Out_Of_Bounds)"
proof -
  obtain x where x: "tk_lexeme t = Some x" "shown_lexeme t = x" using assms(4) by (auto simp: reportable_def shown_lexeme_def)
  obtain d ds where d: "rs_scopes s = d # ds" "x \<in> names d" "scope_ok (length (rs_flags s)) d"
    using assms(2,3) x by (cases "rs_scopes s"; cases G) (auto simp: models_def enter_def)
  then obtain p where "dict_get (Some d) x = Some p" using dict_get_flag by blast
  with d x assms(1) show ?thesis by (simp add: define_rs_def lexeme_of_def dict_set_def)
qed

lemma declare_overruns:
  assumes "\<not> inside_block usable sizeof_int (offsetof KeyValuePair_fields ''value'') sizeof_pointer"
    "models s G" "G \<noteq> []" "reportable t"
  shows "bind_result (declare_rs t s) (\<lambda>(_, s1). bind_result (define_rs usable t s1) f) = Inl (Crash Out_Of_Bounds)"
proof -
  obtain ok s1 es where 1: "declare_rs t s = Inr (ok, s1)" "grown s s1 es G (enter G (shown_lexeme t))"
    using declare_grows [OF assms(2,4)] by blast
  with define_overruns [OF assms(1) grown_models [OF 1(2)] assms(3,4)] show ?thesis by simp
qed

lemma var_overruns:
  assumes "\<not> inside_block usable sizeof_int (offsetof KeyValuePair_fields ''value'') sizeof_pointer"
    "models s G" "G \<noteq> []" "reportable t" "e = None \<or> resolvable e" "size_option size e \<le> n"
  shows "visit_var_stmt_resolver usable (resolve_expr n) (STMT_VAR_DECLARATION e t) s = Inl (Crash Out_Of_Bounds)
    \<or> e \<noteq> None \<and> (\<exists>st' s' es. es \<noteq> [] \<and> rs_err s' = rs_err s @ es
         \<and> visit_var_stmt_resolver usable (resolve_expr n) (STMT_VAR_DECLARATION e t) s = Inr ((False, st'), s'))"
proof -
  let ?H = "enter G (shown_lexeme t)"
  obtain d s1 es where 1: "declare_rs t s = Inr (d, s1)" "grown s s1 es G ?H" using declare_grows [OF assms(2,4)] by blast
  obtain ok e' es' where
    2: "resolve_optional (resolve_expr n) e s1 = Inr ((ok, e'), s1\<lparr>rs_err := rs_err s1 @ es'\<rparr>)" "es' = [] \<longrightarrow> ok"
    using resolved_stmts.optional_numbers [OF assms(5,6) grown_models [OF 1(2)]] by blast
  have "models (s1\<lparr>rs_err := rs_err s1 @ es'\<rparr>) ?H" using grown_models [OF 1(2)] by simp
  note crash = define_overruns [OF assms(1) this assms(3,4)]
  have "e \<noteq> None" if "\<not> ok" using that 2 by (auto simp: resolve_optional_def split: if_splits)
  with 1 2 crash show ?thesis by (cases ok) (auto simp: visit_var_stmt_resolver_def grown_def)
qed

lemma fun_overruns:
  assumes "\<not> inside_block usable sizeof_int (offsetof KeyValuePair_fields ''value'') sizeof_pointer"
    "models s G" "G \<noteq> [] \<or> args \<noteq> []" "reportable t" "list_all reportable args"
  shows "visit_fun_stmt_resolver usable rec (STMT_FUN args t body) s = Inl (Crash Out_Of_Bounds)"
proof (cases "G = []")
  case True
  then obtain a as where args: "args = a # as" using assms(3) by (cases args) auto
  let ?s = "scope_begin_rs (s\<lparr>rs_function := FUNCTION_TYPE_FUNCTION\<rparr>)"
  have "models (s\<lparr>rs_function := FUNCTION_TYPE_FUNCTION\<rparr>) G" using assms(2) by simp
  then have "models ?s [[]]" using models_begin True by blast
  then have "fun_args_iterator usable args ?s = Inl (Crash Out_Of_Bounds)"
    using declare_overruns [OF assms(1), of ?s "[[]]" a] assms(5) by (simp add: args)
  moreover have "rs_scopes s = []" using assms(2) True by (simp add: models_def)
  ultimately show ?thesis by (simp add: visit_fun_stmt_resolver_def declare_rs_def define_rs_def resolve_fun_def)
qed (use declare_overruns [OF assms(1,2) _ assms(4)] in \<open>simp add: visit_fun_stmt_resolver_def\<close>)

lemma class_overruns:
  assumes "\<not> inside_block usable sizeof_int (offsetof KeyValuePair_fields ''value'') sizeof_pointer"
    "models s G" "G \<noteq> []" "reportable t"
  shows "visit_class_stmt_resolver usable rec rec_stmt (STMT_CLASS t ms super) s = Inl (Crash Out_Of_Bounds)"
proof -
  have "models (s\<lparr>rs_class := CLASS_TYPE_CLASS\<rparr>) G" using assms(2) by simp
  from declare_overruns [OF assms(1) this assms(3,4)] show ?thesis
    by (simp only: visit_class_stmt_resolver_def Stmt.case)
qed

text \<open>
  C37. The stray write of \<^verbatim>\<open>dict_set\<close> is real: with an allocator whose block for an \<^verbatim>\<open>int\<close> ends before
  the field \<^verbatim>\<open>value\<close> of a \<^verbatim>\<open>KeyValuePair\<close> does, no local declaration (of a tree without missing
  children) is ever accepted. A variable, a
  function or a class declared inside a scope, with a new name or a repeated one, and a function
  with parameters anywhere, writes outside the block of its flag; the one way out is an initializer
  that is itself rejected with a message.
\<close>

theorem local_declaration_overruns:
  assumes "\<not> inside_block usable sizeof_int (offsetof KeyValuePair_fields ''value'') sizeof_pointer"
    "models s G" "declares_local G st" "walkable (Some st)" "weight (Some st) \<le> n"
  shows "resolve usable n (Some st) s = Inl (Crash Out_Of_Bounds)
    \<or> (\<exists>e t st' s' es. st = STMT_VAR_DECLARATION (Some e) t \<and> resolve usable n (Some st) s = Inr ((False, st'), s')
         \<and> es \<noteq> [] \<and> rs_err s' = rs_err s @ es)"
proof -
  obtain k where n: "n = Suc k" using assms(5) by (cases n) auto
  note visit = n accept_def StatementResolver_def
  show ?thesis
  proof (cases st)
    case (STMT_VAR_DECLARATION e t)
    with assms var_overruns [OF assms(1,2), of t e k] show ?thesis by (fastforce simp: visit)
  next
    case (STMT_FUN args t body)
    with assms fun_overruns [OF assms(1,2), of args t] show ?thesis by (simp add: visit)
  next
    case (STMT_CLASS t ms super)
    with assms class_overruns [OF assms(1,2), of t] show ?thesis by (simp add: visit)
  qed (use assms(3) in simp_all)
qed

theorem local_declaration_overruns_witness:
  "resolve (\<lambda>n. n) 20 (Some (STMT_VAR_DECLARATION (leaf_node new_true) (name_token ''a''))) (scope_begin_rs initial_rs)
     = Inl (Crash Out_Of_Bounds)"
proof -
  let ?st = "STMT_VAR_DECLARATION (leaf_node new_true) (name_token ''a'')"
  have "models (scope_begin_rs initial_rs) [[]]" by (rule models_begin) (simp add: models_def initial_rs_def)
  moreover have "walkable (Some ?st)" "weight (Some ?st) \<le> 20" by code_simp+
  moreover have "\<not> (case resolve (\<lambda>n. n) 20 (Some ?st) (scope_begin_rs initial_rs) of Inr r \<Rightarrow> True | _ \<Rightarrow> False)" by code_simp
  ultimately show ?thesis
    using local_declaration_overruns [of "\<lambda>n. n" "scope_begin_rs initial_rs" "[[]]" ?st 20] by (auto simp: inside_block_def)
qed

end
