(* ===== verification/Clox_Objects.thy ===== *)
theory Clox_Objects
  imports Clox_Resolve
begin

text \<open>
  The objects and environments of the tree walker: \<^verbatim>\<open>include/eval.h\<close>, \<^verbatim>\<open>src/env.c\<close> and the functions of
  \<^verbatim>\<open>src/eval.c\<close> that create and destroy objects.

  The structures live in one heap, a list of cells indexed by address; a freed cell is \<open>None\<close>.
  Reading a freed cell, freeing it again and using a cell as a structure it is not are faults. The
  static \<^verbatim>\<open>GlobalExecutionEnvironment\<close> is the cell at address 0. What an object's \<^verbatim>\<open>value\<close> points to is
  kept with the object when nothing else can change it (numbers, characters, text) and is an
  address otherwise.

  \<^verbatim>\<open>dict_set\<close> writes a pointer over the \<^verbatim>\<open>type\<close> of the object it finds. The value that field then has
  depends on where the allocator put the new object, so the platform is a parameter: the usable
  size of blocks, the low 32 bits of the address of a cell, the content of uninitialised bytes, and
  the readings of the clock.
\<close>

section \<open>State\<close>

type_synonym addr = nat

datatype ObjectType =
    OBJ_NIL
  | OBJ_BOOL
  | OBJ_NUMBER
  | OBJ_STRING
  | OBJ_ERROR
  | OBJ_VOID
  | OBJ_CALLABLE
  | OBJ_CLASS_DEFINITION
  | OBJ_CLASS_INSTANCE
  | OBJ_BITS nat   \<comment> \<open>bits that are no enumerator\<close>

text \<open>The enumerator with the given bits.\<close>

definition bits_type :: "nat \<Rightarrow> ObjectType" where
  "bits_type n = (let ts = [OBJ_NIL, OBJ_BOOL, OBJ_NUMBER, OBJ_STRING, OBJ_ERROR, OBJ_VOID, OBJ_CALLABLE,
     OBJ_CLASS_DEFINITION, OBJ_CLASS_INSTANCE] in if n < length ts then ts ! n else OBJ_BITS n)"

text \<open>What \<^verbatim>\<open>value\<close> points to. The text of an error is its format, line and arguments.\<close>

datatype obj_value =
    V_Null
  | V_Bool bool
  | V_Number double
  | V_Text string
  | V_Error string nat "string list"
  | V_Callable addr
  | V_Class addr
  | V_Instance addr

record Object =
  lo_value :: obj_value
  lo_type :: ObjectType
  lo_valueSize :: nat
  lo_shallow :: bool
  lo_propagateReturn :: bool

definition Object_fields :: fields where
  "Object_fields = [(''value'', sizeof_pointer), (''type'', sizeof_int), (''valueSize'', 8), (''shallow'', 1), (''propagateReturn'', 1)]"

record ExecutionEnvironment =
  en_variables :: "addr option"
  en_enclosing :: "addr option"

datatype CallFunc = clock_do | read_do | fun_call | instantiate

datatype decl_ptr = Decl_Null | Decl_Fun Stmt | Decl_Class addr

record Callable =
  ca_arity :: nat
  ca_call :: CallFunc
  ca_declaration :: decl_ptr
  ca_closure :: "addr option"
  ca_type :: FunctionType_ast

definition Callable_fields :: fields where
  "Callable_fields = [(''arity'', sizeof_int), (''call'', sizeof_pointer), (''declaration'', sizeof_pointer),
     (''closure'', sizeof_pointer), (''type'', sizeof_int)]"

text \<open>
  Where pointers of the wrong type lead: the \<^verbatim>\<open>value\<close> of a \<^verbatim>\<open>KeyValuePair\<close> lies at the \<^verbatim>\<open>type\<close> of an
  \<^verbatim>\<open>Object\<close>, the \<^verbatim>\<open>arity\<close> of a \<^verbatim>\<open>Callable\<close> at its \<^verbatim>\<open>value\<close>, and the \<^verbatim>\<open>type\<close> of a \<^verbatim>\<open>Callable\<close> behind it.
\<close>

lemma layout_overlap:
  "offsetof KeyValuePair_fields ''value'' = offsetof Object_fields ''type''"
  "offsetof Callable_fields ''arity'' = offsetof Object_fields ''value''"
  "offsetof Callable_fields ''type'' = sizeof_struct Object_fields" "sizeof_struct Object_fields = 32"
  by (simp_all add: offsetof_def sizeof_struct_def KeyValuePair_fields_def Object_fields_def Callable_fields_def align_up_def del: offsetof_value)

record Class =
  cl_name :: string
  cl_ctor :: addr
  cl_methods :: "addr option"
  cl_super :: "addr option"

record ClassInstance =
  ci_type :: Class
  ci_fields :: "addr option"

datatype cell =
    Cell_Object Object
  | Cell_Env ExecutionEnvironment
  | Cell_Dict "addr Dictionary"
  | Cell_Callable Callable
  | Cell_Class Class
  | Cell_Instance ClassInstance

text \<open>What \<^verbatim>\<open>visit_print\<close> writes; a number is printed with or without decimals.\<close>

datatype eval_out =
    Out_Nil
  | Out_Text string
  | Out_Error string nat "string list"
  | Out_Bool bool
  | Out_Number bool double
  | Out_Fn string
  | Out_Class string
  | Out_Instance string

record ES =
  ev_heap :: "cell option list"
  ev_current :: addr
  ev_out :: "eval_out list"
  ev_input :: string
  ev_ticks :: nat

record Platform =
  pf_usable :: "nat \<Rightarrow> nat"
  pf_low :: "addr \<Rightarrow> nat"
  pf_fresh :: "addr \<Rightarrow> bool"
  pf_time :: "nat \<Rightarrow> int"

definition GlobalExecutionEnvironment :: addr where
  "GlobalExecutionEnvironment = 0"

definition initial_es :: "string \<Rightarrow> ES" where
  "initial_es input = \<lparr>ev_heap = [Some (Cell_Env \<lparr>en_variables = None, en_enclosing = None\<rparr>)],
     ev_current = GlobalExecutionEnvironment, ev_out = [], ev_input = input, ev_ticks = 0\<rparr>"

section \<open>Heap access\<close>

definition get_cell :: "ES \<Rightarrow> addr option \<Rightarrow> cell result" where
  "get_cell s p = (case p of None \<Rightarrow> Inl (Crash Null_Deref)
     | Some a \<Rightarrow> if a < length (ev_heap s)
                 then (case ev_heap s ! a of None \<Rightarrow> Inl (Crash Use_After_Free) | Some c \<Rightarrow> Inr c)
                 else Inl (Crash Use_After_Free))"

definition get_obj :: "ES \<Rightarrow> addr option \<Rightarrow> Object result" where
  "get_obj s p = bind_result (get_cell s p) (\<lambda>c. case c of Cell_Object x \<Rightarrow> Inr x | _ \<Rightarrow> Inl (Crash Bad_Cast))"

definition get_env :: "ES \<Rightarrow> addr option \<Rightarrow> ExecutionEnvironment result" where
  "get_env s p = bind_result (get_cell s p) (\<lambda>c. case c of Cell_Env x \<Rightarrow> Inr x | _ \<Rightarrow> Inl (Crash Bad_Cast))"

text \<open>A dictionary given by a pointer that may be NULL, as the functions of \<^verbatim>\<open>dict.c\<close> take it.\<close>

definition get_dict :: "ES \<Rightarrow> addr option \<Rightarrow> addr Dictionary option result" where
  "get_dict s p = (if p = None then Inr None
     else bind_result (get_cell s p) (\<lambda>c. case c of Cell_Dict x \<Rightarrow> Inr (Some x) | _ \<Rightarrow> Inl (Crash Bad_Cast)))"

definition get_callable :: "ES \<Rightarrow> addr option \<Rightarrow> Callable result" where
  "get_callable s p = bind_result (get_cell s p) (\<lambda>c. case c of Cell_Callable x \<Rightarrow> Inr x | _ \<Rightarrow> Inl (Crash Bad_Cast))"

definition get_class :: "ES \<Rightarrow> addr option \<Rightarrow> Class result" where
  "get_class s p = bind_result (get_cell s p) (\<lambda>c. case c of Cell_Class x \<Rightarrow> Inr x | _ \<Rightarrow> Inl (Crash Bad_Cast))"

definition get_instance :: "ES \<Rightarrow> addr option \<Rightarrow> ClassInstance result" where
  "get_instance s p = bind_result (get_cell s p) (\<lambda>c. case c of Cell_Instance x \<Rightarrow> Inr x | _ \<Rightarrow> Inl (Crash Bad_Cast))"

definition put :: "addr \<Rightarrow> cell \<Rightarrow> ES \<Rightarrow> ES" where
  "put a c s = s\<lparr>ev_heap := (ev_heap s)[a := Some c]\<rparr>"

definition new_cell :: "cell \<Rightarrow> ES \<Rightarrow> addr \<times> ES" where
  "new_cell c s = (length (ev_heap s), s\<lparr>ev_heap := ev_heap s @ [Some c]\<rparr>)"

text \<open>\<^verbatim>\<open>fr\<close>.\<close>

definition fr :: "addr option \<Rightarrow> ES \<Rightarrow> ES result" where
  "fr p s = (case p of None \<Rightarrow> Inr s
     | Some a \<Rightarrow> bind_result (get_cell s p) (\<lambda>_. Inr (s\<lparr>ev_heap := (ev_heap s)[a := None]\<rparr>)))"

text \<open>A write to a field of an object.\<close>

definition upd_obj :: "addr option \<Rightarrow> (Object \<Rightarrow> Object) \<Rightarrow> ES \<Rightarrow> ES result" where
  "upd_obj p f s = bind_result (get_obj s p) (\<lambda>x. Inr (put (the p) (Cell_Object (f x)) s))"

text \<open>\<^verbatim>\<open>dict_add\<close> and \<^verbatim>\<open>dict_set\<close> on a dictionary of the heap.\<close>

definition heap_dict_add :: "addr option \<Rightarrow> string \<Rightarrow> addr option \<Rightarrow> ES \<Rightarrow> (bool \<times> ES) result" where
  "heap_dict_add p key val s = bind_result (get_dict s p) (\<lambda>d.
     case dict_add d key val of (None, b) \<Rightarrow> Inr (b, s) | (Some d', b) \<Rightarrow> Inr (b, put (the p) (Cell_Dict d') s))"

definition heap_dict_set :: "Platform \<Rightarrow> addr option \<Rightarrow> string \<Rightarrow> addr option \<Rightarrow> ES \<Rightarrow> (bool \<times> ES) result" where
  "heap_dict_set pf p key val s = bind_result (get_dict s p) (\<lambda>d.
     case dict_set d key val of
       (b, None) \<Rightarrow> Inr (b, s)
     | (b, Some (target, v)) \<Rightarrow>
         bind_result (upd_obj (Some target) (\<lambda>x. x\<lparr>lo_type := bits_type (case v of None \<Rightarrow> 0 | Some a \<Rightarrow> pf_low pf a)\<rparr>) s)
           (\<lambda>s1. Inr (b, s1)))"

section \<open>Objects\<close>

definition obj_new :: "ObjectType \<Rightarrow> obj_value \<Rightarrow> nat \<Rightarrow> ES \<Rightarrow> addr \<times> ES" where
  "obj_new type val sz s = new_cell (Cell_Object \<lparr>lo_value = val, lo_type = type, lo_valueSize = sz,
     lo_shallow = True, lo_propagateReturn = False\<rparr>) s"

definition new_void :: "ES \<Rightarrow> addr \<times> ES" where
  "new_void s = obj_new OBJ_VOID V_Null 0 s"

definition new_number :: "double \<Rightarrow> ES \<Rightarrow> addr \<times> ES" where
  "new_number v s = obj_new OBJ_NUMBER (V_Number v) 8 s"

definition new_bool :: "bool \<Rightarrow> ES \<Rightarrow> addr \<times> ES" where
  "new_bool truthy s = obj_new OBJ_BOOL (V_Bool truthy) 1 s"

definition new_string :: "string \<Rightarrow> ES \<Rightarrow> addr \<times> ES" where
  "new_string str s = obj_new OBJ_STRING (V_Text str) (length str + 1) s"

text \<open>
  The length of the text of an error: the 26 fixed characters and the line of the prefix, and the
  message with its \<^verbatim>\<open>%s\<close> and \<^verbatim>\<open>%d\<close> replaced. The buffer has \<^verbatim>\<open>LINEBUFSIZE\<close> bytes, the bound given to
  \<^verbatim>\<open>vsnprintf\<close> does not count the prefix.
\<close>

definition error_length :: "string \<Rightarrow> nat \<Rightarrow> string list \<Rightarrow> nat" where
  "error_length fmt line args = 26 + dec_digits line + min (LINEBUFSIZE - 1) (length fmt - 2 * length args + sum_list (map length args))"

definition runtime_error_ast :: "Platform \<Rightarrow> string \<Rightarrow> string list \<Rightarrow> addr option \<Rightarrow> nat \<Rightarrow> ES \<Rightarrow> (addr \<times> ES) result" where
  "runtime_error_ast pf fmt args p line s =
     (if LINEBUFSIZE \<le> error_length fmt line args then Inl (Crash Out_Of_Bounds)
      else let val = V_Error fmt line args; sz = error_length fmt line args + 1
           in case p of
             None \<Rightarrow> Inr (new_cell (Cell_Object \<lparr>lo_value = val, lo_type = OBJ_ERROR, lo_valueSize = sz,
                            lo_shallow = True, lo_propagateReturn = pf_fresh pf (length (ev_heap s))\<rparr>) s)
           | Some a \<Rightarrow> bind_result (upd_obj p (\<lambda>x. x\<lparr>lo_value := val, lo_type := OBJ_ERROR, lo_valueSize := sz, lo_shallow := True\<rparr>) s)
                         (\<lambda>s1. Inr (a, s1)))"

text \<open>\<^verbatim>\<open>dict_destroy\<close> with its callback, over the pairs of the dictionary.\<close>

fun each_pair :: "(addr option \<Rightarrow> ES \<Rightarrow> ES result) \<Rightarrow> addr KeyValuePair list \<Rightarrow> ES \<Rightarrow> ES result" where
  "each_pair f [] s = Inr s"
| "each_pair f (kv # kvs) s = bind_result (f (snd kv) s) (each_pair f kvs)"

definition heap_dict_destroy :: "(addr option \<Rightarrow> ES \<Rightarrow> ES result) \<Rightarrow> addr option \<Rightarrow> ES \<Rightarrow> ES result" where
  "heap_dict_destroy delete p s = bind_result (get_dict s p) (\<lambda>d.
     bind_result (each_pair delete (dict_destroy d) s) (fr p))"

definition env_destroy :: "(addr option \<Rightarrow> ES \<Rightarrow> ES result) \<Rightarrow> addr option \<Rightarrow> ES \<Rightarrow> ES result" where
  "env_destroy delete env s = bind_result (get_env s env) (\<lambda>e.
     bind_result (heap_dict_destroy delete (en_variables e) s) (\<lambda>s1.
       bind_result (get_env s1 env) (\<lambda>e1. Inr (put (the env) (Cell_Env (e1\<lparr>en_variables := None\<rparr>)) s1))))"

definition callable_destroy :: "(addr option \<Rightarrow> ES \<Rightarrow> ES result) \<Rightarrow> addr option \<Rightarrow> ES \<Rightarrow> ES result" where
  "callable_destroy delete p s = bind_result (get_callable s p) (\<lambda>c.
     if ca_closure c = None then Inr s
     else bind_result (get_env s (ca_closure c)) (\<lambda>e.
       bind_result (get_env s (Some GlobalExecutionEnvironment)) (\<lambda>g.
         if en_variables g = en_variables e then Inr s
         else bind_result (env_destroy delete (ca_closure c) s) (fr (ca_closure c)))))"

text \<open>\<^verbatim>\<open>obj_force_destroy\<close>, the callback of environments, methods and fields, over \<^verbatim>\<open>obj_destroy\<close>.\<close>

definition obj_force_destroy :: "(addr option \<Rightarrow> ES \<Rightarrow> ES result) \<Rightarrow> addr option \<Rightarrow> ES \<Rightarrow> ES result" where
  "obj_force_destroy destroy p s = bind_result (upd_obj p (\<lambda>x. x\<lparr>lo_shallow := True\<rparr>) s) (destroy p)"

text \<open>The pointer in \<^verbatim>\<open>value\<close>, used at the type of a structure.\<close>

definition callable_ptr :: "Object \<Rightarrow> addr option result" where
  "callable_ptr x = (case lo_value x of V_Callable a \<Rightarrow> Inr (Some a) | V_Null \<Rightarrow> Inr None | _ \<Rightarrow> Inl (Crash Bad_Cast))"

definition class_ptr :: "Object \<Rightarrow> addr option result" where
  "class_ptr x = (case lo_value x of V_Class a \<Rightarrow> Inr (Some a) | V_Null \<Rightarrow> Inr None | _ \<Rightarrow> Inl (Crash Bad_Cast))"

definition instance_ptr :: "Object \<Rightarrow> addr option result" where
  "instance_ptr x = (case lo_value x of V_Instance a \<Rightarrow> Inr (Some a) | V_Null \<Rightarrow> Inr None | _ \<Rightarrow> Inl (Crash Bad_Cast))"

text \<open>The buffer that holds the text of an error is no cell of the heap, so that freeing it does not show.\<close>

fun obj_destroy :: "Platform \<Rightarrow> nat \<Rightarrow> addr option \<Rightarrow> ES \<Rightarrow> ES result" where
  "obj_destroy pf 0 p s = Inl Out_Of_Fuel"
| "obj_destroy pf (Suc n) p s = (if p = None then Inr s else bind_result (get_obj s p) (\<lambda>x.
     if \<not> lo_shallow x then Inr s
     else bind_result (case lo_type x of
         OBJ_VOID \<Rightarrow> Inr s
       | OBJ_NIL \<Rightarrow> Inr s
       | OBJ_BOOL \<Rightarrow> Inr s
       | OBJ_NUMBER \<Rightarrow> Inr s
       | OBJ_STRING \<Rightarrow> Inr s
       | OBJ_ERROR \<Rightarrow> Inr s
       | OBJ_CALLABLE \<Rightarrow> bind_result (callable_ptr x) (\<lambda>c.
           bind_result (callable_destroy (obj_force_destroy (obj_destroy pf n)) c s) (fr c))
       | OBJ_CLASS_DEFINITION \<Rightarrow> bind_result (class_ptr x) (\<lambda>k. bind_result (get_class s k) (\<lambda>cl.
           bind_result (callable_destroy (obj_force_destroy (obj_destroy pf n)) (Some (cl_ctor cl)) s) (\<lambda>s1.
           bind_result (fr (Some (cl_ctor cl)) s1) (\<lambda>s2.
           bind_result (obj_destroy pf n (cl_super cl) s2) (fr k)))))
       | OBJ_CLASS_INSTANCE \<Rightarrow> bind_result (instance_ptr x) (\<lambda>i. bind_result (get_instance s i) (\<lambda>inst.
           bind_result (heap_dict_destroy (obj_force_destroy (obj_destroy pf n)) (ci_fields inst) s) (fr i)))
       | OBJ_BITS _ \<Rightarrow> bind_result (runtime_error_ast pf ''Unknown Object to destroy'' [] p 0 s) (\<lambda>(_, s1). Inr s1))
     (fr p)))"

text \<open>Truth of an object, and of its negation: \<^verbatim>\<open>nil\<close> is neither.\<close>

definition obj_likely :: "addr option \<Rightarrow> ES \<Rightarrow> bool result" where
  "obj_likely p s = bind_result (get_obj s p) (\<lambda>x.
     if lo_type x = OBJ_NIL then Inr False
     else if lo_type x = OBJ_BOOL then (case lo_value x of V_Bool b \<Rightarrow> Inr b | _ \<Rightarrow> Inl (Crash Bad_Cast))
     else Inr True)"

definition obj_unlikely :: "addr option \<Rightarrow> ES \<Rightarrow> bool result" where
  "obj_unlikely p s = bind_result (get_obj s p) (\<lambda>x.
     if lo_type x = OBJ_NIL then Inr False
     else if lo_type x = OBJ_BOOL then (case lo_value x of V_Bool b \<Rightarrow> Inr (\<not> b) | _ \<Rightarrow> Inl (Crash Bad_Cast))
     else Inr False)"

section \<open>Environments (env.c)\<close>

definition env_init :: "addr option \<Rightarrow> ES \<Rightarrow> ES result" where
  "env_init env s = (if env = None then Inr s else bind_result (get_env s env) (\<lambda>e.
     if en_variables e = None
     then (case new_cell (Cell_Dict new_dict) s of (d, s1) \<Rightarrow> Inr (put (the env) (Cell_Env (e\<lparr>en_variables := Some d\<rparr>)) s1))
     else Inr s))"

definition env_new :: "ES \<Rightarrow> (addr \<times> ES) result" where
  "env_new s = (case new_cell (Cell_Env \<lparr>en_variables = None, en_enclosing = None\<rparr>) s of
     (a, s1) \<Rightarrow> bind_result (env_init (Some a) s1) (\<lambda>s2. Inr (a, s2)))"

definition env_add_variable :: "addr option \<Rightarrow> string \<Rightarrow> addr option \<Rightarrow> ES \<Rightarrow> (bool \<times> ES) result" where
  "env_add_variable env name obj s = bind_result (env_init env s) (\<lambda>s1.
     if env = None then Inr (False, s1)
     else bind_result (upd_obj obj (\<lambda>x. x\<lparr>lo_shallow := False\<rparr>) s1) (\<lambda>s2.
            bind_result (get_env s2 env) (\<lambda>e. heap_dict_add (en_variables e) name obj s2)))"

definition env_set_variable_value :: "Platform \<Rightarrow> addr option \<Rightarrow> string \<Rightarrow> addr option \<Rightarrow> ES \<Rightarrow> (bool \<times> ES) result" where
  "env_set_variable_value pf env name obj s = bind_result (env_init env s) (\<lambda>s1.
     if env = None then Inr (False, s1)
     else bind_result (get_env s1 env) (\<lambda>e. bind_result (get_dict s1 (en_variables e)) (\<lambda>d.
       if dict_contains d name
       then bind_result (upd_obj obj (\<lambda>x. x\<lparr>lo_shallow := False\<rparr>) s1) (heap_dict_set pf (en_variables e) name obj)
       else Inr (False, s1))))"

definition env_get_variable_value :: "addr option \<Rightarrow> string \<Rightarrow> ES \<Rightarrow> addr option result" where
  "env_get_variable_value env name s = (if env = None then Inr None
     else bind_result (get_env s env) (\<lambda>e. bind_result (get_dict s (en_variables e)) (\<lambda>d. Inr (dict_get d name))))"

function env_ancestor :: "addr option \<Rightarrow> nat \<Rightarrow> ES \<Rightarrow> addr option result" where
  "env_ancestor env order s = (if order = 0 then Inr env
     else bind_result (get_env s env) (\<lambda>e. env_ancestor (en_enclosing e) (order - 1) s))"
  by pat_completeness auto
termination by (relation "measure (\<lambda>(_, n, _). n)") auto

declare env_ancestor.simps [simp del]

definition env_get_variable_value_at :: "addr option \<Rightarrow> nat \<Rightarrow> string \<Rightarrow> ES \<Rightarrow> addr option result" where
  "env_get_variable_value_at env order name s = (if env = None then Inr None
     else bind_result (env_ancestor env order s) (\<lambda>e. env_get_variable_value e name s))"

definition env_set_variable_value_at :: "Platform \<Rightarrow> addr option \<Rightarrow> nat \<Rightarrow> string \<Rightarrow> addr option \<Rightarrow> ES \<Rightarrow> (bool \<times> ES) result" where
  "env_set_variable_value_at pf env order name val s = (if env = None then Inr (False, s)
     else bind_result (env_ancestor env order s) (\<lambda>e.
            bind_result (env_set_variable_value pf e name val s) (\<lambda>(_, s1). Inr (True, s1))))"

text \<open>The native functions and the start of the global environment.\<close>

definition callable_new :: "nat \<Rightarrow> CallFunc \<Rightarrow> ES \<Rightarrow> addr \<times> ES" where
  "callable_new arity func s = new_cell (Cell_Callable \<lparr>ca_arity = arity, ca_call = func, ca_declaration = Decl_Null,
     ca_closure = None, ca_type = FUNCTION_TYPE_FUNCTION\<rparr>) s"

definition env_clock :: "ES \<Rightarrow> addr \<times> ES" where
  "env_clock s = (case callable_new 0 clock_do s of (c, s1) \<Rightarrow> obj_new OBJ_CALLABLE (V_Callable c) 40 s1)"

definition env_read :: "ES \<Rightarrow> addr \<times> ES" where
  "env_read s = (case callable_new 0 read_do s of (c, s1) \<Rightarrow> obj_new OBJ_CALLABLE (V_Callable c) 40 s1)"

definition env_init_global :: "ES \<Rightarrow> ES result" where
  "env_init_global s = bind_result (env_init (Some GlobalExecutionEnvironment) s) (\<lambda>s1.
     case env_clock s1 of (c, s2) \<Rightarrow>
       bind_result (env_add_variable (Some GlobalExecutionEnvironment) ''clock'' (Some c) s2) (\<lambda>(_, s3).
         case env_read s3 of (r, s4) \<Rightarrow>
           bind_result (env_add_variable (Some GlobalExecutionEnvironment) ''read'' (Some r) s4) (\<lambda>(_, s5). Inr s5)))"

text \<open>\<^verbatim>\<open>fgets\<close> with a buffer of \<^verbatim>\<open>LINEBUFSIZE\<close>: the characters read, up to and with a newline.\<close>

fun fgets_loop :: "nat \<Rightarrow> string \<Rightarrow> string \<times> string" where
  "fgets_loop n [] = ([], [])"
| "fgets_loop n (c # cs) = (if n = 0 then ([], c # cs) else if c = CHR ''\<newline>'' then ([c], cs)
     else (let (line, rest) = fgets_loop (n - 1) cs in (c # line, rest)))"

definition is_number :: "string \<Rightarrow> bool" where
  "is_number str = list_all (\<lambda>c. 48 \<le> schar c \<and> schar c \<le> 57) str"

definition do_clock :: "Platform \<Rightarrow> ES \<Rightarrow> addr \<times> ES" where
  "do_clock pf s = obj_new OBJ_NUMBER (V_Number (dbl_of_int (pf_time pf (ev_ticks s)))) 8 (s\<lparr>ev_ticks := Suc (ev_ticks s)\<rparr>)"

text \<open>\<^verbatim>\<open>input[length - 1] = 0\<close> removes the last character read, whatever it is, and needs one.\<close>

definition do_read :: "ES \<Rightarrow> (addr \<times> ES) result" where
  "do_read s = (let (line, rest) = fgets_loop (LINEBUFSIZE - 1) (ev_input s);
       str = takeWhile (\<lambda>c. c \<noteq> CHR 0x00) line; input = butlast str; s1 = s\<lparr>ev_input := rest\<rparr>
     in if str = [] then Inl (Crash Out_Of_Bounds)
        else if input = ''nil'' then Inr (obj_new OBJ_NIL V_Null 0 s1)
        else if input = ''true'' then Inr (obj_new OBJ_BOOL (V_Bool True) 1 s1)
        else if input = ''false'' then Inr (obj_new OBJ_BOOL (V_Bool False) 1 s1)
        else if is_number input then Inr (obj_new OBJ_NUMBER (V_Number (strtod input)) 8 s1)
        else Inr (obj_new OBJ_STRING (V_Text input) (length input + 1) s1))"

end
