(* ===== verification/Clox_Eval.thy ===== *)
theory Clox_Eval
  imports Clox_Objects
begin

text \<open>
  The evaluator of the tree walker, \<^verbatim>\<open>src/eval.c\<close>, and \<^verbatim>\<open>src/interp.c\<close>, which resolves and evaluates the
  statements of a source text.

  A visit returns a pointer to an object, or NULL. The recursive functions a visit calls are its
  arguments, the platform is \<open>pf\<close>, and \<open>n\<close> is the step budget of the loops a visit contains
  (\<^verbatim>\<open>while\<close>, the chain of superclasses, the destruction of objects); \<open>evaluators\<close> ties the knot.
  Trees are not changed by the evaluator; they outlive the objects of one call of \<^verbatim>\<open>interp\<close>.

  The formats \<open>OPERAND_NUMBER\<close> and \<open>OPERAND_SAMETYPE\<close> have a \<^verbatim>\<open>%d\<close> for which the calls pass no argument;
  the number printed there is left out of the model.
\<close>

type_synonym expr_eval = "Expr option \<Rightarrow> ES \<Rightarrow> (addr option \<times> ES) result"
type_synonym stmt_eval = "Stmt option \<Rightarrow> ES \<Rightarrow> (addr option \<times> ES) result"

definition OPERAND_NUMBER :: string where
  "OPERAND_NUMBER = ''Syntax Error: Operands must be numbers at line: %d''"

definition OPERAND_SAMETYPE :: string where
  "OPERAND_SAMETYPE = ''Syntax Error: Operands must be two numbers or two strings at line: %d''"

text \<open>\<^verbatim>\<open>floor\<close> of \<^verbatim>\<open>math.h\<close>.\<close>

definition dbl_floor :: "double \<Rightarrow> double" where
  "dbl_floor x = (case x of Fin sg m e \<Rightarrow> if 0 \<le> e then x else dbl_of_signed sg (signed sg m div 2 ^ nat (- e)) 0 | _ \<Rightarrow> x)"

text \<open>Allocation of an object as the last action of a visit, and an error that is returned.\<close>

definition give :: "addr \<times> ES \<Rightarrow> (addr option \<times> ES) result" where
  "give r = Inr (Some (fst r), snd r)"

definition error_result :: "Platform \<Rightarrow> string \<Rightarrow> string list \<Rightarrow> addr option \<Rightarrow> nat \<Rightarrow> ES \<Rightarrow> (addr option \<times> ES) result" where
  "error_result pf fmt args p line s = bind_result (runtime_error_ast pf fmt args p line s) give"

definition number_of :: "Object \<Rightarrow> double result" where
  "number_of x = (case lo_value x of V_Number d \<Rightarrow> Inr d | _ \<Rightarrow> Inl (Crash Bad_Cast))"

definition text_of :: "Object \<Rightarrow> string result" where
  "text_of x = (case lo_value x of V_Text t \<Rightarrow> Inr t | _ \<Rightarrow> Inl (Crash Bad_Cast))"

definition bool_of :: "Object \<Rightarrow> bool result" where
  "bool_of x = (case lo_value x of V_Bool b \<Rightarrow> Inr b | _ \<Rightarrow> Inl (Crash Bad_Cast))"

section \<open>Operators\<close>

text \<open>The result of a numeric operator on two objects: a new object, or an error.\<close>

definition arith :: "Platform \<Rightarrow> nat \<Rightarrow> (double \<Rightarrow> double \<Rightarrow> ES \<Rightarrow> addr \<times> ES) \<Rightarrow> Object \<Rightarrow> Object \<Rightarrow> ES \<Rightarrow> (addr option \<times> ES) result" where
  "arith pf line mk l r s =
     (if lo_type r = OBJ_NUMBER \<and> lo_type l = OBJ_NUMBER
      then bind_result (number_of l) (\<lambda>a. bind_result (number_of r) (\<lambda>b. give (mk a b s)))
      else error_result pf OPERAND_NUMBER [] None line s)"

definition add_objects :: "Platform \<Rightarrow> nat \<Rightarrow> Object \<Rightarrow> Object \<Rightarrow> ES \<Rightarrow> (addr option \<times> ES) result" where
  "add_objects pf line l r s =
     (if lo_type r = OBJ_NUMBER \<and> lo_type l = OBJ_NUMBER
      then bind_result (number_of l) (\<lambda>a. bind_result (number_of r) (\<lambda>b. give (new_number (dbl_add a b) s)))
      else if lo_type r = OBJ_STRING \<and> lo_type l = OBJ_STRING
      then bind_result (text_of l) (\<lambda>a. bind_result (text_of r) (\<lambda>b. give (new_string (a @ b) s)))
      else error_result pf OPERAND_SAMETYPE [] None line s)"

text \<open>
  Equality; \<open>both_nil\<close> is what the source does with two \<^verbatim>\<open>nil\<close>. For \<^verbatim>\<open>==\<close> it assigns to the \<^verbatim>\<open>value\<close> of
  \<^verbatim>\<open>result\<close>, which is still NULL.
\<close>

definition compare_objects :: "(ES \<Rightarrow> (addr option \<times> ES) result) \<Rightarrow> bool \<Rightarrow> Object \<Rightarrow> Object \<Rightarrow> ES \<Rightarrow> (addr option \<times> ES) result" where
  "compare_objects both_nil equal l r s =
     (if lo_type r = OBJ_NIL \<and> lo_type l = OBJ_NIL then both_nil s
      else if lo_type r = OBJ_NUMBER \<and> lo_type l = OBJ_NUMBER
      then bind_result (number_of l) (\<lambda>a. bind_result (number_of r) (\<lambda>b. give (new_bool (dbl_eq a b = equal) s)))
      else if lo_type r = OBJ_STRING \<and> lo_type l = OBJ_STRING
      then bind_result (text_of l) (\<lambda>a. bind_result (text_of r) (\<lambda>b. give (new_bool ((a = b) = equal) s)))
      else if lo_type r = OBJ_BOOL \<and> lo_type l = OBJ_BOOL
      then bind_result (bool_of l) (\<lambda>a. bind_result (bool_of r) (\<lambda>b. give (new_bool ((a = b) = equal) s)))
      else give (new_bool (\<not> equal) s))"

definition binary_result :: "Platform \<Rightarrow> Token \<Rightarrow> Object \<Rightarrow> Object \<Rightarrow> ES \<Rightarrow> (addr option \<times> ES) result" where
  "binary_result pf t l r s = (let line = tk_line t in case tk_type t of
       TOKEN_MINUS \<Rightarrow> arith pf line (\<lambda>a b. new_number (dbl_sub a b)) l r s
     | TOKEN_PLUS \<Rightarrow> add_objects pf line l r s
     | TOKEN_SLASH \<Rightarrow> arith pf line (\<lambda>a b. new_number (dbl_div a b)) l r s
     | TOKEN_STAR \<Rightarrow> arith pf line (\<lambda>a b. new_number (dbl_mul a b)) l r s
     | TOKEN_GREATER \<Rightarrow> arith pf line (\<lambda>a b. new_bool (dbl_less b a)) l r s
     | TOKEN_GREATER_EQUAL \<Rightarrow> arith pf line (\<lambda>a b. new_bool (dbl_less b a \<or> dbl_eq a b)) l r s
     | TOKEN_LESS \<Rightarrow> arith pf line (\<lambda>a b. new_bool (dbl_less a b)) l r s
     | TOKEN_LESS_EQUAL \<Rightarrow> arith pf line (\<lambda>a b. new_bool (dbl_less a b \<or> dbl_eq a b)) l r s
     | TOKEN_EQUAL_EQUAL \<Rightarrow> compare_objects (\<lambda>_. Inl (Crash Null_Deref)) True l r s
     | TOKEN_BANG_EQUAL \<Rightarrow> compare_objects (\<lambda>s. give (new_bool False s)) False l r s
     | _ \<Rightarrow> Inr (None, s))"

text \<open>The right operand is evaluated first.\<close>

definition visit_binary :: "Platform \<Rightarrow> nat \<Rightarrow> expr_eval \<Rightarrow> Expr \<Rightarrow> ES \<Rightarrow> (addr option \<times> ES) result" where
  "visit_binary pf n rec expr s = (case ex_expr expr of
     EXPR_BINARY t left right \<Rightarrow>
       bind_result (rec right s) (\<lambda>(r, s1). bind_result (rec left s1) (\<lambda>(l, s2).
         if r = None \<or> l = None then Inr (None, s2)
         else bind_result (get_obj s2 r) (\<lambda>rx. bind_result (get_obj s2 l) (\<lambda>lx.
           bind_result (binary_result pf t lx rx s2) (\<lambda>(result, s3).
             bind_result (obj_destroy pf n l s3) (\<lambda>s4. bind_result (obj_destroy pf n r s4) (\<lambda>s5. Inr (result, s5))))))))
   | _ \<Rightarrow> Inl (Crash Bad_Cast))"

definition visit_unary :: "Platform \<Rightarrow> nat \<Rightarrow> expr_eval \<Rightarrow> Expr \<Rightarrow> ES \<Rightarrow> (addr option \<times> ES) result" where
  "visit_unary pf n rec expr s = (case ex_expr expr of
     EXPR_UNARY t e \<Rightarrow> bind_result (rec e s) (\<lambda>(p, s1).
       if tk_type t = TOKEN_BANG
       then bind_result (obj_unlikely p s1) (\<lambda>b. bind_result (obj_destroy pf n p s1) (\<lambda>s2. give (new_bool b s2)))
       else if tk_type t = TOKEN_MINUS
       then bind_result (get_obj s1 p) (\<lambda>x.
         if lo_type x \<noteq> OBJ_NUMBER then error_result pf OPERAND_NUMBER [] p (tk_line t) s1
         else bind_result (number_of x) (\<lambda>d. bind_result (obj_destroy pf n p s1) (\<lambda>s2. give (new_number (dbl_neg d) s2))))
       else Inr (p, s1))
   | _ \<Rightarrow> Inl (Crash Bad_Cast))"

definition visit_grouping :: "expr_eval \<Rightarrow> Expr \<Rightarrow> ES \<Rightarrow> (addr option \<times> ES) result" where
  "visit_grouping rec expr s = (case ex_expr expr of EXPR_GROUPING e \<Rightarrow> rec e s | _ \<Rightarrow> Inl (Crash Bad_Cast))"

definition visit_literal :: "Expr \<Rightarrow> ES \<Rightarrow> (addr option \<times> ES) result" where
  "visit_literal expr s = (case ex_expr expr of
     EXPR_LITERAL l \<Rightarrow> (case le_value l of
         LITERAL_STRING x \<Rightarrow> give (obj_new OBJ_STRING (V_Text x) (le_valueSize l) s)
       | LITERAL_NUMBER d \<Rightarrow> give (obj_new OBJ_NUMBER (V_Number d) (le_valueSize l) s)
       | LITERAL_NIL \<Rightarrow> give (obj_new OBJ_NIL V_Null 0 s)
       | LITERAL_BOOL b \<Rightarrow> give (obj_new OBJ_BOOL (V_Bool b) (le_valueSize l) s))
   | _ \<Rightarrow> Inl (Crash Bad_Cast))"

section \<open>Variables\<close>

text \<open>The parameter \<^verbatim>\<open>int order\<close> of \<^verbatim>\<open>lookup_var\<close> is -1 for the largest unsigned value.\<close>

definition lookup_var :: "nat \<Rightarrow> string \<Rightarrow> ES \<Rightarrow> addr option result" where
  "lookup_var order name s = (if order = UINT_MAX
     then env_get_variable_value (Some GlobalExecutionEnvironment) name s
     else env_get_variable_value_at (Some (ev_current s)) order name s)"

definition visit_var_expr :: "Platform \<Rightarrow> Expr \<Rightarrow> ES \<Rightarrow> (addr option \<times> ES) result" where
  "visit_var_expr pf expr s = (case ex_expr expr of
     EXPR_VARIABLE t \<Rightarrow> bind_result (lexeme_of t) (\<lambda>x. bind_result (lookup_var (ex_order expr) x s) (\<lambda>v.
       if v = None then error_result pf (''Unresolved variable name '%s'' @ [CHR 0x27]) [x] None (tk_line t) s else Inr (v, s)))
   | _ \<Rightarrow> Inl (Crash Bad_Cast))"

definition visit_assign :: "Platform \<Rightarrow> expr_eval \<Rightarrow> Expr \<Rightarrow> ES \<Rightarrow> (addr option \<times> ES) result" where
  "visit_assign pf rec expr s = (case ex_expr expr of
     EXPR_ASSIGNMENT t right \<Rightarrow> bind_result (rec right s) (\<lambda>(v, s1). bind_result (lexeme_of t) (\<lambda>x.
       if v = None then error_result pf (''Cannot assign undeclared variable '%s'' @ [CHR 0x27]) [x] None (tk_line t) s1
       else bind_result (if ex_order expr = 0
              then env_set_variable_value pf (Some GlobalExecutionEnvironment) x v s1
              else env_set_variable_value_at pf (Some (ev_current s1)) (ex_order expr) x v s1) (\<lambda>(_, s2). Inr (v, s2))))
   | _ \<Rightarrow> Inl (Crash Bad_Cast))"

definition visit_logical :: "expr_eval \<Rightarrow> Expr \<Rightarrow> ES \<Rightarrow> (addr option \<times> ES) result" where
  "visit_logical rec expr s = (case ex_expr expr of
     EXPR_LOGICAL left right t \<Rightarrow> bind_result (rec left s) (\<lambda>(l, s1). bind_result (obj_likely l s1) (\<lambda>truth.
       if tk_type t = TOKEN_OR \<and> truth \<or> tk_type t = TOKEN_AND \<and> \<not> truth then Inr (l, s1) else rec right s1))
   | _ \<Rightarrow> Inl (Crash Bad_Cast))"

section \<open>Calls\<close>

text \<open>
  The loop of \<^verbatim>\<open>execute_block\<close>: a return statement does not leave it, an object with the flag
  \<^verbatim>\<open>propagateReturn\<close> from any other statement does.
\<close>

fun execute_block_loop :: "stmt_eval \<Rightarrow> Stmt option list \<Rightarrow> addr option \<Rightarrow> addr option list \<Rightarrow> ES \<Rightarrow> ((addr option \<times> addr option list) \<times> ES) result" where
  "execute_block_loop rec [] obj dump s = Inr ((obj, dump), s)"
| "execute_block_loop rec (st # sts) obj dump s = (case st of
     None \<Rightarrow> Inl (Crash Null_Deref)
   | Some (STMT_RETURN _ _) \<Rightarrow> bind_result (rec st s) (\<lambda>(obj1, s1). execute_block_loop rec sts obj1 dump s1)
   | Some _ \<Rightarrow> bind_result (rec st s) (\<lambda>(obj1, s1). bind_result (get_obj s1 obj1) (\<lambda>x.
       if lo_propagateReturn x then Inr ((obj1, dump), s1) else execute_block_loop rec sts obj1 (dump @ [obj1]) s1)))"

fun obj_destroy_in_list :: "Platform \<Rightarrow> nat \<Rightarrow> addr option list \<Rightarrow> ES \<Rightarrow> ES result" where
  "obj_destroy_in_list pf n [] s = Inr s"
| "obj_destroy_in_list pf n (p # ps) s = bind_result (obj_destroy pf n p s) (obj_destroy_in_list pf n ps)"

definition execute_block :: "Platform \<Rightarrow> nat \<Rightarrow> stmt_eval \<Rightarrow> Stmt option list \<Rightarrow> ES \<Rightarrow> (addr option \<times> ES) result" where
  "execute_block pf n rec sts s = bind_result (execute_block_loop rec sts None [] s) (\<lambda>((obj, dump), s1).
     bind_result (get_obj s1 obj) (\<lambda>x.
       if lo_propagateReturn x then Inr (obj, s1)
       else bind_result (obj_destroy_in_list pf n dump s1) (\<lambda>s2. give (new_void s2))))"

text \<open>The parameters: the argument at the same index, if there is one.\<close>

fun bind_params :: "Token list \<Rightarrow> addr option list \<Rightarrow> ES \<Rightarrow> ES result" where
  "bind_params [] args s = Inr s"
| "bind_params (t # ts) [] s = Inr s"
| "bind_params (t # ts) (a # as) s = bind_result (lexeme_of t) (\<lambda>x.
     bind_result (env_add_variable (Some (ev_current s)) x a s) (\<lambda>(_, s1). bind_params ts as s1))"

text \<open>What a call does in the environment of the callee; a constructor returns \<^verbatim>\<open>this\<close>.\<close>

definition this_for_ctor :: "Platform \<Rightarrow> nat \<Rightarrow> bool \<Rightarrow> addr option \<Rightarrow> ES \<Rightarrow> (addr option \<times> ES) result" where
  "this_for_ctor pf n ctor v s = (if ctor
     then bind_result (obj_destroy pf n v s) (\<lambda>s1. bind_result (env_get_variable_value (Some (ev_current s1)) ''this'' s1) (\<lambda>v1. Inr (v1, s1)))
     else Inr (v, s))"

definition call_body :: "Platform \<Rightarrow> nat \<Rightarrow> stmt_eval \<Rightarrow> Token list \<Rightarrow> Stmt option \<Rightarrow> addr option list \<Rightarrow> FunctionType_ast \<Rightarrow> ES \<Rightarrow>
    (addr option \<times> ES) result" where
  "call_body pf n rec ps body args type s = bind_result (bind_params ps args s) (\<lambda>s2.
     bind_result (case body of None \<Rightarrow> Inl (Crash Null_Deref) | Some (STMT_BLOCK sts) \<Rightarrow> execute_block pf n rec sts s2
                  | Some _ \<Rightarrow> Inl (Crash Bad_Cast)) (\<lambda>(v, s3).
     bind_result (get_obj s3 v) (\<lambda>x.
     bind_result (this_for_ctor pf n (lo_type x = OBJ_VOID \<and> type = FUNCTION_TYPE_CTOR) v s3) (\<lambda>(v1, s4).
       this_for_ctor pf n (type = FUNCTION_TYPE_CTOR) v1 s4))))"

definition do_fun_call :: "Platform \<Rightarrow> nat \<Rightarrow> stmt_eval \<Rightarrow> addr option list \<Rightarrow> decl_ptr \<Rightarrow> addr option \<Rightarrow> FunctionType_ast \<Rightarrow> ES \<Rightarrow>
    (addr option \<times> ES) result" where
  "do_fun_call pf n rec args decl closure type s = (case decl of
     Decl_Fun (STMT_FUN ps name body) \<Rightarrow>
       bind_result (env_new s) (\<lambda>(env, s1). bind_result (get_env s1 (Some env)) (\<lambda>e.
       bind_result (call_body pf n rec ps body args type ((put env (Cell_Env (e\<lparr>en_enclosing := closure\<rparr>)) s1)\<lparr>ev_current := env\<rparr>))
         (\<lambda>(v, s2). Inr (v, s2\<lparr>ev_current := ev_current s\<rparr>))))
   | Decl_Null \<Rightarrow> Inl (Crash Null_Deref)
   | _ \<Rightarrow> Inl (Crash Bad_Cast))"

text \<open>\<^verbatim>\<open>instantiate\<close> tests the local \<^verbatim>\<open>customCtor\<close>, which is NULL, so it never calls \<^verbatim>\<open>init\<close>.\<close>

definition do_instantiate :: "decl_ptr \<Rightarrow> ES \<Rightarrow> (addr option \<times> ES) result" where
  "do_instantiate decl s = (case decl of
     Decl_Class k \<Rightarrow> bind_result (get_class s (Some k)) (\<lambda>cl. bind_result (get_dict s (cl_methods cl)) (\<lambda>_.
       case new_cell (Cell_Dict new_dict) s of (d, s1) \<Rightarrow>
         (case new_cell (Cell_Instance \<lparr>ci_type = cl, ci_fields = Some d\<rparr>) s1 of (i, s2) \<Rightarrow>
            give (obj_new OBJ_CLASS_INSTANCE (V_Instance i) 40 s2))))
   | Decl_Null \<Rightarrow> Inl (Crash Null_Deref)
   | _ \<Rightarrow> Inl (Crash Bad_Cast))"

definition do_call :: "Platform \<Rightarrow> nat \<Rightarrow> stmt_eval \<Rightarrow> Callable \<Rightarrow> addr option list \<Rightarrow> ES \<Rightarrow> (addr option \<times> ES) result" where
  "do_call pf n rec c args s = (case ca_call c of
     clock_do \<Rightarrow> give (do_clock pf s)
   | read_do \<Rightarrow> bind_result (do_read s) give
   | fun_call \<Rightarrow> do_fun_call pf n rec args (ca_declaration c) (ca_closure c) (ca_type c) s
   | instantiate \<Rightarrow> do_instantiate (ca_declaration c) s)"

fun eval_args :: "expr_eval \<Rightarrow> Expr list \<Rightarrow> ES \<Rightarrow> (addr option list \<times> ES) result" where
  "eval_args rec [] s = Inr ([], s)"
| "eval_args rec (e # es) s = bind_result (rec (Some e) s) (\<lambda>(p, s1).
     bind_result (eval_args rec es s1) (\<lambda>(ps, s2). Inr (p # ps, s2)))"

text \<open>On a wrong number of arguments the source reads the list it has just freed.\<close>

definition visit_callable :: "Platform \<Rightarrow> nat \<Rightarrow> expr_eval \<Rightarrow> stmt_eval \<Rightarrow> Expr \<Rightarrow> ES \<Rightarrow> (addr option \<times> ES) result" where
  "visit_callable pf n rec rec_stmt expr s = (case ex_expr expr of
     EXPR_CALL ce paren args \<Rightarrow> bind_result (rec ce s) (\<lambda>(callee, s1). bind_result (get_obj s1 callee) (\<lambda>x.
       if lo_type x \<noteq> OBJ_CALLABLE \<and> lo_type x \<noteq> OBJ_CLASS_DEFINITION
       then error_result pf ''Can only call functions and classes.'' [] callee (tk_line paren) s1
       else bind_result (if lo_type x = OBJ_CALLABLE then callable_ptr x
              else bind_result (class_ptr x) (\<lambda>k. bind_result (get_class s1 k) (\<lambda>cl. Inr (Some (cl_ctor cl))))) (\<lambda>cp.
         bind_result (eval_args rec args s1) (\<lambda>(as, s2).
         bind_result (get_callable s2 cp) (\<lambda>c.
           if length as \<noteq> ca_arity c then Inl (Crash Use_After_Free)
           else bind_result (do_call pf n rec_stmt c as s2) (\<lambda>(result, s3).
             bind_result (obj_destroy pf n callee s3) (\<lambda>s4. Inr (result, s4))))))))
   | _ \<Rightarrow> Inl (Crash Bad_Cast))"

section \<open>Instances\<close>

definition callable_bind :: "addr option \<Rightarrow> addr option \<Rightarrow> ES \<Rightarrow> ES result" where
  "callable_bind inst method s = bind_result (env_new s) (\<lambda>(env, s1).
     bind_result (env_add_variable (Some env) ''this'' inst s1) (\<lambda>(_, s2).
     bind_result (get_callable s2 method) (\<lambda>c. bind_result (get_env s2 (Some env)) (\<lambda>e.
       Inr (put (the method) (Cell_Callable (c\<lparr>ca_closure := Some env\<rparr>))
              (put env (Cell_Env (e\<lparr>en_enclosing := ca_closure c\<rparr>)) s2))))))"

fun find_method :: "nat \<Rightarrow> Class \<Rightarrow> addr option \<Rightarrow> string \<Rightarrow> ES \<Rightarrow> (addr option \<times> ES) result" where
  "find_method 0 cl inst name s = Inl Out_Of_Fuel"
| "find_method (Suc n) cl inst name s = bind_result (get_dict s (cl_methods cl)) (\<lambda>d.
     case dict_get d name of
       Some m \<Rightarrow> bind_result (get_obj s (Some m)) (\<lambda>x. bind_result (callable_ptr x) (\<lambda>c.
         bind_result (callable_bind inst c s) (\<lambda>s1. Inr (Some m, s1))))
     | None \<Rightarrow> if cl_super cl = None then Inr (None, s)
         else bind_result (get_obj s (cl_super cl)) (\<lambda>x. bind_result (class_ptr x) (\<lambda>k.
           bind_result (get_class s k) (\<lambda>cl1. find_method n cl1 inst name s))))"

definition instance_get :: "Platform \<Rightarrow> nat \<Rightarrow> addr option \<Rightarrow> Token \<Rightarrow> ES \<Rightarrow> (addr option \<times> ES) result" where
  "instance_get pf n obj name s = bind_result (get_obj s obj) (\<lambda>x. bind_result (instance_ptr x) (\<lambda>i.
     bind_result (get_instance s i) (\<lambda>inst. bind_result (get_dict s (ci_fields inst)) (\<lambda>d. bind_result (lexeme_of name) (\<lambda>nm.
       if dict_contains d nm then Inr (dict_get d nm, s)
       else bind_result (find_method n (ci_type inst) obj nm s) (\<lambda>(m, s1).
         if m \<noteq> None then Inr (m, s1)
         else error_result pf (''Undefined property '%s'' @ [CHR 0x27]) [nm] None (tk_line name) s1))))))"

definition instance_set :: "Platform \<Rightarrow> addr option \<Rightarrow> Token \<Rightarrow> addr option \<Rightarrow> ES \<Rightarrow> ES result" where
  "instance_set pf i name v s = bind_result (get_instance s i) (\<lambda>inst. bind_result (get_dict s (ci_fields inst)) (\<lambda>d.
     bind_result (lexeme_of name) (\<lambda>nm.
       bind_result (if dict_contains d nm then heap_dict_set pf (ci_fields inst) nm v s else heap_dict_add (ci_fields inst) nm v s)
         (\<lambda>(_, s1). Inr s1))))"

definition visit_get :: "Platform \<Rightarrow> nat \<Rightarrow> expr_eval \<Rightarrow> Expr \<Rightarrow> ES \<Rightarrow> (addr option \<times> ES) result" where
  "visit_get pf n rec expr s = (case ex_expr expr of
     EXPR_GET e name \<Rightarrow> bind_result (rec e s) (\<lambda>(obj, s1). bind_result (get_obj s1 obj) (\<lambda>x.
       if lo_type x = OBJ_CLASS_INSTANCE then instance_get pf n obj name s1
       else error_result pf ''Only instances have properties'' [] obj (tk_line name) s1))
   | _ \<Rightarrow> Inl (Crash Bad_Cast))"

definition visit_set :: "Platform \<Rightarrow> expr_eval \<Rightarrow> Expr \<Rightarrow> ES \<Rightarrow> (addr option \<times> ES) result" where
  "visit_set pf rec expr s = (case ex_expr expr of
     EXPR_SET e name ve \<Rightarrow> bind_result (rec e s) (\<lambda>(obj, s1). bind_result (get_obj s1 obj) (\<lambda>x.
       if lo_type x \<noteq> OBJ_CLASS_INSTANCE then error_result pf ''Only instances have fields.'' [] obj (tk_line name) s1
       else bind_result (rec ve s1) (\<lambda>(v, s2). bind_result (get_obj s2 obj) (\<lambda>x2. bind_result (instance_ptr x2) (\<lambda>i.
         bind_result (instance_set pf i name v s2) (\<lambda>s3. Inr (v, s3)))))))
   | _ \<Rightarrow> Inl (Crash Bad_Cast))"

definition visit_this :: "Expr \<Rightarrow> ES \<Rightarrow> (addr option \<times> ES) result" where
  "visit_this expr s = (case ex_expr expr of
     EXPR_THIS keyword \<Rightarrow> bind_result (lexeme_of keyword) (\<lambda>x. bind_result (lookup_var (ex_order expr) x s) (\<lambda>v. Inr (v, s)))
   | _ \<Rightarrow> Inl (Crash Bad_Cast))"

text \<open>\<^verbatim>\<open>expr->order - 1\<close> is computed on \<^verbatim>\<open>unsigned int\<close>.\<close>

definition visit_super :: "Platform \<Rightarrow> nat \<Rightarrow> Expr \<Rightarrow> ES \<Rightarrow> (addr option \<times> ES) result" where
  "visit_super pf n expr s = (case ex_expr expr of
     EXPR_SUPER keyword method \<Rightarrow>
       bind_result (env_get_variable_value_at (Some (ev_current s)) (ex_order expr) ''super'' s) (\<lambda>sup.
       bind_result (env_get_variable_value_at (Some (ev_current s)) (if ex_order expr = 0 then UINT_MAX else ex_order expr - 1) ''this'' s) (\<lambda>this.
         if sup = None then Inr (None, s)
         else bind_result (get_obj s sup) (\<lambda>x. bind_result (class_ptr x) (\<lambda>k. bind_result (get_class s k) (\<lambda>cl.
           bind_result (lexeme_of method) (\<lambda>nm. bind_result (find_method n cl this nm s) (\<lambda>(m, s1).
             if m = None then error_result pf ''Undefined property '%s'.'' [nm] None (tk_line method) s1 else Inr (m, s1))))))))
   | _ \<Rightarrow> Inl (Crash Bad_Cast))"

definition EvaluateExpressionVisitor :: "Platform \<Rightarrow> nat \<Rightarrow> expr_eval \<Rightarrow> stmt_eval \<Rightarrow> (ES, addr option \<times> ES) ExpressionVisitor" where
  "EvaluateExpressionVisitor pf n rec rec_stmt = \<lparr>visitBinary = visit_binary pf n rec, visitUnary = visit_unary pf n rec,
     visitLiteral = visit_literal, visitGrouping = visit_grouping rec, visitVariable = visit_var_expr pf,
     visitAssignment = visit_assign pf rec, visitLogical = visit_logical rec, visitCallable = visit_callable pf n rec rec_stmt,
     visitGet = visit_get pf n rec, visitSet = visit_set pf rec, visitThis = visit_this, visitSuper = visit_super pf n\<rparr>"

section \<open>Statements\<close>

definition printed :: "Object \<Rightarrow> ES \<Rightarrow> eval_out option result" where
  "printed x s = (case lo_type x of
     OBJ_NIL \<Rightarrow> Inr (Some Out_Nil)
   | OBJ_STRING \<Rightarrow> bind_result (text_of x) (\<lambda>t. Inr (Some (Out_Text t)))
   | OBJ_ERROR \<Rightarrow> (case lo_value x of V_Error fmt line args \<Rightarrow> Inr (Some (Out_Error fmt line args)) | _ \<Rightarrow> Inl (Crash Bad_Cast))
   | OBJ_BOOL \<Rightarrow> bind_result (bool_of x) (\<lambda>b. Inr (Some (Out_Bool b)))
   | OBJ_NUMBER \<Rightarrow> bind_result (number_of x) (\<lambda>d. Inr (Some (Out_Number (\<not> dbl_eq d (dbl_floor d)) d)))
   | OBJ_CALLABLE \<Rightarrow> bind_result (callable_ptr x) (\<lambda>p. bind_result (get_callable s p) (\<lambda>c.
       case ca_declaration c of
         Decl_Fun (STMT_FUN _ name _) \<Rightarrow> bind_result (lexeme_of name) (\<lambda>nm. Inr (Some (Out_Fn nm)))
       | Decl_Null \<Rightarrow> Inl (Crash Null_Deref)
       | _ \<Rightarrow> Inl (Crash Bad_Cast)))
   | OBJ_CLASS_DEFINITION \<Rightarrow> bind_result (class_ptr x) (\<lambda>p. bind_result (get_class s p) (\<lambda>c. Inr (Some (Out_Class (cl_name c)))))
   | OBJ_CLASS_INSTANCE \<Rightarrow> bind_result (instance_ptr x) (\<lambda>p. bind_result (get_instance s p) (\<lambda>i. Inr (Some (Out_Instance (cl_name (ci_type i))))))
   | OBJ_VOID \<Rightarrow> Inr None
   | OBJ_BITS _ \<Rightarrow> Inr None)"

definition visit_print :: "expr_eval \<Rightarrow> Stmt \<Rightarrow> ES \<Rightarrow> (addr option \<times> ES) result" where
  "visit_print rec stmt s = (case stmt of
     STMT_PRINT e \<Rightarrow> bind_result (rec e s) (\<lambda>(obj, s1). bind_result (get_obj s1 obj) (\<lambda>x.
       bind_result (printed x s1) (\<lambda>out. Inr (obj, case out of None \<Rightarrow> s1 | Some line \<Rightarrow> s1\<lparr>ev_out := ev_out s1 @ [line]\<rparr>))))
   | _ \<Rightarrow> Inl (Crash Bad_Cast))"

definition visit_expr :: "expr_eval \<Rightarrow> Stmt \<Rightarrow> ES \<Rightarrow> (addr option \<times> ES) result" where
  "visit_expr rec stmt s = (case stmt of STMT_EXPR e \<Rightarrow> rec e s | _ \<Rightarrow> Inl (Crash Bad_Cast))"

definition visit_var :: "Platform \<Rightarrow> expr_eval \<Rightarrow> Stmt \<Rightarrow> ES \<Rightarrow> (addr option \<times> ES) result" where
  "visit_var pf rec stmt s = (case stmt of
     STMT_VAR_DECLARATION e t \<Rightarrow> bind_result (if e = None then Inr (None, s) else rec e s) (\<lambda>(v, s1).
       bind_result (lexeme_of t) (\<lambda>x. bind_result (env_add_variable (Some (ev_current s1)) x v s1) (\<lambda>(ok, s2).
         if ok then Inr (v, s2) else error_result pf (CHR 0x27 # ''%s' is already defined'') [x] v (tk_line t) s2)))
   | _ \<Rightarrow> Inl (Crash Bad_Cast))"

text \<open>The dictionary of the new environment is dropped before the block runs; the first declaration makes another.\<close>

definition block_body :: "Platform \<Rightarrow> nat \<Rightarrow> stmt_eval \<Rightarrow> Stmt option list \<Rightarrow> addr \<Rightarrow> ES \<Rightarrow> (addr option \<times> ES) result" where
  "block_body pf n rec sts env s = bind_result (execute_block pf n rec sts s) (\<lambda>(v, s2).
     bind_result (env_destroy (obj_force_destroy (obj_destroy pf n)) (Some env) s2) (\<lambda>s3.
     bind_result (fr (Some env) s3) (\<lambda>s4. Inr (v, s4))))"

definition visit_block :: "Platform \<Rightarrow> nat \<Rightarrow> stmt_eval \<Rightarrow> Stmt \<Rightarrow> ES \<Rightarrow> (addr option \<times> ES) result" where
  "visit_block pf n rec stmt s = (case stmt of
     STMT_BLOCK sts \<Rightarrow> bind_result (env_new s) (\<lambda>(env, s1).
       bind_result (block_body pf n rec sts env
           ((put env (Cell_Env \<lparr>en_variables = None, en_enclosing = Some (ev_current s)\<rparr>) s1)\<lparr>ev_current := env\<rparr>))
         (\<lambda>(v, s4). Inr (v, s4\<lparr>ev_current := ev_current s\<rparr>)))
   | _ \<Rightarrow> Inl (Crash Bad_Cast))"

definition visit_ifElse :: "expr_eval \<Rightarrow> stmt_eval \<Rightarrow> Stmt \<Rightarrow> ES \<Rightarrow> (addr option \<times> ES) result" where
  "visit_ifElse rec rec_stmt stmt s = (case stmt of
     STMT_IF_ELSE c th el \<Rightarrow> bind_result (rec c s) (\<lambda>(v, s1). bind_result (obj_likely v s1) (\<lambda>b.
       if b then rec_stmt th s1 else if el \<noteq> None then rec_stmt el s1 else give (new_void s1)))
   | _ \<Rightarrow> Inl (Crash Bad_Cast))"

fun while_loop :: "nat \<Rightarrow> expr_eval \<Rightarrow> stmt_eval \<Rightarrow> Expr option \<Rightarrow> Stmt option \<Rightarrow> ES \<Rightarrow> ES result" where
  "while_loop 0 rec rec_stmt c b s = Inl Out_Of_Fuel"
| "while_loop (Suc k) rec rec_stmt c b s = bind_result (rec c s) (\<lambda>(v, s1). bind_result (obj_likely v s1) (\<lambda>t.
     if t then bind_result (rec_stmt b s1) (\<lambda>(_, s2). while_loop k rec rec_stmt c b s2) else Inr s1))"

definition visit_while :: "nat \<Rightarrow> expr_eval \<Rightarrow> stmt_eval \<Rightarrow> Stmt \<Rightarrow> ES \<Rightarrow> (addr option \<times> ES) result" where
  "visit_while n rec rec_stmt stmt s = (case stmt of
     STMT_WHILE c b \<Rightarrow> bind_result (while_loop n rec rec_stmt c b s) (\<lambda>s1. give (new_void s1))
   | _ \<Rightarrow> Inl (Crash Bad_Cast))"

definition build_function :: "Stmt \<Rightarrow> addr \<Rightarrow> FunctionType_ast \<Rightarrow> ES \<Rightarrow> (addr \<times> ES) result" where
  "build_function stmt closure type s = (case stmt of
     STMT_FUN args name body \<Rightarrow>
       (case new_cell (Cell_Callable \<lparr>ca_arity = length args, ca_call = fun_call, ca_declaration = Decl_Fun stmt,
                         ca_closure = Some closure, ca_type = type\<rparr>) s of
          (c, s1) \<Rightarrow> Inr (obj_new OBJ_CALLABLE (V_Callable c) 40 s1))
   | _ \<Rightarrow> Inl (Crash Bad_Cast))"

definition visit_fun :: "Stmt \<Rightarrow> ES \<Rightarrow> (addr option \<times> ES) result" where
  "visit_fun stmt s = (case stmt of
     STMT_FUN args name body \<Rightarrow> bind_result (build_function stmt (ev_current s) FUNCTION_TYPE_FUNCTION s) (\<lambda>(f, s1).
       bind_result (lexeme_of name) (\<lambda>x. bind_result (env_add_variable (Some (ev_current s1)) x (Some f) s1) (\<lambda>(_, s2).
         give (new_void s2))))
   | _ \<Rightarrow> Inl (Crash Bad_Cast))"

definition visit_return :: "Platform \<Rightarrow> nat \<Rightarrow> expr_eval \<Rightarrow> Stmt \<Rightarrow> ES \<Rightarrow> (addr option \<times> ES) result" where
  "visit_return pf n rec stmt s = (case stmt of
     STMT_RETURN keyword e \<Rightarrow> (case new_void s of (u, s1) \<Rightarrow>
       bind_result (if e = None then Inr (Some u, s1) else bind_result (obj_destroy pf n (Some u) s1) (rec e)) (\<lambda>(v, s2).
         bind_result (upd_obj v (\<lambda>x. x\<lparr>lo_propagateReturn := True\<rparr>) s2) (\<lambda>s3. Inr (v, s3))))
   | _ \<Rightarrow> Inl (Crash Bad_Cast))"

fun add_methods :: "addr \<Rightarrow> Stmt option list \<Rightarrow> ES \<Rightarrow> ES result" where
  "add_methods d [] s = Inr s"
| "add_methods d (m # ms) s = (case m of
     None \<Rightarrow> Inl (Crash Null_Deref)
   | Some st \<Rightarrow> bind_result (build_function st (ev_current s) FUNCTION_TYPE_METHOD s) (\<lambda>(f, s1).
       bind_result (case st of STMT_FUN _ name _ \<Rightarrow> lexeme_of name | _ \<Rightarrow> Inl (Crash Bad_Cast)) (\<lambda>x.
         bind_result (heap_dict_add (Some d) x (Some f) s1) (\<lambda>(_, s2). add_methods d ms s2))))"

text \<open>
  \<^verbatim>\<open>customCtor\<close> points to the object of the method \<^verbatim>\<open>init\<close> but is used as a \<^verbatim>\<open>Callable\<close>: its \<^verbatim>\<open>arity\<close> is the
  low half of the object's \<^verbatim>\<open>value\<close>, its \<^verbatim>\<open>type\<close> is written behind the end of the object.
\<close>

definition custom_arity :: "Platform \<Rightarrow> addr option \<Rightarrow> ES \<Rightarrow> nat result" where
  "custom_arity pf p s = (case p of None \<Rightarrow> Inr 0
     | Some m \<Rightarrow> bind_result (get_obj s p) (\<lambda>x. bind_result (callable_ptr x) (\<lambda>c.
         if inside_block (pf_usable pf) (sizeof_struct Object_fields) (offsetof Callable_fields ''type'') sizeof_int
         then Inr (case c of None \<Rightarrow> 0 | Some a \<Rightarrow> pf_low pf a) else Inl (Crash Out_Of_Bounds))))"

definition visit_class :: "Platform \<Rightarrow> expr_eval \<Rightarrow> Stmt \<Rightarrow> ES \<Rightarrow> (addr option \<times> ES) result" where
  "visit_class pf rec stmt s = (case stmt of
     STMT_CLASS name methods super \<Rightarrow>
       bind_result (env_new s) (\<lambda>(env, s1).
       bind_result (if super = None then Inr (None, s1) else rec super s1) (\<lambda>(sup, s2).
       bind_result (if sup = None then Inr OBJ_NIL else bind_result (get_obj s2 sup) (\<lambda>x. Inr (lo_type x))) (\<lambda>ty.
       if super \<noteq> None \<and> (sup = None \<or> ty \<noteq> OBJ_CLASS_DEFINITION)
       then (case super of Some (Mk_Expr (EXPR_VARIABLE t) _) \<Rightarrow> error_result pf ''Superclass must be a class.'' [] None (tk_line t) s2
             | _ \<Rightarrow> Inl (Crash Bad_Cast))
       else bind_result (if sup = None then Inr (False, s2) else env_add_variable (Some env) ''super'' sup s2) (\<lambda>(_, s3).
         case new_cell (Cell_Dict new_dict) s3 of (d, s4) \<Rightarrow>
         bind_result (add_methods d methods s4) (\<lambda>s5.
         bind_result (get_dict s5 (Some d)) (\<lambda>md.
         bind_result (custom_arity pf (dict_get md ''init'') s5) (\<lambda>arity.
         bind_result (lexeme_of name) (\<lambda>x.
         let k = Suc (length (ev_heap s5));
             (ctor, s6) = new_cell (Cell_Callable \<lparr>ca_arity = arity, ca_call = instantiate, ca_declaration = Decl_Class k,
                            ca_closure = Some (ev_current s), ca_type = FUNCTION_TYPE_CTOR\<rparr>) s5;
             (k', s7) = new_cell (Cell_Class \<lparr>cl_name = x, cl_ctor = ctor, cl_methods = Some d, cl_super = sup\<rparr>) s6;
             (obj, s8) = obj_new OBJ_CLASS_DEFINITION (V_Class k') 32 s7
         in bind_result (env_add_variable (Some (ev_current s8)) x (Some obj) s8) (\<lambda>(_, s9).
            bind_result (if sup = None then Inr s9
                         else bind_result (get_env s9 (Some env)) (\<lambda>e. Inr (put env (Cell_Env (e\<lparr>en_enclosing := Some (ev_current s9)\<rparr>)) s9)))
              (\<lambda>s10. give (new_void s10)))))))))))
   | _ \<Rightarrow> Inl (Crash Bad_Cast))"

definition EvaluateStmtVisitor :: "Platform \<Rightarrow> nat \<Rightarrow> expr_eval \<Rightarrow> stmt_eval \<Rightarrow> (ES, addr option \<times> ES) StmtVisitor" where
  "EvaluateStmtVisitor pf n rec rec_stmt = \<lparr>visitPrint = visit_print rec, visitVarDeclaration = visit_var pf rec,
     visitExpression = visit_expr rec, visitBlock = visit_block pf n rec_stmt, visitIfElse = visit_ifElse rec rec_stmt,
     visitWhile = visit_while n rec rec_stmt, visitFun = visit_fun, visitReturn = visit_return pf n rec, visitClass = visit_class pf rec\<rparr>"

section \<open>The evaluator\<close>

fun evaluators :: "Platform \<Rightarrow> nat \<Rightarrow> expr_eval \<times> stmt_eval" where
  "evaluators pf 0 = (\<lambda>_ _. Inl Out_Of_Fuel, \<lambda>_ _. Inl Out_Of_Fuel)"
| "evaluators pf (Suc n) = (let (rec, rec_stmt) = evaluators pf n
     in (accept_expr (EvaluateExpressionVisitor pf n rec rec_stmt), accept (EvaluateStmtVisitor pf n rec rec_stmt)))"

definition eval_expr :: "Platform \<Rightarrow> nat \<Rightarrow> expr_eval" where
  "eval_expr pf n = fst (evaluators pf n)"

definition eval :: "Platform \<Rightarrow> nat \<Rightarrow> Stmt option \<Rightarrow> ES \<Rightarrow> ES result" where
  "eval pf n stmt s = bind_result (snd (evaluators pf n) stmt s) (\<lambda>(_, s1). Inr s1)"

text \<open>\<^verbatim>\<open>list_foreach\<close> with \<^verbatim>\<open>for_stmts\<close> of \<^verbatim>\<open>interp.c\<close>; the statements are returned as the resolver left them.\<close>

fun for_stmts :: "Platform \<Rightarrow> nat \<Rightarrow> Stmt option list \<Rightarrow> RS \<times> ES \<Rightarrow> (Stmt option list \<times> RS \<times> ES) result" where
  "for_stmts pf n [] st = Inr ([], st)"
| "for_stmts pf n (stmt # stmts) (rs, es) = bind_result (resolve (pf_usable pf) n stmt rs) (\<lambda>((resolved, stmt'), rs1).
     bind_result (if resolved then eval pf n stmt' es else Inr es) (\<lambda>es1.
       bind_result (for_stmts pf n stmts (rs1, es1)) (\<lambda>(stmts', st'). Inr (stmt' # stmts', st'))))"

definition interp :: "Platform \<Rightarrow> nat \<Rightarrow> string \<Rightarrow> RS \<times> ES \<Rightarrow> (parse_report list \<times> RS \<times> ES) result" where
  "interp pf n code st = bind_result (parse n (toknzr code True)) (\<lambda>(stmts, ps).
     bind_result (case stmts of None \<Rightarrow> Inr (None, st)
        | Some sts \<Rightarrow> bind_result (for_stmts pf n sts st) (\<lambda>(sts', st1). Inr (Some sts', st1))) (\<lambda>(stmts', st1).
       bind_result (parser_destroy stmts') (\<lambda>_. Inr (pa_err ps, st1))))"

end
