(* ===== verification/Clox_Eval_Props.thy ===== *)
theory Clox_Eval_Props
  imports Clox_Eval
begin

text \<open>
  A property of the evaluator on every program: whatever a statement does, the current environment
  is restored, the heap does not shrink, output is only appended and input only consumed. The visits keep it for every
  pair of recursive functions that do (\<open>eval_knot\<close>).
\<close>

section \<open>The current environment\<close>

definition stays :: "ES \<Rightarrow> ES \<Rightarrow> bool" where
  "stays s s' \<longleftrightarrow> ev_current s' = ev_current s \<and> length (ev_heap s) \<le> length (ev_heap s') \<and> (\<exists>out. ev_out s' = ev_out s @ out)
     \<and> (\<exists>line. ev_input s = line @ ev_input s')"

abbreviation staying :: "ES \<Rightarrow> ('a \<times> ES) result \<Rightarrow> bool" where
  "staying s r \<equiv> holds (\<lambda>(_, s'). stays s s') r"

named_theorems stay

lemma stays_refl [simp, stay]: "stays s s"
  by (simp add: stays_def)

lemma stays_trans: "stays s s1 \<Longrightarrow> stays s1 s2 \<Longrightarrow> stays s s2"
  unfolding stays_def by (elim conjE exE) (intro conjI; simp)

lemma stays_put [stay]: "stays s s1 \<Longrightarrow> stays s (put a c s1)"
  by (auto simp: stays_def put_def)

lemma stays_append: "stays s s1 \<Longrightarrow> stays s (s1\<lparr>ev_heap := ev_heap s1 @ cs\<rparr>)"
  by (auto simp: stays_def)

lemma stays_new [stay]: "stays s s1 \<Longrightarrow> stays s (snd (new_cell c s1))"
  by (auto simp: stays_def new_cell_def)

lemma stays_obj [stay]: "stays s s1 \<Longrightarrow> stays s (snd (obj_new ty v n s1))" "stays s s1 \<Longrightarrow> stays s (snd (new_void s1))"
    "stays s s1 \<Longrightarrow> stays s (snd (new_bool b s1))" "stays s s1 \<Longrightarrow> stays s (snd (new_number d s1))" "stays s s1 \<Longrightarrow> stays s (snd (new_string x s1))"
  by (auto simp: obj_new_def new_void_def new_bool_def new_number_def new_string_def stays_new)

text \<open>Sequencing: steps that only read, steps that return a state, steps that return a value and a state.\<close>

lemma holds_value_bind: "(\<And>x. holds Q (f x)) \<Longrightarrow> holds Q (bind_result r f)"
  by (cases r) auto

lemmas reads = holds_value_bind [where 'a = Object] holds_value_bind [where 'a = ExecutionEnvironment]
  holds_value_bind [where 'a = "addr Dictionary option"] holds_value_bind [where 'a = Callable] holds_value_bind [where 'a = Class]
  holds_value_bind [where 'a = ClassInstance] holds_value_bind [where 'a = double] holds_value_bind [where 'a = string]
  holds_value_bind [where 'a = bool] holds_value_bind [where 'a = nat] holds_value_bind [where 'a = "addr option"]
  holds_value_bind [where 'a = ObjectType] holds_value_bind [where 'a = "eval_out option"] holds_value_bind [where 'a = cell]

lemma seq_stays:
  "holds (stays s) r \<Longrightarrow> (\<And>s1. stays s s1 \<Longrightarrow> staying s (f s1)) \<Longrightarrow> staying s (bind_result r f)"
  "holds (stays s) r \<Longrightarrow> (\<And>s1. stays s s1 \<Longrightarrow> holds (stays s) (g s1)) \<Longrightarrow> holds (stays s) (bind_result r g)"
  "staying s q \<Longrightarrow> (\<And>x s1. stays s s1 \<Longrightarrow> staying s (h (x, s1))) \<Longrightarrow> staying s (bind_result q h)"
  "staying s q \<Longrightarrow> (\<And>x s1. stays s s1 \<Longrightarrow> holds (stays s) (k (x, s1))) \<Longrightarrow> holds (stays s) (bind_result q k)"
  by (cases r; cases q; auto)+

lemma staying_value: "stays s s1 \<Longrightarrow> staying s (Inr (x, s1))" "stays s s1 \<Longrightarrow> holds (stays s) (Inr s1)"
  by simp_all

lemma staying_give: "stays s (snd r) \<Longrightarrow> staying s (give r)"
  by (simp add: give_def)

lemma fr_stays: "stays s s1 \<Longrightarrow> holds (stays s) (fr p s1)"
  unfolding fr_def by (auto simp: stays_def intro!: reads split: option.split)

lemma upd_obj_stays: "stays s s1 \<Longrightarrow> holds (stays s) (upd_obj p f s1)"
  unfolding upd_obj_def by (auto intro!: reads stays_put)

lemma heap_dict_add_stays: "stays s s1 \<Longrightarrow> staying s (heap_dict_add p k v s1)"
  unfolding heap_dict_add_def by (auto intro!: reads stays_put split: prod.split option.split)

lemma heap_dict_set_stays: "stays s s1 \<Longrightarrow> staying s (heap_dict_set pf p k v s1)"
  unfolding heap_dict_set_def by (auto split: prod.split option.split intro!: reads seq_stays upd_obj_stays)

lemma runtime_error_ast_stays: "stays s s1 \<Longrightarrow> staying s (runtime_error_ast pf fmt args p line s1)"
  unfolding runtime_error_ast_def Let_def
  by (auto intro!: seq_stays upd_obj_stays split: option.split) (auto simp: new_cell_def stays_def)

subsection \<open>Destruction\<close>

definition stable :: "(addr option \<Rightarrow> ES \<Rightarrow> ES result) \<Rightarrow> bool" where
  "stable f \<longleftrightarrow> (\<forall>p s s1. stays s s1 \<longrightarrow> holds (stays s) (f p s1))"

lemma stableD: "stable f \<Longrightarrow> stays s s1 \<Longrightarrow> holds (stays s) (f p s1)"
  by (simp add: stable_def)

lemma each_pair_stays: "stable f \<Longrightarrow> stays s s1 \<Longrightarrow> holds (stays s) (each_pair f kvs s1)"
  by (induction kvs arbitrary: s1) (auto intro!: seq_stays(2) dest: stableD)

lemma heap_dict_destroy_stays: "stable f \<Longrightarrow> stays s s1 \<Longrightarrow> holds (stays s) (heap_dict_destroy f p s1)"
  unfolding heap_dict_destroy_def by (auto intro!: reads seq_stays(2) each_pair_stays fr_stays)

lemma env_destroy_stays: "stable f \<Longrightarrow> stays s s1 \<Longrightarrow> holds (stays s) (env_destroy f env s1)"
  unfolding env_destroy_def
  by (auto intro!: reads seq_stays(2) heap_dict_destroy_stays stays_put)

lemma callable_destroy_stays:
  assumes "stable f" "stays s s1"
  shows "holds (stays s) (callable_destroy f p s1)"
  unfolding callable_destroy_def
  by (auto intro!: reads seq_stays(2) env_destroy_stays fr_stays assms)

lemma force_stable: "stable f \<Longrightarrow> stable (obj_force_destroy f)"
  unfolding stable_def obj_force_destroy_def by (auto intro!: seq_stays(2) upd_obj_stays)

lemma obj_destroy_stable: "stable (obj_destroy pf n)"
proof (induction n)
  case (Suc n)
  note parts = callable_destroy_stays [OF force_stable [OF Suc]] heap_dict_destroy_stays [OF force_stable [OF Suc]] stableD [OF Suc] fr_stays
  have "holds (stays s) (obj_destroy pf (Suc n) p s1)" if "stays s s1" for p s s1
  proof (cases p)
    case (Some a)
    have "holds (stays s) (case lo_type x of
         OBJ_VOID \<Rightarrow> Inr s1 | OBJ_NIL \<Rightarrow> Inr s1 | OBJ_BOOL \<Rightarrow> Inr s1 | OBJ_NUMBER \<Rightarrow> Inr s1 | OBJ_STRING \<Rightarrow> Inr s1 | OBJ_ERROR \<Rightarrow> Inr s1
       | OBJ_CALLABLE \<Rightarrow> bind_result (callable_ptr x) (\<lambda>c.
           bind_result (callable_destroy (obj_force_destroy (obj_destroy pf n)) c s1) (fr c))
       | OBJ_CLASS_DEFINITION \<Rightarrow> bind_result (class_ptr x) (\<lambda>k. bind_result (get_class s1 k) (\<lambda>cl.
           bind_result (callable_destroy (obj_force_destroy (obj_destroy pf n)) (Some (cl_ctor cl)) s1) (\<lambda>s1.
           bind_result (fr (Some (cl_ctor cl)) s1) (\<lambda>s2.
           bind_result (obj_destroy pf n (cl_super cl) s2) (fr k)))))
       | OBJ_CLASS_INSTANCE \<Rightarrow> bind_result (instance_ptr x) (\<lambda>i. bind_result (get_instance s1 i) (\<lambda>inst.
           bind_result (heap_dict_destroy (obj_force_destroy (obj_destroy pf n)) (ci_fields inst) s1) (fr i)))
       | OBJ_BITS _ \<Rightarrow> bind_result (runtime_error_ast pf ''Unknown Object to destroy'' [] p 0 s1) (\<lambda>(_, s1). Inr s1))" for x
      using that
      by (cases "lo_type x") (auto intro!: reads seq_stays(2,4) parts runtime_error_ast_stays)
    then show ?thesis
      using that Some by (auto intro!: reads seq_stays(2) fr_stays)
  qed (simp add: that)
  then show ?case by (simp add: stable_def)
qed (simp add: stable_def)

lemmas destroy_stays = stableD [OF obj_destroy_stable] heap_dict_destroy_stays [OF force_stable [OF obj_destroy_stable]]
  env_destroy_stays [OF force_stable [OF obj_destroy_stable]]

subsection \<open>Environments\<close>

lemma env_init_stays: "stays s s1 \<Longrightarrow> holds (stays s) (env_init env s1)"
  unfolding env_init_def by (auto intro!: reads stays_put simp: new_cell_def) (auto simp: stays_def)

lemma env_new_stays: "stays s s1 \<Longrightarrow> staying s (env_new s1)"
  unfolding env_new_def using stays_new [of s s1]
  by (auto split: prod.split intro!: seq_stays env_init_stays) (metis snd_conv)

lemma env_add_variable_stays: "stays s s1 \<Longrightarrow> staying s (env_add_variable env x obj s1)"
  unfolding env_add_variable_def by (auto intro!: reads seq_stays env_init_stays upd_obj_stays heap_dict_add_stays)

lemma env_set_variable_value_stays: "stays s s1 \<Longrightarrow> staying s (env_set_variable_value pf env x obj s1)"
  unfolding env_set_variable_value_def by (auto intro!: reads seq_stays env_init_stays upd_obj_stays heap_dict_set_stays)

lemma env_set_at_stays: "stays s s1 \<Longrightarrow> staying s (env_set_variable_value_at pf env k x obj s1)"
  unfolding env_set_variable_value_at_def by (auto intro!: reads seq_stays env_set_variable_value_stays)

lemma error_result_stays: "stays s s1 \<Longrightarrow> staying s (error_result pf fmt args p line s1)"
  unfolding error_result_def by (auto intro!: seq_stays runtime_error_ast_stays simp: give_def)

lemma env_get_reads: "(\<And>x. holds Q (f x)) \<Longrightarrow> holds Q (bind_result (env_get_variable_value env y s) f)"
  by (rule holds_value_bind)

lemma fgets_splits: "fst (fgets_loop n input) @ snd (fgets_loop n input) = input"
  by (induction n input rule: fgets_loop.induct) (auto split: prod.splits)

lemma switch_stays:
  "stays s s0 \<Longrightarrow> staying (s0\<lparr>ev_current := a\<rparr>) r \<Longrightarrow> staying s (bind_result r (\<lambda>(v, s2). Inr (v, s2\<lparr>ev_current := ev_current s\<rparr>)))"
  by (cases r) (auto simp: stays_def)

lemma staying_trans: "stays s s1 \<Longrightarrow> staying s1 r \<Longrightarrow> staying s r"
  by (cases r) (auto intro: stays_trans)

subsection \<open>The evaluator\<close>

text \<open>The knot of the evaluator as an interface: what the recursive calls promise, every visit keeps.\<close>

locale eval_knot =
  fixes rec :: expr_eval and rec_stmt :: stmt_eval
  assumes rec_stays: "stays s s1 \<Longrightarrow> staying s (rec e s1)"
    and rec_stmt_stays: "stays s s1 \<Longrightarrow> staying s (rec_stmt st s1)"
begin

lemmas steps = reads seq_stays rec_stays rec_stmt_stays destroy_stays fr_stays upd_obj_stays stays_put staying_give stays_obj
  error_result_stays env_new_stays env_add_variable_stays env_set_variable_value_stays env_set_at_stays heap_dict_add_stays heap_dict_set_stays

lemma binary_result_stays: "stays s s1 \<Longrightarrow> staying s (binary_result pf t l r s1)"
  by (cases "tk_type t") (auto simp: binary_result_def arith_def add_objects_def compare_objects_def intro!: steps)

lemma visit_binary_stays: "stays s s1 \<Longrightarrow> staying s (visit_binary pf n rec e s1)"
  unfolding visit_binary_def by (auto split: RealExpr.split intro!: steps binary_result_stays)

lemma visit_unary_stays: "stays s s1 \<Longrightarrow> staying s (visit_unary pf n rec e s1)"
  unfolding visit_unary_def by (auto split: RealExpr.split intro!: steps)

lemma visit_leaf_stays:
  "stays s s1 \<Longrightarrow> staying s (visit_grouping rec e s1)" "stays s s1 \<Longrightarrow> staying s (visit_literal e s1)"
  "stays s s1 \<Longrightarrow> staying s (visit_var_expr pf e s1)" "stays s s1 \<Longrightarrow> staying s (visit_assign pf rec e s1)"
  "stays s s1 \<Longrightarrow> staying s (visit_logical rec e s1)" "stays s s1 \<Longrightarrow> staying s (visit_this e s1)"
  unfolding visit_grouping_def visit_literal_def visit_var_expr_def visit_assign_def visit_logical_def visit_this_def
  by (auto split: RealExpr.split LiteralValue.split intro!: steps)

lemma execute_block_loop_stays: "stays s s1 \<Longrightarrow> staying s (execute_block_loop rec_stmt sts obj dump s1)"
  by (induction sts arbitrary: obj dump s1) (auto split: option.split Stmt.split intro!: steps)

lemma destroy_list_stays: "stays s s1 \<Longrightarrow> holds (stays s) (obj_destroy_in_list pf n ps s1)"
  by (induction ps arbitrary: s1) (auto intro!: steps)

lemma execute_block_stays: "stays s s1 \<Longrightarrow> staying s (execute_block pf n rec_stmt sts s1)"
  unfolding execute_block_def by (auto intro!: steps execute_block_loop_stays destroy_list_stays split: prod.split)

lemma bind_params_stays: "stays s s1 \<Longrightarrow> holds (stays s) (bind_params ts as s1)"
  by (induction ts as s1 rule: bind_params.induct) (auto intro!: steps)

lemma call_body_stays: "stays s s1 \<Longrightarrow> staying s (call_body pf n rec_stmt ps body args ty s1)"
  unfolding call_body_def this_for_ctor_def
  by (auto intro!: steps bind_params_stays execute_block_stays split: option.split Stmt.split)

lemma do_fun_call_stays:
  assumes "stays s s1"
  shows "staying s (do_fun_call pf n rec_stmt args decl closure ty s1)"
proof (rule staying_trans [OF assms])
  have "staying s1 (bind_result (call_body pf n rec_stmt ps body args ty ((put a c s2)\<lparr>ev_current := a\<rparr>))
      (\<lambda>(v, s2). Inr (v, s2\<lparr>ev_current := ev_current s1\<rparr>)))" if "stays s1 s2" for ps body a c s2
    by (rule switch_stays [OF stays_put [OF that, of a c], of a]) (rule call_body_stays [OF stays_refl])
  then show "staying s1 (do_fun_call pf n rec_stmt args decl closure ty s1)"
    unfolding do_fun_call_def
    by (auto split: decl_ptr.split Stmt.split intro!: reads seq_stays(3) [where q = "env_new s1"] env_new_stays)
qed

lemma do_call_stays: "stays s s1 \<Longrightarrow> staying s (do_call pf n rec_stmt c args s1)"
proof -
  assume st: "stays s s1"
  then have "stays s (s1\<lparr>ev_ticks := k\<rparr>)" for k by (auto simp: stays_def)
  moreover have "stays s (s1\<lparr>ev_input := i\<rparr>)" if "fgets_loop n (ev_input s1) = (l, i)" for l i n
  proof (rule stays_trans [OF st])
    show "stays s1 (s1\<lparr>ev_input := i\<rparr>)" using fgets_splits [of n "ev_input s1"] that by (auto simp: stays_def intro: exI [of _ l])
  qed
  moreover have "staying s (do_instantiate d s1)" for d
    using st unfolding do_instantiate_def new_cell_def
    by (auto split: decl_ptr.split intro!: steps) (auto simp: stays_def)
  ultimately show ?thesis
    using st by (cases "ca_call c") (auto simp: do_call_def do_clock_def do_read_def Let_def intro!: steps do_fun_call_stays split: prod.split)
qed

lemma eval_args_stays: "stays s s1 \<Longrightarrow> staying s (eval_args rec es s1)"
  by (induction es arbitrary: s1) (auto intro!: steps)

lemma visit_callable_stays: "stays s s1 \<Longrightarrow> staying s (visit_callable pf n rec rec_stmt e s1)"
  unfolding visit_callable_def by (auto split: RealExpr.split intro!: steps eval_args_stays do_call_stays)

lemma callable_bind_stays: "stays s s1 \<Longrightarrow> holds (stays s) (callable_bind inst m s1)"
  unfolding callable_bind_def by (auto intro!: steps)

lemma find_method_stays: "stays s s1 \<Longrightarrow> staying s (find_method n cl inst x s1)"
  by (induction n arbitrary: cl) (auto intro!: steps callable_bind_stays split: option.split)

lemma visit_member_stays:
  "stays s s1 \<Longrightarrow> staying s (visit_get pf n rec e s1)" "stays s s1 \<Longrightarrow> staying s (visit_set pf rec e s1)"
  "stays s s1 \<Longrightarrow> staying s (visit_super pf n e s1)"
  unfolding visit_get_def visit_set_def visit_super_def instance_get_def instance_set_def
  by (auto split: RealExpr.split intro!: steps find_method_stays)

lemma expr_stays: "stays s s1 \<Longrightarrow> staying s (accept_expr (EvaluateExpressionVisitor pf n rec rec_stmt) e s1)"
  by (auto simp: accept_expr_def EvaluateExpressionVisitor_def split: option.split RealExpr.split
    intro!: visit_binary_stays visit_unary_stays visit_leaf_stays visit_callable_stays visit_member_stays)

lemma visit_print_stays: "stays s s1 \<Longrightarrow> staying s (visit_print rec st s1)"
  unfolding visit_print_def by (auto split: Stmt.split option.split intro!: steps) (auto simp: stays_def)

lemma visit_simple_stays:
  "stays s s1 \<Longrightarrow> staying s (visit_expr rec st s1)" "stays s s1 \<Longrightarrow> staying s (visit_var pf rec st s1)"
  "stays s s1 \<Longrightarrow> staying s (visit_ifElse rec rec_stmt st s1)"
  unfolding visit_expr_def visit_var_def visit_ifElse_def
  by (auto split: Stmt.split intro!: steps)

lemma while_loop_stays: "stays s s1 \<Longrightarrow> holds (stays s) (while_loop k rec rec_stmt c b s1)"
  by (induction k arbitrary: s1) (auto intro!: steps)

lemma visit_while_stays: "stays s s1 \<Longrightarrow> staying s (visit_while n rec rec_stmt st s1)"
  unfolding visit_while_def by (auto split: Stmt.split intro!: steps while_loop_stays)

lemma block_body_stays: "stays s s1 \<Longrightarrow> staying s (block_body pf n rec_stmt sts env s1)"
  unfolding block_body_def by (auto intro!: steps execute_block_stays)

lemma visit_block_stays:
  assumes "stays s s1"
  shows "staying s (visit_block pf n rec_stmt st s1)"
proof (rule staying_trans [OF assms])
  have "staying s1 (bind_result (block_body pf n rec_stmt sts a ((put a c s2)\<lparr>ev_current := a\<rparr>))
      (\<lambda>(v, s2). Inr (v, s2\<lparr>ev_current := ev_current s1\<rparr>)))" if "stays s1 s2" for sts a c s2
    by (rule switch_stays [OF stays_put [OF that, of a c], of a]) (rule block_body_stays [OF stays_refl])
  then show "staying s1 (visit_block pf n rec_stmt st s1)"
    unfolding visit_block_def
    by (auto split: Stmt.split intro!: seq_stays(3) [where q = "env_new s1"] env_new_stays)
qed

lemma build_function_stays: "stays s s1 \<Longrightarrow> staying s (build_function st c ty s1)"
  unfolding build_function_def new_cell_def by (auto split: Stmt.split simp: obj_new_def new_cell_def stays_def)

lemma visit_fun_stays: "stays s s1 \<Longrightarrow> staying s (visit_fun st s1)"
  unfolding visit_fun_def by (auto split: Stmt.split intro!: steps build_function_stays)

lemma visit_return_stays:
  assumes "stays s s1"
  shows "staying s (visit_return pf n rec st s1)"
proof -
  obtain u s2 where u: "new_void s1 = (u, s2)" by fastforce
  then have "stays s s2" using stays_obj(2) [OF assms] by (metis snd_conv)
  then show ?thesis unfolding visit_return_def by (auto simp: u split: Stmt.split intro!: steps)
qed

lemma add_methods_stays: "stays s s1 \<Longrightarrow> holds (stays s) (add_methods d ms s1)"
  by (induction ms arbitrary: s1) (auto split: option.split intro!: steps build_function_stays)

lemma visit_class_stays: "stays s s1 \<Longrightarrow> staying s (visit_class pf rec st s1)"
  unfolding visit_class_def new_cell_def obj_new_def Let_def
  by (auto split: Stmt.split option.split Expr.split RealExpr.split intro!: steps add_methods_stays stays_append)

lemma stmt_stays: "stays s s1 \<Longrightarrow> staying s (accept (EvaluateStmtVisitor pf n rec rec_stmt) st s1)"
  by (auto simp: accept_def EvaluateStmtVisitor_def split: option.split Stmt.split
    intro!: visit_print_stays visit_simple_stays visit_while_stays visit_block_stays visit_fun_stays visit_return_stays visit_class_stays)

end

lemma evaluators_stay: "eval_knot (fst (evaluators pf n)) (snd (evaluators pf n))"
proof (induction n)
  case (Suc n)
  obtain r r' where r: "evaluators pf n = (r, r')" by fastforce
  then have "eval_knot r r'" using Suc by simp
  then show ?case
    by (unfold_locales) (simp_all add: r eval_knot.expr_stays eval_knot.stmt_stays)
qed (unfold_locales; simp)

interpretation evaluator: eval_knot "fst (evaluators pf n)" "snd (evaluators pf n)" for pf n
  by (rule evaluators_stay)

lemma eval_stays: "eval pf n stmt s = Inr s' \<Longrightarrow> stays s s'"
  using evaluator.rec_stmt_stays [OF stays_refl, of s pf n stmt] by (auto simp: eval_def elim!: bind_result_InrE)

section \<open>The property of the evaluator\<close>

text \<open>
  C7. A statement that ends without a fault, of any kind, in any state, with any step budget, leaves
  the current environment as it was, also when blocks, calls and returns are nested in it; it
  drops no cell of the heap, takes back nothing that was printed and only consumes input.
\<close>

theorem eval_restores_environment:
  assumes "eval pf n stmt s = Inr s'"
  shows "ev_current s' = ev_current s \<and> length (ev_heap s) \<le> length (ev_heap s') \<and> (\<exists>out. ev_out s' = ev_out s @ out)
    \<and> (\<exists>line. ev_input s = line @ ev_input s')"
  using eval_stays [OF assms] by (simp add: stays_def)

theorem eval_restores_environment_witness:
  "\<exists>s'. eval \<lparr>pf_usable = id, pf_low = id, pf_fresh = (\<lambda>_. False), pf_time = (\<lambda>_. 0)\<rparr> 5
      (Some (STMT_BLOCK [Some (STMT_PRINT (Some (Mk_Expr (EXPR_LITERAL \<lparr>le_value = LITERAL_BOOL True, le_valueSize = 1\<rparr>) 0)))])) (initial_es []) = Inr s'
    \<and> ev_current s' = ev_current (initial_es [])"
proof -
  let ?pf = "\<lparr>pf_usable = id, pf_low = id, pf_fresh = (\<lambda>_. False), pf_time = (\<lambda>_. 0)\<rparr> :: Platform"
  let ?st = "Some (STMT_BLOCK [Some (STMT_PRINT (Some (Mk_Expr (EXPR_LITERAL \<lparr>le_value = LITERAL_BOOL True, le_valueSize = 1\<rparr>) 0)))])"
  have "\<not> isl (eval ?pf 5 ?st (initial_es []))" by code_simp
  then obtain s' where "eval ?pf 5 ?st (initial_es []) = Inr s'" by (auto simp: isl_def) (metis sum.exhaust)
  with eval_restores_environment [OF this] show ?thesis by blast
qed

end
