(* ===== verification/Clox_Lookup.thy ===== *)
theory Clox_Lookup
  imports Clox_Eval_Props Clox_Resolve_Props
begin

text \<open>
  The resolver and the environments together. Where the environments of a running program have the
  variables that the scopes of the resolver had, a variable is found in the innermost environment
  that has it. Assignment is different: it never binds a variable to another object, and on a
  global variable it follows a null pointer.
\<close>

section \<open>Chains of environments\<close>

definition binds :: "ES \<Rightarrow> addr option \<Rightarrow> (string \<rightharpoonup> addr) \<Rightarrow> bool" where
  "binds s p m \<longleftrightarrow> (\<forall>x. env_get_variable_value p x s = Inr (m x))"

text \<open>The environments from \<open>p\<close> outwards bind the variables \<open>ms\<close>, the global environment those of \<open>g\<close>.\<close>

fun env_models :: "ES \<Rightarrow> addr option \<Rightarrow> (string \<rightharpoonup> addr) list \<Rightarrow> (string \<rightharpoonup> addr) \<Rightarrow> bool" where
  "env_models s p [] g \<longleftrightarrow> p = Some GlobalExecutionEnvironment \<and> binds s p g"
| "env_models s p (m # ms) g \<longleftrightarrow> (\<exists>e. get_env s p = Inr e \<and> binds s p m \<and> env_models s (en_enclosing e) ms g)"

definition visible :: "(string \<rightharpoonup> addr) list \<Rightarrow> (string \<rightharpoonup> addr) \<Rightarrow> string \<rightharpoonup> addr" where
  "visible ms g = foldr (\<lambda>m outer. outer ++ m) ms g"

lemma ancestor_models:
  "env_models s p ms g \<Longrightarrow> i < length ms \<Longrightarrow> \<exists>q. env_ancestor p i s = Inr q \<and> binds s q (ms ! i)"
proof (induction i arbitrary: p ms)
  case 0
  then show ?case by (cases ms) (auto simp: env_ancestor.simps [of p 0])
next
  case (Suc i)
  then obtain m ms' e where "ms = m # ms'" "get_env s p = Inr e" "env_models s (en_enclosing e) ms' g" by (cases ms) auto
  with Suc.IH [of "en_enclosing e" ms'] Suc.prems(2) show ?case by (simp add: env_ancestor.simps [of p "Suc i"])
qed

lemma ancestor_beyond:
  assumes "get_env s (Some GlobalExecutionEnvironment) = Inr e" "en_enclosing e = None"
  shows "env_models s p ms g \<Longrightarrow> length ms + 1 < k \<Longrightarrow> env_ancestor p k s = Inl (Crash Null_Deref)"
proof (induction ms arbitrary: p k)
  case Nil
  moreover have "get_env s None = Inl (Crash Null_Deref)" by (simp add: get_env_def get_cell_def)
  ultimately show ?case using assms by (auto simp: env_ancestor.simps [of _ k] env_ancestor.simps [of None "k - Suc 0"])
next
  case (Cons m ms)
  then obtain e where "get_env s p = Inr e" "env_models s (en_enclosing e) ms g" by auto
  with Cons.IH [of "en_enclosing e" "k - 1"] Cons.prems(2) show ?case by (simp add: env_ancestor.simps [of p k])
qed

lemma visible_depth:
  "map dom ms = map set G \<Longrightarrow> visible ms g x
    = (case List.find (\<lambda>i. x \<in> set (G ! i)) [0..<length G] of None \<Rightarrow> g x | Some k \<Rightarrow> (ms ! k) x)"
proof (induction ms arbitrary: G)
  case (Cons m ms)
  then obtain S G' where G: "G = S # G'" "dom m = set S" "map dom ms = map set G'" by (cases G) auto
  have u: "[0..<length G] = 0 # map Suc [0..<length G']" using G by (simp add: map_Suc_upt upt_conv_Cons del: upt_Suc)
  have "List.find (\<lambda>i. x \<in> set (G ! i)) [0..<length G]
      = (if x \<in> set S then Some 0 else map_option Suc (List.find (\<lambda>i. x \<in> set (G' ! i)) [0..<length G']))"
    by (simp only: u) (simp add: G find_map)
  with Cons.IH [OF G(3)] G(2) show ?case
    by (auto simp: visible_def map_add_def domIff split: option.split)
qed (simp add: visible_def)

lemma lookup_models:
  assumes "env_models s (Some (ev_current s)) ms g" "binds s (Some GlobalExecutionEnvironment) g"
    "map dom ms = map set G" "length G < UINT_MAX"
  shows "lookup_var (scope_depth G x) x s = Inr (visible ms g x)"
proof (cases "List.find (\<lambda>i. x \<in> set (G ! i)) [0..<length G]")
  case None
  with assms(2,3) show ?thesis by (simp add: lookup_var_def scope_depth_def visible_depth binds_def)
next
  case (Some k)
  then have k: "k < length G" by (auto simp: find_Some_iff)
  moreover from k have "k < length ms" using assms(3) by (metis length_map)
  ultimately show ?thesis
    using ancestor_models [OF assms(1), of k] assms(3,4) Some
    by (auto simp: lookup_var_def scope_depth_def visible_depth binds_def env_get_variable_value_at_def)
qed

lemma global_binds: "env_models s p ms g \<Longrightarrow> binds s (Some GlobalExecutionEnvironment) g"
  by (induction ms arbitrary: p) auto

lemma resolve_expr_result:
  assumes "resolvable (Some e)" "size e < m" "models r G" "resolve_expr m (Some e) r = Inr ((ok, e'), r')" "rs_err r' = rs_err r"
  shows "number_expr G (Some e) = e'"
  using resolve_expr_numbers [OF assms(1,2,3)] assms(4,5) by (auto elim!: numbered_optE)

section \<open>Assignment and bindings\<close>

definition keeps_bindings :: "ES \<Rightarrow> ES \<Rightarrow> bool" where
  "keeps_bindings s s' \<longleftrightarrow> (\<forall>p x v. env_get_variable_value p x s = Inr v \<longrightarrow> env_get_variable_value p x s' = Inr v)"

lemma keeps_bindings_refl: "keeps_bindings s s"
  by (simp add: keeps_bindings_def)

lemma keeps_bindings_trans: "keeps_bindings s s1 \<Longrightarrow> keeps_bindings s1 s2 \<Longrightarrow> keeps_bindings s s2"
  by (simp add: keeps_bindings_def)

text \<open>It suffices that environments and dictionaries are kept where they were.\<close>

lemma keeps_bindings_cells:
  assumes "\<And>p e. get_env s p = Inr e \<Longrightarrow> get_env s' p = Inr e" "\<And>p d. get_dict s p = Inr d \<Longrightarrow> get_dict s' p = Inr d"
  shows "keeps_bindings s s'"
  unfolding keeps_bindings_def env_get_variable_value_def using assms
  by (auto elim!: bind_result_InrE)

lemma get_put: "a < length (ev_heap s) \<Longrightarrow> get_cell (put a c s) p = (if p = Some a then Inr c else get_cell s p)"
  by (auto simp: get_cell_def put_def split: option.split)

lemma get_cell_valid: "get_cell s (Some a) = Inr c \<Longrightarrow> a < length (ev_heap s)"
  by (simp add: get_cell_def split: if_splits)

lemma get_new: "get_cell s p = Inr c \<Longrightarrow> get_cell (snd (new_cell c' s)) p = Inr c"
  by (auto simp: get_cell_def new_cell_def nth_append split: option.splits if_splits)

lemma upd_obj_keeps:
  assumes "upd_obj q f s = Inr s'"
  shows "keeps_bindings s s'"
proof -
  obtain a x where q: "q = Some a" "get_cell s q = Inr (Cell_Object x)" "s' = put a (Cell_Object (f x)) s"
    using assms by (cases q) (auto simp: upd_obj_def get_obj_def get_cell_def elim!: bind_result_InrE split: cell.splits option.splits if_splits)
  then have "a < length (ev_heap s)" by (auto dest: get_cell_valid)
  from get_put [OF this] q show ?thesis
    by (intro keeps_bindings_cells) (auto simp: get_env_def get_dict_def)
qed

lemma new_dict_get [simp]: "dict_get (Some new_dict) x = None" "dict_get None x = None"
  by (simp_all add: dict_get_def dict_get_bucket_def new_dict_def)

lemma env_init_keeps:
  assumes "env_init env s = Inr s'"
  shows "keeps_bindings s s'"
proof (cases "s' = s")
  case False
  let ?d = "length (ev_heap s)"
  obtain a e where a: "env = Some a" "get_cell s (Some a) = Inr (Cell_Env e)" "en_variables e = None"
      "s' = put a (Cell_Env (e\<lparr>en_variables := Some ?d\<rparr>)) (snd (new_cell (Cell_Dict new_dict) s))"
    using assms False
    by (auto simp: env_init_def get_env_def new_cell_def elim!: bind_result_InrE split: cell.splits if_splits)
  from get_cell_valid [OF a(2)] have l: "a < length (ev_heap (snd (new_cell (Cell_Dict new_dict) s)))" "a \<noteq> ?d" by (auto simp: new_cell_def)
  have d: "get_cell s' (Some ?d) = Inr (Cell_Dict new_dict)"
    by (simp add: a(4) get_put [OF l(1)] l(2) [symmetric]) (simp add: get_cell_def new_cell_def)
  have other: "get_cell s' p = Inr c" if "get_cell s p = Inr c" "p \<noteq> env" for p c
    using that get_new [OF that(1)] by (simp add: a(1,4) get_put [OF l(1)])
  have self: "get_cell s' env = Inr (Cell_Env (e\<lparr>en_variables := Some ?d\<rparr>))" by (simp add: a(1,4) get_put [OF l(1)])
  have "env_get_variable_value p x s' = Inr v" if v: "env_get_variable_value p x s = Inr v" for p x v
  proof (cases "p = env")
    case True
    with v a self d show ?thesis by (simp add: env_get_variable_value_def get_env_def get_dict_def)
  next
    case p: False
    have "get_dict s' q = Inr dd" if "get_dict s q = Inr dd" for q dd
      using that a(1,2) other [of q] by (cases "q = env") (auto simp: get_dict_def elim!: bind_result_InrE split: if_splits)
    with v p other [of p] show ?thesis
      by (auto simp: env_get_variable_value_def get_env_def elim!: bind_result_InrE split: if_splits)
  qed
  then show ?thesis by (simp add: keeps_bindings_def)
qed (simp add: keeps_bindings_refl)

lemma heap_dict_set_keeps: "heap_dict_set pf p x v s = Inr (b, s') \<Longrightarrow> keeps_bindings s s'"
  by (auto simp: heap_dict_set_def keeps_bindings_refl elim!: bind_result_InrE split: prod.splits option.splits intro: upd_obj_keeps)

lemma set_keeps:
  assumes "env_set_variable_value pf env x obj s = Inr (b, s')"
  shows "keeps_bindings s s'"
proof -
  obtain s1 where 1: "env_init env s = Inr s1"
    using assms by (auto simp: env_set_variable_value_def elim!: bind_result_InrE)
  have "keeps_bindings s1 s'"
    using assms 1 unfolding env_set_variable_value_def
    by (auto elim!: bind_result_InrE dest!: upd_obj_keeps heap_dict_set_keeps split: if_splits intro: keeps_bindings_trans keeps_bindings_refl)
  with env_init_keeps [OF 1] show ?thesis by (rule keeps_bindings_trans)
qed

lemma error_keeps:
  assumes "error_result pf fmt args None line s = Inr (v, s')"
  shows "keeps_bindings s s'"
proof -
  obtain c where "s' = snd (new_cell c s)"
    using assms by (auto simp: error_result_def give_def runtime_error_ast_def Let_def elim!: bind_result_InrE split: if_splits)
  then show ?thesis
    by (intro keeps_bindings_cells) (auto simp: get_env_def get_dict_def get_new elim!: bind_result_InrE split: if_splits)
qed

section \<open>The properties of variables\<close>

text \<open>
  C6. The resolver and the evaluator agree on variables. Let the environments from the current one
  outwards bind the names that the scopes of the resolver hold, scope by scope. When the resolver
  accepts a variable, the evaluator finds with the distance it stored the object that the innermost
  of these environments binds to the name, the global one being the outermost; if none does, the
  result is an error object and not a fault of the search.
\<close>

theorem resolved_variable_is_innermost:
  assumes "models r G" "env_models s (Some (ev_current s)) ms g" "map dom ms = map set G" "length G < UINT_MAX" "reportable t"
    "resolve_expr (Suc (Suc m)) (Some (Mk_Expr (EXPR_VARIABLE t) k)) r = Inr ((ok, Some e), r')" "rs_err r' = rs_err r"
  shows "eval_expr pf (Suc n) (Some e) s = (case visible ms g (shown_lexeme t) of
      Some a \<Rightarrow> Inr (Some a, s)
    | None \<Rightarrow> error_result pf (''Unresolved variable name '%s'' @ [CHR 0x27]) [shown_lexeme t] None (tk_line t) s)"
proof -
  have "e = Mk_Expr (EXPR_VARIABLE t) (scope_depth G (shown_lexeme t))"
    using resolve_expr_result [OF _ _ assms(1,6,7)] assms(5) by simp
  moreover have "lexeme_of t = Inr (shown_lexeme t)" using assms(5) by (auto simp: reportable_def lexeme_of_def shown_lexeme_def)
  moreover note lookup_models [OF assms(2) global_binds [OF assms(2)] assms(3,4), of "shown_lexeme t"]
  ultimately show ?thesis
    by (simp add: eval_expr_def accept_expr_def EvaluateExpressionVisitor_def visit_var_expr_def case_prod_beta Let_def split: option.split)
qed

text \<open>A block whose environment binds \<open>a\<close>, and a block inside it that declares nothing.\<close>

definition plain_platform :: Platform where
  "plain_platform = \<lparr>pf_usable = (\<lambda>n. n + 8), pf_low = (\<lambda>a. 16 * a), pf_fresh = (\<lambda>_. False), pf_time = (\<lambda>_. 0)\<rparr>"

definition sample_es :: ES where
  "sample_es = (initial_es [])\<lparr>ev_heap := map Some
     [Cell_Env \<lparr>en_variables = None, en_enclosing = None\<rparr>,
      Cell_Env \<lparr>en_variables = Some 2, en_enclosing = Some GlobalExecutionEnvironment\<rparr>,
      Cell_Dict (added new_dict ''a'' (Some 3)),
      Cell_Object \<lparr>lo_value = V_Bool True, lo_type = OBJ_BOOL, lo_valueSize = 1, lo_shallow = False, lo_propagateReturn = False\<rparr>,
      Cell_Env \<lparr>en_variables = None, en_enclosing = Some 1\<rparr>], ev_current := 4\<rparr>"

definition sample_rs :: RS where
  "sample_rs = scope_begin_rs (fst (scope_add ''a'' 1 (scope_begin_rs initial_rs)))"

lemma sample_es_models: "env_models sample_es (Some (ev_current sample_es)) [Map.empty, [''a'' \<mapsto> 3]] Map.empty"
proof -
  have "dict_get (Some (added new_dict ''a'' (Some (3 :: addr)))) x = (if x = ''a'' then Some 3 else None)" for x
    by (simp add: dict_get_abs [OF added_inv [OF new_dict_inv]] added_abs [OF new_dict_inv] new_dict_abs)
  then show ?thesis
    by (simp add: sample_es_def initial_es_def GlobalExecutionEnvironment_def binds_def env_get_variable_value_def
        get_env_def get_dict_def get_cell_def)
qed

lemma sample_rs_models: "models sample_rs [[], [''a'']]"
proof -
  have "models (scope_begin_rs initial_rs) [[]]" by (rule models_begin) (simp add: models_def initial_rs_def)
  from models_begin [OF models_add(1) [OF this, of "''a''" 1]] show ?thesis
    by (simp add: sample_rs_def scope_add_def scope_begin_rs_def)
qed

theorem resolved_variable_is_innermost_witness:
  "\<exists>e. resolve_expr (Suc (Suc 1)) (Some (Mk_Expr (EXPR_VARIABLE (name_token ''a'')) 0)) sample_rs = Inr ((True, Some e), sample_rs)
    \<and> eval_expr plain_platform (Suc 0) (Some e) sample_es = Inr (Some 3, sample_es)"
proof -
  let ?e = "Mk_Expr (EXPR_VARIABLE (name_token ''a'')) 1"
  have r: "resolve_expr (Suc (Suc 1)) (Some (Mk_Expr (EXPR_VARIABLE (name_token ''a'')) 0)) sample_rs = Inr ((True, Some ?e), sample_rs)" by code_simp
  have "reportable (name_token ''a'')" by code_simp
  from resolved_variable_is_innermost [OF sample_rs_models sample_es_models _ _ this r refl, of plain_platform 0] r
  show ?thesis by (auto simp: UINT_MAX_def visible_def shown_lexeme_def name_token_def token_def)
qed

text \<open>
  C35. Assignment never binds a variable to another object. An assignment that ends without a fault
  leaves every variable of every environment bound to the object it was bound to after the right
  side was evaluated: \<^verbatim>\<open>dict_set\<close> writes into the object that was found, not into the dictionary.
\<close>

theorem assignment_never_rebinds:
  assumes "visit_assign pf rec (Mk_Expr (EXPR_ASSIGNMENT t right) k) s = Inr (w, s')" "rec right s = Inr (v, s1)"
    "env_get_variable_value env x s1 = Inr u"
  shows "env_get_variable_value env x s' = Inr u"
proof -
  have "keeps_bindings s1 s'"
    using assms(1,2)
    by (auto simp: visit_assign_def env_set_variable_value_at_def elim!: bind_result_InrE dest: set_keeps error_keeps split: if_splits)
  with assms(3) show ?thesis by (simp add: keeps_bindings_def)
qed

theorem assignment_never_rebinds_witness:
  "\<exists>v w s1 s'. eval_expr plain_platform 3 (leaf_node new_false) sample_es = Inr (v, s1)
    \<and> visit_assign plain_platform (eval_expr plain_platform 3) (Mk_Expr (EXPR_ASSIGNMENT (name_token ''a'') (leaf_node new_false)) 1) sample_es = Inr (w, s')
    \<and> env_get_variable_value (Some 1) ''a'' s1 = Inr (Some 3) \<and> env_get_variable_value (Some 1) ''a'' s' = Inr (Some 3)"
proof -
  let ?r = "eval_expr plain_platform 3" and ?e = "Mk_Expr (EXPR_ASSIGNMENT (name_token ''a'') (leaf_node new_false)) 1"
  have "\<not> isl (?r (leaf_node new_false) sample_es)" "\<not> isl (visit_assign plain_platform ?r ?e sample_es)" by code_simp+
  then obtain v s1 w s' where r: "?r (leaf_node new_false) sample_es = Inr (v, s1)" "visit_assign plain_platform ?r ?e sample_es = Inr (w, s')"
    by (cases "?r (leaf_node new_false) sample_es"; cases "visit_assign plain_platform ?r ?e sample_es") auto
  have "bind_result (?r (leaf_node new_false) sample_es) (\<lambda>(v, s1). env_get_variable_value (Some 1) ''a'' s1) = Inr (Some 3)" by code_simp
  then have "env_get_variable_value (Some 1) ''a'' s1 = Inr (Some 3)" by (simp add: r(1))
  with assignment_never_rebinds [OF r(2,1) this] r show ?thesis by blast
qed

text \<open>
  C36. Assignment to a global variable follows a null pointer. When no scope of the resolver declares
  the name, the resolver stores -1; \<^verbatim>\<open>visit_assign\<close> compares with 0 instead and climbs from the
  current environment past the global one, whatever the right side gives and whether or not the
  global variable exists.
\<close>

theorem global_assignment_crashes:
  assumes "models r G" "shown_lexeme t \<notin> (\<Union>S \<in> set G. set S)" "resolvable (Some (Mk_Expr (EXPR_ASSIGNMENT t right) k))"
    "size (Mk_Expr (EXPR_ASSIGNMENT t right) k) < m"
    "resolve_expr m (Some (Mk_Expr (EXPR_ASSIGNMENT t right) k)) r = Inr ((ok, Some e), r')" "rs_err r' = rs_err r"
    "eval_expr pf n (number_expr G right) s = Inr (Some v, s1)"
    "env_models s1 (Some (ev_current s1)) ms g" "length ms + 1 < UINT_MAX"
    "get_env s1 (Some GlobalExecutionEnvironment) = Inr ge" "en_enclosing ge = None"
  shows "eval_expr pf (Suc n) (Some e) s = Inl (Crash Null_Deref)"
proof -
  have "scope_depth G (shown_lexeme t) = UINT_MAX"
    using assms(2) by (auto simp: scope_depth_def find_None_iff split: option.split simp: find_Some_iff)
  then have "e = Mk_Expr (EXPR_ASSIGNMENT t (number_expr G right)) UINT_MAX"
    using resolve_expr_result [OF assms(3,4,1,5,6)] by simp
  moreover have "lexeme_of t = Inr (shown_lexeme t)" using assms(3) by (auto simp: reportable_def lexeme_of_def shown_lexeme_def)
  moreover note ancestor_beyond [OF assms(10,11,8,9)]
  ultimately show ?thesis
    using assms(7)
    by (simp add: eval_expr_def accept_expr_def EvaluateExpressionVisitor_def visit_assign_def case_prod_beta Let_def
        env_set_variable_value_at_def UINT_MAX_def)
qed

theorem global_assignment_crashes_witness:
  "\<exists>e. resolve_expr 9 (Some (Mk_Expr (EXPR_ASSIGNMENT (name_token ''a'') (leaf_node new_true)) 0)) initial_rs = Inr ((True, Some e), initial_rs)
    \<and> eval_expr plain_platform (Suc 3) (Some e) (initial_es []) = Inl (Crash Null_Deref)"
proof -
  let ?e = "Mk_Expr (EXPR_ASSIGNMENT (name_token ''a'') (leaf_node new_true))"
  have r: "resolve_expr 9 (Some (?e 0)) initial_rs = Inr ((True, Some (?e UINT_MAX)), initial_rs)"
    by (simp add: eval_nat_numeral accept_expr_def ExpressionResolver_def visit_assign_expr_resolver_def visit_literal_expr_resolver_def
        leaf_node_def new_true_def new_literal_def resolve_local_def initial_rs_def)
  obtain s1 where s1: "eval_expr plain_platform 3 (number_expr [] (leaf_node new_true)) (initial_es []) = Inr (Some 1, s1)"
      "ev_current s1 = 0" "ev_heap s1 ! 0 = ev_heap (initial_es []) ! 0" "ev_heap s1 \<noteq> []"
    by (simp add: eval_expr_def eval_nat_numeral accept_expr_def EvaluateExpressionVisitor_def visit_literal_def leaf_node_def new_true_def new_literal_def
        give_def obj_new_def new_cell_def initial_es_def GlobalExecutionEnvironment_def)
  then have g: "get_env s1 (Some GlobalExecutionEnvironment) = Inr \<lparr>en_variables = None, en_enclosing = None\<rparr>"
    by (simp add: get_env_def get_cell_def initial_es_def GlobalExecutionEnvironment_def)
  then have "env_models s1 (Some (ev_current s1)) [] Map.empty"
    by (simp add: s1(2) GlobalExecutionEnvironment_def binds_def env_get_variable_value_def get_dict_def)
  note crash = global_assignment_crashes [OF _ _ _ _ r refl s1(1) this _ g]
  have "reportable (name_token ''a'')" by code_simp
  then have "eval_expr plain_platform (Suc 3) (Some (?e UINT_MAX)) (initial_es []) = Inl (Crash Null_Deref)"
    by (intro crash) (simp_all add: models_def initial_rs_def leaf_node_def new_true_def new_literal_def UINT_MAX_def)
  with r show ?thesis by blast
qed

end
