(* ===== verification/Clox_Tree_Eval.thy ===== *)
theory Clox_Tree_Eval
  imports Clox_Eval Clox_Run
begin

text \<open>
  What the evaluator of the tree walker computes on expressions over numbers, \<^verbatim>\<open>true\<close>, \<^verbatim>\<open>false\<close> and
  \<^verbatim>\<open>nil\<close>, compared with the meaning that the bytecode engine gives them in \<open>Clox_Run\<close>. Wherever the
  evaluation meets neither of the known differences (\<open>portable\<close>) nor a type error, both engines
  compute the same value; the tree walker puts it in a fresh object and leaves every older object
  and environment as it was.
\<close>

section \<open>Trees, values, differences\<close>

definition literal_tree :: "TokenType \<Rightarrow> LiteralValue" where
  "literal_tree ty = (if ty = TOKEN_FALSE then LITERAL_BOOL False else if ty = TOKEN_TRUE then LITERAL_BOOL True else LITERAL_NIL)"

text \<open>A tree of the parser for an expression.\<close>

inductive same_tree :: "cexp \<Rightarrow> Expr \<Rightarrow> bool" where
  st_num: "le_value l = LITERAL_NUMBER (strtod x) \<Longrightarrow> same_tree (Num x) (Mk_Expr (EXPR_LITERAL l) k)"
| st_lit: "le_value l = literal_tree ty \<Longrightarrow> same_tree (Lit ty) (Mk_Expr (EXPR_LITERAL l) k)"
| st_unary: "tk_type t = ty \<Longrightarrow> same_tree a e \<Longrightarrow> same_tree (Unary ty a) (Mk_Expr (EXPR_UNARY t (Some e)) k)"
| st_binary: "tk_type t = ty \<Longrightarrow> same_tree a e \<Longrightarrow> same_tree b e' \<Longrightarrow>
    same_tree (Binary ty a b) (Mk_Expr (EXPR_BINARY t (Some e) (Some e')) k)"
| st_and: "tk_type t = TOKEN_AND \<Longrightarrow> same_tree a e \<Longrightarrow> same_tree b e' \<Longrightarrow>
    same_tree (AndExp a b) (Mk_Expr (EXPR_LOGICAL (Some e) (Some e') t) k)"
| st_or: "tk_type t = TOKEN_OR \<Longrightarrow> same_tree a e \<Longrightarrow> same_tree b e' \<Longrightarrow>
    same_tree (OrExp a b) (Mk_Expr (EXPR_LOGICAL (Some e) (Some e') t) k)"
| st_group: "same_tree a e \<Longrightarrow> same_tree (Group a) (Mk_Expr (EXPR_GROUPING (Some e)) k)"

text \<open>The value of an expression without variables.\<close>

definition value_of :: "cexp \<Rightarrow> err_item + Value" where
  "value_of c = map_sum id fst (snd (eeval c ([], [])))"

lemma then_doE:
  assumes "snd (then_do p f) = Inr v"
  obtains x where "snd p = Inr x" "snd (f x) = Inr v"
  using assms by (cases p) (auto simp: then_do_def split: sum.splits prod.splits)

lemma eeval_no_store: "snd (eeval c ([], [])) = Inr x \<Longrightarrow> snd x = ([], [])"
  by (induction c arbitrary: x) (fastforce elim!: then_doE simp: keeping_def map_sum_def store_get_def store_set_def split: sum.splits if_splits)+

lemma value_of_Inr: "value_of c = Inr v \<longleftrightarrow> snd (eeval c ([], [])) = Inr (v, ([], []))"
  using eeval_no_store [of c] by (cases "snd (eeval c ([], []))") (auto simp: value_of_def)

lemma value_thenE:
  assumes "snd (then_do (eeval a ([], [])) f) = Inr x"
  obtains v where "snd (eeval a ([], [])) = Inr (v, ([], []))" "snd (f (v, ([], []))) = Inr x"
proof -
  from assms obtain y where y: "snd (eeval a ([], [])) = Inr y" "snd (f y) = Inr x" by (rule then_doE)
  from eeval_no_store [OF y(1)] y that [of "fst y"] show thesis by (cases y) simp
qed

lemma value_of_simps:
  "value_of (Unary ty a) = Inr v \<Longrightarrow> \<exists>w. value_of a = Inr w \<and> unary_value ty w = Inr v"
  "value_of (Binary ty a b) = Inr v \<Longrightarrow> \<exists>l r. value_of a = Inr l \<and> value_of b = Inr r \<and> binary_value ty l r = Inr v"
  "value_of (AndExp a b) = Inr v \<Longrightarrow> \<exists>l. value_of a = Inr l \<and> (if is_falsey l then v = l else value_of b = Inr v)"
  "value_of (OrExp a b) = Inr v \<Longrightarrow> \<exists>l. value_of a = Inr l \<and> (if is_falsey l then value_of b = Inr v else v = l)"
  unfolding value_of_Inr
  by (auto elim!: value_thenE simp: keeping_def map_sum_def split: sum.splits if_splits)

lemma value_of_leaf: "value_of (Num x) = Inr (number_val (strtod x))" "value_of (Lit ty) = Inr (literal_value ty)" "value_of (Group a) = value_of a"
  by (simp_all add: value_of_def)

text \<open>
  Where the engines differ: the tree walker negates \<^verbatim>\<open>nil\<close> to false and follows a null pointer on
  \<^verbatim>\<open>nil == nil\<close>; the compiler turns \<^verbatim>\<open>>=\<close> and \<^verbatim>\<open><=\<close> into negated comparisons, which hold for NaN.
\<close>

definition comparable :: "TokenType \<Rightarrow> err_item + Value \<Rightarrow> err_item + Value \<Rightarrow> bool" where
  "comparable ty x y \<longleftrightarrow> \<not> (ty = TOKEN_EQUAL_EQUAL \<and> x = Inr nil_val \<and> y = Inr nil_val)
     \<and> (ty \<in> {TOKEN_GREATER_EQUAL, TOKEN_LESS_EQUAL} \<longrightarrow> x \<noteq> Inr (number_val NaN) \<and> y \<noteq> Inr (number_val NaN))"

fun portable :: "cexp \<Rightarrow> bool" where
  "portable (Unary ty a) = (portable a \<and> (ty = TOKEN_BANG \<longrightarrow> value_of a \<noteq> Inr nil_val))"
| "portable (Binary ty a b) = (portable a \<and> portable b \<and> comparable ty (value_of a) (value_of b))"
| "portable (AndExp a b) = (portable a \<and> portable b)"
| "portable (OrExp a b) = (portable a \<and> portable b)"
| "portable (Group a) = portable a"
| "portable _ = True"

definition holds_value :: "Value \<Rightarrow> Object \<Rightarrow> bool" where
  "holds_value v x \<longleftrightarrow> lo_shallow x \<and> \<not> lo_propagateReturn x \<and> (case v of
     VAL_NUMBER d \<Rightarrow> lo_type x = OBJ_NUMBER \<and> lo_value x = V_Number d
   | VAL_BOOL b \<Rightarrow> lo_type x = OBJ_BOOL \<and> (\<exists>c. b = bool_num c \<and> lo_value x = V_Bool c)
   | VAL_NIL \<Rightarrow> lo_type x = OBJ_NIL
   | VAL_OBJECT _ \<Rightarrow> False)"

text \<open>An evaluation that adds cells to the heap and changes nothing else.\<close>

definition keeps :: "ES \<Rightarrow> ES \<Rightarrow> bool" where
  "keeps s s' \<longleftrightarrow> length (ev_heap s) \<le> length (ev_heap s') \<and> (\<forall>a < length (ev_heap s). ev_heap s' ! a = ev_heap s ! a)
     \<and> ev_current s' = ev_current s \<and> ev_out s' = ev_out s \<and> ev_input s' = ev_input s \<and> ev_ticks s' = ev_ticks s"

definition yields :: "ES \<Rightarrow> Value \<Rightarrow> (addr option \<times> ES) result \<Rightarrow> bool" where
  "yields s v r \<longleftrightarrow> (\<exists>p x s'. r = Inr (Some p, s') \<and> p < length (ev_heap s') \<and> ev_heap s' ! p = Some (Cell_Object x)
     \<and> holds_value v x \<and> length (ev_heap s) \<le> p \<and> keeps s s')"

lemma keeps_refl [simp]: "keeps s s"
  by (simp add: keeps_def)

lemma keeps_trans: "keeps s s1 \<Longrightarrow> keeps s1 s2 \<Longrightarrow> keeps s s2"
  by (simp add: keeps_def)

lemma yieldsE:
  assumes "yields s v r"
  obtains p x s' where "r = Inr (Some p, s')" "p < length (ev_heap s')" "ev_heap s' ! p = Some (Cell_Object x)"
    "holds_value v x" "length (ev_heap s) \<le> p" "keeps s s'"
  using assms unfolding yields_def by blast

lemma yields_keeps: "keeps s s1 \<Longrightarrow> yields s1 v r \<Longrightarrow> yields s v r"
  unfolding yields_def by (elim exE conjE, intro exI conjI, assumption+) (auto simp: keeps_def)

lemma get_obj_at: "p < length (ev_heap s) \<Longrightarrow> ev_heap s ! p = Some (Cell_Object x) \<Longrightarrow> get_obj s (Some p) = Inr x"
  by (simp add: get_obj_def get_cell_def)

lemma dbl_total: "a \<noteq> NaN \<Longrightarrow> b \<noteq> NaN \<Longrightarrow> \<not> dbl_less a b \<longleftrightarrow> dbl_less b a \<or> dbl_eq a b"
  by (cases a; cases b) (auto simp: Let_def min.commute)

section \<open>Operators\<close>

lemma new_yields: "holds_value v \<lparr>lo_value = w, lo_type = ty, lo_valueSize = n, lo_shallow = True, lo_propagateReturn = False\<rparr> \<Longrightarrow>
    yields s v (give (obj_new ty w n s))"
  by (auto simp: yields_def give_def obj_new_def new_cell_def keeps_def nth_append)

lemma bool_yields: "v = truth b \<Longrightarrow> yields s v (give (new_bool b s))"
  by (auto simp: new_bool_def holds_value_def truth_def bool_val_def intro!: new_yields)

lemma number_yields: "v = number_val d \<Longrightarrow> yields s v (give (new_number d s))"
  by (auto simp: new_number_def holds_value_def number_val_def intro!: new_yields)

lemma bool_num_inj [simp]: "bool_num a = bool_num b \<longleftrightarrow> a = b"
  by (simp add: bool_num_def)

lemma arith_yields:
  assumes "holds_value l lx" "holds_value r rx" "numbers f msg l r = Inr v" "\<And>a b. v = f a b \<Longrightarrow> l = VAL_NUMBER a \<Longrightarrow> r = VAL_NUMBER b \<Longrightarrow> yields s v (give (mk a b s))"
  shows "yields s v (arith pf line mk lx rx s)"
  using assms by (cases l; cases r) (auto simp: numbers_def arith_def holds_value_def number_of_def)

lemma add_yields:
  assumes "holds_value l lx" "holds_value r rx" "numbers (\<lambda>a b. number_val (dbl_add a b)) msg l r = Inr v"
  shows "yields s v (add_objects pf line lx rx s)"
  using assms by (cases l; cases r) (auto simp: numbers_def add_objects_def holds_value_def number_of_def intro!: number_yields)

lemma compare_yields:
  assumes "holds_value l lx" "holds_value r rx" "l = nil_val \<Longrightarrow> r = nil_val \<Longrightarrow> yields s (truth eq) (both_nil s)"
  shows "yields s (truth (same_value l r = eq)) (compare_objects both_nil eq lx rx s)"
  using assms by (cases l; cases r)
    (auto simp: same_value_def compare_objects_def holds_value_def number_of_def bool_of_def nil_val_def intro!: bool_yields)

lemma negated_less:
  "a \<noteq> NaN \<Longrightarrow> b \<noteq> NaN \<Longrightarrow> truth (\<not> dbl_less a b) = truth (dbl_less b a \<or> dbl_eq a b)"
  "a \<noteq> NaN \<Longrightarrow> b \<noteq> NaN \<Longrightarrow> truth (\<not> dbl_less b a) = truth (dbl_less a b \<or> dbl_eq a b)"
  using dbl_total [of a b] dbl_total [of b a] by (auto simp: dbl_eq_sym)

lemma binary_yields:
  assumes "holds_value l lx" "holds_value r rx" "binary_value ty l r = Inr v" "tk_type t = ty" "binary_ops ty \<noteq> []"
    "comparable ty (Inr l) (Inr r)"
  shows "yields s v (binary_result pf t lx rx s)"
proof (cases "ty \<in> {TOKEN_EQUAL_EQUAL, TOKEN_BANG_EQUAL}")
  case True
  from compare_yields [OF assms(1,2), of s True "\<lambda>_. Inl (Crash Null_Deref)"]
    compare_yields [OF assms(1,2), of s False "\<lambda>s. give (new_bool False s)"] True assms(3-) show ?thesis
    by (auto simp: binary_result_def comparable_def bool_yields)
next
  case False
  with assms(3-) show ?thesis
    by (cases ty) (auto simp: binary_result_def comparable_def number_val_def
      intro!: arith_yields [OF assms(1,2)] add_yields [OF assms(1,2)] number_yields bool_yields negated_less)
qed

section \<open>Expressions\<close>

lemma destroy_value:
  assumes "p < length (ev_heap s)" "ev_heap s ! p = Some (Cell_Object x)" "holds_value v x"
  shows "obj_destroy pf (Suc n) (Some p) s = Inr (s\<lparr>ev_heap := (ev_heap s)[p := None]\<rparr>)"
  using assms by (cases v) (auto simp: get_obj_at holds_value_def fr_def get_cell_def)

lemma likely_value:
  assumes "p < length (ev_heap s)" "ev_heap s ! p = Some (Cell_Object x)" "holds_value v x"
  shows "obj_likely (Some p) s = Inr (\<not> is_falsey v)"
  using assms by (cases v) (auto simp: obj_likely_def get_obj_at holds_value_def is_falsey_def bool_num_def)

lemma unlikely_value:
  assumes "p < length (ev_heap s)" "ev_heap s ! p = Some (Cell_Object x)" "holds_value v x" "v \<noteq> nil_val"
  shows "obj_unlikely (Some p) s = Inr (is_falsey v)"
  using assms by (cases v) (auto simp: obj_unlikely_def get_obj_at holds_value_def is_falsey_def bool_num_def nil_val_def)

lemma keeps_free:
  assumes "keeps s s'" "length (ev_heap s) \<le> p"
  shows "keeps s (s'\<lparr>ev_heap := (ev_heap s')[p := None]\<rparr>)"
  using assms by (simp add: keeps_def)

lemma eval_expr_Suc:
  "eval_expr pf (Suc n) = accept_expr (EvaluateExpressionVisitor pf n (eval_expr pf n) (snd (evaluators pf n)))"
  by (simp add: eval_expr_def Let_def split: prod.split)

lemma unary_visit:
  assumes "yields s w (rec e s)" "unary_value ty w = Inr v" "tk_type t = ty" "ty \<in> {TOKEN_MINUS, TOKEN_BANG}"
    "ty = TOKEN_BANG \<Longrightarrow> w \<noteq> nil_val"
  shows "yields s v (visit_unary pf (Suc n) rec (Mk_Expr (EXPR_UNARY t e) k) s)"
proof -
  from assms(1) obtain p x s' where
    p: "rec e s = Inr (Some p, s')" "p < length (ev_heap s')" "ev_heap s' ! p = Some (Cell_Object x)" "holds_value w x"
      "length (ev_heap s) \<le> p" "keeps s s'" by (auto elim: yieldsE)
  note free = keeps_free [OF p(6,5)]
  show ?thesis
  proof (cases "ty = TOKEN_BANG")
    case True
    with assms p show ?thesis
      by (simp add: visit_unary_def unlikely_value destroy_value unary_value_def del: obj_destroy.simps)
        (rule yields_keeps [OF free], rule bool_yields, simp)
  next
    case False
    with assms(2,4) obtain d where w: "w = VAL_NUMBER d" "v = number_val (dbl_neg d)"
      by (auto simp: unary_value_def split: Value.splits)
    then have "lo_type x = OBJ_NUMBER" "number_of x = Inr d" using p(4) by (auto simp: holds_value_def number_of_def)
    with False assms(3,4) p w show ?thesis
      by (simp add: visit_unary_def get_obj_at destroy_value del: obj_destroy.simps)
        (rule yields_keeps [OF free], rule number_yields, simp)
  qed
qed

lemma binary_visit:
  assumes "yields s b (rec right s)" "\<And>s1. keeps s s1 \<Longrightarrow> yields s1 a (rec left s1)" "binary_value ty a b = Inr v" "tk_type t = ty"
    "binary_ops ty \<noteq> []" "comparable ty (Inr a) (Inr b)"
  shows "yields s v (visit_binary pf (Suc n) rec (Mk_Expr (EXPR_BINARY t left right) k) s)"
proof -
  from assms(1) obtain r rx s1 where
    r: "rec right s = Inr (Some r, s1)" "r < length (ev_heap s1)" "ev_heap s1 ! r = Some (Cell_Object rx)" "holds_value b rx"
      "length (ev_heap s) \<le> r" "keeps s s1" by (auto elim: yieldsE)
  from assms(2) [OF r(6)] obtain l lx s2 where
    l: "rec left s1 = Inr (Some l, s2)" "l < length (ev_heap s2)" "ev_heap s2 ! l = Some (Cell_Object lx)" "holds_value a lx"
      "length (ev_heap s1) \<le> l" "keeps s1 s2" by (auto elim: yieldsE)
  from binary_yields [OF l(4) r(4) assms(3-), of s2 pf] obtain q y s3 where
    q: "binary_result pf t lx rx s2 = Inr (Some q, s3)" "q < length (ev_heap s3)" "ev_heap s3 ! q = Some (Cell_Object y)" "holds_value v y"
      "length (ev_heap s2) \<le> q" "keeps s2 s3" by (auto elim: yieldsE)
  have r2: "r < length (ev_heap s2)" "ev_heap s2 ! r = Some (Cell_Object rx)" using r(2,3) l(6) by (auto simp: keeps_def)
  have l3: "l < length (ev_heap s3)" "ev_heap s3 ! l = Some (Cell_Object lx)" using l(2,3) q(6) by (auto simp: keeps_def)
  let ?s4 = "s3\<lparr>ev_heap := (ev_heap s3)[l := None]\<rparr>"
  have r4: "r < length (ev_heap ?s4)" "ev_heap ?s4 ! r = Some (Cell_Object rx)"
    using r2 q(6) r(2) l(5) by (auto simp: keeps_def)
  let ?s5 = "?s4\<lparr>ev_heap := (ev_heap ?s4)[r := None]\<rparr>"
  have "visit_binary pf (Suc n) rec (Mk_Expr (EXPR_BINARY t left right) k) s = Inr (Some q, ?s5)"
    using r(1) l(1) q(1) get_obj_at [OF r2] get_obj_at [OF l(2,3)] destroy_value [OF l3 l(4)] destroy_value [OF r4 r(4)]
    by (simp add: visit_binary_def del: obj_destroy.simps)
  moreover have "ev_heap ?s5 ! q = Some (Cell_Object y)" using q l(2) r2(1) by simp
  moreover have "keeps s ?s5"
    using keeps_trans [OF keeps_trans [OF r(6) l(6)] q(6)] r(2,5,6) l(5) by (simp add: keeps_def)
  ultimately show ?thesis using q(2,4,5) r(2,6) r2(1) l(6) by (auto simp: yields_def keeps_def)
qed

lemma logical_visit:
  assumes "yields s a (rec left s)" "\<And>s1. keeps s s1 \<Longrightarrow> take_right \<Longrightarrow> yields s1 v (rec right s1)" "\<not> take_right \<Longrightarrow> v = a"
    "take_right \<longleftrightarrow> (if tk_type t = TOKEN_OR then is_falsey a else \<not> is_falsey a)" "tk_type t \<in> {TOKEN_OR, TOKEN_AND}"
  shows "yields s v (visit_logical rec (Mk_Expr (EXPR_LOGICAL left right t) k) s)"
proof -
  from assms(1) obtain l lx s1 where
    l: "rec left s = Inr (Some l, s1)" "l < length (ev_heap s1)" "ev_heap s1 ! l = Some (Cell_Object lx)" "holds_value a lx"
      "length (ev_heap s) \<le> l" "keeps s s1" by (auto elim: yieldsE)
  have "obj_likely (Some l) s1 = Inr (\<not> is_falsey a)" by (rule likely_value [OF l(2-4)])
  moreover have "yields s a (Inr (Some l, s1))" using l unfolding yields_def by blast
  ultimately show ?thesis
    using l(1) assms(2) [OF l(6)] assms(3-) yields_keeps [OF l(6)]
    by (cases take_right) (auto simp: visit_logical_def split: if_splits)
qed

text \<open>The value of an expression, by the evaluator.\<close>

lemma eval_yields:
  "same_tree c e \<Longrightarrow> fits q c \<Longrightarrow> portable c \<Longrightarrow> value_of c = Inr v \<Longrightarrow> size e < n \<Longrightarrow> yields s v (eval_expr pf n (Some e) s)"
proof (induction arbitrary: q v n s rule: same_tree.induct)
  case (st_num l x k)
  then obtain m where "n = Suc m" by (cases n) auto
  with st_num show ?case
    by (auto simp: value_of_leaf eval_expr_Suc accept_expr_def EvaluateExpressionVisitor_def visit_literal_def holds_value_def number_val_def intro!: new_yields)
next
  case (st_lit l ty k)
  then obtain m where "n = Suc m" by (cases n) auto
  with st_lit show ?case
    by (auto simp: value_of_leaf eval_expr_Suc accept_expr_def EvaluateExpressionVisitor_def visit_literal_def holds_value_def literal_tree_def
      literal_value_def bool_val_def nil_val_def bool_num_def intro!: new_yields)
next
  case (st_unary t ty a e k)
  then obtain m where n: "n = Suc (Suc m)" by (cases n; cases "n - 1") auto
  from st_unary.prems obtain w where w: "value_of a = Inr w" "unary_value ty w = Inr v" by (auto dest: value_of_simps)
  have "yields s w (eval_expr pf (Suc m) (Some e) s)" using st_unary n w by (intro st_unary.IH [where q = 8]) auto
  from unary_visit [where rec = "eval_expr pf (Suc m)" and e = "Some e", OF this w(2) st_unary.hyps(1)] st_unary.prems w(1) show ?case
    by (simp add: n eval_expr_Suc [of pf "Suc m"] accept_expr_def EvaluateExpressionVisitor_def)
next
  case (st_binary t ty a e b e' k)
  then obtain m where n: "n = Suc (Suc m)" by (cases n; cases "n - 1") auto
  from st_binary.prems(3) obtain l r where w: "value_of a = Inr l" "value_of b = Inr r" "binary_value ty l r = Inr v"
    by (auto dest: value_of_simps)
  have "yields s r (eval_expr pf (Suc m) (Some e') s)" using st_binary n w by (intro st_binary.IH(2)) auto
  moreover have "yields s1 l (eval_expr pf (Suc m) (Some e) s1)" for s1 using st_binary n w by (intro st_binary.IH(1)) auto
  ultimately show ?case
    using binary_visit [OF _ _ w(3) st_binary.hyps(1)] st_binary.prems w
    by (simp add: n eval_expr_Suc [of pf "Suc m"] accept_expr_def EvaluateExpressionVisitor_def)
next
  case (st_and t a e b e' k)
  then obtain m where n: "n = Suc m" by (cases n) auto
  from st_and.prems(3) obtain l where w: "value_of a = Inr l" "if is_falsey l then v = l else value_of b = Inr v"
    using value_of_simps by blast
  have "yields s l (eval_expr pf m (Some e) s)" using st_and n w by (intro st_and.IH(1)) auto
  moreover have "yields s1 v (eval_expr pf m (Some e') s1)" if "\<not> is_falsey l" for s1 using st_and n w that by (intro st_and.IH(2)) auto
  ultimately show ?case
    using logical_visit [where take_right = "\<not> is_falsey l" and a = l and v = v] st_and.hyps(1) w(2)
    by (simp add: n eval_expr_Suc [of pf m] accept_expr_def EvaluateExpressionVisitor_def)
next
  case (st_or t a e b e' k)
  then obtain m where n: "n = Suc m" by (cases n) auto
  from st_or.prems(3) obtain l where w: "value_of a = Inr l" "if is_falsey l then value_of b = Inr v else v = l"
    using value_of_simps by blast
  have "yields s l (eval_expr pf m (Some e) s)" using st_or n w by (intro st_or.IH(1)) auto
  moreover have "yields s1 v (eval_expr pf m (Some e') s1)" if "is_falsey l" for s1 using st_or n w that by (intro st_or.IH(2)) auto
  ultimately show ?case
    using logical_visit [where take_right = "is_falsey l" and a = l and v = v] st_or.hyps(1) w(2)
    by (simp add: n eval_expr_Suc [of pf m] accept_expr_def EvaluateExpressionVisitor_def)
next
  case (st_group a e k)
  then obtain m where n: "n = Suc m" by (cases n) auto
  have "yields s v (eval_expr pf m (Some e) s)" using st_group n by (intro st_group.IH) (auto simp: value_of_leaf)
  then show ?case by (simp add: n eval_expr_Suc [of pf m] accept_expr_def EvaluateExpressionVisitor_def visit_grouping_def)
qed

end
