(* ===== verification/Clox_Engines.thy ===== *)
theory Clox_Engines
  imports Clox_Tree_Eval Clox_Grammar
begin

text \<open>
  The two engines side by side. The same source text goes through the tokenizer, the
  recursive-descent parser, the resolver and the evaluator of the tree walker on one side, and
  through the compiler and the machine on the other; on programs that print expressions both
  print the same values.
\<close>

section \<open>From tokens to trees\<close>

text \<open>
  Expressions without variables and without chains: the loops of \<^verbatim>\<open>logicOr\<close> and \<^verbatim>\<open>logicAnd\<close> of the
  parser stop after one operator.
\<close>

fun unchained :: "cexp \<Rightarrow> bool" where
  "unchained (Unary ty a) = unchained a"
| "unchained (Binary ty a b) = (unchained a \<and> unchained b)"
| "unchained (AndExp a b) = (unchained a \<and> unchained b \<and> fits 4 b)"
| "unchained (OrExp a b) = (unchained a \<and> unchained b \<and> fits 3 b)"
| "unchained (Group a) = unchained a"
| "unchained (Var x) = False"
| "unchained (Assign x a) = False"
| "unchained _ = True"

lemma tok_sketch_type: "tok_sketch t = (ty, x) \<Longrightarrow> tk_type t = ty"
  by (simp add: tok_sketch_def)

lemma split_tokens:
  assumes "map tok_sketch ts = xs @ (ty, y) # ys"
  obtains us t vs where "ts = us @ t # vs" "tk_type t = ty" "map tok_sketch us = xs" "map tok_sketch vs = ys"
proof -
  from assms obtain us r where "ts = us @ r" "map tok_sketch us = xs" "map tok_sketch r = (ty, y) # ys" by (auto simp: map_eq_append_conv)
  then show thesis using that by (auto simp: map_eq_Cons_conv dest: tok_sketch_type)
qed

lemma binary_level:
  assumes "binary_ops ty \<noteq> []"
  shows "Clox_Codegen.level ty \<in> {4, 5, 6, 7}" "ty \<in> set (binary_tokens (Clox_Codegen.level ty - 1))"
  using assms by (cases ty; simp add: rule_def binary_tokens_def)+

lemma leaf_derives:
  assumes "leaf_tree t = Some real" "n \<le> 9"
  shows "derives n [t] (Mk_Expr real 0)"
  using derives_lift [OF d_leaf [OF assms(1)]] assms(2) by simp

text \<open>The tokens of an expression derive a tree of it, at the level of its precedence.\<close>

lemma sketch_derives:
  assumes "fits q c" "unchained c" "map tok_sketch ts = sketch c" "list_all number_literal ts" "1 \<le> q" "q \<le> 8"
  shows "\<exists>e. derives (q - 1) ts e \<and> same_tree c e \<and> size e < 4 * length ts"
  using assms
proof (induction c arbitrary: q ts)
  case (Num x)
  then obtain t where "ts = [t]" "tk_type t = TOKEN_NUMBER" "tk_literal t = Some x"
    by (auto simp: tok_sketch_def number_literal_def split: if_splits)
  with Num.prems show ?case
    by (intro exI [where x = "Mk_Expr (new_literal (LITERAL_NUMBER (strtod x)) 8) 0"] conjI leaf_derives)
      (auto simp: leaf_tree_def new_literal_def intro!: st_num leaf_derives)
next
  case (Lit ty)
  then obtain t where t: "ts = [t]" "tk_type t = ty" by (auto simp: tok_sketch_def)
  then obtain l where "leaf_tree t = Some (EXPR_LITERAL l)" "le_value l = literal_tree ty"
    using Lit.prems(1) by (auto simp: leaf_tree_def new_true_def new_false_def new_nil_def new_literal_def literal_tree_def)
  with t Lit.prems show ?case
    by (intro exI [where x = "Mk_Expr (EXPR_LITERAL l) 0"]) (auto intro!: st_lit leaf_derives)
next
  case (Unary ty a)
  then obtain t us where ts: "ts = t # us" "tk_type t = ty" "map tok_sketch us = sketch a" by (auto dest: tok_sketch_type)
  from Unary.IH [of 8 us] Unary.prems ts obtain e where "derives 7 us e" "same_tree a e" "size e < 4 * length us" by auto
  with ts Unary.prems derives_lift [OF d_unary [of t us e], of "q - 1"] show ?case
    by (intro exI [where x = "Mk_Expr (EXPR_UNARY t (Some e)) 0"]) (auto intro: st_unary)
next
  case (Binary ty a b)
  from Binary.prems(3) [simplified] obtain us t vs where ts: "ts = us @ t # vs" "tk_type t = ty" "map tok_sketch us = sketch a" "map tok_sketch vs = sketch b"
    by (rule split_tokens)
  let ?n = "Clox_Codegen.level ty"
  have lv: "?n \<in> {4, 5, 6, 7}" "ty \<in> set (binary_tokens (?n - 1))" using binary_level [of ty] Binary.prems(1) by auto
  from Binary.IH(1) [of ?n us] Binary.prems ts lv obtain e where e: "derives (?n - 1) us e" "same_tree a e" "size e < 4 * length us" by auto
  from Binary.IH(2) [of "Suc ?n" vs] Binary.prems ts lv obtain e' where e': "derives ?n vs e'" "same_tree b e'" "size e' < 4 * length vs" by auto
  have n: "Suc (?n - 1) = ?n" using lv by auto
  have "derives (?n - 1) ts (Mk_Expr (EXPR_BINARY t (Some e) (Some e')) 0)"
    unfolding ts by (rule d_binary) (use e e' ts lv n in auto)
  with derives_lift [OF this, of "q - 1"] Binary.prems(1) lv e e' ts show ?case
    by (intro exI [where x = "Mk_Expr (EXPR_BINARY t (Some e) (Some e')) 0"]) (auto intro: st_binary)
next
  case (AndExp a b)
  from AndExp.prems(3) [simplified] obtain us t vs where ts: "ts = us @ t # vs" "tk_type t = TOKEN_AND" "map tok_sketch us = sketch a" "map tok_sketch vs = sketch b"
    by (rule split_tokens)
  from AndExp.IH(1) [of 4 us] AndExp.prems ts obtain e where e: "derives 3 us e" "same_tree a e" "size e < 4 * length us" by auto
  from AndExp.IH(2) [of 4 vs] AndExp.prems ts obtain e' where e': "derives 3 vs e'" "same_tree b e'" "size e' < 4 * length vs" by auto
  have "derives 2 ts (Mk_Expr (EXPR_LOGICAL (Some e) (Some e') t) 0)"
    unfolding ts by (rule d_logic) (use e e' ts in \<open>auto simp: logic_token_def numeral_3_eq_3 [symmetric]\<close>)
  with derives_lift [OF this, of "q - 1"] AndExp.prems e e' ts show ?case
    by (intro exI [where x = "Mk_Expr (EXPR_LOGICAL (Some e) (Some e') t) 0"]) (auto intro: st_and)
next
  case (OrExp a b)
  from OrExp.prems(3) [simplified] obtain us t vs where ts: "ts = us @ t # vs" "tk_type t = TOKEN_OR" "map tok_sketch us = sketch a" "map tok_sketch vs = sketch b"
    by (rule split_tokens)
  from OrExp.IH(1) [of 3 us] OrExp.prems ts obtain e where e: "derives 2 us e" "same_tree a e" "size e < 4 * length us" by auto
  from OrExp.IH(2) [of 3 vs] OrExp.prems ts obtain e' where e': "derives 2 vs e'" "same_tree b e'" "size e' < 4 * length vs" by auto
  have "derives 1 ts (Mk_Expr (EXPR_LOGICAL (Some e) (Some e') t) 0)"
    unfolding ts by (rule d_logic) (use e e' ts in \<open>auto simp: logic_token_def numeral_2_eq_2 [symmetric]\<close>)
  with derives_lift [OF this, of "q - 1"] OrExp.prems e e' ts show ?case
    by (intro exI [where x = "Mk_Expr (EXPR_LOGICAL (Some e) (Some e') t) 0"]) (auto intro: st_or)
next
  case (Group a)
  then obtain lp us rp where ts: "ts = lp # us @ [rp]" "tk_type lp = TOKEN_LEFT_PAREN" "tk_type rp = TOKEN_RIGHT_PAREN" "map tok_sketch us = sketch a"
    by (auto simp: map_eq_append_conv map_eq_Cons_conv tok_sketch_def)
  from Group.IH [of 1 us] Group.prems ts obtain e where e: "derives 0 us e" "same_tree a e" "size e < 4 * length us" by auto
  with ts derives_lift [OF d_group [of lp us e rp], of "q - 1"] Group.prems show ?case
    by (intro exI [where x = "Mk_Expr (EXPR_GROUPING (Some e)) 0"]) (auto intro: st_group)
qed simp_all

text \<open>A program of print statements: its tokens are parsed to the trees of its expressions.\<close>

lemma print_parses:
  assumes "derives 0 us e" "toks_at s (p # us @ sc # t # rest)" "tk_type p = TOKEN_PRINT" "tk_type sc = TOKEN_SEMICOLON"
    "length us + length rest + 3 < fuel"
  shows "declaration_ast fuel s = Inr (Some (STMT_PRINT (Some e)), skip s (length us + 2))"
proof -
  obtain f where f: "fuel = Suc f" using assms(5) by (cases fuel) auto
  note at = at_Cons [OF assms(2)]
  have at1: "toks_at (skip s (Suc 0)) (us @ sc # t # rest)" using at(3) by simp
  have "expression_ast fuel (skip s (Suc 0)) = Inr (Some e, skip (skip s (Suc 0)) (length us))"
    by (rule derives_parses [OF assms(1) at1]) (use assms(4,5) in \<open>auto simp: consumed_def binary_tokens_def logic_token_def\<close>)
  moreover have "consume_ast TOKEN_SEMICOLON msg (skip (skip s (Suc 0)) (length us)) = Inr (Some sc, skip s (length us + 2))" for msg
    using at_consume [OF at_skip [OF at1], of TOKEN_SEMICOLON msg] assms(4) by simp
  ultimately show ?thesis
    using at(1,2) assms(3)
    by (simp add: f declaration_body_ast_def statement_body_ast_def print_statement_ast_def new_terminated_statement_def terminated_statement_def)
qed

lemma parse_prints:
  assumes "map tok_sketch ts = concat (map ssketch (map Print cs))" "list_all number_literal ts" "list_all (\<lambda>c. fits 1 c \<and> unchained c) cs"
    "toks_at s (ts @ [eof])" "tk_type eof = TOKEN_ENDOFFILE" "length ts + 1 < fuel"
  shows "\<exists>es. parse_loop fuel stmts s = Inr (Some (stmts @ map (\<lambda>e. Some (STMT_PRINT (Some e))) es), skip s (length ts))
    \<and> list_all2 same_tree cs es \<and> list_all (\<lambda>e. size e < 4 * length ts) es"
  using assms
proof (induction cs arbitrary: ts s fuel stmts)
  case Nil
  then obtain f where "fuel = Suc f" by (cases fuel) auto
  with Nil at_Cons [of s eof "[]"] show ?case by (auto simp: intro!: exI [where x = "[]"])
next
  case (Cons c cs)
  from Cons.prems(6) obtain f where f: "fuel = Suc f" by (cases fuel) auto
  from Cons.prems(1) obtain p ts1 where p: "ts = p # ts1" "tk_type p = TOKEN_PRINT"
      "map tok_sketch ts1 = sketch c @ (TOKEN_SEMICOLON, None) # concat (map ssketch (map Print cs))"
    by (auto simp: map_eq_Cons_conv dest: tok_sketch_type)
  from p(3) obtain us sc vs where u: "ts1 = us @ sc # vs" "tk_type sc = TOKEN_SEMICOLON" "map tok_sketch us = sketch c"
      "map tok_sketch vs = concat (map ssketch (map Print cs))" by (rule split_tokens)
  from sketch_derives [of 1 c us] Cons.prems(2,3) p u obtain e where e: "derives 0 us e" "same_tree c e" "size e < 4 * length us" by auto
  obtain t rest where r: "vs @ [eof] = t # rest" by (cases vs) auto
  have len: "length rest = length vs" using arg_cong [OF r, of length] by simp
  have at: "toks_at s (p # us @ sc # t # rest)" using Cons.prems(4) p u r by simp
  from print_parses [OF e(1) at p(2) u(2), of "Suc f"] Cons.prems(6) p u len f have d:
    "declaration_ast (Suc f) s = Inr (Some (STMT_PRINT (Some e)), skip s (length us + 2))" by simp
  have "toks_at (skip s (length us + 2)) (vs @ [eof])"
    using at_skip [of s "p # us @ [sc]" "t # rest"] at r by simp
  from Cons.IH [OF u(4) _ _ this Cons.prems(5), of f "stmts @ [Some (STMT_PRINT (Some e))]"] Cons.prems p u f obtain es where
    es: "parse_loop f (stmts @ [Some (STMT_PRINT (Some e))]) (skip s (length us + 2))
        = Inr (Some ((stmts @ [Some (STMT_PRINT (Some e))]) @ map (\<lambda>e. Some (STMT_PRINT (Some e))) es), skip (skip s (length us + 2)) (length vs))"
      "list_all2 same_tree cs es" "list_all (\<lambda>e. size e < 4 * length vs) es" by auto
  have "list_all (\<lambda>e. size e < 4 * length ts) (e # es)" using e(3) es(3) p u by (auto simp: list_all_iff intro: less_le_trans)
  with d es e(2) at_Cons(1) [OF at] p u f show ?case
    by (intro exI [where x = "e # es"]) simp
qed

section \<open>The tree walker on print statements\<close>

lemma plain_resolves: "same_tree c e \<Longrightarrow> size e < n \<Longrightarrow> resolve_expr n (Some e) s = Inr ((True, Some e), s)"
proof (induction n arbitrary: c e)
  case (Suc n)
  from Suc.prems show ?case
    by (cases rule: same_tree.cases)
      (auto simp: Suc.IH accept_expr_def ExpressionResolver_def visit_literal_expr_resolver_def visit_unary_expr_resolver_def
        visit_binary_expr_resolver_def visit_logical_expr_resolver_def visit_grouping_expr_resolver_def resolve_both_def resolve_one_def)
qed simp

lemma plain_destroys: "same_tree c e \<Longrightarrow> \<exists>fs. expr_destroy (Some e) = Inr fs"
  by (induction rule: same_tree.induct) auto

text \<open>What \<^verbatim>\<open>visit_print\<close> prints for a value.\<close>

definition tree_line :: "Value \<Rightarrow> eval_out" where
  "tree_line v = (case v of VAL_NUMBER d \<Rightarrow> Out_Number (\<not> dbl_eq d (dbl_floor d)) d | VAL_BOOL b \<Rightarrow> Out_Bool (b \<noteq> 0) | _ \<Rightarrow> Out_Nil)"

lemma printed_value: "holds_value v x \<Longrightarrow> printed x s = Inr (Some (tree_line v))"
  by (cases v) (auto simp: holds_value_def printed_def tree_line_def number_of_def bool_of_def bool_num_def)

lemma eval_Suc:
  "eval pf (Suc n) stmt s = bind_result (accept (EvaluateStmtVisitor pf n (eval_expr pf n) (snd (evaluators pf n))) stmt s) (\<lambda>(_, s1). Inr s1)"
  by (simp add: eval_def eval_expr_def Let_def split: prod.split)

text \<open>Older cells are as they were.\<close>

definition kept :: "ES \<Rightarrow> ES \<Rightarrow> bool" where
  "kept s s' \<longleftrightarrow> length (ev_heap s) \<le> length (ev_heap s') \<and> (\<forall>a < length (ev_heap s). ev_heap s' ! a = ev_heap s ! a)"

lemma kept_refl: "kept s s"
  by (simp add: kept_def)

lemma kept_trans: "kept s s1 \<Longrightarrow> kept s1 s2 \<Longrightarrow> kept s s2"
  by (auto simp: kept_def)

lemma print_evaluates:
  assumes "same_tree c e" "fits q c" "portable c" "value_of c = Inr v" "size e < n"
  shows "\<exists>s'. eval pf (Suc n) (Some (STMT_PRINT (Some e))) s = Inr s' \<and> ev_out s' = ev_out s @ [tree_line v] \<and> kept s s'"
proof -
  from eval_yields [OF assms, of s pf] obtain p x s' where
    y: "eval_expr pf n (Some e) s = Inr (Some p, s')" "p < length (ev_heap s')" "ev_heap s' ! p = Some (Cell_Object x)"
      "holds_value v x" "keeps s s'" by (auto elim: yieldsE)
  then have "ev_out s' = ev_out s" "kept s s'" by (auto simp: keeps_def kept_def)
  with y get_obj_at [OF y(2,3)] printed_value [OF y(4)] show ?thesis
    by (simp add: eval_Suc accept_def EvaluateStmtVisitor_def visit_print_def kept_def)
qed

lemma for_prints:
  assumes "list_all2 same_tree cs es" "list_all (fits q) cs" "list_all portable cs" "list_all2 (\<lambda>c v. value_of c = Inr v) cs vs"
    "list_all (\<lambda>e. size e < n) es"
  shows "\<exists>s'. for_stmts pf (Suc n) (map (\<lambda>e. Some (STMT_PRINT (Some e))) es) (rs, s)
    = Inr (map (\<lambda>e. Some (STMT_PRINT (Some e))) es, rs, s') \<and> ev_out s' = ev_out s @ map tree_line vs \<and> kept s s'"
  using assms
proof (induction cs arbitrary: es vs s)
  case (Cons c cs)
  from Cons.prems obtain e es' v vs' where l: "es = e # es'" "vs = v # vs'" by (auto simp: list_all2_Cons1)
  from print_evaluates [of c e q v n pf s] Cons.prems l obtain s1 where
    1: "eval pf (Suc n) (Some (STMT_PRINT (Some e))) s = Inr s1" "ev_out s1 = ev_out s @ [tree_line v]" "kept s s1" by auto
  from Cons.IH [of es' vs' s1] Cons.prems l obtain s2 where
    2: "for_stmts pf (Suc n) (map (\<lambda>e. Some (STMT_PRINT (Some e))) es') (rs, s1) = Inr (map (\<lambda>e. Some (STMT_PRINT (Some e))) es', rs, s2)"
      "ev_out s2 = ev_out s1 @ map tree_line vs'" "kept s1 s2" by auto
  have "resolve u (Suc n) (Some (STMT_PRINT (Some e))) rs = Inr ((True, Some (STMT_PRINT (Some e))), rs)" for u
    using plain_resolves [of c e n rs] Cons.prems l by (simp add: accept_def StatementResolver_def visit_print_stmt_resolver_def)
  with 1 2 l show ?case by (simp add: kept_trans [OF 1(3) 2(3)])
qed (simp add: kept_refl)

lemma prints_destroyed:
  assumes "list_all2 same_tree cs es"
  shows "\<exists>fs. stmts_foreach (map (\<lambda>e. Some (STMT_PRINT (Some e))) es) = Inr fs"
  using assms by (induction rule: list_all2_induct) (auto dest!: plain_destroys)

text \<open>\<^verbatim>\<open>interp\<close> on the text of a program that prints.\<close>

lemma interp_prints:
  assumes "map tok_sketch (butlast (tkz_values (toknzr code False))) = concat (map ssketch (map Print cs))"
    "list_all (\<lambda>c. fits 1 c \<and> unchained c \<and> portable c) cs" "list_all2 (\<lambda>c v. value_of c = Inr v) cs vs"
    "4 * length (tkz_values (toknzr code False)) \<le> fuel"
  shows "\<exists>es'. interp pf fuel code (rs, es) = Inr ([], rs, es') \<and> ev_out es' = ev_out es @ map tree_line vs \<and> kept es es'"
proof -
  let ?ts = "butlast (tkz_values (toknzr code False))"
  obtain eof where toks: "tkz_values (toknzr code False) = ?ts @ [eof]" "tk_type eof = TOKEN_ENDOFFILE"
    by (simp add: toknzr_def Let_def token_simple_def token_def)
  have "TOKEN_ERROR \<notin> tk_type ` set ?ts"
  proof
    assume "TOKEN_ERROR \<in> tk_type ` set ?ts"
    then have "(TOKEN_ERROR, None) \<in> set (map tok_sketch ?ts)" by (force simp: tok_sketch_def)
    then show False using assms(1,2) exp_no_error [of 1] by (auto simp: list_all_iff split: if_splits)
  qed
  then have "filter not_error (?ts @ [eof]) = ?ts @ [eof]" using toks(2) by (auto simp: not_error_def filter_id_conv) (metis imageI)
  then have v: "tkz_values (toknzr code True) = ?ts @ [eof]" using toknzr_quiet_verbose [of code] toks(1) by simp
  have lit: "list_all number_literal ?ts"
    using toknzr_number_literals [of code False] toks(1) by (metis list_all_append)
  obtain n where n: "fuel = Suc n" using assms(4) toks(1) by (cases fuel) auto
  have len: "4 * length ?ts + 4 \<le> fuel" using assms(4) toks(1) by (metis length_append_singleton mult_Suc_right add.commute)
  have "toks_at (parse_start (?ts @ [eof])) (?ts @ [eof])" by (simp add: toks_at_def parse_start_def)
  from parse_prints [OF assms(1) lit _ this toks(2), of fuel "[]"] assms(2) len obtain es0 where
    p: "parse_loop fuel [] (parse_start (?ts @ [eof])) = Inr (Some (map (\<lambda>e. Some (STMT_PRINT (Some e))) es0), skip (parse_start (?ts @ [eof])) (length ?ts))"
      "list_all2 same_tree cs es0" "list_all (\<lambda>e. size e < 4 * length ?ts) es0" by (auto simp: list_all_iff)
  have "list_all (\<lambda>e. size e < n) es0" using p(3) len n by (auto simp: list_all_iff)
  from for_prints [OF p(2) _ _ assms(3) this, of 1 pf rs es] assms(2) obtain es' where
    f: "for_stmts pf fuel (map (\<lambda>e. Some (STMT_PRINT (Some e))) es0) (rs, es) = Inr (map (\<lambda>e. Some (STMT_PRINT (Some e))) es0, rs, es')"
      "ev_out es' = ev_out es @ map tree_line vs" "kept es es'" by (auto simp: list_all_iff n)
  from prints_destroyed [OF p(2)] have "\<exists>fs. parser_destroy (Some (map (\<lambda>e. Some (STMT_PRINT (Some e))) es0)) = Inr fs"
    by (auto simp: parser_destroy_def stmts_destroy_def)
  with p(1) f show ?thesis by (auto simp: interp_def parse_def v skip_def parse_start_def)
qed

lemma peval_prints:
  assumes "list_all2 (\<lambda>c v. value_of c = Inr v) cs vs"
  shows "peval n (map Print cs) = Some (concat (map2 (\<lambda>c v. fst (eeval c ([], [])) @ line_of v) cs vs), Inr ([], []))"
  using assms
proof (induction cs arbitrary: vs)
  case (Cons c cs)
  then obtain v vs' where v: "vs = v # vs'" "value_of c = Inr v" "list_all2 (\<lambda>c v. value_of c = Inr v) cs vs'"
    by (auto simp: list_all2_Cons1)
  obtain out where "eeval c ([], []) = (out, Inr (v, ([], [])))" using v(2) by (cases "eeval c ([], [])") (auto simp: value_of_Inr)
  with Cons.IH [OF v(3)] v(1) show ?case by (simp add: peval_def and_then_def then_run_def)
qed (simp add: peval_def)

text \<open>Expressions without variables put no name among the constants.\<close>

lemma plain_consts: "unchained c \<Longrightarrow> Name_Lit x \<notin> set (econsts L c)"
  by (induction c) auto

lemma prints_consts: "list_all unchained cs \<Longrightarrow> Name_Lit x \<notin> set (bconsts L (map Print cs))"
  by (induction cs) (simp_all add: plain_consts)

lemma bsteps_prints: "bsteps n (map Print cs) = length (pcode k (map Print cs))"
proof (induction cs arbitrary: k)
  case (Cons c cs)
  then show ?case using length_ecode [of "[]" k c] by simp
qed simp

section \<open>A platform and a program\<close>

definition glibc :: Platform where
  "glibc = \<lparr>pf_usable = (\<lambda>n. if n \<le> 24 then 24 else n + 8), pf_low = (\<lambda>a. 4096 + 48 * a), pf_fresh = (\<lambda>_. False), pf_time = (\<lambda>_. 0)\<rparr>"

definition sample_prints :: "cexp list" where
  "sample_prints = [Binary TOKEN_LESS_EQUAL (Num ''1'') (Binary TOKEN_STAR (Num ''2'') (Num ''3'')), AndExp (Unary TOKEN_BANG (Lit TOKEN_TRUE)) (Lit TOKEN_NIL)]"

definition sample_prints_text :: string where
  "sample_prints_text = ''print 1 <= 2 * 3; print !true and nil;''"

lemma sample_prints_facts:
  "map tok_sketch (butlast (tkz_values (toknzr sample_prints_text False))) = concat (map ssketch (map Print sample_prints))"
  "wf_prog (map Print sample_prints)" "bheight (map Print sample_prints) < STACK_MAX"
  "4 * length (tkz_values (toknzr sample_prints_text False)) + 2 < 70" "length (pcode 0 (map Print sample_prints)) + 2 \<le> 70"
  "list_all (\<lambda>c. unchained c \<and> portable c) sample_prints"
  "list_all2 (\<lambda>c v. value_of c = Inr v) sample_prints [truth True, truth False]" "CHR 0x00 \<notin> set sample_prints_text"
proof -
  show "bheight (map Print sample_prints) < STACK_MAX"
    by (simp add: sample_prints_def STACK_MAX_def FRAMES_MAX_def BYTE_COUNT_def)
qed code_simp+

end
