(* ===== verification/Clox_Main.thy ===== *)
theory Clox_Main
  imports Clox_Engines Clox_Eval_Props "HOL-Library.Sublist"
begin

text \<open>
  The program: \<^verbatim>\<open>src/main.c\<close>. The arguments, the two engines on a file, the two interactive loops, the
  exit status. Files are a function from paths to contents, standard input is the text that is
  still to be read; what the engines print is in their states, what \<^verbatim>\<open>main\<close> itself prints is a list of
  banners. Every failure to read a file ends in the exit status 74 and is one case here.

  The step budget of an engine is \<open>fuel\<close>; the interactive loop reads at most \<open>fuel\<close> lines.
\<close>

section \<open>Arguments\<close>

record ArgValues =
  av_treewalk :: bool
  av_repl :: bool
  av_filename :: "string option"
  av_help :: bool
  av_error :: bool

definition argparse :: "string list \<Rightarrow> ArgValues" where
  "argparse argv = (let values = \<lparr>av_treewalk = False, av_repl = False, av_filename = None, av_help = False, av_error = False\<rparr>
     in if 3 < length argv then values\<lparr>av_error := True\<rparr>
        else if length argv = 3
        then let values = values\<lparr>av_repl := False, av_filename := Some (argv ! 2)\<rparr>
             in if argv ! 1 = ''--tree-walk'' then values\<lparr>av_treewalk := True\<rparr>
                else if argv ! 1 = ''--vm'' then values\<lparr>av_treewalk := False\<rparr>
                else if argv ! 1 = ''--help'' then values\<lparr>av_help := True\<rparr>
                else values\<lparr>av_error := True\<rparr>
        else let values = values\<lparr>av_repl := True\<rparr>
             in if length argv = 2
                then if argv ! 1 = ''--tree-walk'' then values\<lparr>av_treewalk := True\<rparr>
                     else if argv ! 1 = ''--vm'' then values\<lparr>av_treewalk := False\<rparr>
                     else if argv ! 1 = ''--help'' then values\<lparr>av_help := True\<rparr>
                     else values\<lparr>av_repl := False, av_filename := Some (argv ! 1)\<rparr>
                else values)"

section \<open>Input\<close>

definition read_file :: "(string \<Rightarrow> string option) \<Rightarrow> string \<Rightarrow> string option" where
  "read_file files filepath = map_option c_string (files filepath)"

text \<open>The line and the input after it. At the end of the input the line is empty, it is never NULL.\<close>

definition read_line :: "string \<Rightarrow> string \<times> string" where
  "read_line input = (let (line, rest) = fgets_loop (LINEBUFSIZE - 1) input in (c_string line, rest))"

section \<open>Running code\<close>

definition run_treewalk_chunk :: "Platform \<Rightarrow> nat \<Rightarrow> string \<Rightarrow> RS \<times> ES \<Rightarrow> (RS \<times> ES) result" where
  "run_treewalk_chunk pf fuel code st = bind_result (interp pf fuel code st) (\<lambda>(_, st1). Inr st1)"

definition run_treewalk_file :: "Platform \<Rightarrow> nat \<Rightarrow> string \<Rightarrow> RS \<times> ES \<Rightarrow> (RS \<times> ES) result" where
  "run_treewalk_file pf fuel code st = bind_result (env_init_global (snd st)) (\<lambda>es.
     bind_result (run_treewalk_chunk pf fuel code (fst st, es)) (\<lambda>(rs, es1).
     bind_result (env_destroy (obj_force_destroy (obj_destroy pf fuel)) (Some GlobalExecutionEnvironment) es1) (\<lambda>es2. Inr (rs, es2))))"

definition run_vm_chunk :: "nat \<Rightarrow> string \<Rightarrow> VM \<Rightarrow> VM result" where
  "run_vm_chunk fuel code vm = bind_result (vm_interpret fuel code vm) (\<lambda>(_, vm1). Inr vm1)"

text \<open>The exit status, and the machine after \<^verbatim>\<open>vm_free\<close>. Without an error \<^verbatim>\<open>getchar\<close> then waits for a key.\<close>

definition run_vm_file :: "nat \<Rightarrow> int list \<Rightarrow> string \<Rightarrow> (nat \<times> VM) result" where
  "run_vm_file fuel clock code = bind_result (vm_init clock) (\<lambda>vm.
     bind_result (vm_interpret fuel code vm) (\<lambda>(res, vm1).
     bind_result (vm_free vm1) (\<lambda>(vm2, _).
       Inr (case res of INTERPRET_COMPILE_ERROR \<Rightarrow> 65 | INTERPRET_RUNTIME_ERROR \<Rightarrow> 70 | INTERPRET_OK \<Rightarrow> 0, vm2))))"

section \<open>The interactive loop\<close>

text \<open>The loop of \<^verbatim>\<open>main\<close>; \<open>codeRunner\<close> may read from the same input.\<close>

fun repl_loop :: "nat \<Rightarrow> (string \<Rightarrow> 's \<times> string \<Rightarrow> ('s \<times> string) result) \<Rightarrow> 's \<times> string \<Rightarrow> ('s \<times> string) result" where
  "repl_loop 0 codeRunner st = Inl Out_Of_Fuel"
| "repl_loop (Suc n) codeRunner st = (case read_line (snd st) of (line, rest) \<Rightarrow>
     if line = ''exit()\<newline>'' then Inr (fst st, rest)
     else bind_result (codeRunner line (fst st, rest)) (repl_loop n codeRunner))"

definition repl_treewalk :: "Platform \<Rightarrow> nat \<Rightarrow> string \<Rightarrow> (RS \<times> ES) \<times> string \<Rightarrow> ((RS \<times> ES) \<times> string) result" where
  "repl_treewalk pf fuel line st = (case st of ((rs, es), input) \<Rightarrow>
     bind_result (run_treewalk_chunk pf fuel line (rs, es\<lparr>ev_input := input\<rparr>)) (\<lambda>(rs1, es1). Inr ((rs1, es1), ev_input es1)))"

definition repl_vm :: "nat \<Rightarrow> string \<Rightarrow> VM \<times> string \<Rightarrow> (VM \<times> string) result" where
  "repl_vm fuel line st = bind_result (run_vm_chunk fuel line (fst st)) (\<lambda>vm. Inr (vm, snd st))"

section \<open>main\<close>

text \<open>The name of the program is what follows the last slash of \<^verbatim>\<open>argv[0]\<close>, or NULL.\<close>

datatype banner = Usage "string option" | Header "string option"

datatype engine = No_Engine | Engine_Vm VM | Engine_Tree RS ES

definition program_name :: "string \<Rightarrow> string option" where
  "program_name arg = (if CHR ''/'' \<in> set arg then Some (rev (takeWhile (\<lambda>c. c \<noteq> CHR ''/'') (rev arg))) else None)"

definition main_repl :: "Platform \<Rightarrow> nat \<Rightarrow> int list \<Rightarrow> bool \<Rightarrow> string \<Rightarrow> engine result" where
  "main_repl pf fuel clock treewalk input = (if treewalk
     then bind_result (repl_loop fuel (repl_treewalk pf fuel) ((initial_rs, initial_es input), input)) (\<lambda>((rs, es), _). Inr (Engine_Tree rs es))
     else bind_result (vm_init clock) (\<lambda>vm.
       bind_result (repl_loop fuel (repl_vm fuel) (vm, input)) (\<lambda>(vm1, _).
       bind_result (vm_free vm1) (\<lambda>(vm2, _). Inr (Engine_Vm vm2)))))"

definition clox_main :: "Platform \<Rightarrow> nat \<Rightarrow> int list \<Rightarrow> (string \<Rightarrow> string option) \<Rightarrow> string list \<Rightarrow> string \<Rightarrow>
    (nat \<times> banner list \<times> engine) result" where
  "clox_main pf fuel clock files argv input = (if argv = [] then Inl (Crash Null_Deref)
     else let name = program_name (hd argv); values = argparse argv
     in if av_error values then Inr (1, [Usage name], No_Engine)
        else if av_help values then Inr (0, [Usage name], No_Engine)
        else if av_repl values
        then bind_result (main_repl pf fuel clock (av_treewalk values) input) (\<lambda>e. Inr (0, [Header name], e))
        else (case av_filename values of None \<Rightarrow> Inl (Crash Null_Deref)
          | Some filename \<Rightarrow> (case read_file files filename of
              None \<Rightarrow> Inr (74, [Header name], No_Engine)
            | Some buf \<Rightarrow> if av_treewalk values
                then bind_result (run_treewalk_file pf fuel buf (initial_rs, initial_es input)) (\<lambda>(rs, es). Inr (0, [Header name], Engine_Tree rs es))
                else bind_result (run_vm_file fuel clock buf) (\<lambda>(status, vm). Inr (status, [Header name], Engine_Vm vm)))))"

section \<open>The interactive loop does not end\<close>

lemma read_line_splits: "\<exists>line'. input = line' @ snd (read_line input) \<and> prefix (fst (read_line input)) line'"
proof -
  obtain l r where f: "fgets_loop (LINEBUFSIZE - 1) input = (l, r)" by fastforce
  then have "input = l @ r" using fgets_splits [of "LINEBUFSIZE - 1" input] by simp
  moreover have "prefix (c_string l) l" by (simp add: c_string_def takeWhile_is_prefix)
  ultimately show ?thesis using f by (auto simp: read_line_def)
qed

definition exit_line :: string where
  "exit_line = ''exit()\<newline>''"

text \<open>A runner that only consumes input.\<close>

lemma repl_loop_no_exit:
  assumes "\<And>line st st'. codeRunner line st = Inr st' \<Longrightarrow> suffix (snd st') (snd st)" "\<not> sublist exit_line (snd st)"
  shows "\<not> (\<exists>r. repl_loop n codeRunner st = Inr r)"
  using assms(2)
proof (induction n arbitrary: st)
  case (Suc n)
  obtain line rest where l: "read_line (snd st) = (line, rest)" by fastforce
  obtain line' where s: "snd st = line' @ rest" "prefix line line'" using read_line_splits [of "snd st"] l by auto
  have "line \<noteq> exit_line"
    using Suc.prems s by (metis prefix_imp_sublist sublist_append_rightI sublist_order.order.trans)
  moreover have "\<not> sublist exit_line (snd st1)" if "codeRunner line (fst st, rest) = Inr st1" for st1
    using assms(1) [OF that] Suc.prems s(1)
    by (metis snd_conv suffix_imp_sublist suffix_order.trans suffixI sublist_order.order.trans)
  ultimately show ?case using Suc.IH l by (auto simp: exit_line_def elim!: bind_result_InrE)
qed simp

lemma for_stmts_input: "for_stmts pf n sts st = Inr (sts', st') \<Longrightarrow> suffix (ev_input (snd st')) (ev_input (snd st))"
proof (induction pf n sts st arbitrary: sts' st' rule: for_stmts.induct)
  case (2 pf n stmt stmts rs es)
  then obtain resolved stmt1 rs1 es1 sts1 where
    1: "resolve (pf_usable pf) n stmt rs = Inr ((resolved, stmt1), rs1)" "(if resolved then eval pf n stmt1 es else Inr es) = Inr es1"
      "for_stmts pf n stmts (rs1, es1) = Inr (sts1, st')" by (auto elim!: bind_result_InrE)
  have "suffix (ev_input es1) (ev_input es)" using 1(2) eval_stays [of pf n stmt1 es es1]
    by (auto simp: stays_def suffix_def split: if_splits)
  moreover have "suffix (ev_input (snd st')) (ev_input es1)" using "2.IH" [OF 1(3)] by simp
  ultimately show ?case by (simp add: suffix_order.trans)
qed simp

lemma repl_treewalk_input: "repl_treewalk pf fuel line st = Inr st' \<Longrightarrow> suffix (snd st') (snd st)"
  by (auto simp: repl_treewalk_def run_treewalk_chunk_def interp_def elim!: bind_result_InrE split: prod.splits option.splits dest!: for_stmts_input)

lemma repl_vm_input: "repl_vm fuel line st = Inr st' \<Longrightarrow> suffix (snd st') (snd st)"
  by (auto simp: repl_vm_def elim!: bind_result_InrE)

section \<open>The machine on a file\<close>

lemma native_define_silent:
  assumes "native_define vm name fn = Inr vm'"
  shows "vm_out vm' = vm_out vm" "vm_err vm' = vm_err vm"
  using assms
  by (auto simp: native_define_def vmstring_copy_def new_vmstring_def new_vmobject_def vmnative_new_def vm_stack_push_def vm_stack_pop_def Let_def
      elim!: bind_result_InrE split: if_splits option.splits prod.splits)

lemma vm_init_start:
  obtains vm where "vm_init clock = Inr vm" "heap_inv vm" "chunks_ok (vm_heap vm)" "vm_stack vm = []" "vm_frames vm = []"
    "vm_out vm = []" "vm_err vm = []" "\<And>as. Name_Lit ''clock'' \<notin> set (bconsts [] as) \<Longrightarrow> globals_clear vm as"
proof -
  let ?vm = "vm_stack_reset (empty_vm\<lparr>vm_clock := clock\<rparr>)"
  have vm: "vm_init clock = native_define ?vm ''clock'' native_clock" by (simp add: vm_init_def empty_vm_def)
  have "heap_inv ?vm" using empty_vm_inv by (simp add: heap_inv_def vm_stack_reset_def)
  then obtain vm' k where v: "native_define ?vm ''clock'' native_clock = Inr vm'" "heap_inv vm'" "vm_stack vm' = []"
    "vm_frames vm' = vm_frames ?vm" "is_fun (vm_heap vm') = is_fun (vm_heap ?vm)"
    "is_str (vm_heap vm') k" "vs_chars (str_of (vm_heap vm') k) = ''clock''" "table_inv (str_of (vm_heap vm')) (vm_globals vm')"
    "table_abs (vm_globals vm') = [k \<mapsto> VAL_OBJECT (length (vm_heap vm') - 1)]"
    by (rule native_define_ok [of ?vm "''clock''" native_clock]) (simp_all add: vm_stack_reset_def empty_vm_def)
  show thesis
  proof (rule that [of vm'])
    show "chunks_ok (vm_heap vm')" unfolding chunks_ok_def v(5) by (simp add: is_fun_def empty_vm_def vm_stack_reset_def)
    show "globals_clear vm' as" if "Name_Lit ''clock'' \<notin> set (bconsts [] as)" for as
      unfolding globals_clear_def v(9) using v(6-8) that by (simp split: if_splits)
  qed (use v vm native_define_silent [OF v(1)] in \<open>simp_all add: vm_stack_reset_def empty_vm_def\<close>)
qed

lemma vm_free_ends:
  assumes "heap_inv vm"
  shows "\<exists>bs vm'. vm_free vm = Inr (vm', bs) \<and> vm_out vm' = vm_out vm \<and> vm_err vm' = vm_err vm"
proof -
  have "\<exists>bs. objects_free (length (vm_heap vm)) (vm_heap vm) (vm_objects vm) = Inr bs"
    using objects_free_chain [of "vm_objects vm" "vm_heap vm" "length (vm_heap vm)" "length (vm_heap vm)"] assms
    by (simp add: heap_inv_def chain_ok_def)
  then show ?thesis by (auto simp: vm_free_def vm_stack_reset_def Let_def)
qed

lemma file_mode:
  assumes "argv = [prog, path] \<and> path \<notin> {''--tree-walk'', ''--vm'', ''--help''} \<or> argv = [prog, ''--vm'', path]"
    "files path = Some code" "CHR 0x00 \<notin> set code"
  shows "clox_main pf fuel clock files argv input
    = bind_result (run_vm_file fuel clock code) (\<lambda>(status, vm). Inr (status, [Header (program_name prog)], Engine_Vm vm))"
proof -
  have "c_string code = code" using assms(3) by (auto simp: c_string_def takeWhile_eq_all_conv)
  with assms(1,2) show ?thesis by (auto simp: clox_main_def argparse_def read_file_def)
qed

section \<open>The tree walker on a file\<close>

text \<open>The global environment after its start: the native functions \<^verbatim>\<open>clock\<close> and \<^verbatim>\<open>read\<close>.\<close>

definition native_dict :: "addr Dictionary" where
  "native_dict = added (added new_dict ''clock'' (Some 3)) ''read'' (Some 5)"

definition native_fun :: "CallFunc \<Rightarrow> cell" where
  "native_fun f = Cell_Callable \<lparr>ca_arity = 0, ca_call = f, ca_declaration = Decl_Null, ca_closure = None, ca_type = FUNCTION_TYPE_FUNCTION\<rparr>"

definition native_obj :: "addr \<Rightarrow> cell" where
  "native_obj a = Cell_Object \<lparr>lo_value = V_Callable a, lo_type = OBJ_CALLABLE, lo_valueSize = 40, lo_shallow = False, lo_propagateReturn = False\<rparr>"

definition global_cells :: "cell list" where
  "global_cells = [Cell_Env \<lparr>en_variables = Some 1, en_enclosing = None\<rparr>, Cell_Dict native_dict,
     native_fun clock_do, native_obj 2, native_fun read_do, native_obj 4]"

lemma length_global_cells: "length global_cells = 6"
  by (simp add: global_cells_def)

lemma native_hashes: "hash_code ''clock'' = 14" "hash_code ''read'' = 6"
  by (simp_all add: hash_code_def schar_def DICT_INITIAL_CAPACITY_def)

lemma dict_add_added:
  "dict_inv d \<Longrightarrow> dict_abs d key = None \<Longrightarrow> dict_add (Some d) key val = (Some (added d key val), True)"
  by (simp add: added_def dict_add_def dict_contains_abs Let_def)

lemma native_adds:
  "dict_add (Some new_dict) ''clock'' (Some (3 :: addr)) = (Some (added new_dict ''clock'' (Some 3)), True)"
  "dict_add (Some (added new_dict ''clock'' (Some (3 :: addr)))) ''read'' (Some 5) = (Some native_dict, True)"
  by (simp_all add: dict_add_added new_dict_inv new_dict_abs added_inv added_abs native_dict_def)

lemma env_init_global_cells: "env_init_global (initial_es input) = Inr ((initial_es input)\<lparr>ev_heap := map Some global_cells\<rparr>)"
  by (simp add: env_init_global_def env_init_def initial_es_def GlobalExecutionEnvironment_def get_env_def get_cell_def new_cell_def put_def
      env_clock_def env_read_def callable_new_def obj_new_def env_add_variable_def upd_obj_def get_obj_def heap_dict_add_def get_dict_def
      native_adds [simplified eval_nat_numeral BitM.simps One_nat_def] global_cells_def native_fun_def native_obj_def nth_append eval_nat_numeral)

lemma native_dict_pairs: "dict_destroy (Some native_dict) = [(''read'', Some 5), (''clock'', Some 3)]"
  by (simp add: native_dict_def dict_destroy_def added_def dict_add_def dict_contains_def dict_get_bucket_def new_dict_def Let_def native_hashes
      DICT_INITIAL_CAPACITY_def numeral_eq_Suc)

text \<open>Destroying a native function object of the global environment.\<close>

lemma native_destroyed:
  assumes "ev_heap s ! a = Some (native_obj c)" "ev_heap s ! c = Some (native_fun f)" "a < length (ev_heap s)" "c < length (ev_heap s)" "c \<noteq> a"
  shows "obj_force_destroy (obj_destroy pf (Suc n)) (Some a) s = Inr (s\<lparr>ev_heap := (ev_heap s)[a := None, c := None]\<rparr>)"
  using assms
  by (simp add: obj_force_destroy_def upd_obj_def get_obj_def get_cell_def native_obj_def native_fun_def put_def callable_ptr_def callable_destroy_def
      get_callable_def fr_def list_update_swap)

lemma global_destroyed:
  assumes "6 \<le> length (ev_heap s)" "\<forall>i < 6. ev_heap s ! i = Some (global_cells ! i)"
  shows "\<exists>s'. env_destroy (obj_force_destroy (obj_destroy pf (Suc n))) (Some GlobalExecutionEnvironment) s = Inr s' \<and> ev_out s' = ev_out s"
proof -
  have cells: "ev_heap s ! 0 = Some (Cell_Env \<lparr>en_variables = Some 1, en_enclosing = None\<rparr>)" "ev_heap s ! 1 = Some (Cell_Dict native_dict)"
      "ev_heap s ! 2 = Some (native_fun clock_do)" "ev_heap s ! 3 = Some (native_obj 2)"
      "ev_heap s ! 4 = Some (native_fun read_do)" "ev_heap s ! 5 = Some (native_obj 4)"
    using assms(2) [rule_format, of 0] assms(2) [rule_format, of 1] assms(2) [rule_format, of 2] assms(2) [rule_format, of 3]
      assms(2) [rule_format, of 4] assms(2) [rule_format, of 5] by (simp_all add: global_cells_def)
  let ?d = "obj_force_destroy (obj_destroy pf (Suc n))"
  let ?s1 = "s\<lparr>ev_heap := (ev_heap s)[5 := None, 4 := None]\<rparr>" and ?s2 = "s\<lparr>ev_heap := (ev_heap s)[5 := None, 4 := None, 3 := None, 2 := None]\<rparr>"
  have "?d (Some 5) s = Inr ?s1" using native_destroyed [of s 5 4 read_do pf n] cells assms(1) by simp
  moreover have "?d (Some 3) ?s1 = Inr ?s2" using native_destroyed [of ?s1 3 2 clock_do pf n] cells assms(1) by simp
  ultimately have "each_pair ?d (dict_destroy (Some native_dict)) s = Inr ?s2" by (simp add: native_dict_pairs)
  moreover have "get_cell s (Some 0) = Inr (Cell_Env \<lparr>en_variables = Some 1, en_enclosing = None\<rparr>)" "get_cell s (Some 1) = Inr (Cell_Dict native_dict)"
    using cells(1,2) assms(1) by (auto simp: get_cell_def)
  moreover have "get_cell ?s2 (Some 1) = Inr (Cell_Dict native_dict)" using cells(2) assms(1) by (auto simp: get_cell_def)
  moreover have "get_cell (?s2\<lparr>ev_heap := (ev_heap ?s2)[1 := None]\<rparr>) (Some 0) = Inr (Cell_Env \<lparr>en_variables = Some 1, en_enclosing = None\<rparr>)"
    using cells(1) assms(1) by (auto simp: get_cell_def)
  ultimately show ?thesis
    by (simp add: env_destroy_def heap_dict_destroy_def get_env_def get_dict_def fr_def GlobalExecutionEnvironment_def put_def)
qed

lemma tree_file_mode:
  assumes "files path = Some code" "CHR 0x00 \<notin> set code"
  shows "clox_main pf fuel clock files [prog, ''--tree-walk'', path] input
    = bind_result (run_treewalk_file pf fuel code (initial_rs, initial_es input)) (\<lambda>(rs, es). Inr (0, [Header (program_name prog)], Engine_Tree rs es))"
proof -
  have "c_string code = code" using assms(2) by (auto simp: c_string_def takeWhile_eq_all_conv)
  with assms(1) show ?thesis by (auto simp: clox_main_def argparse_def read_file_def)
qed

lemma treewalk_file_prints:
  assumes "map tok_sketch (butlast (tkz_values (toknzr code False))) = concat (map ssketch (map Print cs))"
    "list_all (\<lambda>c. fits 1 c \<and> unchained c \<and> portable c) cs" "list_all2 (\<lambda>c v. value_of c = Inr v) cs vs"
    "4 * length (tkz_values (toknzr code False)) \<le> fuel"
  shows "\<exists>es. run_treewalk_file pf fuel code (rs, initial_es input) = Inr (rs, es) \<and> ev_out es = map tree_line vs"
proof -
  let ?es = "(initial_es input)\<lparr>ev_heap := map Some global_cells\<rparr>"
  from interp_prints [OF assms, of pf rs ?es] obtain es where
    i: "interp pf fuel code (rs, ?es) = Inr ([], rs, es)" "ev_out es = map tree_line vs" "kept ?es es" by (auto simp: initial_es_def)
  have "6 \<le> length (ev_heap es)" "\<forall>i < 6. ev_heap es ! i = Some (global_cells ! i)"
    using i(3) by (auto simp: kept_def length_global_cells)
  moreover obtain n where "fuel = Suc n" using assms(4) by (cases fuel) (auto simp: toknzr_def Let_def)
  ultimately obtain es' where "env_destroy (obj_force_destroy (obj_destroy pf fuel)) (Some GlobalExecutionEnvironment) es = Inr es'" "ev_out es' = ev_out es"
    using global_destroyed [of es pf n] by auto
  with i show ?thesis by (simp add: run_treewalk_file_def env_init_global_cells run_treewalk_chunk_def)
qed

section \<open>The properties of the program\<close>

text \<open>
  C8. The program runs files. For a file of print, expression, \<^verbatim>\<open>if\<close>, \<^verbatim>\<open>while\<close> and \<^verbatim>\<open>for\<close> statements, global
  variables and blocks with local variables, in which no global is called \<^verbatim>\<open>clock\<close>, \<^verbatim>\<open>clox FILE\<close> and
  \<^verbatim>\<open>clox --vm FILE\<close> start the machine, interpret the text and release the machine without a fault. The
  output is the one the meaning of the program gives it; the exit status is 0, or 70 with the error
  message and its trace when the program has a type error or uses a variable that is not defined. A
  program whose loops need more than \<open>n\<close> rounds is still running after \<open>n\<close> steps.
\<close>

theorem main_runs_file:
  assumes "argv = [prog, path] \<and> path \<notin> {''--tree-walk'', ''--vm'', ''--help''} \<or> argv = [prog, ''--vm'', path]"
    "files path = Some code" "CHR 0x00 \<notin> set code"
    "map tok_sketch (butlast (tkz_values (toknzr code False))) = concat (map ssketch as)" "wf_prog as"
    "bheight as < STACK_MAX" "length (tkz_values (toknzr code False)) + 2 < fuel" "Name_Lit ''clock'' \<notin> set (bconsts [] as)"
  shows "case peval n as of
      Some (out, Inr _) \<Rightarrow> bsteps n as + 2 \<le> fuel \<longrightarrow> (\<exists>vm. clox_main pf fuel clock files argv input = Inr (0, [Header (program_name prog)], Engine_Vm vm)
        \<and> vm_out vm = out \<and> vm_err vm = [])
    | Some (out, Inl msg) \<Rightarrow> bsteps n as + 2 \<le> fuel \<longrightarrow> (\<exists>vm line. clox_main pf fuel clock files argv input = Inr (70, [Header (program_name prog)], Engine_Vm vm)
        \<and> vm_out vm = out \<and> vm_err vm = [msg, Err_Trace line None])
    | None \<Rightarrow> fuel \<le> n \<longrightarrow> clox_main pf fuel clock files argv input = Inl Out_Of_Fuel"
proof -
  obtain vm where vm: "vm_init clock = Inr vm" "heap_inv vm" "chunks_ok (vm_heap vm)" "vm_stack vm = []" "vm_frames vm = []"
    "vm_out vm = []" "vm_err vm = []" "\<And>as. Name_Lit ''clock'' \<notin> set (bconsts [] as) \<Longrightarrow> globals_clear vm as"
    using vm_init_start by blast
  note mode = file_mode [where files = files, OF assms(1-3)]
  show ?thesis
  proof (cases "peval n as")
    case None
    then show ?thesis using interpret_goes_on [OF vm(2-5) vm(8) assms(4-7) None] assms(8) by (simp add: mode run_vm_file_def vm(1))
  next
    case (Some p)
    have "interprets vm p (vm_interpret fuel code vm)" if "bsteps n as + 2 \<le> fuel"
      by (rule interpret_program [OF vm(2-5) vm(8) [OF assms(8)] assms(4-7) Some that])
    then show ?thesis
      unfolding mode run_vm_file_def vm(1) bind_result_Inr
      by (auto simp: Some interprets_def vm(6,7) split: prod.splits sum.splits dest!: vm_free_ends)
  qed
qed

definition no_file :: "string \<Rightarrow> string option" where
  "no_file path = None"

theorem main_runs_file_witness:
  "\<exists>vm line. clox_main glibc 300 [] (no_file(''a.lox'' \<mapsto> sample_text)) [''./clox'', ''a.lox''] [] = Inr (70, [Header (program_name ''./clox'')], Engine_Vm vm)
    \<and> vm_out vm = sample_out \<and> vm_err vm = [unknown_write ''k'', Err_Trace line None]"
proof -
  have "CHR 0x00 \<notin> set sample_text" "Name_Lit ''clock'' \<notin> set (bconsts [] sample_prog)" by code_simp+
  then have "case peval 3 sample_prog of
      Some (out, Inr _) \<Rightarrow> bsteps 3 sample_prog + 2 \<le> 300 \<longrightarrow>
        (\<exists>vm. clox_main glibc 300 [] (no_file(''a.lox'' \<mapsto> sample_text)) [''./clox'', ''a.lox''] []
          = Inr (0, [Header (program_name ''./clox'')], Engine_Vm vm) \<and> vm_out vm = out \<and> vm_err vm = [])
    | Some (out, Inl msg) \<Rightarrow> bsteps 3 sample_prog + 2 \<le> 300 \<longrightarrow>
        (\<exists>vm line. clox_main glibc 300 [] (no_file(''a.lox'' \<mapsto> sample_text)) [''./clox'', ''a.lox''] []
          = Inr (70, [Header (program_name ''./clox'')], Engine_Vm vm)
        \<and> vm_out vm = out \<and> vm_err vm = [msg, Err_Trace line None])
    | None \<Rightarrow> 300 \<le> (3 :: nat) \<longrightarrow> clox_main glibc 300 [] (no_file(''a.lox'' \<mapsto> sample_text)) [''./clox'', ''a.lox''] [] = Inl Out_Of_Fuel"
    by (intro main_runs_file [where path = "''a.lox''" and code = sample_text]) (simp_all add: sample_facts)
  then show ?thesis by (simp add: sample_facts(1,6))
qed

text \<open>
  C2. Both engines print the same. Take a file of print statements over numbers, \<^verbatim>\<open>true\<close>, \<^verbatim>\<open>false\<close>,
  \<^verbatim>\<open>nil\<close> and all operators, without chains of \<^verbatim>\<open>and\<close> or \<^verbatim>\<open>or\<close>, whose expressions all have values and negate
  or compare no \<^verbatim>\<open>nil\<close> and no NaN in the ways the engines treat differently. With \<^verbatim>\<open>--vm\<close> the program
  prints the values, each constant echoed once more, and exits with 0. With \<^verbatim>\<open>--tree-walk\<close> it tokenizes,
  parses, resolves and evaluates the text, prints exactly the same values, frees the trees and the
  global environment without a fault, and exits with 0.
\<close>

theorem main_engines_agree:
  assumes "files path = Some code" "CHR 0x00 \<notin> set code"
    "map tok_sketch (butlast (tkz_values (toknzr code False))) = concat (map ssketch (map Print cs))" "wf_prog (map Print cs)"
    "bheight (map Print cs) < STACK_MAX"
    "4 * length (tkz_values (toknzr code False)) + 2 < fuel" "length (pcode 0 (map Print cs)) + 2 \<le> fuel"
    "list_all (\<lambda>c. unchained c \<and> portable c) cs" "list_all2 (\<lambda>c v. value_of c = Inr v) cs vs"
  shows "\<exists>vm rs es. clox_main pf fuel clock files [prog, ''--vm'', path] input = Inr (0, [Header (program_name prog)], Engine_Vm vm)
    \<and> vm_out vm = concat (map2 (\<lambda>c v. fst (eeval c ([], [])) @ line_of v) cs vs)
    \<and> clox_main pf fuel clock files [prog, ''--tree-walk'', path] input = Inr (0, [Header (program_name prog)], Engine_Tree rs es)
    \<and> ev_out es = map tree_line vs"
proof -
  obtain vm where vm: "vm_init clock = Inr vm" "heap_inv vm" "chunks_ok (vm_heap vm)" "vm_stack vm = []" "vm_frames vm = []"
    "vm_out vm = []" "vm_err vm = []" "\<And>as. Name_Lit ''clock'' \<notin> set (bconsts [] as) \<Longrightarrow> globals_clear vm as"
    using vm_init_start by blast
  have "interprets vm (concat (map2 (\<lambda>c v. fst (eeval c ([], [])) @ line_of v) cs vs), Inr (([], []) :: store)) (vm_interpret fuel code vm)"
    by (rule interpret_program [OF vm(2-5) vm(8) assms(3-5) _ peval_prints [OF assms(9), of 0]])
      (use assms(6-8) bsteps_prints [of 0 cs 0] prints_consts [of cs "''clock''" "[]"] in \<open>simp_all add: list_all_iff\<close>)
  then have "\<exists>vm. clox_main pf fuel clock files [prog, ''--vm'', path] input = Inr (0, [Header (program_name prog)], Engine_Vm vm)
      \<and> vm_out vm = concat (map2 (\<lambda>c v. fst (eeval c ([], [])) @ line_of v) cs vs)"
    using file_mode [of "[prog, ''--vm'', path]" prog path files code pf fuel clock input] assms(1,2)
    by (auto simp: run_vm_file_def vm(1,6) interprets_def dest!: vm_free_ends)
  moreover have "\<exists>rs es. clox_main pf fuel clock files [prog, ''--tree-walk'', path] input = Inr (0, [Header (program_name prog)], Engine_Tree rs es)
      \<and> ev_out es = map tree_line vs"
    using tree_file_mode [where files = files, OF assms(1,2), of pf fuel clock prog input] treewalk_file_prints [OF assms(3) _ assms(9), of fuel pf initial_rs input] assms(4,6,8)
    by (auto simp: wf_prog_def wf_exp_def list_all_iff)
  ultimately show ?thesis by blast
qed

theorem main_engines_agree_witness:
  "\<exists>vm rs es. clox_main glibc 70 [] (no_file(''a.lox'' \<mapsto> sample_prints_text)) [''clox'', ''--vm'', ''a.lox''] []
      = Inr (0, [Header (program_name ''clox'')], Engine_Vm vm)
    \<and> vm_out vm = concat (map2 (\<lambda>c v. fst (eeval c ([], [])) @ line_of v) sample_prints [truth True, truth False])
    \<and> clox_main glibc 70 [] (no_file(''a.lox'' \<mapsto> sample_prints_text)) [''clox'', ''--tree-walk'', ''a.lox''] []
      = Inr (0, [Header (program_name ''clox'')], Engine_Tree rs es)
    \<and> ev_out es = map tree_line [truth True, truth False]"
  by (rule main_engines_agree) (use sample_prints_facts in \<open>simp_all add: fun_upd_same\<close>)

text \<open>
  C34. The interactive mode ends only by command. Started without a file, in either engine, with an
  input that nowhere contains the line \<^verbatim>\<open>exit()\<close>, the program never returns: \<^verbatim>\<open>read_line\<close> gives an empty
  line for ever once the input is at its end.
\<close>

theorem repl_needs_exit:
  assumes "argv \<in> {[prog], [prog, ''--vm''], [prog, ''--tree-walk'']}" "\<not> sublist exit_line input"
  shows "\<not> (\<exists>r. clox_main pf fuel clock files argv input = Inr r)"
proof -
  have "\<not> (\<exists>r. repl_loop fuel (repl_treewalk pf fuel) ((initial_rs, initial_es input), input) = Inr r)"
    by (rule repl_loop_no_exit) (use assms(2) repl_treewalk_input in auto)
  moreover have "\<not> (\<exists>r. repl_loop fuel (repl_vm fuel) (vm, input) = Inr r)" for vm
    by (rule repl_loop_no_exit) (use assms(2) repl_vm_input in auto)
  ultimately show ?thesis using assms(1)
    by (auto simp: clox_main_def argparse_def main_repl_def elim!: bind_result_InrE)
qed

theorem repl_needs_exit_witness:
  "\<not> (\<exists>r. clox_main glibc 70 [] no_file [''clox''] ''print 1;\<newline>'' = Inr r)"
  by (rule repl_needs_exit [where prog = "''clox''"]) (simp, code_simp)

end
