(* ===== verification/Spec2Isabelle.thy ===== *)
theory Spec2Isabelle
  imports Clox_Prelude C_Double Clox_Interfaces Clox_Tokenizer Clox_List Clox_Dict Clox_Value
    Clox_Table Clox_Strings Clox_Vm Clox_Safety Clox_Debug Clox_Compiler
    Clox_Compile_Safety Clox_Compile_Props Clox_Codegen Clox_Codegen_Prog Clox_Run
    Clox_Parser Clox_Parser_Props Clox_Grammar
    Clox_Visitor Clox_Resolve Clox_Resolve_Props Clox_Objects Clox_Eval Clox_Eval_Props Clox_Lookup
    Clox_Tree_Eval Clox_Engines Clox_Main
begin

text \<open>
  A verification development for clox, the Lox interpreter under \<^verbatim>\<open>src/clox\<close>.

  \<^bold>\<open>The program.\<close> clox reads Lox source, splits it into tokens (\<^verbatim>\<open>src/tokenizer.c\<close>) and runs it by
  one of two engines: a bytecode virtual machine (\<^verbatim>\<open>src/vm/\<close>) that a single-pass compiler feeds,
  or a tree walker (\<^verbatim>\<open>src/parse.c\<close>, \<^verbatim>\<open>resolve.c\<close>, \<^verbatim>\<open>eval.c\<close>, \<^verbatim>\<open>env.c\<close>). Both share the tokenizer and
  the containers of \<^verbatim>\<open>src/ds/\<close>. \<^verbatim>\<open>main.c\<close> chooses the engine and reads a file or, line by line, the terminal.

  \<^bold>\<open>Theories.\<close>
  \<^item> \<open>Clox_Prelude\<close>: faults, results with their bind, the preserved-assertion combinator \<open>holds\<close>,
    bytes and shorts, list lemmas, \<^verbatim>\<open>GROW_CAPACITY\<close>, the layout of structs.
  \<^item> \<open>C_Double\<close>: the arithmetic of \<^verbatim>\<open>double\<close> the machine uses, executable and with rounding.
  \<^item> \<open>Clox_Tokenizer\<close>: \<^verbatim>\<open>tokenizer.c\<close>, the scanner of both modes. Shown: one end-of-file token,
    agreement of the modes, longest match, the round trip of string literals, line counting.
  \<^item> \<open>Clox_List\<close>: \<^verbatim>\<open>ds/list.c\<close> over an explicit store of nodes. Shown: push and pop, traversal,
    clearing, removal; the list is an instance of the stack interface.
  \<^item> \<open>Clox_Interfaces\<close>: the locales of an association, with insertion or update, and of a growing
    array, with the lemmas their clients use.
  \<^item> \<open>Clox_Dict\<close>: \<^verbatim>\<open>ds/dict.c\<close>, an instance of the association with insertion.
  \<^item> \<open>Clox_Value\<close>: \<^verbatim>\<open>vm/value.c\<close> and \<^verbatim>\<open>vm/chunk.c\<close>: values, objects, chunks; both arrays are
    instances of the growing array.
  \<^item> \<open>Clox_Table\<close>: \<^verbatim>\<open>vm/table.c\<close>, open addressing with tombstones, an instance of the association
    with update. Shown: refinement of a finite map, invariant, load factor, union.
  \<^item> \<open>Clox_Strings\<close>: the state of the machine (\<^verbatim>\<open>vm.h\<close>), object allocation and string interning
    (\<^verbatim>\<open>vm/compiler.c\<close>, \<^verbatim>\<open>vmstring_copy\<close> and its helpers). Shown: interning identifies exactly equal
    strings, every object is freed once.
  \<^item> \<open>Clox_Vm\<close>: \<^verbatim>\<open>vm/vm.c\<close>, every opcode, calls, natives, runtime errors, the run loop.
  \<^item> \<open>Clox_Safety\<close>: a bytecode verifier and the proof that verified code never crashes the
    machine; what calls, returns and string addition do to the stack.
  \<^item> \<open>Clox_Debug\<close>: \<^verbatim>\<open>vm/debug.c\<close>, the disassembler, and its agreement with the machine.
  \<^item> \<open>Clox_Compiler\<close>: \<^verbatim>\<open>vm/compiler.c\<close>, the Pratt parser that emits bytecode.
  \<^item> \<open>Clox_Compile_Safety\<close>, \<open>Clox_Compile_Props\<close>: what the compiler keeps true. The recursive knots of
    expressions and of statements are locales, interpreted on \<^verbatim>\<open>prec_parse\<close> and \<^verbatim>\<open>statement\<close>. Shown:
    compilation is safe on every source text, jumps land where they were patched, and the two
    defects that keep the compiler from coming back.
  \<^item> \<open>Clox_Codegen\<close>, \<open>Clox_Codegen_Prog\<close>: what the compiler emits. Expressions and statements are
    trees, \<open>sketch\<close> gives their tokens, \<open>fits\<close> the grouping that precedence demands, \<open>ecode\<close> and
    \<open>scode\<close> the bytes, \<open>econsts\<close> and \<open>sconsts\<close> the constants; \<^verbatim>\<open>prec_parse\<close>, \<^verbatim>\<open>statement\<close> and \<^verbatim>\<open>compile\<close> emit
    exactly these. Variables are locals at the slot of their innermost declaration, or globals
    whose names are interned strings among the constants.
  \<^item> \<open>Clox_Run\<close>: the meaning of expressions and statements over a store of locals and globals, and that
    the machine computes it from the emitted bytes. Locals are cells of the stack; globals are
    entries of the hash table, under the string object of their name. A loop that does not end
    keeps the machine running.
  \<^item> \<open>Clox_Parser\<close>: \<^verbatim>\<open>parse.c\<close>, the recursive-descent parser of the tree walker and the
    destruction of its trees.
  \<^item> \<open>Clox_Parser_Props\<close>, \<open>Clox_Grammar\<close>: the parser ends in a number of calls below the number of
    tokens, error recovery included; it builds exactly the tree that the expression grammar of Lox
    derives, within limits that are stated there (chains of one logical operator, \<^verbatim>\<open>this\<close>, \<^verbatim>\<open>super\<close>, the
    number of arguments); destroying a tree frees all its nodes but the arguments of calls.
  \<^item> \<open>Clox_Visitor\<close>: \<^verbatim>\<open>visitor.c\<close>, the dispatch on the kind of a node that resolver and evaluator share.
  \<^item> \<open>Clox_Resolve\<close>, \<open>Clox_Resolve_Props\<close>: \<^verbatim>\<open>resolve.c\<close>. The knots of expressions and statements are
    locales, interpreted on \<^verbatim>\<open>resolve_expr\<close> and \<^verbatim>\<open>resolve\<close>. Shown: on every tree without a missing part the
    resolver ends, restores its scopes and computes the lexical distance of every variable, given by
    a reference numbering; and how the write of \<^verbatim>\<open>dict_set\<close> into a flag leaves its memory, by the layout
    of the struct it takes the flag for.
  \<^item> \<open>Clox_Objects\<close>: \<^verbatim>\<open>eval.h\<close>, \<^verbatim>\<open>env.c\<close> and the object functions of \<^verbatim>\<open>eval.c\<close> over one heap of objects,
    environments, dictionaries, callables, classes and instances, in which a freed cell is \<open>None\<close>.
  \<^item> \<open>Clox_Eval\<close>: the rest of \<^verbatim>\<open>eval.c\<close>, every expression and statement, and \<^verbatim>\<open>interp.c\<close>.
  \<^item> \<open>Clox_Eval_Props\<close>: an invariant of the evaluator on all programs, proved once in a locale for the
    recursive calls: the current environment is restored, output only grows, input only shrinks.
  \<^item> \<open>Clox_Lookup\<close>: resolver and environments together: a variable is found in the innermost
    environment that has it; assignment never rebinds a variable, and crashes on a global one.
  \<^item> \<open>Clox_Tree_Eval\<close>, \<open>Clox_Engines\<close>: the evaluator computes the meaning that \<open>Clox_Run\<close> gives to
    expressions, where neither of the listed differences of the engines is met.
  \<^item> \<open>Clox_Main\<close>: \<^verbatim>\<open>main.c\<close>: arguments, files, exit status, the interactive loops. Shown: the program on a
    file prints the meaning of its text with either engine, and the interactive mode needs its
    exit command.

  \<^bold>\<open>State and errors.\<close> C structs are records, enumerations are datatypes, pointers to heap
  objects are indices into an object list, node pointers are addresses of an explicit store.
  What C leaves undefined (NULL dereferences, reads outside an array, calls through NULL, stack
  underflow) is a value \<open>Inl (Crash _)\<close> of the result type, so that its absence can be proved.

  \<^bold>\<open>Fuel.\<close> Loops that walk data recurse on it or on a measure. \<^verbatim>\<open>vm_run\<close> and the mutually recursive
  parts of the compiler take a step budget, since Lox programs need not end and \<^verbatim>\<open>synchronize\<close>
  does not; the probe loops of the hash table take a budget of the capacity, which is proved to
  be enough under the table's invariant. The resolver needs as many calls as the tree has nodes, the
  tree walker on print statements four for every token; both are proved to be enough. The meaning of
  statements counts the rounds of loops: with \<open>n\<close> of them the machine ends within \<open>bsteps n\<close> steps, and
  if \<open>n\<close> are not enough for the program it is still running after \<open>n\<close> steps. In general
  the evaluator's budget bounds the depth of evaluation and the rounds of one loop, and programs
  need not end within any.

  \<^bold>\<open>Platform.\<close> Some outcomes depend on the C library: the usable size of an allocated block, the low
  half of an address that \<^verbatim>\<open>dict_set\<close> writes over a type field, the content of uninitialised memory, the
  clock, the content of files. They are arguments of the model (\<open>Platform\<close>, \<open>files\<close>, \<open>clock\<close>), and the
  theorems hold for all of them or state what they need.

  \<^bold>\<open>Build.\<close> The model is the program built without \<^verbatim>\<open>DEBUG\<close>. \<^verbatim>\<open>CMakeLists.txt\<close> defines it for debug builds
  and when no build type is given, and \<^verbatim>\<open>include/vm/common.h\<close> then turns on traces to the standard output:
  the stack and the disassembled instruction before every step of \<^verbatim>\<open>vm_run\<close>, the disassembled chunk at the
  end of \<^verbatim>\<open>compiler_end\<close>, and the tokens in \<^verbatim>\<open>compile\<close>. They change no state; the outputs of the theorems
  are those without the traces.
  The disassembler they call is modelled on its own, in \<open>Clox_Debug\<close>.

  \<^bold>\<open>Numbers.\<close> Bytes, shorts, jump distances and hashes are machine words and wrap. The counts and
  capacities of arrays, tables, lists and dictionaries, the lines, columns and positions of tokens and the
  sizes of strings are \<^verbatim>\<open>int\<close> in C and \<open>nat\<close> or \<open>int\<close> without a bound here: what happens beyond 2147483647
  elements is not part of the model.

  \<^bold>\<open>Memory.\<close> An allocation always succeeds and returns a place that was not used before: the heaps and
  stores only grow, and a freed cell stays marked. Statements that a heap does not shrink are therefore
  about cells not being dropped, not about the reuse of addresses by \<^verbatim>\<open>malloc\<close>.

  \<^bold>\<open>Not modelled.\<close> Exhaustion of memory; the \<^verbatim>\<open>getchar\<close> at the end of a successful run of a file
  by the machine; the text that \<^verbatim>\<open>printf\<close> makes of a number; the number printed
  for a \<^verbatim>\<open>%d\<close> that has no argument; that the trees of an earlier line of the interactive mode are freed
  while closures may still point to them (the model keeps the tree with the closure). The rest of
  the repository (\<^verbatim>\<open>4.4BSD-Lite2\<close>, \<^verbatim>\<open>lua\<close>, tracing scripts, the Python program \<^verbatim>\<open>toy_paxos\<close>) is no part of clox.
\<close>


section \<open>From source text to output\<close>

text \<open>
  C1. The compiler and the machine together run programs correctly. Take a source text whose
  tokens are those of a list of print, expression, \<^verbatim>\<open>if\<close>, \<^verbatim>\<open>while\<close> and \<^verbatim>\<open>for\<close> statements, declarations of
  global variables and nested blocks with local variables, over numbers, \<^verbatim>\<open>true\<close>, \<^verbatim>\<open>false\<close>, \<^verbatim>\<open>nil\<close>, variables,
  assignments and all operators, grouped as precedence and associativity demand, with at most 256
  constants, at most 255 locals and branches short enough to jump over. The machine is idle and has
  no global of a name that the program uses as a global. If the loops of the program end within
  \<open>n\<close> rounds, interpreting the text ends within the given number of steps, keeps the heap
  invariant, compiles without an error and produces exactly the output that the meaning of the program
  gives it (each number once more than printed, because \<^verbatim>\<open>OP_CONSTANT\<close> prints its operand). A run
  without an error succeeds, with the script alone left on the stack; a type error or a variable that
  is not defined ends it with the message and one line of trace on an empty stack. If the loops do
  not end within \<open>n\<close> rounds, the machine is still running after \<open>n\<close> steps.
\<close>

theorem program_runs:
  assumes "heap_inv vm" "chunks_ok (vm_heap vm)" "vm_stack vm = []" "vm_frames vm = []" "globals_clear vm as"
    "map tok_sketch (butlast (tkz_values (toknzr code False))) = concat (map ssketch as)" "wf_prog as"
    "bheight as < STACK_MAX" "length (tkz_values (toknzr code False)) + 2 < fuel"
  shows "case peval n as of
      Some (out, Inr _) \<Rightarrow> bsteps n as + 2 \<le> fuel \<longrightarrow> (\<exists>vm'. vm_interpret fuel code vm = Inr (INTERPRET_OK, vm')
        \<and> vm_out vm' = vm_out vm @ out \<and> vm_err vm' = vm_err vm \<and> vm_frames vm' = [] \<and> length (vm_stack vm') = 1 \<and> heap_inv vm')
    | Some (out, Inl msg) \<Rightarrow> bsteps n as + 2 \<le> fuel \<longrightarrow> (\<exists>vm' line. vm_interpret fuel code vm = Inr (INTERPRET_RUNTIME_ERROR, vm')
        \<and> vm_out vm' = vm_out vm @ out \<and> vm_err vm' = vm_err vm @ [msg, Err_Trace line None]
        \<and> vm_frames vm' = [] \<and> vm_stack vm' = [] \<and> heap_inv vm')
    | None \<Rightarrow> fuel \<le> n \<longrightarrow> vm_interpret fuel code vm = Inl Out_Of_Fuel"
proof (cases "peval n as")
  case None
  then show ?thesis using interpret_goes_on [OF assms None] by simp
next
  case (Some p)
  then show ?thesis using interpret_program [OF assms Some] by (auto simp: interprets_def split: prod.splits sum.splits)
qed

theorem program_runs_witness:
  "\<exists>vm' line. vm_interpret 300 sample_text empty_vm = Inr (INTERPRET_RUNTIME_ERROR, vm') \<and> vm_out vm' = vm_out empty_vm @ sample_out
     \<and> vm_err vm' = vm_err empty_vm @ [unknown_write ''k'', Err_Trace line None] \<and> vm_frames vm' = [] \<and> vm_stack vm' = []
     \<and> heap_inv vm'"
proof -
  have "case peval 3 sample_prog of
      Some (out, Inr _) \<Rightarrow> bsteps 3 sample_prog + 2 \<le> 300 \<longrightarrow> (\<exists>vm'. vm_interpret 300 sample_text empty_vm = Inr (INTERPRET_OK, vm')
        \<and> vm_out vm' = vm_out empty_vm @ out \<and> vm_err vm' = vm_err empty_vm \<and> vm_frames vm' = [] \<and> length (vm_stack vm') = 1 \<and> heap_inv vm')
    | Some (out, Inl msg) \<Rightarrow> bsteps 3 sample_prog + 2 \<le> 300 \<longrightarrow> (\<exists>vm' line. vm_interpret 300 sample_text empty_vm = Inr (INTERPRET_RUNTIME_ERROR, vm')
        \<and> vm_out vm' = vm_out empty_vm @ out \<and> vm_err vm' = vm_err empty_vm @ [msg, Err_Trace line None]
        \<and> vm_frames vm' = [] \<and> vm_stack vm' = [] \<and> heap_inv vm')
    | None \<Rightarrow> 300 \<le> (3 :: nat) \<longrightarrow> vm_interpret 300 sample_text empty_vm = Inl Out_Of_Fuel"
  proof (rule program_runs)
    show "heap_inv empty_vm" by (rule empty_vm_inv)
    show "chunks_ok (vm_heap empty_vm)" "vm_stack empty_vm = []" "vm_frames empty_vm = []"
      by (simp_all add: chunks_ok_def is_fun_def empty_vm_def)
    show "globals_clear empty_vm sample_prog" by (simp add: globals_clear_def empty_vm_def table_init_inv table_init_abs)
  qed (simp_all add: sample_facts)
  then show ?thesis by (simp add: sample_facts(1,6))
qed

end
